(* ===== verification/Prelude.thy ===== *)
theory Prelude
  imports Main "HOL-Library.Word" "HOL-Library.Monad_Syntax"
begin

text \<open>
  The vocabulary shared by every theory of the development: the C integer types of the
  sources as words, addresses, the \<open>NULL\<close> pointer, the named theorem collections, and the
  generic facts on words, options and lists that the component proofs rest on.

  Conventions of the whole development.
  \<^item> A pointer is an \<open>addr\<close>, a natural number; address 0 is the null pointer.
  \<^item> A C function that may dereference a pointer returns an \<open>option\<close>: \<open>None\<close> is
    undefined behaviour (the pointer does not point to an object of the expected type) or a
    loop that never ends; error returns of the code are ordinary values inside \<open>Some\<close>.
  \<^item> C integers whose wrap-around can matter keep their width.
\<close>

type_synonym u8 = "8 word"
type_synonym u16 = "16 word"
type_synonym u32 = "32 word"
type_synonym u64 = "64 word"
type_synonym addr = nat

abbreviation (input) NULL :: addr where
  "NULL \<equiv> 0"

text \<open>
  \<open>alloc_facts\<close> collects what the allocators guarantee, \<open>queue_facts\<close> what the queue
  operations guarantee, \<open>frame_facts\<close> which parts of the state an operation leaves alone.
\<close>

named_theorems alloc_facts
named_theorems queue_facts
named_theorems frame_facts

section \<open>Options\<close>

lemma bind_SomeE [elim!]:
  assumes "Option.bind m f = Some r"
  obtains x where "m = Some x" and "f x = Some r"
  using assms by (cases m) auto

lemma bind_neq_None:
  "(Option.bind m f \<noteq> None) = (\<exists>x. m = Some x \<and> f x \<noteq> None)"
  by (cases m) auto

section \<open>Arithmetic on sizes\<close>

lemma pow2_add_split: "b + (2::nat) ^ k + 2 ^ k = b + 2 ^ Suc k"
  by simp

lemma dvd_add_half:
  "(2::nat) ^ n dvd x \<Longrightarrow> n \<le> k \<Longrightarrow> 2 ^ n dvd x + 2 ^ k"
  by (simp add: le_imp_power_dvd)

lemma unat_less_helper_nat: "(x :: 'a::len word) < of_nat n \<Longrightarrow> unat x < n"
proof -
  assume "x < of_nat n"
  then have "unat x < unat (of_nat n :: 'a word)" by (simp add: word_less_nat_alt)
  also have "\<dots> \<le> n" by (simp add: unat_of_nat)
  finally show ?thesis .
qed

lemma unat_of_nat_small: "n < 2 ^ LENGTH('a::len) \<Longrightarrow> unat (of_nat n :: 'a word) = n"
  by (simp add: unat_of_nat)

section \<open>Signed integers\<close>

text \<open>Signed arithmetic of \<open>w\<close> bits is undefined out of range.\<close>

definition int_of :: "nat \<Rightarrow> int \<Rightarrow> int option" where
  "int_of w i = (if - (2 ^ (w - 1)) \<le> i \<and> i < 2 ^ (w - 1) then Some i else None)"

end
