(* ===== verification/Buddy_Tree.thy ===== *)
theory Buddy_Tree
  imports Prelude
begin

text \<open>
  The abstract specification of the buddy system: a binary tree whose leaves are free or
  used blocks. A tree of height \<open>k\<close> at address \<open>b\<close> governs the bytes
  \<open>b ..< b + 2 ^ (5 + k)\<close>; the smallest block, a tree of height 0, has
  \<open>2 ^ HEAP_ORDER_MIN = 32\<close> bytes. \<open>tree_acquire\<close> and \<open>tree_release\<close> are the two
  operations; the lemmas say which blocks exist after each of them. The array of nodes of
  \<open>Kernel/mmu/buddy.c\<close> is shown to implement this tree in theory \<open>Buddy\<close>.
\<close>

datatype btree = BFree | BUsed | BSplit btree btree

text \<open>\<open>bsize k\<close>: the bytes of a block of height \<open>k\<close>, that is of order \<open>5 + k\<close>.\<close>

definition bsize :: "nat \<Rightarrow> nat" where
  "bsize k = 2 ^ (5 + k)"

lemma bsize_Suc [simp]: "bsize (Suc k) = 2 * bsize k"
  by (simp add: bsize_def power_add)

lemma bsize_pos [simp]: "0 < bsize k"
  by (simp add: bsize_def)

lemma bsize_ge_32: "32 \<le> bsize k"
proof -
  have "(2::nat) ^ 5 \<le> 2 ^ (5 + k)" by (rule power_increasing) auto
  then show ?thesis by (simp add: bsize_def)
qed

lemma bsize_dvd: "j \<le> k \<Longrightarrow> bsize j dvd bsize k"
  by (simp add: bsize_def le_imp_power_dvd)

lemma bsize_mono: "j \<le> k \<Longrightarrow> bsize j \<le> bsize k"
  by (simp add: bsize_dvd dvd_imp_le)

lemma bsize_inj [simp]: "bsize j = bsize k \<longleftrightarrow> j = k"
  by (simp add: bsize_def)

section \<open>Well-formed trees and their blocks\<close>

text \<open>A canonical tree fits its height and never keeps a block split into two free halves.\<close>

fun canon :: "nat \<Rightarrow> btree \<Rightarrow> bool" where
  "canon k BFree = True"
| "canon k BUsed = True"
| "canon 0 (BSplit l r) = False"
| "canon (Suc k) (BSplit l r) = (canon k l \<and> canon k r \<and> \<not> (l = BFree \<and> r = BFree))"

text \<open>The used blocks, as pairs of base address and height, and the free ones.\<close>

fun used_blocks :: "nat \<Rightarrow> addr \<Rightarrow> btree \<Rightarrow> (addr \<times> nat) set" where
  "used_blocks k b BFree = {}"
| "used_blocks k b BUsed = {(b, k)}"
| "used_blocks 0 b (BSplit l r) = {}"
| "used_blocks (Suc k) b (BSplit l r) =
     used_blocks k b l \<union> used_blocks k (b + bsize k) r"

fun free_blocks :: "nat \<Rightarrow> addr \<Rightarrow> btree \<Rightarrow> (addr \<times> nat) set" where
  "free_blocks k b BFree = {(b, k)}"
| "free_blocks k b BUsed = {}"
| "free_blocks 0 b (BSplit l r) = {}"
| "free_blocks (Suc k) b (BSplit l r) =
     free_blocks k b l \<union> free_blocks k (b + bsize k) r"

text \<open>The bytes of a block, and disjointness of blocks.\<close>

definition block_bytes :: "addr \<times> nat \<Rightarrow> addr set" where
  "block_bytes x = {fst x ..< fst x + bsize (snd x)}"

definition bytes_of :: "(addr \<times> nat) set \<Rightarrow> addr set" where
  "bytes_of S = (\<Union>x\<in>S. block_bytes x)"

lemma block_bytes_nonempty [simp]: "block_bytes x \<noteq> {}"
  by (simp add: block_bytes_def)

lemma base_in_block [simp]: "(b \<in> block_bytes (b, k))"
  by (simp add: block_bytes_def)

lemma block_subset_base:
  assumes "block_bytes (a, j) \<subseteq> block_bytes (b, k)"
  shows "b \<le> a" and "a < b + bsize k"
proof -
  have "a \<in> block_bytes (b, k)" using assms base_in_block [of a j] by blast
  then show "b \<le> a" and "a < b + bsize k" by (auto simp: block_bytes_def)
qed

lemma bytes_of_Un [simp]: "bytes_of (S \<union> T) = bytes_of S \<union> bytes_of T"
  by (auto simp: bytes_of_def)

lemma bytes_of_insert [simp]: "bytes_of (insert x S) = block_bytes x \<union> bytes_of S"
  by (auto simp: bytes_of_def)

lemma bytes_of_empty [simp]: "bytes_of {} = {}"
  by (simp add: bytes_of_def)

lemma bytes_of_mono: "S \<subseteq> T \<Longrightarrow> bytes_of S \<subseteq> bytes_of T"
  by (auto simp: bytes_of_def)

lemma block_bytes_split:
  "block_bytes (b, Suc k) = block_bytes (b, k) \<union> block_bytes (b + bsize k, k)"
  by (auto simp: block_bytes_def)

lemma block_bytes_halves_disjoint:
  "block_bytes (b, k) \<inter> block_bytes (b + bsize k, k) = {}"
  by (auto simp: block_bytes_def)

lemma used_bytes_within: "bytes_of (used_blocks k b t) \<subseteq> block_bytes (b, k)"
  by (induction k b t rule: used_blocks.induct) (auto simp: block_bytes_split)

lemma free_bytes_within: "bytes_of (free_blocks k b t) \<subseteq> block_bytes (b, k)"
  by (induction k b t rule: free_blocks.induct) (auto simp: block_bytes_split)

lemma used_blocks_height: "(a, j) \<in> used_blocks k b t \<Longrightarrow> j \<le> k"
  by (induction k b t rule: used_blocks.induct) auto

lemma used_blocks_aligned: "(a, j) \<in> used_blocks k b t \<Longrightarrow> b \<le> a \<and> bsize j dvd a - b"
proof (induction k b t rule: used_blocks.induct)
  case (4 k b l r)
  show ?case
  proof (cases "(a, j) \<in> used_blocks k b l")
    case True
    then show ?thesis using "4.IH"(1) by blast
  next
    case False
    with "4.prems" have mem: "(a, j) \<in> used_blocks k (b + bsize k) r" by simp
    then have d: "b + bsize k \<le> a" "bsize j dvd a - (b + bsize k)" using "4.IH"(2) by blast+
    from mem have "bsize j dvd bsize k" by (intro bsize_dvd used_blocks_height)
    then have "bsize j dvd (a - (b + bsize k)) + bsize k" using d(2) by simp
    moreover have "(a - (b + bsize k)) + bsize k = a - b" using d(1) by simp
    ultimately show ?thesis using d(1) by simp
  qed
qed auto

lemma finite_used_blocks [simp]: "finite (used_blocks k b t)"
  by (induction k b t rule: used_blocks.induct) auto

lemma used_free_disjoint:
  "bytes_of (used_blocks k b t) \<inter> bytes_of (free_blocks k b t) = {}"
proof (induction k b t rule: used_blocks.induct)
  case (4 k b l r)
  have w: "bytes_of (used_blocks k b l) \<subseteq> block_bytes (b, k)"
    "bytes_of (free_blocks k b l) \<subseteq> block_bytes (b, k)"
    "bytes_of (used_blocks k (b + bsize k) r) \<subseteq> block_bytes (b + bsize k, k)"
    "bytes_of (free_blocks k (b + bsize k) r) \<subseteq> block_bytes (b + bsize k, k)"
    by (rule used_bytes_within free_bytes_within)+
  show ?case using "4.IH" w block_bytes_halves_disjoint [of b k] by auto
qed auto

text \<open>Distinct used blocks share no byte.\<close>

lemma used_blocks_disjoint:
  "x \<in> used_blocks k b t \<Longrightarrow> y \<in> used_blocks k b t \<Longrightarrow> x \<noteq> y \<Longrightarrow>
   block_bytes x \<inter> block_bytes y = {}"
proof (induction k b t arbitrary: x y rule: used_blocks.induct)
  case (4 k b l r)
  have w: "\<And>z. z \<in> used_blocks k b l \<Longrightarrow> block_bytes z \<subseteq> block_bytes (b, k)"
    "\<And>z. z \<in> used_blocks k (b + bsize k) r \<Longrightarrow> block_bytes z \<subseteq> block_bytes (b + bsize k, k)"
    using used_bytes_within [of k b l] used_bytes_within [of k "b + bsize k" r]
    by (auto simp: bytes_of_def)
  have d: "block_bytes (b, k) \<inter> block_bytes (b + bsize k, k) = {}"
    by (rule block_bytes_halves_disjoint)
  consider "x \<in> used_blocks k b l" "y \<in> used_blocks k b l"
    | "x \<in> used_blocks k b l" "y \<in> used_blocks k (b + bsize k) r"
    | "x \<in> used_blocks k (b + bsize k) r" "y \<in> used_blocks k b l"
    | "x \<in> used_blocks k (b + bsize k) r" "y \<in> used_blocks k (b + bsize k) r"
    using "4.prems"(1,2) by auto
  then show ?case
  proof cases
    case 1
    then show ?thesis using "4.IH"(1) "4.prems"(3) by blast
  next
    case 2
    then show ?thesis using w(1) [of x] w(2) [of y] d by blast
  next
    case 3
    then show ?thesis using w(1) [of y] w(2) [of x] d by blast
  next
    case 4
    then show ?thesis using "4.IH"(2) "4.prems"(3) by blast
  qed
qed auto

lemma used_blocks_base_inj:
  "(a, i) \<in> used_blocks k b t \<Longrightarrow> (a, j) \<in> used_blocks k b t \<Longrightarrow> i = j"
  using used_blocks_disjoint [of "(a, i)" k b t "(a, j)"] base_in_block [of a i]
    base_in_block [of a j] by blast

section \<open>Acquiring a block\<close>

text \<open>
  First fit, leftmost: a block of the wanted height is taken where it is free, a larger free
  block is split, a split block is searched left half first.
\<close>

fun tree_acquire :: "nat \<Rightarrow> nat \<Rightarrow> addr \<Rightarrow> btree \<Rightarrow> (addr \<times> btree) option" where
  "tree_acquire j k b BUsed = None"
| "tree_acquire j 0 b BFree = (if j = 0 then Some (b, BUsed) else None)"
| "tree_acquire j 0 b (BSplit l r) = None"
| "tree_acquire j (Suc k) b BFree =
     (if Suc k < j then None
      else if j = Suc k then Some (b, BUsed)
      else map_option (\<lambda>(a, l'). (a, BSplit l' BFree)) (tree_acquire j k b BFree))"
| "tree_acquire j (Suc k) b (BSplit l r) =
     (if Suc k \<le> j then None
      else case tree_acquire j k b l of
        Some (a, l') \<Rightarrow> Some (a, BSplit l' r)
      | None \<Rightarrow> map_option (\<lambda>(a, r'). (a, BSplit l r'))
                  (tree_acquire j k (b + bsize k) r))"

text \<open>Giving a block back: the leaf at the address becomes free and free buddies merge.\<close>

fun merge_halves :: "btree \<Rightarrow> btree \<Rightarrow> btree" where
  "merge_halves BFree BFree = BFree"
| "merge_halves l r = BSplit l r"

fun tree_release :: "nat \<Rightarrow> addr \<Rightarrow> addr \<Rightarrow> btree \<Rightarrow> btree" where
  "tree_release k a b BFree = BFree"
| "tree_release k a b BUsed = (if a = b then BFree else BUsed)"
| "tree_release 0 a b (BSplit l r) = BSplit l r"
| "tree_release (Suc k) a b (BSplit l r) =
     (if a < b + bsize k then merge_halves (tree_release k a b l) r
      else merge_halves l (tree_release k a (b + bsize k) r))"

lemma merge_halves_simps [simp]:
  "(merge_halves l r = BFree) = (l = BFree \<and> r = BFree)"
  "merge_halves l r \<noteq> BUsed"
  by (cases l; cases r; simp)+

lemma used_blocks_merge [simp]:
  "used_blocks (Suc k) b (merge_halves l r) =
   used_blocks k b l \<union> used_blocks k (b + bsize k) r"
  by (cases l; cases r; simp)

lemma canon_merge: "canon k l \<Longrightarrow> canon k r \<Longrightarrow> canon (Suc k) (merge_halves l r)"
  by (cases l; cases r; simp)

lemma tree_acquire_neq_Free:
  "tree_acquire j k b t = Some (a, t') \<Longrightarrow> t' \<noteq> BFree"
  by (induction j k b t arbitrary: a t' rule: tree_acquire.induct)
    (auto split: if_splits option.splits)

lemma tree_acquire_canon:
  "tree_acquire j k b t = Some (a, t') \<Longrightarrow> canon k t \<Longrightarrow> canon k t'"
proof (induction j k b t arbitrary: a t' rule: tree_acquire.induct)
  case (5 j k b l r)
  then show ?case
    by (auto split: if_splits option.splits dest: tree_acquire_neq_Free)
qed (auto split: if_splits option.splits dest: tree_acquire_neq_Free)

lemma tree_acquire_level: "tree_acquire j k b t = Some (a, t') \<Longrightarrow> j \<le> k"
  by (induction j k b t arbitrary: a t' rule: tree_acquire.induct)
    (auto split: if_splits option.splits)

text \<open>The block handed out was free before and is the only new used block.\<close>

lemma tree_acquire_used:
  "tree_acquire j k b t = Some (a, t') \<Longrightarrow>
   used_blocks k b t' = insert (a, j) (used_blocks k b t)"
  by (induction j k b t arbitrary: a t' rule: tree_acquire.induct)
    (auto split: if_splits option.splits)

lemma tree_acquire_was_free:
  "tree_acquire j k b t = Some (a, t') \<Longrightarrow>
   block_bytes (a, j) \<subseteq> bytes_of (free_blocks k b t)"
proof (induction j k b t arbitrary: a t' rule: tree_acquire.induct)
  case (4 j k b)
  show ?case
  proof (cases "j = Suc k")
    case True
    with "4.prems" show ?thesis by (auto split: if_splits)
  next
    case False
    with "4.prems" obtain l' where r: "tree_acquire j k b BFree = Some (a, l')"
      and n: "\<not> Suc k < j"
      by (auto split: if_splits)
    have "block_bytes (a, j) \<subseteq> bytes_of (free_blocks k b BFree)"
      by (rule "4.IH" [OF n False r])
    then show ?thesis by (auto simp: block_bytes_split)
  qed
next
  case (5 j k b l r)
  then show ?case by (fastforce split: if_splits option.splits)
qed (auto split: if_splits)

lemma tree_acquire_fresh:
  assumes "tree_acquire j k b t = Some (a, t')" and "x \<in> used_blocks k b t"
  shows "block_bytes x \<inter> block_bytes (a, j) = {}"
  using tree_acquire_was_free [OF assms(1)] used_free_disjoint [of k b t] assms(2)
  by (auto simp: bytes_of_def)

text \<open>It fails only when no free block is large enough.\<close>

lemma tree_acquire_None_iff:
  "canon k t \<Longrightarrow>
   tree_acquire j k b t = None \<longleftrightarrow> (\<forall>x\<in>free_blocks k b t. snd x < j)"
proof (induction j k b t rule: tree_acquire.induct)
  case (5 j k b l r)
  have lt: "\<And>x c t. x \<in> free_blocks k c t \<Longrightarrow> snd x \<le> k"
  proof -
    fix x c t
    show "x \<in> free_blocks k c t \<Longrightarrow> snd x \<le> k"
      by (induction k c t rule: free_blocks.induct) auto
  qed
  show ?case
  proof (cases "Suc k \<le> j")
    case True
    then show ?thesis using lt by fastforce
  next
    case False
    then show ?thesis
      using "5.IH"(1) "5.IH"(2) "5.prems"
      by (cases "tree_acquire j k b l") (auto simp: ball_Un)
  qed
next
  case (4 j k b)
  have sub: "tree_acquire j i b BFree \<noteq> None" if "j \<le> i" for i
    using that by (induction i) (auto simp: le_Suc_eq)
  show ?case
    using sub [of "Suc k"] by auto
qed auto

section \<open>Releasing a block\<close>

lemma tree_release_canon: "canon k t \<Longrightarrow> canon k (tree_release k a b t)"
proof (induction k a b t rule: tree_release.induct)
  case (4 k a b l r)
  then show ?case by (auto intro: canon_merge)
qed auto

lemma tree_release_used:
  "(a, j) \<in> used_blocks k b t \<Longrightarrow>
   used_blocks k b (tree_release k a b t) = used_blocks k b t - {(a, j)}"
proof (induction k a b t rule: tree_release.induct)
  case (4 k a b l r)
  have L: "\<And>c i. (c, i) \<in> used_blocks k b l \<Longrightarrow> c < b + bsize k"
    using used_bytes_within [of k b l] base_in_block
    by (fastforce simp: bytes_of_def block_bytes_def)
  have R: "\<And>c i. (c, i) \<in> used_blocks k (b + bsize k) r \<Longrightarrow> b + bsize k \<le> c"
    using used_bytes_within [of k "b + bsize k" r] base_in_block
    by (fastforce simp: bytes_of_def block_bytes_def)
  show ?case
  proof (cases "a < b + bsize k")
    case True
    then have "(a, j) \<in> used_blocks k b l" using "4.prems" R by fastforce
    with True "4.IH"(1) R show ?thesis by (fastforce simp del: used_blocks.simps(4) simp: used_blocks.simps(4) [of k b l r])
  next
    case False
    then have "(a, j) \<in> used_blocks k (b + bsize k) r" using "4.prems" L by fastforce
    with False "4.IH"(2) L show ?thesis by (fastforce simp del: used_blocks.simps(4) simp: used_blocks.simps(4) [of k b l r])
  qed
qed auto

text \<open>Releasing the block just acquired restores the tree.\<close>

lemma tree_release_acquire:
  "tree_acquire j k b t = Some (a, t') \<Longrightarrow> canon k t \<Longrightarrow> tree_release k a b t' = t"
proof (induction j k b t arbitrary: a t' rule: tree_acquire.induct)
  case (4 j k b)
  show ?case
  proof (cases "j = Suc k")
    case True
    with "4.prems" show ?thesis by (auto split: if_splits)
  next
    case False
    with "4.prems" obtain l' where r: "tree_acquire j k b BFree = Some (a, l')"
      and n: "\<not> Suc k < j" and t': "t' = BSplit l' BFree"
      by (auto split: if_splits)
    have "block_bytes (a, j) \<subseteq> block_bytes (b, k)"
      using tree_acquire_was_free [OF r] by simp
    then have "a < b + bsize k" by (rule block_subset_base)
    with "4.IH" [OF n False r] t' show ?thesis by simp
  qed
next
  case (5 j k b l r)
  have inl: "a < b + bsize k" if "tree_acquire j k b l = Some (a, l')" for a l'
    using tree_acquire_was_free [OF that] free_bytes_within [of k b l]
    by (meson block_subset_base subset_trans)
  have inr: "b + bsize k \<le> a" if "tree_acquire j k (b + bsize k) r = Some (a, r')" for a r'
    using tree_acquire_was_free [OF that] free_bytes_within [of k "b + bsize k" r]
    by (meson block_subset_base subset_trans)
  have m: "merge_halves l r = BSplit l r" using "5.prems"(2) by (cases l; cases r) auto
  show ?case
    using "5.prems" "5.IH"(1) "5.IH"(2) inl inr m
    by (fastforce split: if_splits option.splits)
qed (auto split: if_splits)

section \<open>Accounting\<close>

fun tree_free_bytes :: "nat \<Rightarrow> btree \<Rightarrow> nat" where
  "tree_free_bytes k BFree = bsize k"
| "tree_free_bytes k BUsed = 0"
| "tree_free_bytes 0 (BSplit l r) = 0"
| "tree_free_bytes (Suc k) (BSplit l r) = tree_free_bytes k l + tree_free_bytes k r"

lemma used_halves_disjoint: "used_blocks k b l \<inter> used_blocks k (b + bsize k) r = {}"
proof (rule ccontr)
  assume "used_blocks k b l \<inter> used_blocks k (b + bsize k) r \<noteq> {}"
  then obtain x where "x \<in> used_blocks k b l" "x \<in> used_blocks k (b + bsize k) r" by auto
  then have "block_bytes x \<subseteq> block_bytes (b, k) \<inter> block_bytes (b + bsize k, k)"
    using used_bytes_within [of k b l] used_bytes_within [of k "b + bsize k" r]
    by (auto simp: bytes_of_def)
  then show False using block_bytes_halves_disjoint [of b k] block_bytes_nonempty by blast
qed

lemma tree_bytes_total:
  "canon k t \<Longrightarrow>
   tree_free_bytes k t + (\<Sum>x\<in>used_blocks k b t. bsize (snd x)) = bsize k"
proof (induction k b t rule: used_blocks.induct)
  case (4 k b l r)
  have "used_blocks k b l \<inter> used_blocks k (b + bsize k) r = {}" by (rule used_halves_disjoint)
  then have "(\<Sum>x\<in>used_blocks (Suc k) b (BSplit l r). bsize (snd x)) =
    (\<Sum>x\<in>used_blocks k b l. bsize (snd x)) +
    (\<Sum>x\<in>used_blocks k (b + bsize k) r. bsize (snd x))"
    by (simp add: sum.union_disjoint)
  with "4" show ?case by simp
qed auto

section \<open>When allocation cannot fail\<close>

text \<open>
  \<open>load H S\<close>: the bytes the blocks of \<open>S\<close> would take if each were at least of height \<open>H\<close>.
  While that does not fill the tree, a block of height \<open>H\<close> is free: whatever the order in
  which blocks came and went, a canonical tree wastes at most one block of height \<open>H\<close> per
  used block.
\<close>

definition load :: "nat \<Rightarrow> (addr \<times> nat) set \<Rightarrow> nat" where
  "load H S = (\<Sum>x\<in>S. max (bsize (snd x)) (bsize H))"

lemma load_split:
  "load H (used_blocks (Suc k) b (BSplit l r)) =
   load H (used_blocks k b l) + load H (used_blocks k (b + bsize k) r)"
  by (simp add: load_def sum.union_disjoint used_halves_disjoint)

lemma load_used: "canon k t \<Longrightarrow> t \<noteq> BFree \<Longrightarrow> bsize H \<le> load H (used_blocks k b t)"
proof (induction k b t rule: used_blocks.induct)
  case (4 k b l r)
  then show ?case unfolding load_split by (cases "l = BFree") (auto simp: trans_le_add1 trans_le_add2)
qed (auto simp: load_def)

lemma load_full:
  "canon k t \<Longrightarrow> H \<le> k \<Longrightarrow> \<forall>x\<in>free_blocks k b t. snd x < H \<Longrightarrow> bsize k \<le> load H (used_blocks k b t)"
proof (induction k b t rule: used_blocks.induct)
  case (4 k b l r)
  show ?case
  proof (cases "H = Suc k")
    case True
    then show ?thesis using load_used [OF "4.prems"(1), of H b] by simp
  next
    case False
    then show ?thesis using 4 unfolding load_split by simp
  qed
qed (auto simp: load_def bsize_mono)

lemma tree_acquire_low_load:
  assumes "canon k t" and "j \<le> k" and "load j (used_blocks k b t) < bsize k"
  shows "tree_acquire j k b t \<noteq> None"
  using load_full [OF assms(1,2)] assms(3) unfolding tree_acquire_None_iff [OF assms(1)] by fastforce

end
