(* ===== verification/Alloc_Spec.thy ===== *)
theory Alloc_Spec
  imports Prelude
begin

text \<open>
  The contract of \<open>memoryManager.h\<close>: what the kernel may rely on, whichever of the two
  memory managers the build selects (\<open>Kernel/mmu/buddy.c\<close> or \<open>Kernel/mmu/myMalloc.c\<close>).
  The locale states it for any implementation; the theories \<open>Buddy\<close> and \<open>MyMalloc\<close>
  interpret it on their models. A block is a pair of the pointer handed out and the number
  of bytes that may be used behind it.
\<close>

definition payload :: "addr \<times> nat \<Rightarrow> addr set" where
  "payload x = {fst x ..< fst x + snd x}"

definition payloads_disjoint :: "(addr \<times> nat) set \<Rightarrow> bool" where
  "payloads_disjoint S \<longleftrightarrow> (\<forall>x\<in>S. \<forall>y\<in>S. x \<noteq> y \<longrightarrow> payload x \<inter> payload y = {})"

lemma payloads_disjoint_insert:
  "payloads_disjoint S \<Longrightarrow> (\<And>y. y \<in> S \<Longrightarrow> payload x \<inter> payload y = {}) \<Longrightarrow>
   payloads_disjoint (insert x S)"
  unfolding payloads_disjoint_def by (metis Int_commute insert_iff)

lemma payloads_disjoint_subset:
  "payloads_disjoint S \<Longrightarrow> T \<subseteq> S \<Longrightarrow> payloads_disjoint T"
  unfolding payloads_disjoint_def by blast

text \<open>A client's calls: it may free any pointer, and asks for any size.\<close>

datatype mem_call = Alloc u64 | Free addr

locale allocator =
  fixes alloc :: "u64 \<Rightarrow> 'm \<Rightarrow> (addr \<times> 'm) option"
    and free :: "addr \<Rightarrow> 'm \<Rightarrow> 'm option"
    and blocks :: "'m \<Rightarrow> (addr \<times> nat) set"
    and inv :: "'m \<Rightarrow> bool"
  assumes alloc_total: "inv m \<Longrightarrow> \<exists>p m'. alloc n m = Some (p, m') \<and> inv m'"
    and alloc_null: "inv m \<Longrightarrow> alloc n m = Some (NULL, m') \<Longrightarrow> blocks m' = blocks m"
    and alloc_new: "inv m \<Longrightarrow> alloc n m = Some (p, m') \<Longrightarrow> p \<noteq> NULL \<Longrightarrow>
      \<exists>c. unat n \<le> c \<and> blocks m' = insert (p, c) (blocks m) \<and>
          p \<notin> fst ` blocks m \<and> (\<forall>y\<in>blocks m. payload (p, c) \<inter> payload y = {})"
    and blocks_fun: "inv m \<Longrightarrow> (p, c) \<in> blocks m \<Longrightarrow> (p, d) \<in> blocks m \<Longrightarrow> c = d"
    and blocks_null: "inv m \<Longrightarrow> NULL \<notin> fst ` blocks m"
    and free_block: "inv m \<Longrightarrow> (p, c) \<in> blocks m \<Longrightarrow>
      \<exists>m'. free p m = Some m' \<and> inv m' \<and> blocks m' = blocks m - {(p, c)}"
begin

definition live :: "'m \<Rightarrow> addr set" where
  "live m = fst ` blocks m"

lemma alloc_inv: "inv m \<Longrightarrow> alloc n m = Some (p, m') \<Longrightarrow> inv m'"
  using alloc_total [of m n] by auto

lemma alloc_live:
  assumes "inv m" and "alloc n m = Some (p, m')"
  shows "live m' = (if p = NULL then live m else insert p (live m))"
    and "p \<notin> live m"
proof -
  show "live m' = (if p = NULL then live m else insert p (live m))"
  proof (cases "p = NULL")
    case True
    then show ?thesis using alloc_null assms by (simp add: live_def)
  next
    case False
    then obtain c where "blocks m' = insert (p, c) (blocks m)" using alloc_new [OF assms] by blast
    then show ?thesis using False by (simp add: live_def)
  qed
  show "p \<notin> live m"
    using alloc_new [OF assms] blocks_null [OF assms(1)] by (cases "p = NULL") (auto simp: live_def)
qed

lemma free_live:
  assumes "inv m" and "p \<in> live m"
  shows "\<exists>m'. free p m = Some m' \<and> inv m' \<and> live m' = live m - {p}"
proof -
  obtain c where c: "(p, c) \<in> blocks m" using assms(2) by (auto simp: live_def)
  obtain m' where m': "free p m = Some m'" "inv m'" "blocks m' = blocks m - {(p, c)}"
    using free_block [OF assms(1) c] by blast
  have "fst ` (blocks m - {(p, c)}) = fst ` blocks m - {p}"
    using blocks_fun [OF assms(1) c] by force
  then show ?thesis using m' by (auto simp: live_def)
qed

text \<open>
  The runs of a client that frees only pointers it holds: no call is undefined, every
  state keeps the invariant, and the blocks the client holds never overlap.
\<close>

inductive client_run :: "'m \<Rightarrow> mem_call list \<Rightarrow> 'm \<Rightarrow> bool" where
  run_nil: "client_run m [] m"
| run_alloc: "alloc n m = Some (p, m') \<Longrightarrow> client_run m' cs m'' \<Longrightarrow>
    client_run m (Alloc n # cs) m''"
| run_free: "p \<in> live m \<Longrightarrow> free p m = Some m' \<Longrightarrow> client_run m' cs m'' \<Longrightarrow>
    client_run m (Free p # cs) m''"

lemma free_blocks_subset:
  assumes "inv m" and "p \<in> live m" and "free p m = Some m'"
  shows "inv m' \<and> blocks m' \<subseteq> blocks m"
proof -
  obtain c where "(p, c) \<in> blocks m" using assms(2) by (auto simp: live_def)
  from free_block [OF assms(1) this] show ?thesis using assms(3) by auto
qed

lemma alloc_keeps_disjoint:
  assumes "inv m" and "alloc n m = Some (p, m')" and "payloads_disjoint (blocks m)"
  shows "payloads_disjoint (blocks m')"
proof (cases "p = NULL")
  case True
  then show ?thesis using alloc_null assms by auto
next
  case False
  then obtain c where eq: "blocks m' = insert (p, c) (blocks m)"
    and dj: "\<forall>y\<in>blocks m. payload (p, c) \<inter> payload y = {}"
    using alloc_new [OF assms(1,2)] by blast
  show ?thesis unfolding eq using dj by (intro payloads_disjoint_insert assms(3)) blast
qed

lemma client_run_safe:
  "client_run m cs m' \<Longrightarrow> inv m \<Longrightarrow> payloads_disjoint (blocks m) \<Longrightarrow>
   inv m' \<and> payloads_disjoint (blocks m')"
proof (induction rule: client_run.induct)
  case (run_alloc n m p m' cs m'')
  have "inv m'" using alloc_inv [OF run_alloc.prems(1) run_alloc.hyps(1)] .
  moreover have "payloads_disjoint (blocks m')"
    using alloc_keeps_disjoint [OF run_alloc.prems(1) run_alloc.hyps(1) run_alloc.prems(2)] .
  ultimately show ?case by (rule run_alloc.IH)
next
  case (run_free p m m' cs m'')
  have sub: "inv m'" "blocks m' \<subseteq> blocks m"
    using free_blocks_subset [OF run_free.prems(1) run_free.hyps(1,2)] by auto
  show ?case
    using sub(1) payloads_disjoint_subset [OF run_free.prems(2) sub(2)] by (rule run_free.IH)
qed auto

end

text \<open>
  The stronger contract both memory managers also meet: memory given back can be had again
  for any request that fits the block.
\<close>

locale reusing_allocator = allocator +
  assumes reuse: "inv m \<Longrightarrow> (p, c) \<in> blocks m \<Longrightarrow> free p m = Some m' \<Longrightarrow>
    0 < n \<Longrightarrow> unat n \<le> c \<Longrightarrow> \<exists>q m''. alloc n m' = Some (q, m'') \<and> q \<noteq> NULL"
begin

text \<open>Memory just obtained can be given back and obtained again.\<close>

lemma alloc_free_alloc:
  assumes "inv m" and "alloc n m = Some (p, m1)" and "p \<noteq> NULL" and "0 < n"
  shows "\<exists>m2 q m3. free p m1 = Some m2 \<and> alloc n m2 = Some (q, m3) \<and> q \<noteq> NULL"
proof -
  have i1: "inv m1" using assms alloc_inv by blast
  obtain c where c: "unat n \<le> c" "(p, c) \<in> blocks m1" using alloc_new [OF assms(1-3)] by auto
  obtain m2 where m2: "free p m1 = Some m2" using free_block [OF i1 c(2)] by blast
  then show ?thesis using reuse [OF i1 c(2) m2 assms(4) c(1)] by blast
qed

end

text \<open>The managers hand out parts of one fixed area of memory.\<close>

locale placed_allocator = allocator alloc free blocks inv
  for alloc :: "u64 \<Rightarrow> 'm \<Rightarrow> (addr \<times> 'm) option" and free :: "addr \<Rightarrow> 'm \<Rightarrow> 'm option"
    and blocks :: "'m \<Rightarrow> (addr \<times> nat) set" and inv :: "'m \<Rightarrow> bool" +
  fixes area :: "'m \<Rightarrow> addr set"
  assumes blocks_in_area: "inv m \<Longrightarrow> x \<in> blocks m \<Longrightarrow> payload x \<subseteq> area m"
    and alloc_area: "inv m \<Longrightarrow> alloc n m = Some (p, m') \<Longrightarrow> area m' = area m"
    and free_area: "inv m \<Longrightarrow> (p, c) \<in> blocks m \<Longrightarrow> free p m = Some m' \<Longrightarrow> area m' = area m"

end
