(* ===== verification/Buddy.thy ===== *)
theory Buddy
  imports Buddy_Tree Alloc_Spec
begin

text \<open>
  The default physical memory manager, \<open>Kernel/mmu/buddy.c\<close>. The static array \<open>nodes\<close>
  is a function from indices to node records whose \<open>parent\<close>, \<open>left\<close> and \<open>right\<close>
  pointers are indices into the same array; \<open>header\<close> is what the eight bytes in front of a
  block hold, as far as the allocator knows: a header it wrote or bytes that belong to a
  client. The address of the static array \<open>heap\<close> is chosen by the linker and is a field of
  the state that no operation changes.

  The theory shows that the array implements the tree of \<open>Buddy_Tree\<close> and interprets the
  allocator contract of \<open>Alloc_Spec\<close>.
\<close>

section \<open>Data\<close>

definition HEAP_ORDER_MIN :: nat where "HEAP_ORDER_MIN = 5"
definition HEAP_ORDER_MAX :: nat where "HEAP_ORDER_MAX = 19"
definition HEAP_SIZE :: nat where "HEAP_SIZE = 2 ^ HEAP_ORDER_MAX"
definition TREE_LEVELS :: nat where "TREE_LEVELS = HEAP_ORDER_MAX - HEAP_ORDER_MIN + 1"
definition NODE_COUNT :: nat where "NODE_COUNT = 2 ^ TREE_LEVELS - 1"

text \<open>\<open>sizeof(AllocationHeader)\<close>: one pointer.\<close>

definition HEADER_SIZE :: nat where "HEADER_SIZE = 8"

lemmas buddy_consts =
  HEAP_ORDER_MIN_def HEAP_ORDER_MAX_def HEAP_SIZE_def TREE_LEVELS_def NODE_COUNT_def
  HEADER_SIZE_def

datatype NodeState = NODE_FREE | NODE_SPLIT | NODE_USED

record BuddyNode =
  bn_parent :: "nat option"
  bn_left :: "nat option"
  bn_right :: "nat option"
  bn_order :: nat
  bn_state :: NodeState
  bn_base :: addr

datatype header_cell = Header "nat option" | Client

record buddy =
  heap :: addr
  nodes :: "nat \<Rightarrow> BuddyNode"
  root :: "nat option"
  header :: "addr \<Rightarrow> header_cell"

text \<open>The static storage before \<open>mem_init\<close>: zeroed.\<close>

definition bss_buddy :: "addr \<Rightarrow> buddy" where
  "bss_buddy h =
     \<lparr>heap = h,
      nodes = (\<lambda>_. \<lparr>bn_parent = None, bn_left = None, bn_right = None, bn_order = 0,
                    bn_state = NODE_FREE, bn_base = NULL\<rparr>),
      root = None, header = (\<lambda>_. Header None)\<rparr>"

section \<open>Operations\<close>

definition block_size :: "nat \<Rightarrow> nat" where
  "block_size order = 2 ^ order"

fun build_tree :: "nat \<Rightarrow> nat \<Rightarrow> addr \<Rightarrow> (nat \<Rightarrow> BuddyNode) \<Rightarrow> (nat \<Rightarrow> BuddyNode)" where
  "build_tree index order base nd =
     (let nd = nd(index := \<lparr>bn_parent = None, bn_left = None, bn_right = None,
                            bn_order = order mod 2 ^ 8, bn_state = NODE_FREE, bn_base = base\<rparr>)
      in if HEAP_ORDER_MIN < order then
           let left_index = index * 2 + 1;
               right_index = left_index + 1;
               half = block_size (order - 1);
               nd = build_tree left_index (order - 1) base nd;
               nd = build_tree right_index (order - 1) (base + half) nd;
               nd = nd(left_index := (nd left_index)\<lparr>bn_parent := Some index\<rparr>);
               nd = nd(right_index := (nd right_index)\<lparr>bn_parent := Some index\<rparr>);
               nd = nd(index := (nd index)\<lparr>bn_left := Some left_index\<rparr>)
           in nd(index := (nd index)\<lparr>bn_right := Some right_index\<rparr>)
         else nd)"

declare build_tree.simps [simp del]

function required_order_from :: "nat \<Rightarrow> nat \<Rightarrow> nat" where
  "required_order_from sz order =
     (if order \<le> HEAP_ORDER_MAX \<and> block_size order < sz
      then required_order_from sz (order + 1) else order)"
  by pat_completeness auto
termination
  by (relation "measure (\<lambda>(sz, order). HEAP_ORDER_MAX + 1 - order)") auto

declare required_order_from.simps [simp del]

definition required_order :: "nat \<Rightarrow> nat" where
  "required_order sz = required_order_from sz HEAP_ORDER_MIN"

partial_function (option) acquire_node ::
  "nat option \<Rightarrow> nat \<Rightarrow> (nat \<Rightarrow> BuddyNode) \<Rightarrow> (nat option \<times> (nat \<Rightarrow> BuddyNode)) option"
where
  "acquire_node node order nd =
     (case node of
        None \<Rightarrow> Some (None, nd)
      | Some i \<Rightarrow>
          if bn_state (nd i) = NODE_USED then Some (None, nd)
          else if bn_order (nd i) < order then Some (None, nd)
          else if bn_order (nd i) = order then
            (if bn_state (nd i) = NODE_FREE
             then Some (Some i, nd(i := (nd i)\<lparr>bn_state := NODE_USED\<rparr>))
             else Some (None, nd))
          else
            (case (bn_left (nd i), bn_right (nd i)) of
               (Some l, Some r) \<Rightarrow>
                 let nd1 = (if bn_state (nd i) = NODE_FREE
                            then nd(i := (nd i)\<lparr>bn_state := NODE_SPLIT\<rparr>) else nd)
                 in do {
                      (result, nd2) \<leftarrow> acquire_node (Some l) order nd1;
                      if result \<noteq> None then Some (result, nd2)
                      else do {
                        (result, nd3) \<leftarrow> acquire_node (Some r) order nd2;
                        if result \<noteq> None then Some (result, nd3)
                        else if bn_state (nd3 l) = NODE_FREE \<and> bn_state (nd3 r) = NODE_FREE
                        then Some (None, nd3(i := (nd3 i)\<lparr>bn_state := NODE_FREE\<rparr>))
                        else Some (None, nd3)
                      }
                    }
             | _ \<Rightarrow> Some (None, nd)))"

partial_function (option) coalesce_up ::
  "nat option \<Rightarrow> (nat \<Rightarrow> BuddyNode) \<Rightarrow> (nat \<Rightarrow> BuddyNode) option"
where
  "coalesce_up node nd =
     (case node of
        None \<Rightarrow> Some nd
      | Some i \<Rightarrow>
          (case (bn_left (nd i), bn_right (nd i)) of
             (Some l, Some r) \<Rightarrow>
               if bn_state (nd l) = NODE_FREE \<and> bn_state (nd r) = NODE_FREE
               then let nd1 = nd(i := (nd i)\<lparr>bn_state := NODE_FREE\<rparr>)
                    in coalesce_up (bn_parent (nd1 i)) nd1
               else Some (nd(i := (nd i)\<lparr>bn_state := NODE_SPLIT\<rparr>))
           | _ \<Rightarrow> coalesce_up (bn_parent (nd i)) nd))"

partial_function (option) free_bytes :: "nat option \<Rightarrow> (nat \<Rightarrow> BuddyNode) \<Rightarrow> nat option"
where
  "free_bytes node nd =
     (case node of
        None \<Rightarrow> Some 0
      | Some i \<Rightarrow>
          if bn_state (nd i) = NODE_FREE then Some (block_size (bn_order (nd i)))
          else if bn_state (nd i) = NODE_SPLIT then
            do {
              x \<leftarrow> free_bytes (bn_left (nd i)) nd;
              y \<leftarrow> free_bytes (bn_right (nd i)) nd;
              Some (x + y)
            }
          else Some 0)"

definition mem_init :: "buddy \<Rightarrow> buddy" where
  "mem_init m =
     m\<lparr>nodes := build_tree 0 HEAP_ORDER_MAX (heap m) (nodes m), root := Some 0\<rparr>"

text \<open>
  The block handed out belongs to the client from its second word on: whatever the
  allocator had written there is lost.
\<close>

definition client_owns :: "addr \<Rightarrow> nat \<Rightarrow> (addr \<Rightarrow> header_cell) \<Rightarrow> (addr \<Rightarrow> header_cell)" where
  "client_owns base order hdr = (\<lambda>a. if base < a \<and> a < base + block_size order then Client else hdr a)"

definition mem_alloc :: "u64 \<Rightarrow> buddy \<Rightarrow> (addr \<times> buddy) option" where
  "mem_alloc sz m =
     (let m = (if root m = None then mem_init m else m) in
      if sz = 0 \<or> HEAP_SIZE < unat sz then Some (NULL, m)
      else if HEAP_SIZE - HEADER_SIZE < unat sz then Some (NULL, m)
      else
        let total = sz + of_nat HEADER_SIZE;
            order = required_order (unat total)
        in if HEAP_ORDER_MAX < order then Some (NULL, m)
           else do {
             (node, nd) \<leftarrow> acquire_node (root m) order (nodes m);
             (case node of
                None \<Rightarrow> Some (NULL, m\<lparr>nodes := nd\<rparr>)
              | Some i \<Rightarrow>
                  let base = bn_base (nd i)
                  in Some (base + HEADER_SIZE,
                       m\<lparr>nodes := nd,
                         header := (client_owns base (bn_order (nd i)) (header m))
                                     (base := Header (Some i))\<rparr>))
           })"

definition mem_free :: "addr \<Rightarrow> buddy \<Rightarrow> buddy option" where
  "mem_free ptr m =
     (if ptr = NULL then Some m
      else if root m = None then Some m
      else case header m (ptr - HEADER_SIZE) of
        Client \<Rightarrow> None
      | Header None \<Rightarrow> Some m
      | Header (Some i) \<Rightarrow>
          if bn_state (nodes m i) \<noteq> NODE_USED then Some m
          else
            let nd = (nodes m)(i := (nodes m i)\<lparr>bn_state := NODE_FREE\<rparr>)
            in do {
                 nd' \<leftarrow> coalesce_up (bn_parent (nd i)) nd;
                 Some (m\<lparr>nodes := nd',
                         header := (header m)(ptr - HEADER_SIZE := Header None)\<rparr>)
               })"

text \<open>\<open>mem_status\<close> returns the three numbers it stores through its pointers.\<close>

definition mem_status :: "buddy \<Rightarrow> ((nat \<times> nat \<times> nat) \<times> buddy) option" where
  "mem_status m =
     (let m = (if root m = None then mem_init m else m) in
      do {
        free_total \<leftarrow> free_bytes (root m) (nodes m);
        Some ((HEAP_SIZE, HEAP_SIZE - free_total, free_total), m)
      })"

section \<open>The array as a tree\<close>

text \<open>\<open>subtree k i\<close>: the indices below index \<open>i\<close>, \<open>k\<close> levels down.\<close>

primrec subtree :: "nat \<Rightarrow> nat \<Rightarrow> nat set" where
  "subtree 0 i = {i}"
| "subtree (Suc k) i = insert i (subtree k (2 * i + 1) \<union> subtree k (2 * i + 2))"

text \<open>\<open>shape k nd i b p\<close>: the pointers, orders and bases that \<open>build_tree\<close> sets up.\<close>

primrec shape :: "nat \<Rightarrow> (nat \<Rightarrow> BuddyNode) \<Rightarrow> nat \<Rightarrow> addr \<Rightarrow> nat option \<Rightarrow> bool" where
  "shape 0 nd i b p \<longleftrightarrow>
     bn_order (nd i) = HEAP_ORDER_MIN \<and> bn_base (nd i) = b \<and> bn_parent (nd i) = p \<and>
     bn_left (nd i) = None \<and> bn_right (nd i) = None"
| "shape (Suc k) nd i b p \<longleftrightarrow>
     bn_order (nd i) = HEAP_ORDER_MIN + Suc k \<and> bn_base (nd i) = b \<and> bn_parent (nd i) = p \<and>
     bn_left (nd i) = Some (2 * i + 1) \<and> bn_right (nd i) = Some (2 * i + 2) \<and>
     shape k nd (2 * i + 1) b (Some i) \<and>
     shape k nd (2 * i + 2) (b + bsize k) (Some i)"

text \<open>The states of the nodes as a tree, and the states that occur.\<close>

primrec tree_of :: "nat \<Rightarrow> (nat \<Rightarrow> BuddyNode) \<Rightarrow> nat \<Rightarrow> btree" where
  "tree_of 0 nd i = (if bn_state (nd i) = NODE_USED then BUsed else BFree)"
| "tree_of (Suc k) nd i =
     (case bn_state (nd i) of
        NODE_FREE \<Rightarrow> BFree
      | NODE_USED \<Rightarrow> BUsed
      | NODE_SPLIT \<Rightarrow> BSplit (tree_of k nd (2 * i + 1)) (tree_of k nd (2 * i + 2)))"

definition all_free :: "nat \<Rightarrow> (nat \<Rightarrow> BuddyNode) \<Rightarrow> nat \<Rightarrow> bool" where
  "all_free k nd i \<longleftrightarrow> (\<forall>j\<in>subtree k i. bn_state (nd j) = NODE_FREE)"

primrec states_ok :: "nat \<Rightarrow> (nat \<Rightarrow> BuddyNode) \<Rightarrow> nat \<Rightarrow> bool" where
  "states_ok 0 nd i \<longleftrightarrow> bn_state (nd i) \<noteq> NODE_SPLIT"
| "states_ok (Suc k) nd i \<longleftrightarrow>
     (if bn_state (nd i) = NODE_SPLIT
      then states_ok k nd (2 * i + 1) \<and> states_ok k nd (2 * i + 2) \<and>
           \<not> (bn_state (nd (2 * i + 1)) = NODE_FREE \<and> bn_state (nd (2 * i + 2)) = NODE_FREE)
      else all_free k nd (2 * i + 1) \<and> all_free k nd (2 * i + 2))"

section \<open>Index arithmetic\<close>

lemma subtree_self [simp]: "i \<in> subtree k i"
  by (cases k) auto

lemma subtree_depth:
  "j \<in> subtree k i \<Longrightarrow> \<exists>d\<le>k. (j + 1) div 2 ^ d = i + 1"
proof (induction k arbitrary: i)
  case 0
  then show ?case by simp
next
  case (Suc k)
  have up: "\<exists>d\<le>Suc k. (j + 1) div 2 ^ d = i + 1"
    if "d \<le> k" "(j + 1) div 2 ^ d = c + 1" "c = 2 * i + 1 \<or> c = 2 * i + 2" for c d
  proof (intro exI conjI)
    show "Suc d \<le> Suc k" using that(1) by simp
    have "(j + 1) div 2 ^ Suc d = (j + 1) div 2 ^ d div 2"
      by (metis div_mult2_eq power_Suc2)
    then show "(j + 1) div 2 ^ Suc d = i + 1" using that(2,3) by auto
  qed
  from Suc.prems consider "j = i" | "j \<in> subtree k (2 * i + 1)" | "j \<in> subtree k (2 * i + 2)"
    by auto
  then show ?case
  proof cases
    case 1
    then show ?thesis by (intro exI [of _ 0]) simp
  next
    case 2
    then show ?thesis using Suc.IH up by blast
  next
    case 3
    then show ?thesis using Suc.IH up by blast
  qed
qed

lemma ancestors_comparable:
  assumes "(n::nat) div 2 ^ d = a" and "n div 2 ^ e = c" and "d \<le> e"
  shows "c = a div 2 ^ (e - d)"
proof -
  have "n div 2 ^ e = n div 2 ^ d div 2 ^ (e - d)"
    using assms(3) by (simp flip: power_add div_mult2_eq)
  then show ?thesis using assms(1,2) by simp
qed

lemma half_shrinks: "0 < e \<Longrightarrow> (c::nat) div 2 ^ e \<le> c div 2"
proof -
  assume "0 < e"
  then have "(2::nat) \<le> 2 ^ e" by (metis One_nat_def Suc_leI power_increasing power_one_right one_le_numeral)
  then show ?thesis by (simp add: div_le_mono2)
qed

lemma subtree_below_root: "j \<in> subtree k i \<Longrightarrow> i \<le> j"
proof -
  assume "j \<in> subtree k i"
  then obtain d where "(j + 1) div 2 ^ d = i + 1" using subtree_depth by blast
  moreover have "(j + 1) div 2 ^ d \<le> j + 1" by simp
  ultimately show ?thesis by linarith
qed

lemma root_not_in_halves [simp]:
  "i \<notin> subtree k (2 * i + 1)" "i \<notin> subtree k (2 * i + 2)"
  using subtree_below_root [of i k "2 * i + 1"] subtree_below_root [of i k "2 * i + 2"] by auto

lemma halves_disjoint: "subtree k (2 * i + 1) \<inter> subtree l (2 * i + 2) = {}"
proof (rule ccontr)
  assume "subtree k (2 * i + 1) \<inter> subtree l (2 * i + 2) \<noteq> {}"
  then obtain j where "j \<in> subtree k (2 * i + 1)" "j \<in> subtree l (2 * i + 2)" by blast
  then obtain d e where "(j + 1) div 2 ^ d = (2 * i + 1) + 1" and "(j + 1) div 2 ^ e = (2 * i + 2) + 1"
    using subtree_depth by blast
  then have d: "(j + 1) div 2 ^ d = 2 * i + 2" and e: "(j + 1) div 2 ^ e = 2 * i + 3"
    by simp_all
  show False
  proof (cases "d \<le> e")
    case True
    then have q: "2 * i + 3 = (2 * i + 2) div 2 ^ (e - d)" by (rule ancestors_comparable [OF d e])
    have "(2 * i + 2) div 2 ^ (e - d) \<le> 2 * i + 2" by (rule div_le_dividend)
    then show False using q by linarith
  next
    case False
    then have q: "2 * i + 2 = (2 * i + 3) div 2 ^ (d - e)" by (intro ancestors_comparable [OF e d]) simp
    have "(2 * i + 3) div 2 ^ (d - e) \<le> (2 * i + 3) div 2" using False by (intro half_shrinks) simp
    then show False using q by linarith
  qed
qed

lemma in_left_not_right: "j \<in> subtree k (2 * i + 1) \<Longrightarrow> j \<notin> subtree l (2 * i + 2)"
  and in_right_not_left: "j \<in> subtree l (2 * i + 2) \<Longrightarrow> j \<notin> subtree k (2 * i + 1)"
  using halves_disjoint [of k i l] by blast+

lemma subtree_bound: "j \<in> subtree k i \<Longrightarrow> j + 1 < (i + 2) * 2 ^ k"
proof -
  assume "j \<in> subtree k i"
  then obtain d where d: "d \<le> k" "(j + 1) div 2 ^ d = i + 1" using subtree_depth by blast
  have "j + 1 < (i + 1 + 1) * 2 ^ d" using d(2) by (metis dividend_less_div_times mult.commute zero_less_numeral zero_less_power add.commute mult_Suc Suc_eq_plus1)
  also have "\<dots> \<le> (i + 2) * 2 ^ k" using d(1) by (intro mult_le_mono power_increasing) auto
  finally show ?thesis .
qed

text \<open>Nothing outside a subtree matters to it.\<close>

lemma shape_cong:
  "(\<And>j. j \<in> subtree k i \<Longrightarrow>
      bn_order (nd' j) = bn_order (nd j) \<and> bn_base (nd' j) = bn_base (nd j) \<and>
      bn_parent (nd' j) = bn_parent (nd j) \<and> bn_left (nd' j) = bn_left (nd j) \<and>
      bn_right (nd' j) = bn_right (nd j)) \<Longrightarrow>
   shape k nd' i b p = shape k nd i b p"
  by (induction k arbitrary: i b p) auto

lemma tree_of_cong:
  "(\<And>j. j \<in> subtree k i \<Longrightarrow> bn_state (nd' j) = bn_state (nd j)) \<Longrightarrow>
   tree_of k nd' i = tree_of k nd i"
  by (induction k arbitrary: i) (auto split: NodeState.splits)

lemma all_free_cong:
  "(\<And>j. j \<in> subtree k i \<Longrightarrow> bn_state (nd' j) = bn_state (nd j)) \<Longrightarrow>
   all_free k nd' i = all_free k nd i"
  by (auto simp: all_free_def)

lemma states_ok_cong:
  "(\<And>j. j \<in> subtree k i \<Longrightarrow> bn_state (nd' j) = bn_state (nd j)) \<Longrightarrow>
   states_ok k nd' i = states_ok k nd i"
proof (induction k arbitrary: i)
  case 0
  then show ?case by simp
next
  case (Suc k)
  have "states_ok k nd' (2 * i + 1) = states_ok k nd (2 * i + 1)"
    "states_ok k nd' (2 * i + 2) = states_ok k nd (2 * i + 2)"
    using Suc.IH Suc.prems by auto
  moreover have "all_free k nd' (2 * i + 1) = all_free k nd (2 * i + 1)"
    "all_free k nd' (2 * i + 2) = all_free k nd (2 * i + 2)"
    using Suc.prems by (auto intro!: all_free_cong)
  moreover have "bn_state (nd' i) = bn_state (nd i)"
    "bn_state (nd' (2 * i + 1)) = bn_state (nd (2 * i + 1))"
    "bn_state (nd' (2 * i + 2)) = bn_state (nd (2 * i + 2))"
    using Suc.prems by auto
  ultimately show ?case by simp
qed

lemma all_free_states_ok: "all_free k nd i \<Longrightarrow> states_ok k nd i"
  by (cases k) (auto simp: all_free_def)

lemma all_free_tree: "all_free k nd i \<Longrightarrow> tree_of k nd i = BFree"
  by (cases k) (auto simp: all_free_def)

lemma all_free_halves:
  "all_free (Suc k) nd i \<longleftrightarrow>
   bn_state (nd i) = NODE_FREE \<and> all_free k nd (2 * i + 1) \<and> all_free k nd (2 * i + 2)"
  by (auto simp: all_free_def)

lemma states_ok_free: "states_ok k nd i \<Longrightarrow> bn_state (nd i) = NODE_FREE \<Longrightarrow> all_free k nd i"
  by (cases k) (auto simp: all_free_halves, auto simp: all_free_def)

lemma tree_of_free_iff:
  "states_ok k nd i \<Longrightarrow> tree_of k nd i = BFree \<longleftrightarrow> bn_state (nd i) = NODE_FREE"
  by (cases k; cases "bn_state (nd i)") auto

lemma tree_of_used_iff:
  "tree_of k nd i = BUsed \<longleftrightarrow> bn_state (nd i) = NODE_USED"
  by (cases k; cases "bn_state (nd i)") auto

lemma states_ok_canon: "states_ok k nd i \<Longrightarrow> canon k (tree_of k nd i)"
proof (induction k arbitrary: i)
  case 0
  then show ?case by simp
next
  case (Suc k)
  show ?case
  proof (cases "bn_state (nd i)")
    case NODE_SPLIT
    with Suc.prems have ok: "states_ok k nd (2 * i + 1)" "states_ok k nd (2 * i + 2)" by auto
    with Suc.prems NODE_SPLIT Suc.IH show ?thesis by (simp add: tree_of_free_iff)
  qed auto
qed

lemma shape_order: "shape k nd i b p \<Longrightarrow> bn_order (nd i) = HEAP_ORDER_MIN + k"
  by (cases k) auto

lemma shape_base: "shape k nd i b p \<Longrightarrow> bn_base (nd i) = b"
  by (cases k) auto

lemma shape_parent: "shape k nd i b p \<Longrightarrow> bn_parent (nd i) = p"
  by (cases k) auto

section \<open>Building the tree\<close>

lemma shape_reparent:
  assumes "shape k nd i b p" and "nd' i = (nd i)\<lparr>bn_parent := q\<rparr>"
    and "\<And>j. j \<in> subtree k i \<Longrightarrow> j \<noteq> i \<Longrightarrow> nd' j = nd j"
  shows "shape k nd' i b q"
proof (cases k)
  case 0
  with assms show ?thesis by simp
next
  case (Suc l)
  have "shape l nd' (2 * i + 1) b (Some i) = shape l nd (2 * i + 1) b (Some i)"
    and "shape l nd' (2 * i + 2) (b + bsize l) (Some i) = shape l nd (2 * i + 2) (b + bsize l) (Some i)"
    using assms(3) Suc root_not_in_halves [of i l] by (intro shape_cong; metis UnI1 UnI2 insertI2 subtree.simps(2))+
  with assms(1,2) Suc show ?thesis by simp
qed

lemma build_tree_0:
  "build_tree i HEAP_ORDER_MIN b nd =
     nd(i := \<lparr>bn_parent = None, bn_left = None, bn_right = None,
              bn_order = HEAP_ORDER_MIN, bn_state = NODE_FREE, bn_base = b\<rparr>)"
  by (subst build_tree.simps) (simp add: HEAP_ORDER_MIN_def)

lemma build_tree_Suc:
  assumes "HEAP_ORDER_MIN + Suc k < 256"
  shows "build_tree i (HEAP_ORDER_MIN + Suc k) b nd =
     (let nd1 = nd(i := \<lparr>bn_parent = None, bn_left = None, bn_right = None,
              bn_order = HEAP_ORDER_MIN + Suc k, bn_state = NODE_FREE, bn_base = b\<rparr>);
          nd2 = build_tree (2 * i + 1) (HEAP_ORDER_MIN + k) b nd1;
          nd3 = build_tree (2 * i + 2) (HEAP_ORDER_MIN + k) (b + bsize k) nd2;
          nd4 = nd3(2 * i + 1 := (nd3 (2 * i + 1))\<lparr>bn_parent := Some i\<rparr>);
          nd5 = nd4(2 * i + 2 := (nd4 (2 * i + 2))\<lparr>bn_parent := Some i\<rparr>)
      in nd5(i := (nd5 i)\<lparr>bn_left := Some (2 * i + 1), bn_right := Some (2 * i + 2)\<rparr>))"
proof -
  have "block_size (HEAP_ORDER_MIN + k) = bsize k"
    by (simp add: block_size_def bsize_def HEAP_ORDER_MIN_def)
  then show ?thesis
    using assms by (subst build_tree.simps) (simp add: Let_def mult.commute [of i 2])
qed

lemma build_tree_outside:
  "HEAP_ORDER_MIN + k < 256 \<Longrightarrow> j \<notin> subtree k i \<Longrightarrow>
   build_tree i (HEAP_ORDER_MIN + k) b nd j = nd j"
proof (induction k arbitrary: i b nd)
  case 0
  then show ?case by (simp add: build_tree_0)
next
  case (Suc k)
  have ne: "j \<noteq> i" "j \<noteq> 2 * i + 1" "j \<noteq> 2 * i + 2" and lt: "HEAP_ORDER_MIN + k < 256"
    and out: "j \<notin> subtree k (2 * i + 1)" "j \<notin> subtree k (2 * i + 2)"
    using Suc.prems by auto
  show ?case
    unfolding build_tree_Suc [OF Suc.prems(1)] Let_def
    using ne Suc.IH [OF lt out(1)] Suc.IH [OF lt out(2)] by simp
qed

lemma build_tree_shape:
  "HEAP_ORDER_MIN + k < 256 \<Longrightarrow>
   shape k (build_tree i (HEAP_ORDER_MIN + k) b nd) i b None \<and>
   all_free k (build_tree i (HEAP_ORDER_MIN + k) b nd) i"
proof (induction k arbitrary: i b nd)
  case 0
  then show ?case by (simp add: build_tree_0 all_free_def)
next
  case (Suc k)
  let ?o = "HEAP_ORDER_MIN + k"
  let ?l = "2 * i + 1" and ?r = "2 * i + 2"
  define nd1 where "nd1 = nd(i := \<lparr>bn_parent = None, bn_left = None, bn_right = None,
              bn_order = HEAP_ORDER_MIN + Suc k, bn_state = NODE_FREE, bn_base = b\<rparr>)"
  define nd2 where "nd2 = build_tree ?l ?o b nd1"
  define nd3 where "nd3 = build_tree ?r ?o (b + bsize k) nd2"
  define nd5 where "nd5 = (nd3(?l := (nd3 ?l)\<lparr>bn_parent := Some i\<rparr>))
    (?r := (nd3 ?r)\<lparr>bn_parent := Some i\<rparr>)"
  define nd6 where "nd6 = nd5(i := (nd5 i)\<lparr>bn_left := Some ?l, bn_right := Some ?r\<rparr>)"
  have lt: "?o < 256" using Suc.prems by simp
  have final: "build_tree i (HEAP_ORDER_MIN + Suc k) b nd = nd6"
    unfolding build_tree_Suc [OF Suc.prems] Let_def
    by (simp add: nd1_def nd2_def nd3_def nd5_def nd6_def)
  have L2: "shape k nd2 ?l b None" "all_free k nd2 ?l"
    using Suc.IH [OF lt] by (simp_all add: nd2_def)
  have L3: "\<And>j. j \<in> subtree k ?l \<Longrightarrow> nd3 j = nd2 j"
    unfolding nd3_def by (intro build_tree_outside lt in_left_not_right)
  have R3: "shape k nd3 ?r (b + bsize k) None" "all_free k nd3 ?r"
    using Suc.IH [OF lt] by (simp_all add: nd3_def)
  have I3: "nd3 i = nd1 i"
    unfolding nd3_def nd2_def
    using build_tree_outside [OF lt root_not_in_halves(1)]
      build_tree_outside [OF lt root_not_in_halves(2)] by metis
  have six: "\<And>j. j \<noteq> ?l \<Longrightarrow> j \<noteq> ?r \<Longrightarrow> j \<noteq> i \<Longrightarrow> nd6 j = nd3 j"
    "nd6 ?l = (nd3 ?l)\<lparr>bn_parent := Some i\<rparr>" "nd6 ?r = (nd3 ?r)\<lparr>bn_parent := Some i\<rparr>"
    "nd6 i = (nd3 i)\<lparr>bn_left := Some ?l, bn_right := Some ?r\<rparr>"
    by (auto simp: nd6_def nd5_def)
  have notin: "?r \<notin> subtree k ?l" "?l \<notin> subtree k ?r"
    using in_right_not_left [of ?r k i k] in_left_not_right [of ?l k i k] by simp_all
  have shl: "shape k nd6 ?l b (Some i)"
  proof (rule shape_reparent)
    show "shape k nd3 ?l b None" using L2(1) L3 by (subst shape_cong [of k ?l nd3 nd2]) auto
    show "nd6 ?l = (nd3 ?l)\<lparr>bn_parent := Some i\<rparr>" by (rule six)
    show "nd6 j = nd3 j" if "j \<in> subtree k ?l" "j \<noteq> ?l" for j
      using that notin root_not_in_halves(1) [of i k] by (intro six) auto
  qed
  have shr: "shape k nd6 ?r (b + bsize k) (Some i)"
  proof (rule shape_reparent)
    show "shape k nd3 ?r (b + bsize k) None" by (rule R3)
    show "nd6 ?r = (nd3 ?r)\<lparr>bn_parent := Some i\<rparr>" by (rule six)
    show "nd6 j = nd3 j" if "j \<in> subtree k ?r" "j \<noteq> ?r" for j
      using that notin root_not_in_halves(2) [of i k] by (intro six) auto
  qed
  have st: "\<And>j. bn_state (nd6 j) = bn_state (nd3 j)"
    by (auto simp: nd6_def nd5_def)
  have "all_free k nd6 ?l" "all_free k nd6 ?r"
    using L2(2) L3 R3(2) by (simp_all add: all_free_def st)
  moreover have "shape (Suc k) nd6 i b None \<and> bn_state (nd6 i) = NODE_FREE"
    using shl shr by (simp add: six(4) I3 nd1_def)
  ultimately show ?case
    unfolding final all_free_halves by blast
qed

text \<open>Every index written lies inside the array \<open>nodes[NODE_COUNT]\<close>.\<close>

lemma build_tree_in_bounds:
  assumes "NODE_COUNT \<le> j"
  shows "build_tree 0 HEAP_ORDER_MAX b nd j = nd j"
proof -
  have "HEAP_ORDER_MAX = HEAP_ORDER_MIN + 14" by (simp add: buddy_consts)
  moreover have "j \<notin> subtree 14 0" using subtree_bound [of j 14 0] assms by (auto simp: buddy_consts)
  ultimately show ?thesis using build_tree_outside [of 14 j 0 b nd] by (simp add: buddy_consts)
qed

section \<open>Acquiring a node\<close>

text \<open>\<open>same_links nd nd'\<close>: the two arrays differ in the states of their nodes only.\<close>

definition same_links :: "(nat \<Rightarrow> BuddyNode) \<Rightarrow> (nat \<Rightarrow> BuddyNode) \<Rightarrow> bool" where
  "same_links nd nd' \<longleftrightarrow> (\<forall>j. \<exists>s. nd' j = (nd j)\<lparr>bn_state := s\<rparr>)"

lemma same_links_refl [simp]: "same_links nd nd"
proof -
  have "\<forall>j. nd j = (nd j)\<lparr>bn_state := bn_state (nd j)\<rparr>" by simp
  then show ?thesis unfolding same_links_def by blast
qed

lemma same_links_trans: "same_links a b \<Longrightarrow> same_links b c \<Longrightarrow> same_links a c"
  unfolding same_links_def by (metis BuddyNode.fold_congs(5) BuddyNode.surjective BuddyNode.update_convs(5))

lemma same_links_upd: "same_links nd nd' \<Longrightarrow> same_links nd (nd'(i := (nd' i)\<lparr>bn_state := s\<rparr>))"
  unfolding same_links_def
  by (metis (no_types, lifting) BuddyNode.surjective BuddyNode.update_convs(5) fun_upd_apply)

lemma same_links_fields:
  assumes "same_links nd nd'"
  shows "bn_order (nd' j) = bn_order (nd j)" "bn_base (nd' j) = bn_base (nd j)"
    "bn_parent (nd' j) = bn_parent (nd j)" "bn_left (nd' j) = bn_left (nd j)"
    "bn_right (nd' j) = bn_right (nd j)"
proof -
  obtain s where "nd' j = (nd j)\<lparr>bn_state := s\<rparr>" using assms unfolding same_links_def by blast
  then show "bn_order (nd' j) = bn_order (nd j)" "bn_base (nd' j) = bn_base (nd j)"
    "bn_parent (nd' j) = bn_parent (nd j)" "bn_left (nd' j) = bn_left (nd j)"
    "bn_right (nd' j) = bn_right (nd j)"
    by simp_all
qed

lemma shape_same_links: "same_links nd nd' \<Longrightarrow> shape k nd' i b p = shape k nd i b p"
  by (intro shape_cong) (simp add: same_links_fields)

text \<open>What a successful search in the subtree of \<open>i\<close> has done.\<close>

definition acquired ::
  "nat \<Rightarrow> nat \<Rightarrow> addr \<Rightarrow> nat \<Rightarrow> (nat \<Rightarrow> BuddyNode) \<Rightarrow> nat \<Rightarrow> (nat \<Rightarrow> BuddyNode) \<Rightarrow> bool"
where
  "acquired h k b i nd j nd' \<longleftrightarrow>
     j \<in> subtree k i \<and> bn_order (nd j) = HEAP_ORDER_MIN + h \<and>
     tree_acquire h k b (tree_of k nd i) = Some (bn_base (nd j), tree_of k nd' i) \<and>
     same_links nd nd' \<and> (\<forall>x. x \<notin> subtree k i \<longrightarrow> nd' x = nd x) \<and>
     states_ok k nd' i \<and> bn_state (nd j) \<noteq> NODE_USED \<and>
     (\<forall>x. bn_state (nd' x) = NODE_USED \<longleftrightarrow> x = j \<or> bn_state (nd x) = NODE_USED)"

lemma acquired_not_free: "acquired h k b i nd j nd' \<Longrightarrow> bn_state (nd' i) \<noteq> NODE_FREE"
  unfolding acquired_def using tree_acquire_neq_Free tree_of_free_iff by metis

definition acquire_result ::
  "nat \<Rightarrow> nat \<Rightarrow> addr \<Rightarrow> nat \<Rightarrow> (nat \<Rightarrow> BuddyNode) \<Rightarrow> bool"
where
  "acquire_result h k b i nd \<longleftrightarrow>
     (acquire_node (Some i) (HEAP_ORDER_MIN + h) nd = Some (None, nd) \<and>
      tree_acquire h k b (tree_of k nd i) = None) \<or>
     (\<exists>j nd'. acquire_node (Some i) (HEAP_ORDER_MIN + h) nd = Some (Some j, nd') \<and>
              acquired h k b i nd j nd')"

lemma acquire_here:
  assumes "shape k nd i b p" and "states_ok k nd i" and "k \<le> h"
  shows "acquire_result h k b i nd"
proof (cases "k = h \<and> bn_state (nd i) = NODE_FREE")
  case True
  let ?nd = "nd(i := (nd i)\<lparr>bn_state := NODE_USED\<rparr>)"
  have ord: "bn_order (nd i) = HEAP_ORDER_MIN + h" using shape_order [OF assms(1)] True by simp
  have fr: "all_free k nd i" using assms(2) True states_ok_free by blast
  have step: "acquire_node (Some i) (HEAP_ORDER_MIN + h) nd = Some (Some i, ?nd)"
    by (subst acquire_node.simps) (simp add: ord True)
  have "tree_of k nd i = BFree" using fr by (rule all_free_tree)
  moreover have "tree_of k ?nd i = BUsed" by (simp add: tree_of_used_iff)
  ultimately have ta: "tree_acquire h k b (tree_of k nd i) = Some (bn_base (nd i), tree_of k ?nd i)"
    using True shape_base [OF assms(1)] by (cases k) auto
  have sok: "states_ok k ?nd i"
  proof (cases k)
    case 0
    then show ?thesis by simp
  next
    case (Suc l)
    have "all_free l ?nd (2 * i + 1) = all_free l nd (2 * i + 1)"
      "all_free l ?nd (2 * i + 2) = all_free l nd (2 * i + 2)"
      using root_not_in_halves [of i l] by (auto intro!: all_free_cong)
    with fr Suc show ?thesis by (simp add: all_free_halves)
  qed
  have "acquired h k b i nd i ?nd"
    unfolding acquired_def using ord ta sok True same_links_upd [OF same_links_refl] by auto
  with step show ?thesis unfolding acquire_result_def by blast
next
  case False
  have ord: "bn_order (nd i) = HEAP_ORDER_MIN + k" using shape_order [OF assms(1)] .
  have "acquire_node (Some i) (HEAP_ORDER_MIN + h) nd = Some (None, nd)"
    using False assms(3) by (subst acquire_node.simps) (auto simp: ord)
  moreover have "tree_acquire h k b (tree_of k nd i) = None"
    using False assms(2,3) by (cases k; cases "bn_state (nd i)") auto
  ultimately show ?thesis unfolding acquire_result_def by blast
qed

text \<open>The array with the node marked split, as the search leaves it before it descends.\<close>

definition mark_split :: "nat \<Rightarrow> (nat \<Rightarrow> BuddyNode) \<Rightarrow> (nat \<Rightarrow> BuddyNode)" where
  "mark_split i nd =
     (if bn_state (nd i) = NODE_FREE then nd(i := (nd i)\<lparr>bn_state := NODE_SPLIT\<rparr>) else nd)"

lemma mark_split_other [simp]: "j \<noteq> i \<Longrightarrow> mark_split i nd j = nd j"
  by (simp add: mark_split_def)

lemma mark_split_links: "same_links nd (mark_split i nd)"
  by (simp add: mark_split_def same_links_upd)

lemma mark_split_state:
  "bn_state (nd i) \<noteq> NODE_USED \<Longrightarrow> bn_state (mark_split i nd i) = NODE_SPLIT"
  by (cases "bn_state (nd i)") (simp_all add: mark_split_def)

lemma mark_split_halves:
  assumes "c = 2 * i + 1 \<or> c = 2 * i + 2"
  shows "tree_of k (mark_split i nd) c = tree_of k nd c"
    and "states_ok k (mark_split i nd) c = states_ok k nd c"
    and "shape k (mark_split i nd) c b p = shape k nd c b p"
proof -
  have "i \<notin> subtree k c" using assms root_not_in_halves [of i k] by metis
  then have eq: "\<And>j. j \<in> subtree k c \<Longrightarrow> mark_split i nd j = nd j" by (metis mark_split_other)
  show "tree_of k (mark_split i nd) c = tree_of k nd c"
    "states_ok k (mark_split i nd) c = states_ok k nd c"
    "shape k (mark_split i nd) c b p = shape k nd c b p"
    by (intro tree_of_cong states_ok_cong shape_cong; simp add: eq)+
qed

lemma states_ok_halves:
  assumes "states_ok (Suc k) nd i" and "c = 2 * i + 1 \<or> c = 2 * i + 2"
  shows "states_ok k nd c"
  using assms all_free_states_ok by (auto split: if_splits)

lemma tree_of_unsplit:
  assumes "states_ok (Suc k) nd i" and "bn_state (nd i) \<noteq> NODE_USED"
  shows "tree_of (Suc k) nd i =
     (if bn_state (nd i) = NODE_FREE then BFree
      else BSplit (tree_of k nd (2 * i + 1)) (tree_of k nd (2 * i + 2)))"
    and "bn_state (nd i) = NODE_FREE \<Longrightarrow> tree_of k nd (2 * i + 1) = BFree"
    and "bn_state (nd i) = NODE_FREE \<Longrightarrow> tree_of k nd (2 * i + 2) = BFree"
  using assms by (cases "bn_state (nd i)"; simp add: all_free_tree)+

lemma acquired_lift:
  assumes ok: "states_ok (Suc k) nd i" and st: "bn_state (nd i) \<noteq> NODE_USED" and h: "h \<le> k"
    and c: "c = 2 * i + 1 \<or> c = 2 * i + 2 \<and> tree_acquire h k b (tree_of k nd (2 * i + 1)) = None"
    and acq: "acquired h k (if c = 2 * i + 1 then b else b + bsize k) c (mark_split i nd) j nd'"
  shows "acquired h (Suc k) b i nd j nd'"
proof -
  let ?l = "2 * i + 1" and ?r = "2 * i + 2" and ?nd = "mark_split i nd"
  have cin: "c = ?l \<or> c = ?r" using c by blast
  have out: "\<And>x. x \<notin> subtree k c \<Longrightarrow> nd' x = ?nd x" and links: "same_links ?nd nd'"
    and jin: "j \<in> subtree k c" and okc: "states_ok k nd' c"
    using acq by (simp_all add: acquired_def)
  have ji: "j \<noteq> i" using jin root_not_in_halves [of i k] cin by metis
  have ic: "i \<notin> subtree k c" using root_not_in_halves [of i k] cin by metis
  define d where "d = (if c = ?l then ?r else ?l)"
  have dcase: "c = ?l \<and> d = ?r \<or> c = ?r \<and> d = ?l" using cin by (auto simp: d_def)
  have eqd: "\<And>x. x \<in> subtree k d \<Longrightarrow> nd' x = nd x"
  proof -
    fix x assume x: "x \<in> subtree k d"
    then have "x \<notin> subtree k c" using dcase in_left_not_right in_right_not_left by blast
    moreover have "x \<noteq> i" using x dcase root_not_in_halves [of i k] by metis
    ultimately show "nd' x = nd x" using out by simp
  qed
  have okd: "states_ok k nd d" using ok dcase states_ok_halves by blast
  have d_ok: "states_ok k nd' d" using okd by (subst states_ok_cong [of k d nd' nd]) (auto simp: eqd)
  have d_tree: "tree_of k nd' d = tree_of k nd d" by (intro tree_of_cong) (simp add: eqd)
  have i_split: "bn_state (nd' i) = NODE_SPLIT"
    using out [OF ic] mark_split_state [of nd i] st by simp
  have c_nf: "bn_state (nd' c) \<noteq> NODE_FREE" using acq by (rule acquired_not_free)
  have ok': "states_ok (Suc k) nd' i"
    using i_split okc d_ok c_nf dcase by auto
  have tr: "tree_of (Suc k) nd' i = BSplit (tree_of k nd' ?l) (tree_of k nd' ?r)"
    using i_split by simp
  have acq_tree: "tree_acquire h k (if c = ?l then b else b + bsize k) (tree_of k nd c) =
    Some (bn_base (nd j), tree_of k nd' c)"
    using acq mark_split_halves(1) [OF cin, of k nd] same_links_fields(2) [OF mark_split_links [of nd i], of j]
    by (simp add: acquired_def)
  have ta: "tree_acquire h (Suc k) b (tree_of (Suc k) nd i) = Some (bn_base (nd j), tree_of (Suc k) nd' i)"
  proof (cases "bn_state (nd i) = NODE_FREE")
    case True
    note fr = tree_of_unsplit [OF ok st]
    have "tree_acquire h k b BFree \<noteq> None"
      using tree_acquire_None_iff [of k BFree h b] h by auto
    then have "c = ?l" using c fr(2) [OF True] by auto
    with acq_tree d_tree dcase fr True h tr show ?thesis by auto
  next
    case False
    note fr = tree_of_unsplit [OF ok st]
    show ?thesis
      using acq_tree d_tree dcase fr(1) False h tr c by auto
  qed
  have j_ord: "bn_order (nd j) = HEAP_ORDER_MIN + h"
    using acq same_links_fields(1) [OF mark_split_links [of nd i], of j] by (simp add: acquired_def)
  have used: "\<And>x. bn_state (?nd x) = NODE_USED \<longleftrightarrow> bn_state (nd x) = NODE_USED"
    by (simp add: mark_split_def)
  have "same_links nd nd'" using mark_split_links links by (rule same_links_trans)
  moreover have "\<And>x. x \<notin> subtree (Suc k) i \<Longrightarrow> nd' x = nd x" using out cin by auto
  moreover have "j \<in> subtree (Suc k) i" using jin cin by auto
  ultimately show ?thesis
    using acq ok' ta j_ord used unfolding acquired_def by auto
qed

lemma acquire_node_descend:
  assumes "bn_state (nd i) \<noteq> NODE_USED" and "order < bn_order (nd i)"
    and "bn_left (nd i) = Some l" and "bn_right (nd i) = Some r"
  shows "acquire_node (Some i) order nd =
      do { (result, nd2) \<leftarrow> acquire_node (Some l) order (mark_split i nd);
           if result \<noteq> None then Some (result, nd2)
           else do { (result, nd3) \<leftarrow> acquire_node (Some r) order nd2;
                     if result \<noteq> None then Some (result, nd3)
                     else if bn_state (nd3 l) = NODE_FREE \<and> bn_state (nd3 r) = NODE_FREE
                     then Some (None, nd3(i := (nd3 i)\<lparr>bn_state := NODE_FREE\<rparr>))
                     else Some (None, nd3) } }"
  using assms by (subst acquire_node.simps) (simp add: mark_split_def)

lemma acquire_node_refines:
  "shape k nd i b p \<Longrightarrow> states_ok k nd i \<Longrightarrow> acquire_result h k b i nd"
proof (induction k arbitrary: nd i b p)
  case 0
  then show ?case by (intro acquire_here) auto
next
  case (Suc k)
  let ?l = "2 * i + 1" and ?r = "2 * i + 2" and ?nd = "mark_split i nd"
  let ?o = "HEAP_ORDER_MIN + h"
  have ord: "bn_order (nd i) = HEAP_ORDER_MIN + Suc k" and lr: "bn_left (nd i) = Some ?l" "bn_right (nd i) = Some ?r"
    using Suc.prems(1) by simp_all
  have shl: "shape k ?nd ?l b (Some i)" and shr: "shape k ?nd ?r (b + bsize k) (Some i)"
    using Suc.prems(1) mark_split_halves(3) [of ?l i k nd] mark_split_halves(3) [of ?r i k nd] by simp_all
  have okl: "states_ok k ?nd ?l" and okr: "states_ok k ?nd ?r"
    using states_ok_halves [OF Suc.prems(2)] mark_split_halves(2) [of ?l i k nd] mark_split_halves(2) [of ?r i k nd]
    by simp_all
  have trl: "tree_of k ?nd ?l = tree_of k nd ?l" and trr: "tree_of k ?nd ?r = tree_of k nd ?r"
    by (simp_all add: mark_split_halves(1) [of _ i k nd])
  show ?case
  proof (cases "Suc k \<le> h \<or> bn_state (nd i) = NODE_USED")
    case True
    then show ?thesis
    proof
      assume "Suc k \<le> h"
      then show ?thesis using Suc.prems by (intro acquire_here)
    next
      assume "bn_state (nd i) = NODE_USED"
      moreover from this have "acquire_node (Some i) ?o nd = Some (None, nd)"
        by (subst acquire_node.simps) simp
      ultimately show ?thesis by (simp add: acquire_result_def)
    qed
  next
    case False
    then have h: "h \<le> k" and st: "bn_state (nd i) \<noteq> NODE_USED" by auto
    note lift = acquired_lift [OF Suc.prems(2) st h]
    have "?o < bn_order (nd i)" using ord h by simp
    note unfold = acquire_node_descend [where nd = nd and i = i, OF st this lr]
    from Suc.IH [OF shl okl] show ?thesis
      unfolding acquire_result_def [of h k b ?l ?nd]
    proof (elim disjE exE conjE)
      fix j nd' assume "acquire_node (Some ?l) ?o ?nd = Some (Some j, nd')" "acquired h k b ?l ?nd j nd'"
      then show ?thesis using lift [of ?l b j nd'] unfold by (auto simp: acquire_result_def)
    next
      assume lN: "acquire_node (Some ?l) ?o ?nd = Some (None, ?nd)" "tree_acquire h k b (tree_of k ?nd ?l) = None"
      then have notfree: "bn_state (nd i) = NODE_SPLIT"
        using tree_of_unsplit(2) [OF Suc.prems(2) st] tree_acquire_None_iff [of k BFree h b] h st trl
        by (cases "bn_state (nd i)") auto
      then have nd: "?nd = nd" by (simp add: mark_split_def)
      from Suc.IH [OF shr okr] show ?thesis
        unfolding acquire_result_def [of h k _ ?r ?nd]
      proof (elim disjE exE conjE)
        fix j nd' assume "acquire_node (Some ?r) ?o ?nd = Some (Some j, nd')"
          "acquired h k (b + bsize k) ?r ?nd j nd'"
        then show ?thesis using lift [of ?r b j nd'] unfold lN trl by (auto simp: acquire_result_def)
      next
        assume rN: "acquire_node (Some ?r) ?o ?nd = Some (None, ?nd)"
          "tree_acquire h k (b + bsize k) (tree_of k ?nd ?r) = None"
        have "\<not> (bn_state (nd ?l) = NODE_FREE \<and> bn_state (nd ?r) = NODE_FREE)"
          using Suc.prems(2) notfree by simp
        then have "acquire_node (Some i) ?o nd = Some (None, nd)"
          using unfold lN(1) rN(1) nd by auto
        moreover have "tree_acquire h (Suc k) b (tree_of (Suc k) nd i) = None"
          using lN(2) rN(2) nd notfree by simp
        ultimately show ?thesis by (simp add: acquire_result_def)
      qed
    qed
  qed
qed

section \<open>Coalescing\<close>

lemma shape_base_range:
  "shape k nd i b p \<Longrightarrow> j \<in> subtree k i \<Longrightarrow> b \<le> bn_base (nd j) \<and> bn_base (nd j) < b + bsize k"
proof (induction k arbitrary: i b p)
  case 0
  then show ?case by simp
next
  case (Suc k)
  have "j = i \<or> j \<in> subtree k (2 * i + 1) \<or> j \<in> subtree k (2 * i + 2)" using Suc.prems(2) by simp
  moreover have "bn_base (nd i) = b" "shape k nd (2 * i + 1) b (Some i)"
    "shape k nd (2 * i + 2) (b + bsize k) (Some i)" using Suc.prems(1) by simp_all
  ultimately show ?case using Suc.IH by fastforce
qed

text \<open>What giving back the used node \<open>j\<close> below \<open>i\<close> has done.\<close>

definition released ::
  "nat \<Rightarrow> addr \<Rightarrow> nat \<Rightarrow> (nat \<Rightarrow> BuddyNode) \<Rightarrow> nat \<Rightarrow> (nat \<Rightarrow> BuddyNode) \<Rightarrow> bool"
where
  "released k b i nd j nd' \<longleftrightarrow>
     same_links nd nd' \<and> (\<forall>x. x \<notin> subtree k i \<longrightarrow> nd' x = nd x) \<and> states_ok k nd' i \<and>
     tree_of k nd' i = tree_release k (bn_base (nd j)) b (tree_of k nd i) \<and>
     (\<forall>x. bn_state (nd' x) = NODE_USED \<longleftrightarrow> x \<noteq> j \<and> bn_state (nd x) = NODE_USED)"

lemma released_self:
  assumes "shape k nd i b p" and "states_ok k nd i" and "bn_state (nd i) = NODE_USED"
  shows "released k b i nd i (nd(i := (nd i)\<lparr>bn_state := NODE_FREE\<rparr>))"
proof -
  let ?nd = "nd(i := (nd i)\<lparr>bn_state := NODE_FREE\<rparr>)"
  have ok: "states_ok k ?nd i" and tr: "tree_of k ?nd i = BFree"
  proof -
    have "all_free k ?nd i"
    proof (cases k)
      case 0
      then show ?thesis by (simp add: all_free_def)
    next
      case (Suc l)
      have "all_free l ?nd (2 * i + 1) = all_free l nd (2 * i + 1)"
        "all_free l ?nd (2 * i + 2) = all_free l nd (2 * i + 2)"
        using root_not_in_halves [of i l] by (auto intro!: all_free_cong)
      with assms(2,3) Suc show ?thesis by (simp add: all_free_halves)
    qed
    then show "states_ok k ?nd i" "tree_of k ?nd i = BFree"
      by (rule all_free_states_ok all_free_tree)+
  qed
  have "tree_of k nd i = BUsed" using assms(3) by (simp add: tree_of_used_iff)
  then show ?thesis
    unfolding released_def using ok tr shape_base [OF assms(1)] same_links_upd [OF same_links_refl]
    by auto
qed

lemma released_lift:
  assumes sh: "shape (Suc k) nd i b p" and ok: "states_ok (Suc k) nd i"
    and st: "bn_state (nd i) = NODE_SPLIT"
    and c: "c = 2 * i + 1 \<or> c = 2 * i + 2" and jin: "j \<in> subtree k c"
    and rel: "released k (if c = 2 * i + 1 then b else b + bsize k) c nd j nd1"
    and nd': "nd' = (if bn_state (nd1 (2 * i + 1)) = NODE_FREE \<and> bn_state (nd1 (2 * i + 2)) = NODE_FREE
                     then nd1(i := (nd1 i)\<lparr>bn_state := NODE_FREE\<rparr>) else nd1)"
  shows "released (Suc k) b i nd j nd'"
    and "bn_state (nd' i) = NODE_FREE \<longleftrightarrow>
         bn_state (nd1 (2 * i + 1)) = NODE_FREE \<and> bn_state (nd1 (2 * i + 2)) = NODE_FREE"
proof -
  let ?l = "2 * i + 1" and ?r = "2 * i + 2" and ?a = "bn_base (nd j)"
  let ?both = "bn_state (nd1 ?l) = NODE_FREE \<and> bn_state (nd1 ?r) = NODE_FREE"
  define d where "d = (if c = ?l then ?r else ?l)"
  have dcase: "c = ?l \<and> d = ?r \<or> c = ?r \<and> d = ?l" using c by (auto simp: d_def)
  have out: "\<And>x. x \<notin> subtree k c \<Longrightarrow> nd1 x = nd x" and links: "same_links nd nd1"
    and okc: "states_ok k nd1 c"
    using rel by (simp_all add: released_def)
  have ic: "i \<notin> subtree k c" using root_not_in_halves [of i k] c by metis
  have eqd: "\<And>x. x \<in> subtree k d \<Longrightarrow> nd1 x = nd x"
    using dcase in_left_not_right in_right_not_left out by blast
  have okd: "states_ok k nd1 d"
    using states_ok_halves [OF ok, of d] dcase by (subst states_ok_cong [of k d nd1 nd]) (auto simp: eqd)
  have d_tree: "tree_of k nd1 d = tree_of k nd d" by (intro tree_of_cong) (simp add: eqd)
  have i1: "bn_state (nd1 i) = NODE_SPLIT" using out [OF ic] st by simp
  have oklr: "states_ok k nd1 ?l" "states_ok k nd1 ?r" using okc okd dcase by auto
  have eq': "\<And>x. x \<noteq> i \<Longrightarrow> nd' x = nd1 x" by (simp add: nd')
  have halves': "tree_of k nd' ?l = tree_of k nd1 ?l" "tree_of k nd' ?r = tree_of k nd1 ?r"
    "states_ok k nd' ?l = states_ok k nd1 ?l" "states_ok k nd' ?r = states_ok k nd1 ?r"
    "all_free k nd' ?l = all_free k nd1 ?l" "all_free k nd' ?r = all_free k nd1 ?r"
    using root_not_in_halves [of i k]
    by (intro tree_of_cong states_ok_cong all_free_cong; metis eq')+
  show st': "bn_state (nd' i) = NODE_FREE \<longleftrightarrow> ?both" using i1 by (simp add: nd')
  have split': "\<not> ?both \<Longrightarrow> bn_state (nd' i) = NODE_SPLIT" using i1 by (auto simp: nd')
  have ok': "states_ok (Suc k) nd' i"
  proof (cases ?both)
    case True
    then have "all_free k nd1 ?l" "all_free k nd1 ?r" using oklr states_ok_free by blast+
    moreover have "bn_state (nd' i) = NODE_FREE" using True st' by blast
    ultimately show ?thesis using halves'(5,6) by simp
  next
    case False
    then show ?thesis using split' oklr halves'(3,4) eq' by simp
  qed
  have tr': "tree_of (Suc k) nd' i = merge_halves (tree_of k nd1 ?l) (tree_of k nd1 ?r)"
  proof (cases ?both)
    case True
    then have "tree_of k nd1 ?l = BFree" "tree_of k nd1 ?r = BFree"
      using oklr tree_of_free_iff by blast+
    then show ?thesis using st' True by simp
  next
    case False
    then have "\<not> (tree_of k nd1 ?l = BFree \<and> tree_of k nd1 ?r = BFree)"
      using oklr by (simp add: tree_of_free_iff)
    then have "merge_halves (tree_of k nd1 ?l) (tree_of k nd1 ?r) =
      BSplit (tree_of k nd1 ?l) (tree_of k nd1 ?r)"
      by (cases "tree_of k nd1 ?l"; cases "tree_of k nd1 ?r") auto
    then show ?thesis using split' [OF False] halves'(1,2) by simp
  qed
  have range: "c = ?l \<Longrightarrow> ?a < b + bsize k" "c = ?r \<Longrightarrow> b + bsize k \<le> ?a"
    using shape_base_range [of k nd ?l b "Some i" j] shape_base_range [of k nd ?r "b + bsize k" "Some i" j]
      sh jin by auto
  have c_tree: "tree_of k nd1 c = tree_release k ?a (if c = ?l then b else b + bsize k) (tree_of k nd c)"
    using rel by (simp add: released_def)
  have trel: "tree_of (Suc k) nd' i = tree_release (Suc k) ?a b (tree_of (Suc k) nd i)"
    using tr' c_tree d_tree range st dcase by auto
  have used: "\<And>x. bn_state (nd' x) = NODE_USED \<longleftrightarrow> bn_state (nd1 x) = NODE_USED"
    using i1 by (simp add: nd')
  have "same_links nd nd'" using links by (simp add: nd' same_links_upd)
  moreover have "\<And>x. x \<notin> subtree (Suc k) i \<Longrightarrow> nd' x = nd x" using out eq' c by auto
  ultimately show "released (Suc k) b i nd j nd'"
    using ok' trel used rel unfolding released_def by auto
qed

lemma coalesce_up_step:
  assumes "bn_left (nd i) = Some l" and "bn_right (nd i) = Some r"
  shows "coalesce_up (Some i) nd =
     (if bn_state (nd l) = NODE_FREE \<and> bn_state (nd r) = NODE_FREE
      then coalesce_up (bn_parent (nd i)) (nd(i := (nd i)\<lparr>bn_state := NODE_FREE\<rparr>))
      else Some (nd(i := (nd i)\<lparr>bn_state := NODE_SPLIT\<rparr>)))"
  using assms by (subst coalesce_up.simps) (simp add: Let_def)

text \<open>
  The loop from the parent of a released node up to \<open>i\<close> has released it; it goes on above
  \<open>i\<close> exactly when all of \<open>i\<close> became free.
\<close>

lemma coalesce_here:
  assumes "shape k nd i b p" and "states_ok k nd i" and "bn_state (nd i) = NODE_USED"
  shows "\<exists>nd'. released k b i nd i nd' \<and>
     coalesce_up (bn_parent (nd i)) (nd(i := (nd i)\<lparr>bn_state := NODE_FREE\<rparr>)) =
       (if bn_state (nd' i) = NODE_FREE then coalesce_up p nd' else Some nd')"
  using released_self [OF assms] shape_parent [OF assms(1)]
  by (metis BuddyNode.select_convs(5) BuddyNode.surjective BuddyNode.update_convs(5) fun_upd_same)

lemma coalesce_up_refines:
  assumes "shape k nd i b p" and "states_ok k nd i" and "j \<in> subtree k i"
    and "bn_state (nd j) = NODE_USED"
  shows "\<exists>nd'. released k b i nd j nd' \<and>
     coalesce_up (bn_parent (nd j)) (nd(j := (nd j)\<lparr>bn_state := NODE_FREE\<rparr>)) =
       (if bn_state (nd' i) = NODE_FREE then coalesce_up p nd' else Some nd')"
  using assms
proof (induction k arbitrary: i b p)
  case 0
  then have j: "j = i" by simp
  show ?case using coalesce_here [OF "0.prems"(1,2)] "0.prems"(4) unfolding j by blast
next
  case (Suc k)
  let ?l = "2 * i + 1" and ?r = "2 * i + 2"
  show ?case
  proof (cases "j = i")
    case True
    show ?thesis using coalesce_here [OF Suc.prems(1,2)] Suc.prems(4) unfolding True by blast
  next
    case False
    then obtain c where c: "c = ?l \<or> c = ?r" "j \<in> subtree k c" using Suc.prems(3) by auto
    let ?b = "if c = ?l then b else b + bsize k"
    have st: "bn_state (nd i) = NODE_SPLIT"
      using Suc.prems(2,4) c by (auto simp: all_free_def split: if_splits)
    have shc: "shape k nd c ?b (Some i)" using Suc.prems(1) c(1) by auto
    have okc: "states_ok k nd c" using states_ok_halves [OF Suc.prems(2) c(1)] .
    from Suc.IH [OF shc okc c(2) Suc.prems(4)] obtain nd1 where
      rel: "released k ?b c nd j nd1" and
      run: "coalesce_up (bn_parent (nd j)) (nd(j := (nd j)\<lparr>bn_state := NODE_FREE\<rparr>)) =
        (if bn_state (nd1 c) = NODE_FREE then coalesce_up (Some i) nd1 else Some nd1)"
      by blast
    let ?both = "bn_state (nd1 ?l) = NODE_FREE \<and> bn_state (nd1 ?r) = NODE_FREE"
    define nd' where "nd' = (if ?both then nd1(i := (nd1 i)\<lparr>bn_state := NODE_FREE\<rparr>) else nd1)"
    note up = released_lift [OF Suc.prems(1,2) st c rel nd'_def]
    have links: "same_links nd nd1" using rel by (simp add: released_def)
    have f: "bn_left (nd1 i) = Some ?l" "bn_right (nd1 i) = Some ?r" "bn_parent (nd1 i) = p"
      using Suc.prems(1) same_links_fields [OF links, of i] by simp_all
    have i1: "bn_state (nd1 i) = NODE_SPLIT"
    proof -
      have "i \<notin> subtree k c" using root_not_in_halves [of i k] c(1) by metis
      then show ?thesis using rel st by (simp add: released_def)
    qed
    then have same: "nd1(i := (nd1 i)\<lparr>bn_state := NODE_SPLIT\<rparr>) = nd1" by (simp add: fun_upd_idem)
    have "coalesce_up (Some i) nd1 = (if ?both then coalesce_up p nd' else Some nd')"
      using coalesce_up_step [where nd = nd1 and i = i, OF f(1,2)] f(3) same by (simp add: nd'_def)
    then have "coalesce_up (bn_parent (nd j)) (nd(j := (nd j)\<lparr>bn_state := NODE_FREE\<rparr>)) =
       (if bn_state (nd' i) = NODE_FREE then coalesce_up p nd' else Some nd')"
      using run up(2) c(1) by (auto simp: nd'_def)
    with up(1) show ?thesis by blast
  qed
qed

section \<open>The invariant of the allocator\<close>

text \<open>
  \<open>tree m\<close> is the tree the array stands for, of height \<open>HEIGHT = 14\<close>, the order of the
  whole heap minus the smallest order. A used node is named by the header in front of its
  block.
\<close>

abbreviation HEIGHT :: nat where
  "HEIGHT \<equiv> 14"

definition tree :: "buddy \<Rightarrow> btree" where
  "tree m = tree_of HEIGHT (nodes m) 0"

definition buddy_inv :: "buddy \<Rightarrow> bool" where
  "buddy_inv m \<longleftrightarrow>
     root m = Some 0 \<and> shape HEIGHT (nodes m) 0 (heap m) None \<and>
     states_ok HEIGHT (nodes m) 0 \<and>
     (\<forall>i\<in>subtree HEIGHT 0. bn_state (nodes m i) = NODE_USED \<longrightarrow>
        header m (bn_base (nodes m i)) = Header (Some i))"

lemma buddy_inv_canon: "buddy_inv m \<Longrightarrow> canon HEIGHT (tree m)"
  by (simp add: buddy_inv_def tree_def states_ok_canon)

text \<open>The used nodes are the used blocks of the tree.\<close>

lemma used_nodes_blocks:
  "shape k nd i b p \<Longrightarrow> states_ok k nd i \<Longrightarrow>
   used_blocks k b (tree_of k nd i) =
   {(bn_base (nd j), bn_order (nd j) - HEAP_ORDER_MIN) | j. j \<in> subtree k i \<and> bn_state (nd j) = NODE_USED}"
proof (induction k arbitrary: i b p)
  case 0
  then show ?case by auto
next
  case (Suc k)
  have none: "{(bn_base (nd j), bn_order (nd j) - HEAP_ORDER_MIN) | j.
      j \<in> subtree (Suc k) i \<and> bn_state (nd j) = NODE_USED} = (if bn_state (nd i) = NODE_USED then {(b, Suc k)} else {})"
    if "bn_state (nd i) \<noteq> NODE_SPLIT"
    using that Suc.prems by (auto simp: all_free_def)
  show ?case
  proof (cases "bn_state (nd i)")
    case NODE_SPLIT
    have ok: "states_ok k nd (2 * i + 1)" "states_ok k nd (2 * i + 2)"
      using states_ok_halves [OF Suc.prems(2)] by auto
    have sh: "shape k nd (2 * i + 1) b (Some i)" "shape k nd (2 * i + 2) (b + bsize k) (Some i)"
      using Suc.prems(1) by simp_all
    show ?thesis
      using Suc.IH [OF sh(1) ok(1)] Suc.IH [OF sh(2) ok(2)] NODE_SPLIT by auto
  next
    case NODE_FREE
    then show ?thesis using none by simp
  next
    case NODE_USED
    then show ?thesis using none by simp
  qed
qed

section \<open>The size of a request\<close>

lemma required_order_from_spec:
  "order \<le> HEAP_ORDER_MAX \<Longrightarrow> sz \<le> HEAP_SIZE \<Longrightarrow>
   (order = HEAP_ORDER_MIN \<or> block_size (order - 1) < sz) \<Longrightarrow>
   let q = required_order_from sz order in
     order \<le> q \<and> q \<le> HEAP_ORDER_MAX \<and> sz \<le> block_size q \<and>
     (q = HEAP_ORDER_MIN \<or> block_size (q - 1) < sz)"
proof (induction sz order rule: required_order_from.induct)
  case (1 sz order)
  show ?case
  proof (cases "block_size order < sz")
    case True
    with "1.prems" have "order \<noteq> HEAP_ORDER_MAX" by (auto simp: block_size_def HEAP_SIZE_def)
    with True "1.prems" have "order + 1 \<le> HEAP_ORDER_MAX" by simp
    with True "1.IH" "1.prems" show ?thesis
      by (simp add: required_order_from.simps [of sz order] Let_def)
  next
    case False
    with "1.prems" show ?thesis
      by (simp add: required_order_from.simps [of sz order] Let_def)
  qed
qed

text \<open>\<open>required_order\<close> finds the smallest order whose blocks can hold the request.\<close>

lemma required_order_spec:
  assumes "sz \<le> HEAP_SIZE"
  shows "HEAP_ORDER_MIN \<le> required_order sz" and "required_order sz \<le> HEAP_ORDER_MAX"
    and "sz \<le> block_size (required_order sz)"
    and "required_order sz = HEAP_ORDER_MIN \<or> block_size (required_order sz - 1) < sz"
  using required_order_from_spec [of HEAP_ORDER_MIN sz] assms
  by (auto simp: required_order_def Let_def buddy_consts)

lemma required_order_le:
  assumes "sz \<le> HEAP_SIZE" and "sz \<le> bsize h"
  shows "required_order sz \<le> HEAP_ORDER_MIN + h"
proof (rule ccontr)
  assume "\<not> ?thesis"
  then have gt: "HEAP_ORDER_MIN + h \<le> required_order sz - 1" "required_order sz \<noteq> HEAP_ORDER_MIN"
    by auto
  then have "block_size (required_order sz - 1) < sz" using required_order_spec(4) [OF assms(1)] by simp
  moreover have "bsize h \<le> block_size (required_order sz - 1)"
    unfolding bsize_def block_size_def using gt(1) by (intro power_increasing) (auto simp: HEAP_ORDER_MIN_def)
  ultimately show False using assms(2) by simp
qed

section \<open>The operations keep the invariant\<close>

lemma mem_init_inv:
  "buddy_inv (mem_init m)" "tree (mem_init m) = BFree" "heap (mem_init m) = heap m"
proof -
  have eq: "HEAP_ORDER_MAX = HEAP_ORDER_MIN + HEIGHT" by (simp add: buddy_consts)
  have bt: "shape HEIGHT (nodes (mem_init m)) 0 (heap m) None \<and> all_free HEIGHT (nodes (mem_init m)) 0"
    unfolding mem_init_def eq using build_tree_shape [of HEIGHT 0 "heap m" "nodes m"]
    by (simp add: HEAP_ORDER_MIN_def)
  show h: "heap (mem_init m) = heap m" by (simp add: mem_init_def)
  show "tree (mem_init m) = BFree" using bt by (simp add: tree_def all_free_tree)
  have "states_ok HEIGHT (nodes (mem_init m)) 0" using bt all_free_states_ok by blast
  moreover have "\<And>i. i \<in> subtree HEIGHT 0 \<Longrightarrow> bn_state (nodes (mem_init m) i) \<noteq> NODE_USED"
    using bt by (auto simp: all_free_def)
  ultimately show "buddy_inv (mem_init m)"
    unfolding buddy_inv_def using bt h by (auto simp: mem_init_def)
qed

text \<open>The requests the allocator refuses outright, and the height it looks for otherwise.\<close>

definition request_ok :: "u64 \<Rightarrow> bool" where
  "request_ok sz \<longleftrightarrow> sz \<noteq> 0 \<and> unat sz \<le> HEAP_SIZE - HEADER_SIZE"

definition request_height :: "u64 \<Rightarrow> nat" where
  "request_height sz = required_order (unat sz + HEADER_SIZE) - HEAP_ORDER_MIN"

lemma request_total:
  assumes "request_ok sz"
  shows "unat (sz + of_nat HEADER_SIZE) = unat sz + HEADER_SIZE"
    and "unat sz + HEADER_SIZE \<le> HEAP_SIZE"
    and "required_order (unat sz + HEADER_SIZE) = HEAP_ORDER_MIN + request_height sz"
    and "unat sz + HEADER_SIZE \<le> bsize (request_height sz)"
    and "request_height sz \<le> HEIGHT"
proof -
  show le: "unat sz + HEADER_SIZE \<le> HEAP_SIZE" using assms by (simp add: request_ok_def buddy_consts)
  then show "unat (sz + of_nat HEADER_SIZE) = unat sz + HEADER_SIZE"
    by (simp add: unat_word_ariths buddy_consts)
  note ro = required_order_spec [OF le]
  show o: "required_order (unat sz + HEADER_SIZE) = HEAP_ORDER_MIN + request_height sz"
    using ro(1) by (simp add: request_height_def)
  show "unat sz + HEADER_SIZE \<le> bsize (request_height sz)"
    using ro(3) unfolding o by (simp add: block_size_def bsize_def HEAP_ORDER_MIN_def)
  show "request_height sz \<le> HEIGHT" using ro(2) unfolding o by (simp add: buddy_consts)
qed

lemma mem_alloc_unfold:
  assumes "buddy_inv m" and "request_ok sz"
  shows "mem_alloc sz m = do {
      (node, nd) \<leftarrow> acquire_node (Some 0) (HEAP_ORDER_MIN + request_height sz) (nodes m);
      (case node of
         None \<Rightarrow> Some (NULL, m\<lparr>nodes := nd\<rparr>)
       | Some i \<Rightarrow> Some (bn_base (nd i) + HEADER_SIZE,
            m\<lparr>nodes := nd,
              header := (client_owns (bn_base (nd i)) (bn_order (nd i)) (header m))
                          (bn_base (nd i) := Header (Some i))\<rparr>)) }"
proof -
  have "\<not> HEAP_ORDER_MAX < HEAP_ORDER_MIN + request_height sz"
    using request_total(5) [OF assms(2)] by (simp add: buddy_consts)
  moreover have "root m = Some 0" using assms(1) by (simp add: buddy_inv_def)
  moreover have "sz \<noteq> 0" "\<not> HEAP_SIZE - HEADER_SIZE < unat sz" "\<not> HEAP_SIZE < unat sz"
    using assms(2) by (auto simp: request_ok_def)
  ultimately show ?thesis
    unfolding mem_alloc_def Let_def request_total(1) [OF assms(2)] request_total(3) [OF assms(2)]
    by simp
qed

lemma mem_alloc_refused:
  "buddy_inv m \<Longrightarrow> \<not> request_ok sz \<Longrightarrow> mem_alloc sz m = Some (NULL, m)"
  by (auto simp: mem_alloc_def buddy_inv_def request_ok_def)

lemma used_blocks_tree:
  "buddy_inv m \<Longrightarrow> used_blocks HEIGHT (heap m) (tree m) =
   {(bn_base (nodes m j), bn_order (nodes m j) - HEAP_ORDER_MIN) | j.
      j \<in> subtree HEIGHT 0 \<and> bn_state (nodes m j) = NODE_USED}"
  unfolding tree_def by (rule used_nodes_blocks) (auto simp: buddy_inv_def)

lemma mem_alloc_spec:
  assumes inv: "buddy_inv m" and req: "request_ok sz"
  shows "case tree_acquire (request_height sz) HEIGHT (heap m) (tree m) of
      None \<Rightarrow> mem_alloc sz m = Some (NULL, m)
    | Some (b, t') \<Rightarrow> \<exists>m'. mem_alloc sz m = Some (b + HEADER_SIZE, m') \<and> buddy_inv m' \<and>
        tree m' = t' \<and> heap m' = heap m"
proof -
  let ?h = "request_height sz" and ?nd = "nodes m"
  have sh: "shape HEIGHT ?nd 0 (heap m) None" and ok: "states_ok HEIGHT ?nd 0"
    using inv by (simp_all add: buddy_inv_def)
  show ?thesis
    using acquire_node_refines [OF sh ok, of ?h]
    unfolding acquire_result_def
  proof (elim disjE exE conjE)
    assume "acquire_node (Some 0) (HEAP_ORDER_MIN + ?h) ?nd = Some (None, ?nd)"
      "tree_acquire ?h HEIGHT (heap m) (tree_of HEIGHT ?nd 0) = None"
    then show ?thesis using mem_alloc_unfold [OF inv req] by (simp add: tree_def)
  next
    fix j nd'
    assume run: "acquire_node (Some 0) (HEAP_ORDER_MIN + ?h) ?nd = Some (Some j, nd')"
      and acq: "acquired ?h HEIGHT (heap m) 0 ?nd j nd'"
    let ?b = "bn_base (?nd j)"
    have links: "same_links ?nd nd'" and ta: "tree_acquire ?h HEIGHT (heap m) (tree m) =
      Some (?b, tree_of HEIGHT nd' 0)" and jin: "j \<in> subtree HEIGHT 0"
      and ok': "states_ok HEIGHT nd' 0" and ord: "bn_order (?nd j) = HEAP_ORDER_MIN + ?h"
      and used: "\<And>x. bn_state (nd' x) = NODE_USED \<longleftrightarrow> x = j \<or> bn_state (?nd x) = NODE_USED"
      using acq by (auto simp: acquired_def tree_def)
    define m' where "m' = m\<lparr>nodes := nd', header := (client_owns ?b (HEAP_ORDER_MIN + ?h) (header m))
                          (?b := Header (Some j))\<rparr>"
    have res: "mem_alloc sz m = Some (?b + HEADER_SIZE, m')"
      using mem_alloc_unfold [OF inv req] run same_links_fields(1,2) [OF links, of j] ord
      by (simp add: m'_def)
    have hdr: "header m' (bn_base (nodes m' x)) = Header (Some x)"
      if x: "x \<in> subtree HEIGHT 0" "bn_state (nodes m' x) = NODE_USED" for x
    proof (cases "x = j")
      case True
      then show ?thesis using same_links_fields(2) [OF links, of j] by (simp add: m'_def)
    next
      case False
      with x used have xu: "bn_state (?nd x) = NODE_USED" by (simp add: m'_def)
      let ?x = "(bn_base (?nd x), bn_order (?nd x) - HEAP_ORDER_MIN)"
      have "?x \<in> used_blocks HEIGHT (heap m) (tree m)"
        using used_blocks_tree [OF inv] x(1) xu by blast
      then have "block_bytes ?x \<inter> block_bytes (?b, ?h) = {}"
        by (rule tree_acquire_fresh [OF ta])
      then have "bn_base (?nd x) \<notin> block_bytes (?b, ?h)" using base_in_block by blast
      then have "\<not> (?b \<le> bn_base (?nd x) \<and> bn_base (?nd x) < ?b + bsize ?h)"
        by (simp add: block_bytes_def)
      moreover have "block_size (HEAP_ORDER_MIN + ?h) = bsize ?h"
        by (simp add: block_size_def bsize_def HEAP_ORDER_MIN_def)
      moreover have "header m (bn_base (?nd x)) = Header (Some x)"
        using inv x(1) xu by (simp add: buddy_inv_def)
      ultimately show ?thesis
        using same_links_fields(2) [OF links, of x] by (auto simp: m'_def client_owns_def)
    qed
    have "buddy_inv m'"
      unfolding buddy_inv_def using inv sh ok' hdr shape_same_links [OF links]
      by (auto simp: m'_def buddy_inv_def)
    moreover have "tree m' = tree_of HEIGHT nd' 0" "heap m' = heap m"
      by (simp_all add: m'_def tree_def)
    ultimately show ?thesis using ta res by auto
  qed
qed

lemma mem_free_spec:
  assumes inv: "buddy_inv m" and used: "(b, h) \<in> used_blocks HEIGHT (heap m) (tree m)"
  shows "\<exists>m'. mem_free (b + HEADER_SIZE) m = Some m' \<and> buddy_inv m' \<and>
     tree m' = tree_release HEIGHT b (heap m) (tree m) \<and> heap m' = heap m"
proof -
  let ?nd = "nodes m"
  have sh: "shape HEIGHT ?nd 0 (heap m) None" and ok: "states_ok HEIGHT ?nd 0"
    and root: "root m = Some 0"
    using inv by (simp_all add: buddy_inv_def)
  obtain j where j: "j \<in> subtree HEIGHT 0" "bn_state (?nd j) = NODE_USED" "bn_base (?nd j) = b"
    using used used_blocks_tree [OF inv] by auto
  have hdr: "header m b = Header (Some j)" using inv j by (auto simp: buddy_inv_def)
  obtain nd' where rel: "released HEIGHT (heap m) 0 ?nd j nd'"
    and run: "coalesce_up (bn_parent (?nd j)) (?nd(j := (?nd j)\<lparr>bn_state := NODE_FREE\<rparr>)) =
       (if bn_state (nd' 0) = NODE_FREE then coalesce_up None nd' else Some nd')"
    using coalesce_up_refines [OF sh ok j(1,2)] by blast
  have run': "coalesce_up (bn_parent (?nd j)) (?nd(j := (?nd j)\<lparr>bn_state := NODE_FREE\<rparr>)) = Some nd'"
    unfolding run by (simp add: coalesce_up.simps [of None])
  define m' where "m' = m\<lparr>nodes := nd', header := (header m)(b := Header None)\<rparr>"
  have links: "same_links ?nd nd'" and ok': "states_ok HEIGHT nd' 0"
    and tr: "tree_of HEIGHT nd' 0 = tree_release HEIGHT b (heap m) (tree m)"
    and us: "\<And>x. bn_state (nd' x) = NODE_USED \<longleftrightarrow> x \<noteq> j \<and> bn_state (?nd x) = NODE_USED"
    using rel j(3) by (auto simp: released_def tree_def)
  have res: "mem_free (b + HEADER_SIZE) m = Some m'"
    using root hdr j run' by (simp add: mem_free_def HEADER_SIZE_def Let_def m'_def)
  have hdr': "header m' (bn_base (nodes m' x)) = Header (Some x)"
    if x: "x \<in> subtree HEIGHT 0" "bn_state (nodes m' x) = NODE_USED" for x
  proof -
    have xu: "x \<noteq> j" "bn_state (?nd x) = NODE_USED" using x(2) us by (auto simp: m'_def)
    have hx: "header m (bn_base (?nd x)) = Header (Some x)" using inv x(1) xu(2) by (simp add: buddy_inv_def)
    then have "bn_base (?nd x) \<noteq> b" using hdr xu(1) by auto
    then show ?thesis using hx same_links_fields(2) [OF links, of x] by (simp add: m'_def)
  qed
  have "buddy_inv m'"
    unfolding buddy_inv_def using inv sh ok' hdr' shape_same_links [OF links]
    by (auto simp: m'_def buddy_inv_def)
  then show ?thesis using res tr by (auto simp: m'_def tree_def)
qed

section \<open>The allocator contract\<close>

text \<open>The blocks a client holds: the used blocks without their headers.\<close>

definition buddy_blocks :: "buddy \<Rightarrow> (addr \<times> nat) set" where
  "buddy_blocks m =
     (\<lambda>(b, h). (b + HEADER_SIZE, bsize h - HEADER_SIZE)) ` used_blocks HEIGHT (heap m) (tree m)"

lemma payload_within_block: "payload (b + HEADER_SIZE, bsize h - HEADER_SIZE) \<subseteq> block_bytes (b, h)"
  using bsize_ge_32 [of h] by (auto simp: payload_def block_bytes_def HEADER_SIZE_def)

lemma buddy_blocks_base: "(p, c) \<in> buddy_blocks m \<Longrightarrow>
   \<exists>h. p = (p - HEADER_SIZE) + HEADER_SIZE \<and> c = bsize h - HEADER_SIZE \<and>
       (p - HEADER_SIZE, h) \<in> used_blocks HEIGHT (heap m) (tree m)"
  by (auto simp: buddy_blocks_def)

lemma mem_alloc_cases:
  assumes "buddy_inv m"
  obtains (null) "mem_alloc sz m = Some (NULL, m)"
      and "request_ok sz \<Longrightarrow> tree_acquire (request_height sz) HEIGHT (heap m) (tree m) = None"
  | (block) b m' where "mem_alloc sz m = Some (b + HEADER_SIZE, m')" and "buddy_inv m'"
      and "request_ok sz" and "heap m' = heap m"
      and "tree_acquire (request_height sz) HEIGHT (heap m) (tree m) = Some (b, tree m')"
proof (cases "request_ok sz")
  case False
  then show thesis using mem_alloc_refused [OF assms] null by blast
next
  case True
  show thesis
  proof (cases "tree_acquire (request_height sz) HEIGHT (heap m) (tree m)")
    case None
    then show thesis using mem_alloc_spec [OF assms True] null by simp
  next
    case (Some r)
    then show thesis using mem_alloc_spec [OF assms True] block True by (cases r) auto
  qed
qed

lemma buddy_alloc_new:
  assumes inv: "buddy_inv m" and run: "mem_alloc sz m = Some (p, m')" and p: "p \<noteq> NULL"
  shows "\<exists>c. unat sz \<le> c \<and> buddy_blocks m' = insert (p, c) (buddy_blocks m) \<and>
          p \<notin> fst ` buddy_blocks m \<and> (\<forall>y\<in>buddy_blocks m. payload (p, c) \<inter> payload y = {})"
  using inv
proof (cases rule: mem_alloc_cases [of m sz])
  case null
  then show ?thesis using run p by simp
next
  case (block b m1)
  let ?h = "request_height sz" and ?c = "bsize (request_height sz) - HEADER_SIZE"
  have m': "p = b + HEADER_SIZE" "m' = m1" using block(1) run by auto
  have ins: "used_blocks HEIGHT (heap m) (tree m1) = insert (b, ?h) (used_blocks HEIGHT (heap m) (tree m))"
    by (rule tree_acquire_used [OF block(5)])
  have fresh: "\<And>x. x \<in> used_blocks HEIGHT (heap m) (tree m) \<Longrightarrow> block_bytes x \<inter> block_bytes (b, ?h) = {}"
    by (rule tree_acquire_fresh [OF block(5)])
  have disj: "payload (p, ?c) \<inter> payload y = {}" if y: "y \<in> buddy_blocks m" for y
  proof -
    obtain a i where "(a, i) \<in> used_blocks HEIGHT (heap m) (tree m)"
      and "y = (a + HEADER_SIZE, bsize i - HEADER_SIZE)"
      using y by (auto simp: buddy_blocks_def)
    then show ?thesis
      using fresh [of "(a, i)"] payload_within_block [of a i] payload_within_block [of b ?h] m'(1)
      by blast
  qed
  have new: "p \<notin> fst ` buddy_blocks m"
  proof
    assume "p \<in> fst ` buddy_blocks m"
    then obtain i where "(b, i) \<in> used_blocks HEIGHT (heap m) (tree m)"
      using m'(1) by (auto simp: buddy_blocks_def)
    then show False using fresh [of "(b, i)"] base_in_block by blast
  qed
  have "unat sz \<le> ?c" using request_total(4) [OF block(3)] by simp
  moreover have "buddy_blocks m' = insert (p, ?c) (buddy_blocks m)"
    unfolding buddy_blocks_def m'(2) block(4) ins m'(1) by simp
  ultimately show ?thesis using disj new by blast
qed

lemma buddy_free_block:
  assumes inv: "buddy_inv m" and b: "(p, c) \<in> buddy_blocks m"
  shows "\<exists>m'. mem_free p m = Some m' \<and> buddy_inv m' \<and> buddy_blocks m' = buddy_blocks m - {(p, c)}"
proof -
  obtain a h where p: "p = a + HEADER_SIZE" "c = bsize h - HEADER_SIZE"
    and u: "(a, h) \<in> used_blocks HEIGHT (heap m) (tree m)"
    using b by (auto simp: buddy_blocks_def)
  obtain m' where m': "mem_free p m = Some m'" "buddy_inv m'" "heap m' = heap m"
    "tree m' = tree_release HEIGHT a (heap m) (tree m)"
    using mem_free_spec [OF inv u] p(1) by blast
  have rest: "used_blocks HEIGHT (heap m) (tree m') = used_blocks HEIGHT (heap m) (tree m) - {(a, h)}"
    unfolding m'(4) by (rule tree_release_used [OF u])
  have inj: "(x, i) \<in> used_blocks HEIGHT (heap m) (tree m) \<Longrightarrow> x + HEADER_SIZE = a + HEADER_SIZE \<Longrightarrow> (x, i) = (a, h)" for x i
    using used_blocks_base_inj [OF u] by auto
  have "buddy_blocks m' = buddy_blocks m - {(p, c)}"
    unfolding buddy_blocks_def m'(3) rest p using inj by auto
  then show ?thesis using m' by blast
qed

lemma buddy_blocks_fun:
  "(p, c) \<in> buddy_blocks m \<Longrightarrow> (p, d) \<in> buddy_blocks m \<Longrightarrow> c = d"
  using used_blocks_base_inj by (fastforce simp: buddy_blocks_def)

lemma release_frees_room:
  assumes "(a, h) \<in> used_blocks k b t" and "canon k t"
  shows "\<exists>x\<in>free_blocks k b (tree_release k a b t). h \<le> snd x"
  using assms
proof (induction k a b t rule: tree_release.induct)
  case (4 k a b l r)
  have m: "\<And>l r. (\<exists>x\<in>free_blocks k b l \<union> free_blocks k (b + bsize k) r. h \<le> snd x) \<Longrightarrow>
     \<exists>x\<in>free_blocks (Suc k) b (merge_halves l r). h \<le> snd x"
  proof -
    fix l r assume ex: "\<exists>x\<in>free_blocks k b l \<union> free_blocks k (b + bsize k) r. h \<le> snd x"
    then show "\<exists>x\<in>free_blocks (Suc k) b (merge_halves l r). h \<le> snd x"
      by (cases l; cases r) auto
  qed
  have L: "\<And>i. (a, i) \<in> used_blocks k b l \<Longrightarrow> a < b + bsize k"
    using used_bytes_within [of k b l] base_in_block
    by (fastforce simp: bytes_of_def block_bytes_def)
  have R: "\<And>i. (a, i) \<in> used_blocks k (b + bsize k) r \<Longrightarrow> b + bsize k \<le> a"
    using used_bytes_within [of k "b + bsize k" r] base_in_block
    by (fastforce simp: bytes_of_def block_bytes_def)
  show ?case
  proof (cases "a < b + bsize k")
    case True
    then have "(a, h) \<in> used_blocks k b l" using "4.prems"(1) R by fastforce
    then have "\<exists>x\<in>free_blocks k b (tree_release k a b l). h \<le> snd x"
      using "4.IH"(1) True "4.prems"(2) by simp
    then show ?thesis using True m [of "tree_release k a b l" r] by auto
  next
    case False
    then have "(a, h) \<in> used_blocks k (b + bsize k) r" using "4.prems"(1) L by fastforce
    then have "\<exists>x\<in>free_blocks k (b + bsize k) (tree_release k a (b + bsize k) r). h \<le> snd x"
      using "4.IH"(2) False "4.prems"(2) by simp
    then show ?thesis using False m [of l "tree_release k a (b + bsize k) r"] by auto
  qed
qed auto

lemma buddy_reuse:
  assumes inv: "buddy_inv m" and b: "(p, c) \<in> buddy_blocks m" and f: "mem_free p m = Some m'"
    and n: "0 < n" "unat n \<le> c"
  shows "\<exists>q m''. mem_alloc n m' = Some (q, m'') \<and> q \<noteq> NULL"
proof -
  obtain a h where p: "p = a + HEADER_SIZE" "c = bsize h - HEADER_SIZE"
    and u: "(a, h) \<in> used_blocks HEIGHT (heap m) (tree m)"
    using b by (auto simp: buddy_blocks_def)
  have m': "buddy_inv m'" "heap m' = heap m" "tree m' = tree_release HEIGHT a (heap m) (tree m)"
    using mem_free_spec [OF inv u] f p(1) by auto
  have fit: "unat n + HEADER_SIZE \<le> bsize h" using n(2) p(2) bsize_ge_32 [of h] by (simp add: HEADER_SIZE_def)
  have hle: "bsize h \<le> HEAP_SIZE"
    using bsize_mono [OF used_blocks_height [OF u]] by (simp add: bsize_def buddy_consts)
  have ok: "request_ok n" using fit hle n(1) by (auto simp: request_ok_def)
  have "required_order (unat n + HEADER_SIZE) \<le> HEAP_ORDER_MIN + h"
    using required_order_le fit hle by simp
  then have rh: "request_height n \<le> h" by (simp add: request_height_def)
  obtain x where x: "x \<in> free_blocks HEIGHT (heap m') (tree m')" "h \<le> snd x"
    using release_frees_room [OF u buddy_inv_canon [OF inv]] m'(2,3) by auto
  have "tree_acquire (request_height n) HEIGHT (heap m') (tree m') \<noteq> None"
    using tree_acquire_None_iff [OF buddy_inv_canon [OF m'(1)]] x rh by (meson leD le_trans)
  then show ?thesis
    using mem_alloc_spec [OF m'(1) ok] by (auto simp: HEADER_SIZE_def split: option.splits prod.splits)
qed

interpretation bud: reusing_allocator mem_alloc mem_free buddy_blocks buddy_inv
proof unfold_locales
  fix m :: buddy and n :: u64
  assume inv: "buddy_inv m"
  then show "\<exists>p m'. mem_alloc n m = Some (p, m') \<and> buddy_inv m'"
    by (cases rule: mem_alloc_cases [of m n]) (use inv in auto)
next
  fix m m' :: buddy and n :: u64
  assume "buddy_inv m" and run: "mem_alloc n m = Some (NULL, m')"
  from this(1) show "buddy_blocks m' = buddy_blocks m"
    by (cases rule: mem_alloc_cases [of m n]) (use run in \<open>auto simp: HEADER_SIZE_def\<close>)
next
  fix m :: buddy
  show "NULL \<notin> fst ` buddy_blocks m" by (auto simp: buddy_blocks_def HEADER_SIZE_def)
qed (blast intro: buddy_alloc_new buddy_free_block buddy_reuse dest: buddy_blocks_fun)+

interpretation bud_area: placed_allocator mem_alloc mem_free buddy_blocks buddy_inv "\<lambda>m. {heap m ..< heap m + HEAP_SIZE}"
proof unfold_locales
  fix m x
  assume "x \<in> buddy_blocks m"
  then obtain b h where x: "x = (b + HEADER_SIZE, bsize h - HEADER_SIZE)" and u: "(b, h) \<in> used_blocks HEIGHT (heap m) (tree m)"
    by (auto simp: buddy_blocks_def)
  have "payload x \<subseteq> block_bytes (b, h)" unfolding x by (rule payload_within_block)
  also have "\<dots> \<subseteq> block_bytes (heap m, HEIGHT)"
    using used_bytes_within [of HEIGHT "heap m" "tree m"] u by (auto simp: bytes_of_def)
  also have "\<dots> = {heap m ..< heap m + HEAP_SIZE}" by (simp add: block_bytes_def bsize_def buddy_consts)
  finally show "payload x \<subseteq> {heap m ..< heap m + HEAP_SIZE}" .
next
  fix m m' :: buddy and n :: u64 and p
  assume "buddy_inv m" and run: "mem_alloc n m = Some (p, m')"
  from this(1) have "heap m' = heap m" by (cases rule: mem_alloc_cases [of m n]) (use run in auto)
  then show "{heap m' ..< heap m' + HEAP_SIZE} = {heap m ..< heap m + HEAP_SIZE}" by simp
next
  fix m m' :: buddy and p c
  assume "buddy_inv m" and "(p, c) \<in> buddy_blocks m" and "mem_free p m = Some m'"
  then have "heap m' = heap m" using mem_free_spec by (fastforce simp: buddy_blocks_def)
  then show "{heap m' ..< heap m' + HEAP_SIZE} = {heap m ..< heap m + HEAP_SIZE}" by simp
qed

section \<open>Accounting\<close>

lemma free_bytes_refines:
  "shape k nd i b p \<Longrightarrow> states_ok k nd i \<Longrightarrow>
   free_bytes (Some i) nd = Some (tree_free_bytes k (tree_of k nd i))"
proof (induction k arbitrary: i b p)
  case 0
  then show ?case
    by (subst free_bytes.simps) (cases "bn_state (nd i)"; auto simp: block_size_def bsize_def HEAP_ORDER_MIN_def)
next
  case (Suc k)
  show ?case
  proof (cases "bn_state (nd i)")
    case NODE_SPLIT
    have ok: "states_ok k nd (2 * i + 1)" "states_ok k nd (2 * i + 2)"
      using states_ok_halves [OF Suc.prems(2)] by auto
    have "free_bytes (Some (2 * i + 1)) nd = Some (tree_free_bytes k (tree_of k nd (2 * i + 1)))"
      "free_bytes (Some (2 * i + 2)) nd = Some (tree_free_bytes k (tree_of k nd (2 * i + 2)))"
      using Suc.IH ok Suc.prems(1) by auto
    with Suc.prems(1) NODE_SPLIT show ?thesis by (subst free_bytes.simps) simp
  next
    case NODE_FREE
    with shape_order [OF Suc.prems(1)] show ?thesis
      by (subst free_bytes.simps) (simp add: block_size_def bsize_def HEAP_ORDER_MIN_def)
  next
    case NODE_USED
    then show ?thesis by (subst free_bytes.simps) simp
  qed
qed

lemma mem_status_eq:
  assumes "buddy_inv m"
  shows "mem_status m =
     Some ((HEAP_SIZE, HEAP_SIZE - tree_free_bytes HEIGHT (tree m), tree_free_bytes HEIGHT (tree m)), m)"
  using assms free_bytes_refines [of HEIGHT "nodes m" 0 "heap m" None]
  by (simp add: mem_status_def buddy_inv_def tree_def)

section \<open>The allocator at boot\<close>

lemma acquire_from_free: "j \<le> k \<Longrightarrow> \<exists>t'. tree_acquire j k b BFree = Some (b, t')"
  by (induction k) (auto simp: le_Suc_eq)

lemma boot_alloc:
  assumes "request_ok sz"
  shows "\<exists>m'. mem_alloc sz (mem_init m) = Some (heap m + HEADER_SIZE, m') \<and> buddy_inv m'"
proof -
  obtain t' where "tree_acquire (request_height sz) HEIGHT (heap m) BFree = Some (heap m, t')"
    using acquire_from_free request_total(5) [OF assms] by blast
  then show ?thesis
    using mem_alloc_spec [OF mem_init_inv(1) assms, of m] mem_init_inv(2,3) [of m] by auto
qed

text \<open>The heap right after \<open>mem_init\<close>, with the static array at the kernel's load address.\<close>

definition boot_buddy :: buddy where
  "boot_buddy = mem_init (bss_buddy 0x100000)"

lemma boot_buddy_facts [simp]:
  "buddy_inv boot_buddy" "tree boot_buddy = BFree" "heap boot_buddy = 0x100000"
  using mem_init_inv [of "bss_buddy 0x100000"] by (simp_all add: boot_buddy_def bss_buddy_def)

lemma request_ok_16 [simp]: "request_ok 16"
  by (simp add: request_ok_def buddy_consts)

lemma boot_alloc_16: "\<exists>m'. mem_alloc 16 boot_buddy = Some (0x100008, m') \<and> buddy_inv m'"
  using boot_alloc [OF request_ok_16, of "bss_buddy 0x100000"]
  by (simp add: boot_buddy_def bss_buddy_def HEADER_SIZE_def)

section \<open>Memory to spare\<close>

lemma low_load_alloc:
  assumes "buddy_inv m" and "request_ok sz"
    and "load (request_height sz) (used_blocks HEIGHT (heap m) (tree m)) < HEAP_SIZE"
  obtains b m' where "mem_alloc sz m = Some (b + HEADER_SIZE, m')" "buddy_inv m'" "heap m' = heap m"
    "used_blocks HEIGHT (heap m) (tree m') =
       insert (b, request_height sz) (used_blocks HEIGHT (heap m) (tree m))"
  using assms(1)
proof (cases rule: mem_alloc_cases [of m sz])
  case null
  have "bsize HEIGHT = HEAP_SIZE" by (simp add: bsize_def buddy_consts)
  then have "tree_acquire (request_height sz) HEIGHT (heap m) (tree m) \<noteq> None"
    using tree_acquire_low_load [OF buddy_inv_canon [OF assms(1)] request_total(5) [OF assms(2)]] assms(3)
    by simp
  then show ?thesis using null(2) [OF assms(2)] by simp
next
  case (block b m')
  show ?thesis using that [OF block(1,2,4)] tree_acquire_used [OF block(5)] by simp
qed

text \<open>
  Requests of at most 16376 bytes, every object of the kernel among them, take blocks of
  height at most 9: with fewer than 32 of them there is always room for one more.
\<close>

definition spare :: "nat \<Rightarrow> buddy \<Rightarrow> bool" where
  "spare n m \<longleftrightarrow> buddy_inv m \<and> 32 < heap m \<and> load 9 (used_blocks HEIGHT (heap m) (tree m)) + n * 2 ^ 14 \<le> HEAP_SIZE"

lemma spare_inv [simp]: "spare n m \<Longrightarrow> buddy_inv m" and spare_heap: "spare n m \<Longrightarrow> 32 < heap m"
  by (simp_all add: spare_def)

lemma small_request:
  assumes "sz \<noteq> 0" and "unat sz \<le> 16376"
  shows "request_ok sz" and "request_height sz \<le> 9"
proof -
  show ok: "request_ok sz" using assms by (simp add: request_ok_def buddy_consts)
  show "request_height sz \<le> 9"
  proof (rule ccontr)
    assume "\<not> request_height sz \<le> 9"
    then have h: "9 \<le> request_height sz - 1" "request_height sz \<noteq> 0" by auto
    have "bsize (request_height sz - 1) < unat sz + HEADER_SIZE"
      using required_order_spec(4) [OF request_total(2) [OF ok]] h(2) unfolding request_total(3) [OF ok]
      by (cases "request_height sz") (auto simp: block_size_def bsize_def HEAP_ORDER_MIN_def)
    moreover have "bsize 9 \<le> bsize (request_height sz - 1)" using h(1) by (rule bsize_mono)
    moreover have "bsize 9 = 16384" by (simp add: bsize_def)
    ultimately show False using assms(2) by (simp add: HEADER_SIZE_def)
  qed
qed

lemma load_mono: "i \<le> j \<Longrightarrow> load i S \<le> load j S"
  unfolding load_def using bsize_mono by (intro sum_mono) fastforce

lemma spare_alloc:
  assumes "spare (Suc n) m" and "sz \<noteq> 0" and "unat sz \<le> 16376"
  obtains p m' where "mem_alloc sz m = Some (p, m')" "p \<noteq> NULL" "spare n m'"
proof -
  let ?U = "used_blocks HEIGHT (heap m) (tree m)" and ?h = "request_height sz"
  note small = small_request [OF assms(2,3)]
  have "load ?h ?U < HEAP_SIZE"
    using load_mono [OF small(2), of ?U] assms(1) by (simp add: spare_def)
  then obtain b m' where m': "mem_alloc sz m = Some (b + HEADER_SIZE, m')" "buddy_inv m'" "heap m' = heap m"
    "used_blocks HEIGHT (heap m) (tree m') = insert (b, ?h) ?U"
    using low_load_alloc [OF spare_inv [OF assms(1)] small(1)] by metis
  have "load 9 (insert (b, ?h) ?U) \<le> load 9 ?U + 2 ^ 14"
  proof -
    have "max (bsize ?h) (bsize 9) = 2 ^ 14"
      using bsize_mono [OF small(2)] by (simp add: max_def bsize_def)
    then show ?thesis by (cases "(b, ?h) \<in> ?U") (auto simp: load_def insert_absorb)
  qed
  then have "spare n m'" using m'(2-4) assms(1) by (simp add: spare_def)
  then show ?thesis using that [OF m'(1)] by (simp add: HEADER_SIZE_def)
qed

lemma spare_boot: "spare 32 boot_buddy"
  by (simp add: spare_def load_def buddy_consts)

section \<open>Properties\<close>

text \<open>
  C1. A successful \<open>mem_alloc\<close> hands out a block of the smallest order that holds the
  request and its header; the block lies inside the heap, is aligned to its size relative to
  the heap, was not in use, overlaps no block in use, and is the only change to the set of
  used blocks; the invariant is kept.
\<close>

theorem mem_alloc_block:
  assumes "buddy_inv m" and "mem_alloc sz m = Some (p, m')" and "p \<noteq> NULL"
  shows "\<exists>b h. p = b + HEADER_SIZE \<and> unat sz + HEADER_SIZE \<le> bsize h \<and>
     (h = 0 \<or> bsize (h - 1) < unat sz + HEADER_SIZE) \<and>
     block_bytes (b, h) \<subseteq> {heap m ..< heap m + HEAP_SIZE} \<and> bsize h dvd b - heap m \<and>
     used_blocks HEIGHT (heap m') (tree m') =
       insert (b, h) (used_blocks HEIGHT (heap m) (tree m)) \<and>
     (\<forall>x\<in>used_blocks HEIGHT (heap m) (tree m). block_bytes x \<inter> block_bytes (b, h) = {}) \<and>
     buddy_inv m'"
  using assms(1)
proof (cases rule: mem_alloc_cases [of m sz])
  case null
  then show ?thesis using assms(2,3) by simp
next
  case (block b m1)
  let ?h = "request_height sz"
  have m': "p = b + HEADER_SIZE" "m' = m1" using block(1) assms(2) by auto
  note used = tree_acquire_used [OF block(5)]
  then have mem: "(b, ?h) \<in> used_blocks HEIGHT (heap m) (tree m1)" by simp
  have ro: "required_order (unat sz + HEADER_SIZE) = HEAP_ORDER_MIN + ?h"
    and le: "unat sz + HEADER_SIZE \<le> HEAP_SIZE"
    using request_total [OF block(3)] by simp_all
  have min: "?h = 0 \<or> bsize (?h - 1) < unat sz + HEADER_SIZE"
    using required_order_spec(4) [OF le] unfolding ro
    by (cases ?h) (auto simp: block_size_def bsize_def HEAP_ORDER_MIN_def)
  have "block_bytes (b, ?h) \<subseteq> block_bytes (heap m, HEIGHT)"
    using used_bytes_within [of HEIGHT "heap m" "tree m1"] mem by (auto simp: bytes_of_def)
  then have within: "block_bytes (b, ?h) \<subseteq> {heap m ..< heap m + HEAP_SIZE}"
    by (simp add: block_bytes_def bsize_def buddy_consts)
  show ?thesis
    using m' used min within block(2,4) request_total(4) [OF block(3)]
      used_blocks_aligned [OF mem] tree_acquire_fresh [OF block(5)]
    by (intro exI [of _ b] exI [of _ ?h]) auto
qed

theorem mem_alloc_block_witness:
  "\<exists>m' b h. mem_alloc 16 boot_buddy = Some (0x100008, m') \<and> 0x100008 = b + HEADER_SIZE \<and>
     16 + HEADER_SIZE \<le> bsize h \<and> buddy_inv m'"
proof -
  obtain m' where "mem_alloc 16 boot_buddy = Some (0x100008, m')" using boot_alloc_16 by blast
  then show ?thesis using mem_alloc_block [of boot_buddy 16 "0x100008" m'] by auto
qed

text \<open>
  C2. \<open>mem_alloc\<close> returns \<open>NULL\<close> exactly when the request is empty, larger than the heap
  allows, or no free block is large enough: the search misses no usable block.
\<close>

theorem mem_alloc_null_iff:
  assumes "buddy_inv m"
  shows "(\<exists>m'. mem_alloc sz m = Some (NULL, m')) \<longleftrightarrow>
     sz = 0 \<or> HEAP_SIZE - HEADER_SIZE < unat sz \<or>
     (\<forall>x\<in>free_blocks HEIGHT (heap m) (tree m). bsize (snd x) < unat sz + HEADER_SIZE)"
proof (cases "request_ok sz")
  case False
  then show ?thesis using mem_alloc_refused [OF assms] by (auto simp: request_ok_def)
next
  case True
  let ?h = "request_height sz"
  note rt = request_total [OF True]
  have small: "(snd x < ?h) = (bsize (snd x) < unat sz + HEADER_SIZE)" for x :: "addr \<times> nat"
  proof
    assume "snd x < ?h"
    then have "snd x \<le> ?h - 1" "?h \<noteq> 0" by auto
    then have "bsize (snd x) \<le> bsize (?h - 1)" by (intro bsize_mono)
    moreover have "bsize (?h - 1) < unat sz + HEADER_SIZE"
      using required_order_spec(4) [OF rt(2)] \<open>?h \<noteq> 0\<close> unfolding rt(3)
      by (cases ?h) (auto simp: block_size_def bsize_def HEAP_ORDER_MIN_def)
    ultimately show "bsize (snd x) < unat sz + HEADER_SIZE" by simp
  next
    assume "bsize (snd x) < unat sz + HEADER_SIZE"
    then show "snd x < ?h" using rt(4) bsize_mono [of ?h "snd x"] by fastforce
  qed
  have "(\<exists>m'. mem_alloc sz m = Some (NULL, m')) \<longleftrightarrow>
    tree_acquire ?h HEIGHT (heap m) (tree m) = None"
    using mem_alloc_spec [OF assms True] by (auto simp: HEADER_SIZE_def split: option.splits prod.splits)
  then show ?thesis
    using tree_acquire_None_iff [OF buddy_inv_canon [OF assms]] True
    by (auto simp: small request_ok_def)
qed

theorem mem_alloc_null_iff_witness:
  "(\<exists>m'. mem_alloc 0 boot_buddy = Some (NULL, m')) \<and>
   \<not> (\<exists>m'. mem_alloc 16 boot_buddy = Some (NULL, m'))"
proof -
  have "\<exists>m'. mem_alloc 0 boot_buddy = Some (NULL, m')"
    using mem_alloc_null_iff [of boot_buddy 0] by simp
  moreover have "\<not> (\<exists>m'. mem_alloc 16 boot_buddy = Some (NULL, m'))"
    using mem_alloc_null_iff [of boot_buddy 16] by (simp add: buddy_consts bsize_def)
  ultimately show ?thesis by blast
qed

text \<open>
  C3. Freeing the block just allocated is defined and gives back the very tree of free and
  used blocks the allocation started from: splitting and coalescing are inverse.
\<close>

theorem mem_free_undoes_alloc:
  assumes "buddy_inv m" and "mem_alloc sz m = Some (p, m1)" and "p \<noteq> NULL"
  shows "\<exists>m2. mem_free p m1 = Some m2 \<and> buddy_inv m2 \<and> tree m2 = tree m \<and> heap m2 = heap m"
  using assms(1)
proof (cases rule: mem_alloc_cases [of m sz])
  case null
  then show ?thesis using assms(2,3) by simp
next
  case (block b m1')
  have eq: "p = b + HEADER_SIZE" "m1 = m1'" using block(1) assms(2) by auto
  have "(b, request_height sz) \<in> used_blocks HEIGHT (heap m1) (tree m1)"
    using tree_acquire_used [OF block(5)] eq block(4) by simp
  from mem_free_spec [OF _ this] show ?thesis
    using eq block(2,4) tree_release_acquire [OF block(5) buddy_inv_canon [OF assms(1)]] by auto
qed

theorem mem_free_undoes_alloc_witness:
  "\<exists>m1 m2. mem_alloc 16 boot_buddy = Some (0x100008, m1) \<and> mem_free 0x100008 m1 = Some m2 \<and>
     tree m2 = BFree"
proof -
  obtain m1 where "mem_alloc 16 boot_buddy = Some (0x100008, m1)" using boot_alloc_16 by blast
  then show ?thesis using mem_free_undoes_alloc [of boot_buddy 16 "0x100008" m1] by auto
qed

text \<open>
  Freeing a pointer twice in a row is harmless: the second \<open>mem_free\<close> finds the header
  cleared and changes nothing.
\<close>

theorem mem_free_twice:
  assumes "buddy_inv m" and "p \<in> fst ` buddy_blocks m" and "mem_free p m = Some m'"
  shows "mem_free p m' = Some m'"
proof -
  obtain c where "(p, c) \<in> buddy_blocks m" using assms(2) by auto
  then obtain b h where p: "p = b + HEADER_SIZE" and u: "(b, h) \<in> used_blocks HEIGHT (heap m) (tree m)"
    by (auto simp: buddy_blocks_def)
  obtain j where j: "j \<in> subtree HEIGHT 0" "bn_state (nodes m j) = NODE_USED" "bn_base (nodes m j) = b"
    using u used_blocks_tree [OF assms(1)] by auto
  have "header m b = Header (Some j)" using assms(1) j by (auto simp: buddy_inv_def)
  then have "header m' b = Header None \<and> root m' = root m"
    using assms(1,3) j p by (auto simp: mem_free_def buddy_inv_def HEADER_SIZE_def Let_def)
  then show ?thesis using p assms(1) by (simp add: mem_free_def buddy_inv_def)
qed

theorem mem_free_twice_witness:
  "\<exists>m1 m2. mem_alloc 16 boot_buddy = Some (0x100008, m1) \<and> mem_free 0x100008 m1 = Some m2 \<and>
     mem_free 0x100008 m2 = Some m2"
proof -
  obtain m1 where m1: "mem_alloc 16 boot_buddy = Some (0x100008, m1)" "buddy_inv m1"
    using boot_alloc_16 by blast
  have live: "0x100008 \<in> fst ` buddy_blocks m1"
    using bud.alloc_live(1) [of boot_buddy 16 "0x100008" m1] m1 by (simp add: bud.live_def)
  obtain m2 where "mem_free 0x100008 m1 = Some m2"
    using bud.free_live [of m1 "0x100008"] m1(2) live by (auto simp: bud.live_def)
  then show ?thesis using mem_free_twice [OF m1(2) live] m1(1) by blast
qed

text \<open>
  \<open>mem_status\<close> is defined on every well-formed heap and its figures add up: used and
  available bytes make the whole heap, and the used bytes are the sizes of the used blocks.
\<close>

theorem mem_status_adds_up:
  assumes "buddy_inv m"
  shows "\<exists>used available. mem_status m = Some ((HEAP_SIZE, used, available), m) \<and>
     used + available = HEAP_SIZE \<and>
     used = (\<Sum>x\<in>used_blocks HEIGHT (heap m) (tree m). bsize (snd x))"
proof -
  have "tree_free_bytes HEIGHT (tree m) +
    (\<Sum>x\<in>used_blocks HEIGHT (heap m) (tree m). bsize (snd x)) = HEAP_SIZE"
    using tree_bytes_total [OF buddy_inv_canon [OF assms]] by (simp add: bsize_def buddy_consts)
  then show ?thesis using mem_status_eq [OF assms] by auto
qed

theorem mem_status_adds_up_witness:
  "\<exists>used available. mem_status boot_buddy = Some ((HEAP_SIZE, used, available), boot_buddy) \<and>
     used = 0 \<and> available = HEAP_SIZE"
  using mem_status_adds_up [of boot_buddy] by auto

text \<open>
  C4. A client that frees only pointers it holds is safe whatever it does: starting from
  the initialised heap, every run of allocations and frees ends in a well-formed heap in
  which no two blocks held by the client share a byte.
\<close>

theorem buddy_client_safe:
  assumes "bud.client_run (mem_init m) calls m'"
  shows "buddy_inv m' \<and> payloads_disjoint (buddy_blocks m')"
proof -
  have "payloads_disjoint (buddy_blocks (mem_init m))"
    by (simp add: payloads_disjoint_def buddy_blocks_def mem_init_inv)
  then show ?thesis using bud.client_run_safe [OF assms mem_init_inv(1)] by blast
qed

theorem buddy_client_safe_witness:
  "\<exists>m' p. bud.client_run (mem_init (bss_buddy 0x100000)) [Alloc 16, Free p] m' \<and>
     buddy_inv m' \<and> payloads_disjoint (buddy_blocks m')"
proof -
  obtain m1 where m1: "mem_alloc 16 boot_buddy = Some (0x100008, m1)" "buddy_inv m1"
    using boot_alloc_16 by blast
  have live: "0x100008 \<in> bud.live m1"
    using bud.alloc_live(1) [of boot_buddy 16 "0x100008" m1] m1 by simp
  obtain m2 where m2: "mem_free 0x100008 m1 = Some m2" using bud.free_live [OF m1(2) live] by blast
  have run: "bud.client_run (mem_init (bss_buddy 0x100000)) [Alloc 16, Free 0x100008] m2"
    using m1(1) live m2 bud.run_alloc bud.run_free bud.run_nil unfolding boot_buddy_def by metis
  then show ?thesis using buddy_client_safe [OF run] by blast
qed

text \<open>
  C5. \<open>mem_init\<close> writes inside the array \<open>nodes[NODE_COUNT]\<close> only and sets up a
  well-formed heap that is one free block.
\<close>

theorem mem_init_in_bounds:
  "buddy_inv (mem_init m) \<and> tree (mem_init m) = BFree \<and>
   (\<forall>j. nodes (mem_init m) j \<noteq> nodes m j \<longrightarrow> j < NODE_COUNT)"
proof (intro conjI allI impI)
  fix j
  assume "nodes (mem_init m) j \<noteq> nodes m j"
  then have "build_tree 0 HEAP_ORDER_MAX (heap m) (nodes m) j \<noteq> nodes m j"
    by (simp add: mem_init_def)
  then show "j < NODE_COUNT" using build_tree_in_bounds [of j "heap m" "nodes m"] by linarith
qed (simp_all add: mem_init_inv)

theorem mem_init_in_bounds_witness:
  "nodes (mem_init (bss_buddy 0x100000)) NODE_COUNT = nodes (bss_buddy 0x100000) NODE_COUNT"
  using mem_init_in_bounds [of "bss_buddy 0x100000"] by blast

text \<open>
  C6. Allocation is guaranteed under moderate load, whatever the history of allocations and
  frees: as long as the used blocks, each rounded up to the size class of the request, do
  not fill the heap, \<open>mem_alloc\<close> succeeds.
\<close>

theorem mem_alloc_low_load:
  assumes "buddy_inv m" and "0 < sz" and "unat sz \<le> HEAP_SIZE - HEADER_SIZE"
    and "required_order (unat sz + HEADER_SIZE) = HEAP_ORDER_MIN + h"
    and "(\<Sum>x\<in>used_blocks HEIGHT (heap m) (tree m). max (bsize (snd x)) (bsize h)) < HEAP_SIZE"
  shows "\<exists>p m'. mem_alloc sz m = Some (p, m') \<and> p \<noteq> NULL"
proof -
  have ok: "request_ok sz" using assms(2,3) by (auto simp: request_ok_def)
  have "request_height sz = h" using assms(4) by (simp add: request_height_def)
  then show ?thesis
    using low_load_alloc [OF assms(1) ok] assms(5) by (metis (lifting) HEADER_SIZE_def add_is_0 load_def zero_neq_numeral)
qed

theorem mem_alloc_low_load_witness:
  "\<exists>p m'. mem_alloc 1000 boot_buddy = Some (p, m') \<and> p \<noteq> NULL"
proof (rule mem_alloc_low_load [where h = 5])
  show "required_order (unat (1000::u64) + HEADER_SIZE) = HEAP_ORDER_MIN + 5"
    by (simp add: required_order_def required_order_from.simps buddy_consts block_size_def)
qed (simp_all add: buddy_consts)

end
