(* ===== verification/KTypes.thy ===== *)
theory KTypes
  imports Buddy
begin

text \<open>
  The structures of the kernel and its whole state. Heap objects live in one partial map per
  C type, from addresses to records: an address outside the map does not point to an object
  of that type, and dereferencing it is undefined behaviour (\<open>None\<close>). Every object occupies
  a block of the memory manager; \<open>heap_ok\<close> says that the objects and the blocks in use
  correspond one to one, so an object is never lost, freed twice or overlaid by another.

  The static variables of the translation units are fields of the same record. Kernel code
  is entered through interrupt gates and runs with interrupts disabled, so an operation is a
  function from states to states; the places where a process gives up the processor are
  part of the results of the operations that contain them.
\<close>

section \<open>Structures\<close>

record queue_node =
  qn_data :: addr
  qn_next :: addr

record queue =
  q_head :: addr
  q_tail :: addr
  q_size :: u64

datatype process_state =
    PROCESS_STATE_READY
  | PROCESS_STATE_RUNNING
  | PROCESS_STATE_BLOCKED
  | PROCESS_STATE_TERMINATED

text \<open>\<open>context_t\<close> has one field, the stack pointer: it is the field \<open>pr_rsp\<close> here.\<close>

record process =
  pr_pid :: u32
  pr_ppid :: u32
  pr_name :: addr
  pr_argc :: int
  pr_argv :: addr
  pr_entry :: addr
  pr_fd_targets :: "u8 list"
  pr_state :: process_state
  pr_priority :: u8
  pr_priority_requested :: u8
  pr_priority_fixed :: bool
  pr_is_shell :: bool
  pr_rsp :: u64
  pr_remaining_quantum :: u8
  pr_last_quantum_ticks :: u8
  pr_ready_since_tick :: u64
  pr_stack_base :: addr
  pr_exit_sem :: addr
  pr_children :: addr

text \<open>What \<open>memset(process, 0, sizeof(process_t))\<close> leaves.\<close>

definition zero_process :: process where
  "zero_process = \<lparr>pr_pid = 0, pr_ppid = 0, pr_name = NULL, pr_argc = 0, pr_argv = NULL,
     pr_entry = NULL, pr_fd_targets = [0, 0, 0], pr_state = PROCESS_STATE_READY, pr_priority = 0,
     pr_priority_requested = 0, pr_priority_fixed = False, pr_is_shell = False, pr_rsp = 0,
     pr_remaining_quantum = 0, pr_last_quantum_ticks = 0, pr_ready_since_tick = 0,
     pr_stack_base = NULL, pr_exit_sem = NULL, pr_children = NULL\<rparr>"

text \<open>
  A semaphore comes uninitialised out of \<open>sem_create\<close>: a field without a value is \<open>None\<close>
  and reading it is undefined.
\<close>

record sem =
  s_name :: "addr option"
  s_count :: "u32 option"
  s_lock :: "u8 option"
  s_waiting :: "addr option"

record pipe =
  pi_id :: u8
  pi_buffer :: "u8 list"
  pi_read_idx :: u64
  pi_write_idx :: u64
  pi_data_count :: u64
  pi_can_read :: addr
  pi_can_write :: addr
  pi_mutex :: addr
  pi_attached_count :: u8
  pi_waiting_readers :: u32
  pi_waiting_writers :: u32

record SleepingProcess =
  sl_pid :: u32
  sl_wake_time :: u64

text \<open>The process table; pids are signed where the code keeps \<open>-1\<close> for none.\<close>

record pcb_t =
  pc_processes :: "addr list"
  pc_process_count :: u64
  pc_running_pid :: "32 word"
  pc_foreground_pid :: "32 word"
  pc_init_pid :: "32 word"
  pc_main_shell_pid :: "32 word"

section \<open>The state of the kernel\<close>

text \<open>
  \<open>raws\<close> are blocks the kernel never looks into: process stacks and memory handed to user
  code. \<open>strs\<close> and \<open>argvs\<close> are the byte and pointer arrays of process arguments and
  semaphore names. The pointer \<open>pcb\<close> is \<open>None\<close> while it is null, and otherwise the address
  of the table together with the table. \<open>pic_master_mask\<close> is what \<open>picMasterGetMask\<close> reads.
\<close>

record kernel =
  kmem :: buddy
  queues :: "addr \<rightharpoonup> queue"
  qnodes :: "addr \<rightharpoonup> queue_node"
  procs :: "addr \<rightharpoonup> process"
  sems :: "addr \<rightharpoonup> sem"
  pipeobjs :: "addr \<rightharpoonup> pipe"
  sleepers :: "addr \<rightharpoonup> SleepingProcess"
  strs :: "addr \<rightharpoonup> u8 list"
  argvs :: "addr \<rightharpoonup> addr list"
  raws :: "addr \<rightharpoonup> u64"
  pcb :: "(addr \<times> pcb_t) option"
  sch_current :: addr
  sch_total_ticks :: u64
  sch_context_switches :: u64
  sch_ready_queues :: "addr list"
  sch_idle :: addr
  registered_semaphores :: addr
  registry_lock :: u8
  pipes :: "addr list"
  next_pipe_id :: u8
  pipe_sem_name :: "u8 list"
  ticks :: u64
  sleeping_queue :: addr
  shell_created :: bool
  pic_master_mask :: u8

section \<open>Objects and blocks\<close>

definition kalloc :: "u64 \<Rightarrow> kernel \<Rightarrow> (addr \<times> kernel) option" where
  "kalloc n k = do { (p, m) \<leftarrow> mem_alloc n (kmem k); Some (p, k\<lparr>kmem := m\<rparr>) }"

definition kfree :: "addr \<Rightarrow> kernel \<Rightarrow> kernel option" where
  "kfree p k = do { m \<leftarrow> mem_free p (kmem k); Some (k\<lparr>kmem := m\<rparr>) }"

text \<open>How many of the maps hold an object at an address.\<close>

definition objects_at :: "kernel \<Rightarrow> addr \<Rightarrow> nat" where
  "objects_at k p =
     of_bool (queues k p \<noteq> None) + of_bool (qnodes k p \<noteq> None) + of_bool (procs k p \<noteq> None) +
     of_bool (sems k p \<noteq> None) + of_bool (pipeobjs k p \<noteq> None) + of_bool (sleepers k p \<noteq> None) +
     of_bool (strs k p \<noteq> None) + of_bool (argvs k p \<noteq> None) + of_bool (raws k p \<noteq> None) +
     of_bool (\<exists>t. pcb k = Some (p, t))"

definition heap_ok :: "kernel \<Rightarrow> bool" where
  "heap_ok k \<longleftrightarrow> buddy_inv (kmem k) \<and>
     (\<forall>p. objects_at k p = of_bool (p \<in> bud.live (kmem k)))"

lemma heap_ok_objects_le: "heap_ok k \<Longrightarrow> objects_at k p \<le> 1"
  by (simp add: heap_ok_def)

lemma heap_ok_null: "heap_ok k \<Longrightarrow> objects_at k NULL = 0"
  using bud.blocks_null [of "kmem k"] by (simp add: heap_ok_def bud.live_def)

lemma live_not_null: "buddy_inv m \<Longrightarrow> p \<in> bud.live m \<Longrightarrow> p \<noteq> NULL"
  using bud.blocks_null [of m] by (metis bud.live_def)

text \<open>
  Allocation is always defined. It either yields \<open>NULL\<close> and leaves the blocks as they are or
  yields an address at which there was no object and makes it a block in use.
\<close>

lemma kalloc_cases [consumes 1, case_names null block]:
  assumes "heap_ok k"
  obtains m where "kalloc n k = Some (NULL, k\<lparr>kmem := m\<rparr>)" "heap_ok (k\<lparr>kmem := m\<rparr>)"
  | p m where "kalloc n k = Some (p, k\<lparr>kmem := m\<rparr>)" "p \<noteq> NULL" "objects_at k p = 0"
      "buddy_inv m" "bud.live m = insert p (bud.live (kmem k))"
proof -
  have inv: "buddy_inv (kmem k)" and tags: "\<And>p. objects_at k p = of_bool (p \<in> bud.live (kmem k))"
    using assms by (auto simp: heap_ok_def)
  obtain p m where r: "mem_alloc n (kmem k) = Some (p, m)" "buddy_inv m"
    using bud.alloc_total [OF inv] by blast
  note l = bud.alloc_live [OF inv r(1)]
  have run: "kalloc n k = Some (p, k\<lparr>kmem := m\<rparr>)" using r(1) by (simp add: kalloc_def)
  show ?thesis
  proof (cases "p = NULL")
    case True
    have "heap_ok (k\<lparr>kmem := m\<rparr>)" using l(1) True r(2) tags by (auto simp: heap_ok_def objects_at_def)
    then show ?thesis using that(1) run True by blast
  next
    case False
    then show ?thesis using that(2) [OF run] l r(2) tags by simp
  qed
qed

text \<open>Storing a new object at an address where there was none adds one object there.\<close>

lemma objects_at_kmem [simp]: "objects_at (k\<lparr>kmem := m\<rparr>) p = objects_at k p"
  by (simp add: objects_at_def)

lemma objects_at_new:
  assumes "objects_at k p = 0"
  shows "objects_at (k\<lparr>queues := (queues k)(p \<mapsto> q)\<rparr>) x = objects_at k x + of_bool (x = p)"
    and "objects_at (k\<lparr>qnodes := (qnodes k)(p \<mapsto> n)\<rparr>) x = objects_at k x + of_bool (x = p)"
    and "objects_at (k\<lparr>procs := (procs k)(p \<mapsto> pr)\<rparr>) x = objects_at k x + of_bool (x = p)"
    and "objects_at (k\<lparr>sems := (sems k)(p \<mapsto> s)\<rparr>) x = objects_at k x + of_bool (x = p)"
    and "objects_at (k\<lparr>pipeobjs := (pipeobjs k)(p \<mapsto> pp)\<rparr>) x = objects_at k x + of_bool (x = p)"
    and "objects_at (k\<lparr>sleepers := (sleepers k)(p \<mapsto> sl)\<rparr>) x = objects_at k x + of_bool (x = p)"
    and "objects_at (k\<lparr>strs := (strs k)(p \<mapsto> bs)\<rparr>) x = objects_at k x + of_bool (x = p)"
    and "objects_at (k\<lparr>argvs := (argvs k)(p \<mapsto> as)\<rparr>) x = objects_at k x + of_bool (x = p)"
    and "objects_at (k\<lparr>raws := (raws k)(p \<mapsto> sz)\<rparr>) x = objects_at k x + of_bool (x = p)"
  using assms by (auto simp: objects_at_def)

text \<open>Writing to an object, or to a static variable, adds and removes none.\<close>

lemma objects_at_write [simp]:
  "queues k p \<noteq> None \<Longrightarrow> objects_at (k\<lparr>queues := (queues k)(p \<mapsto> q)\<rparr>) x = objects_at k x"
  "qnodes k p \<noteq> None \<Longrightarrow> objects_at (k\<lparr>qnodes := (qnodes k)(p \<mapsto> n)\<rparr>) x = objects_at k x"
  "procs k p \<noteq> None \<Longrightarrow> objects_at (k\<lparr>procs := (procs k)(p \<mapsto> pr)\<rparr>) x = objects_at k x"
  "sems k p \<noteq> None \<Longrightarrow> objects_at (k\<lparr>sems := (sems k)(p \<mapsto> s)\<rparr>) x = objects_at k x"
  "pipeobjs k p \<noteq> None \<Longrightarrow> objects_at (k\<lparr>pipeobjs := (pipeobjs k)(p \<mapsto> pp)\<rparr>) x = objects_at k x"
  "strs k p \<noteq> None \<Longrightarrow> objects_at (k\<lparr>strs := (strs k)(p \<mapsto> bs)\<rparr>) x = objects_at k x"
  "argvs k p \<noteq> None \<Longrightarrow> objects_at (k\<lparr>argvs := (argvs k)(p \<mapsto> as)\<rparr>) x = objects_at k x"
  by (auto simp: objects_at_def)

lemma heap_ok_insert:
  assumes "buddy_inv m" and "bud.live m = insert p (bud.live (kmem k))" and "heap_ok k"
    and "objects_at k p = 0" and "kmem k' = m" and "\<And>x. objects_at k' x = objects_at k x + of_bool (x = p)"
  shows "heap_ok k'"
  using assms by (auto simp: heap_ok_def)

text \<open>
  Freeing an object: the block is in use, so \<open>mem_free\<close> is defined; the object goes with it.
\<close>

lemma kfree_object:
  assumes "heap_ok k" and "objects_at k p \<noteq> 0"
  obtains m where "kfree p k = Some (k\<lparr>kmem := m\<rparr>)" "buddy_inv m"
    "bud.live m = bud.live (kmem k) - {p}"
proof -
  have "p \<in> bud.live (kmem k)" "buddy_inv (kmem k)" using assms by (auto simp: heap_ok_def)
  then obtain m where "mem_free p (kmem k) = Some m" "buddy_inv m" "bud.live m = bud.live (kmem k) - {p}"
    using bud.free_live by blast
  then show ?thesis using that by (simp add: kfree_def)
qed

lemma heap_ok_remove:
  assumes "buddy_inv m" and "bud.live m = bud.live (kmem k) - {p}" and "heap_ok k"
    and "objects_at k p \<noteq> 0" and "kmem k' = m" and "\<And>x. objects_at k' x = objects_at k x - of_bool (x = p)"
  shows "heap_ok k'"
  using assms by (auto simp: heap_ok_def)

lemma objects_at_gone:
  assumes "heap_ok k"
  shows "queues k p \<noteq> None \<Longrightarrow> objects_at (k\<lparr>queues := (queues k)(p := None)\<rparr>) x = objects_at k x - of_bool (x = p)"
    and "qnodes k p \<noteq> None \<Longrightarrow> objects_at (k\<lparr>qnodes := (qnodes k)(p := None)\<rparr>) x = objects_at k x - of_bool (x = p)"
    and "procs k p \<noteq> None \<Longrightarrow> objects_at (k\<lparr>procs := (procs k)(p := None)\<rparr>) x = objects_at k x - of_bool (x = p)"
    and "sems k p \<noteq> None \<Longrightarrow> objects_at (k\<lparr>sems := (sems k)(p := None)\<rparr>) x = objects_at k x - of_bool (x = p)"
    and "pipeobjs k p \<noteq> None \<Longrightarrow> objects_at (k\<lparr>pipeobjs := (pipeobjs k)(p := None)\<rparr>) x = objects_at k x - of_bool (x = p)"
    and "sleepers k p \<noteq> None \<Longrightarrow> objects_at (k\<lparr>sleepers := (sleepers k)(p := None)\<rparr>) x = objects_at k x - of_bool (x = p)"
    and "strs k p \<noteq> None \<Longrightarrow> objects_at (k\<lparr>strs := (strs k)(p := None)\<rparr>) x = objects_at k x - of_bool (x = p)"
    and "argvs k p \<noteq> None \<Longrightarrow> objects_at (k\<lparr>argvs := (argvs k)(p := None)\<rparr>) x = objects_at k x - of_bool (x = p)"
    and "raws k p \<noteq> None \<Longrightarrow> objects_at (k\<lparr>raws := (raws k)(p := None)\<rparr>) x = objects_at k x - of_bool (x = p)"
  using heap_ok_objects_le [OF assms, of p] by (auto simp: objects_at_def of_bool_def split: if_splits)

text \<open>
  The smallest block has 32 bytes, 8 of them the header: any block given back is large
  enough for the next queue node, so an allocation of at most 24 bytes that follows a free
  never fails.
\<close>

lemma buddy_blocks_capacity: "(p, c) \<in> buddy_blocks m \<Longrightarrow> 24 \<le> c"
proof -
  assume "(p, c) \<in> buddy_blocks m"
  then obtain h where "c = bsize h - 8" by (auto simp: buddy_blocks_def HEADER_SIZE_def)
  then show ?thesis using bsize_ge_32 [of h] by simp
qed

lemma kalloc_after_kfree:
  assumes "heap_ok k" and "objects_at k p \<noteq> 0" and "kfree p k = Some k'"
    and "0 < n" and "unat n \<le> 24"
  obtains q m where "kalloc n k' = Some (q, k'\<lparr>kmem := m\<rparr>)" "q \<noteq> NULL"
proof -
  have inv: "buddy_inv (kmem k)" and "p \<in> bud.live (kmem k)" using assms by (auto simp: heap_ok_def)
  then obtain c where c: "(p, c) \<in> buddy_blocks (kmem k)" by (auto simp: bud.live_def)
  obtain m where m: "mem_free p (kmem k) = Some m" "k' = k\<lparr>kmem := m\<rparr>"
    using assms(3) by (auto simp: kfree_def)
  have "unat n \<le> c" using buddy_blocks_capacity [OF c] assms(5) by linarith
  from bud.reuse [OF inv c m(1) assms(4) this] obtain q m'' where
    "mem_alloc n m = Some (q, m'')" "q \<noteq> NULL" by blast
  then show ?thesis using that m(2) by (simp add: kalloc_def)
qed

text \<open>There are never more objects than bytes in the heap.\<close>

lemma live_within: "bud.live m \<subseteq> {heap m ..< heap m + HEAP_SIZE}"
proof
  fix p
  assume "p \<in> bud.live m"
  then obtain b h where p: "p = b + HEADER_SIZE" and u: "(b, h) \<in> used_blocks HEIGHT (heap m) (tree m)"
    by (auto simp: bud.live_def buddy_blocks_def)
  have "p \<in> block_bytes (b, h)"
    using bsize_ge_32 [of h] p by (simp add: block_bytes_def HEADER_SIZE_def)
  then have "p \<in> block_bytes (heap m, HEIGHT)"
    using used_bytes_within [of HEIGHT "heap m" "tree m"] u by (auto simp: bytes_of_def)
  then show "p \<in> {heap m ..< heap m + HEAP_SIZE}"
    by (simp add: block_bytes_def bsize_def buddy_consts)
qed

lemma card_live: "card (bud.live m) \<le> HEAP_SIZE"
  using card_mono [OF _ live_within [of m]] by simp

section \<open>The kernel at boot\<close>

text \<open>
  The static variables as the loader leaves them (\<open>clearBSS\<close>), with a memory manager \<open>m\<close>.
  The mask of the interrupt controller is the one \<open>load_idt\<close> sets: timer and keyboard on.
\<close>

definition bss_kernel :: "buddy \<Rightarrow> kernel" where
  "bss_kernel m = \<lparr>
     kmem = m, queues = Map.empty, qnodes = Map.empty, procs = Map.empty, sems = Map.empty,
     pipeobjs = Map.empty, sleepers = Map.empty, strs = Map.empty, argvs = Map.empty,
     raws = Map.empty, pcb = None,
     sch_current = NULL, sch_total_ticks = 0, sch_context_switches = 0,
     sch_ready_queues = replicate 6 NULL, sch_idle = NULL,
     registered_semaphores = NULL, registry_lock = 0,
     pipes = replicate 100 NULL, next_pipe_id = 0, pipe_sem_name = replicate 9 0,
     ticks = 0, sleeping_queue = NULL, shell_created = False, pic_master_mask = 0xFC\<rparr>"

definition boot_kernel :: kernel where
  "boot_kernel = bss_kernel boot_buddy"

lemma boot_kernel_heap [simp]: "heap_ok boot_kernel" "kmem boot_kernel = boot_buddy"
proof -
  have "bud.live boot_buddy = {}" by (simp add: bud.live_def buddy_blocks_def)
  then show "heap_ok boot_kernel"
    by (simp add: heap_ok_def boot_kernel_def bss_kernel_def objects_at_def)
qed (simp add: boot_kernel_def bss_kernel_def)

lemma kalloc_spare:
  assumes "heap_ok k" and "spare (Suc n) (kmem k)" and "sz \<noteq> 0" and "unat sz \<le> 16376"
  obtains p m where "kalloc sz k = Some (p, k\<lparr>kmem := m\<rparr>)" "p \<noteq> NULL" "spare n m"
proof -
  obtain p m where "mem_alloc sz (kmem k) = Some (p, m)" "p \<noteq> NULL" "spare n m"
    by (rule spare_alloc [OF assms(2-4)])
  then show ?thesis using that [of p m] by (simp add: kalloc_def)
qed

end
