(* ===== verification/Queue_Spec.thy ===== *)
theory Queue_Spec
  imports Prelude
begin

text \<open>
  The contract of \<open>queueADT.h\<close>: a state holds any number of queues of pointers; pushing,
  popping and removing act on one of them as on a list and leave every other queue and the
  rest of the state (\<open>frame\<close>) alone. A push fails exactly when there is no \<open>room\<close> for one
  more node, and there is room after every pop of an element. Theory \<open>Queue\<close> interprets the
  locale on the kernel's linked queues.
\<close>

section \<open>The abstract machine\<close>

datatype queue_call = QPush addr addr | QPop addr | QRemove addr addr

text \<open>
  \<open>fifo_step c r e e'\<close>: on lists \<open>e\<close>, call \<open>c\<close> may return \<open>r\<close> and leave \<open>e'\<close>. Results are
  numbers: 1 and 0 for the booleans, the element or 0 for a pop.
\<close>

fun fifo_step :: "queue_call \<Rightarrow> addr \<Rightarrow> (addr \<Rightarrow> addr list) \<Rightarrow> (addr \<Rightarrow> addr list) \<Rightarrow> bool" where
  "fifo_step (QPush q x) r e e' \<longleftrightarrow> r = 1 \<and> e' = e(q := e q @ [x]) \<or> r = 0 \<and> e' = e"
| "fifo_step (QPop q) r e e' \<longleftrightarrow>
     r = (case e q of [] \<Rightarrow> NULL | x # _ \<Rightarrow> x) \<and> e' = e(q := tl (e q))"
| "fifo_step (QRemove q x) r e e' \<longleftrightarrow>
     r = of_bool (x \<in> set (e q)) \<and> e' = e(q := remove1 x (e q))"

inductive fifo_run ::
  "(addr \<Rightarrow> addr list) \<Rightarrow> (queue_call \<times> addr) list \<Rightarrow> (addr \<Rightarrow> addr list) \<Rightarrow> bool"
where
  fifo_nil: "fifo_run e [] e"
| fifo_cons: "fifo_step c r e e' \<Longrightarrow> fifo_run e' tr e'' \<Longrightarrow> fifo_run e ((c, r) # tr) e''"

inductive_simps fifo_run_simps: "fifo_run e [] e'" "fifo_run e (x # tr) e'"

fun call_queue :: "queue_call \<Rightarrow> addr" where
  "call_queue (QPush q x) = q"
| "call_queue (QPop q) = q"
| "call_queue (QRemove q x) = q"

section \<open>The contract\<close>

locale queue_ops =
  fixes push :: "addr \<Rightarrow> addr \<Rightarrow> 's \<Rightarrow> (bool \<times> 's) option"
    and pop :: "addr \<Rightarrow> 's \<Rightarrow> (addr \<times> 's) option"
    and remove :: "addr \<Rightarrow> addr \<Rightarrow> 's \<Rightarrow> (bool \<times> 's) option"
    and elems :: "'s \<Rightarrow> addr \<Rightarrow> addr list"
    and valid :: "'s \<Rightarrow> addr set"
    and room :: "'s \<Rightarrow> bool"
    and frame :: "'s \<Rightarrow> 's \<Rightarrow> bool"
    and inv :: "'s \<Rightarrow> bool"
  assumes frame_refl: "frame s s"
    and frame_trans: "frame s s' \<Longrightarrow> frame s' s'' \<Longrightarrow> frame s s''"
    and push_law: "inv s \<Longrightarrow> q \<in> valid s \<Longrightarrow>
      \<exists>s'. push q x s = Some (room s, s') \<and> inv s' \<and> frame s s' \<and> valid s' = valid s \<and>
        elems s' = (if room s then (elems s)(q := elems s q @ [x]) else elems s)"
    and pop_law: "inv s \<Longrightarrow> q \<in> valid s \<Longrightarrow>
      \<exists>s'. pop q s = Some (case elems s q of [] \<Rightarrow> NULL | x # _ \<Rightarrow> x, s') \<and> inv s' \<and> frame s s' \<and>
        valid s' = valid s \<and> elems s' = (elems s)(q := tl (elems s q)) \<and>
        (elems s q \<noteq> [] \<longrightarrow> room s') \<and> (elems s q = [] \<longrightarrow> s' = s)"
    and remove_law: "inv s \<Longrightarrow> q \<in> valid s \<Longrightarrow>
      \<exists>s'. remove q x s = Some (x \<in> set (elems s q), s') \<and> inv s' \<and> frame s s' \<and>
        valid s' = valid s \<and> elems s' = (elems s)(q := remove1 x (elems s q)) \<and>
        (x \<in> set (elems s q) \<longrightarrow> room s') \<and> (x \<notin> set (elems s q) \<longrightarrow> s' = s)"
begin

lemma pop_empty: "inv s \<Longrightarrow> q \<in> valid s \<Longrightarrow> elems s q = [] \<Longrightarrow> pop q s = Some (NULL, s)"
  using pop_law [of s q] by auto

lemma pop_Cons:
  assumes "inv s" and "q \<in> valid s" and "elems s q = x # xs"
  obtains s' where "pop q s = Some (x, s')" "inv s'" "frame s s'" "valid s' = valid s"
    "elems s' = (elems s)(q := xs)" "room s'"
  using pop_law [OF assms(1,2)] assms(3) that by auto

lemma push_room:
  assumes "inv s" and "q \<in> valid s" and "room s"
  obtains s' where "push q x s = Some (True, s')" "inv s'" "frame s s'" "valid s' = valid s"
    "elems s' = (elems s)(q := elems s q @ [x])"
  using push_law [OF assms(1,2), of x] assms(3) that by auto

text \<open>Moving the front element of one queue to the end of another never loses it.\<close>

lemma pop_push:
  assumes "inv s" and "q \<in> valid s" and "q' \<in> valid s" and "elems s q = x # xs"
  shows "\<exists>s1 s2. pop q s = Some (x, s1) \<and> push q' y s1 = Some (True, s2) \<and> inv s2 \<and> frame s s2 \<and>
    valid s2 = valid s \<and>
    elems s2 = ((elems s)(q := xs))(q' := ((elems s)(q := xs)) q' @ [y])"
proof -
  obtain s1 where s1: "pop q s = Some (x, s1)" "inv s1" "frame s s1" "valid s1 = valid s"
    "elems s1 = (elems s)(q := xs)" "room s1"
    using pop_Cons [OF assms(1,2,4)] by metis
  then obtain s2 where "push q' y s1 = Some (True, s2)" "inv s2" "frame s1 s2" "valid s2 = valid s1"
    "elems s2 = (elems s1)(q' := elems s1 q' @ [y])"
    using push_room [of s1 q' y] assms(3) by metis
  then show ?thesis using s1 frame_trans by (metis (no_types))
qed

definition call :: "queue_call \<Rightarrow> 's \<Rightarrow> (addr \<times> 's) option" where
  "call c s = (case c of
      QPush q x \<Rightarrow> map_option (\<lambda>(b, s). (of_bool b, s)) (push q x s)
    | QPop q \<Rightarrow> pop q s
    | QRemove q x \<Rightarrow> map_option (\<lambda>(b, s). (of_bool b, s)) (remove q x s))"

lemma call_simulates:
  assumes "inv s" and "call_queue c \<in> valid s"
  shows "\<exists>r s'. call c s = Some (r, s') \<and> inv s' \<and> frame s s' \<and> valid s' = valid s \<and>
    fifo_step c r (elems s) (elems s')"
proof (cases c)
  case (QPush q x)
  then obtain s' where "push q x s = Some (room s, s')" "inv s'" "frame s s'" "valid s' = valid s"
    "elems s' = (if room s then (elems s)(q := elems s q @ [x]) else elems s)"
    using push_law [of s q x] assms by auto
  then show ?thesis using QPush by (intro exI [of _ "of_bool (room s)"] exI [of _ s']) (simp add: call_def)
next
  case (QPop q)
  then show ?thesis using pop_law [of s q] assms by (auto simp: call_def)
next
  case (QRemove q x)
  then obtain s' where "remove q x s = Some (x \<in> set (elems s q), s')" "inv s'" "frame s s'"
    "valid s' = valid s" "elems s' = (elems s)(q := remove1 x (elems s q))"
    using remove_law [of s q x] assms by auto
  then show ?thesis
    using QRemove by (intro exI [of _ "of_bool (x \<in> set (elems s q))"] exI [of _ s']) (simp add: call_def)
qed

inductive queue_run :: "'s \<Rightarrow> (queue_call \<times> addr) list \<Rightarrow> 's \<Rightarrow> bool" where
  run_nil: "queue_run s [] s"
| run_call: "call_queue c \<in> valid s \<Longrightarrow> call c s = Some (r, s') \<Longrightarrow> queue_run s' tr s'' \<Longrightarrow>
    queue_run s ((c, r) # tr) s''"

lemma queue_run_refines:
  "queue_run s tr s' \<Longrightarrow> inv s \<Longrightarrow>
   inv s' \<and> frame s s' \<and> valid s' = valid s \<and> fifo_run (elems s) tr (elems s')"
proof (induction rule: queue_run.induct)
  case (run_nil s)
  then show ?case by (simp add: frame_refl fifo_nil)
next
  case (run_call c s r s' tr s'')
  have step: "inv s'" "frame s s'" "valid s' = valid s" "fifo_step c r (elems s) (elems s')"
    using call_simulates [OF run_call.prems run_call.hyps(1)] run_call.hyps(2) by auto
  then show ?case using run_call.IH frame_trans fifo_cons by metis
qed

lemma queue_run_total:
  "inv s \<Longrightarrow> \<forall>c\<in>set cs. call_queue c \<in> valid s \<Longrightarrow>
   \<exists>tr s'. map fst tr = cs \<and> queue_run s tr s'"
proof (induction cs arbitrary: s)
  case Nil
  then show ?case using run_nil by blast
next
  case (Cons c cs)
  obtain r s1 where s1: "call c s = Some (r, s1)" "inv s1" "valid s1 = valid s"
    using call_simulates [of s c] Cons.prems by auto
  have "\<forall>c\<in>set cs. call_queue c \<in> valid s1" using Cons.prems(2) s1(3) by simp
  then obtain tr s' where "map fst tr = cs" "queue_run s1 tr s'" using Cons.IH [OF s1(2)] by blast
  then show ?case using run_call [of c s r s1 tr s'] s1(1) Cons.prems
    by (intro exI [of _ "(c, r) # tr"]) auto
qed

end

end
