(* ===== verification/Queue.thy ===== *)
theory Queue
  imports KTypes Queue_Spec
begin

text \<open>
  The linked queue of \<open>Kernel/collections/queueADT.c\<close>, on the kernel heap: a header object
  with head, tail and size, and one node object per element, each in its own block of the
  memory manager. The abstraction \<open>qelems k q\<close> reads the list of elements off the heap; the
  operations are shown to act on that list and on nothing else, and to keep the queues of
  the kernel well formed and disjoint. The contract is a locale, so the components that use
  queues rest on its laws and not on the pointers.
\<close>

section \<open>Operations\<close>

text \<open>\<open>sizeof(queue_t)\<close> and \<open>sizeof(struct queue_node)\<close>.\<close>

definition QUEUE_SIZE :: u64 where "QUEUE_SIZE = 24"
definition QUEUE_NODE_SIZE :: u64 where "QUEUE_NODE_SIZE = 16"

definition queue_create :: "kernel \<Rightarrow> (addr \<times> kernel) option" where
  "queue_create k = do {
     (queue, k) \<leftarrow> kalloc QUEUE_SIZE k;
     if queue = NULL then Some (NULL, k)
     else Some (queue,
            k\<lparr>queues := (queues k)(queue \<mapsto> \<lparr>q_head = NULL, q_tail = NULL, q_size = 0\<rparr>)\<rparr>)
   }"

text \<open>\<open>mem_free\<close> of a node and of a queue header.\<close>

definition free_node :: "addr \<Rightarrow> kernel \<Rightarrow> kernel option" where
  "free_node p k =
     (if qnodes k p = None then None
      else do { k \<leftarrow> kfree p k; Some (k\<lparr>qnodes := (qnodes k)(p := None)\<rparr>) })"

definition free_queue :: "addr \<Rightarrow> kernel \<Rightarrow> kernel option" where
  "free_queue p k =
     (if queues k p = None then None
      else do { k \<leftarrow> kfree p k; Some (k\<lparr>queues := (queues k)(p := None)\<rparr>) })"

partial_function (option) queue_clear_loop ::
  "(addr \<Rightarrow> kernel \<Rightarrow> kernel option) option \<Rightarrow> addr \<Rightarrow> kernel \<Rightarrow> kernel option"
where
  "queue_clear_loop destroy current k =
     (if current = NULL then Some k
      else do {
        n \<leftarrow> qnodes k current;
        k \<leftarrow> (case destroy of None \<Rightarrow> Some k | Some f \<Rightarrow> f (qn_data n) k);
        k \<leftarrow> free_node current k;
        queue_clear_loop destroy (qn_next n) k
      })"

definition queue_clear ::
  "addr \<Rightarrow> (addr \<Rightarrow> kernel \<Rightarrow> kernel option) option \<Rightarrow> kernel \<Rightarrow> kernel option"
where
  "queue_clear queue destroy k =
     (if queue = NULL then Some k
      else do {
        q \<leftarrow> queues k queue;
        k \<leftarrow> queue_clear_loop destroy (q_head q) k;
        q \<leftarrow> queues k queue;
        Some (k\<lparr>queues := (queues k)(queue \<mapsto> \<lparr>q_head = NULL, q_tail = NULL, q_size = 0\<rparr>)\<rparr>)
      })"

definition queue_destroy ::
  "addr \<Rightarrow> (addr \<Rightarrow> kernel \<Rightarrow> kernel option) option \<Rightarrow> kernel \<Rightarrow> kernel option"
where
  "queue_destroy queue destroy k =
     (if queue = NULL then Some k
      else do { k \<leftarrow> queue_clear queue destroy k; free_queue queue k })"

definition queue_is_empty :: "addr \<Rightarrow> kernel \<Rightarrow> bool option" where
  "queue_is_empty queue k =
     (if queue = NULL then Some True else do { q \<leftarrow> queues k queue; Some (q_size q = 0) })"

definition queue_size :: "addr \<Rightarrow> kernel \<Rightarrow> u64 option" where
  "queue_size queue k =
     (if queue = NULL then Some 0 else do { q \<leftarrow> queues k queue; Some (q_size q) })"

definition queue_push :: "addr \<Rightarrow> addr \<Rightarrow> kernel \<Rightarrow> (bool \<times> kernel) option" where
  "queue_push queue element k =
     (if queue = NULL then Some (False, k)
      else do {
        (node, k) \<leftarrow> kalloc QUEUE_NODE_SIZE k;
        if node = NULL then Some (False, k)
        else do {
          k \<leftarrow> Some (k\<lparr>qnodes := (qnodes k)(node \<mapsto> \<lparr>qn_data = element, qn_next = NULL\<rparr>)\<rparr>);
          q \<leftarrow> queues k queue;
          k \<leftarrow> (if q_tail q = NULL
                then Some (k\<lparr>queues := (queues k)(queue \<mapsto> q\<lparr>q_head := node\<rparr>)\<rparr>)
                else do {
                  t \<leftarrow> qnodes k (q_tail q);
                  Some (k\<lparr>qnodes := (qnodes k)(q_tail q \<mapsto> t\<lparr>qn_next := node\<rparr>)\<rparr>)
                });
          q \<leftarrow> queues k queue;
          Some (True, k\<lparr>queues := (queues k)(queue \<mapsto> q\<lparr>q_tail := node, q_size := q_size q + 1\<rparr>)\<rparr>)
        }
      })"

partial_function (option) queue_remove_loop ::
  "addr \<Rightarrow> addr \<Rightarrow> addr \<Rightarrow> addr \<Rightarrow> kernel \<Rightarrow> (bool \<times> kernel) option"
where
  "queue_remove_loop queue element prev current k =
     (if current = NULL then Some (False, k)
      else do {
        n \<leftarrow> qnodes k current;
        if qn_data n = element then do {
          k \<leftarrow> (if prev = NULL
                then do {
                  q \<leftarrow> queues k queue;
                  Some (k\<lparr>queues := (queues k)(queue \<mapsto> q\<lparr>q_head := qn_next n\<rparr>)\<rparr>)
                }
                else do {
                  p \<leftarrow> qnodes k prev;
                  Some (k\<lparr>qnodes := (qnodes k)(prev \<mapsto> p\<lparr>qn_next := qn_next n\<rparr>)\<rparr>)
                });
          q \<leftarrow> queues k queue;
          k \<leftarrow> Some (if current = q_tail q
                     then k\<lparr>queues := (queues k)(queue \<mapsto> q\<lparr>q_tail := prev\<rparr>)\<rparr> else k);
          k \<leftarrow> free_node current k;
          q \<leftarrow> queues k queue;
          Some (True, k\<lparr>queues := (queues k)(queue \<mapsto> q\<lparr>q_size := q_size q - 1\<rparr>)\<rparr>)
        }
        else queue_remove_loop queue element current (qn_next n) k
      })"

definition queue_remove :: "addr \<Rightarrow> addr \<Rightarrow> kernel \<Rightarrow> (bool \<times> kernel) option" where
  "queue_remove queue element k =
     (if queue = NULL then Some (False, k)
      else do { q \<leftarrow> queues k queue; queue_remove_loop queue element NULL (q_head q) k })"

definition queue_pop :: "addr \<Rightarrow> kernel \<Rightarrow> (addr \<times> kernel) option" where
  "queue_pop queue k =
     (if queue = NULL then Some (NULL, k)
      else do {
        q \<leftarrow> queues k queue;
        if q_head q = NULL then Some (NULL, k)
        else do {
          node \<leftarrow> qnodes k (q_head q);
          q1 \<leftarrow> Some (q\<lparr>q_head := qn_next node\<rparr>);
          q2 \<leftarrow> Some (if q_head q1 = NULL then q1\<lparr>q_tail := NULL\<rparr> else q1);
          k \<leftarrow> free_node (q_head q) (k\<lparr>queues := (queues k)(queue \<mapsto> q2)\<rparr>);
          q3 \<leftarrow> queues k queue;
          Some (qn_data node, k\<lparr>queues := (queues k)(queue \<mapsto> q3\<lparr>q_size := q_size q3 - 1\<rparr>)\<rparr>)
        }
      })"

definition queue_peek :: "addr \<Rightarrow> kernel \<Rightarrow> addr option" where
  "queue_peek queue k =
     (if queue = NULL then Some NULL
      else do {
        q \<leftarrow> queues k queue;
        if q_head q = NULL then Some NULL
        else do { node \<leftarrow> qnodes k (q_head q); Some (qn_data node) }
      })"

text \<open>An iterator is the pointer to the node it is about to return.\<close>

definition queue_iter :: "addr \<Rightarrow> kernel \<Rightarrow> addr option" where
  "queue_iter queue k =
     (if queue = NULL then Some NULL else do { q \<leftarrow> queues k queue; Some (q_head q) })"

definition queue_iter_has_next :: "addr \<Rightarrow> bool" where
  "queue_iter_has_next current \<longleftrightarrow> current \<noteq> NULL"

definition queue_iter_next :: "addr \<Rightarrow> kernel \<Rightarrow> (addr \<times> addr) option" where
  "queue_iter_next current k =
     (if current = NULL then Some (NULL, NULL)
      else do { node \<leftarrow> qnodes k current; Some (qn_data node, qn_next node) })"

section \<open>Chains of nodes\<close>

text \<open>\<open>chain ns p xs\<close>: from \<open>p\<close> on, the nodes and their elements are exactly \<open>xs\<close>.\<close>

primrec chain :: "(addr \<rightharpoonup> queue_node) \<Rightarrow> addr \<Rightarrow> (addr \<times> addr) list \<Rightarrow> bool" where
  "chain ns p [] \<longleftrightarrow> p = NULL"
| "chain ns p (x # xs) \<longleftrightarrow> p \<noteq> NULL \<and> p = fst x \<and>
     (\<exists>n. ns p = Some n \<and> qn_data n = snd x \<and> chain ns (qn_next n) xs)"

lemma chain_frame:
  "(\<And>a. a \<in> fst ` set xs \<Longrightarrow> ns' a = ns a) \<Longrightarrow> chain ns' p xs = chain ns p xs"
  by (induction xs arbitrary: p) auto

lemma chain_upd [simp]:
  "a \<notin> fst ` set xs \<Longrightarrow> chain (ns(a := v)) p xs = chain ns p xs"
  by (rule chain_frame) auto

lemma chain_defined: "chain ns p xs \<Longrightarrow> a \<in> fst ` set xs \<Longrightarrow> a \<noteq> NULL \<and> ns a \<noteq> None"
  by (induction xs arbitrary: p) auto

lemma chain_fun: "chain ns p xs \<Longrightarrow> chain ns p ys \<Longrightarrow> xs = ys"
proof (induction xs arbitrary: p ys)
  case Nil
  then show ?case by (cases ys) auto
next
  case (Cons x xs)
  then show ?case by (cases ys) (auto simp: prod_eq_iff)
qed

lemma chain_append_node:
  assumes "chain ns p xs" and "xs \<noteq> []" and "distinct (map fst xs)" and "a \<notin> fst ` set xs"
    and "a \<noteq> NULL" and "ns (fst (last xs)) = Some t"
  shows "chain (ns(a \<mapsto> \<lparr>qn_data = x, qn_next = NULL\<rparr>, fst (last xs) \<mapsto> t\<lparr>qn_next := a\<rparr>)) p (xs @ [(a, x)])"
  using assms
proof (induction xs arbitrary: p)
  case (Cons y ys)
  show ?case
  proof (cases "ys = []")
    case False
    then have "fst (last ys) \<in> fst ` set ys" by simp
    moreover have "fst y \<notin> fst ` set ys" using Cons.prems(3) by simp
    ultimately have "fst y \<noteq> fst (last ys)" by metis
    then show ?thesis using Cons False by auto
  qed (use Cons in auto)
qed simp

lemma chain_remove_node:
  assumes "chain ns p (ys @ (b, y) # zs)" and "ys \<noteq> []" and "distinct (map fst (ys @ (b, y) # zs))"
    and "ns b = Some n" and "ns (fst (last ys)) = Some t"
  shows "chain (ns(fst (last ys) \<mapsto> t\<lparr>qn_next := qn_next n\<rparr>, b := None)) p (ys @ zs)"
  using assms
proof (induction ys arbitrary: p)
  case (Cons x xs)
  show ?case
  proof (cases "xs = []")
    case False
    then have "fst (last xs) \<in> fst ` set xs" by simp
    moreover have "fst x \<notin> fst ` set xs" using Cons.prems(3) by simp
    ultimately have "fst x \<noteq> fst (last xs)" by metis
    then show ?thesis using Cons False by auto
  next
    case True
    then show ?thesis using Cons.prems by (auto simp del: fun_upd_apply) (auto simp: fun_upd_same)
  qed
qed simp

lemma chain_drop: "chain ns p (ys @ zs) \<Longrightarrow> \<exists>q. chain ns q zs \<and> (zs = [] \<longrightarrow> q = NULL)"
  by (induction ys arbitrary: p) auto

text \<open>Reading a chain off the heap, at most \<open>n\<close> nodes of it.\<close>

primrec walk :: "nat \<Rightarrow> (addr \<rightharpoonup> queue_node) \<Rightarrow> addr \<Rightarrow> (addr \<times> addr) list" where
  "walk 0 ns p = []"
| "walk (Suc n) ns p =
     (case ns p of None \<Rightarrow> [] | Some nd \<Rightarrow> (p, qn_data nd) # walk n ns (qn_next nd))"

lemma chain_walk: "chain ns p xs \<Longrightarrow> walk (length xs) ns p = xs"
  by (induction xs arbitrary: p) (auto simp: prod_eq_iff)

section \<open>Queues on the heap\<close>

definition queue_rep :: "kernel \<Rightarrow> addr \<Rightarrow> (addr \<times> addr) list \<Rightarrow> bool" where
  "queue_rep k q xs \<longleftrightarrow>
     (\<exists>r. queues k q = Some r \<and> chain (qnodes k) (q_head r) xs \<and> distinct (map fst xs) \<and>
          q_tail r = (if xs = [] then NULL else fst (last xs)) \<and> q_size r = of_nat (length xs))"

definition qcells :: "kernel \<Rightarrow> addr \<Rightarrow> (addr \<times> addr) list" where
  "qcells k q = (case queues k q of None \<Rightarrow> []
                 | Some r \<Rightarrow> walk (unat (q_size r)) (qnodes k) (q_head r))"

definition qelems :: "kernel \<Rightarrow> addr \<Rightarrow> addr list" where
  "qelems k q = map snd (qcells k q)"

definition queue_inv :: "kernel \<Rightarrow> bool" where
  "queue_inv k \<longleftrightarrow> heap_ok k \<and>
     (\<forall>q\<in>dom (queues k). queue_rep k q (qcells k q)) \<and>
     (\<forall>q q'. q \<noteq> q' \<longrightarrow> fst ` set (qcells k q) \<inter> fst ` set (qcells k q') = {})"

lemma queue_inv_heap [simp]: "queue_inv k \<Longrightarrow> heap_ok k"
  by (simp add: queue_inv_def)

text \<open>A chain is never longer than the heap, so its length fits the size field.\<close>

lemma chain_length:
  assumes "heap_ok k" and "chain (qnodes k) p xs" and "distinct (map fst xs)"
  shows "length xs < 2 ^ 64"
proof -
  have "a \<in> bud.live (kmem k)" if "a \<in> fst ` set xs" for a
  proof -
    have "objects_at k a \<noteq> 0" using chain_defined [OF assms(2) that] by (simp add: objects_at_def)
    then show ?thesis using assms(1) by (auto simp: heap_ok_def)
  qed
  then have "set (map fst xs) \<subseteq> bud.live (kmem k)" by auto
  moreover have "finite (bud.live (kmem k))" using finite_subset [OF live_within] by simp
  ultimately have "card (set (map fst xs)) \<le> card (bud.live (kmem k))" by (intro card_mono)
  then have "length xs \<le> HEAP_SIZE"
    using card_live [of "kmem k"] distinct_card [OF assms(3)] by simp
  then show ?thesis by (simp add: buddy_consts)
qed

lemma queue_rep_qcells:
  assumes "heap_ok k" and "queue_rep k q xs"
  shows "qcells k q = xs"
proof -
  obtain r where r: "queues k q = Some r" "chain (qnodes k) (q_head r) xs" "distinct (map fst xs)"
    "q_size r = of_nat (length xs)"
    using assms(2) by (auto simp: queue_rep_def)
  have "unat (q_size r) = length xs"
    using chain_length [OF assms(1) r(2,3)] r(4) by (simp add: unat_of_nat_small)
  then show ?thesis using r chain_walk by (simp add: qcells_def)
qed

lemma queue_inv_rep:
  assumes "queue_inv k" and "queues k q = Some r"
  shows "chain (qnodes k) (q_head r) (qcells k q)" and "distinct (map fst (qcells k q))"
    and "q_tail r = (if qcells k q = [] then NULL else fst (last (qcells k q)))"
    and "unat (q_size r) = length (qcells k q)"
    and "q_size r = of_nat (length (qcells k q))"
proof -
  have rep: "queue_rep k q (qcells k q)" using assms by (auto simp: queue_inv_def)
  then show c: "chain (qnodes k) (q_head r) (qcells k q)" and d: "distinct (map fst (qcells k q))"
    and "q_tail r = (if qcells k q = [] then NULL else fst (last (qcells k q)))"
    and s: "q_size r = of_nat (length (qcells k q))"
    using assms(2) by (auto simp: queue_rep_def)
  show "unat (q_size r) = length (qcells k q)"
    using chain_length [OF _ c d] assms(1) s by (simp add: unat_of_nat_small)
qed

lemma qcells_outside [simp]: "queues k q = None \<Longrightarrow> qcells k q = []"
  by (simp add: qcells_def)

lemma qcells_nodes:
  assumes "queue_inv k" and "a \<in> fst ` set (qcells k q)"
  shows "qnodes k a \<noteq> None" and "a \<noteq> NULL"
  using assms queue_inv_rep(1) [OF assms(1), of q] chain_defined by (cases "queues k q"; fastforce)+

text \<open>
  The one argument behind every operation: an operation on queue \<open>q\<close> that leaves the nodes
  of the other queues alone and makes \<open>q\<close> a queue with cells \<open>xs\<close> keeps the invariant.
\<close>

lemma queue_inv_update:
  assumes inv: "queue_inv k" and ok: "heap_ok k'" and upd: "queues k' = (queues k)(q := r)"
    and rep: "r \<noteq> None \<Longrightarrow> queue_rep k' q xs" and gone: "r = None \<Longrightarrow> xs = []"
    and others: "\<And>q' a. q' \<noteq> q \<Longrightarrow> a \<in> fst ` set (qcells k q') \<Longrightarrow>
      qnodes k' a = qnodes k a \<and> a \<notin> fst ` set xs"
  shows "queue_inv k'" and "qcells k' = (qcells k)(q := xs)"
proof -
  have rep': "queue_rep k' q' (qcells k q')" if neq: "q' \<noteq> q" and some: "queues k q' \<noteq> None" for q'
  proof -
    obtain r' where r': "queues k q' = Some r'" using some by auto
    have "chain (qnodes k') (q_head r') (qcells k q')"
      using queue_inv_rep(1) [OF inv r'] others [OF neq]
        chain_frame [of "qcells k q'" "qnodes k'" "qnodes k"] by blast
    then show ?thesis using queue_inv_rep [OF inv r'] r' upd neq by (simp add: queue_rep_def)
  qed
  have q: "qcells k' q = xs"
    using rep gone queue_rep_qcells [OF ok] upd by (cases r) auto
  have q': "qcells k' q' = qcells k q'" if neq: "q' \<noteq> q" for q'
    using rep' [OF neq] queue_rep_qcells [OF ok] upd neq by (cases "queues k q'") auto
  show cells: "qcells k' = (qcells k)(q := xs)" using q q' by auto
  have "queue_rep k' p (qcells k' p)" if "p \<in> dom (queues k')" for p
    using rep rep' [of p] that by (cases "p = q") (auto simp: cells upd split: if_splits)
  moreover have "fst ` set (qcells k' p) \<inter> fst ` set (qcells k' p') = {}" if neq: "p \<noteq> p'" for p p'
  proof -
    have "fst ` set (qcells k p) \<inter> fst ` set (qcells k p') = {}"
      using inv neq unfolding queue_inv_def by metis
    moreover have "fst ` set xs \<inter> fst ` set (qcells k q') = {}" if "q' \<noteq> q" for q'
      using others [OF that] by blast
    ultimately show ?thesis using neq by (simp add: cells Int_commute)
  qed
  ultimately show "queue_inv k'" using ok by (simp add: queue_inv_def)
qed

section \<open>What the operations do\<close>

text \<open>The queue operations touch the memory manager, the queues and their nodes only.\<close>

definition queue_frame :: "kernel \<Rightarrow> kernel \<Rightarrow> bool" where
  "queue_frame k k' \<longleftrightarrow> k' = k\<lparr>kmem := kmem k', queues := queues k', qnodes := qnodes k'\<rparr>"

lemma queue_frame_refl [simp]: "queue_frame k k"
  by (simp add: queue_frame_def)

lemma queue_frame_trans: "queue_frame k k' \<Longrightarrow> queue_frame k' k'' \<Longrightarrow> queue_frame k k''"
  unfolding queue_frame_def by (cases k; cases k'; cases k'') simp

lemma objects_at_frame:
  assumes "queue_frame k k'"
  shows "objects_at k' x + of_bool (x \<in> dom (queues k)) + of_bool (x \<in> dom (qnodes k)) =
    objects_at k x + of_bool (x \<in> dom (queues k')) + of_bool (x \<in> dom (qnodes k'))"
  using assms unfolding queue_frame_def by (cases k; cases k') (simp add: objects_at_def dom_def)

lemma object_live:
  "heap_ok k \<Longrightarrow> queues k q = Some r \<Longrightarrow> q \<noteq> NULL"
  "heap_ok k \<Longrightarrow> qnodes k q = Some n \<Longrightarrow> q \<noteq> NULL"
  "heap_ok k \<Longrightarrow> procs k q = Some pr \<Longrightarrow> q \<noteq> NULL"
  "heap_ok k \<Longrightarrow> sems k q = Some sm \<Longrightarrow> q \<noteq> NULL"
  "heap_ok k \<Longrightarrow> pipeobjs k q = Some pp \<Longrightarrow> q \<noteq> NULL"
  using heap_ok_null [of k] by (auto simp: objects_at_def intro!: gr0I)

lemma qcells_kmem [simp]: "qcells (k\<lparr>kmem := m\<rparr>) = qcells k"
  by (auto simp: qcells_def fun_eq_iff split: option.splits)

lemma queue_rep_kmem [simp]: "queue_rep (k\<lparr>kmem := m\<rparr>) q xs = queue_rep k q xs"
  by (simp add: queue_rep_def)

lemma queue_inv_kmem: "queue_inv k \<Longrightarrow> heap_ok (k\<lparr>kmem := m\<rparr>) \<Longrightarrow> queue_inv (k\<lparr>kmem := m\<rparr>)"
  by (simp add: queue_inv_def)

lemma queue_create_spec:
  assumes "queue_inv k"
  shows "\<exists>q k'. queue_create k = Some (q, k') \<and> queue_inv k' \<and> queue_frame k k' \<and>
    qelems k' = qelems k \<and> (q = NULL \<longrightarrow> queues k' = queues k) \<and>
    (q \<noteq> NULL \<longrightarrow> objects_at k q = 0 \<and> dom (queues k') = insert q (dom (queues k)))"
  using queue_inv_heap [OF assms]
proof (cases rule: kalloc_cases [of k QUEUE_SIZE])
  case (null m)
  then show ?thesis
    using queue_inv_kmem [OF assms null(2)]
    by (auto simp: queue_create_def queue_frame_def qelems_def fun_eq_iff)
next
  case (block q m)
  let ?r = "\<lparr>q_head = NULL, q_tail = NULL, q_size = 0\<rparr>"
  define k' where "k' = k\<lparr>kmem := m, queues := (queues k)(q \<mapsto> ?r)\<rparr>"
  have run: "queue_create k = Some (q, k')" using block(1,2) by (simp add: queue_create_def k'_def)
  have new: "queues k q = None" using block(3) by (simp add: objects_at_def)
  have "heap_ok k'"
    using block(4,5) queue_inv_heap [OF assms] block(3)
  proof (rule heap_ok_insert)
    show "objects_at k' x = objects_at k x + of_bool (x = q)" for x
      using objects_at_new(1) [of "k\<lparr>kmem := m\<rparr>" q ?r x] block(3) by (simp add: k'_def)
  qed (simp add: k'_def)
  then have "queue_inv k'" "qcells k' = (qcells k)(q := [])"
    using queue_inv_update [OF assms, of k' q "Some ?r" "[]"] by (simp_all add: k'_def queue_rep_def)
  then show ?thesis
    using run block(2,3) new by (auto simp: queue_frame_def qelems_def fun_eq_iff k'_def)
qed

lemma queue_push_spec:
  assumes inv: "queue_inv k" and q: "queues k q = Some r"
  shows "\<exists>b k'. queue_push q x k = Some (b, k') \<and> queue_inv k' \<and> queue_frame k k' \<and>
    dom (queues k') = dom (queues k) \<and>
    qelems k' = (if b then (qelems k)(q := qelems k q @ [x]) else qelems k) \<and>
    b = (\<exists>p k1. kalloc QUEUE_NODE_SIZE k = Some (p, k1) \<and> p \<noteq> NULL) \<and>
    (\<forall>q'. q' \<noteq> q \<longrightarrow> qcells k' q' = qcells k q')"
  using queue_inv_heap [OF inv]
proof (cases rule: kalloc_cases [of k QUEUE_NODE_SIZE])
  case (null m)
  then show ?thesis
    using queue_inv_kmem [OF inv null(2)] object_live(1) [OF queue_inv_heap [OF inv] q]
    by (auto simp: queue_push_def queue_frame_def qelems_def fun_eq_iff)
next
  case (block p m)
  let ?n = "\<lparr>qn_data = x, qn_next = NULL\<rparr>" and ?xs = "qcells k q"
  note rep = queue_inv_rep [OF inv q]
  have q0: "q \<noteq> NULL" using object_live(1) [OF queue_inv_heap [OF inv] q] .
  have new: "qnodes k p = None" "queues k p = None" using block(3) by (simp_all add: objects_at_def)
  have fresh: "p \<notin> fst ` set (qcells k q')" for q' using qcells_nodes(1) [OF inv] new(1) by blast
  define r' where "r' = r\<lparr>q_head := (if ?xs = [] then p else q_head r), q_tail := p,
    q_size := q_size r + 1\<rparr>"
  define ns where "ns = (if ?xs = [] then (qnodes k)(p \<mapsto> ?n)
    else (qnodes k)(p \<mapsto> ?n, q_tail r \<mapsto> the (qnodes k (q_tail r))\<lparr>qn_next := p\<rparr>))"
  define k' where "k' = k\<lparr>kmem := m, queues := (queues k)(q \<mapsto> r'), qnodes := ns\<rparr>"
  have tail: "q_tail r \<in> fst ` set ?xs" "q_tail r = fst (last ?xs)" if "?xs \<noteq> []"
    using that rep(3) by auto
  have tl: "\<exists>t. qnodes k (q_tail r) = Some t" "q_tail r \<noteq> NULL" "q_tail r \<noteq> p" if "?xs \<noteq> []"
    using qcells_nodes [OF inv tail(1) [OF that]] fresh [of q] tail(1) [OF that] by auto
  have run: "queue_push q x k = Some (True, k')"
    using block(1,2) q q0 rep(3) tl new
    by (cases "?xs = []") (auto simp: queue_push_def k'_def ns_def r'_def)
  have frame: "queue_frame k k'" by (simp add: queue_frame_def k'_def)
  have doms: "dom (queues k') = dom (queues k)" "dom (qnodes k') = insert p (dom (qnodes k))"
    using q tl by (auto simp: k'_def ns_def)
  have "heap_ok k'"
    using block(4,5) queue_inv_heap [OF inv] block(3)
  proof (rule heap_ok_insert)
    show "objects_at k' a = objects_at k a + of_bool (a = p)" for a
      using objects_at_frame [OF frame, of a] doms new by (auto simp: of_bool_def split: if_splits)
  qed (simp add: k'_def)
  moreover have "chain ns (q_head r') (?xs @ [(p, x)])"
  proof (cases "?xs = []")
    case True
    then show ?thesis using block(2) by (simp add: ns_def r'_def)
  next
    case False
    then show ?thesis
      using chain_append_node [OF rep(1) False rep(2) fresh block(2)] tl(1) [OF False] tail(2) [OF False]
      by (auto simp: ns_def r'_def)
  qed
  then have "queue_rep k' q (?xs @ [(p, x)])"
    using rep(2,5) fresh [of q] by (auto simp: queue_rep_def k'_def r'_def)
  moreover have "qnodes k' a = qnodes k a \<and> a \<notin> fst ` set (?xs @ [(p, x)])"
    if "q' \<noteq> q" "a \<in> fst ` set (qcells k q')" for q' a
  proof -
    have "fst ` set (qcells k q') \<inter> fst ` set ?xs = {}" using inv that(1) by (auto simp: queue_inv_def)
    then have "a \<notin> fst ` set ?xs" using that(2) by blast
    moreover have "a \<noteq> p" using fresh that(2) by blast
    ultimately show ?thesis using tail(1) by (auto simp: k'_def ns_def)
  qed
  ultimately have "queue_inv k'" "qcells k' = (qcells k)(q := ?xs @ [(p, x)])"
    using queue_inv_update [OF inv, of k' q "Some r'" "?xs @ [(p, x)]"] by (simp_all add: k'_def)
  then show ?thesis using run frame doms(1) block(1,2) by (auto simp: qelems_def fun_eq_iff)
qed

lemma queues_upd_triv:
  "queues k q = Some r \<Longrightarrow> k\<lparr>queues := (queues k)(q \<mapsto> r), qnodes := ns\<rparr> = k\<lparr>qnodes := ns\<rparr>"
  "queues k q = Some r \<Longrightarrow> k\<lparr>queues := (queues k)(q \<mapsto> r), kmem := m, qnodes := ns\<rparr> = k\<lparr>kmem := m, qnodes := ns\<rparr>"
  "queues k q = Some r \<Longrightarrow> k\<lparr>kmem := m, queues := (queues k)(q \<mapsto> r), qnodes := ns\<rparr> = k\<lparr>kmem := m, qnodes := ns\<rparr>"
  by (cases k, simp add: map_upd_triv)+

lemma queue_upd_order:
  "k\<lparr>qnodes := ns, queues := qs\<rparr> = k\<lparr>queues := qs, qnodes := ns\<rparr>"
  "k\<lparr>queues := qs, kmem := m\<rparr> = k\<lparr>kmem := m, queues := qs\<rparr>"
  "k\<lparr>qnodes := ns, kmem := m\<rparr> = k\<lparr>kmem := m, qnodes := ns\<rparr>"
  by simp_all

lemma heap_ok_frame:
  assumes "heap_ok k" and "queue_frame k k'" and "kmem k' = kmem k"
    and "dom (queues k') = dom (queues k)" and "dom (qnodes k') = dom (qnodes k)"
  shows "heap_ok k'"
  using assms objects_at_frame [OF assms(2)] by (simp add: heap_ok_def)

lemma free_node_spec:
  assumes "heap_ok k" and "qnodes k p \<noteq> None"
  obtains m where "free_node p k = Some (k\<lparr>kmem := m, qnodes := (qnodes k)(p := None)\<rparr>)"
    "heap_ok (k\<lparr>kmem := m, qnodes := (qnodes k)(p := None)\<rparr>)"
    "\<exists>a m'. a \<noteq> NULL \<and> mem_alloc QUEUE_NODE_SIZE m = Some (a, m')"
proof -
  have obj: "objects_at k p \<noteq> 0" using assms(2) by (simp add: objects_at_def)
  obtain m where m: "kfree p k = Some (k\<lparr>kmem := m\<rparr>)" "buddy_inv m"
    "bud.live m = bud.live (kmem k) - {p}"
    using kfree_object [OF assms(1) obj] by blast
  have run: "free_node p k = Some (k\<lparr>kmem := m, qnodes := (qnodes k)(p := None)\<rparr>)"
    using m(1) assms(2) by (simp add: free_node_def)
  have "heap_ok (k\<lparr>kmem := m, qnodes := (qnodes k)(p := None)\<rparr>)"
    using m(2,3) assms(1) obj
  proof (rule heap_ok_remove)
    show "objects_at (k\<lparr>kmem := m, qnodes := (qnodes k)(p := None)\<rparr>) x = objects_at k x - of_bool (x = p)" for x
      using objects_at_gone(2) [OF assms, of x] by (simp add: objects_at_def)
  qed simp
  moreover obtain a m' where "kalloc QUEUE_NODE_SIZE (k\<lparr>kmem := m\<rparr>) = Some (a, k\<lparr>kmem := m, kmem := m'\<rparr>)"
    "a \<noteq> NULL"
    by (rule kalloc_after_kfree [OF assms(1) obj m(1), of QUEUE_NODE_SIZE])
      (simp_all add: QUEUE_NODE_SIZE_def)
  then have "\<exists>a m'. a \<noteq> NULL \<and> mem_alloc QUEUE_NODE_SIZE m = Some (a, m')"
    by (auto simp: kalloc_def)
  ultimately show ?thesis using that [OF run] by blast
qed

text \<open>
  Taking the node \<open>b\<close> out of a queue, the common end of \<open>queue_pop\<close> and \<open>queue_remove\<close>:
  the links around it and the header are already those of the shorter queue.
\<close>

lemma unlink_node:
  assumes inv: "queue_inv k" and q: "queues k q = Some r" and cells: "qcells k q = ys @ (b, y) # zs"
    and k1: "queue_frame k k1" "kmem k1 = kmem k" "queues k1 = (queues k)(q \<mapsto> r1)"
    and dom1: "dom (qnodes k1) = dom (qnodes k)"
    and ch: "chain ((qnodes k1)(b := None)) (q_head r1) (ys @ zs)"
    and tail: "q_tail r1 = (if ys @ zs = [] then NULL else fst (last (ys @ zs)))"
    and sz: "q_size r1 = q_size r"
    and same: "\<And>a. a \<notin> fst ` set (qcells k q) \<Longrightarrow> qnodes k1 a = qnodes k a"
  obtains m k' where "free_node b k1 = Some (k1\<lparr>kmem := m, qnodes := (qnodes k1)(b := None)\<rparr>)"
    "k' = k1\<lparr>kmem := m, qnodes := (qnodes k1)(b := None), queues := (queues k1)(q \<mapsto> r1\<lparr>q_size := q_size r1 - 1\<rparr>)\<rparr>"
    "queue_inv k'" "queue_frame k k'" "dom (queues k') = dom (queues k)"
    "qelems k' = (qelems k)(q := map snd (ys @ zs))"
    "\<exists>a k2. a \<noteq> NULL \<and> kalloc QUEUE_NODE_SIZE k' = Some (a, k2)" "qcells k' = (qcells k)(q := ys @ zs)"
proof -
  have ok1: "heap_ok k1"
    using heap_ok_frame [OF queue_inv_heap [OF inv] k1(1,2) _ dom1] k1(3) q by auto
  have b: "b \<in> fst ` set (qcells k q)" using cells by simp
  then have "qnodes k1 b \<noteq> None" using qcells_nodes(1) [OF inv b] dom1 by auto
  from free_node_spec [OF ok1 this] obtain m where
    m: "free_node b k1 = Some (k1\<lparr>kmem := m, qnodes := (qnodes k1)(b := None)\<rparr>)"
      "heap_ok (k1\<lparr>kmem := m, qnodes := (qnodes k1)(b := None)\<rparr>)"
      "\<exists>a m'. a \<noteq> NULL \<and> mem_alloc QUEUE_NODE_SIZE m = Some (a, m')" by metis
  define k' where "k' = k1\<lparr>kmem := m, qnodes := (qnodes k1)(b := None),
    queues := (queues k1)(q \<mapsto> r1\<lparr>q_size := q_size r1 - 1\<rparr>)\<rparr>"
  have ok: "heap_ok k'"
    using m(2) by (rule heap_ok_frame) (auto simp: k'_def queue_frame_def k1(3))
  have frame: "queue_frame k k'"
    using k1(1) by (rule queue_frame_trans) (simp add: queue_frame_def k'_def)
  note rep = queue_inv_rep [OF inv q]
  have rep': "queue_rep k' q (ys @ zs)"
    using ch tail rep(2,5) by (auto simp: queue_rep_def k'_def cells sz)
  have others: "qnodes k' a = qnodes k a \<and> a \<notin> fst ` set (ys @ zs)"
    if neq: "q' \<noteq> q" and a: "a \<in> fst ` set (qcells k q')" for q' a
  proof -
    have "fst ` set (qcells k q') \<inter> fst ` set (qcells k q) = {}"
      using inv neq unfolding queue_inv_def by metis
    then have "a \<notin> fst ` set (qcells k q)" using a by blast
    then show ?thesis using same b by (auto simp: k'_def cells)
  qed
  have "queue_inv k'" "qcells k' = (qcells k)(q := ys @ zs)"
    using queue_inv_update [OF inv ok, of q "Some (r1\<lparr>q_size := q_size r1 - 1\<rparr>)" "ys @ zs"] rep' others
    by (simp_all add: k'_def k1(3))
  moreover have "\<exists>a k2. a \<noteq> NULL \<and> kalloc QUEUE_NODE_SIZE k' = Some (a, k2)"
    using m(3) by (auto simp: kalloc_def k'_def)
  moreover have "dom (queues k') = dom (queues k)" using q by (auto simp: k'_def k1(3))
  ultimately show ?thesis
    using that [OF m(1) k'_def] frame by (simp add: qelems_def fun_eq_iff)
qed

lemma queue_pop_spec:
  assumes inv: "queue_inv k" and q: "queues k q = Some r"
  shows "\<exists>k'. queue_pop q k = Some (case qelems k q of [] \<Rightarrow> NULL | x # _ \<Rightarrow> x, k') \<and> queue_inv k' \<and>
    queue_frame k k' \<and> dom (queues k') = dom (queues k) \<and>
    qelems k' = (qelems k)(q := tl (qelems k q)) \<and> (qelems k q = [] \<longrightarrow> k' = k) \<and>
    (qelems k q \<noteq> [] \<longrightarrow> (\<exists>a k2. a \<noteq> NULL \<and> kalloc QUEUE_NODE_SIZE k' = Some (a, k2)))"
proof (cases "qcells k q")
  case Nil
  then show ?thesis
    using q queue_inv_rep(1) [OF inv q] inv object_live(1) [OF _ q]
    by (auto simp: queue_pop_def qelems_def)
next
  case (Cons c zs)
  obtain b y where c: "c = (b, y)" by (cases c)
  note rep = queue_inv_rep [OF inv q] and q0 = object_live(1) [OF queue_inv_heap [OF inv] q]
  obtain n where n: "q_head r = b" "b \<noteq> NULL" "qnodes k b = Some n" "qn_data n = y"
    "chain (qnodes k) (qn_next n) zs"
    using rep(1) by (auto simp: Cons c)
  define r1 where "r1 = r\<lparr>q_head := qn_next n, q_tail := (if qn_next n = NULL then NULL else q_tail r)\<rparr>"
  define k1 where "k1 = k\<lparr>queues := (queues k)(q \<mapsto> r1)\<rparr>"
  have zs: "(qn_next n = NULL) = (zs = [])" using n(5) by (cases zs) auto
  have b: "b \<notin> fst ` set zs" using rep(2) by (simp add: Cons c)
  obtain m k' where u: "free_node b k1 = Some (k1\<lparr>kmem := m, qnodes := (qnodes k1)(b := None)\<rparr>)"
    "k' = k1\<lparr>kmem := m, qnodes := (qnodes k1)(b := None), queues := (queues k1)(q \<mapsto> r1\<lparr>q_size := q_size r1 - 1\<rparr>)\<rparr>"
    "queue_inv k'" "queue_frame k k'" "dom (queues k') = dom (queues k)"
    "qelems k' = (qelems k)(q := map snd ([] @ zs))"
    "\<exists>a k2. a \<noteq> NULL \<and> kalloc QUEUE_NODE_SIZE k' = Some (a, k2)"
    by (rule unlink_node [OF inv q, of "[]" b y zs k1 r1])
      (use n(5) b zs rep(3) in \<open>auto simp: Cons c k1_def r1_def queue_frame_def\<close>)
  have "queue_pop q k = Some (y, k')"
    using q q0 n u(1,2) by (cases "qn_next n = NULL") (simp_all add: queue_pop_def k1_def r1_def)
  then show ?thesis using u(3-7) by (simp add: qelems_def Cons c)
qed

text \<open>The cells of a queue without the first one that holds \<open>x\<close>.\<close>

fun drop_first :: "addr \<Rightarrow> (addr \<times> addr) list \<Rightarrow> (addr \<times> addr) list" where
  "drop_first x [] = []"
| "drop_first x (c # cs) = (if snd c = x then cs else c # drop_first x cs)"

lemma drop_first_append: "x \<notin> snd ` set ys \<Longrightarrow> drop_first x (ys @ zs) = ys @ drop_first x zs"
  by (induction ys) auto

lemma queue_remove_loop_spec:
  assumes inv: "queue_inv k" and q: "queues k q = Some r"
    and "qcells k q = ys @ zs" and "x \<notin> snd ` set ys" and "chain (qnodes k) cur zs"
  shows "\<exists>k'. queue_remove_loop q x (if ys = [] then NULL else fst (last ys)) cur k =
      Some (x \<in> snd ` set zs, k') \<and> queue_inv k' \<and>
    queue_frame k k' \<and> dom (queues k') = dom (queues k) \<and>
    qelems k' = (qelems k)(q := remove1 x (qelems k q)) \<and>
    (x \<in> set (qelems k q) \<longrightarrow> (\<exists>a k2. a \<noteq> NULL \<and> kalloc QUEUE_NODE_SIZE k' = Some (a, k2))) \<and>
    (x \<notin> set (qelems k q) \<longrightarrow> k' = k) \<and> qcells k' = (qcells k)(q := drop_first x (qcells k q))"
  using assms(3-5)
proof (induction zs arbitrary: ys cur)
  case Nil
  then have "x \<notin> set (qelems k q)" by (simp add: qelems_def)
  then show ?case using Nil inv drop_first_append [of x ys "[]"] by (auto simp: queue_remove_loop.simps remove1_idem)
next
  case (Cons c zs)
  obtain b y where c: "c = (b, y)" by (cases c)
  note rep = queue_inv_rep [OF inv q]
  obtain n where n: "cur = b" "b \<noteq> NULL" "qnodes k b = Some n" "qn_data n = y"
    "chain (qnodes k) (qn_next n) zs"
    using Cons.prems(3) by (auto simp: c)
  show ?case
  proof (cases "y = x")
    case False
    then have "queue_remove_loop q x (if ys = [] then NULL else fst (last ys)) cur k =
      queue_remove_loop q x b (qn_next n) k"
      using n by (subst queue_remove_loop.simps) simp
    then show ?thesis
      using Cons.IH [of "ys @ [c]" "qn_next n"] Cons.prems n c False by simp
  next
    case True
    define r1 where "r1 = r\<lparr>q_head := (if ys = [] then qn_next n else q_head r),
      q_tail := (if zs = [] then (if ys = [] then NULL else fst (last ys)) else q_tail r)\<rparr>"
    define ns where "ns = (if ys = [] then qnodes k
      else (qnodes k)(fst (last ys) \<mapsto> the (qnodes k (fst (last ys)))\<lparr>qn_next := qn_next n\<rparr>))"
    define k1 where "k1 = k\<lparr>queues := (queues k)(q \<mapsto> r1), qnodes := ns\<rparr>"
    have cells: "qcells k q = ys @ (b, y) # zs" using Cons.prems(1) c by simp
    have prev: "\<exists>t. qnodes k (fst (last ys)) = Some t" "fst (last ys) \<noteq> NULL" "fst (last ys) \<noteq> b"
      if "ys \<noteq> []"
    proof -
      have "fst (last ys) \<in> fst ` set (qcells k q)" using that by (simp add: cells)
      from qcells_nodes [OF inv this] show "\<exists>t. qnodes k (fst (last ys)) = Some t" "fst (last ys) \<noteq> NULL"
        by auto
      have "fst (last ys) \<in> fst ` set ys" using that by simp
      moreover have "b \<notin> fst ` set ys" using rep(2) by (simp add: cells)
      ultimately show "fst (last ys) \<noteq> b" by metis
    qed
    have bz: "b \<notin> fst ` set zs" using rep(2) by (simp add: cells)
    have tail: "(b = q_tail r) = (zs = [])"
      using rep(3) bz by (cases zs rule: rev_cases) (auto simp: cells)
    have ch: "chain (ns(b := None)) (q_head r1) (ys @ zs)"
    proof (cases "ys = []")
      case True
      then show ?thesis using n(5) bz by (simp add: ns_def r1_def)
    next
      case False
      then obtain t where "qnodes k (fst (last ys)) = Some t" using prev(1) by blast
      then show ?thesis
        using chain_remove_node [of "qnodes k" "q_head r" ys b y zs n t] rep(1,2) False n(3)
        by (simp add: cells ns_def r1_def)
    qed
    obtain m k' where u: "free_node b k1 = Some (k1\<lparr>kmem := m, qnodes := (qnodes k1)(b := None)\<rparr>)"
      "k' = k1\<lparr>kmem := m, qnodes := (qnodes k1)(b := None), queues := (queues k1)(q \<mapsto> r1\<lparr>q_size := q_size r1 - 1\<rparr>)\<rparr>"
      "queue_inv k'" "queue_frame k k'" "dom (queues k') = dom (queues k)"
      "qelems k' = (qelems k)(q := map snd (ys @ zs))"
      "\<exists>a k2. a \<noteq> NULL \<and> kalloc QUEUE_NODE_SIZE k' = Some (a, k2)" "qcells k' = (qcells k)(q := ys @ zs)"
    proof (rule unlink_node [OF inv q cells, of k1 r1])
      show "chain ((qnodes k1)(b := None)) (q_head r1) (ys @ zs)" using ch by (simp add: k1_def)
      show "dom (qnodes k1) = dom (qnodes k)" using prev(1) by (auto simp: k1_def ns_def)
      show "qnodes k1 a = qnodes k a" if "a \<notin> fst ` set (qcells k q)" for a
        using that by (auto simp: k1_def ns_def cells)
      show "q_tail r1 = (if ys @ zs = [] then NULL else fst (last (ys @ zs)))"
        using rep(3) by (auto simp: r1_def cells)
    qed (auto simp: k1_def queue_frame_def r1_def)
    have "queue_remove_loop q x (if ys = [] then NULL else fst (last ys)) cur k = Some (True, k')"
      using q n True prev tail u(1,2)
      by (subst queue_remove_loop.simps) (cases "ys = []"; cases "zs = []"; auto simp: k1_def r1_def ns_def queues_upd_triv queue_upd_order)
    moreover have "map snd (ys @ zs) = remove1 x (qelems k q)"
      using Cons.prems(2) True by (auto simp: qelems_def cells remove1_append)
    moreover have "x \<in> set (qelems k q)" using True by (simp add: qelems_def cells)
    moreover have "drop_first x (qcells k q) = ys @ zs"
      using Cons.prems(2) True by (simp add: cells drop_first_append)
    ultimately show ?thesis
      using u(3-8) c True by (intro exI [of _ k'] conjI) simp_all
  qed
qed

lemma queue_remove_spec:
  assumes inv: "queue_inv k" and q: "queues k q = Some r"
  shows "\<exists>k'. queue_remove q x k = Some (x \<in> set (qelems k q), k') \<and> queue_inv k' \<and>
    queue_frame k k' \<and> dom (queues k') = dom (queues k) \<and>
    qelems k' = (qelems k)(q := remove1 x (qelems k q)) \<and>
    (x \<in> set (qelems k q) \<longrightarrow> (\<exists>a k2. a \<noteq> NULL \<and> kalloc QUEUE_NODE_SIZE k' = Some (a, k2))) \<and>
    (x \<notin> set (qelems k q) \<longrightarrow> k' = k) \<and> qcells k' = (qcells k)(q := drop_first x (qcells k q))"
  using queue_remove_loop_spec [OF inv q, of "[]" "qcells k q" x "q_head r"] queue_inv_rep(1) [OF inv q]
    q object_live(1) [OF queue_inv_heap [OF inv] q]
  by (simp add: queue_remove_def qelems_def)

lemma queue_clear_loop_spec:
  assumes "heap_ok k" and "chain (qnodes k) cur zs" and "distinct (map fst zs)"
  shows "\<exists>k'. queue_clear_loop None cur k = Some k' \<and> heap_ok k' \<and> queue_frame k k' \<and>
    queues k' = queues k \<and> qnodes k' = qnodes k |` (- fst ` set zs)"
  using assms
proof (induction zs arbitrary: k cur)
  case Nil
  then show ?case by (simp add: queue_clear_loop.simps)
next
  case (Cons c zs)
  obtain b y where c: "c = (b, y)" by (cases c)
  obtain n where n: "cur = b" "b \<noteq> NULL" "qnodes k b = Some n" "chain (qnodes k) (qn_next n) zs"
    using Cons.prems(2) by (auto simp: c)
  have b: "b \<notin> fst ` set zs" "distinct (map fst zs)" using Cons.prems(3) by (simp_all add: c)
  obtain m where m: "free_node b k = Some (k\<lparr>kmem := m, qnodes := (qnodes k)(b := None)\<rparr>)"
    "heap_ok (k\<lparr>kmem := m, qnodes := (qnodes k)(b := None)\<rparr>)"
    using free_node_spec [OF Cons.prems(1), of b] n(3) by auto
  let ?k1 = "k\<lparr>kmem := m, qnodes := (qnodes k)(b := None)\<rparr>"
  have "chain (qnodes ?k1) (qn_next n) zs" using n(4) b(1) by simp
  from Cons.IH [OF m(2) this b(2)] obtain k' where
    k': "queue_clear_loop None (qn_next n) ?k1 = Some k'" "heap_ok k'" "queue_frame ?k1 k'"
      "queues k' = queues ?k1" "qnodes k' = qnodes ?k1 |` (- fst ` set zs)" by blast
  have "queue_clear_loop None cur k = Some k'"
    using n m(1) k'(1) by (subst queue_clear_loop.simps) simp
  moreover have "queue_frame k k'"
    using queue_frame_trans [OF _ k'(3), of k] by (simp add: queue_frame_def)
  moreover have "qnodes k' = qnodes k |` (- fst ` set (c # zs))"
    using k'(5) by (auto simp: c restrict_map_def fun_eq_iff)
  ultimately show ?case using k'(2,4) by (intro exI [of _ k']) simp
qed

lemma queue_clear_spec:
  assumes inv: "queue_inv k" and q: "queues k q = Some r"
  shows "\<exists>k'. queue_clear q None k = Some k' \<and> queue_inv k' \<and> queue_frame k k' \<and>
    dom (queues k') = dom (queues k) \<and> qelems k' = (qelems k)(q := []) \<and>
    qnodes k' = qnodes k |` (- fst ` set (qcells k q))"
proof -
  note rep = queue_inv_rep [OF inv q]
  let ?r = "\<lparr>q_head = NULL, q_tail = NULL, q_size = 0\<rparr>"
  obtain k1 where k1: "queue_clear_loop None (q_head r) k = Some k1" "heap_ok k1" "queue_frame k k1"
    "queues k1 = queues k" "qnodes k1 = qnodes k |` (- fst ` set (qcells k q))"
    using queue_clear_loop_spec [OF queue_inv_heap [OF inv] rep(1,2)] by blast
  define k' where "k' = k1\<lparr>queues := (queues k1)(q \<mapsto> ?r)\<rparr>"
  have run: "queue_clear q None k = Some k'"
    using k1(1,4) q object_live(1) [OF queue_inv_heap [OF inv] q]
    by (simp add: queue_clear_def k'_def)
  have "queue_frame k1 k'" by (simp add: queue_frame_def k'_def)
  then have frame: "queue_frame k k'" using queue_frame_trans [OF k1(3)] by blast
  have ok: "heap_ok k'"
    using k1(2) \<open>queue_frame k1 k'\<close> by (rule heap_ok_frame) (use q in \<open>auto simp: k'_def k1(4)\<close>)
  have others: "qnodes k' a = qnodes k a" if neq: "q' \<noteq> q" and a: "a \<in> fst ` set (qcells k q')" for q' a
  proof -
    have "fst ` set (qcells k q') \<inter> fst ` set (qcells k q) = {}"
      using inv neq unfolding queue_inv_def by metis
    then have "a \<notin> fst ` set (qcells k q)" using a by blast
    then show ?thesis by (simp add: k'_def k1(5))
  qed
  have "queue_inv k'" "qcells k' = (qcells k)(q := [])"
    using queue_inv_update [OF inv ok, of q "Some ?r" "[]"] others
    by (simp_all add: k'_def k1(4) queue_rep_def)
  moreover have "dom (queues k') = dom (queues k)" using q by (auto simp: k'_def k1(4))
  moreover have "qnodes k' = qnodes k |` (- fst ` set (qcells k q))" by (simp add: k'_def k1(5))
  ultimately show ?thesis using run frame by (simp add: qelems_def fun_eq_iff)
qed

lemma queue_destroy_spec:
  assumes inv: "queue_inv k" and q: "queues k q = Some r"
  shows "\<exists>k'. queue_destroy q None k = Some k' \<and> queue_inv k' \<and> queue_frame k k' \<and>
    dom (queues k') = dom (queues k) - {q} \<and> qelems k' = (qelems k)(q := []) \<and>
    qnodes k' = qnodes k |` (- fst ` set (qcells k q))"
proof -
  obtain k1 where k1: "queue_clear q None k = Some k1" "queue_inv k1" "queue_frame k k1"
    "dom (queues k1) = dom (queues k)" "qelems k1 = (qelems k)(q := [])"
    "qnodes k1 = qnodes k |` (- fst ` set (qcells k q))"
    using queue_clear_spec [OF assms] by blast
  have q1: "queues k1 q \<noteq> None" using k1(4) q by auto
  then have obj: "objects_at k1 q \<noteq> 0" by (simp add: objects_at_def)
  obtain m where m: "kfree q k1 = Some (k1\<lparr>kmem := m\<rparr>)" "buddy_inv m"
    "bud.live m = bud.live (kmem k1) - {q}"
    using kfree_object [OF queue_inv_heap [OF k1(2)] obj] by blast
  define k' where "k' = k1\<lparr>kmem := m, queues := (queues k1)(q := None)\<rparr>"
  have run: "queue_destroy q None k = Some k'"
    using k1(1) m(1) q1 object_live(1) [OF queue_inv_heap [OF inv] q]
    by (simp add: queue_destroy_def free_queue_def k'_def)
  have ok: "heap_ok k'"
    using m(2,3) queue_inv_heap [OF k1(2)] obj
  proof (rule heap_ok_remove)
    show "objects_at k' x = objects_at k1 x - of_bool (x = q)" for x
      using objects_at_gone(1) [OF queue_inv_heap [OF k1(2)] q1, of x]
      by (simp add: objects_at_def k'_def)
  qed (simp add: k'_def)
  have cells: "qcells k1 q = []" using fun_cong [OF k1(5), of q] by (simp add: qelems_def)
  have "queue_inv k'" "qcells k' = (qcells k1)(q := [])"
    using queue_inv_update [OF k1(2) ok, of q None "[]"] by (simp_all add: k'_def)
  moreover have "qelems k' = (qelems k)(q := [])"
    using calculation(2) k1(5) cells by (simp add: qelems_def fun_eq_iff)
  moreover have "queue_frame k k'"
    using k1(3) by (rule queue_frame_trans) (simp add: queue_frame_def k'_def)
  moreover have "dom (queues k') = dom (queues k) - {q}" using k1(4) by (auto simp: k'_def)
  moreover have "qnodes k' = qnodes k |` (- fst ` set (qcells k q))" by (simp add: k'_def k1(6))
  ultimately show ?thesis using run by blast
qed

lemma queue_size_spec:
  "queue_inv k \<Longrightarrow> queues k q = Some r \<Longrightarrow> queue_size q k = Some (of_nat (length (qelems k q)))"
  using queue_inv_rep(5) [of k q r] object_live(1) [of k q r]
  by (simp add: queue_size_def qelems_def)

lemma queue_is_empty_spec:
  assumes "queue_inv k" and "queues k q = Some r"
  shows "queue_is_empty q k = Some (qelems k q = [])"
proof -
  have "(q_size r = 0) = (unat (q_size r) = 0)" by (metis unat_0 unat_eq_zero)
  then show ?thesis
    using queue_inv_rep(4) [OF assms] object_live(1) [OF queue_inv_heap [OF assms(1)] assms(2)] assms(2)
    by (simp add: queue_is_empty_def qelems_def)
qed

lemma queue_peek_spec:
  assumes "queue_inv k" and "queues k q = Some r"
  shows "queue_peek q k = Some (case qelems k q of [] \<Rightarrow> NULL | x # _ \<Rightarrow> x)"
  using queue_inv_rep(1) [OF assms] assms object_live(1) [OF queue_inv_heap [OF assms(1)] assms(2)]
  by (cases "qcells k q") (auto simp: queue_peek_def qelems_def)

text \<open>An iterator started on a queue returns its elements in order, one per call.\<close>

fun iterate :: "nat \<Rightarrow> addr \<Rightarrow> kernel \<Rightarrow> addr list option" where
  "iterate 0 it k = Some []"
| "iterate (Suc n) it k =
     (if queue_iter_has_next it then do {
        (x, it) \<leftarrow> queue_iter_next it k;
        xs \<leftarrow> iterate n it k;
        Some (x # xs)
      } else Some [])"

lemma iterate_chain:
  "chain (qnodes k) it xs \<Longrightarrow> length xs \<le> n \<Longrightarrow> iterate n it k = Some (map snd xs)"
proof (induction xs arbitrary: n it)
  case Nil
  then show ?case by (cases n) (auto simp: queue_iter_has_next_def)
next
  case (Cons x xs)
  then show ?case
    by (cases n) (auto simp: queue_iter_has_next_def queue_iter_next_def)
qed

section \<open>The contract, met\<close>

text \<open>There is room for one more node when the memory manager can serve it.\<close>

definition queue_room :: "kernel \<Rightarrow> bool" where
  "queue_room k \<longleftrightarrow> (\<exists>p m. mem_alloc QUEUE_NODE_SIZE (kmem k) = Some (p, m) \<and> p \<noteq> NULL)"

lemma queue_room_kalloc:
  "queue_room k = (\<exists>p k1. kalloc QUEUE_NODE_SIZE k = Some (p, k1) \<and> p \<noteq> NULL)"
  by (auto simp: queue_room_def kalloc_def)

interpretation kq: queue_ops queue_push queue_pop queue_remove qelems "\<lambda>k. dom (queues k)"
  queue_room queue_frame queue_inv
proof unfold_locales
  fix s s' s'' :: kernel
  show "queue_frame s s" by simp
  show "queue_frame s s' \<Longrightarrow> queue_frame s' s'' \<Longrightarrow> queue_frame s s''" by (rule queue_frame_trans)
next
  fix s q x
  assume inv: "queue_inv s" and "q \<in> dom (queues s)"
  then obtain r where q: "queues s q = Some r" by blast
  show "\<exists>s'. queue_push q x s = Some (queue_room s, s') \<and> queue_inv s' \<and> queue_frame s s' \<and>
    dom (queues s') = dom (queues s) \<and>
    qelems s' = (if queue_room s then (qelems s)(q := qelems s q @ [x]) else qelems s)"
    using queue_push_spec [OF inv q, of x] unfolding queue_room_kalloc by blast
  show "\<exists>s'. queue_pop q s = Some (case qelems s q of [] \<Rightarrow> NULL | x # _ \<Rightarrow> x, s') \<and> queue_inv s' \<and>
    queue_frame s s' \<and> dom (queues s') = dom (queues s) \<and>
    qelems s' = (qelems s)(q := tl (qelems s q)) \<and>
    (qelems s q \<noteq> [] \<longrightarrow> queue_room s') \<and> (qelems s q = [] \<longrightarrow> s' = s)"
    using queue_pop_spec [OF inv q] unfolding queue_room_kalloc by blast
  show "\<exists>s'. queue_remove q x s = Some (x \<in> set (qelems s q), s') \<and> queue_inv s' \<and>
    queue_frame s s' \<and> dom (queues s') = dom (queues s) \<and>
    qelems s' = (qelems s)(q := remove1 x (qelems s q)) \<and>
    (x \<in> set (qelems s q) \<longrightarrow> queue_room s') \<and> (x \<notin> set (qelems s q) \<longrightarrow> s' = s)"
    using queue_remove_spec [OF inv q, of x] unfolding queue_room_kalloc by blast
qed

lemma boot_kernel_queues [simp]: "queue_inv boot_kernel"
proof -
  have "qcells boot_kernel q = []" for q
    by (simp add: qcells_def boot_kernel_def bss_kernel_def)
  then show ?thesis
    by (simp add: queue_inv_def) (simp add: boot_kernel_def bss_kernel_def)
qed

lemma queue_create_spare:
  assumes "queue_inv k" and "spare (Suc n) (kmem k)"
  obtains q k' where "queue_create k = Some (q, k')" "q \<noteq> NULL" "queue_inv k'" "queue_frame k k'"
    "qelems k' = qelems k" "objects_at k q = 0" "dom (queues k') = insert q (dom (queues k))"
    "spare n (kmem k')"
proof -
  obtain q m where m: "kalloc QUEUE_SIZE k = Some (q, k\<lparr>kmem := m\<rparr>)" "q \<noteq> NULL" "spare n m"
    by (rule kalloc_spare [OF queue_inv_heap [OF assms(1)] assms(2), of QUEUE_SIZE])
      (simp_all add: QUEUE_SIZE_def)
  then have "\<exists>k'. queue_create k = Some (q, k') \<and> spare n (kmem k')"
    by (simp add: queue_create_def)
  then obtain k' where k': "queue_create k = Some (q, k')" "spare n (kmem k')" by blast
  then show ?thesis using queue_create_spec [OF assms(1)] m(2) that [OF k'(1) m(2)] by auto
qed

lemma boot_queue:
  obtains q k where "queue_create boot_kernel = Some (q, k)" "q \<noteq> NULL" "queue_inv k"
    "q \<in> dom (queues k)" "qelems k q = []" "spare 31 (kmem k)"
proof -
  have s: "spare (Suc 31) (kmem boot_kernel)" using spare_boot by simp
  obtain q k where k: "queue_create boot_kernel = Some (q, k)" "q \<noteq> NULL" "queue_inv k"
    "qelems k = qelems boot_kernel" "dom (queues k) = insert q (dom (queues boot_kernel))" "spare 31 (kmem k)"
    by (rule queue_create_spare [OF boot_kernel_queues s])
  have "qelems k q = []" unfolding k(4) by (simp add: qelems_def qcells_def boot_kernel_def bss_kernel_def)
  then show ?thesis using that [OF k(1-3)] k(5,6) by simp
qed

lemma queue_push_spare:
  assumes "queue_inv k" and "q \<in> dom (queues k)" and "spare (Suc n) (kmem k)"
  obtains k' where "queue_push q x k = Some (True, k')" "queue_inv k'" "queue_frame k k'"
    "dom (queues k') = dom (queues k)" "qelems k' = (qelems k)(q := qelems k q @ [x])" "spare n (kmem k')"
proof -
  obtain p m where m: "mem_alloc QUEUE_NODE_SIZE (kmem k) = Some (p, m)" "p \<noteq> NULL" "spare n m"
    by (rule spare_alloc [OF assms(3), of QUEUE_NODE_SIZE]) (simp_all add: QUEUE_NODE_SIZE_def)
  then have "queue_room k" by (auto simp: queue_room_def)
  then obtain k' where k': "queue_push q x k = Some (True, k')" "queue_inv k'" "queue_frame k k'"
    "dom (queues k') = dom (queues k)" "qelems k' = (qelems k)(q := qelems k q @ [x])"
    using kq.push_room [OF assms(1,2)] by metis
  moreover have "kmem k' = m"
    using k'(1) m(1,2) by (auto simp: queue_push_def kalloc_def split: if_splits)
  ultimately show ?thesis using that m(3) by simp
qed

section \<open>Writes outside the queues\<close>

text \<open>Neither the queues nor the correspondence of objects and blocks see such writes.\<close>

lemma queue_inv_cong:
  assumes "queue_inv k" and "queues k' = queues k" and "qnodes k' = qnodes k" and "heap_ok k'"
  shows "queue_inv k'" and "qelems k' = qelems k"
proof -
  have cells: "qcells k' = qcells k" unfolding qcells_def assms(2,3) ..
  show "qelems k' = qelems k" unfolding qelems_def cells ..
  show "queue_inv k'"
    using assms(1,4) unfolding queue_inv_def cells queue_rep_def assms(2,3) by blast
qed

lemma qelems_cong:
  assumes "queues k' = queues k" and "qnodes k' = qnodes k"
  shows "qelems k' = qelems k"
  unfolding qelems_def qcells_def assms ..

lemma qelems_write [simp]:
  "qelems (k\<lparr>kmem := m\<rparr>) = qelems k"
  "qelems (k\<lparr>procs := ps\<rparr>) = qelems k"
  "qelems (k\<lparr>sems := ss\<rparr>) = qelems k"
  "qelems (k\<lparr>pipeobjs := pp\<rparr>) = qelems k"
  "qelems (k\<lparr>sleepers := sl\<rparr>) = qelems k"
  "qelems (k\<lparr>strs := st\<rparr>) = qelems k"
  "qelems (k\<lparr>argvs := av\<rparr>) = qelems k"
  "qelems (k\<lparr>raws := rw\<rparr>) = qelems k"
  "qelems (k\<lparr>pcb := t\<rparr>) = qelems k"
  "qelems (k\<lparr>sch_current := c\<rparr>) = qelems k"
  "qelems (k\<lparr>sch_total_ticks := n\<rparr>) = qelems k"
  "qelems (k\<lparr>sch_context_switches := n\<rparr>) = qelems k"
  "qelems (k\<lparr>sch_ready_queues := rq\<rparr>) = qelems k"
  "qelems (k\<lparr>sch_idle := c\<rparr>) = qelems k"
  "qelems (k\<lparr>registered_semaphores := c\<rparr>) = qelems k"
  "qelems (k\<lparr>registry_lock := b\<rparr>) = qelems k"
  "qelems (k\<lparr>pipes := cs\<rparr>) = qelems k"
  "qelems (k\<lparr>next_pipe_id := b\<rparr>) = qelems k"
  "qelems (k\<lparr>pipe_sem_name := bs\<rparr>) = qelems k"
  "qelems (k\<lparr>ticks := n\<rparr>) = qelems k"
  "qelems (k\<lparr>sleeping_queue := c\<rparr>) = qelems k"
  "qelems (k\<lparr>shell_created := f\<rparr>) = qelems k"
  by (rule qelems_cong; simp)+

lemma heap_ok_write [simp]:
  "procs k p \<noteq> None \<Longrightarrow> heap_ok (k\<lparr>procs := (procs k)(p \<mapsto> pr)\<rparr>) = heap_ok k"
  "sems k p \<noteq> None \<Longrightarrow> heap_ok (k\<lparr>sems := (sems k)(p \<mapsto> sm)\<rparr>) = heap_ok k"
  "pipeobjs k p \<noteq> None \<Longrightarrow> heap_ok (k\<lparr>pipeobjs := (pipeobjs k)(p \<mapsto> pp)\<rparr>) = heap_ok k"
  "strs k p \<noteq> None \<Longrightarrow> heap_ok (k\<lparr>strs := (strs k)(p \<mapsto> bs)\<rparr>) = heap_ok k"
  "argvs k p \<noteq> None \<Longrightarrow> heap_ok (k\<lparr>argvs := (argvs k)(p \<mapsto> as)\<rparr>) = heap_ok k"
  by (simp_all add: heap_ok_def)

lemma heap_ok_pcb [simp]:
  "pcb k = Some (a, t) \<Longrightarrow> heap_ok (k\<lparr>pcb := Some (a, t')\<rparr>) = heap_ok k"
  by (simp add: heap_ok_def objects_at_def)

lemma heap_ok_static [simp]:
  "heap_ok (k\<lparr>sch_current := c\<rparr>) = heap_ok k"
  "heap_ok (k\<lparr>sch_total_ticks := n\<rparr>) = heap_ok k"
  "heap_ok (k\<lparr>sch_context_switches := n\<rparr>) = heap_ok k"
  "heap_ok (k\<lparr>sch_ready_queues := rq\<rparr>) = heap_ok k"
  "heap_ok (k\<lparr>sch_idle := c\<rparr>) = heap_ok k"
  "heap_ok (k\<lparr>registered_semaphores := c\<rparr>) = heap_ok k"
  "heap_ok (k\<lparr>registry_lock := b\<rparr>) = heap_ok k"
  "heap_ok (k\<lparr>pipes := cs\<rparr>) = heap_ok k"
  "heap_ok (k\<lparr>next_pipe_id := b\<rparr>) = heap_ok k"
  "heap_ok (k\<lparr>pipe_sem_name := bs\<rparr>) = heap_ok k"
  "heap_ok (k\<lparr>ticks := n\<rparr>) = heap_ok k"
  "heap_ok (k\<lparr>sleeping_queue := c\<rparr>) = heap_ok k"
  "heap_ok (k\<lparr>shell_created := f\<rparr>) = heap_ok k"
  by (simp_all add: heap_ok_def objects_at_def)

lemma queue_inv_write [simp]:
  "procs k p \<noteq> None \<Longrightarrow> queue_inv k \<Longrightarrow> queue_inv (k\<lparr>procs := (procs k)(p \<mapsto> pr)\<rparr>)"
  "sems k p \<noteq> None \<Longrightarrow> queue_inv k \<Longrightarrow> queue_inv (k\<lparr>sems := (sems k)(p \<mapsto> sm)\<rparr>)"
  "pipeobjs k p \<noteq> None \<Longrightarrow> queue_inv k \<Longrightarrow> queue_inv (k\<lparr>pipeobjs := (pipeobjs k)(p \<mapsto> pp)\<rparr>)"
  "strs k p \<noteq> None \<Longrightarrow> queue_inv k \<Longrightarrow> queue_inv (k\<lparr>strs := (strs k)(p \<mapsto> bs)\<rparr>)"
  "argvs k p \<noteq> None \<Longrightarrow> queue_inv k \<Longrightarrow> queue_inv (k\<lparr>argvs := (argvs k)(p \<mapsto> as)\<rparr>)"
  "pcb k = Some (a, t) \<Longrightarrow> queue_inv k \<Longrightarrow> queue_inv (k\<lparr>pcb := Some (a, t')\<rparr>)"
  "queue_inv k \<Longrightarrow> queue_inv (k\<lparr>sch_current := c\<rparr>)"
  "queue_inv k \<Longrightarrow> queue_inv (k\<lparr>sch_total_ticks := n\<rparr>)"
  "queue_inv k \<Longrightarrow> queue_inv (k\<lparr>sch_context_switches := n\<rparr>)"
  "queue_inv k \<Longrightarrow> queue_inv (k\<lparr>sch_ready_queues := rq\<rparr>)"
  "queue_inv k \<Longrightarrow> queue_inv (k\<lparr>sch_idle := c\<rparr>)"
  "queue_inv k \<Longrightarrow> queue_inv (k\<lparr>registered_semaphores := c\<rparr>)"
  "queue_inv k \<Longrightarrow> queue_inv (k\<lparr>registry_lock := b\<rparr>)"
  "queue_inv k \<Longrightarrow> queue_inv (k\<lparr>pipes := cs\<rparr>)"
  "queue_inv k \<Longrightarrow> queue_inv (k\<lparr>next_pipe_id := b\<rparr>)"
  "queue_inv k \<Longrightarrow> queue_inv (k\<lparr>pipe_sem_name := bs\<rparr>)"
  "queue_inv k \<Longrightarrow> queue_inv (k\<lparr>ticks := n\<rparr>)"
  "queue_inv k \<Longrightarrow> queue_inv (k\<lparr>sleeping_queue := c\<rparr>)"
  "queue_inv k \<Longrightarrow> queue_inv (k\<lparr>shell_created := f\<rparr>)"
  by (rule queue_inv_cong(1) [of k]; simp del: not_None_eq)+

lemma queue_room_write [simp]:
  "queue_room (k\<lparr>procs := ps\<rparr>) = queue_room k"
  "queue_room (k\<lparr>sems := ss\<rparr>) = queue_room k"
  "queue_room (k\<lparr>pcb := t\<rparr>) = queue_room k"
  "queue_room (k\<lparr>sch_current := c\<rparr>) = queue_room k"
  "queue_room (k\<lparr>sch_total_ticks := n\<rparr>) = queue_room k"
  "queue_room (k\<lparr>sch_context_switches := n\<rparr>) = queue_room k"
  by (simp_all add: queue_room_def)

section \<open>Properties\<close>

text \<open>
  C7. Any sequence of pushes, pops and removals on existing queues is defined, keeps the
  queues of the kernel well formed, changes no other part of the kernel, and returns what
  the same sequence returns on lists: the linked queues refine FIFO lists.
\<close>

theorem queue_calls_refine_fifo:
  assumes "queue_inv k" and "\<forall>c\<in>set cs. call_queue c \<in> dom (queues k)"
  shows "\<exists>tr k'. map fst tr = cs \<and> kq.queue_run k tr k' \<and> queue_inv k' \<and> queue_frame k k' \<and>
    fifo_run (qelems k) tr (qelems k')"
  using kq.queue_run_total [OF assms] kq.queue_run_refines [OF _ assms(1)] by blast

theorem queue_calls_refine_fifo_witness:
  "\<exists>q k1 tr k'. queue_create boot_kernel = Some (q, k1) \<and> q \<noteq> NULL \<and>
     map fst tr = [QPush q 7, QPush q 8, QPop q] \<and> kq.queue_run k1 tr k' \<and>
     fifo_run (qelems k1) tr (qelems k')"
proof -
  obtain q k1 where k1: "queue_create boot_kernel = Some (q, k1)" "q \<noteq> NULL" "queue_inv k1"
    "q \<in> dom (queues k1)" by (rule boot_queue)
  have "\<forall>c\<in>set [QPush q 7, QPush q 8, QPop q]. call_queue c \<in> dom (queues k1)" using k1(4) by simp
  from queue_calls_refine_fifo [OF k1(3) this] obtain tr k' where
    "map fst tr = [QPush q 7, QPush q 8, QPop q]" "kq.queue_run k1 tr k'"
    "fifo_run (qelems k1) tr (qelems k')" by (elim exE conjE)
  then show ?thesis
    using k1(1,2) by (intro exI [of _ q] exI [of _ k1] exI [of _ tr] exI [of _ k'] conjI)
qed

text \<open>
  A process moved from one queue to another is never lost, even when the heap is full:
  after a successful \<open>queue_pop\<close> the following \<open>queue_push\<close> succeeds, because the freed node
  can be allocated again.
\<close>

theorem queue_pop_then_push:
  assumes "queue_inv k" and "q \<in> dom (queues k)" and "q' \<in> dom (queues k)" and "qelems k q = x # xs"
  shows "\<exists>k1 k2. queue_pop q k = Some (x, k1) \<and> queue_push q' x k1 = Some (True, k2) \<and> queue_inv k2 \<and>
    qelems k2 = ((qelems k)(q := xs))(q' := ((qelems k)(q := xs)) q' @ [x])"
  using kq.pop_push [OF assms, of x] by blast

theorem queue_pop_then_push_witness:
  "\<exists>q k k1 k2. qelems k q = [7] \<and> queue_pop q k = Some (7, k1) \<and>
     queue_push q 7 k1 = Some (True, k2) \<and> qelems k2 q = [7]"
proof -
  obtain q k0 where k0: "queue_inv k0" "q \<in> dom (queues k0)" "qelems k0 q = []" "spare (Suc 30) (kmem k0)"
    by (rule boot_queue) simp
  obtain k where k: "queue_inv k" "dom (queues k) = dom (queues k0)"
    "qelems k = (qelems k0)(q := qelems k0 q @ [7])"
    by (rule queue_push_spare [OF k0(1,2,4)])
  have k': "q \<in> dom (queues k)" "qelems k q = [7]" using k k0 by auto
  obtain k1 k2 where "queue_pop q k = Some (7, k1)" "queue_push q 7 k1 = Some (True, k2)"
    "qelems k2 = ((qelems k)(q := []))(q := ((qelems k)(q := [])) q @ [7])"
    using queue_pop_then_push [OF k(1) k'(1) k'(1) k'(2)] by blast
  then show ?thesis using k'(2) by (intro exI conjI) (assumption | simp)+
qed

text \<open>
  \<open>queue_destroy\<close> gives back exactly the memory of the queue: afterwards the blocks in
  use are those from before without the header and the nodes of that queue.
\<close>

theorem queue_destroy_frees:
  assumes "queue_inv k" and "q \<in> dom (queues k)"
  shows "\<exists>k'. queue_destroy q None k = Some k' \<and> queue_inv k' \<and>
    bud.live (kmem k') = bud.live (kmem k) - insert q (fst ` set (qcells k q))"
proof -
  obtain r where "queues k q = Some r" using assms(2) by blast
  then obtain k' where k': "queue_destroy q None k = Some k'" "queue_inv k'" "queue_frame k k'"
    "dom (queues k') = dom (queues k) - {q}" "qnodes k' = qnodes k |` (- fst ` set (qcells k q))"
    using queue_destroy_spec [OF assms(1)] by metis
  have live: "(x \<in> bud.live (kmem j)) = (objects_at j x \<noteq> 0)" if "queue_inv j" for x j
    using queue_inv_heap [OF that] by (auto simp: heap_ok_def)
  have "(objects_at k' x \<noteq> 0) = (objects_at k x \<noteq> 0 \<and> x \<notin> insert q (fst ` set (qcells k q)))" for x
  proof -
    have cell: "x \<in> fst ` set (qcells k q) \<Longrightarrow> x \<in> dom (qnodes k)"
      using qcells_nodes(1) [OF assms(1)] by blast
    have ge: "of_bool (x \<in> dom (queues k)) + of_bool (x \<in> dom (qnodes k)) \<le> objects_at k x"
      by (simp add: objects_at_def dom_def)
    have "x \<in> dom (queues k') \<longleftrightarrow> x \<in> dom (queues k) \<and> x \<noteq> q" using k'(4) by blast
    moreover have "x \<in> dom (qnodes k') \<longleftrightarrow> x \<in> dom (qnodes k) \<and> x \<notin> fst ` set (qcells k q)"
      unfolding k'(5) dom_restrict by blast
    ultimately show ?thesis
      using objects_at_frame [OF k'(3), of x] ge cell assms(2)
        heap_ok_objects_le [OF queue_inv_heap [OF assms(1)], of x]
      by (cases "x \<in> dom (queues k)"; cases "x \<in> dom (qnodes k)"; cases "x = q";
          cases "x \<in> fst ` set (qcells k q)") (simp_all del: not_None_eq)
  qed
  then have "bud.live (kmem k') = bud.live (kmem k) - insert q (fst ` set (qcells k q))"
    using live [OF k'(2)] live [OF assms(1)] by blast
  then show ?thesis using k'(1,2) by blast
qed

theorem queue_destroy_frees_witness:
  "\<exists>q k k'. queue_create boot_kernel = Some (q, k) \<and> q \<noteq> NULL \<and> queue_destroy q None k = Some k' \<and>
     q \<notin> bud.live (kmem k')"
proof -
  obtain q k where k: "queue_create boot_kernel = Some (q, k)" "q \<noteq> NULL" "queue_inv k"
    "q \<in> dom (queues k)" by (rule boot_queue)
  then show ?thesis using queue_destroy_frees [OF k(3,4)] by auto
qed

end
