(* ===== verification/ProcTable.thy ===== *)
theory ProcTable
  imports Queue
begin

text \<open>
  The process table of \<open>Kernel/process/process.c\<close>: the array \<open>pcb->processes\<close> indexed by
  \<open>pid - 1\<close>, the pids of the running and of the foreground process, and the operations that
  only concern the table. Pids kept as \<open>int32_t\<close> are 32-bit words; \<open>-1\<close> stands for none.
\<close>

section \<open>Operations\<close>

definition PROCESS_FIRST_PID :: u32 where "PROCESS_FIRST_PID = 1"
definition PROCESS_MAX_PROCESSES :: u32 where "PROCESS_MAX_PROCESSES = 32"

text \<open>\<open>sizeof(pcb_t)\<close>: 32 pointers, a \<open>size_t\<close> and four \<open>int32_t\<close>.\<close>

definition PCB_SIZE :: u64 where "PCB_SIZE = 280"

lemmas pid_consts = PROCESS_FIRST_PID_def PROCESS_MAX_PROCESSES_def

definition init_pcb :: pcb_t where
  "init_pcb = \<lparr>pc_processes = replicate (unat PROCESS_MAX_PROCESSES) NULL,
     pc_process_count = 0, pc_running_pid = -1, pc_foreground_pid = -1,
     pc_init_pid = -1, pc_main_shell_pid = -1\<rparr>"

definition process_table_init :: "kernel \<Rightarrow> kernel option" where
  "process_table_init k =
     (if pcb k \<noteq> None then Some k
      else do {
        (p, k) \<leftarrow> kalloc PCB_SIZE k;
        if p = NULL then Some k
        else Some (k\<lparr>pcb := Some (p, init_pcb)\<rparr>)
      })"

definition PID_TO_INDEX :: "u32 \<Rightarrow> u32" where
  "PID_TO_INDEX pid = pid - PROCESS_FIRST_PID"

definition process_lookup :: "u32 \<Rightarrow> kernel \<Rightarrow> addr" where
  "process_lookup pid k =
     (case pcb k of
        None \<Rightarrow> NULL
      | Some (_, t) \<Rightarrow>
          if pid < PROCESS_FIRST_PID then NULL
          else
            let index = PID_TO_INDEX pid
            in if PROCESS_MAX_PROCESSES \<le> index then NULL else pc_processes t ! unat index)"

definition process_register :: "addr \<Rightarrow> kernel \<Rightarrow> (bool \<times> kernel) option" where
  "process_register process k =
     (case pcb k of
        None \<Rightarrow> Some (False, k)
      | Some (a, t) \<Rightarrow>
          if process = NULL then Some (False, k)
          else do {
            pr \<leftarrow> procs k process;
            if pr_pid pr < PROCESS_FIRST_PID then Some (False, k)
            else
              let index = PID_TO_INDEX (pr_pid pr)
              in if PROCESS_MAX_PROCESSES \<le> index then Some (False, k)
                 else if pc_processes t ! unat index \<noteq> NULL then Some (False, k)
                 else Some (True, k\<lparr>pcb := Some (a,
                        t\<lparr>pc_processes := (pc_processes t)[unat index := process],
                          pc_process_count := pc_process_count t + 1\<rparr>)\<rparr>)
          })"

definition process_unregister :: "u32 \<Rightarrow> kernel \<Rightarrow> kernel" where
  "process_unregister pid k =
     (case pcb k of
        None \<Rightarrow> k
      | Some (a, t) \<Rightarrow>
          if pid < PROCESS_FIRST_PID then k
          else
            let index = PID_TO_INDEX pid
            in if PROCESS_MAX_PROCESSES \<le> index then k
               else if pc_processes t ! unat index = NULL then k
               else
                 let t = (if pc_running_pid t = pid then t\<lparr>pc_running_pid := -1\<rparr> else t);
                     t = t\<lparr>pc_processes := (pc_processes t)[unat index := NULL]\<rparr>;
                     t = (if 0 < pc_process_count t
                          then t\<lparr>pc_process_count := pc_process_count t - 1\<rparr> else t)
                 in k\<lparr>pcb := Some (a, t)\<rparr>)"

definition process_set_running :: "addr \<Rightarrow> kernel \<Rightarrow> kernel option" where
  "process_set_running process k =
     (case pcb k of
        None \<Rightarrow> Some k
      | Some (a, t) \<Rightarrow>
          if process = NULL then Some (k\<lparr>pcb := Some (a, t\<lparr>pc_running_pid := -1\<rparr>)\<rparr>)
          else do {
            pr \<leftarrow> procs k process;
            Some (k\<lparr>pcb := Some (a, t\<lparr>pc_running_pid := pr_pid pr\<rparr>)\<rparr>)
          })"

definition get_pid :: "kernel \<Rightarrow> int" where
  "get_pid k =
     (case pcb k of
        None \<Rightarrow> -1
      | Some (_, t) \<Rightarrow>
          let current = sint (pc_running_pid t)
          in if current < 1 then -1
             else if 1 + 32 \<le> current then -1
             else current)"

text \<open>The loop over the array, from index \<open>i\<close> on.\<close>

fun allocate_pid_loop :: "addr list \<Rightarrow> u32 \<Rightarrow> u32" where
  "allocate_pid_loop [] i = 0"
| "allocate_pid_loop (p # ps) i =
     (if p = NULL then PROCESS_FIRST_PID + i else allocate_pid_loop ps (i + 1))"

definition allocate_pid :: "kernel \<Rightarrow> u32" where
  "allocate_pid k =
     (case pcb k of None \<Rightarrow> 0 | Some (_, t) \<Rightarrow> allocate_pid_loop (pc_processes t) 0)"

definition give_foreground_to :: "u32 \<Rightarrow> kernel \<Rightarrow> int \<times> kernel" where
  "give_foreground_to target_pid k =
     (case pcb k of
        None \<Rightarrow> (-1, k)
      | Some (a, t) \<Rightarrow>
          let current_pid = pc_running_pid t
          in if current_pid = -1 then (-1, k)
             else if pc_foreground_pid t \<noteq> current_pid then (-1, k)
             else if process_lookup target_pid k = NULL then (-1, k)
             else (0, k\<lparr>pcb := Some (a, t\<lparr>pc_foreground_pid := target_pid\<rparr>)\<rparr>))"

definition get_foreground_process_pid :: "kernel \<Rightarrow> int" where
  "get_foreground_process_pid k =
     (case pcb k of None \<Rightarrow> -1 | Some (_, t) \<Rightarrow> sint (pc_foreground_pid t))"

section \<open>Invariant\<close>

text \<open>
  The array has its 32 entries; a registered process sits at the index of its pid; the
  counter counts the entries in use.
\<close>

definition table_inv :: "kernel \<Rightarrow> bool" where
  "table_inv k \<longleftrightarrow>
     (case pcb k of
        None \<Rightarrow> True
      | Some (_, t) \<Rightarrow> length (pc_processes t) = 32 \<and>
          pc_process_count t = of_nat (length (filter (\<lambda>p. p \<noteq> NULL) (pc_processes t))) \<and>
          (\<forall>i<32. pc_processes t ! i \<noteq> NULL \<longrightarrow>
             (\<exists>pr. procs k (pc_processes t ! i) = Some pr \<and> pr_pid pr = of_nat (i + 1))))"

lemma index_bound: "\<not> PROCESS_MAX_PROCESSES \<le> i \<Longrightarrow> unat i < 32"
  by (simp add: PROCESS_MAX_PROCESSES_def not_le word_less_nat_alt)

lemma pid_of_index: "of_nat (unat (PID_TO_INDEX pid) + 1) = pid"
  by (simp add: PID_TO_INDEX_def PROCESS_FIRST_PID_def)

lemma count_update:
  assumes "i < length xs" and "xs ! i = NULL" and "x \<noteq> NULL"
  shows "length (filter (\<lambda>p. p \<noteq> (0::nat)) (xs[i := x])) = Suc (length (filter (\<lambda>p. p \<noteq> 0) xs))"
  using assms by (induction xs arbitrary: i) (auto split: nat.splits)

lemma count_update_null:
  assumes "i < length xs" and "xs ! i \<noteq> NULL"
  shows "Suc (length (filter (\<lambda>p. p \<noteq> (0::nat)) (xs[i := NULL]))) = length (filter (\<lambda>p. p \<noteq> 0) xs)"
  using assms by (induction xs arbitrary: i) (auto split: nat.splits)

section \<open>What the operations do\<close>

text \<open>The pids the table can hold.\<close>

definition valid_pid :: "u32 \<Rightarrow> bool" where
  "valid_pid pid \<longleftrightarrow> \<not> pid < PROCESS_FIRST_PID \<and> \<not> PROCESS_MAX_PROCESSES \<le> PID_TO_INDEX pid"

lemma valid_pid_iff: "valid_pid pid \<longleftrightarrow> 1 \<le> unat pid \<and> unat pid \<le> 32"
proof -
  have "unat (pid - 1) = unat pid - 1" if "1 \<le> unat pid"
    using that by (simp add: unat_sub word_le_nat_alt)
  then show ?thesis
    by (auto simp: valid_pid_def PID_TO_INDEX_def pid_consts not_less not_le word_less_nat_alt word_le_nat_alt)
qed

lemma process_lookup_some:
  "pcb k = Some (a, t) \<Longrightarrow>
   process_lookup pid k = (if valid_pid pid then pc_processes t ! unat (PID_TO_INDEX pid) else NULL)"
  by (simp add: process_lookup_def valid_pid_def Let_def)

lemma PID_TO_INDEX_inj [simp]: "unat (PID_TO_INDEX p) = unat (PID_TO_INDEX q) \<longleftrightarrow> p = q"
  unfolding PID_TO_INDEX_def word_unat_eq_iff [symmetric] by simp

lemma valid_pid_index: "valid_pid pid \<Longrightarrow> unat (PID_TO_INDEX pid) < 32"
  by (simp add: valid_pid_def index_bound)

lemma lookup_registered:
  assumes "table_inv k" and "process_lookup pid k \<noteq> NULL"
  shows "\<exists>pr. procs k (process_lookup pid k) = Some pr \<and> pr_pid pr = pid"
proof -
  obtain a t where t: "pcb k = Some (a, t)" using assms(2) by (cases "pcb k") (auto simp: process_lookup_def)
  then have v: "valid_pid pid" using assms(2) process_lookup_some by (auto split: if_splits)
  then show ?thesis
    using assms t valid_pid_index [OF v] pid_of_index [of pid] by (auto simp: table_inv_def process_lookup_some)
qed

text \<open>A successful registration: the entry was free and is now taken; nothing else changes.\<close>

lemma process_register_ok:
  assumes inv: "table_inv k" and p: "process \<noteq> NULL" "procs k process = Some pr"
    and pid: "pcb k \<noteq> None" "valid_pid (pr_pid pr)" "process_lookup (pr_pid pr) k = NULL"
  shows "\<exists>k'. process_register process k = Some (True, k') \<and> table_inv k' \<and>
    process_lookup (pr_pid pr) k' = process \<and>
    (\<forall>pid. pid \<noteq> pr_pid pr \<longrightarrow> process_lookup pid k' = process_lookup pid k)"
proof -
  obtain a t where t: "pcb k = Some (a, t)" using pid(1) by auto
  let ?i = "unat (PID_TO_INDEX (pr_pid pr))"
  let ?t = "t\<lparr>pc_processes := (pc_processes t)[?i := process], pc_process_count := pc_process_count t + 1\<rparr>"
  let ?k = "k\<lparr>pcb := Some (a, ?t)\<rparr>"
  have i: "?i < 32" using pid(2) by (rule valid_pid_index)
  have free: "pc_processes t ! ?i = NULL" using pid t by (simp add: process_lookup_some)
  have len: "length (pc_processes t) = 32"
    and ent: "\<forall>j<32. pc_processes t ! j \<noteq> NULL \<longrightarrow>
      (\<exists>pr. procs k (pc_processes t ! j) = Some pr \<and> pr_pid pr = of_nat (j + 1))"
    and cnt: "pc_process_count t = of_nat (length (filter (\<lambda>p. p \<noteq> NULL) (pc_processes t)))"
    using inv t by (auto simp: table_inv_def)
  have run: "process_register process k = Some (True, ?k)"
    using t p pid(2) free by (simp add: process_register_def valid_pid_def Let_def)
  have "\<exists>pr'. procs k (pc_processes ?t ! j) = Some pr' \<and> pr_pid pr' = of_nat (j + 1)"
    if "j < 32" "pc_processes ?t ! j \<noteq> NULL" for j
    using that ent len p pid_of_index [of "pr_pid pr"] by (cases "j = ?i") auto
  then have "table_inv ?k"
    using count_update [of ?i "pc_processes t" process] len i free p(1) cnt
    by (simp add: table_inv_def)
  then show ?thesis
    using run t len i pid(2) by (auto simp: process_lookup_some)
qed

lemma process_unregister_spec:
  assumes inv: "table_inv k"
  shows "table_inv (process_unregister pid k)"
    and "process_lookup pid (process_unregister pid k) = NULL"
    and "pid' \<noteq> pid \<Longrightarrow> process_lookup pid' (process_unregister pid k) = process_lookup pid' k"
proof -
  have "table_inv (process_unregister pid k) \<and> process_lookup pid (process_unregister pid k) = NULL \<and>
    (pid' \<noteq> pid \<longrightarrow> process_lookup pid' (process_unregister pid k) = process_lookup pid' k)"
    if "process_lookup pid k = NULL"
  proof -
    have "process_unregister pid k = k"
      using that by (auto simp: process_unregister_def process_lookup_def Let_def split: option.splits if_splits)
    then show ?thesis using inv that by simp
  qed
  moreover have "table_inv (process_unregister pid k) \<and> process_lookup pid (process_unregister pid k) = NULL \<and>
    (pid' \<noteq> pid \<longrightarrow> process_lookup pid' (process_unregister pid k) = process_lookup pid' k)"
    if nn: "process_lookup pid k \<noteq> NULL"
  proof -
    obtain a t where t: "pcb k = Some (a, t)" using nn by (cases "pcb k") (auto simp: process_lookup_def)
    let ?i = "unat (PID_TO_INDEX pid)"
    have v: "valid_pid pid" and used: "pc_processes t ! ?i \<noteq> NULL"
      using nn t by (auto simp: process_lookup_some split: if_splits)
    have i: "?i < 32" using v by (rule valid_pid_index)
    have len: "length (pc_processes t) = 32"
      and ent: "\<forall>j<32. pc_processes t ! j \<noteq> NULL \<longrightarrow>
        (\<exists>pr. procs k (pc_processes t ! j) = Some pr \<and> pr_pid pr = of_nat (j + 1))"
      and cnt: "pc_process_count t = of_nat (length (filter (\<lambda>p. p \<noteq> NULL) (pc_processes t)))"
      using inv t by (auto simp: table_inv_def)
    have c: "Suc (length (filter (\<lambda>p. p \<noteq> NULL) ((pc_processes t)[?i := NULL]))) =
      length (filter (\<lambda>p. p \<noteq> NULL) (pc_processes t))"
      using count_update_null [of ?i "pc_processes t"] len i used by simp
    have le: "length (filter (\<lambda>p. p \<noteq> NULL) (pc_processes t)) \<le> 32"
      using length_filter_le [of _ "pc_processes t"] len by metis
    have "unat (pc_process_count t) = length (filter (\<lambda>p. p \<noteq> NULL) (pc_processes t))"
      unfolding cnt using le by (intro unat_of_nat_small) simp
    then have "unat (pc_process_count t) \<noteq> 0" using c by linarith
    then have pos: "0 < pc_process_count t" by (metis unat_0 word_gt_0)
    obtain t' where t': "process_unregister pid k = k\<lparr>pcb := Some (a, t')\<rparr>"
      "pc_processes t' = (pc_processes t)[?i := NULL]" "pc_process_count t' = pc_process_count t - 1"
      using t v used pos
      by (cases "pc_running_pid t = pid") (auto simp: process_unregister_def valid_pid_def Let_def)
    have "pc_process_count t - 1 = of_nat (length (filter (\<lambda>p. p \<noteq> NULL) ((pc_processes t)[?i := NULL])))"
      unfolding cnt c [symmetric] by simp
    moreover have "\<exists>pr'. procs k (pc_processes t' ! j) = Some pr' \<and> pr_pid pr' = of_nat (j + 1)"
      if "j < 32" "pc_processes t' ! j \<noteq> NULL" for j
      using that ent len unfolding t'(2) by (cases "j = ?i") auto
    ultimately have "table_inv (k\<lparr>pcb := Some (a, t')\<rparr>)"
      using len t'(2,3) by (simp add: table_inv_def)
    then show ?thesis
      unfolding t'(1) using t len i v by (auto simp: process_lookup_some t'(2))
  qed
  ultimately show "table_inv (process_unregister pid k)"
    and "process_lookup pid (process_unregister pid k) = NULL"
    and "pid' \<noteq> pid \<Longrightarrow> process_lookup pid' (process_unregister pid k) = process_lookup pid' k"
    by blast+
qed

lemma allocate_pid_loop_spec:
  "allocate_pid_loop ps i =
   (if NULL \<in> set ps then PROCESS_FIRST_PID + (i + of_nat (length (takeWhile (\<lambda>p. p \<noteq> NULL) ps))) else 0)"
  by (induction ps arbitrary: i) (auto simp: algebra_simps)

lemma length_takeWhile_less: "x \<in> set xs \<Longrightarrow> \<not> P x \<Longrightarrow> length (takeWhile P xs) < length xs"
  by (induction xs) auto

lemma nth_takeWhile_sat: "i < length (takeWhile P xs) \<Longrightarrow> P (xs ! i)"
  by (metis nth_mem set_takeWhileD takeWhile_nth)

lemma allocate_pid_spec:
  assumes inv: "table_inv k" and "pcb k = Some (a, t)"
  shows "if allocate_pid k = 0 then (\<forall>p\<in>set (pc_processes t). p \<noteq> NULL)
    else valid_pid (allocate_pid k) \<and> process_lookup (allocate_pid k) k = NULL \<and>
      (\<forall>pid. valid_pid pid \<and> pid < allocate_pid k \<longrightarrow> process_lookup pid k \<noteq> NULL)"
proof -
  let ?ps = "pc_processes t" and ?n = "length (takeWhile (\<lambda>p. p \<noteq> NULL) (pc_processes t))"
  have len: "length ?ps = 32" using assms by (simp add: table_inv_def)
  have eq: "allocate_pid k = (if NULL \<in> set ?ps then of_nat (Suc ?n) else 0)"
    by (simp add: allocate_pid_def assms(2) allocate_pid_loop_spec PROCESS_FIRST_PID_def)
  show ?thesis
  proof (cases "NULL \<in> set ?ps")
    case False
    then show ?thesis unfolding eq by (metis (full_types))
  next
    case True
    then have n: "?n < 32" using length_takeWhile_less [of NULL ?ps "\<lambda>p. p \<noteq> NULL"] len by simp
    have at: "?ps ! ?n = NULL" using nth_length_takeWhile [of "\<lambda>p. p \<noteq> NULL" ?ps] n len by simp
    have u: "unat (allocate_pid k) = Suc ?n"
      unfolding eq using True n by (subst if_P) (simp_all add: unat_of_nat_small del: of_nat_Suc)
    then have v: "valid_pid (allocate_pid k)" using n by (simp add: valid_pid_iff)
    have idx: "unat (PID_TO_INDEX pid) = unat pid - 1" if "valid_pid pid" for pid
      using that by (simp add: valid_pid_iff PID_TO_INDEX_def PROCESS_FIRST_PID_def unat_sub word_le_nat_alt)
    have "process_lookup pid k \<noteq> NULL" if vp: "valid_pid pid" and lt: "pid < allocate_pid k" for pid
    proof -
      have "unat pid - 1 < ?n"
        using vp lt u unfolding valid_pid_iff word_less_nat_alt by linarith
      then have "?ps ! (unat pid - 1) \<noteq> NULL" by (rule nth_takeWhile_sat)
      then show ?thesis using vp assms(2) by (simp add: process_lookup_some idx)
    qed
    then show ?thesis using u v at assms(2) by (auto simp: process_lookup_some idx)
  qed
qed

section \<open>Properties\<close>

text \<open>
  C8. The life of a pid: a process created with a pid from \<open>allocate_pid\<close> can be registered;
  from then on \<open>process_lookup\<close> finds it under that pid, all other pids are looked up as
  before, and unregistering the pid restores every lookup.
\<close>

theorem pid_lifecycle:
  assumes "table_inv k" and "pcb k \<noteq> None" and "allocate_pid k \<noteq> 0"
    and "process \<noteq> NULL" and "procs k process = Some pr" and "pr_pid pr = allocate_pid k"
  shows "\<exists>k'. process_register process k = Some (True, k') \<and> table_inv k' \<and>
    process_lookup (pr_pid pr) k' = process \<and>
    (\<forall>pid. pid \<noteq> pr_pid pr \<longrightarrow> process_lookup pid k' = process_lookup pid k) \<and>
    (\<forall>pid. process_lookup pid (process_unregister (pr_pid pr) k') = process_lookup pid k)"
proof -
  obtain a t where t: "pcb k = Some (a, t)" using assms(2) by auto
  have pid: "valid_pid (pr_pid pr)" "process_lookup (pr_pid pr) k = NULL"
    using allocate_pid_spec [OF assms(1) t] assms(3,6) by auto
  obtain k' where k': "process_register process k = Some (True, k')" "table_inv k'"
    "process_lookup (pr_pid pr) k' = process"
    "\<forall>pid. pid \<noteq> pr_pid pr \<longrightarrow> process_lookup pid k' = process_lookup pid k"
    using process_register_ok [OF assms(1,4,5,2) pid] by blast
  have "process_lookup pid (process_unregister (pr_pid pr) k') = process_lookup pid k" for pid
    using process_unregister_spec [OF k'(2)] k'(4) pid(2) by (cases "pid = pr_pid pr") simp_all
  then show ?thesis using k' by blast
qed

definition table_kernel :: kernel where
  "table_kernel = boot_kernel\<lparr>pcb := Some (0x200000, init_pcb),
     procs := [0x300000 \<mapsto> zero_process\<lparr>pr_pid := 1\<rparr>]\<rparr>"

lemma table_kernel_facts:
  "table_inv table_kernel" "pcb table_kernel = Some (0x200000, init_pcb)" "allocate_pid table_kernel = 1"
  by (simp_all add: table_kernel_def table_inv_def init_pcb_def allocate_pid_def pid_consts
      allocate_pid_loop_spec)

theorem pid_lifecycle_witness:
  "\<exists>k'. process_register 0x300000 table_kernel = Some (True, k') \<and> process_lookup 1 k' = 0x300000 \<and>
     process_lookup 1 (process_unregister 1 k') = NULL"
proof -
  let ?pr = "zero_process\<lparr>pr_pid := 1\<rparr>"
  have p: "procs table_kernel 0x300000 = Some ?pr" by (simp add: table_kernel_def)
  have "process_lookup 1 table_kernel = NULL"
    by (simp add: table_kernel_facts(2) process_lookup_some init_pcb_def pid_consts PID_TO_INDEX_def)
  then show ?thesis
    using pid_lifecycle [OF table_kernel_facts(1) _ _ _ p] by (auto simp: table_kernel_facts)
qed

text \<open>
  \<open>allocate_pid\<close> returns the smallest free pid, and 0 only when all 32 entries of the
  table are taken.
\<close>

theorem allocate_pid_least:
  assumes "table_inv k" and "pcb k = Some (a, t)"
  shows "if allocate_pid k = 0 then \<forall>p\<in>set (pc_processes t). p \<noteq> NULL
    else 1 \<le> unat (allocate_pid k) \<and> unat (allocate_pid k) \<le> 32 \<and>
      process_lookup (allocate_pid k) k = NULL \<and>
      (\<forall>pid. 1 \<le> unat pid \<and> pid < allocate_pid k \<longrightarrow> process_lookup pid k \<noteq> NULL)"
proof -
  have "valid_pid pid" if "1 \<le> unat pid" "pid < allocate_pid k" "valid_pid (allocate_pid k)" for pid
    using that by (simp add: valid_pid_iff word_less_nat_alt)
  then show ?thesis
    using allocate_pid_spec [OF assms] valid_pid_iff [of "allocate_pid k"] by (auto split: if_splits)
qed

theorem allocate_pid_least_witness:
  "allocate_pid table_kernel \<noteq> 0 \<and> process_lookup (allocate_pid table_kernel) table_kernel = NULL"
  using allocate_pid_least [OF table_kernel_facts(1,2)] table_kernel_facts(3) by simp

end
