(* ===== verification/Scheduler.thy ===== *)
theory Scheduler
  imports ProcTable
begin

text \<open>
  The multi-level scheduler of \<open>Kernel/process/scheduler.c\<close> and the two transitions of
  \<open>Kernel/process/process.c\<close> that drive it, \<open>process_block\<close> and \<open>process_unblock\<close>. Level 0
  is the highest priority. \<open>schedule_tick\<close> receives the stack pointer of the interrupted
  context and returns the one to continue with; both are plain numbers here.
\<close>

section \<open>Operations\<close>

definition SCHEDULER_DEFAULT_QUANTUM :: u8 where "SCHEDULER_DEFAULT_QUANTUM = 4"
definition SCHEDULER_MAX_PRIORITY :: u8 where "SCHEDULER_MAX_PRIORITY = 0"
definition SCHEDULER_MIN_PRIORITY :: u8 where "SCHEDULER_MIN_PRIORITY = 5"
definition SCHEDULER_PRIORITY_LEVELS :: nat where "SCHEDULER_PRIORITY_LEVELS = 6"
definition SCHEDULER_AGING_THRESHOLD :: u64 where "SCHEDULER_AGING_THRESHOLD = 32"
definition SHELL_PRIORITY_THRESHOLD :: u8 where "SHELL_PRIORITY_THRESHOLD = SCHEDULER_MAX_PRIORITY + 1"

lemmas sched_consts =
  SCHEDULER_DEFAULT_QUANTUM_def SCHEDULER_MAX_PRIORITY_def SCHEDULER_MIN_PRIORITY_def
  SCHEDULER_PRIORITY_LEVELS_def SCHEDULER_AGING_THRESHOLD_def SHELL_PRIORITY_THRESHOLD_def

text \<open>\<open>process->field = ...\<close>: an assignment to fields of a process.\<close>

definition upd_proc :: "addr \<Rightarrow> (process \<Rightarrow> process) \<Rightarrow> kernel \<Rightarrow> kernel option" where
  "upd_proc p f k = do { pr \<leftarrow> procs k p; Some (k\<lparr>procs := (procs k)(p \<mapsto> f pr)\<rparr>) }"

definition priority_index :: "u8 \<Rightarrow> nat" where
  "priority_index priority =
     (let priority = (if SCHEDULER_MIN_PRIORITY < priority then SCHEDULER_MIN_PRIORITY else priority)
      in unat (priority - SCHEDULER_MAX_PRIORITY))"

definition queue_for_priority :: "u8 \<Rightarrow> kernel \<Rightarrow> (addr \<times> kernel) option" where
  "queue_for_priority priority k =
     (let index = priority_index priority;
          queue = sch_ready_queues k ! index
      in if queue = NULL then do {
           (queue, k) \<leftarrow> queue_create k;
           Some (queue, k\<lparr>sch_ready_queues := (sch_ready_queues k)[index := queue]\<rparr>)
         }
         else Some (queue, k))"

function priority_from_usage_loop :: "u8 \<Rightarrow> u32 \<Rightarrow> nat \<Rightarrow> u8" where
  "priority_from_usage_loop levels scaled_usage i =
     (if i < unat levels then
        (let threshold = (ucast SCHEDULER_DEFAULT_QUANTUM :: u32) * of_nat (i + 1)
         in if scaled_usage < threshold then SCHEDULER_MAX_PRIORITY + of_nat i
            else priority_from_usage_loop levels scaled_usage (i + 1))
      else SCHEDULER_MAX_PRIORITY + levels - 1)"
  by pat_completeness auto
termination
  by (relation "measure (\<lambda>(levels, s, i). unat levels - i)") auto

declare priority_from_usage_loop.simps [simp del]

definition priority_from_usage :: "u8 \<Rightarrow> u8" where
  "priority_from_usage ticks_used =
     (let ticks_used = (if SCHEDULER_DEFAULT_QUANTUM < ticks_used then SCHEDULER_DEFAULT_QUANTUM else ticks_used);
          levels = of_nat SCHEDULER_PRIORITY_LEVELS;
          scaled_usage = (ucast ticks_used :: u32) * ucast levels
      in priority_from_usage_loop levels scaled_usage 0)"

definition scheduler_should_age :: "addr \<Rightarrow> kernel \<Rightarrow> bool option" where
  "scheduler_should_age process k =
     (if process = NULL then Some False
      else if process = sch_idle k then Some False
      else do {
        pr \<leftarrow> procs k process;
        if pr_priority pr \<le> SCHEDULER_MAX_PRIORITY then Some False
        else Some (SCHEDULER_AGING_THRESHOLD \<le> sch_total_ticks k - pr_ready_since_tick pr)
      })"

text \<open>The inner loop of \<open>scheduler_age_ready\<close>, \<open>n\<close> iterations, and the loop over the levels.\<close>

fun age_items :: "nat \<Rightarrow> addr \<Rightarrow> kernel \<Rightarrow> kernel option" where
  "age_items 0 queue k = Some k"
| "age_items (Suc n) queue k = do {
     (process, k) \<leftarrow> queue_pop queue k;
     if process = NULL then Some k
     else do {
       pr \<leftarrow> procs k process;
       age \<leftarrow> (if pr_state pr = PROCESS_STATE_READY then scheduler_should_age process k else Some False);
       k \<leftarrow> (if age then do {
                k \<leftarrow> upd_proc process (\<lambda>pr. pr\<lparr>pr_priority := pr_priority pr - 1\<rparr>) k;
                k \<leftarrow> upd_proc process (\<lambda>pr.
                       if pr_is_shell pr \<and> pr_priority pr < SCHEDULER_MAX_PRIORITY
                       then pr\<lparr>pr_priority := SCHEDULER_MAX_PRIORITY\<rparr> else pr) k;
                k \<leftarrow> upd_proc process (\<lambda>pr. pr\<lparr>pr_ready_since_tick := sch_total_ticks k\<rparr>) k;
                pr \<leftarrow> procs k process;
                (target, k) \<leftarrow> queue_for_priority (pr_priority pr) k;
                (_, k) \<leftarrow> queue_push target process k;
                Some k
              }
              else do { (_, k) \<leftarrow> queue_push queue process k; Some k });
       age_items n queue k
     }
   }"

fun age_levels :: "u8 list \<Rightarrow> kernel \<Rightarrow> kernel option" where
  "age_levels [] k = Some k"
| "age_levels (priority # ps) k = do {
     (queue, k) \<leftarrow> queue_for_priority priority k;
     items \<leftarrow> queue_size queue k;
     k \<leftarrow> age_items (unat items) queue k;
     age_levels ps k
   }"

definition scheduler_age_ready :: "kernel \<Rightarrow> kernel option" where
  "scheduler_age_ready = age_levels [1, 2, 3, 4, 5]"

text \<open>\<open>while (queue_remove(queue, process)) removed = true;\<close>\<close>

partial_function (option) remove_every :: "addr \<Rightarrow> addr \<Rightarrow> bool \<Rightarrow> kernel \<Rightarrow> (bool \<times> kernel) option"
where
  "remove_every queue process removed k = do {
     (b, k) \<leftarrow> queue_remove queue process k;
     if b then remove_every queue process True k else Some (removed, k)
   }"

fun remove_levels :: "addr list \<Rightarrow> addr \<Rightarrow> bool \<Rightarrow> kernel \<Rightarrow> (bool \<times> kernel) option" where
  "remove_levels [] process removed k = Some (removed, k)"
| "remove_levels (queue # qs) process removed k =
     (if queue = NULL then remove_levels qs process removed k
      else do {
        (removed, k) \<leftarrow> remove_every queue process removed k;
        remove_levels qs process removed k
      })"

definition scheduler_remove_ready :: "addr \<Rightarrow> kernel \<Rightarrow> (bool \<times> kernel) option" where
  "scheduler_remove_ready process k =
     (if process = NULL \<or> process = sch_idle k then Some (False, k)
      else remove_levels (sch_ready_queues k) process False k)"

text \<open>The loop of \<open>scheduler_init\<close> that creates the ready queues.\<close>

fun init_ready_queues :: "nat list \<Rightarrow> kernel \<Rightarrow> kernel option" where
  "init_ready_queues [] k = Some k"
| "init_ready_queues (i # is) k = do {
     (queue, k) \<leftarrow> queue_create k;
     init_ready_queues is (k\<lparr>sch_ready_queues := (sch_ready_queues k)[i := queue]\<rparr>)
   }"

definition scheduler_add_ready :: "addr \<Rightarrow> kernel \<Rightarrow> kernel option" where
  "scheduler_add_ready process k =
     (if process = NULL then Some k
      else do {
        pr \<leftarrow> procs k process;
        k \<leftarrow> (if pr_state pr = PROCESS_STATE_READY
              then do { (_, k) \<leftarrow> scheduler_remove_ready process k; Some k } else Some k);
        k \<leftarrow> upd_proc process (\<lambda>pr. pr\<lparr>pr_state := PROCESS_STATE_READY\<rparr>) k;
        k \<leftarrow> (if process \<noteq> sch_idle k
              then upd_proc process (\<lambda>pr.
                     if pr_priority_fixed pr then pr\<lparr>pr_priority := pr_priority_requested pr\<rparr>
                     else
                       let pr = pr\<lparr>pr_priority := priority_from_usage (pr_last_quantum_ticks pr)\<rparr>
                       in if pr_is_shell pr \<and> SHELL_PRIORITY_THRESHOLD < pr_priority pr
                          then pr\<lparr>pr_priority := SHELL_PRIORITY_THRESHOLD\<rparr> else pr) k
              else Some k);
        k \<leftarrow> upd_proc process (\<lambda>pr.
               pr\<lparr>pr_remaining_quantum := SCHEDULER_DEFAULT_QUANTUM, pr_last_quantum_ticks := 0,
                  pr_ready_since_tick := sch_total_ticks k\<rparr>) k;
        pr \<leftarrow> procs k process;
        (queue, k) \<leftarrow> queue_for_priority (pr_priority pr) k;
        (_, k) \<leftarrow> queue_push queue process k;
        Some k
      })"

definition scheduler_current :: "kernel \<Rightarrow> addr" where
  "scheduler_current k = sch_current k"

definition scheduler_clear_current :: "addr \<Rightarrow> kernel \<Rightarrow> kernel" where
  "scheduler_clear_current process k =
     (if process \<noteq> NULL \<and> sch_current k = process then k\<lparr>sch_current := NULL\<rparr> else k)"

text \<open>
  The loop of \<open>schedule_tick\<close> that looks for the next process, from the highest level down:
  \<open>NULL\<close> when every level is exhausted. A popped process that is not ready is dropped, and so
  is the idle process.
\<close>

fun pick_next :: "u8 list \<Rightarrow> kernel \<Rightarrow> (addr \<times> kernel) option" where
  "pick_next [] k = Some (NULL, k)"
| "pick_next (priority # ps) k = do {
     (queue, k) \<leftarrow> queue_for_priority priority k;
     (next, k) \<leftarrow> queue_pop queue k;
     if next = NULL then pick_next ps k
     else do {
       pr \<leftarrow> procs k next;
       if pr_state pr \<noteq> PROCESS_STATE_READY then pick_next ps k
       else if next = sch_idle k then do {
         k \<leftarrow> upd_proc (sch_idle k) (\<lambda>pr. pr\<lparr>pr_state := PROCESS_STATE_READY\<rparr>) k;
         pick_next ps k
       }
       else Some (next, k)
     }
   }"

text \<open>The first half of \<open>schedule_tick\<close>: what becomes of the interrupted process.\<close>

definition tick_running :: "u64 \<Rightarrow> kernel \<Rightarrow> (bool \<times> kernel) option" where
  "tick_running current_rsp k =
     (let running = sch_current k
      in if running = NULL then Some (True, k)
         else do {
           k \<leftarrow> upd_proc running (\<lambda>pr. pr\<lparr>pr_rsp := current_rsp\<rparr>) k;
           if running = sch_idle k
           then do {
             k \<leftarrow> upd_proc running (\<lambda>pr. pr\<lparr>pr_state := PROCESS_STATE_READY\<rparr>) k;
             Some (True, k)
           }
           else do {
             pr \<leftarrow> procs k running;
             if pr_state pr \<noteq> PROCESS_STATE_RUNNING then do {
               k \<leftarrow> process_set_running NULL (k\<lparr>sch_current := NULL\<rparr>);
               Some (True, k)
             }
             else if 0 < pr_remaining_quantum pr then do {
               k \<leftarrow> upd_proc running (\<lambda>pr. pr\<lparr>pr_remaining_quantum := pr_remaining_quantum pr - 1\<rparr>) k;
               k \<leftarrow> upd_proc running (\<lambda>pr. pr\<lparr>pr_last_quantum_ticks :=
                      SCHEDULER_DEFAULT_QUANTUM - pr_remaining_quantum pr\<rparr>) k;
               Some (False, k)
             }
             else do {
               k \<leftarrow> scheduler_add_ready running k;
               k \<leftarrow> process_set_running NULL (k\<lparr>sch_current := NULL\<rparr>);
               Some (True, k)
             }
           }
         })"

text \<open>The end of \<open>schedule_tick\<close>: switch to \<open>next\<close>, or fall back on the idle process.\<close>

definition tick_switch :: "u64 \<Rightarrow> addr \<Rightarrow> kernel \<Rightarrow> (u64 \<times> kernel) option" where
  "tick_switch current_rsp next k =
     (if next \<noteq> NULL then do {
        k \<leftarrow> Some (k\<lparr>sch_current := next\<rparr>);
        k \<leftarrow> upd_proc next (\<lambda>pr. pr\<lparr>pr_state := PROCESS_STATE_RUNNING,
               pr_remaining_quantum := SCHEDULER_DEFAULT_QUANTUM - 1, pr_last_quantum_ticks := 1\<rparr>) k;
        k \<leftarrow> process_set_running next (k\<lparr>sch_context_switches := sch_context_switches k + 1\<rparr>);
        pr \<leftarrow> procs k next;
        Some (pr_rsp pr, k)
      }
      else if sch_idle k \<noteq> NULL then do {
        k \<leftarrow> upd_proc (sch_idle k)
               (\<lambda>pr. pr\<lparr>pr_rsp := current_rsp, pr_state := PROCESS_STATE_RUNNING\<rparr>) k;
        k \<leftarrow> Some (if sch_current k \<noteq> sch_idle k
                   then k\<lparr>sch_context_switches := sch_context_switches k + 1\<rparr> else k);
        k \<leftarrow> process_set_running (sch_idle k) (k\<lparr>sch_current := sch_idle k\<rparr>);
        pr \<leftarrow> procs k (sch_idle k);
        Some (pr_rsp pr, k)
      }
      else do {
        k \<leftarrow> process_set_running NULL k;
        Some (current_rsp, k)
      })"

definition schedule_tick :: "u64 \<Rightarrow> kernel \<Rightarrow> (u64 \<times> kernel) option" where
  "schedule_tick current_rsp k = do {
     (must_switch, k) \<leftarrow> tick_running current_rsp (k\<lparr>sch_total_ticks := sch_total_ticks k + 1\<rparr>);
     if \<not> must_switch then do {
       k \<leftarrow> process_set_running (sch_current k) k;
       Some (current_rsp, k)
     }
     else do {
       k \<leftarrow> scheduler_age_ready k;
       (next, k) \<leftarrow> pick_next [0, 1, 2, 3, 4, 5] k;
       tick_switch current_rsp next k
     }
   }"

definition scheduler_get_metrics :: "kernel \<Rightarrow> u64 \<times> u64" where
  "scheduler_get_metrics k = (sch_total_ticks k, sch_context_switches k)"

partial_function (option) for_each_node ::
  "(addr \<Rightarrow> kernel \<Rightarrow> kernel option) \<Rightarrow> addr \<Rightarrow> kernel \<Rightarrow> kernel option"
where
  "for_each_node callback it k =
     (if queue_iter_has_next it then do {
        (process, it) \<leftarrow> queue_iter_next it k;
        k \<leftarrow> callback process k;
        for_each_node callback it k
      } else Some k)"

fun for_each_level ::
  "(addr \<Rightarrow> kernel \<Rightarrow> kernel option) \<Rightarrow> u8 list \<Rightarrow> kernel \<Rightarrow> kernel option"
where
  "for_each_level callback [] k = Some k"
| "for_each_level callback (priority # ps) k = do {
     (queue, k) \<leftarrow> queue_for_priority priority k;
     empty \<leftarrow> queue_is_empty queue k;
     if empty then for_each_level callback ps k
     else do {
       it \<leftarrow> queue_iter queue k;
       k \<leftarrow> for_each_node callback it k;
       for_each_level callback ps k
     }
   }"

definition scheduler_for_each_ready ::
  "(addr \<Rightarrow> kernel \<Rightarrow> kernel option) option \<Rightarrow> kernel \<Rightarrow> kernel option"
where
  "scheduler_for_each_ready callback k =
     (case callback of None \<Rightarrow> Some k | Some f \<Rightarrow> for_each_level f [0, 1, 2, 3, 4, 5] k)"

text \<open>
  The two loops of \<open>scheduler_set_process_priority\<close>: empty the source queue into the buffer
  without the process, then pour the buffer back.
\<close>

partial_function (option) pour_without :: "addr \<Rightarrow> addr \<Rightarrow> addr \<Rightarrow> kernel \<Rightarrow> kernel option"
where
  "pour_without source buffer process k = do {
     (entry, k) \<leftarrow> queue_pop source k;
     if entry = NULL then Some k
     else do {
       k \<leftarrow> (if entry \<noteq> process then do { (_, k) \<leftarrow> queue_push buffer entry k; Some k } else Some k);
       pour_without source buffer process k
     }
   }"

partial_function (option) pour :: "addr \<Rightarrow> addr \<Rightarrow> kernel \<Rightarrow> kernel option"
where
  "pour source target k = do {
     (entry, k) \<leftarrow> queue_pop source k;
     if entry = NULL then Some k
     else do {
       (_, k) \<leftarrow> queue_push target entry k;
       pour source target k
     }
   }"

definition scheduler_set_process_priority :: "u32 \<Rightarrow> u8 \<Rightarrow> kernel \<Rightarrow> (int \<times> kernel) option" where
  "scheduler_set_process_priority pid priority k =
     (if priority < SCHEDULER_MAX_PRIORITY \<or> SCHEDULER_MIN_PRIORITY < priority then Some (-1, k)
      else
        let process = process_lookup pid k
        in if process = NULL then Some (-1, k)
           else do {
             pr \<leftarrow> procs k process;
             if pr_state pr = PROCESS_STATE_TERMINATED then Some (-1, k)
             else if process = sch_idle k then Some (-1, k)
             else if pr_is_shell pr \<and> SHELL_PRIORITY_THRESHOLD < priority then Some (-1, k)
             else
               let old_priority = pr_priority pr
               in do {
                 (failed, k) \<leftarrow>
                   (if pr_state pr = PROCESS_STATE_READY \<and> priority \<noteq> old_priority then do {
                      (source_queue, k) \<leftarrow> queue_for_priority old_priority k;
                      (buffer_queue, k) \<leftarrow> queue_create k;
                      if buffer_queue = NULL then Some (True, k)
                      else do {
                        k \<leftarrow> pour_without source_queue buffer_queue process k;
                        k \<leftarrow> pour buffer_queue source_queue k;
                        k \<leftarrow> queue_destroy buffer_queue None k;
                        Some (False, k)
                      }
                    } else Some (False, k));
                 if failed then Some (-1, k)
                 else do {
                   k \<leftarrow> upd_proc process (\<lambda>pr. pr\<lparr>pr_priority := priority\<rparr>) k;
                   k \<leftarrow> upd_proc process (\<lambda>pr.
                          if pr_is_shell pr \<and> pr_priority pr < SCHEDULER_MAX_PRIORITY
                          then pr\<lparr>pr_priority := SCHEDULER_MAX_PRIORITY\<rparr> else pr) k;
                   k \<leftarrow> upd_proc process (\<lambda>pr.
                          pr\<lparr>pr_priority_requested := pr_priority pr, pr_priority_fixed := True\<rparr>) k;
                   pr \<leftarrow> procs k process;
                   k \<leftarrow> (if pr_state pr = PROCESS_STATE_READY \<and> pr_priority pr \<noteq> old_priority then do {
                           (queue, k) \<leftarrow> queue_for_priority (pr_priority pr) k;
                           (_, k) \<leftarrow> queue_push queue process k;
                           Some k
                         } else Some k);
                   k \<leftarrow> (if process = sch_current k
                         then upd_proc process
                                (\<lambda>pr. pr\<lparr>pr_remaining_quantum := SCHEDULER_DEFAULT_QUANTUM\<rparr>) k
                         else Some k);
                   Some (0, k)
                 }
               }
           })"

definition process_block :: "addr \<Rightarrow> kernel \<Rightarrow> (bool \<times> kernel) option" where
  "process_block process k =
     (if process = NULL then Some (False, k)
      else do {
        pr \<leftarrow> procs k process;
        if pr_state pr = PROCESS_STATE_BLOCKED then Some (False, k)
        else do {
          k \<leftarrow> (if pr_state pr = PROCESS_STATE_READY
                then do { (_, k) \<leftarrow> scheduler_remove_ready process k; Some k } else Some k);
          k \<leftarrow> upd_proc process (\<lambda>pr. pr\<lparr>pr_state := PROCESS_STATE_BLOCKED\<rparr>) k;
          Some (True, k)
        }
      })"

definition process_unblock :: "addr \<Rightarrow> kernel \<Rightarrow> (bool \<times> kernel) option" where
  "process_unblock process k =
     (if process = NULL then Some (False, k)
      else do {
        pr \<leftarrow> procs k process;
        if pr_state pr \<noteq> PROCESS_STATE_BLOCKED then Some (False, k)
        else do {
          k \<leftarrow> scheduler_add_ready process k;
          Some (True, k)
        }
      })"

section \<open>Priorities\<close>

lemma priority_index_less [simp]: "priority_index p < 6"
  by (simp add: priority_index_def Let_def sched_consts not_less word_le_nat_alt)

lemma priority_index_small: "unat p < 6 \<Longrightarrow> priority_index p = unat p"
  by (simp add: priority_index_def Let_def sched_consts word_less_nat_alt)

text \<open>The computed table of \<open>priority_from_usage\<close>, for the five possible usages.\<close>

lemma priority_from_usage_table:
  "priority_from_usage 0 = 0" "priority_from_usage 1 = 1" "priority_from_usage 2 = 3"
  "priority_from_usage 3 = 4" "priority_from_usage 4 = 5"
  by (simp_all add: priority_from_usage_def priority_from_usage_loop.simps sched_consts Let_def)

lemma priority_from_usage_clamp: "4 < t \<Longrightarrow> priority_from_usage t = priority_from_usage 4"
  by (simp add: priority_from_usage_def sched_consts)

lemma u8_cases5: "t \<le> 4 \<Longrightarrow> t = 0 \<or> t = 1 \<or> t = 2 \<or> t = 3 \<or> t = (4 :: u8)"
proof -
  assume "t \<le> 4"
  then have "unat t \<in> {0, 1, 2, 3, 4}" by (auto simp: word_le_nat_alt)
  then have "of_nat (unat t) \<in> (of_nat ` {0, 1, 2, 3, 4} :: u8 set)" by blast
  then show ?thesis by simp
qed

lemma priority_from_usage_le: "unat (priority_from_usage t) \<le> 5"
proof (cases "4 < t")
  case True
  then show ?thesis by (simp add: priority_from_usage_clamp priority_from_usage_table)
next
  case False
  then have "t = 0 \<or> t = 1 \<or> t = 2 \<or> t = 3 \<or> t = 4" by (intro u8_cases5) simp
  then show ?thesis by (auto simp: priority_from_usage_table)
qed

section \<open>Invariant\<close>

text \<open>\<open>level k i\<close>: the ready processes of priority \<open>i\<close>, front first.\<close>

abbreviation level :: "kernel \<Rightarrow> nat \<Rightarrow> addr list" where
  "level k i \<equiv> qelems k (sch_ready_queues k ! i)"

text \<open>
  The six ready queues exist and are distinct; what they hold is a ready process, on the
  level of its priority, once, and never the idle process. A fixed priority is in range.
\<close>

definition ready_at :: "kernel \<Rightarrow> nat \<Rightarrow> addr \<Rightarrow> bool" where
  "ready_at k i p \<longleftrightarrow> p \<noteq> sch_idle k \<and>
     (\<exists>pr. procs k p = Some pr \<and> pr_state pr = PROCESS_STATE_READY \<and> unat (pr_priority pr) = i)"

definition fixed_ok :: "(addr \<rightharpoonup> process) \<Rightarrow> bool" where
  "fixed_ok ps \<longleftrightarrow>
     (\<forall>p pr. ps p = Some pr \<and> pr_priority_fixed pr \<longrightarrow> unat (pr_priority_requested pr) \<le> 5)"

lemma fixed_ok_upd:
  "fixed_ok ps \<Longrightarrow> (pr_priority_fixed pr \<Longrightarrow> unat (pr_priority_requested pr) \<le> 5) \<Longrightarrow>
   fixed_ok (ps(p \<mapsto> pr))"
  by (auto simp: fixed_ok_def)

definition ready_inv :: "kernel \<Rightarrow> bool" where
  "ready_inv k \<longleftrightarrow> queue_inv k \<and>
     length (sch_ready_queues k) = 6 \<and> set (sch_ready_queues k) \<subseteq> dom (queues k) \<and>
     distinct (sch_ready_queues k) \<and>
     (\<forall>i<6. distinct (level k i) \<and> (\<forall>p\<in>set (level k i). ready_at k i p)) \<and>
     fixed_ok (procs k) \<and>
     (sch_current k \<noteq> NULL \<longrightarrow> procs k (sch_current k) \<noteq> None) \<and>
     (sch_idle k \<noteq> NULL \<longrightarrow> procs k (sch_idle k) \<noteq> None)"

text \<open>At most one process runs, the current one.\<close>

definition running_inv :: "kernel \<Rightarrow> bool" where
  "running_inv k \<longleftrightarrow>
     (\<forall>p pr. procs k p = Some pr \<and> pr_state pr = PROCESS_STATE_RUNNING \<longrightarrow> p = sch_current k)"

definition sched_inv :: "kernel \<Rightarrow> bool" where
  "sched_inv k \<longleftrightarrow> ready_inv k \<and> running_inv k"

lemma ready_invD:
  assumes "ready_inv k"
  shows "queue_inv k" and "length (sch_ready_queues k) = 6"
    and "i < 6 \<Longrightarrow> sch_ready_queues k ! i \<in> dom (queues k)"
    and "i < 6 \<Longrightarrow> j < 6 \<Longrightarrow> sch_ready_queues k ! i = sch_ready_queues k ! j \<longleftrightarrow> i = j"
    and "i < 6 \<Longrightarrow> distinct (level k i)"
    and "i < 6 \<Longrightarrow> p \<in> set (level k i) \<Longrightarrow> ready_at k i p"
    and "i < 6 \<Longrightarrow> sch_ready_queues k ! i \<noteq> NULL"
proof -
  show inv: "queue_inv k" and len: "length (sch_ready_queues k) = 6"
    and "i < 6 \<Longrightarrow> distinct (level k i)" and "i < 6 \<Longrightarrow> p \<in> set (level k i) \<Longrightarrow> ready_at k i p"
    using assms unfolding ready_inv_def by blast+
  show "i < 6 \<Longrightarrow> j < 6 \<Longrightarrow> sch_ready_queues k ! i = sch_ready_queues k ! j \<longleftrightarrow> i = j"
    using assms len unfolding ready_inv_def by (metis nth_eq_iff_index_eq)
  show q: "i < 6 \<Longrightarrow> sch_ready_queues k ! i \<in> dom (queues k)"
    using assms nth_mem [of i "sch_ready_queues k"] len unfolding ready_inv_def by (metis subsetD)
  then show "i < 6 \<Longrightarrow> sch_ready_queues k ! i \<noteq> NULL"
    using object_live(1) [OF queue_inv_heap [OF inv]] by blast
qed

lemma queue_for_priority_ready [simp]:
  "ready_inv k \<Longrightarrow>
   queue_for_priority p k = Some (sch_ready_queues k ! priority_index p, k)"
  using ready_invD(7) [of k "priority_index p"] by (simp add: queue_for_priority_def Let_def)

lemma ready_atD:
  "ready_at k i p \<Longrightarrow> \<exists>pr. procs k p = Some pr \<and> pr_state pr = PROCESS_STATE_READY \<and>
     unat (pr_priority pr) = i"
  by (auto simp: ready_at_def)

lemma ready_somewhere_unique:
  "ready_at k i p \<Longrightarrow> ready_at k j p \<Longrightarrow> i = j"
  by (auto simp: ready_at_def)

section \<open>Elementary steps\<close>

lemma upd_proc_some [simp]:
  "procs k p = Some pr \<Longrightarrow> upd_proc p f k = Some (k\<lparr>procs := (procs k)(p \<mapsto> f pr)\<rparr>)"
  by (simp add: upd_proc_def)

text \<open>
  \<open>waiting k p\<close>: process \<open>p\<close> is on some level. A process that is on none may be changed at
  will, as long as its fixed priority stays in range.
\<close>

definition waiting :: "kernel \<Rightarrow> addr \<Rightarrow> bool" where
  "waiting k p \<longleftrightarrow> (\<exists>i<6. p \<in> set (level k i))"

lemma ready_at_upd [simp]:
  "q \<noteq> p \<Longrightarrow> ready_at (k\<lparr>procs := (procs k)(p \<mapsto> pr)\<rparr>) i q = ready_at k i q"
  by (simp add: ready_at_def)

lemma ready_inv_upd_proc:
  assumes "ready_inv k" and "procs k p = Some pr" and "\<not> waiting k p"
    and "pr_priority_fixed pr' \<Longrightarrow> unat (pr_priority_requested pr') \<le> 5"
  shows "ready_inv (k\<lparr>procs := (procs k)(p \<mapsto> pr')\<rparr>)"
proof -
  have "\<forall>i<6. \<forall>q\<in>set (level k i). ready_at (k\<lparr>procs := (procs k)(p \<mapsto> pr')\<rparr>) i q"
  proof (intro allI impI ballI)
    fix i q
    assume i: "i < 6" and q: "q \<in> set (level k i)"
    then have "q \<noteq> p" using assms(3) by (auto simp: waiting_def)
    then show "ready_at (k\<lparr>procs := (procs k)(p \<mapsto> pr')\<rparr>) i q"
      using ready_invD(6) [OF assms(1) i q] by simp
  qed
  moreover have "fixed_ok ((procs k)(p \<mapsto> pr'))"
    using assms(1,4) by (intro fixed_ok_upd) (auto simp: ready_inv_def)
  ultimately show ?thesis using assms(1,2) by (auto simp: ready_inv_def)
qed

text \<open>A waiting process may change in everything but state, priority and fixed priority.\<close>

lemma ready_inv_upd_same:
  assumes "ready_inv k" and "procs k p = Some pr" and "pr_state pr' = pr_state pr"
    and "pr_priority pr' = pr_priority pr" and "pr_priority_fixed pr' = pr_priority_fixed pr"
    and "pr_priority_requested pr' = pr_priority_requested pr"
  shows "ready_inv (k\<lparr>procs := (procs k)(p \<mapsto> pr')\<rparr>)"
proof -
  have "ready_at (k\<lparr>procs := (procs k)(p \<mapsto> pr')\<rparr>) i q = ready_at k i q" for i q
    using assms(2-6) by (cases "q = p") (simp_all add: ready_at_def)
  moreover have "fixed_ok ((procs k)(p \<mapsto> pr'))"
    using assms(1,2,5,6) by (intro fixed_ok_upd) (auto simp: ready_inv_def fixed_ok_def)
  ultimately show ?thesis using assms(1,2) by (auto simp: ready_inv_def)
qed

text \<open>Queue operations on the levels, in terms of the levels.\<close>

lemma queue_frameD:
  assumes "queue_frame k k'"
  shows "procs k' = procs k" "sch_ready_queues k' = sch_ready_queues k" "sch_idle k' = sch_idle k"
    "sch_current k' = sch_current k" "sch_total_ticks k' = sch_total_ticks k" "pcb k' = pcb k"
    "sems k' = sems k" "pipeobjs k' = pipeobjs k" "strs k' = strs k"
    "sch_context_switches k' = sch_context_switches k"
    "registered_semaphores k' = registered_semaphores k" "registry_lock k' = registry_lock k"
    "pipes k' = pipes k" "pic_master_mask k' = pic_master_mask k" "sleepers k' = sleepers k"
  by (subst assms [unfolded queue_frame_def], simp)+

text \<open>
  What the scheduler never touches: everything of a process but its scheduling fields, the
  queues other than its own, and the rest of the kernel.
\<close>

definition sched_fields_only :: "process \<Rightarrow> process \<Rightarrow> bool" where
  "sched_fields_only pr pr' \<longleftrightarrow>
     pr' = pr\<lparr>pr_state := pr_state pr', pr_priority := pr_priority pr',
              pr_priority_requested := pr_priority_requested pr', pr_priority_fixed := pr_priority_fixed pr',
              pr_rsp := pr_rsp pr', pr_remaining_quantum := pr_remaining_quantum pr',
              pr_last_quantum_ticks := pr_last_quantum_ticks pr',
              pr_ready_since_tick := pr_ready_since_tick pr'\<rparr>"

lemma sched_fields_only_refl [simp]: "sched_fields_only pr pr"
  by (simp add: sched_fields_only_def)

lemma sched_fields_only_trans:
  "sched_fields_only a b \<Longrightarrow> sched_fields_only b c \<Longrightarrow> sched_fields_only a c"
  unfolding sched_fields_only_def by (cases a; cases b; cases c) simp

definition table_frame :: "kernel \<Rightarrow> kernel \<Rightarrow> bool" where
  "table_frame k k' \<longleftrightarrow>
     (case pcb k of None \<Rightarrow> pcb k' = None | Some (a, t) \<Rightarrow> \<exists>r. pcb k' = Some (a, t\<lparr>pc_running_pid := r\<rparr>))"

lemma table_frame_trans: "table_frame a b \<Longrightarrow> table_frame b c \<Longrightarrow> table_frame a c"
  by (auto simp: table_frame_def split: option.splits)

lemma table_frame_same: "pcb k' = pcb k \<Longrightarrow> table_frame k k'"
proof (cases "pcb k")
  case (Some x)
  moreover assume "pcb k' = pcb k"
  ultimately show ?thesis
    by (cases x) (auto simp: table_frame_def intro: exI [of _ "pc_running_pid (snd x)"])
qed (simp add: table_frame_def)

definition sched_frame :: "kernel \<Rightarrow> kernel \<Rightarrow> bool" where
  "sched_frame k k' \<longleftrightarrow>
     k' = k\<lparr>kmem := kmem k', queues := queues k', qnodes := qnodes k', procs := procs k', pcb := pcb k',
            sch_current := sch_current k', sch_total_ticks := sch_total_ticks k',
            sch_context_switches := sch_context_switches k'\<rparr> \<and>
     table_frame k k' \<and> dom (queues k') = dom (queues k) \<and>
     (\<forall>q. q \<notin> set (sch_ready_queues k) \<longrightarrow> qelems k' q = qelems k q) \<and>
     (\<forall>p. rel_option sched_fields_only (procs k p) (procs k' p))"

lemma sched_frame_refl [simp]: "sched_frame k k"
  unfolding sched_frame_def by (simp add: option.rel_refl table_frame_same)

lemma sched_frameD:
  assumes "sched_frame k k'"
  shows "sch_ready_queues k' = sch_ready_queues k" "sch_idle k' = sch_idle k" "sems k' = sems k"
    "pipeobjs k' = pipeobjs k" "strs k' = strs k" "argvs k' = argvs k" "raws k' = raws k"
    "sleepers k' = sleepers k" "registered_semaphores k' = registered_semaphores k"
    "registry_lock k' = registry_lock k" "pipes k' = pipes k" "next_pipe_id k' = next_pipe_id k"
    "pipe_sem_name k' = pipe_sem_name k" "ticks k' = ticks k" "sleeping_queue k' = sleeping_queue k"
    "shell_created k' = shell_created k" "pic_master_mask k' = pic_master_mask k"
  by (subst conjunct1 [OF assms [unfolded sched_frame_def]], simp)+

lemma sched_frame_dom: "sched_frame k k' \<Longrightarrow> dom (procs k') = dom (procs k)"
proof -
  assume "sched_frame k k'"
  then have rel: "rel_option sched_fields_only (procs k p) (procs k' p)" for p
    by (simp add: sched_frame_def)
  have "p \<in> dom (procs k') \<longleftrightarrow> p \<in> dom (procs k)" for p
    using rel [of p] by (cases "procs k p"; cases "procs k' p") auto
  then show ?thesis by blast
qed

lemma sched_frame_trans: "sched_frame a b \<Longrightarrow> sched_frame b c \<Longrightarrow> sched_frame a c"
proof -
  assume ab: "sched_frame a b" and bc: "sched_frame b c"
  have "rel_option sched_fields_only (procs a p) (procs c p)" for p
  proof -
    have "rel_option sched_fields_only (procs a p) (procs b p)"
      and "rel_option sched_fields_only (procs b p) (procs c p)"
      using ab bc by (simp_all add: sched_frame_def)
    then show ?thesis
      using sched_fields_only_trans by (cases "procs a p"; cases "procs b p"; cases "procs c p") auto
  qed
  moreover have "c = a\<lparr>kmem := kmem c, queues := queues c, qnodes := qnodes c, procs := procs c, pcb := pcb c,
    sch_current := sch_current c, sch_total_ticks := sch_total_ticks c,
    sch_context_switches := sch_context_switches c\<rparr>"
    using conjunct1 [OF ab [unfolded sched_frame_def]] conjunct1 [OF bc [unfolded sched_frame_def]]
    by (cases a; cases b; cases c) simp
  moreover have "qelems c q = qelems a q" if "q \<notin> set (sch_ready_queues a)" for q
    using that ab bc sched_frameD(1) [OF ab] unfolding sched_frame_def by simp
  ultimately show ?thesis
    using ab bc table_frame_trans unfolding sched_frame_def by (metis (lifting))
qed

lemma sched_frame_queue:
  assumes "queue_frame k k'" and "dom (queues k') = dom (queues k)"
    and "\<And>q. q \<notin> set (sch_ready_queues k) \<Longrightarrow> qelems k' q = qelems k q"
  shows "sched_frame k k'"
proof -
  have "k' = k\<lparr>kmem := kmem k', queues := queues k', qnodes := qnodes k', procs := procs k', pcb := pcb k',
    sch_current := sch_current k', sch_total_ticks := sch_total_ticks k',
    sch_context_switches := sch_context_switches k'\<rparr>"
    using assms(1) unfolding queue_frame_def by (cases k; cases k') simp
  moreover have "table_frame k k'" using queue_frameD(6) [OF assms(1)] by (rule table_frame_same)
  ultimately show ?thesis
    unfolding sched_frame_def using assms(2,3) queue_frameD(1) [OF assms(1)] by (simp add: option.rel_refl)
qed

lemma sched_frame_proc:
  assumes "procs k p = Some pr" and "sched_fields_only pr pr'"
  shows "sched_frame k (k\<lparr>procs := (procs k)(p \<mapsto> pr')\<rparr>)"
proof -
  have "table_frame k (k\<lparr>procs := (procs k)(p \<mapsto> pr')\<rparr>)"
    by (simp add: table_frame_same)
  then show ?thesis using assms by (simp add: sched_frame_def option.rel_refl)
qed

lemma ready_inv_queue:
  assumes "ready_inv k" and "queue_frame k k'" and "queue_inv k'" and "dom (queues k') = dom (queues k)"
    and "\<And>i. i < 6 \<Longrightarrow> distinct (level k' i) \<and> (\<forall>p\<in>set (level k' i). ready_at k i p)"
  shows "ready_inv k'"
proof -
  note f = queue_frameD [OF assms(2)]
  have rd: "ready_at k' = ready_at k" by (simp add: ready_at_def f fun_eq_iff)
  show ?thesis using assms(1,3-5) unfolding ready_inv_def f rd by blast
qed

lemma level_other:
  assumes "ready_inv k" and "i < 6" and "j < 6" and "qelems k' = (qelems k)(sch_ready_queues k ! i := xs)"
    and "sch_ready_queues k' = sch_ready_queues k"
  shows "level k' j = (if j = i then xs else level k j)"
  using assms(4,5) ready_invD(4) [OF assms(1) assms(3,2)] by auto

lemma sched_frame_level:
  assumes "queue_frame k k'" and "dom (queues k') = dom (queues k)" and "i < 6" and "ready_inv k"
    and "qelems k' = (qelems k)(sch_ready_queues k ! i := xs)"
  shows "sched_frame k k'"
  using assms(1,2)
proof (rule sched_frame_queue)
  fix q
  assume "q \<notin> set (sch_ready_queues k)"
  then have "q \<noteq> sch_ready_queues k ! i" using nth_mem ready_invD(2) [OF assms(4)] assms(3) by metis
  then show "qelems k' q = qelems k q" using assms(5) by simp
qed

lemma level_pop_Nil:
  "ready_inv k \<Longrightarrow> i < 6 \<Longrightarrow> level k i = [] \<Longrightarrow> queue_pop (sch_ready_queues k ! i) k = Some (NULL, k)"
  using kq.pop_empty ready_invD(1,3) by blast

lemma level_pop_Cons:
  assumes inv: "ready_inv k" and i: "i < 6" and lv: "level k i = p # ps"
  obtains k' where "queue_pop (sch_ready_queues k ! i) k = Some (p, k')" "ready_inv k'" "queue_room k'"
    "queue_frame k k'" "sched_frame k k'" "\<forall>j<6. level k' j = (if j = i then ps else level k j)"
    "\<not> waiting k' p"
proof -
  obtain k' where k': "queue_pop (sch_ready_queues k ! i) k = Some (p, k')" "queue_inv k'" "queue_frame k k'"
    "dom (queues k') = dom (queues k)" "qelems k' = (qelems k)(sch_ready_queues k ! i := ps)" "queue_room k'"
    by (rule kq.pop_Cons [OF ready_invD(1) [OF inv] ready_invD(3) [OF inv i] lv])
  have lv': "level k' j = (if j = i then ps else level k j)" if "j < 6" for j
    using level_other [OF inv i that k'(5)] queue_frameD(2) [OF k'(3)] by simp
  have "ready_inv k'"
    using inv k'(3,2,4)
  proof (rule ready_inv_queue)
    show "distinct (level k' j) \<and> (\<forall>p\<in>set (level k' j). ready_at k j p)" if "j < 6" for j
      using lv' [OF that] ready_invD(5,6) [OF inv that] lv by auto
  qed
  moreover have "\<not> waiting k' p"
  proof
    assume "waiting k' p"
    then obtain j where j: "j < 6" "p \<in> set (level k' j)" by (auto simp: waiting_def)
    have pj: "p \<in> set (level k j)" using j lv' [OF j(1)] lv by (auto split: if_splits)
    have pi: "p \<in> set (level k i)" using lv by simp
    have "j = i"
      using ready_somewhere_unique [OF ready_invD(6) [OF inv j(1) pj] ready_invD(6) [OF inv i pi]] .
    then show False using j lv' [OF j(1)] ready_invD(5) [OF inv i] lv by simp
  qed
  ultimately show ?thesis
    using that [OF k'(1)] k'(3,6) sched_frame_level [OF k'(3,4) i inv k'(5)] lv' by blast
qed

lemma level_push:
  assumes inv: "ready_inv k" and i: "i < 6" and p: "ready_at k i p" "p \<notin> set (level k i)"
  obtains k' where "queue_push (sch_ready_queues k ! i) p k = Some (queue_room k, k')" "ready_inv k'"
    "queue_frame k k'" "sched_frame k k'"
    "\<forall>j<6. level k' j = (if j = i \<and> queue_room k then level k j @ [p] else level k j)"
proof -
  obtain k' where k': "queue_push (sch_ready_queues k ! i) p k = Some (queue_room k, k')" "queue_inv k'"
    "queue_frame k k'" "dom (queues k') = dom (queues k)"
    "qelems k' = (if queue_room k then (qelems k)(sch_ready_queues k ! i := level k i @ [p]) else qelems k)"
    using kq.push_law [OF ready_invD(1) [OF inv] ready_invD(3) [OF inv i], of p] by (elim exE conjE)
  have upd: "qelems k' = (qelems k)(sch_ready_queues k ! i :=
    (if queue_room k then level k i @ [p] else level k i))" using k'(5) by simp
  have lv': "level k' j = (if j = i \<and> queue_room k then level k j @ [p] else level k j)" if "j < 6" for j
    using level_other [OF inv i that upd] queue_frameD(2) [OF k'(3)] by simp
  have "ready_inv k'"
    using inv k'(3,2,4)
  proof (rule ready_inv_queue)
    show "distinct (level k' j) \<and> (\<forall>p\<in>set (level k' j). ready_at k j p)" if "j < 6" for j
      using lv' [OF that] ready_invD(5,6) [OF inv that] p by auto
  qed
  then show ?thesis
    using that [OF k'(1)] k'(3) sched_frame_level [OF k'(3,4) i inv upd] lv' by blast
qed

end
