(* ===== verification/Sched_Tick.thy ===== *)
theory Sched_Tick
  imports Scheduler
begin

text \<open>
  What the scheduler does with its levels: aging moves the processes that have waited long
  enough up one level, \<open>schedule_tick\<close> switches to the front of the highest level that is
  not empty, and every operation keeps the invariant of theory \<open>Scheduler\<close>.
\<close>

section \<open>Aging\<close>

text \<open>\<open>ages k p\<close>: the process has waited long enough to move up one level.\<close>

definition ages :: "kernel \<Rightarrow> addr \<Rightarrow> bool" where
  "ages k p \<longleftrightarrow> (\<exists>pr. procs k p = Some pr \<and> 0 < pr_priority pr \<and>
     SCHEDULER_AGING_THRESHOLD \<le> sch_total_ticks k - pr_ready_since_tick pr)"

definition aged :: "kernel \<Rightarrow> process \<Rightarrow> process" where
  "aged k pr = pr\<lparr>pr_priority := pr_priority pr - 1, pr_ready_since_tick := sch_total_ticks k\<rparr>"

lemma should_age_ready:
  assumes "ready_inv k" and "i < 6" and "p \<in> set (level k i)"
  shows "scheduler_should_age p k = Some (ages k p)"
proof -
  have r: "ready_at k i p" using ready_invD(6) [OF assms] .
  then obtain pr where pr: "procs k p = Some pr" using ready_atD by blast
  then have "p \<noteq> NULL" using object_live(3) queue_inv_heap ready_invD(1) [OF assms(1)] by blast
  then show ?thesis
    using r pr by (auto simp: scheduler_should_age_def ready_at_def ages_def SCHEDULER_MAX_PRIORITY_def
        word_neq_0_conv not_le)
qed

lemma unat_pred: "0 < (x :: u8) \<Longrightarrow> unat (x - 1) = unat x - 1"
  by (simp add: unat_minus_one word_neq_0_conv)

lemma ready_fixed:
  "ready_inv k \<Longrightarrow> procs k p = Some pr \<Longrightarrow> pr_priority_fixed pr \<Longrightarrow> unat (pr_priority_requested pr) \<le> 5"
  by (auto simp: ready_inv_def fixed_ok_def)

lemma ready_not_null: "ready_inv k \<Longrightarrow> procs k p = Some pr \<Longrightarrow> p \<noteq> NULL"
  using object_live(3) [OF queue_inv_heap [OF ready_invD(1)]] by blast

text \<open>One round of the inner loop: the front process goes up one level or to the back.\<close>

lemma age_items_step:
  assumes inv: "ready_inv k" and j: "0 < j" "j < 6" and lv: "level k j = p # rest"
  obtains k' pr where "age_items (Suc n) (sch_ready_queues k ! j) k = age_items n (sch_ready_queues k ! j) k'"
    "ready_inv k'" "sched_frame k k'" "sch_current k' = sch_current k"
    "sch_total_ticks k' = sch_total_ticks k" "sch_context_switches k' = sch_context_switches k"
    "pcb k' = pcb k" "procs k p = Some pr"
    "procs k' = (if ages k p then (procs k)(p \<mapsto> aged k pr) else procs k)"
    "\<forall>i<6. level k' i =
       (if i = j then rest @ (if ages k p then [] else [p])
        else if Suc i = j \<and> ages k p then level k i @ [p] else level k i)"
proof -
  let ?q = "sch_ready_queues k ! j"
  obtain k1 where k1: "queue_pop ?q k = Some (p, k1)" "ready_inv k1" "queue_room k1" "queue_frame k k1"
    "sched_frame k k1" "\<forall>i<6. level k1 i = (if i = j then rest else level k i)" "\<not> waiting k1 p"
    by (rule level_pop_Cons [OF inv j(2) lv])
  note f = queue_frameD [OF k1(4)]
  have pin: "p \<in> set (level k j)" using lv by simp
  obtain pr where pr: "procs k p = Some pr" "pr_state pr = PROCESS_STATE_READY" "unat (pr_priority pr) = j"
    "p \<noteq> sch_idle k"
    using ready_invD(6) [OF inv j(2) pin] by (auto simp: ready_at_def)
  have p0: "p \<noteq> NULL" using ready_not_null [OF inv pr(1)] .
  have age: "scheduler_should_age p k1 = Some (ages k p)"
    using should_age_ready [OF inv j(2) pin] p0 pr(1,4)
    by (cases "pr_priority pr \<le> SCHEDULER_MAX_PRIORITY") (simp_all add: scheduler_should_age_def f)
  have notin: "i < 6 \<Longrightarrow> p \<notin> set (level k1 i)" for i using k1(7) by (auto simp: waiting_def)
  show ?thesis
  proof (cases "ages k p")
    case True
    have pos: "0 < pr_priority pr" using j(1) pr(3) by (simp add: word_less_nat_alt)
    define k2 where "k2 = k1\<lparr>procs := (procs k1)(p \<mapsto> aged k pr)\<rparr>"
    have inv2: "ready_inv k2"
      unfolding k2_def
      by (rule ready_inv_upd_proc [OF k1(2)])
        (use pr(1) k1(7) ready_fixed [OF inv pr(1)] in \<open>simp_all add: f aged_def\<close>)
    have rdy: "ready_at k2 (j - 1) p"
      using pr pos by (simp add: ready_at_def k2_def f aged_def unat_pred)
    have lv2: "level k2 i = level k1 i" for i by (simp add: k2_def)
    have rq2: "sch_ready_queues k2 = sch_ready_queues k" by (simp add: k2_def f)
    have j1: "j - 1 < 6" using j by simp
    have "p \<notin> set (level k2 (j - 1))" using notin [OF j1] lv2 by simp
    from level_push [OF inv2 j1 rdy this] obtain k3 where
      k3: "queue_push (sch_ready_queues k2 ! (j - 1)) p k2 = Some (queue_room k2, k3)" "ready_inv k3"
      "queue_frame k2 k3" "sched_frame k2 k3"
      "\<forall>i<6. level k3 i = (if i = j - 1 \<and> queue_room k2 then level k2 i @ [p] else level k2 i)" .
    have r2: "queue_room k2" using k1(3) by (simp add: k2_def)
    have "sched_frame k1 k2"
      unfolding k2_def by (rule sched_frame_proc) (use pr(1) in \<open>auto simp: f sched_fields_only_def aged_def\<close>)
    then have fr: "sched_frame k k3" using k1(5) k3(4) sched_frame_trans by blast
    have pidx: "priority_index (pr_priority pr - 1) = j - 1"
      using pr(3) pos j by (simp add: priority_index_small unat_pred)
    have "age_items (Suc n) ?q k = age_items n ?q k3"
      using k1(1) p0 pr(1,2) age True k3(1) inv2 pidx
      by (simp add: f SCHEDULER_MAX_PRIORITY_def aged_def k2_def)
    moreover have "level k3 i = (if i = j then rest @ [] else if Suc i = j then level k i @ [p] else level k i)"
      if "i < 6" for i
      using k3(5) [rule_format, OF that] r2 lv2 k1(6) [rule_format, OF that] j(1) by auto
    moreover note g = queue_frameD [OF k3(3)]
    ultimately show ?thesis
      using that [of k3 pr] k3(2) fr pr(1) True by (simp add: g k2_def f)
  next
    case False
    have rdy: "ready_at k1 j p" using ready_invD(6) [OF inv j(2) pin] by (simp add: ready_at_def f)
    obtain k2 where k2: "queue_push (sch_ready_queues k1 ! j) p k1 = Some (queue_room k1, k2)" "ready_inv k2"
      "queue_frame k1 k2" "sched_frame k1 k2"
      "\<forall>i<6. level k2 i = (if i = j \<and> queue_room k1 then level k1 i @ [p] else level k1 i)"
      by (rule level_push [OF k1(2) j(2) rdy notin [OF j(2)]])
    note g = queue_frameD [OF k2(3)]
    have "age_items (Suc n) ?q k = age_items n ?q k2"
      using k1(1) p0 pr(1,2) age False k2(1) by (simp add: f)
    moreover have "level k2 i = (if i = j then rest @ [p] else level k i)" if "i < 6" for i
      using k2(5) [rule_format, OF that] k1(3) k1(6) [rule_format, OF that] by auto
    ultimately show ?thesis
      using that [of k2 pr] k2(2) sched_frame_trans [OF k1(5) k2(4)] pr(1) False by (simp add: g f)
  qed
qed

text \<open>The inner loop over a whole level.\<close>

lemma age_items_spec:
  assumes "ready_inv k" and "0 < j" "j < 6" and "level k j = todo @ kept"
  shows "\<exists>k'. age_items (length todo) (sch_ready_queues k ! j) k = Some k' \<and> ready_inv k' \<and>
    sched_frame k k' \<and> sch_current k' = sch_current k \<and> sch_total_ticks k' = sch_total_ticks k \<and>
    sch_context_switches k' = sch_context_switches k \<and> pcb k' = pcb k \<and>
    (\<forall>i<6. level k' i =
       (if i = j then kept @ filter (\<lambda>p. \<not> ages k p) todo
        else if Suc i = j then level k i @ filter (ages k) todo else level k i)) \<and>
    (\<forall>p. procs k' p = (if p \<in> set todo \<and> ages k p then map_option (aged k) (procs k p) else procs k p))"
  using assms(1,4)
proof (induction todo arbitrary: k kept)
  case Nil
  then show ?case by simp
next
  case (Cons p todo)
  have lv: "level k j = p # (todo @ kept)" using Cons.prems(2) by simp
  obtain k1 pr where k1: "age_items (Suc (length todo)) (sch_ready_queues k ! j) k =
      age_items (length todo) (sch_ready_queues k ! j) k1"
    "ready_inv k1" "sched_frame k k1" "sch_current k1 = sch_current k"
    "sch_total_ticks k1 = sch_total_ticks k" "sch_context_switches k1 = sch_context_switches k"
    "pcb k1 = pcb k" "procs k p = Some pr"
    "procs k1 = (if ages k p then (procs k)(p \<mapsto> aged k pr) else procs k)"
    "\<forall>i<6. level k1 i =
       (if i = j then (todo @ kept) @ (if ages k p then [] else [p])
        else if Suc i = j \<and> ages k p then level k i @ [p] else level k i)"
    by (rule age_items_step [OF Cons.prems(1) assms(2,3) lv, of "length todo"])
  let ?kept = "kept @ (if ages k p then [] else [p])"
  have "level k1 j = todo @ ?kept" using k1(10) assms(3) by simp
  from Cons.IH [OF k1(2) this] obtain k' where
    k': "age_items (length todo) (sch_ready_queues k1 ! j) k1 = Some k'" "ready_inv k'" "sched_frame k1 k'"
      "sch_current k' = sch_current k1" "sch_total_ticks k' = sch_total_ticks k1"
      "sch_context_switches k' = sch_context_switches k1" "pcb k' = pcb k1"
      "\<forall>i<6. level k' i =
         (if i = j then ?kept @ filter (\<lambda>p. \<not> ages k1 p) todo
          else if Suc i = j then level k1 i @ filter (ages k1) todo else level k1 i)"
      "\<forall>p. procs k' p = (if p \<in> set todo \<and> ages k1 p then map_option (aged k1) (procs k1 p) else procs k1 p)"
    by (elim exE conjE)
  have p: "p \<notin> set todo" using ready_invD(5) [OF Cons.prems(1) assms(3)] by (simp add: lv)
  have same: "ages k1 q = ages k q" if "q \<in> set todo" for q
    using p that k1(5,9) by (auto simp: ages_def)
  have flt: "filter (ages k1) todo = filter (ages k) todo"
    "filter (\<lambda>p. \<not> ages k1 p) todo = filter (\<lambda>p. \<not> ages k p) todo"
    using same by (auto intro: filter_cong)
  have rq: "sch_ready_queues k1 = sch_ready_queues k" by (rule sched_frameD(1) [OF k1(3)])
  have "age_items (length (p # todo)) (sch_ready_queues k ! j) k = Some k'"
    using k1(1) k'(1) by (simp add: rq)
  moreover have "level k' i =
       (if i = j then kept @ filter (\<lambda>p. \<not> ages k p) (p # todo)
        else if Suc i = j then level k i @ filter (ages k) (p # todo) else level k i)" if "i < 6" for i
    using k'(8) [rule_format, OF that] k1(10) [rule_format, OF that] by (auto simp: flt)
  moreover have "procs k' q = (if q \<in> set (p # todo) \<and> ages k q then map_option (aged k) (procs k q) else procs k q)" for q
  proof -
    have "aged k1 = aged k" by (simp add: aged_def k1(5) fun_eq_iff)
    then show ?thesis using k'(9) k1(8,9) same [of q] p by (cases "q = p") auto
  qed
  ultimately show ?case
    using k'(2-7) k1(4-7) sched_frame_trans [OF k1(3) k'(3)] by (intro exI [of _ k'] conjI) simp_all
qed

text \<open>
  The loop over the levels from \<open>j\<close> on. Processes move to the level above the one that is
  being scanned, so none moves twice.
\<close>

definition aging_from :: "nat \<Rightarrow> kernel \<Rightarrow> nat \<Rightarrow> addr list" where
  "aging_from j k i =
     (if Suc i < j then level k i
      else if Suc i = j then level k i @ (if j < 6 then filter (ages k) (level k j) else [])
      else filter (\<lambda>p. \<not> ages k p) (level k i) @ (if i < 5 then filter (ages k) (level k (Suc i)) else []))"

lemma age_levels_spec:
  assumes "ready_inv k" and "0 < j" and "j \<le> 6"
  shows "\<exists>k'. age_levels (map of_nat [j..<6]) k = Some k' \<and> ready_inv k' \<and> sched_frame k k' \<and>
    sch_current k' = sch_current k \<and> sch_total_ticks k' = sch_total_ticks k \<and>
    sch_context_switches k' = sch_context_switches k \<and> pcb k' = pcb k \<and>
    (\<forall>i<6. level k' i = aging_from j k i) \<and>
    (\<forall>p. procs k' p = (if (\<exists>i. j \<le> i \<and> i < 6 \<and> p \<in> set (level k i)) \<and> ages k p
                      then map_option (aged k) (procs k p) else procs k p))"
  using assms
proof (induction "6 - j" arbitrary: j k)
  case 0
  then have "j = 6" by simp
  then show ?case using 0 by (auto simp: aging_from_def)
next
  case (Suc n)
  then have j: "0 < j" "j < 6" by auto
  have pidx: "priority_index (of_nat j) = j"
    using j by (subst priority_index_small) (simp_all add: unat_of_nat_small)
  obtain r where r: "queues k (sch_ready_queues k ! j) = Some r"
    using ready_invD(3) [OF Suc.prems(1) j(2)] by blast
  obtain k1 where k1: "age_items (length (level k j)) (sch_ready_queues k ! j) k = Some k1" "ready_inv k1"
    "sched_frame k k1" "sch_current k1 = sch_current k" "sch_total_ticks k1 = sch_total_ticks k"
    "sch_context_switches k1 = sch_context_switches k" "pcb k1 = pcb k"
    "\<forall>i<6. level k1 i =
       (if i = j then [] @ filter (\<lambda>p. \<not> ages k p) (level k j)
        else if Suc i = j then level k i @ filter (ages k) (level k j) else level k i)"
    "\<forall>p. procs k1 p = (if p \<in> set (level k j) \<and> ages k p then map_option (aged k) (procs k p) else procs k p)"
    using age_items_spec [OF Suc.prems(1) j, of "level k j" "[]"] by auto
  have len: "length (level k j) < 2 ^ 64"
    using chain_length [OF queue_inv_heap queue_inv_rep(1,2)] ready_invD(1) [OF Suc.prems(1)] r
    by (simp add: qelems_def)
  have un: "[j..<6] = j # [Suc j..<6]" using j by (simp add: upt_conv_Cons)
  have run: "age_levels (map of_nat [j..<6]) k = age_levels (map of_nat [Suc j..<6]) k1"
    unfolding un using Suc.prems(1) k1(1) queue_size_spec [OF ready_invD(1) [OF Suc.prems(1)] r] len
    by (simp add: pidx unat_of_nat_small)
  have hyp: "n = 6 - Suc j" "0 < Suc j" "Suc j \<le> 6" using Suc.hyps(2) j by auto
  obtain k' where
    k': "age_levels (map of_nat [Suc j..<6]) k1 = Some k'" "ready_inv k'" "sched_frame k1 k'"
      "sch_current k' = sch_current k1" "sch_total_ticks k' = sch_total_ticks k1"
      "sch_context_switches k' = sch_context_switches k1" "pcb k' = pcb k1"
      "\<forall>i<6. level k' i = aging_from (Suc j) k1 i"
      "\<forall>p. procs k' p = (if (\<exists>i. Suc j \<le> i \<and> i < 6 \<and> p \<in> set (level k1 i)) \<and> ages k1 p
                      then map_option (aged k1) (procs k1 p) else procs k1 p)"
    using Suc.hyps(1) [OF hyp(1) k1(2) hyp(2,3)] by (elim exE conjE)
  have lower: "level k1 i = level k i" if "i < 6" "j < i" for i using k1(8) that by simp
  have apart: "p \<notin> set (level k j)" if "i < 6" "j < i" "p \<in> set (level k i)" for i p
    using ready_somewhere_unique ready_invD(6) [OF Suc.prems(1) that(1,3)]
      ready_invD(6) [OF Suc.prems(1) j(2)] that(2) by blast
  have same: "ages k1 p = ages k p" if "i < 6" "j < i" "p \<in> set (level k i)" for i p
    using apart [OF that] k1(5,9) by (simp add: ages_def)
  have flt: "filter (ages k1) (level k i) = filter (ages k) (level k i)"
    "filter (\<lambda>p. \<not> ages k1 p) (level k i) = filter (\<lambda>p. \<not> ages k p) (level k i)" if "i < 6" "j < i" for i
    using same [OF that] by (auto intro: filter_cong)
  have "level k' i = aging_from j k i" if i: "i < 6" for i
  proof -
    consider "Suc i < j" | "Suc i = j" | "i = j" | "j < i" by linarith
    then show ?thesis
    proof cases
      case 1
      then show ?thesis using k'(8) k1(8) i by (simp add: aging_from_def)
    next
      case 2
      then show ?thesis using k'(8) k1(8) i j by (simp add: aging_from_def)
    next
      case 3
      then show ?thesis using k'(8) k1(8) i lower [of "Suc j"] flt [of "Suc j"] by (simp add: aging_from_def)
    next
      case 4
      then show ?thesis using k'(8) i lower [of i] lower [of "Suc i"] flt [of i] flt [of "Suc i"]
        by (simp add: aging_from_def)
    qed
  qed
  moreover have "procs k' p = (if (\<exists>i. j \<le> i \<and> i < 6 \<and> p \<in> set (level k i)) \<and> ages k p
                      then map_option (aged k) (procs k p) else procs k p)" for p
  proof -
    have ag: "aged k1 = aged k" by (simp add: aged_def k1(5) fun_eq_iff)
    have low: "(\<exists>i. Suc j \<le> i \<and> i < 6 \<and> p \<in> set (level k1 i)) \<longleftrightarrow> (\<exists>i. Suc j \<le> i \<and> i < 6 \<and> p \<in> set (level k i))"
      using lower by (auto simp: Suc_le_eq)
    have split: "(\<exists>i. j \<le> i \<and> i < 6 \<and> p \<in> set (level k i)) \<longleftrightarrow>
      p \<in> set (level k j) \<or> (\<exists>i. Suc j \<le> i \<and> i < 6 \<and> p \<in> set (level k i))"
      using j(2) by (metis Suc_le_eq le_eq_less_or_eq)
    show ?thesis
    proof (cases "\<exists>i. Suc j \<le> i \<and> i < 6 \<and> p \<in> set (level k i)")
      case True
      then have "p \<notin> set (level k j)" "ages k1 p = ages k p" using apart same by (auto simp: Suc_le_eq)
      then show ?thesis using True k'(9) [rule_format, of p] k1(9) [rule_format, of p] unfolding low split ag by simp
    next
      case False
      then show ?thesis using k'(9) [rule_format, of p] k1(9) [rule_format, of p]
        unfolding low split by (simp only: False simp_thms if_False)
    qed
  qed
  ultimately show ?case
    using run k'(1-7) k1(4-7) sched_frame_trans [OF k1(3) k'(3)] by (intro exI [of _ k'] conjI) simp_all
qed

lemma scheduler_age_ready_eq: "scheduler_age_ready = age_levels (map of_nat [1..<6])"
proof -
  have "[1..<6] = [1, 2, 3, 4, 5::nat]" by (simp add: upt_rec)
  then show ?thesis by (simp add: scheduler_age_ready_def)
qed

section \<open>Leaving the levels\<close>

lemma remove_every_spec:
  assumes "queue_inv k" and "q \<in> dom (queues k)"
  shows "\<exists>k'. remove_every q p b k = Some (b \<or> p \<in> set (qelems k q), k') \<and> queue_inv k' \<and>
    queue_frame k k' \<and> dom (queues k') = dom (queues k) \<and>
    qelems k' = (qelems k)(q := removeAll p (qelems k q)) \<and>
    (p \<in> set (qelems k q) \<longrightarrow> queue_room k') \<and> (p \<notin> set (qelems k q) \<longrightarrow> k' = k)"
  using assms
proof (induction "length (qelems k q)" arbitrary: k b rule: less_induct)
  case less
  obtain k1 where k1: "queue_remove q p k = Some (p \<in> set (qelems k q), k1)" "queue_inv k1" "queue_frame k k1"
    "dom (queues k1) = dom (queues k)" "qelems k1 = (qelems k)(q := remove1 p (qelems k q))"
    "p \<in> set (qelems k q) \<longrightarrow> queue_room k1" "p \<notin> set (qelems k q) \<longrightarrow> k1 = k"
    using kq.remove_law [OF less.prems, of p] by (elim exE conjE)
  show ?case
  proof (cases "p \<in> set (qelems k q)")
    case False
    then have "remove_every q p b k = Some (b, k)" using k1(1,7) by (subst remove_every.simps) simp
    then show ?thesis using False less.prems by (simp add: removeAll_id)
  next
    case True
    have "length (qelems k1 q) < length (qelems k q)"
      using True k1(5) length_pos_if_in_set [OF True] by (simp add: length_remove1)
    moreover have "q \<in> dom (queues k1)" using less.prems(2) k1(4) by simp
    ultimately obtain k' where k': "remove_every q p True k1 = Some (True, k')" "queue_inv k'" "queue_frame k1 k'"
      "dom (queues k') = dom (queues k1)" "qelems k' = (qelems k1)(q := removeAll p (qelems k1 q))"
      "p \<in> set (qelems k1 q) \<longrightarrow> queue_room k'" "p \<notin> set (qelems k1 q) \<longrightarrow> k' = k1"
      using less.hyps [of k1 True] k1(2) by auto
    have "remove_every q p b k = Some (True, k')" using k1(1) True k'(1) by (subst remove_every.simps) simp
    moreover have "removeAll p (remove1 p (qelems k q)) = removeAll p (qelems k q)"
      by (induction "qelems k q") (auto simp: removeAll_filter_not_eq filter_remove1 remove1_idem)
    moreover have "queue_room k'" using k'(6,7) k1(6) True by blast
    ultimately show ?thesis
      using True k'(2-5) k1(4,5) queue_frame_trans [OF k1(3) k'(3)]
      by (intro exI [of _ k'] conjI) simp_all
  qed
qed

lemma remove_levels_spec:
  assumes "queue_inv k" and "set qs \<subseteq> dom (queues k)" and "distinct qs"
  shows "\<exists>k'. remove_levels qs p b k = Some (b \<or> (\<exists>q\<in>set qs. p \<in> set (qelems k q)), k') \<and> queue_inv k' \<and>
    queue_frame k k' \<and> dom (queues k') = dom (queues k) \<and>
    (\<forall>q. qelems k' q = (if q \<in> set qs then removeAll p (qelems k q) else qelems k q)) \<and>
    ((\<exists>q\<in>set qs. p \<in> set (qelems k q)) \<longrightarrow> queue_room k') \<and>
    (\<not> (\<exists>q\<in>set qs. p \<in> set (qelems k q)) \<longrightarrow> k' = k)"
  using assms
proof (induction qs arbitrary: k b)
  case Nil
  then show ?case by simp
next
  case (Cons q qs)
  have q: "q \<in> dom (queues k)" using Cons.prems(2) by simp
  then have q0: "q \<noteq> NULL" using object_live(1) [OF queue_inv_heap [OF Cons.prems(1)]] by blast
  obtain k1 where k1: "remove_every q p b k = Some (b \<or> p \<in> set (qelems k q), k1)" "queue_inv k1"
    "queue_frame k k1" "dom (queues k1) = dom (queues k)"
    "qelems k1 = (qelems k)(q := removeAll p (qelems k q))"
    "p \<in> set (qelems k q) \<longrightarrow> queue_room k1" "p \<notin> set (qelems k q) \<longrightarrow> k1 = k"
    using remove_every_spec [OF Cons.prems(1) q, of p b] by (elim exE conjE)
  have "set qs \<subseteq> dom (queues k1)" "distinct qs" using Cons.prems(2,3) k1(4) by auto
  from Cons.IH [OF k1(2) this, of "b \<or> p \<in> set (qelems k q)"] obtain k' where
    k': "remove_levels qs p (b \<or> p \<in> set (qelems k q)) k1 =
        Some ((b \<or> p \<in> set (qelems k q)) \<or> (\<exists>q\<in>set qs. p \<in> set (qelems k1 q)), k')" "queue_inv k'"
      "queue_frame k1 k'" "dom (queues k') = dom (queues k1)"
      "\<forall>q. qelems k' q = (if q \<in> set qs then removeAll p (qelems k1 q) else qelems k1 q)"
      "(\<exists>q\<in>set qs. p \<in> set (qelems k1 q)) \<longrightarrow> queue_room k'"
      "\<not> (\<exists>q\<in>set qs. p \<in> set (qelems k1 q)) \<longrightarrow> k' = k1"
    by (elim exE conjE)
  have qn: "q \<notin> set qs" using Cons.prems(3) by simp
  then have ex: "(\<exists>q\<in>set qs. p \<in> set (qelems k1 q)) \<longleftrightarrow> (\<exists>q\<in>set qs. p \<in> set (qelems k q))"
    using k1(5) by auto
  have run: "remove_levels (q # qs) p b k = Some (b \<or> (\<exists>q\<in>set (q # qs). p \<in> set (qelems k q)), k')"
    using k1(1) k'(1) q0 unfolding ex by (simp add: disj_assoc)
  have el: "\<forall>x. qelems k' x = (if x \<in> set (q # qs) then removeAll p (qelems k x) else qelems k x)"
    using k'(5) k1(5) qn by auto
  have rm: "(\<exists>q\<in>set (q # qs). p \<in> set (qelems k q)) \<longrightarrow> queue_room k'"
    using k'(6,7) k1(6) unfolding ex by auto
  have nr: "\<not> (\<exists>q\<in>set (q # qs). p \<in> set (qelems k q)) \<longrightarrow> k' = k"
    using k'(7) k1(7) unfolding ex by auto
  show ?case
    using run el rm nr k'(2,4) k1(4) queue_frame_trans [OF k1(3) k'(3)] by (intro exI [of _ k'] conjI) simp_all
qed

lemma waiting_iff: "ready_inv k \<Longrightarrow> waiting k p \<longleftrightarrow> (\<exists>q\<in>set (sch_ready_queues k). p \<in> set (qelems k q))"
  unfolding waiting_def using ready_invD(2) by (metis in_set_conv_nth)

lemma waiting_ready: "ready_inv k \<Longrightarrow> waiting k p \<Longrightarrow> \<exists>i<6. ready_at k i p"
  unfolding waiting_def using ready_invD(6) by blast

lemma scheduler_remove_ready_spec:
  assumes inv: "ready_inv k" and p: "p \<noteq> NULL"
  obtains k' where "scheduler_remove_ready p k = Some (waiting k p, k')" "ready_inv k'" "queue_frame k k'"
    "sched_frame k k'" "\<forall>i<6. level k' i = removeAll p (level k i)" "\<not> waiting k' p"
    "queue_room k' = (waiting k p \<or> queue_room k)" "\<not> waiting k p \<longrightarrow> k' = k"
proof (cases "p = sch_idle k")
  case True
  have nw: "\<not> waiting k p" using waiting_ready [OF inv] True by (auto simp: ready_at_def)
  then have "\<forall>i<6. level k i = removeAll p (level k i)" by (auto simp: waiting_def removeAll_id)
  then show ?thesis using that [of k] True inv nw by (simp add: scheduler_remove_ready_def)
next
  case False
  let ?w = "\<exists>q\<in>set (sch_ready_queues k). p \<in> set (qelems k q)"
  have d: "set (sch_ready_queues k) \<subseteq> dom (queues k)" "distinct (sch_ready_queues k)"
    using inv by (auto simp: ready_inv_def)
  obtain k' where k': "remove_levels (sch_ready_queues k) p False k = Some (False \<or> ?w, k')" "queue_inv k'"
    "queue_frame k k'" "dom (queues k') = dom (queues k)"
    "\<forall>q. qelems k' q = (if q \<in> set (sch_ready_queues k) then removeAll p (qelems k q) else qelems k q)"
    "?w \<longrightarrow> queue_room k'" "\<not> ?w \<longrightarrow> k' = k"
    using remove_levels_spec [OF ready_invD(1) [OF inv] d, of p False] by (elim exE conjE)
  note f = queue_frameD [OF k'(3)]
  have lv: "level k' i = removeAll p (level k i)" if "i < 6" for i
    using k'(5) nth_mem [of i "sch_ready_queues k"] ready_invD(2) [OF inv] that by (simp add: f)
  have inv': "ready_inv k'"
    using inv k'(3,2,4)
  proof (rule ready_inv_queue)
    show "distinct (level k' i) \<and> (\<forall>p\<in>set (level k' i). ready_at k i p)" if "i < 6" for i
      using lv [OF that] ready_invD(5,6) [OF inv that] by (simp add: distinct_removeAll)
  qed
  have w: "waiting k p = ?w" by (rule waiting_iff [OF inv])
  have "sched_frame k k'" using k'(3,4) by (rule sched_frame_queue) (simp add: k'(5))
  moreover have "\<not> waiting k' p" using lv by (auto simp: waiting_def)
  moreover have "queue_room k' = (waiting k p \<or> queue_room k)" using k'(6,7) unfolding w by blast
  moreover have "scheduler_remove_ready p k = Some (waiting k p, k')"
    using k'(1) p False by (simp add: scheduler_remove_ready_def w)
  ultimately show ?thesis using that [of k'] inv' k'(3,7) lv w by blast
qed

section \<open>Entering the levels\<close>

text \<open>The priority \<open>scheduler_add_ready\<close> gives, and the process it makes.\<close>

definition ready_priority :: "process \<Rightarrow> u8" where
  "ready_priority pr =
     (if pr_priority_fixed pr then pr_priority_requested pr
      else if pr_is_shell pr \<and> 1 < priority_from_usage (pr_last_quantum_ticks pr) then 1
      else priority_from_usage (pr_last_quantum_ticks pr))"

definition readied :: "kernel \<Rightarrow> process \<Rightarrow> process" where
  "readied k pr = pr\<lparr>pr_state := PROCESS_STATE_READY, pr_priority := ready_priority pr,
     pr_remaining_quantum := SCHEDULER_DEFAULT_QUANTUM, pr_last_quantum_ticks := 0,
     pr_ready_since_tick := sch_total_ticks k\<rparr>"

lemma ready_priority_le:
  "ready_inv k \<Longrightarrow> procs k p = Some pr \<Longrightarrow> unat (ready_priority pr) < 6"
  using ready_fixed [of k p pr] priority_from_usage_le [of "pr_last_quantum_ticks pr"]
  by (auto simp: ready_priority_def)

lemma scheduler_add_ready_spec:
  assumes inv: "ready_inv k" and pr: "procs k p = Some pr" and idle: "p \<noteq> sch_idle k"
  obtains k' where "scheduler_add_ready p k = Some k'" "ready_inv k'" "sched_frame k k'"
    "procs k' = (procs k)(p \<mapsto> readied k pr)" "sch_current k' = sch_current k"
    "sch_total_ticks k' = sch_total_ticks k" "sch_context_switches k' = sch_context_switches k" "pcb k' = pcb k"
    "\<forall>i<6. level k' i = removeAll p (level k i) @
       (if i = unat (ready_priority pr) \<and> (waiting k p \<or> queue_room k) then [p] else [])"
proof -
  have p0: "p \<noteq> NULL" using ready_not_null [OF inv pr] .
  obtain k1 where k1: "scheduler_remove_ready p k = Some (waiting k p, k1)" "ready_inv k1" "queue_frame k k1"
    "sched_frame k k1" "\<forall>i<6. level k1 i = removeAll p (level k i)" "\<not> waiting k1 p"
    "queue_room k1 = (waiting k p \<or> queue_room k)" "\<not> waiting k p \<longrightarrow> k1 = k"
    by (rule scheduler_remove_ready_spec [OF inv p0])
  note f = queue_frameD [OF k1(3)]
  have start: "(if pr_state pr = PROCESS_STATE_READY
      then do { (_, k) \<leftarrow> scheduler_remove_ready p k; Some k } else Some k) = Some k1"
  proof (cases "pr_state pr = PROCESS_STATE_READY")
    case False
    then have "\<not> waiting k p" using waiting_ready [OF inv, of p] pr by (auto simp: ready_at_def)
    then show ?thesis using False k1(8) by simp
  qed (simp add: k1(1))
  define k2 where "k2 = k1\<lparr>procs := (procs k1)(p \<mapsto> readied k pr)\<rparr>"
  let ?i = "unat (ready_priority pr)"
  have i: "?i < 6" by (rule ready_priority_le [OF inv pr])
  have inv2: "ready_inv k2"
    unfolding k2_def
    by (rule ready_inv_upd_proc [OF k1(2)]) (use pr k1(6) ready_fixed [OF inv pr] in \<open>simp_all add: f readied_def\<close>)
  have rdy: "ready_at k2 ?i p" using pr idle by (simp add: ready_at_def k2_def f readied_def)
  have lv2: "level k2 j = level k1 j" for j by (simp add: k2_def)
  have "p \<notin> set (level k2 ?i)" using k1(6) i unfolding lv2 waiting_def by blast
  from level_push [OF inv2 i rdy this] obtain k' where
    k': "queue_push (sch_ready_queues k2 ! ?i) p k2 = Some (queue_room k2, k')" "ready_inv k'"
      "queue_frame k2 k'" "sched_frame k2 k'"
      "\<forall>j<6. level k' j = (if j = ?i \<and> queue_room k2 then level k2 j @ [p] else level k2 j)" .
  note g = queue_frameD [OF k'(3)]
  have "sched_frame k1 k2"
    unfolding k2_def by (rule sched_frame_proc) (use pr in \<open>auto simp: f sched_fields_only_def readied_def\<close>)
  then have fr: "sched_frame k k'" using k1(4) k'(4) sched_frame_trans by blast
  have pidx: "priority_index (ready_priority pr) = ?i" using i by (rule priority_index_small)
  have pr1: "procs k1 p = Some pr" "sch_idle k1 = sch_idle k" "sch_total_ticks k1 = sch_total_ticks k"
    using pr by (simp_all add: f)
  have steps: "(let pr = pr\<lparr>pr_state := PROCESS_STATE_READY\<rparr>;
        pr = (if pr_priority_fixed pr then pr\<lparr>pr_priority := pr_priority_requested pr\<rparr>
              else let pr = pr\<lparr>pr_priority := priority_from_usage (pr_last_quantum_ticks pr)\<rparr>
                   in if pr_is_shell pr \<and> SHELL_PRIORITY_THRESHOLD < pr_priority pr
                      then pr\<lparr>pr_priority := SHELL_PRIORITY_THRESHOLD\<rparr> else pr)
      in pr\<lparr>pr_remaining_quantum := SCHEDULER_DEFAULT_QUANTUM, pr_last_quantum_ticks := 0,
            pr_ready_since_tick := sch_total_ticks k\<rparr>) = readied k pr"
    by (simp add: Let_def readied_def ready_priority_def SHELL_PRIORITY_THRESHOLD_def SCHEDULER_MAX_PRIORITY_def)
  have "scheduler_add_ready p k = Some k'"
    unfolding scheduler_add_ready_def
    using p0 pr start idle pr1 steps inv2 pidx k'(1)
    by (simp add: k2_def Let_def readied_def cong: if_cong)
  moreover have "level k' j = removeAll p (level k j) @
       (if j = ?i \<and> (waiting k p \<or> queue_room k) then [p] else [])" if "j < 6" for j
    using k'(5) [rule_format, OF that] k1(5) [rule_format, OF that] k1(7) unfolding lv2 by (auto simp: k2_def)
  ultimately show ?thesis
    using that [of k'] k'(2) fr by (simp add: g k2_def f)
qed

section \<open>Blocking and unblocking\<close>

lemma ready_inv_state:
  assumes "ready_inv k" and "procs k p = Some pr" and "\<not> waiting k p"
  shows "ready_inv (k\<lparr>procs := (procs k)(p \<mapsto> pr\<lparr>pr_state := st\<rparr>)\<rparr>)"
  by (rule ready_inv_upd_proc [OF assms]) (use ready_fixed [OF assms(1,2)] in simp)

lemma process_block_spec:
  assumes inv: "ready_inv k" and pr: "procs k p = Some pr" and nb: "pr_state pr \<noteq> PROCESS_STATE_BLOCKED"
  obtains k' where "process_block p k = Some (True, k')" "ready_inv k'" "sched_frame k k'"
    "procs k' = (procs k)(p \<mapsto> pr\<lparr>pr_state := PROCESS_STATE_BLOCKED\<rparr>)" "sch_current k' = sch_current k"
    "\<forall>i<6. level k' i = removeAll p (level k i)" "pcb k' = pcb k"
proof -
  have p0: "p \<noteq> NULL" using ready_not_null [OF inv pr] .
  obtain k1 where k1: "scheduler_remove_ready p k = Some (waiting k p, k1)" "ready_inv k1" "queue_frame k k1"
    "sched_frame k k1" "\<forall>i<6. level k1 i = removeAll p (level k i)" "\<not> waiting k1 p"
    "queue_room k1 = (waiting k p \<or> queue_room k)" "\<not> waiting k p \<longrightarrow> k1 = k"
    by (rule scheduler_remove_ready_spec [OF inv p0])
  note f = queue_frameD [OF k1(3)]
  have start: "(if pr_state pr = PROCESS_STATE_READY
      then do { (_, k) \<leftarrow> scheduler_remove_ready p k; Some k } else Some k) = Some k1"
  proof (cases "pr_state pr = PROCESS_STATE_READY")
    case False
    then have "\<not> waiting k p" using waiting_ready [OF inv, of p] pr by (auto simp: ready_at_def)
    then show ?thesis using False k1(8) by simp
  qed (simp add: k1(1))
  have pr1: "procs k1 p = Some pr" using pr by (simp add: f)
  let ?pr = "pr\<lparr>pr_state := PROCESS_STATE_BLOCKED\<rparr>"
  let ?k = "k1\<lparr>procs := (procs k1)(p \<mapsto> ?pr)\<rparr>"
  have "process_block p k = Some (True, ?k)"
    unfolding process_block_def using p0 pr nb start pr1 by simp
  moreover have "ready_inv ?k" by (rule ready_inv_state [OF k1(2) pr1 k1(6)])
  moreover have "sched_frame k1 ?k"
    by (rule sched_frame_proc [OF pr1]) (simp add: sched_fields_only_def)
  ultimately show ?thesis
    using that [of ?k] sched_frame_trans [OF k1(4)] k1(5) by (simp add: f)
qed

lemma process_block_blocked:
  "p \<noteq> NULL \<Longrightarrow> procs k p = Some pr \<Longrightarrow> pr_state pr = PROCESS_STATE_BLOCKED \<Longrightarrow>
   process_block p k = Some (False, k)"
  by (simp add: process_block_def)

lemma process_unblock_not_blocked:
  "p \<noteq> NULL \<Longrightarrow> procs k p = Some pr \<Longrightarrow> pr_state pr \<noteq> PROCESS_STATE_BLOCKED \<Longrightarrow>
   process_unblock p k = Some (False, k)"
  by (simp add: process_unblock_def)

lemma process_unblock_spec:
  assumes inv: "ready_inv k" and pr: "procs k p = Some pr" and b: "pr_state pr = PROCESS_STATE_BLOCKED"
    and idle: "p \<noteq> sch_idle k"
  obtains k' where "process_unblock p k = Some (True, k')" "ready_inv k'" "sched_frame k k'"
    "procs k' = (procs k)(p \<mapsto> readied k pr)" "sch_current k' = sch_current k"
    "sch_total_ticks k' = sch_total_ticks k" "pcb k' = pcb k"
    "\<forall>i<6. level k' i = level k i @ (if i = unat (ready_priority pr) \<and> queue_room k then [p] else [])"
proof -
  have p0: "p \<noteq> NULL" using ready_not_null [OF inv pr] .
  have nw: "\<not> waiting k p" using waiting_ready [OF inv, of p] pr b by (auto simp: ready_at_def)
  obtain k' where k': "scheduler_add_ready p k = Some k'" "ready_inv k'" "sched_frame k k'"
    "procs k' = (procs k)(p \<mapsto> readied k pr)" "sch_current k' = sch_current k"
    "sch_total_ticks k' = sch_total_ticks k" "sch_context_switches k' = sch_context_switches k" "pcb k' = pcb k"
    "\<forall>i<6. level k' i = removeAll p (level k i) @
       (if i = unat (ready_priority pr) \<and> (waiting k p \<or> queue_room k) then [p] else [])"
    by (rule scheduler_add_ready_spec [OF inv pr idle])
  have "removeAll p (level k i) = level k i" if "i < 6" for i
    using nw that by (auto simp: waiting_def removeAll_id)
  then have "\<forall>i<6. level k' i = level k i @ (if i = unat (ready_priority pr) \<and> queue_room k then [p] else [])"
    using k'(9) nw by simp
  moreover have "process_unblock p k = Some (True, k')"
    using p0 pr b k'(1) by (simp add: process_unblock_def)
  ultimately show ?thesis using that [of k'] k'(2-6,8) by blast
qed

section \<open>Choosing the next process\<close>

text \<open>The highest level with a process, among the given ones.\<close>

fun first_nonempty :: "nat list \<Rightarrow> (nat \<Rightarrow> addr list) \<Rightarrow> nat option" where
  "first_nonempty [] lv = None"
| "first_nonempty (i # is) lv = (if lv i \<noteq> [] then Some i else first_nonempty is lv)"

lemma first_nonempty_None: "first_nonempty is lv = None \<longleftrightarrow> (\<forall>i\<in>set is. lv i = [])"
  by (induction "is") auto

lemma first_nonempty_Some:
  "first_nonempty is lv = Some i \<Longrightarrow> i \<in> set is \<and> lv i \<noteq> []"
  by (induction "is") (auto split: if_splits)

lemma first_nonempty_upt:
  "first_nonempty [m..<n] lv = Some i \<longleftrightarrow> m \<le> i \<and> i < n \<and> lv i \<noteq> [] \<and> (\<forall>j. m \<le> j \<and> j < i \<longrightarrow> lv j = [])"
proof (induction "n - m" arbitrary: m)
  case (Suc d)
  then have m: "m < n" by simp
  show ?case
  proof (cases "lv m = []")
    case True
    then show ?thesis
      using Suc.hyps(1) [of "Suc m"] Suc.hyps(2) m
      by (auto simp: upt_conv_Cons) (metis Suc_leI le_eq_less_or_eq)+
  next
    case False
    then show ?thesis using m by (auto simp: upt_conv_Cons)
  qed
qed auto

lemma pick_next_spec:
  assumes inv: "ready_inv k" and ps: "\<forall>p\<in>set ps. unat p < 6"
  shows "case first_nonempty (map unat ps) (level k) of
      None \<Rightarrow> pick_next ps k = Some (NULL, k)
    | Some i \<Rightarrow> \<exists>p rest k'. level k i = p # rest \<and> pick_next ps k = Some (p, k') \<and> ready_inv k' \<and>
        queue_frame k k' \<and> sched_frame k k' \<and> \<not> waiting k' p \<and>
        (\<forall>j<6. level k' j = (if j = i then rest else level k j))"
  using ps
proof (induction ps)
  case Nil
  then show ?case by simp
next
  case (Cons x ps)
  have i: "unat x < 6" using Cons.prems by simp
  have q: "queue_for_priority x k = Some (sch_ready_queues k ! unat x, k)"
    using queue_for_priority_ready [OF inv] i by (simp add: priority_index_small)
  show ?case
  proof (cases "level k (unat x)")
    case Nil
    have run: "pick_next (x # ps) k = pick_next ps k" using level_pop_Nil [OF inv i Nil] q by simp
    have fst: "first_nonempty (map unat (x # ps)) (level k) = first_nonempty (map unat ps) (level k)"
      using Nil by simp
    show ?thesis unfolding run fst by (rule Cons.IH) (use Cons.prems in simp)
  next
    case (Cons p rest)
    obtain k' where k': "queue_pop (sch_ready_queues k ! unat x) k = Some (p, k')" "ready_inv k'" "queue_room k'"
      "queue_frame k k'" "sched_frame k k'" "\<forall>j<6. level k' j = (if j = unat x then rest else level k j)"
      "\<not> waiting k' p"
      by (rule level_pop_Cons [OF inv i Cons])
    have "p \<in> set (level k (unat x))" using Cons by simp
    then have r: "ready_at k (unat x) p" by (rule ready_invD(6) [OF inv i])
    then obtain pr where pr: "procs k p = Some pr" "pr_state pr = PROCESS_STATE_READY" "p \<noteq> sch_idle k"
      by (auto simp: ready_at_def)
    have "pick_next (x # ps) k = Some (p, k')"
      using k'(1) q pr ready_not_null [OF inv pr(1)] queue_frameD [OF k'(4)] by simp
    then show ?thesis using Cons k' by auto
  qed
qed

section \<open>The tick\<close>

lemma ready_inv_static [simp]:
  "ready_inv (k\<lparr>sch_total_ticks := n\<rparr>) = ready_inv k"
  "ready_inv (k\<lparr>sch_context_switches := n\<rparr>) = ready_inv k"
proof -
  have "queue_inv (k\<lparr>sch_total_ticks := n\<rparr>) = queue_inv k"
    using queue_inv_write(8) [of k n] queue_inv_write(8) [of "k\<lparr>sch_total_ticks := n\<rparr>" "sch_total_ticks k"]
    by auto
  then show "ready_inv (k\<lparr>sch_total_ticks := n\<rparr>) = ready_inv k"
    unfolding ready_inv_def ready_at_def by simp
  have "queue_inv (k\<lparr>sch_context_switches := n\<rparr>) = queue_inv k"
    using queue_inv_write(9) [of k n]
      queue_inv_write(9) [of "k\<lparr>sch_context_switches := n\<rparr>" "sch_context_switches k"] by auto
  then show "ready_inv (k\<lparr>sch_context_switches := n\<rparr>) = ready_inv k"
    unfolding ready_inv_def ready_at_def by simp
qed

lemma ready_inv_current:
  "ready_inv k \<Longrightarrow> c = NULL \<or> procs k c \<noteq> None \<Longrightarrow> ready_inv (k\<lparr>sch_current := c\<rparr>)"
  unfolding ready_inv_def ready_at_def by (elim disjE) simp_all

lemma process_set_running_spec:
  assumes inv: "ready_inv k" and p: "p = NULL \<or> procs k p \<noteq> None"
  obtains k' where "process_set_running p k = Some k'" "k' = k\<lparr>pcb := pcb k'\<rparr>" "ready_inv k'"
    "sched_frame k k'"
    "\<forall>a t. pcb k = Some (a, t) \<longrightarrow> pcb k' = Some (a, t\<lparr>pc_running_pid :=
       (if p = NULL then -1 else pr_pid (the (procs k p)))\<rparr>)"
proof (cases "pcb k")
  case None
  then have "process_set_running p k = Some k" by (simp add: process_set_running_def)
  then show ?thesis using that [of k] inv None by simp
next
  case (Some x)
  obtain a t where x: "pcb k = Some (a, t)" using Some by (cases x) simp
  let ?t = "t\<lparr>pc_running_pid := (if p = NULL then -1 else pr_pid (the (procs k p)))\<rparr>"
  let ?k = "k\<lparr>pcb := Some (a, ?t)\<rparr>"
  have "process_set_running p k = Some ?k" using x p by (auto simp: process_set_running_def)
  moreover have "ready_inv ?k"
    using inv x unfolding ready_inv_def ready_at_def by simp
  moreover have "sched_frame k ?k"
    using x by (auto simp: sched_frame_def table_frame_def option.rel_refl)
  ultimately show ?thesis using that [of ?k] x by simp
qed

lemma sched_frame_static [simp]:
  "sched_frame k (k\<lparr>sch_total_ticks := n\<rparr>)" "sched_frame k (k\<lparr>sch_context_switches := n\<rparr>)"
  "sched_frame k (k\<lparr>sch_current := c\<rparr>)"
  by (simp_all add: sched_frame_def option.rel_refl table_frame_same)

text \<open>No process is running, as between the two halves of a switching tick.\<close>

definition none_running :: "kernel \<Rightarrow> bool" where
  "none_running k \<longleftrightarrow> (\<forall>p pr. procs k p = Some pr \<longrightarrow> pr_state pr \<noteq> PROCESS_STATE_RUNNING)"

text \<open>
  The cases of the first half. The process goes on (\<open>False\<close>) exactly when it is not idle, is
  running and has ticks of its quantum left.
\<close>

text \<open>A blocked process stays blocked, whatever the scheduler does with the others.\<close>

definition blocked :: "kernel \<Rightarrow> addr \<Rightarrow> bool" where
  "blocked k p \<longleftrightarrow> p \<noteq> sch_idle k \<and>
     (\<exists>pr. procs k p = Some pr \<and> pr_state pr = PROCESS_STATE_BLOCKED)"

lemma blocked_upd:
  assumes "blocked k p" and "procs k' = (procs k)(c \<mapsto> pr)" and "sch_idle k' = sch_idle k"
    and "c = p \<Longrightarrow> pr_state pr = PROCESS_STATE_BLOCKED"
  shows "blocked k' p"
  using assms by (auto simp: blocked_def)

lemma tick_running_continue:
  assumes inv: "sched_inv k" and c: "sch_current k \<noteq> NULL" "sch_current k \<noteq> sch_idle k"
    and pr: "procs k (sch_current k) = Some pr" "pr_state pr = PROCESS_STATE_RUNNING" "0 < pr_remaining_quantum pr"
  shows "tick_running rsp k = Some (False, k\<lparr>procs := (procs k)(sch_current k \<mapsto>
      pr\<lparr>pr_rsp := rsp, pr_remaining_quantum := pr_remaining_quantum pr - 1,
         pr_last_quantum_ticks := SCHEDULER_DEFAULT_QUANTUM - (pr_remaining_quantum pr - 1)\<rparr>)\<rparr>)"
  using c pr by (simp add: tick_running_def)

lemma none_running_upd:
  assumes "sched_inv k" and "pr_state pr \<noteq> PROCESS_STATE_RUNNING"
  shows "none_running (k\<lparr>procs := (procs k)(sch_current k \<mapsto> pr)\<rparr>)"
  using assms by (auto simp: none_running_def sched_inv_def running_inv_def)

lemma tick_running_switch:
  assumes inv: "sched_inv k"
    and sw: "sch_current k = NULL \<or> sch_current k = sch_idle k \<or>
      (\<exists>pr. procs k (sch_current k) = Some pr \<and>
        (pr_state pr \<noteq> PROCESS_STATE_RUNNING \<or> pr_remaining_quantum pr = 0))"
  shows "\<exists>k'. tick_running rsp k = Some (True, k') \<and> ready_inv k' \<and> none_running k' \<and> sched_frame k k' \<and>
    sch_total_ticks k' = sch_total_ticks k \<and>
    (sch_current k' = NULL \<or> sch_current k' = sch_idle k) \<and>
    (\<forall>p pr. procs k p = Some pr \<longrightarrow> (\<exists>pr'. procs k' p = Some pr' \<and>
       pr_rsp pr' = (if p = sch_current k then rsp else pr_rsp pr) \<and>
       (p \<noteq> sch_current k \<longrightarrow> pr' = pr))) \<and>
    (\<forall>p. waiting k p \<longrightarrow> waiting k' p) \<and>
    (sch_current k \<noteq> sch_idle k \<and> none_running k = False \<and> queue_room k \<longrightarrow> waiting k' (sch_current k)) \<and>
    (\<forall>p. blocked k p \<longrightarrow> blocked k' p)"
proof (cases "sch_current k = NULL")
  case True
  have "none_running k"
    using inv True ready_not_null [of k] by (auto simp: none_running_def sched_inv_def running_inv_def)
  moreover have "procs k NULL = None" using inv ready_not_null [of k NULL]
    by (cases "procs k NULL") (auto simp: sched_inv_def)
  ultimately show ?thesis
    using inv True by (intro exI [of _ k]) (auto simp: tick_running_def sched_inv_def)
next
  case False
  have rinv: "ready_inv k" using inv by (simp add: sched_inv_def)
  then obtain pr where pr: "procs k (sch_current k) = Some pr" using False by (auto simp: ready_inv_def)
  let ?c = "sch_current k" and ?pr = "pr\<lparr>pr_rsp := rsp\<rparr>"
  let ?k1 = "k\<lparr>procs := (procs k)(sch_current k \<mapsto> pr\<lparr>pr_rsp := rsp\<rparr>)\<rparr>"
  have inv1: "ready_inv ?k1" by (rule ready_inv_upd_same [OF rinv pr]) simp_all
  have fr1: "sched_frame k ?k1" by (rule sched_frame_proc [OF pr]) (simp add: sched_fields_only_def)
  show ?thesis
  proof (cases "?c = sch_idle k")
    case True
    let ?k2 = "k\<lparr>procs := (procs k)(?c \<mapsto> ?pr\<lparr>pr_state := PROCESS_STATE_READY\<rparr>)\<rparr>"
    have nw: "\<not> waiting ?k1 ?c" using waiting_ready [OF inv1, of ?c] True by (auto simp: ready_at_def)
    have "ready_inv ?k2" using ready_inv_state [OF inv1 _ nw, of ?pr] by simp
    moreover have "sched_frame k ?k2" by (rule sched_frame_proc [OF pr]) (simp add: sched_fields_only_def)
    moreover have "tick_running rsp k = Some (True, ?k2)"
      using False True pr by (simp add: tick_running_def)
    moreover have "blocked ?k2 p" if "blocked k p" for p using that True by (auto simp: blocked_def)
    ultimately show ?thesis using True none_running_upd [OF inv, of "?pr\<lparr>pr_state := PROCESS_STATE_READY\<rparr>"]
      by (intro exI [of _ ?k2]) (simp add: pr waiting_def)
  next
    case ni: False
    show ?thesis
    proof (cases "pr_state pr = PROCESS_STATE_RUNNING")
      case False
      let ?k2 = "?k1\<lparr>sch_current := NULL\<rparr>"
      have i2: "ready_inv ?k2" using inv1 by (intro ready_inv_current) auto
      obtain k3 where k3: "process_set_running NULL ?k2 = Some k3" "k3 = ?k2\<lparr>pcb := pcb k3\<rparr>" "ready_inv k3"
        "sched_frame ?k2 k3"
        by (rule process_set_running_spec [OF i2, of NULL]) simp_all
      have p3: "procs k3 = procs ?k1" "sch_current k3 = NULL" "sch_total_ticks k3 = sch_total_ticks k"
        by (subst k3(2), simp)+
      have "tick_running rsp k = Some (True, k3)"
        using \<open>?c \<noteq> NULL\<close> ni False pr k3(1) by (simp add: tick_running_def)
      moreover have "none_running k3"
        using none_running_upd [OF inv, of ?pr] False by (simp add: none_running_def p3)
      moreover have "sched_frame k k3"
        using sched_frame_trans [OF fr1 sched_frame_trans [OF sched_frame_static(3) k3(4)]] .
      moreover have "waiting k3 p = waiting k p" for p by (subst k3(2)) (simp add: waiting_def)
      moreover have "none_running k"
        using inv False pr by (auto simp: none_running_def sched_inv_def running_inv_def)
      moreover have "blocked k3 p" if "blocked k p" for p
        using that pr p3(1) sched_frameD(2) [OF k3(4)] by (auto simp: blocked_def)
      ultimately show ?thesis using k3(3) p3 by (intro exI [of _ k3]) (simp add: pr)
    next
      case run: True
      then have q0: "pr_remaining_quantum pr = 0" using sw pr False ni by auto
      obtain k2 where k2: "scheduler_add_ready ?c ?k1 = Some k2" "ready_inv k2" "sched_frame ?k1 k2"
        "procs k2 = (procs ?k1)(?c \<mapsto> readied ?k1 ?pr)" "sch_current k2 = sch_current ?k1"
        "sch_total_ticks k2 = sch_total_ticks ?k1"
        "\<forall>i<6. level k2 i = removeAll ?c (level ?k1 i) @
           (if i = unat (ready_priority ?pr) \<and> (waiting ?k1 ?c \<or> queue_room ?k1) then [?c] else [])"
        by (rule scheduler_add_ready_spec [OF inv1, of ?c ?pr]) (use ni in simp_all)
      let ?k3 = "k2\<lparr>sch_current := NULL\<rparr>"
      have i3: "ready_inv ?k3" using k2(2) by (intro ready_inv_current) auto
      obtain k4 where k4: "process_set_running NULL ?k3 = Some k4" "k4 = ?k3\<lparr>pcb := pcb k4\<rparr>" "ready_inv k4"
        "sched_frame ?k3 k4"
        by (rule process_set_running_spec [OF i3, of NULL]) simp_all
      have p4: "procs k4 = (procs k)(?c \<mapsto> readied ?k1 ?pr)" "sch_current k4 = NULL"
        "sch_total_ticks k4 = sch_total_ticks k"
        using k2(4,6) by (subst k4(2), simp)+
      have "tick_running rsp k = Some (True, k4)"
        using \<open>?c \<noteq> NULL\<close> ni run q0 pr k2(1) k4(1) by (simp add: tick_running_def)
      moreover have "none_running k4"
        using none_running_upd [OF inv, of "readied ?k1 ?pr"] by (simp add: none_running_def p4 readied_def)
      moreover have "sched_frame k k4"
        using sched_frame_trans [OF fr1 sched_frame_trans [OF k2(3) sched_frame_trans [OF sched_frame_static(3) k4(4)]]] .
      moreover have w4: "waiting k4 p = waiting k2 p" for p by (subst k4(2)) (simp add: waiting_def)
      have "\<not> waiting k ?c" using waiting_ready [OF rinv, of ?c] pr run by (auto simp: ready_at_def)
      then have "waiting k4 p" if "waiting k p" for p
        using that k2(7) unfolding w4 by (fastforce simp: waiting_def)
      moreover have "waiting k2 ?c" if "queue_room k"
        using that k2(7) ready_priority_le [OF inv1, of ?c ?pr] unfolding waiting_def
        by (intro exI [of _ "unat (ready_priority ?pr)"]) simp
      moreover have "blocked k4 p" if "blocked k p" for p
        using that pr run p4(1) sched_frameD(2) [OF k4(4)] sched_frameD(2) [OF k2(3)] by (auto simp: blocked_def)
      ultimately show ?thesis using k4(3) p4 by (intro exI [of _ k4]) (simp add: pr readied_def w4)
    qed
  qed
qed

text \<open>The second half.\<close>

lemma running_inv_only:
  assumes "none_running k" and "sch_current k' = p" and "procs k' = (procs k)(p \<mapsto> pr)"
  shows "running_inv k'"
  using assms by (auto simp: none_running_def running_inv_def)

lemma tick_switch_next:
  assumes inv: "ready_inv k" and nr: "none_running k" and pr: "procs k next = Some pr"
    and nw: "\<not> waiting k next"
  obtains k' where "tick_switch rsp next k = Some (pr_rsp pr, k')" "sched_inv k'" "sched_frame k k'"
    "sch_current k' = next" "sch_context_switches k' = sch_context_switches k + 1"
    "procs k' = (procs k)(next \<mapsto> pr\<lparr>pr_state := PROCESS_STATE_RUNNING,
       pr_remaining_quantum := SCHEDULER_DEFAULT_QUANTUM - 1, pr_last_quantum_ticks := 1\<rparr>)"
    "\<forall>i. level k' i = level k i"
proof -
  let ?pr = "pr\<lparr>pr_state := PROCESS_STATE_RUNNING,
    pr_remaining_quantum := SCHEDULER_DEFAULT_QUANTUM - 1, pr_last_quantum_ticks := 1\<rparr>"
  let ?k1 = "k\<lparr>sch_current := next, procs := (procs k)(next \<mapsto> ?pr)\<rparr>"
  let ?k2 = "?k1\<lparr>sch_context_switches := sch_context_switches k + 1\<rparr>"
  have "ready_inv (k\<lparr>sch_current := next\<rparr>)" using inv pr by (intro ready_inv_current) auto
  moreover have "\<not> waiting (k\<lparr>sch_current := next\<rparr>) next" using nw by (simp add: waiting_def)
  ultimately have "ready_inv ?k1"
    using ready_inv_upd_proc [of "k\<lparr>sch_current := next\<rparr>" "next" pr ?pr] pr ready_fixed [OF inv pr] by simp
  then have i2: "ready_inv ?k2" by simp
  obtain k3 where k3: "process_set_running next ?k2 = Some k3" "k3 = ?k2\<lparr>pcb := pcb k3\<rparr>" "ready_inv k3"
    "sched_frame ?k2 k3"
    by (rule process_set_running_spec [OF i2, of "next"]) simp_all
  have p3: "procs k3 = (procs k)(next \<mapsto> ?pr)" "sch_current k3 = next"
    "sch_context_switches k3 = sch_context_switches k + 1" "\<forall>i. level k3 i = level k i"
    by (subst k3(2), simp)+
  have "tick_switch rsp next k = Some (pr_rsp pr, k3)"
    using ready_not_null [OF inv pr] pr k3(1) p3(1) by (simp add: tick_switch_def)
  moreover have "sched_inv k3"
    using k3(3) running_inv_only [OF nr p3(2,1)] by (simp add: sched_inv_def)
  moreover have "sched_frame k k3"
  proof -
    have "sched_frame (k\<lparr>sch_current := next\<rparr>) ?k1"
      using sched_frame_proc [of "k\<lparr>sch_current := next\<rparr>" "next" pr ?pr] pr
      by (simp add: sched_fields_only_def)
    then show ?thesis
      using sched_frame_trans sched_frame_static(2,3) k3(4) by blast
  qed
  ultimately show ?thesis using that [of k3] p3 by simp
qed

lemma tick_switch_idle:
  assumes inv: "ready_inv k" and nr: "none_running k" and cur: "sch_current k = NULL \<or> sch_current k = sch_idle k"
  obtains k' where "tick_switch rsp NULL k = Some (rsp, k')" "sched_inv k'" "sched_frame k k'"
    "sch_current k' = sch_idle k" "\<forall>i. level k' i = level k i" "\<forall>p. blocked k p \<longrightarrow> blocked k' p"
proof (cases "sch_idle k = NULL")
  case True
  obtain k1 where k1: "process_set_running NULL k = Some k1" "k1 = k\<lparr>pcb := pcb k1\<rparr>" "ready_inv k1"
    "sched_frame k k1"
    by (rule process_set_running_spec [OF inv, of NULL]) simp_all
  have p1: "procs k1 = procs k" "sch_current k1 = NULL" "\<forall>i. level k1 i = level k i"
    using cur True by (subst k1(2), auto)+
  have "sched_inv k1" using k1(3) nr by (auto simp: sched_inv_def running_inv_def none_running_def p1)
  moreover have "\<forall>p. blocked k p \<longrightarrow> blocked k1 p"
    using p1(1) sched_frameD(2) [OF k1(4)] by (simp add: blocked_def)
  ultimately show ?thesis using that [of k1] True k1(1,4) p1 by (simp add: tick_switch_def)
next
  case False
  then obtain pr where pr: "procs k (sch_idle k) = Some pr" using inv by (auto simp: ready_inv_def)
  let ?pr = "pr\<lparr>pr_rsp := rsp, pr_state := PROCESS_STATE_RUNNING\<rparr>"
  let ?k1 = "k\<lparr>procs := (procs k)(sch_idle k \<mapsto> ?pr)\<rparr>"
  let ?k2 = "if sch_current k \<noteq> sch_idle k then ?k1\<lparr>sch_context_switches := sch_context_switches k + 1\<rparr> else ?k1"
  let ?k3 = "?k2\<lparr>sch_current := sch_idle k\<rparr>"
  have nw: "\<not> waiting k (sch_idle k)" using waiting_ready [OF inv] by (auto simp: ready_at_def)
  have "ready_inv ?k1" by (rule ready_inv_upd_proc [OF inv pr nw]) (use ready_fixed [OF inv pr] in simp)
  then have "ready_inv ?k2" by simp
  then have i3: "ready_inv ?k3" by (rule ready_inv_current) simp
  obtain k4 where k4: "process_set_running (sch_idle k) ?k3 = Some k4" "k4 = ?k3\<lparr>pcb := pcb k4\<rparr>" "ready_inv k4"
    "sched_frame ?k3 k4"
    by (rule process_set_running_spec [OF i3, of "sch_idle k"]) simp_all
  have p4: "procs k4 = (procs k)(sch_idle k \<mapsto> ?pr)" "sch_current k4 = sch_idle k"
    "\<forall>i. level k4 i = level k i" "sch_idle k4 = sch_idle k"
    by (subst k4(2), simp)+
  have "tick_switch rsp NULL k = Some (rsp, k4)"
    using False pr k4(1) p4(1,4) by (auto simp: tick_switch_def)
  moreover have "sched_inv k4"
    using k4(3) running_inv_only [OF nr p4(2,1)] by (simp add: sched_inv_def)
  moreover have "sched_frame k k4"
  proof -
    have "sched_frame k ?k1" by (rule sched_frame_proc [OF pr]) (simp add: sched_fields_only_def)
    moreover have "sched_frame ?k1 ?k2" by simp
    ultimately show ?thesis using sched_frame_trans sched_frame_static(3) k4(4) by blast
  qed
  moreover have "\<forall>p. blocked k p \<longrightarrow> blocked k4 p" using p4(1,4) by (auto simp: blocked_def)
  ultimately show ?thesis using that [of k4] p4 by simp
qed

section \<open>The whole tick\<close>

lemma none_running_aged:
  assumes "none_running k" and "\<forall>p. procs k' p = (if P p then map_option (aged k) (procs k p) else procs k p)"
  shows "none_running k'"
  using assms by (auto simp: none_running_def aged_def split: if_splits)

lemma tick_prefix:
  assumes inv: "sched_inv k"
    and sw: "sch_current k = NULL \<or> sch_current k = sch_idle k \<or>
      (\<exists>pr. procs k (sch_current k) = Some pr \<and>
        (pr_state pr \<noteq> PROCESS_STATE_RUNNING \<or> pr_remaining_quantum pr = 0))"
  obtains k1 k2 where
    "tick_running rsp (k\<lparr>sch_total_ticks := sch_total_ticks k + 1\<rparr>) = Some (True, k1)" "ready_inv k1"
    "scheduler_age_ready k1 = Some k2" "ready_inv k2" "none_running k2" "sched_frame k k2"
    "sch_current k2 = NULL \<or> sch_current k2 = sch_idle k" "\<forall>i<6. level k2 i = aging_from 1 k1 i"
    "\<forall>p. waiting k p \<longrightarrow> waiting k1 p"
    "sch_current k \<noteq> sch_idle k \<and> none_running k = False \<and> queue_room k \<longrightarrow> waiting k1 (sch_current k)"
    "\<forall>p pr. procs k p = Some pr \<longrightarrow> (\<exists>pr'. procs k2 p = Some pr' \<and>
       pr_rsp pr' = (if p = sch_current k then rsp else pr_rsp pr))"
    "\<forall>p. blocked k p \<longrightarrow> blocked k2 p"
    "schedule_tick rsp k = do { (next, k) \<leftarrow> pick_next [0, 1, 2, 3, 4, 5] k2; tick_switch rsp next k }"
proof -
  let ?k = "k\<lparr>sch_total_ticks := sch_total_ticks k + 1\<rparr>"
  have inv0: "sched_inv ?k" using inv by (simp add: sched_inv_def running_inv_def)
  have sw0: "sch_current ?k = NULL \<or> sch_current ?k = sch_idle ?k \<or>
      (\<exists>pr. procs ?k (sch_current ?k) = Some pr \<and>
        (pr_state pr \<noteq> PROCESS_STATE_RUNNING \<or> pr_remaining_quantum pr = 0))" using sw by simp
  obtain k1 where k1: "tick_running rsp ?k = Some (True, k1)" "ready_inv k1" "none_running k1" "sched_frame ?k k1"
    "sch_total_ticks k1 = sch_total_ticks ?k" "sch_current k1 = NULL \<or> sch_current k1 = sch_idle ?k"
    "\<forall>p pr. procs ?k p = Some pr \<longrightarrow> (\<exists>pr'. procs k1 p = Some pr' \<and>
       pr_rsp pr' = (if p = sch_current ?k then rsp else pr_rsp pr) \<and>
       (p \<noteq> sch_current ?k \<longrightarrow> pr' = pr))"
    "\<forall>p. waiting ?k p \<longrightarrow> waiting k1 p"
    "sch_current ?k \<noteq> sch_idle ?k \<and> none_running ?k = False \<and> queue_room ?k \<longrightarrow> waiting k1 (sch_current ?k)"
    "\<forall>p. blocked ?k p \<longrightarrow> blocked k1 p"
    using tick_running_switch [OF inv0 sw0, of rsp] by (elim exE conjE)
  obtain k2 where k2: "age_levels (map of_nat [1..<6]) k1 = Some k2" "ready_inv k2" "sched_frame k1 k2"
    "sch_current k2 = sch_current k1"
    "\<forall>i<6. level k2 i = aging_from 1 k1 i"
    "\<forall>p. procs k2 p = (if (\<exists>i. 1 \<le> i \<and> i < 6 \<and> p \<in> set (level k1 i)) \<and> ages k1 p
                      then map_option (aged k1) (procs k1 p) else procs k1 p)"
    using age_levels_spec [OF k1(2), of 1] by auto
  have "schedule_tick rsp k = do { (next, k) \<leftarrow> pick_next [0, 1, 2, 3, 4, 5] k2; tick_switch rsp next k }"
    using k1(1) k2(1) by (simp add: schedule_tick_def scheduler_age_ready_eq)
  moreover have "none_running k2" by (rule none_running_aged [OF k1(3) k2(6)])
  moreover have "\<exists>pr'. procs k2 p = Some pr' \<and> pr_rsp pr' = (if p = sch_current k then rsp else pr_rsp pr)"
    if pr: "procs k p = Some pr" for p pr
  proof -
    obtain pr' where "procs k1 p = Some pr'" "pr_rsp pr' = (if p = sch_current k then rsp else pr_rsp pr)"
      using k1(7) pr by auto
    then show ?thesis using k2(6) [rule_format, of p] by (auto simp: aged_def split: if_splits)
  qed
  moreover have "sched_frame k k2"
    using sched_frame_trans [OF sched_frame_static(1) sched_frame_trans [OF k1(4) k2(3)]] .
  moreover have "scheduler_age_ready k1 = Some k2" using k2(1) by (simp add: scheduler_age_ready_eq)
  moreover have "blocked k2 p" if b: "blocked k p" for p
  proof -
    have "blocked ?k p" using b by (simp add: blocked_def)
    then have "blocked k1 p" using k1(10) by blast
    then show ?thesis using k2(6) [rule_format, of p] sched_frameD(2) [OF k2(3)]
      by (auto simp: blocked_def aged_def split: if_splits)
  qed
  moreover have "waiting ?k p = waiting k p" for p by (simp add: waiting_def)
  moreover have "none_running ?k = none_running k" by (simp add: none_running_def)
  ultimately show ?thesis
    using that [OF k1(1,2) _ k2(2)] k1(6,8,9) k2(4,5) by simp
qed

lemma waiting_aged:
  assumes "ready_inv k"
  shows "(\<exists>i<6. p \<in> set (aging_from 1 k i)) \<longleftrightarrow> waiting k p"
proof
  assume "\<exists>i<6. p \<in> set (aging_from 1 k i)"
  then obtain i where i: "i < 6" "p \<in> set (aging_from 1 k i)" by blast
  then have "p \<in> set (level k i) \<or> (i < 5 \<and> p \<in> set (level k (Suc i)))"
    by (auto simp: aging_from_def split: if_splits)
  then show "waiting k p" using i(1) unfolding waiting_def
    by (elim disjE conjE) (blast, intro exI [of _ "Suc i"], simp)
next
  assume "waiting k p"
  then obtain i where i: "i < 6" "p \<in> set (level k i)" by (auto simp: waiting_def)
  show "\<exists>i<6. p \<in> set (aging_from 1 k i)"
  proof (cases "0 < i \<and> ages k p")
    case True
    then have "p \<in> set (aging_from 1 k (i - 1))" using i by (cases "i = 1") (auto simp: aging_from_def)
    then show ?thesis using i(1) by (intro exI [of _ "i - 1"]) simp
  next
    case False
    then have "p \<in> set (aging_from 1 k i)" using i by (auto simp: aging_from_def)
    then show ?thesis using i(1) by blast
  qed
qed

lemma levels_list: "map unat [0, 1, 2, 3, 4, 5 :: u8] = [0..<6]"
  by (simp add: upt_rec)

lemma first_nonempty_cong: "(\<And>i. i \<in> set is \<Longrightarrow> f i = g i) \<Longrightarrow> first_nonempty is f = first_nonempty is g"
  by (induction "is") auto

text \<open>A switching tick, when some level is not empty after aging and when all are.\<close>

lemma schedule_tick_next:
  assumes inv: "sched_inv k" and t: "tick_running rsp (k\<lparr>sch_total_ticks := sch_total_ticks k + 1\<rparr>) = Some (True, k1)"
    and sw: "sch_current k = NULL \<or> sch_current k = sch_idle k \<or>
      (\<exists>pr. procs k (sch_current k) = Some pr \<and>
        (pr_state pr \<noteq> PROCESS_STATE_RUNNING \<or> pr_remaining_quantum pr = 0))"
    and i: "first_nonempty [0..<6] (aging_from 1 k1) = Some i"
  obtains p rest pr k' where "aging_from 1 k1 i = p # rest" "procs k p = Some pr"
    "schedule_tick rsp k = Some (if p = sch_current k then rsp else pr_rsp pr, k')" "sched_inv k'" "sched_frame k k'"
    "sch_current k' = p" "p \<noteq> sch_idle k"
    "\<exists>pr'. procs k' p = Some pr' \<and> pr_state pr' = PROCESS_STATE_RUNNING \<and> pr_remaining_quantum pr' = 3 \<and>
       unat (pr_priority pr') = i"
    "\<forall>j<6. level k' j = (if j = i then rest else aging_from 1 k1 j)"
    "\<forall>p. blocked k p \<longrightarrow> blocked k' p"
proof -
  obtain k1' k2 where k2: "tick_running rsp (k\<lparr>sch_total_ticks := sch_total_ticks k + 1\<rparr>) = Some (True, k1')"
    "ready_inv k1'" "scheduler_age_ready k1' = Some k2" "ready_inv k2" "none_running k2" "sched_frame k k2"
    "sch_current k2 = NULL \<or> sch_current k2 = sch_idle k" "\<forall>i<6. level k2 i = aging_from 1 k1' i"
    "\<forall>p. waiting k p \<longrightarrow> waiting k1' p"
    "sch_current k \<noteq> sch_idle k \<and> none_running k = False \<and> queue_room k \<longrightarrow> waiting k1' (sch_current k)"
    "\<forall>p pr. procs k p = Some pr \<longrightarrow> (\<exists>pr'. procs k2 p = Some pr' \<and>
       pr_rsp pr' = (if p = sch_current k then rsp else pr_rsp pr))"
    "\<forall>p. blocked k p \<longrightarrow> blocked k2 p"
    "schedule_tick rsp k = do { (next, k) \<leftarrow> pick_next [0, 1, 2, 3, 4, 5] k2; tick_switch rsp next k }"
    by (rule tick_prefix [OF inv sw])
  have [simp]: "k1' = k1" using k2(1) t by simp
  have "first_nonempty [0..<6] (level k2) = first_nonempty [0..<6] (aging_from 1 k1)"
    using k2(8) by (intro first_nonempty_cong) simp
  then have fst: "first_nonempty (map unat [0, 1, 2, 3, 4, 5 :: u8]) (level k2) = Some i"
    using i unfolding levels_list by simp
  have "\<forall>p\<in>set [0, 1, 2, 3, 4, 5 :: u8]. unat p < 6" by simp
  from pick_next_spec [OF k2(4) this] fst obtain p rest k3 where
    k3: "level k2 i = p # rest" "pick_next [0, 1, 2, 3, 4, 5] k2 = Some (p, k3)" "ready_inv k3"
      "queue_frame k2 k3" "sched_frame k2 k3" "\<not> waiting k3 p"
      "\<forall>j<6. level k3 j = (if j = i then rest else level k2 j)" by auto
  have i6: "i < 6" using first_nonempty_Some [OF i] by simp
  have "p \<in> set (level k2 i)" using k3(1) by simp
  then have rdy: "ready_at k2 i p" by (rule ready_invD(6) [OF k2(4) i6])
  then obtain pr2 where pr2: "procs k2 p = Some pr2" "p \<noteq> sch_idle k2" by (auto simp: ready_at_def)
  then have pr3: "procs k3 p = Some pr2" by (simp add: queue_frameD [OF k3(4)])
  have nr3: "none_running k3" using k2(5) by (simp add: none_running_def queue_frameD [OF k3(4)])
  obtain k' where k': "tick_switch rsp p k3 = Some (pr_rsp pr2, k')" "sched_inv k'" "sched_frame k3 k'"
    "sch_current k' = p" "sch_context_switches k' = sch_context_switches k3 + 1"
    "procs k' = (procs k3)(p \<mapsto> pr2\<lparr>pr_state := PROCESS_STATE_RUNNING,
       pr_remaining_quantum := SCHEDULER_DEFAULT_QUANTUM - 1, pr_last_quantum_ticks := 1\<rparr>)"
    "\<forall>i. level k' i = level k3 i"
    by (rule tick_switch_next [OF k3(3) nr3 pr3 k3(6)])
  have "p \<in> dom (procs k)" using pr2(1) sched_frame_dom [OF k2(6)] by blast
  then obtain pr where pr: "procs k p = Some pr" by blast
  then have rsp: "pr_rsp pr2 = (if p = sch_current k then rsp else pr_rsp pr)" using k2(11) [rule_format, OF pr] pr2(1) by auto
  have "schedule_tick rsp k = Some (if p = sch_current k then rsp else pr_rsp pr, k')"
    unfolding k2(13) k3(2) using k'(1) rsp by simp
  moreover have "aging_from 1 k1 i = p # rest" using k3(1) k2(8) i6 by simp
  moreover have "sched_frame k k'" using sched_frame_trans k2(6) k3(5) k'(3) by blast
  moreover have "\<forall>j<6. level k' j = (if j = i then rest else aging_from 1 k1 j)"
    using k'(7) k3(7) k2(8) by simp
  moreover have "p \<noteq> sch_idle k" using pr2(2) sched_frameD(2) [OF k2(6)] by simp
  moreover have "unat (pr_priority pr2) = i" using rdy pr2(1) by (simp add: ready_at_def)
  moreover have "blocked k' q" if b: "blocked k q" for q
  proof -
    have b2: "blocked k2 q" using k2(12) b by blast
    have "pr_state pr2 = PROCESS_STATE_READY" using rdy pr2(1) by (simp add: ready_at_def)
    then have "q \<noteq> p" using b2 pr2(1) by (auto simp: blocked_def)
    then show ?thesis
      using b2 k'(6) sched_frameD(2) [OF k'(3)] queue_frameD(1,3) [OF k3(4)] by (simp add: blocked_def)
  qed
  ultimately show ?thesis
    using that pr k'(2,4,6) by (simp add: SCHEDULER_DEFAULT_QUANTUM_def)
qed


lemma schedule_tick_no_ready:
  assumes inv: "sched_inv k" and t: "tick_running rsp (k\<lparr>sch_total_ticks := sch_total_ticks k + 1\<rparr>) = Some (True, k1)"
    and sw: "sch_current k = NULL \<or> sch_current k = sch_idle k \<or>
      (\<exists>pr. procs k (sch_current k) = Some pr \<and>
        (pr_state pr \<noteq> PROCESS_STATE_RUNNING \<or> pr_remaining_quantum pr = 0))"
    and i: "first_nonempty [0..<6] (aging_from 1 k1) = None"
  obtains k' where "schedule_tick rsp k = Some (rsp, k')" "sched_inv k'" "sched_frame k k'"
    "sch_current k' = sch_idle k" "\<forall>i<6. level k' i = []" "\<forall>p. blocked k p \<longrightarrow> blocked k' p"
proof -
  obtain k1' k2 where k2: "tick_running rsp (k\<lparr>sch_total_ticks := sch_total_ticks k + 1\<rparr>) = Some (True, k1')"
    "ready_inv k1'" "scheduler_age_ready k1' = Some k2" "ready_inv k2" "none_running k2" "sched_frame k k2"
    "sch_current k2 = NULL \<or> sch_current k2 = sch_idle k" "\<forall>i<6. level k2 i = aging_from 1 k1' i"
    "\<forall>p. waiting k p \<longrightarrow> waiting k1' p"
    "sch_current k \<noteq> sch_idle k \<and> none_running k = False \<and> queue_room k \<longrightarrow> waiting k1' (sch_current k)"
    "\<forall>p pr. procs k p = Some pr \<longrightarrow> (\<exists>pr'. procs k2 p = Some pr' \<and>
       pr_rsp pr' = (if p = sch_current k then rsp else pr_rsp pr))"
    "\<forall>p. blocked k p \<longrightarrow> blocked k2 p"
    "schedule_tick rsp k = do { (next, k) \<leftarrow> pick_next [0, 1, 2, 3, 4, 5] k2; tick_switch rsp next k }"
    by (rule tick_prefix [OF inv sw])
  have [simp]: "k1' = k1" using k2(1) t by simp
  have nil: "level k2 i = []" if "i < 6" for i
    using i that k2(8) by (simp add: first_nonempty_None)
  then have fst: "first_nonempty (map unat [0, 1, 2, 3, 4, 5 :: u8]) (level k2) = None"
    unfolding levels_list by (simp add: first_nonempty_None)
  have "\<forall>p\<in>set [0, 1, 2, 3, 4, 5 :: u8]. unat p < 6" by simp
  from pick_next_spec [OF k2(4) this] have pick: "pick_next [0, 1, 2, 3, 4, 5] k2 = Some (NULL, k2)"
    unfolding fst by (simp only: option.case)
  have idle: "sch_idle k2 = sch_idle k" using sched_frameD(2) [OF k2(6)] .
  have cur: "sch_current k2 = NULL \<or> sch_current k2 = sch_idle k2" using k2(7) idle by simp
  obtain k' where k': "tick_switch rsp NULL k2 = Some (rsp, k')" "sched_inv k'" "sched_frame k2 k'"
    "sch_current k' = sch_idle k2" "\<forall>i. level k' i = level k2 i" "\<forall>p. blocked k2 p \<longrightarrow> blocked k' p"
    by (rule tick_switch_idle [OF k2(4,5) cur])
  have "schedule_tick rsp k = Some (rsp, k')" unfolding k2(13) pick using k'(1) by simp
  moreover have "sched_frame k k'" using sched_frame_trans [OF k2(6) k'(3)] .
  ultimately show ?thesis using that [of k'] k'(2,4,5,6) k2(12) idle nil by simp
qed

lemma schedule_tick_continue:
  assumes inv: "sched_inv k" and c: "sch_current k \<noteq> NULL" "sch_current k \<noteq> sch_idle k"
    and pr: "procs k (sch_current k) = Some pr" "pr_state pr = PROCESS_STATE_RUNNING" "0 < pr_remaining_quantum pr"
  obtains k' where "schedule_tick rsp k = Some (rsp, k')" "sched_inv k'" "sched_frame k k'"
    "sch_current k' = sch_current k" "\<forall>i. level k' i = level k i"
    "\<exists>pr'. procs k' (sch_current k) = Some pr' \<and> pr_state pr' = PROCESS_STATE_RUNNING \<and>
       pr_remaining_quantum pr' = pr_remaining_quantum pr - 1 \<and> pr_rsp pr' = rsp"
    "\<forall>p. blocked k p \<longrightarrow> blocked k' p"
proof -
  let ?k = "k\<lparr>sch_total_ticks := sch_total_ticks k + 1\<rparr>"
  let ?pr = "pr\<lparr>pr_rsp := rsp, pr_remaining_quantum := pr_remaining_quantum pr - 1,
         pr_last_quantum_ticks := SCHEDULER_DEFAULT_QUANTUM - (pr_remaining_quantum pr - 1)\<rparr>"
  let ?k1 = "?k\<lparr>procs := (procs k)(sch_current k \<mapsto> ?pr)\<rparr>"
  have inv0: "sched_inv ?k" using inv by (simp add: sched_inv_def running_inv_def)
  have t: "tick_running rsp ?k = Some (False, ?k1)"
    using tick_running_continue [OF inv0, of pr rsp] c pr by simp
  have rd: "ready_inv ?k" "procs ?k (sch_current k) = Some pr" using inv0 pr(1) by (simp_all add: sched_inv_def)
  have i1: "ready_inv ?k1"
    using ready_inv_upd_same [OF rd, of ?pr] by simp
  have f1: "sched_frame k ?k1"
  proof (rule sched_frame_trans [OF sched_frame_static(1)])
    show "sched_frame ?k ?k1" using sched_frame_proc [OF rd(2), of ?pr] by (simp add: sched_fields_only_def)
  qed
  obtain k2 where k2: "process_set_running (sch_current k) ?k1 = Some k2" "k2 = ?k1\<lparr>pcb := pcb k2\<rparr>"
    "ready_inv k2" "sched_frame ?k1 k2"
    by (rule process_set_running_spec [OF i1, of "sch_current k"]) simp_all
  have p2: "procs k2 = (procs k)(sch_current k \<mapsto> ?pr)" "sch_current k2 = sch_current k"
    "\<forall>i. level k2 i = level k i"
    by (subst k2(2), simp)+
  have "schedule_tick rsp k = Some (rsp, k2)"
    unfolding schedule_tick_def t using k2(1) by simp
  moreover have "sched_inv k2"
    using k2(3) inv unfolding sched_inv_def running_inv_def p2 by auto
  moreover have "\<forall>p. blocked k p \<longrightarrow> blocked k2 p"
    using p2(1) pr(1,2) sched_frameD(2) [OF k2(4)] by (auto simp: blocked_def)
  ultimately show ?thesis
    using that [of k2] p2 pr(2) sched_frame_trans [OF f1 k2(4)] by simp
qed

lemma tick_cases:
  assumes "sched_inv k"
  obtains (switch) "sch_current k = NULL \<or> sch_current k = sch_idle k \<or>
      (\<exists>pr. procs k (sch_current k) = Some pr \<and>
        (pr_state pr \<noteq> PROCESS_STATE_RUNNING \<or> pr_remaining_quantum pr = 0))"
  | (goes_on) pr where "sch_current k \<noteq> NULL" "sch_current k \<noteq> sch_idle k"
    "procs k (sch_current k) = Some pr" "pr_state pr = PROCESS_STATE_RUNNING" "0 < pr_remaining_quantum pr"
proof (cases "sch_current k = NULL \<or> sch_current k = sch_idle k")
  case False
  then obtain pr where "procs k (sch_current k) = Some pr"
    using assms by (auto simp: sched_inv_def ready_inv_def)
  then show ?thesis using that False word_neq_0_conv by blast
qed (use that in blast)

lemma tick_running_defined:
  assumes "sched_inv k" and "sch_current k = NULL \<or> sch_current k = sch_idle k \<or>
      (\<exists>pr. procs k (sch_current k) = Some pr \<and>
        (pr_state pr \<noteq> PROCESS_STATE_RUNNING \<or> pr_remaining_quantum pr = 0))"
  obtains k1 where "tick_running rsp (k\<lparr>sch_total_ticks := sch_total_ticks k + 1\<rparr>) = Some (True, k1)"
    "ready_inv k1" "\<forall>p. waiting k p \<longrightarrow> waiting k1 p"
    "sch_current k \<noteq> sch_idle k \<and> none_running k = False \<and> queue_room k \<longrightarrow> waiting k1 (sch_current k)"
  by (rule tick_prefix [OF assms, of rsp]) (rule that; assumption)

lemma schedule_tick_total:
  assumes "sched_inv k"
  obtains r k' where "schedule_tick rsp k = Some (r, k')" "sched_inv k'" "sched_frame k k'"
    "\<forall>p. blocked k p \<longrightarrow> blocked k' p"
  using assms
proof (cases rule: tick_cases)
  case switch
  obtain k1 where k1: "tick_running rsp (k\<lparr>sch_total_ticks := sch_total_ticks k + 1\<rparr>) = Some (True, k1)"
    by (rule tick_running_defined [OF assms switch, of rsp])
  show ?thesis
  proof (cases "first_nonempty [0..<6] (aging_from 1 k1)")
    case None
    show ?thesis by (rule schedule_tick_no_ready [OF assms k1 switch None]) (rule that)
  next
    case (Some i)
    show ?thesis by (rule schedule_tick_next [OF assms k1 switch Some]) (rule that)
  qed
next
  case (goes_on pr)
  show ?thesis by (rule schedule_tick_continue [OF assms goes_on, of rsp]) (rule that)
qed

end
