(* ===== verification/Sched_Props.thy ===== *)
theory Sched_Props
  imports Sched_Tick
begin

text \<open>
  The contract of the scheduler: its invariant holds after \<open>scheduler_init\<close>'s loop and after
  every tick, a tick runs the process of the highest priority, none is lost, and waiting
  raises a process level by level. The lemmas in front of the properties build the states
  the witnesses run on.
\<close>

section \<open>The ready queues after initialisation\<close>

lemma init_ready_queues_spec:
  assumes "queue_inv k" and "spare (length is + n) (kmem k)" and "distinct is"
    and "\<forall>i\<in>set is. i < length (sch_ready_queues k)"
  obtains k' where "init_ready_queues is k = Some k'" "queue_inv k'" "spare n (kmem k')"
    "k' = k\<lparr>kmem := kmem k', queues := queues k', qnodes := qnodes k', sch_ready_queues := sch_ready_queues k'\<rparr>"
    "qelems k' = qelems k" "dom (queues k) \<subseteq> dom (queues k')"
    "length (sch_ready_queues k') = length (sch_ready_queues k)"
    "\<forall>i. i \<notin> set is \<longrightarrow> sch_ready_queues k' ! i = sch_ready_queues k ! i"
    "\<forall>i\<in>set is. sch_ready_queues k' ! i \<in> dom (queues k') - dom (queues k)"
    "inj_on ((!) (sch_ready_queues k')) (set is)"
  using assms
proof (induction "is" arbitrary: k thesis)
  case Nil
  show ?case by (rule Nil(1)) (use Nil(2-) in auto)
next
  case (Cons i "is")
  obtain q k1 where k1: "queue_create k = Some (q, k1)" "q \<noteq> NULL" "queue_inv k1" "queue_frame k k1"
    "qelems k1 = qelems k" "objects_at k q = 0" "dom (queues k1) = insert q (dom (queues k))"
    "spare (length is + n) (kmem k1)"
    by (rule queue_create_spare [OF Cons.prems(2), of "length is + n"]) (use Cons.prems(3) in simp)
  let ?k = "k1\<lparr>sch_ready_queues := (sch_ready_queues k1)[i := q]\<rparr>"
  have rq: "sch_ready_queues k1 = sch_ready_queues k" by (rule queue_frameD(2) [OF k1(4)])
  have pre: "queue_inv ?k" "spare (length is + n) (kmem ?k)" "distinct is"
    "\<forall>i\<in>set is. i < length (sch_ready_queues ?k)" using k1(3,8) Cons.prems rq by simp_all
  obtain k' where k': "init_ready_queues is ?k = Some k'" "queue_inv k'" "spare n (kmem k')"
    "k' = ?k\<lparr>kmem := kmem k', queues := queues k', qnodes := qnodes k', sch_ready_queues := sch_ready_queues k'\<rparr>"
    "qelems k' = qelems ?k" "dom (queues ?k) \<subseteq> dom (queues k')"
    "length (sch_ready_queues k') = length (sch_ready_queues ?k)"
    "\<forall>j. j \<notin> set is \<longrightarrow> sch_ready_queues k' ! j = sch_ready_queues ?k ! j"
    "\<forall>j\<in>set is. sch_ready_queues k' ! j \<in> dom (queues k') - dom (queues ?k)"
    "inj_on ((!) (sch_ready_queues k')) (set is)"
    by (rule Cons.IH [OF _ pre])
  have i: "i \<notin> set is" "i < length (sch_ready_queues k)" using Cons.prems by simp_all
  have qi: "sch_ready_queues k' ! i = q" using k'(8) i rq by simp
  have q: "q \<notin> dom (queues k)" using k1(6) by (auto simp: objects_at_def of_bool_def split: if_splits)
  show ?case
  proof (rule Cons.prems(1))
    show "init_ready_queues (i # is) k = Some k'" using k1(1) k'(1) by simp
    show "k' = k\<lparr>kmem := kmem k', queues := queues k', qnodes := qnodes k', sch_ready_queues := sch_ready_queues k'\<rparr>"
      by (subst k'(4)) (use k1(4) in \<open>simp add: queue_frame_def, cases k, cases k1, simp\<close>)
    show "\<forall>j. j \<notin> set (i # is) \<longrightarrow> sch_ready_queues k' ! j = sch_ready_queues k ! j" using k'(8) rq by simp
    show "\<forall>j\<in>set (i # is). sch_ready_queues k' ! j \<in> dom (queues k') - dom (queues k)"
      using k'(6,9) k1(7) qi q by auto
    show "inj_on ((!) (sch_ready_queues k')) (set (i # is))" using k'(9,10) k1(7) qi by auto
  qed (use k'(2,3,5,6,7) k1(5,7) rq in auto)
qed

lemma boot_ready:
  obtains k where "init_ready_queues [0..<6] boot_kernel = Some k" "sched_inv k" "spare 26 (kmem k)"
    "procs k = Map.empty" "sch_idle k = NULL" "sch_current k = NULL" "\<forall>i<6. level k i = []"
    "sch_total_ticks k = 0"
proof -
  have s: "spare (length [0..<6] + 26) (kmem boot_kernel)" using spare_boot by simp
  have lt: "\<forall>i\<in>set [0..<6]. i < length (sch_ready_queues boot_kernel)"
    by (simp add: boot_kernel_def bss_kernel_def)
  obtain k where k: "init_ready_queues [0..<6] boot_kernel = Some k" "queue_inv k" "spare 26 (kmem k)"
    "k = boot_kernel\<lparr>kmem := kmem k, queues := queues k, qnodes := qnodes k, sch_ready_queues := sch_ready_queues k\<rparr>"
    "qelems k = qelems boot_kernel" "length (sch_ready_queues k) = length (sch_ready_queues boot_kernel)"
    "\<forall>i\<in>set [0..<6]. sch_ready_queues k ! i \<in> dom (queues k) - dom (queues boot_kernel)"
    "inj_on ((!) (sch_ready_queues k)) (set [0..<6])"
    by (rule init_ready_queues_spec [OF boot_kernel_queues s distinct_upt lt])
  have p: "procs k = Map.empty" "sch_idle k = NULL" "sch_current k = NULL" "sch_total_ticks k = 0"
    by (subst k(4), simp add: boot_kernel_def bss_kernel_def)+
  have len: "length (sch_ready_queues k) = 6" using k(6) by (simp add: boot_kernel_def bss_kernel_def)
  have e: "qelems k = (\<lambda>q. [])" unfolding k(5)
    by (simp add: qelems_def qcells_def boot_kernel_def bss_kernel_def fun_eq_iff)
  have "set (sch_ready_queues k) \<subseteq> dom (queues k)"
  proof
    fix q
    assume "q \<in> set (sch_ready_queues k)"
    then obtain i where i: "i < 6" "q = sch_ready_queues k ! i" using len by (auto simp: in_set_conv_nth)
    have "i \<in> set [0..<6]" using i(1) by simp
    then show "q \<in> dom (queues k)" using k(7) i(2) by blast
  qed
  moreover have "distinct (sch_ready_queues k)"
    using k(8) len by (auto simp: distinct_conv_nth inj_on_def)
  ultimately have "ready_inv k" using k(2) len p e by (simp add: ready_inv_def fixed_ok_def)
  then have "sched_inv k" using p by (simp add: sched_inv_def running_inv_def)
  then show ?thesis using that [OF k(1)] k(3) p e by simp
qed

lemma init_ready_queues_static:
  "init_ready_queues is k = Some k' \<Longrightarrow>
   registered_semaphores k' = registered_semaphores k \<and> registry_lock k' = registry_lock k \<and>
   pipes k' = pipes k \<and> next_pipe_id k' = next_pipe_id k \<and> pipeobjs k' = pipeobjs k \<and>
   pic_master_mask k' = pic_master_mask k \<and> pcb k' = pcb k \<and> sems k' = sems k \<and> ticks k' = ticks k"
proof (induction "is" arbitrary: k)
  case (Cons i "is")
  then obtain q k1 where "queue_create k = Some (q, k1)"
    "init_ready_queues is (k1\<lparr>sch_ready_queues := (sch_ready_queues k1)[i := q]\<rparr>) = Some k'" by auto
  then show ?case using Cons.IH by (auto simp: queue_create_def kalloc_def split: if_splits)
qed simp

lemma spare_room: "spare (Suc n) (kmem k) \<Longrightarrow> queue_room k"
  by (erule spare_alloc [of n _ QUEUE_NODE_SIZE]) (auto simp: queue_room_def QUEUE_NODE_SIZE_def)

text \<open>A new process descriptor changes nothing for the scheduler.\<close>

lemma new_process:
  assumes inv: "sched_inv k" and sp: "spare (Suc n) (kmem k)" and pr: "\<not> pr_priority_fixed pr"
    and st: "pr_state pr \<noteq> PROCESS_STATE_RUNNING"
  obtains p m k' where "kalloc 104 k = Some (p, k\<lparr>kmem := m\<rparr>)" "p \<noteq> NULL" "procs k p = None"
    "k' = k\<lparr>kmem := m, procs := (procs k)(p \<mapsto> pr)\<rparr>" "sched_inv k'" "spare n (kmem k')"
proof -
  have rd: "ready_inv k" and hp: "heap_ok k" "queue_inv k"
    using inv ready_invD(1) by (auto simp: sched_inv_def)
  obtain p m where m: "kalloc 104 k = Some (p, k\<lparr>kmem := m\<rparr>)" "p \<noteq> NULL" "spare n m"
    by (rule kalloc_spare [OF hp(1) sp, of 104]) simp_all
  from hp(1) have new: "objects_at k p = 0 \<and> buddy_inv m \<and> bud.live m = insert p (bud.live (kmem k))"
  proof (cases rule: kalloc_cases [of k 104])
    case (block p' m')
    then have "p' = p" "m' = m" using m(1) by (simp_all, cases k, simp)
    then show ?thesis using block by simp
  qed (use m(1,2) in simp)
  then have new: "objects_at k p = 0" "buddy_inv m" "bud.live m = insert p (bud.live (kmem k))" by simp_all
  let ?k = "k\<lparr>kmem := m, procs := (procs k)(p \<mapsto> pr)\<rparr>"
  have np: "procs k p = None" using new(1) by (auto simp: objects_at_def of_bool_def split: if_splits)
  have obj: "objects_at (k\<lparr>procs := (procs k)(p \<mapsto> pr)\<rparr>) x = objects_at ?k x" for x by (simp add: objects_at_def)
  have "heap_ok ?k"
    by (rule heap_ok_insert [OF new(2,3) hp(1) new(1)])
      (simp, use objects_at_new(3) [OF new(1), of pr] obj in simp)
  then have qi: "queue_inv ?k" using hp(2) by (rule_tac queue_inv_cong(1) [of k]) simp_all
  have neq: "q \<noteq> p" if "ready_at k i q" for q i using that np by (auto simp: ready_at_def)
  have "ready_at ?k i q" if "ready_at k i q" for q i using that neq [OF that] by (simp add: ready_at_def)
  moreover have "fixed_ok ((procs k)(p \<mapsto> pr))" using rd pr by (intro fixed_ok_upd) (auto simp: ready_inv_def)
  ultimately have "ready_inv ?k" using rd qi unfolding ready_inv_def by auto
  moreover have "running_inv ?k" using inv st by (auto simp: sched_inv_def running_inv_def)
  ultimately show ?thesis using that [OF m(1,2) np refl] m(3) by (simp add: sched_inv_def)
qed

text \<open>A kernel with one ready process, \<open>p\<close>, and one that has just lost the processor.\<close>

lemma one_ready:
  obtains k p where "sched_inv k" "level k 0 = [p]" "\<forall>i<6. i \<noteq> 0 \<longrightarrow> level k i = []" "sch_current k = NULL"
    "sch_idle k = NULL" "p \<noteq> NULL" "procs k = [p \<mapsto> readied k zero_process]"
proof -
  obtain k0 where k0: "sched_inv k0" "spare (Suc 25) (kmem k0)" "procs k0 = Map.empty" "sch_idle k0 = NULL"
    "sch_current k0 = NULL" "\<forall>i<6. level k0 i = []"
    by (rule boot_ready) simp
  obtain p m k1 where k1: "kalloc 104 k0 = Some (p, k0\<lparr>kmem := m\<rparr>)" "p \<noteq> NULL" "procs k0 p = None"
    "k1 = k0\<lparr>kmem := m, procs := (procs k0)(p \<mapsto> zero_process)\<rparr>" "sched_inv k1" "spare 25 (kmem k1)"
    by (rule new_process [OF k0(1,2), of zero_process]) (simp_all add: zero_process_def)
  have r1: "ready_inv k1" using k1(5) by (simp add: sched_inv_def)
  have p1: "procs k1 p = Some zero_process" "p \<noteq> sch_idle k1" "\<forall>i<6. level k1 i = []"
    using k1(2,4) k0 by simp_all
  have room: "queue_room k1" using spare_room [of 24] k1(6) by simp
  obtain k2 where k2: "scheduler_add_ready p k1 = Some k2" "ready_inv k2" "sched_frame k1 k2"
    "procs k2 = (procs k1)(p \<mapsto> readied k1 zero_process)" "sch_current k2 = sch_current k1"
    "sch_total_ticks k2 = sch_total_ticks k1"
    "\<forall>i<6. level k2 i = removeAll p (level k1 i) @
       (if i = unat (ready_priority zero_process) \<and> (waiting k1 p \<or> queue_room k1) then [p] else [])"
    by (rule scheduler_add_ready_spec [OF r1 p1(1,2)])
  have rp: "ready_priority zero_process = 0"
    by (simp add: ready_priority_def zero_process_def priority_from_usage_table)
  have "procs k2 = [p \<mapsto> readied k2 zero_process]"
    using k2(4,6) k1(4) k0(3) by (simp add: readied_def)
  moreover have "sched_inv k2"
    using k2(2) calculation by (auto simp: sched_inv_def running_inv_def readied_def split: if_splits)
  ultimately show ?thesis
    using that [of k2 p] k2(5,7) p1(3) rp room k1(2,4) k0 sched_frameD(2) [OF k2(3)] by simp
qed

section \<open>Properties\<close>

text \<open>
  C9. A tick of the scheduler keeps its invariant and always returns: every ready queue
  holds ready processes of its level, each once, at most one process runs and it is the
  current one; nothing outside the scheduling fields changes.
\<close>

theorem schedule_tick_invariant:
  assumes "sched_inv k"
  shows "\<exists>r k'. schedule_tick rsp k = Some (r, k') \<and> sched_inv k' \<and> sched_frame k k'"
  by (rule schedule_tick_total [OF assms, of rsp]) blast

theorem schedule_tick_invariant_witness:
  "\<exists>k0 r k'. init_ready_queues [0..<6] boot_kernel = Some k0 \<and>
     schedule_tick 9 k0 = Some (r, k') \<and> sched_inv k'"
proof -
  obtain k where "init_ready_queues [0..<6] boot_kernel = Some k" "sched_inv k" by (rule boot_ready)
  then show ?thesis using schedule_tick_invariant by blast
qed

text \<open>
  C10. When the current process has to give way and some process is ready, the tick runs a
  process of the highest priority: it was ready or has just been requeued, it is marked
  running with the rest of a fresh quantum, and no process still waiting has a smaller
  priority number.
\<close>

theorem schedule_tick_picks_highest:
  assumes "sched_inv k" and "waiting k q"
    and "sch_current k = NULL \<or> sch_current k = sch_idle k \<or>
      (\<exists>pr. procs k (sch_current k) = Some pr \<and>
        (pr_state pr \<noteq> PROCESS_STATE_RUNNING \<or> pr_remaining_quantum pr = 0))"
  shows "\<exists>r k' pr. schedule_tick rsp k = Some (r, k') \<and> procs k' (sch_current k') = Some pr \<and>
    sch_current k' \<noteq> sch_idle k \<and> pr_state pr = PROCESS_STATE_RUNNING \<and> pr_remaining_quantum pr = 3 \<and>
    r = (if sch_current k' = sch_current k then rsp else pr_rsp (the (procs k (sch_current k')))) \<and>
    (\<forall>p pr'. waiting k' p \<and> procs k' p = Some pr' \<longrightarrow> pr_priority pr \<le> pr_priority pr')"
proof -
  obtain k1 where k1: "tick_running rsp (k\<lparr>sch_total_ticks := sch_total_ticks k + 1\<rparr>) = Some (True, k1)"
    "ready_inv k1" "\<forall>p. waiting k p \<longrightarrow> waiting k1 p" by (rule tick_running_defined [OF assms(1,3), of rsp])
  have "\<exists>i<6. q \<in> set (aging_from 1 k1 i)" using waiting_aged [OF k1(2)] k1(3) assms(2) by blast
  then have "first_nonempty [0..<6] (aging_from 1 k1) \<noteq> None" unfolding first_nonempty_None
    by (metis atLeastLessThan_iff empty_iff empty_set le0 set_upt)
  then obtain i where i: "first_nonempty [0..<6] (aging_from 1 k1) = Some i" by blast
  obtain p rest pr k' where k': "aging_from 1 k1 i = p # rest" "procs k p = Some pr"
    "schedule_tick rsp k = Some (if p = sch_current k then rsp else pr_rsp pr, k')" "sched_inv k'" "sched_frame k k'"
    "sch_current k' = p" "p \<noteq> sch_idle k"
    "\<exists>pr'. procs k' p = Some pr' \<and> pr_state pr' = PROCESS_STATE_RUNNING \<and> pr_remaining_quantum pr' = 3 \<and>
       unat (pr_priority pr') = i"
    "\<forall>j<6. level k' j = (if j = i then rest else aging_from 1 k1 j)"
    by (rule schedule_tick_next [OF assms(1) k1(1) assms(3) i])
  have low: "i \<le> unat (pr_priority pr')" if w: "waiting k' x" and x: "procs k' x = Some pr'" for x pr'
  proof -
    obtain j where j: "j < 6" "x \<in> set (level k' j)" using w by (auto simp: waiting_def)
    have "ready_at k' j x" using ready_invD(6) [OF _ j] k'(4) by (simp add: sched_inv_def)
    then have "unat (pr_priority pr') = j" using x by (simp add: ready_at_def)
    moreover have "i \<le> j"
    proof (rule ccontr)
      assume "\<not> i \<le> j"
      then have "aging_from 1 k1 j = []" using i [unfolded first_nonempty_upt] by simp
      then show False using j k'(9) \<open>\<not> i \<le> j\<close> by simp
    qed
    ultimately show ?thesis by simp
  qed
  obtain pr' where pr': "procs k' p = Some pr'" "pr_state pr' = PROCESS_STATE_RUNNING"
    "pr_remaining_quantum pr' = 3" "unat (pr_priority pr') = i" using k'(8) by blast
  then show ?thesis
    using k'(2,3,6,7) low by (intro exI conjI) (auto simp: word_le_nat_alt)
qed

theorem schedule_tick_picks_highest_witness:
  "\<exists>k p r k'. sched_inv k \<and> waiting k p \<and> schedule_tick 9 k = Some (r, k') \<and> sch_current k' \<noteq> NULL"
proof -
  obtain k p where k: "sched_inv k" "level k 0 = [p]" "sch_current k = NULL" "sch_idle k = NULL"
    "procs k = [p \<mapsto> readied k zero_process]" by (rule one_ready)
  have w: "waiting k p" unfolding waiting_def using k(2) by (intro exI [of _ 0]) simp
  have "sch_current k = NULL \<or> sch_current k = sch_idle k \<or>
      (\<exists>pr. procs k (sch_current k) = Some pr \<and>
        (pr_state pr \<noteq> PROCESS_STATE_RUNNING \<or> pr_remaining_quantum pr = 0))" using k(3) by simp
  from schedule_tick_picks_highest [OF k(1) w this, of 9] k(1,4) w show ?thesis by auto
qed



text \<open>
  C12. Aging prevents starvation: in one call of \<open>scheduler_age_ready\<close> exactly the processes
  that have waited for \<open>SCHEDULER_AGING_THRESHOLD\<close> ticks and are not on level 0 move up, by
  one level, behind those already there; all others keep their place and their order.
\<close>

theorem aging_moves_up_one_level:
  assumes "ready_inv k"
  shows "\<exists>k'. scheduler_age_ready k = Some k' \<and> ready_inv k' \<and> sched_frame k k' \<and>
    (\<forall>i<6. level k' i =
       (if i = 0 then level k 0 else filter (\<lambda>p. \<not> ages k p) (level k i)) @
       (if i < 5 then filter (ages k) (level k (Suc i)) else [])) \<and>
    (\<forall>p. waiting k p \<and> ages k p \<longrightarrow> procs k' p = map_option (aged k) (procs k p))"
proof -
  obtain k' where k': "age_levels (map of_nat [1..<6]) k = Some k'" "ready_inv k'" "sched_frame k k'"
    "\<forall>i<6. level k' i = aging_from 1 k i"
    "\<forall>p. procs k' p = (if (\<exists>i. 1 \<le> i \<and> i < 6 \<and> p \<in> set (level k i)) \<and> ages k p
                      then map_option (aged k) (procs k p) else procs k p)"
    using age_levels_spec [OF assms, of 1] by auto
  have "procs k' p = map_option (aged k) (procs k p)" if w: "waiting k p" and a: "ages k p" for p
  proof -
    obtain i where i: "i < 6" "p \<in> set (level k i)" using w by (auto simp: waiting_def)
    have "i \<noteq> 0" using ready_invD(6) [OF assms i] a by (auto simp: ready_at_def ages_def unat_gt_0 word_neq_0_conv)
    then have "1 \<le> i" by simp
    then show ?thesis using k'(5) i a by auto
  qed
  moreover have "\<forall>i<6. level k' i =
       (if i = 0 then level k 0 else filter (\<lambda>p. \<not> ages k p) (level k i)) @
       (if i < 5 then filter (ages k) (level k (Suc i)) else [])"
    using k'(4) by (auto simp: aging_from_def)
  ultimately show ?thesis using k'(1-3) by (intro exI [of _ k']) (simp add: scheduler_age_ready_eq)
qed

theorem aging_moves_up_one_level_witness:
  "\<exists>k p k'. level k 0 = [p] \<and> scheduler_age_ready k = Some k' \<and> level k' 0 = [p]"
proof -
  obtain k p where k: "sched_inv k" "level k 0 = [p]" "\<forall>i<6. i \<noteq> 0 \<longrightarrow> level k i = []" by (rule one_ready)
  have "ready_inv k" using k(1) by (simp add: sched_inv_def)
  from aging_moves_up_one_level [OF this] obtain k' where "scheduler_age_ready k = Some k'"
    "\<forall>i<6. level k' i =
       (if i = 0 then level k 0 else filter (\<lambda>p. \<not> ages k p) (level k i)) @
       (if i < 5 then filter (ages k) (level k (Suc i)) else [])" by blast
  then show ?thesis using k(2,3) by (intro exI conjI) (assumption | simp)+
qed

text \<open>
  The loop of \<open>priority_from_usage\<close> always ends and computes a closed form: with a
  quantum of 4 ticks and 6 levels, the level is \<open>6 * used / 4\<close>, at most the lowest.
\<close>

theorem priority_from_usage_closed_form:
  "unat (priority_from_usage t) = min 5 (6 * min (unat t) 4 div 4)"
proof (cases "4 < t")
  case True
  then have "4 < unat t" by (simp add: word_less_nat_alt)
  then show ?thesis using True by (simp add: priority_from_usage_clamp priority_from_usage_table)
next
  case False
  then have "t = 0 \<or> t = 1 \<or> t = 2 \<or> t = 3 \<or> t = 4" by (intro u8_cases5) simp
  then show ?thesis by (auto simp: priority_from_usage_table)
qed

text \<open>
  C13. Blocking takes a process off its ready queue, unblocking puts it back at the end of
  the queue of its new priority; every other process keeps its place.
\<close>

theorem block_then_unblock:
  assumes "ready_inv k" and "procs k p = Some pr" and "pr_state pr \<noteq> PROCESS_STATE_BLOCKED"
    and "p \<noteq> sch_idle k"
  shows "\<exists>k1 k2. process_block p k = Some (True, k1) \<and> ready_inv k1 \<and> \<not> waiting k1 p \<and>
    process_block p k1 = Some (False, k1) \<and>
    process_unblock p k1 = Some (True, k2) \<and> ready_inv k2 \<and>
    (\<forall>i<6. level k2 i = removeAll p (level k i) @
       (if i = unat (ready_priority pr) \<and> queue_room k1 then [p] else [])) \<and>
    process_unblock p k2 = Some (False, k2)"
proof -
  obtain k1 where k1: "process_block p k = Some (True, k1)" "ready_inv k1" "sched_frame k k1"
    "procs k1 = (procs k)(p \<mapsto> pr\<lparr>pr_state := PROCESS_STATE_BLOCKED\<rparr>)"
    "\<forall>i<6. level k1 i = removeAll p (level k i)"
    by (rule process_block_spec [OF assms(1-3)])
  let ?pr = "pr\<lparr>pr_state := PROCESS_STATE_BLOCKED\<rparr>"
  have b: "procs k1 p = Some ?pr" "pr_state ?pr = PROCESS_STATE_BLOCKED" "p \<noteq> sch_idle k1"
    using k1(4) assms(4) sched_frameD(2) [OF k1(3)] by simp_all
  obtain k2 where k2: "process_unblock p k1 = Some (True, k2)" "ready_inv k2"
    "procs k2 = (procs k1)(p \<mapsto> readied k1 ?pr)"
    "\<forall>i<6. level k2 i = level k1 i @ (if i = unat (ready_priority ?pr) \<and> queue_room k1 then [p] else [])"
    by (rule process_unblock_spec [OF k1(2) b])
  have rp: "ready_priority ?pr = ready_priority pr" by (simp add: ready_priority_def)
  have nn: "p \<noteq> NULL" using ready_not_null [OF assms(1,2)] .
  have "\<not> waiting k1 p" using k1(5) by (simp add: waiting_def)
  moreover have "process_block p k1 = Some (False, k1)" by (rule process_block_blocked [OF nn b(1,2)])
  moreover have "process_unblock p k2 = Some (False, k2)"
    using k2(3) nn by (simp add: process_unblock_def readied_def)
  moreover have "\<forall>i<6. level k2 i = removeAll p (level k i) @
       (if i = unat (ready_priority pr) \<and> queue_room k1 then [p] else [])"
    using k1(5) k2(4) unfolding rp by simp
  ultimately show ?thesis using k1(1,2) k2(1,2) by (intro exI conjI)
qed

theorem block_then_unblock_witness:
  "\<exists>k p k1 k2. level k 0 = [p] \<and> process_block p k = Some (True, k1) \<and> \<not> waiting k1 p \<and>
     process_unblock p k1 = Some (True, k2)"
proof -
  obtain k p where k: "sched_inv k" "level k 0 = [p]" "sch_idle k = NULL" "p \<noteq> NULL"
    "procs k = [p \<mapsto> readied k zero_process]" by (rule one_ready)
  have "ready_inv k" "procs k p = Some (readied k zero_process)" "p \<noteq> sch_idle k"
    "pr_state (readied k zero_process) \<noteq> PROCESS_STATE_BLOCKED"
    using k by (simp_all add: sched_inv_def readied_def)
  from block_then_unblock [OF this(1,2,4,3)] k(2) show ?thesis by blast
qed

text \<open>
  C14. With no process ready, a tick falls back to the idle process but returns the stack
  pointer it was given: the processor goes on where it was, on the stack of the process that
  had to give way.
\<close>

theorem schedule_tick_idle_keeps_stack:
  assumes "sched_inv k" and "\<forall>p. \<not> waiting k p"
    and "sch_current k = NULL \<or> (\<exists>pr. procs k (sch_current k) = Some pr \<and> pr_state pr = PROCESS_STATE_BLOCKED)"
  shows "\<exists>k'. schedule_tick rsp k = Some (rsp, k') \<and> sch_current k' = sch_idle k"
proof -
  have sw: "sch_current k = NULL \<or> sch_current k = sch_idle k \<or>
      (\<exists>pr. procs k (sch_current k) = Some pr \<and>
        (pr_state pr \<noteq> PROCESS_STATE_RUNNING \<or> pr_remaining_quantum pr = 0))" using assms(3) by auto
  obtain k1 where k1: "tick_running rsp (k\<lparr>sch_total_ticks := sch_total_ticks k + 1\<rparr>) = Some (True, k1)"
    "ready_inv k1" by (rule tick_running_defined [OF assms(1) sw, of rsp])
  have "\<forall>i. level k1 i = level k i"
    using k1(1) assms(3) by (auto simp: tick_running_def Let_def process_set_running_def upd_proc_def
        split: if_splits option.splits Option.bind_splits)
  then have "\<not> waiting k1 p" for p using assms(2) by (simp add: waiting_def)
  then have "aging_from 1 k1 i = []" if "i < 6" for i
    using waiting_aged [OF k1(2)] that by (metis list.set_intros(1) neq_Nil_conv)
  then have "first_nonempty [0..<6] (aging_from 1 k1) = None" by (simp add: first_nonempty_None)
  then show ?thesis
    by (rule schedule_tick_no_ready [OF assms(1) k1(1) sw]) blast
qed

theorem schedule_tick_idle_keeps_stack_witness:
  "\<exists>k k'. init_ready_queues [0..<6] boot_kernel = Some k \<and> schedule_tick 9 k = Some (9, k') \<and>
     sch_current k' = sch_idle k"
proof -
  obtain k where k: "init_ready_queues [0..<6] boot_kernel = Some k" "sched_inv k"
    "sch_current k = NULL" "\<forall>i<6. level k i = []" by (rule boot_ready)
  then have "\<forall>p. \<not> waiting k p" by (simp add: waiting_def)
  then show ?thesis using schedule_tick_idle_keeps_stack [OF k(2)] k(1,3) by blast
qed

end
