(* ===== verification/KLib.thy ===== *)
theory KLib
  imports Prelude
begin

unbundle bit_operations_syntax

text \<open>
  The freestanding C library of the kernel: \<open>strings.c\<close> and \<open>lib.c\<close>. A string argument is
  the list of bytes from its pointer to the end of the array it points into, or \<open>None\<close> for
  the null pointer; walking past the end of the array is undefined. The block operations
  work on a byte memory, because the fast path of \<open>memcpy\<close> reads and writes whole words.
\<close>

type_synonym cstring = "u8 list"
type_synonym bytemem = "addr \<rightharpoonup> u8"

section \<open>Strings\<close>

fun strlen_loop :: "cstring \<Rightarrow> u64 \<Rightarrow> u64 option" where
  "strlen_loop [] n = None"
| "strlen_loop (c # it) n = (if c \<noteq> 0 then strlen_loop it (n + 1) else Some n)"

definition strlen :: "cstring option \<Rightarrow> u64 option" where
  "strlen str = (case str of None \<Rightarrow> Some 0 | Some s \<Rightarrow> strlen_loop s 0)"

text \<open>\<open>strcpy\<close> yields the new contents of the destination array.\<close>

fun strcpy_loop :: "cstring \<Rightarrow> cstring \<Rightarrow> cstring option" where
  "strcpy_loop (d # dest) (s # src) =
     (if s \<noteq> 0 then do { rest \<leftarrow> strcpy_loop dest src; Some (s # rest) } else Some (s # dest))"
| "strcpy_loop _ _ = None"

definition strcpy :: "cstring option \<Rightarrow> cstring option \<Rightarrow> cstring option option" where
  "strcpy dest src =
     (case (dest, src) of
        (Some d, Some s) \<Rightarrow> do { r \<leftarrow> strcpy_loop d s; Some (Some r) }
      | _ \<Rightarrow> Some dest)"

text \<open>\<open>char\<close> is signed: the difference is that of the signed bytes.\<close>

fun strcmp :: "cstring \<Rightarrow> cstring \<Rightarrow> int option" where
  "strcmp (a # str1) (b # str2) =
     (if a \<noteq> 0 \<and> b \<noteq> 0 then if a \<noteq> b then Some (sint a - sint b) else strcmp str1 str2
      else Some (sint a - sint b))"
| "strcmp _ _ = None"

section \<open>Blocks of memory\<close>

text \<open>Storing to an address that is not mapped is undefined, like loading from it.\<close>

definition load8 :: "bytemem \<Rightarrow> addr \<Rightarrow> u8 option" where
  "load8 m a = m a"

definition store8 :: "bytemem \<Rightarrow> addr \<Rightarrow> u8 \<Rightarrow> bytemem option" where
  "store8 m a b = (if m a = None then None else Some (m(a \<mapsto> b)))"

fun memset_loop :: "addr \<Rightarrow> u8 \<Rightarrow> nat \<Rightarrow> bytemem \<Rightarrow> bytemem option" where
  "memset_loop dst chr 0 m = Some m"
| "memset_loop dst chr (Suc len) m = do {
     m \<leftarrow> store8 m (dst + len) chr;
     memset_loop dst chr len m
   }"

definition memset :: "addr \<Rightarrow> 32 word \<Rightarrow> u64 \<Rightarrow> bytemem \<Rightarrow> bytemem option" where
  "memset destination c len m = memset_loop destination (ucast c) (unat len) m"

definition load32 :: "bytemem \<Rightarrow> addr \<Rightarrow> u32 option" where
  "load32 m a = do {
     b0 \<leftarrow> load8 m a; b1 \<leftarrow> load8 m (a + 1); b2 \<leftarrow> load8 m (a + 2); b3 \<leftarrow> load8 m (a + 3);
     Some (ucast b0 OR push_bit 8 (ucast b1) OR push_bit 16 (ucast b2) OR push_bit 24 (ucast b3))
   }"

definition store32 :: "bytemem \<Rightarrow> addr \<Rightarrow> u32 \<Rightarrow> bytemem option" where
  "store32 m a w = do {
     m \<leftarrow> store8 m a (ucast w);
     m \<leftarrow> store8 m (a + 1) (ucast (drop_bit 8 w));
     m \<leftarrow> store8 m (a + 2) (ucast (drop_bit 16 w));
     store8 m (a + 3) (ucast (drop_bit 24 w))
   }"

function copy_words :: "addr \<Rightarrow> addr \<Rightarrow> nat \<Rightarrow> nat \<Rightarrow> bytemem \<Rightarrow> bytemem option" where
  "copy_words d s i n m =
     (if i < n then do {
        w \<leftarrow> load32 m (s + 4 * i);
        m \<leftarrow> store32 m (d + 4 * i) w;
        copy_words d s (i + 1) n m
      } else Some m)"
  by pat_completeness auto
termination by (relation "measure (\<lambda>(d, s, i, n, m). n - i)") auto

function copy_bytes :: "addr \<Rightarrow> addr \<Rightarrow> nat \<Rightarrow> nat \<Rightarrow> bytemem \<Rightarrow> bytemem option" where
  "copy_bytes d s i n m =
     (if i < n then do {
        b \<leftarrow> load8 m (s + i);
        m \<leftarrow> store8 m (d + i) b;
        copy_bytes d s (i + 1) n m
      } else Some m)"
  by pat_completeness auto
termination by (relation "measure (\<lambda>(d, s, i, n, m). n - i)") auto

declare copy_words.simps [simp del] copy_bytes.simps [simp del]

definition memcpy :: "addr \<Rightarrow> addr \<Rightarrow> u64 \<Rightarrow> bytemem \<Rightarrow> bytemem option" where
  "memcpy destination source len m =
     (if destination mod 4 = 0 \<and> source mod 4 = 0 \<and> len mod 4 = 0
      then copy_words destination source 0 (unat (len div 4)) m
      else copy_bytes destination source 0 (unat len) m)"

section \<open>Numbers in a base\<close>

text \<open>
  \<open>uint_to_base\<close> writes the digits from the least significant one and then reverses them in
  place; storing past the end of the buffer is undefined. The guard \<open>2 \<le> base\<close> of the loop is
  the one of the function, repeated so that the recursion ends for every argument.
\<close>

definition symbols :: "u8 list" where
  "symbols = map of_nat [48, 49, 50, 51, 52, 53, 54, 55, 56, 57, 65, 66, 67, 68, 69, 70]"

definition put :: "u8 list \<Rightarrow> nat \<Rightarrow> u8 \<Rightarrow> u8 list option" where
  "put buffer i c = (if i < length buffer then Some (buffer[i := c]) else None)"

lemma div_base_less:
  fixes v :: u64 and b :: u32
  assumes "v \<noteq> 0" and "2 \<le> b"
  shows "unat (v div ucast b) < unat v"
proof -
  have b: "unat (ucast b :: u64) = unat b" by (simp add: unsigned_ucast_eq take_bit_nat_eq_self_iff order.strict_trans2 [OF unsigned_less])
  have "0 < unat v" using assms(1) by (simp add: unat_gt_0)
  moreover have "2 \<le> unat b" using assms(2) by (simp add: word_le_nat_alt)
  ultimately show ?thesis by (simp add: unat_div b)
qed

function uint_digits :: "u64 \<Rightarrow> u8 list \<Rightarrow> u32 \<Rightarrow> nat \<Rightarrow> (u8 list \<times> nat) option" where
  "uint_digits value buffer base i =
     (if value \<noteq> 0 \<and> 2 \<le> base then do {
        buffer \<leftarrow> put buffer i (symbols ! unat (value mod ucast base));
        uint_digits (value div ucast base) buffer base (i + 1)
      } else Some (buffer, i))"
  by pat_completeness auto

termination
  by (relation "measure (\<lambda>(v, buf, b, i). unat v)") (auto intro: div_base_less)

declare uint_digits.simps [simp del]

function reverse_digits :: "u8 list \<Rightarrow> nat \<Rightarrow> nat \<Rightarrow> u8 list option" where
  "reverse_digits buffer j i =
     (if j < i div 2 then
        if j < length buffer \<and> i - j - 1 < length buffer
        then reverse_digits (buffer[j := buffer ! (i - j - 1), i - j - 1 := buffer ! j]) (j + 1) i
        else None
      else Some buffer)"
  by pat_completeness auto
termination by (relation "measure (\<lambda>(b, j, i). i div 2 - j)") auto

declare reverse_digits.simps [simp del]

definition uint_to_base :: "u64 \<Rightarrow> u8 list option \<Rightarrow> u32 \<Rightarrow> (nat \<times> u8 list option) option" where
  "uint_to_base value buffer base =
     (case buffer of
        None \<Rightarrow> Some (0, None)
      | Some buf \<Rightarrow>
          if base < 2 \<or> 16 < base then Some (0, buffer)
          else if value = 0 then do {
            buf \<leftarrow> put buf 0 48;
            Some (1, Some buf)
          }
          else do {
            (buf, i) \<leftarrow> uint_digits value buf base 0;
            buf \<leftarrow> reverse_digits buf 0 i;
            Some (i, Some buf)
          })"

section \<open>What the string functions compute\<close>

definition cstr :: "cstring \<Rightarrow> u8 list" where
  "cstr s = takeWhile (\<lambda>c. c \<noteq> 0) s"

lemma cstr_simps [simp]: "cstr [] = []" "cstr (c # s) = (if c = 0 then [] else c # cstr s)"
  by (simp_all add: cstr_def)

lemma cstr_no_0 [simp]: "0 \<notin> set (cstr s)"
  by (auto simp: cstr_def dest: set_takeWhileD)

lemma cstr_append_0 [simp]: "0 \<notin> set xs \<Longrightarrow> cstr (xs @ 0 # ys) = xs"
  by (induction xs) auto

lemma strlen_loop_spec:
  "strlen_loop s n = (if 0 \<in> set s then Some (n + of_nat (length (cstr s))) else None)"
  by (induction s arbitrary: n) (auto simp: algebra_simps)

lemma strlen_spec: "0 \<in> set s \<Longrightarrow> strlen (Some s) = Some (of_nat (length (cstr s)))"
  by (simp add: strlen_def strlen_loop_spec)

lemma strcpy_loop_spec:
  assumes "0 \<in> set s" and "length (cstr s) < length d"
  shows "strcpy_loop d s = Some (cstr s @ 0 # drop (Suc (length (cstr s))) d)"
  using assms by (induction d s rule: strcpy_loop.induct) auto

lemma sint_eq_0_iff: "sint (a :: u8) = 0 \<longleftrightarrow> a = 0"
  using word_eq_iff_signed [of a 0, where 'a = int] by simp

lemma strcmp_spec:
  assumes "0 \<in> set a" and "0 \<in> set b"
  shows "\<exists>d. strcmp a b = Some d \<and> (d = 0 \<longleftrightarrow> cstr a = cstr b)"
  using assms by (induction a b rule: strcmp.induct) (auto simp: sint_eq_0_iff dest: signed_word_eqI)

lemma strcmp_eq:
  assumes "0 \<in> set a" and "0 \<in> set b"
  shows "\<exists>d. strcmp a b = Some d" and "strcmp a b = Some 0 \<longleftrightarrow> cstr a = cstr b"
  using strcmp_spec [OF assms] by auto

section \<open>Copying\<close>

text \<open>The reference: \<open>n\<close> bytes from \<open>s\<close>, as they were, now also at \<open>d\<close>.\<close>

definition blit :: "addr \<Rightarrow> addr \<Rightarrow> nat \<Rightarrow> bytemem \<Rightarrow> bytemem" where
  "blit d s n m = (\<lambda>a. if d \<le> a \<and> a < d + n then m (s + (a - d)) else m a)"

lemma blit_0 [simp]: "blit d s 0 m = m"
  by (auto simp: blit_def fun_eq_iff)

lemma blit_Suc: "blit d s (Suc n) m = (blit d s n m)(d + n := m (s + n))"
  by (auto simp: blit_def fun_eq_iff)

definition copyable :: "addr \<Rightarrow> addr \<Rightarrow> nat \<Rightarrow> bytemem \<Rightarrow> bool" where
  "copyable d s n m \<longleftrightarrow> {d ..< d + n} \<subseteq> dom m \<and> {s ..< s + n} \<subseteq> dom m \<and>
     {d ..< d + n} \<inter> {s ..< s + n} = {}"

lemma blit_source:
  assumes "copyable d s n m" and "i < n" and "j \<le> n"
  shows "blit d s j m (s + i) = m (s + i)" and "m (s + i) \<noteq> None" and "blit d s j m (d + i) \<noteq> None"
proof -
  have "s + i \<in> {s ..< s + n}" using assms(2) by simp
  then have out: "s + i \<notin> {d ..< d + n}" and dm: "s + i \<in> dom m"
    using assms(1) unfolding copyable_def by blast+
  then show "blit d s j m (s + i) = m (s + i)" using assms(3) by (auto simp: blit_def)
  show "m (s + i) \<noteq> None" using dm by auto
  have "d + i \<in> {d ..< d + n}" using assms(2) by simp
  then have "d + i \<in> dom m" using assms(1) unfolding copyable_def by blast
  then show "blit d s j m (d + i) \<noteq> None" using dm by (cases "i < j") (auto simp: blit_def)
qed

lemma copy_bytes_blit:
  assumes "copyable d s n m" and "i \<le> n"
  shows "copy_bytes d s i n (blit d s i m) = Some (blit d s n m)"
  using assms(2)
proof (induction "n - i" arbitrary: i)
  case 0
  then show ?case by (simp add: copy_bytes.simps)
next
  case (Suc x)
  then have i: "i < n" by simp
  have src: "blit d s i m (s + i) = m (s + i)" "m (s + i) \<noteq> None" "blit d s i m (d + i) \<noteq> None"
    using blit_source [OF assms(1) i, of i] i by simp_all
  then obtain b where b: "m (s + i) = Some b" by blast
  have "copy_bytes d s i n (blit d s i m) = copy_bytes d s (i + 1) n (blit d s (Suc i) m)"
    using i src b by (subst copy_bytes.simps) (auto simp: load8_def store8_def blit_Suc)
  then show ?case using Suc(1) [of "Suc i"] Suc(2) i by simp
qed

lemma word_bytes:
  fixes b0 b1 b2 b3 :: u8
  defines "w \<equiv> (ucast b0 :: u32) OR push_bit 8 (ucast b1) OR push_bit 16 (ucast b2) OR push_bit 24 (ucast b3)"
  shows "ucast w = b0" "ucast (drop_bit 8 w) = b1" "ucast (drop_bit 16 w) = b2" "ucast (drop_bit 24 w) = b3"
  unfolding w_def
  by (rule bit_word_eqI; auto simp: bit_simps dest: bit_imp_le_length)+

lemma copy_word:
  assumes "copyable d s n m" and "i + 4 \<le> n"
  shows "\<exists>w. load32 (blit d s i m) (s + i) = Some w \<and>
    store32 (blit d s i m) (d + i) w = Some (blit d s (i + 4) m)"
proof -
  have src: "blit d s i m (s + (i + j)) = m (s + (i + j))" "m (s + (i + j)) \<noteq> None"
    "blit d s i m (d + (i + j)) \<noteq> None" if "j < 4" for j
    using blit_source [OF assms(1), of "i + j" i] assms(2) that by simp_all
  obtain b0 b1 b2 b3 where b: "m (s + i) = Some b0" "m (s + i + 1) = Some b1"
    "m (s + i + 2) = Some b2" "m (s + i + 3) = Some b3"
    using src(2) [of 0] src(2) [of 1] src(2) [of 2] src(2) [of 3] by (auto simp: add.assoc)
  have l: "load8 (blit d s i m) (s + i) = Some b0" "load8 (blit d s i m) (s + i + 1) = Some b1"
    "load8 (blit d s i m) (s + i + 2) = Some b2" "load8 (blit d s i m) (s + i + 3) = Some b3"
    using src(1) [of 0] src(1) [of 1] src(1) [of 2] src(1) [of 3] b by (simp_all add: load8_def add.assoc)
  have t: "blit d s i m (d + i) \<noteq> None" "blit d s i m (d + i + 1) \<noteq> None" "blit d s i m (d + i + 2) \<noteq> None"
    "blit d s i m (d + i + 3) \<noteq> None"
    using src(3) [of 0] src(3) [of 1] src(3) [of 2] src(3) [of 3] by (simp_all add: add.assoc)
  have "blit d s (i + 4) m = (blit d s i m)(d + i \<mapsto> b0, d + i + 1 \<mapsto> b1, d + i + 2 \<mapsto> b2, d + i + 3 \<mapsto> b3)"
    using b by (simp add: numeral_eq_Suc blit_Suc)
  moreover define w where
    "w = (ucast b0 :: u32) OR push_bit 8 (ucast b1) OR push_bit 16 (ucast b2) OR push_bit 24 (ucast b3)"
  ultimately have "store32 (blit d s i m) (d + i) w = Some (blit d s (i + 4) m)"
    using t word_bytes [of b0 b1 b2 b3, folded w_def] by (auto simp: store32_def store8_def)
  moreover have "load32 (blit d s i m) (s + i) = Some w" using l by (simp add: load32_def w_def)
  ultimately show ?thesis by blast
qed

lemma copy_words_blit:
  assumes "copyable d s (4 * n) m" and "i \<le> n"
  shows "copy_words d s i n (blit d s (4 * i) m) = Some (blit d s (4 * n) m)"
  using assms(2)
proof (induction "n - i" arbitrary: i)
  case 0
  then show ?case by (simp add: copy_words.simps)
next
  case (Suc x)
  then have i: "i < n" by simp
  have "4 * i + 4 \<le> 4 * n" using i by simp
  from copy_word [OF assms(1) this] obtain w where w: "load32 (blit d s (4 * i) m) (s + 4 * i) = Some w"
    "store32 (blit d s (4 * i) m) (d + 4 * i) w = Some (blit d s (4 * i + 4) m)" by blast
  have "copy_words d s i n (blit d s (4 * i) m) = copy_words d s (i + 1) n (blit d s (4 * Suc i) m)"
    using i w by (subst copy_words.simps) (simp add: add.commute)
  then show ?case using Suc(1) [of "Suc i"] Suc(2) i by simp
qed

lemma memcpy_blit:
  assumes "copyable d s (unat n) m"
  shows "memcpy d s n m = Some (blit d s (unat n) m)"
proof (cases "d mod 4 = 0 \<and> s mod 4 = 0 \<and> n mod 4 = 0")
  case True
  have "unat n mod 4 = 0" using True proof -
    have "unat (n mod 4) = 0" using True by simp
    then show ?thesis by (simp add: unat_mod)
  qed
  then have n: "4 * unat (n div 4) = unat n" by (simp add: unat_div mult.commute dvd_mult_div_cancel mod_eq_0_iff_dvd)
  then show ?thesis
    using True copy_words_blit [of d s "unat (n div 4)" m 0] assms by (simp add: memcpy_def)
next
  case False
  then show ?thesis using copy_bytes_blit [OF assms, of 0] unfolding memcpy_def by (simp only: if_False) simp
qed

section \<open>Digits\<close>

text \<open>The digits of a number, least significant first, and what a digit symbol stands for.\<close>

fun digits :: "nat \<Rightarrow> nat \<Rightarrow> nat \<Rightarrow> nat list" where
  "digits b 0 v = []"
| "digits b (Suc f) v = (if v = 0 then [] else (v mod b) # digits b f (v div b))"

definition digit_of :: "u8 \<Rightarrow> nat" where
  "digit_of c = (if unat c \<le> 57 then unat c - 48 else unat c - 55)"

definition parse_digits :: "nat \<Rightarrow> u8 list \<Rightarrow> nat" where
  "parse_digits b cs = foldl (\<lambda>acc c. acc * b + digit_of c) 0 cs"

lemma digits_value:
  assumes "v < 2 ^ f" and "2 \<le> b"
  shows "foldr (\<lambda>d acc. acc * b + d) (digits b f v) 0 = v"
  using assms(1)
proof (induction f arbitrary: v)
  case (Suc f)
  have "v div b \<le> v div 2" using assms(2) by (simp add: div_le_mono2)
  then have "v div b < 2 ^ f" using Suc.prems by simp
  then show ?case using Suc.IH by simp
qed simp

lemma digits_length: "length (digits b f v) \<le> f"
  by (induction f arbitrary: v) auto

lemma digits_less: "0 < b \<Longrightarrow> d \<in> set (digits b f v) \<Longrightarrow> d < b"
  by (induction f arbitrary: v) (auto split: if_splits)

lemma symbols_digit:
  assumes "d < 16"
  shows "digit_of (symbols ! d) = d"
proof -
  have "d \<in> set [0..<16]" using assms by simp
  also have "[0..<16] = [0, 1, 2, 3, 4, 5, 6, 7, 8, 9, 10, 11, 12, 13, 14, 15]" by (simp add: upt_rec)
  finally show ?thesis by (auto simp: symbols_def digit_of_def)
qed

lemma digits_length_pow: "v < b ^ n \<Longrightarrow> length (digits b f v) \<le> n"
proof (induction f arbitrary: v n)
  case (Suc f)
  show ?case
  proof (cases "v = 0")
    case False
    then obtain n' where n: "n = Suc n'" using Suc.prems by (cases n) auto
    then have "v div b < b ^ n'" using Suc.prems by (simp add: less_mult_imp_div_less mult.commute)
    then show ?thesis using Suc.IH n False by simp
  qed simp
qed simp

lemma uint_digits_spec:
  assumes "unat v < 2 ^ f" and "2 \<le> b" and "i + length (digits (unat b) f (unat v)) \<le> length buf"
  shows "uint_digits v buf b i = Some
    (take i buf @ map (\<lambda>d. symbols ! d) (digits (unat b) f (unat v)) @
       drop (i + length (digits (unat b) f (unat v))) buf, i + length (digits (unat b) f (unat v)))"
  using assms(1,3)
proof (induction f arbitrary: v buf i)
  case 0
  then show ?case by (simp add: uint_digits.simps unat_eq_zero)
next
  case (Suc f)
  have b: "unat (ucast b :: u64) = unat b" "2 \<le> unat b"
    using assms(2) by (simp_all add: unsigned_ucast_eq take_bit_nat_eq_self_iff
        order.strict_trans2 [OF unsigned_less] word_le_nat_alt)
  show ?case
  proof (cases "v = 0")
    case True
    then show ?thesis by (simp add: uint_digits.simps)
  next
    case False
    let ?w = "v div ucast b" and ?c = "symbols ! (unat v mod unat b)"
    have w: "unat ?w = unat v div unat b" "unat (v mod ucast b) = unat v mod unat b"
      by (simp_all add: unat_div unat_mod b)
    have "unat v div unat b \<le> unat v div 2" using b(2) by (simp add: div_le_mono2)
    then have lt: "unat ?w < 2 ^ f" using Suc.prems(1) w by simp
    have i: "i < length buf" and le: "Suc i + length (digits (unat b) f (unat ?w)) \<le> length (buf[i := ?c])"
      using Suc.prems(2) False w by (simp_all add: unat_eq_zero)
    have "uint_digits v buf b i = uint_digits ?w (buf[i := ?c]) b (Suc i)"
      using False assms(2) i w by (subst uint_digits.simps) (simp add: put_def)
    also have "\<dots> = Some (take (Suc i) (buf[i := ?c]) @
       map (\<lambda>d. symbols ! d) (digits (unat b) f (unat ?w)) @
       drop (Suc i + length (digits (unat b) f (unat ?w))) (buf[i := ?c]),
       Suc i + length (digits (unat b) f (unat ?w)))"
      by (rule Suc.IH [OF lt le])
    also have "take (Suc i) (buf[i := ?c]) = take i buf @ [?c]"
      using i by (simp add: take_Suc_conv_app_nth)
    finally show ?thesis using False w by (simp add: unat_eq_zero)
  qed
qed

text \<open>The reversal in place, seen position by position.\<close>

lemma reverse_digits_spec:
  assumes "i \<le> length orig" and "length buf = length orig" and "j \<le> i div 2"
    and "\<forall>k<length orig. buf ! k = (if k < j \<or> i - j \<le> k \<and> k < i then orig ! (i - 1 - k) else orig ! k)"
  shows "\<exists>r. reverse_digits buf j i = Some r \<and> length r = length orig \<and>
    (\<forall>k<length orig. r ! k = (if k < i then orig ! (i - 1 - k) else orig ! k))"
  using assms(2-)
proof (induction "i div 2 - j" arbitrary: j buf)
  case 0
  then have j: "j = i div 2" by simp
  have "buf ! k = (if k < i then orig ! (i - 1 - k) else orig ! k)" if k: "k < length orig" for k
  proof (cases "k < j \<or> i - j \<le> k \<and> k < i")
    case True
    then show ?thesis using 0(4) k j by auto
  next
    case False
    moreover have "k < i \<Longrightarrow> i - 1 - k = k" using False j by linarith
    ultimately show ?thesis using 0(4) k by auto
  qed
  then show ?case using j 0(2) by (simp add: reverse_digits.simps)
next
  case (Suc x)
  then have j: "j < i div 2" by simp
  then have ji: "j < i - j - 1" "i - j - 1 < length orig" "j < length orig" using assms(1) by linarith+
  let ?buf = "buf[j := buf ! (i - j - 1), i - j - 1 := buf ! j]"
  have "\<forall>k<length orig. ?buf ! k = (if k < Suc j \<or> i - Suc j \<le> k \<and> k < i then orig ! (i - 1 - k) else orig ! k)"
  proof (intro allI impI)
    fix k
    assume k: "k < length orig"
    consider "k = j" | "k = i - j - 1" | "k \<noteq> j" "k \<noteq> i - j - 1" by blast
    then show "?buf ! k = (if k < Suc j \<or> i - Suc j \<le> k \<and> k < i then orig ! (i - 1 - k) else orig ! k)"
    proof cases
      case 1
      then have "i - 1 - k = i - j - 1" by simp
      then show ?thesis using 1 ji Suc.prems(1,3) by simp
    next
      case 2
      then have "i - 1 - k = j" using ji by simp
      then show ?thesis using 2 ji Suc.prems(1,3) by auto
    next
      case 3
      then have "(k < Suc j \<or> i - Suc j \<le> k \<and> k < i) = (k < j \<or> i - j \<le> k \<and> k < i)" using ji by auto
      then show ?thesis using 3 k Suc.prems(1,3) by simp
    qed
  qed
  moreover have "x = i div 2 - Suc j" "Suc j \<le> i div 2" "length ?buf = length orig" using Suc.hyps(2) j Suc.prems(1) by simp_all
  ultimately obtain r where "reverse_digits ?buf (Suc j) i = Some r" "length r = length orig"
    "\<forall>k<length orig. r ! k = (if k < i then orig ! (i - 1 - k) else orig ! k)"
    using Suc.hyps(1) [of "Suc j" ?buf] by blast
  then show ?case using j ji Suc.prems(1) by (subst reverse_digits.simps) simp
qed

lemma reverse_digits_rev:
  assumes "i \<le> length buf"
  shows "reverse_digits buf 0 i = Some (rev (take i buf) @ drop i buf)"
proof -
  have "\<forall>k<length buf. buf ! k = (if k < 0 \<or> i - 0 \<le> k \<and> k < i then buf ! (i - 1 - k) else buf ! k)" by auto
  from reverse_digits_spec [OF assms refl _ this] obtain r where
    r: "reverse_digits buf 0 i = Some r" "length r = length buf"
    "\<forall>k<length buf. r ! k = (if k < i then buf ! (i - 1 - k) else buf ! k)" by auto
  have "r = rev (take i buf) @ drop i buf"
    by (rule nth_equalityI) (use r assms in \<open>auto simp: nth_append rev_nth min_def\<close>)
  then show ?thesis using r(1) by simp
qed

lemma parse_rev:
  assumes "\<forall>d\<in>set ds. d < 16"
  shows "parse_digits b (rev (map (\<lambda>d. symbols ! d) ds)) = foldr (\<lambda>d acc. acc * b + d) ds 0"
proof -
  have "foldr (\<lambda>c acc. acc * b + digit_of c) (map (\<lambda>d. symbols ! d) ds) 0 = foldr (\<lambda>d acc. acc * b + d) ds 0"
    using assms by (induction ds) (simp_all add: symbols_digit)
  then show ?thesis by (simp add: parse_digits_def foldl_conv_foldr)
qed

section \<open>Properties\<close>

text \<open>
  C15. \<open>memcpy\<close> copies: for disjoint buffers the word-at-a-time path and the byte path agree
  with the reference, every byte of the source is at the destination and nothing else has
  changed.
\<close>

theorem memcpy_is_copy:
  assumes "{d ..< d + unat n} \<subseteq> dom m" and "{s ..< s + unat n} \<subseteq> dom m"
    and "{d ..< d + unat n} \<inter> {s ..< s + unat n} = {}"
  shows "memcpy d s n m = Some (\<lambda>a. if d \<le> a \<and> a < d + unat n then m (s + (a - d)) else m a)"
  using memcpy_blit [of d s n m] assms by (simp add: copyable_def blit_def)

theorem memcpy_is_copy_witness:
  "memcpy 8 0 4 (map_of (zip [0..<12] [1, 2, 3, 4, 0, 0, 0, 0, 0, 0, 0, 0])) =
   Some (\<lambda>a. if 8 \<le> a \<and> a < 12 then map_of (zip [0..<12] [1, 2, 3, 4, 0, 0, 0, 0, 0, 0, 0, 0]) (a - 8)
             else map_of (zip [0..<12] [1, 2, 3, 4, 0, 0, 0, 0, 0, 0, 0, 0]) a)"
proof -
  let ?m = "map_of (zip [0..<12] [1, 2, 3, 4, 0, 0, 0, 0, 0, 0, 0, 0 :: u8])"
  have "dom ?m = {0..<12}" by (subst dom_map_of_zip) simp_all
  then have "{8 ..< 8 + unat (4 :: u64)} \<subseteq> dom ?m" "{0 ..< 0 + unat (4 :: u64)} \<subseteq> dom ?m" by auto
  from memcpy_is_copy [OF this] show ?thesis by (simp cong: if_cong)
qed

text \<open>
  \<open>uint_to_base\<close> prints a number: with room for 64 symbols the loop ends inside the
  buffer, and reading the symbols back in the same base gives the number; the rest of the
  buffer is untouched.
\<close>

theorem uint_to_base_reads_back:
  assumes "2 \<le> base" and "base \<le> 16" and "64 \<le> length buf"
  shows "\<exists>i buf'. uint_to_base v (Some buf) base = Some (i, Some buf') \<and> 0 < i \<and> i \<le> 64 \<and>
    length buf' = length buf \<and> parse_digits (unat base) (take i buf') = unat v \<and> drop i buf' = drop i buf"
proof (cases "v = 0")
  case True
  then show ?thesis
    using assms by (cases buf) (simp_all add: uint_to_base_def put_def parse_digits_def digit_of_def not_less not_le)
next
  case False
  let ?ds = "digits (unat base) 64 (unat v)"
  have b: "2 \<le> unat base" "unat base \<le> 16" using assms(1,2) by (simp_all add: word_le_nat_alt)
  have lt: "unat v < 2 ^ 64" using unsigned_less [of v] by simp
  have len: "length ?ds \<le> 64" by (rule digits_length)
  let ?buf = "map (\<lambda>d. symbols ! d) ?ds @ drop (length ?ds) buf"
  have "uint_digits v buf base 0 = Some (?buf, length ?ds)"
    using uint_digits_spec [OF lt assms(1), of 0 buf] len assms(3) by simp
  moreover have "reverse_digits ?buf 0 (length ?ds) = Some (rev (map (\<lambda>d. symbols ! d) ?ds) @ drop (length ?ds) buf)"
    by (subst reverse_digits_rev) simp_all
  ultimately have "uint_to_base v (Some buf) base =
      Some (length ?ds, Some (rev (map (\<lambda>d. symbols ! d) ?ds) @ drop (length ?ds) buf))"
    using False assms(1,2) by (auto simp: uint_to_base_def)
  moreover have "parse_digits (unat base) (rev (map (\<lambda>d. symbols ! d) ?ds)) = unat v"
  proof -
    have "\<forall>d\<in>set ?ds. d < 16" using digits_less [of "unat base"] b by fastforce
    then show ?thesis using digits_value [OF lt b(1)] by (simp add: parse_rev)
  qed
  moreover have "0 < length ?ds" using False by (simp add: numeral_eq_Suc unat_eq_zero)
  ultimately show ?thesis using len assms(3) by simp
qed

theorem uint_to_base_reads_back_witness:
  "\<exists>i buf'. uint_to_base 255 (Some (replicate 64 0)) 16 = Some (i, Some buf') \<and>
     parse_digits 16 (take i buf') = 255"
  using uint_to_base_reads_back [of 16 "replicate 64 0" 255] by auto

end
