(* ===== verification/Sem_Spec.thy ===== *)
theory Sem_Spec
  imports Prelude
begin

text \<open>
  What a set of counting semaphores promises. The abstract state gives every semaphore its
  value and the processes that wait at it, in order; a post hands the semaphore to the first
  waiting process or adds one to the value, a wait takes one from the value or joins the end
  of the line. Values are 32 bits wide, as the count field is.
\<close>

type_synonym sem_state = "(addr \<Rightarrow> u32) \<times> (addr \<Rightarrow> addr list)"

text \<open>\<open>Wait s p\<close> is a wait of process \<open>p\<close> at semaphore \<open>s\<close>, \<open>Tick\<close> a tick of the scheduler.\<close>

datatype sem_call = Post addr | Wait addr addr | Tick

fun sem_step :: "sem_call \<Rightarrow> sem_state \<Rightarrow> sem_state" where
  "sem_step (Post s) (v, w) = (case w s of [] \<Rightarrow> (v(s := v s + 1), w) | p # ps \<Rightarrow> (v, w(s := ps)))"
| "sem_step (Wait s p) (v, w) = (if 0 < v s then (v(s := v s - 1), w) else (v, w(s := w s @ [p])))"
| "sem_step Tick x = x"

definition sem_steps :: "sem_call list \<Rightarrow> sem_state \<Rightarrow> sem_state" where
  "sem_steps cs x = fold sem_step cs x"

lemma sem_steps_simps [simp]:
  "sem_steps [] x = x" "sem_steps (c # cs) x = sem_steps cs (sem_step c x)"
  by (simp_all add: sem_steps_def)

fun posts :: "addr \<Rightarrow> sem_call list \<Rightarrow> nat" where
  "posts s [] = 0"
| "posts s (c # cs) = (if c = Post s then Suc (posts s cs) else posts s cs)"

fun waits :: "addr \<Rightarrow> sem_call list \<Rightarrow> nat" where
  "waits s [] = 0"
| "waits s (c # cs) = (if \<exists>p. c = Wait s p then Suc (waits s cs) else waits s cs)"

text \<open>
  Conservation: the value, plus the waits that have been granted (all those made, less those
  still in line), equals the initial value plus the posts, as long as the value does not
  overflow its 32 bits.
\<close>

lemma sem_step_conserve:
  assumes "sem_step c (v, w) = (v', w')" and "unat (v s) + (if c = Post s then 1 else 0) < 2 ^ 32"
  shows "unat (v' s) + length (w s) + (if \<exists>p. c = Wait s p then 1 else 0) =
         unat (v s) + length (w' s) + (if c = Post s then 1 else 0)"
proof (cases c)
  case (Post s')
  have "s' = s \<Longrightarrow> unat (v s + 1) = unat (v s) + 1" using assms(2) Post by (simp add: unat_word_ariths)
  then show ?thesis using assms(1) Post by (auto split: list.splits)
next
  case (Wait s' p)
  have "0 < v s \<Longrightarrow> unat (v s - 1) = unat (v s) - 1 \<and> 0 < unat (v s)"
    by (simp add: unat_minus_one word_neq_0_conv unat_gt_0)
  then show ?thesis using assms(1) Wait by (auto split: if_splits)
qed (use assms(1) in simp)

lemma sem_steps_conserve:
  "sem_steps cs (v, w) = (v', w') \<Longrightarrow> unat (v s) + posts s cs < 2 ^ 32 \<Longrightarrow>
   unat (v' s) + length (w s) + waits s cs = unat (v s) + length (w' s) + posts s cs"
proof (induction cs arbitrary: v w)
  case (Cons c cs)
  obtain v1 w1 where c: "sem_step c (v, w) = (v1, w1)" by fastforce
  have lt: "unat (v s) + (if c = Post s then 1 else 0) < 2 ^ 32" using Cons.prems(2) by (auto split: if_splits)
  note step = sem_step_conserve [where s = s, OF c lt]
  have "unat (v1 s) \<le> unat (v s) + (if c = Post s then 1 else 0)"
    using c lt by (cases c) (auto simp: unat_word_ariths unat_minus_one word_neq_0_conv split: list.splits if_splits)
  then have "unat (v1 s) + posts s cs < 2 ^ 32" using Cons.prems(2) by (auto split: if_splits)
  then have "unat (v' s) + length (w1 s) + waits s cs = unat (v1 s) + length (w' s) + posts s cs"
    using Cons.IH [of v1 w1] Cons.prems(1) c by simp
  then show ?case using step by (auto split: if_splits)
qed simp

text \<open>Nobody waits at a semaphore that has a value to give.\<close>

definition no_idle_value :: "sem_state \<Rightarrow> bool" where
  "no_idle_value x \<longleftrightarrow> (\<forall>s. 0 < fst x s \<longrightarrow> snd x s = [])"

lemma sem_step_no_idle: "no_idle_value x \<Longrightarrow> no_idle_value (sem_step c x)"
  by (cases x; cases c) (auto simp: no_idle_value_def split: list.splits)

text \<open>
  The contract: the operations refine the steps above on every semaphore of a set, the
  scheduler leaves them alone, and a post that finds a line makes its first process ready.
\<close>

locale semaphore_ops =
  fixes inv :: "addr set \<Rightarrow> 'k \<Rightarrow> bool"
    and absf :: "addr set \<Rightarrow> 'k \<Rightarrow> sem_state"
    and post :: "addr \<Rightarrow> 'k \<Rightarrow> (int \<times> bool \<times> 'k) option"
    and wait :: "addr \<Rightarrow> 'k \<Rightarrow> (int \<times> bool \<times> 'k) option"
    and tick :: "u64 \<Rightarrow> 'k \<Rightarrow> (u64 \<times> 'k) option"
    and current :: "'k \<Rightarrow> addr"
    and can_wait :: "'k \<Rightarrow> bool"
    and ready :: "'k \<Rightarrow> addr \<Rightarrow> bool"
  assumes post_law: "inv S k \<Longrightarrow> s \<in> S \<Longrightarrow>
      \<exists>y k'. post s k = Some (0, y, k') \<and> inv S k' \<and> absf S k' = sem_step (Post s) (absf S k) \<and>
        (\<forall>p ps. snd (absf S k) s = p # ps \<longrightarrow> ready k' p)"
    and wait_law: "inv S k \<Longrightarrow> s \<in> S \<Longrightarrow> can_wait k \<Longrightarrow>
      \<exists>k'. wait s k = Some (0, \<not> 0 < fst (absf S k) s, k') \<and> inv S k' \<and>
        absf S k' = sem_step (Wait s (current k)) (absf S k)"
    and tick_law: "inv S k \<Longrightarrow>
      \<exists>r k'. tick rsp k = Some (r, k') \<and> inv S k' \<and> absf S k' = absf S k"
begin

text \<open>Interleavings of posts, waits and ticks, as the kernel can perform them.\<close>

inductive sem_run :: "addr set \<Rightarrow> 'k \<Rightarrow> sem_call list \<Rightarrow> 'k \<Rightarrow> bool" for S where
  run_nil: "sem_run S k [] k"
| run_post: "s \<in> S \<Longrightarrow> post s k = Some (0, y, k') \<Longrightarrow> sem_run S k' cs k'' \<Longrightarrow>
    sem_run S k (Post s # cs) k''"
| run_wait: "s \<in> S \<Longrightarrow> can_wait k \<Longrightarrow> wait s k = Some (0, b, k') \<Longrightarrow> sem_run S k' cs k'' \<Longrightarrow>
    sem_run S k (Wait s (current k) # cs) k''"
| run_tick: "tick rsp k = Some (r, k') \<Longrightarrow> sem_run S k' cs k'' \<Longrightarrow> sem_run S k (Tick # cs) k''"

lemma run_refines:
  "sem_run S k cs k' \<Longrightarrow> inv S k \<Longrightarrow> inv S k' \<and> absf S k' = sem_steps cs (absf S k)"
proof (induction rule: sem_run.induct)
  case (run_post s k y k' cs k'')
  then show ?case using post_law [of S k s] by auto
next
  case (run_wait s k b k' cs k'')
  then show ?case using wait_law [of S k s] by auto
next
  case (run_tick rsp k r k' cs k'')
  then show ?case using tick_law [of S k rsp] by auto
qed simp

lemma run_conserves:
  assumes "sem_run S k cs k'" and "inv S k" and "unat (fst (absf S k) s) + posts s cs < 2 ^ 32"
  shows "unat (fst (absf S k') s) + length (snd (absf S k) s) + waits s cs =
         unat (fst (absf S k) s) + length (snd (absf S k') s) + posts s cs"
  using sem_steps_conserve [of cs "fst (absf S k)" "snd (absf S k)" "fst (absf S k')" "snd (absf S k')" s]
    run_refines [OF assms(1,2)] assms(3) by simp

text \<open>
  Mutual exclusion: of a semaphore that starts with value 1 and an empty line, the waits
  granted never exceed the posts by more than one.
\<close>

lemma mutual_exclusion:
  assumes "sem_run S k cs k'" and "inv S k" and "fst (absf S k) s = 1" and "snd (absf S k) s = []"
    and "1 + posts s cs < 2 ^ 32"
  shows "waits s cs - length (snd (absf S k') s) \<le> posts s cs + 1"
  using run_conserves [OF assms(1,2), of s] assms(3-5) by simp

text \<open>Every sequence of posts and ticks can be performed.\<close>

lemma run_exists:
  assumes "inv S k" and "\<forall>c\<in>set cs. c = Tick \<or> (\<exists>s\<in>S. c = Post s)"
  shows "\<exists>k'. sem_run S k cs k'"
  using assms
proof (induction cs arbitrary: k)
  case Nil
  then show ?case using run_nil by blast
next
  case (Cons c cs)
  consider "c = Tick" | s where "s \<in> S" "c = Post s" using Cons.prems(2) by auto
  then show ?case
  proof cases
    case 1
    obtain r k1 where k1: "tick 0 k = Some (r, k1)" "inv S k1" using tick_law [OF Cons.prems(1)] by blast
    then obtain k' where "sem_run S k1 cs k'" using Cons.IH [OF k1(2)] Cons.prems(2) by auto
    then show ?thesis using run_tick [OF k1(1)] 1 by blast
  next
    case 2
    obtain y k1 where k1: "post s k = Some (0, y, k1)" "inv S k1" using post_law [OF Cons.prems(1) 2(1)] by blast
    then obtain k' where "sem_run S k1 cs k'" using Cons.IH [OF k1(2)] Cons.prems(2) by auto
    then show ?thesis using run_post [OF 2(1) k1(1)] 2(2) by blast
  qed
qed

end

end
