(* ===== verification/Sem.thy ===== *)
theory Sem
  imports Sched_Props KLib Sem_Spec
begin

text \<open>
  The semaphores of \<open>sem.c\<close>. A process that has to wait is put on the queue of the semaphore
  and blocked, and then gives up the processor: \<open>sem_wait\<close> returns with the flag that says
  so, and the rest of the call runs when the scheduler resumes the process. \<open>sem_post\<close>
  returns the flag of \<open>process_yield\<close> in the same way.

  Names are byte strings; the argument \<open>name\<close> is the string the pointer of the caller
  points to, the copy the semaphore owns is a heap object of its own.
\<close>

section \<open>Operations\<close>

definition SEM_SIZE :: u64 where "SEM_SIZE = 24"

text \<open>
  \<open>semLock\<close> exchanges the byte with 1 until it reads 0. Interrupts are disabled, so on a byte
  that is already 1 it spins forever.
\<close>

definition semLock :: "u8 \<Rightarrow> u8 option" where
  "semLock lock = (if lock = 0 then Some 1 else None)"

definition semUnlock :: "u8 \<Rightarrow> u8" where
  "semUnlock lock = 0"

definition lock_registry :: "kernel \<Rightarrow> kernel option" where
  "lock_registry k = do { l \<leftarrow> semLock (registry_lock k); Some (k\<lparr>registry_lock := l\<rparr>) }"

definition unlock_registry :: "kernel \<Rightarrow> kernel" where
  "unlock_registry k = k\<lparr>registry_lock := semUnlock (registry_lock k)\<rparr>"

definition upd_sem :: "addr \<Rightarrow> (sem \<Rightarrow> sem) \<Rightarrow> kernel \<Rightarrow> kernel option" where
  "upd_sem sem f k = do { s \<leftarrow> sems k sem; Some (k\<lparr>sems := (sems k)(sem \<mapsto> f s)\<rparr>) }"

definition lock_sem :: "addr \<Rightarrow> kernel \<Rightarrow> kernel option" where
  "lock_sem sem k = do {
     s \<leftarrow> sems k sem;
     v \<leftarrow> s_lock s;
     l \<leftarrow> semLock v;
     upd_sem sem (\<lambda>s. s\<lparr>s_lock := Some l\<rparr>) k
   }"

definition unlock_sem :: "addr \<Rightarrow> kernel \<Rightarrow> kernel option" where
  "unlock_sem sem k = upd_sem sem (\<lambda>s. s\<lparr>s_lock := Some 0\<rparr>) k"

definition timer_tick_is_disabled :: "kernel \<Rightarrow> bool" where
  "timer_tick_is_disabled k \<longleftrightarrow> and (pic_master_mask k) 1 \<noteq> 0"

definition ensure_registry :: "kernel \<Rightarrow> kernel option" where
  "ensure_registry k =
     (if registered_semaphores k = NULL then do {
        (q, k) \<leftarrow> queue_create k;
        Some (k\<lparr>registered_semaphores := q\<rparr>)
      } else Some k)"

partial_function (option) find_registered_loop :: "cstring \<Rightarrow> addr \<Rightarrow> kernel \<Rightarrow> addr option" where
  "find_registered_loop name it k =
     (if queue_iter_has_next it then do {
        (candidate, it) \<leftarrow> queue_iter_next it k;
        if candidate = NULL then find_registered_loop name it k
        else do {
          s \<leftarrow> sems k candidate;
          nm \<leftarrow> s_name s;
          if nm = NULL then find_registered_loop name it k
          else do {
            str \<leftarrow> strs k nm;
            d \<leftarrow> strcmp str name;
            if d = 0 then Some candidate else find_registered_loop name it k
          }
        }
      } else Some NULL)"

definition find_registered :: "cstring option \<Rightarrow> kernel \<Rightarrow> addr option" where
  "find_registered name k =
     (if registered_semaphores k = NULL then Some NULL
      else case name of
        None \<Rightarrow> Some NULL
      | Some nm \<Rightarrow> do { it \<leftarrow> queue_iter (registered_semaphores k) k; find_registered_loop nm it k })"

definition sem_create :: "kernel \<Rightarrow> (addr \<times> kernel) option" where
  "sem_create k = do {
     (p, k) \<leftarrow> kalloc SEM_SIZE k;
     Some (p, if p = NULL then k
              else k\<lparr>sems := (sems k)(p \<mapsto> \<lparr>s_name = None, s_count = None, s_lock = None, s_waiting = None\<rparr>)\<rparr>)
   }"

definition sem_find :: "cstring option \<Rightarrow> kernel \<Rightarrow> (addr \<times> kernel) option" where
  "sem_find name k = do {
     k \<leftarrow> lock_registry k;
     result \<leftarrow> find_registered name k;
     Some (result, unlock_registry k)
   }"

definition sem_init :: "addr \<Rightarrow> cstring option \<Rightarrow> u32 \<Rightarrow> kernel \<Rightarrow> kernel option" where
  "sem_init sem name initial_count k =
     (if sem = NULL then Some k
      else case name of
        None \<Rightarrow> Some k
      | Some str \<Rightarrow> do {
          k \<leftarrow> ensure_registry k;
          n \<leftarrow> strlen name;
          (nm, k) \<leftarrow> kalloc (n + 1) k;
          k \<leftarrow> upd_sem sem (\<lambda>s. s\<lparr>s_name := Some nm\<rparr>) k;
          if nm = NULL then Some k
          else do {
            copy \<leftarrow> strcpy_loop (replicate (unat (n + 1)) 0) str;
            k \<leftarrow> Some (k\<lparr>strs := (strs k)(nm \<mapsto> copy)\<rparr>);
            k \<leftarrow> upd_sem sem (\<lambda>s. s\<lparr>s_count := Some initial_count\<rparr>) k;
            (q, k) \<leftarrow> queue_create k;
            k \<leftarrow> upd_sem sem (\<lambda>s. s\<lparr>s_waiting := Some q, s_lock := Some 0\<rparr>) k;
            k \<leftarrow> lock_registry k;
            found \<leftarrow> find_registered name k;
            k \<leftarrow> (if found = NULL then do { (_, k) \<leftarrow> queue_push (registered_semaphores k) sem k; Some k }
                  else Some k);
            Some (unlock_registry k)
          }
        })"

partial_function (option) wake_all :: "addr \<Rightarrow> kernel \<Rightarrow> kernel option" where
  "wake_all sem k = do {
     s \<leftarrow> sems k sem;
     waiting_processes \<leftarrow> s_waiting s;
     if waiting_processes = NULL then Some k
     else do {
       empty \<leftarrow> queue_is_empty waiting_processes k;
       if empty then Some k
       else do {
         (process, k) \<leftarrow> queue_pop waiting_processes k;
         k \<leftarrow> (if process \<noteq> NULL then do { (_, k) \<leftarrow> process_unblock process k; Some k } else Some k);
         wake_all sem k
       }
     }
   }"

definition free_str :: "addr \<Rightarrow> kernel \<Rightarrow> kernel option" where
  "free_str p k = do { k \<leftarrow> kfree p k; Some (k\<lparr>strs := (strs k)(p := None)\<rparr>) }"

definition sem_destroy :: "addr \<Rightarrow> kernel \<Rightarrow> kernel option" where
  "sem_destroy sem k =
     (if sem = NULL then Some k
      else do {
        k \<leftarrow> lock_registry k;
        k \<leftarrow> (if registered_semaphores k \<noteq> NULL
              then do { (_, k) \<leftarrow> queue_remove (registered_semaphores k) sem k; Some k } else Some k);
        k \<leftarrow> Some (unlock_registry k);
        k \<leftarrow> lock_sem sem k;
        k \<leftarrow> wake_all sem k;
        s \<leftarrow> sems k sem;
        q \<leftarrow> s_waiting s;
        k \<leftarrow> queue_destroy q None k;
        k \<leftarrow> upd_sem sem (\<lambda>s. s\<lparr>s_waiting := Some NULL, s_count := Some 0\<rparr>) k;
        k \<leftarrow> unlock_sem sem k;
        k \<leftarrow> upd_sem sem (\<lambda>s. s\<lparr>s_lock := Some 0\<rparr>) k;
        s \<leftarrow> sems k sem;
        nm \<leftarrow> s_name s;
        if nm \<noteq> NULL then do {
          k \<leftarrow> free_str nm k;
          upd_sem sem (\<lambda>s. s\<lparr>s_name := Some NULL\<rparr>) k
        } else Some k
      })"

text \<open>\<open>process_yield\<close>: the flag says that the scheduler interrupt is raised.\<close>

definition process_yield :: "kernel \<Rightarrow> (bool \<times> kernel) option" where
  "process_yield k =
     (let current = scheduler_current k
      in if current = NULL then Some (False, k)
         else do {
           k \<leftarrow> upd_proc current (\<lambda>pr. pr\<lparr>pr_remaining_quantum := 0\<rparr>) k;
           Some (True, k)
         })"

partial_function (option) wake_one :: "addr \<Rightarrow> kernel \<Rightarrow> (bool \<times> kernel) option" where
  "wake_one sem k = do {
     s \<leftarrow> sems k sem;
     waiting_processes \<leftarrow> s_waiting s;
     if waiting_processes = NULL then Some (False, k)
     else do {
       empty \<leftarrow> queue_is_empty waiting_processes k;
       if empty then Some (False, k)
       else do {
         (process, k) \<leftarrow> queue_pop waiting_processes k;
         if process = NULL then Some (False, k)
         else do {
           (woken, k) \<leftarrow> process_unblock process k;
           if woken then Some (True, k) else wake_one sem k
         }
       }
     }
   }"

definition sem_post :: "addr \<Rightarrow> kernel \<Rightarrow> (int \<times> bool \<times> kernel) option" where
  "sem_post sem k =
     (if sem = NULL then Some (-1, False, k)
      else do {
        k \<leftarrow> lock_sem sem k;
        (woke_process, k) \<leftarrow> wake_one sem k;
        k \<leftarrow> (if \<not> woke_process then do {
                s \<leftarrow> sems k sem;
                c \<leftarrow> s_count s;
                upd_sem sem (\<lambda>s. s\<lparr>s_count := Some (c + 1)\<rparr>) k
              } else Some k);
        k \<leftarrow> unlock_sem sem k;
        (yields, k) \<leftarrow> (if woke_process \<and> timer_tick_is_disabled k then process_yield k else Some (False, k));
        Some (0, yields, k)
      })"

definition sem_wait :: "addr \<Rightarrow> kernel \<Rightarrow> (int \<times> bool \<times> kernel) option" where
  "sem_wait sem k =
     (if sem = NULL then Some (-1, False, k)
      else do {
        k \<leftarrow> lock_sem sem k;
        s \<leftarrow> sems k sem;
        c \<leftarrow> s_count s;
        (ret, blocked, k) \<leftarrow>
          (if 0 < c then do {
             k \<leftarrow> upd_sem sem (\<lambda>s. s\<lparr>s_count := Some (c - 1)\<rparr>) k;
             Some (0, False, k)
           }
           else if scheduler_current k \<noteq> NULL then do {
             q \<leftarrow> s_waiting s;
             (_, k) \<leftarrow> queue_push q (scheduler_current k) k;
             (blocked, k) \<leftarrow> process_block (scheduler_current k) k;
             Some (0, blocked, k)
           }
           else Some (-1, False, k));
        k \<leftarrow> unlock_sem sem k;
        Some (ret, blocked, k)
      })"

definition sem_waiting_count :: "addr \<Rightarrow> kernel \<Rightarrow> (int \<times> kernel) option" where
  "sem_waiting_count sem k =
     (if sem = NULL then Some (-1, k)
      else do {
        k \<leftarrow> lock_sem sem k;
        s \<leftarrow> sems k sem;
        q \<leftarrow> s_waiting s;
        count \<leftarrow> (if q \<noteq> NULL then do { n \<leftarrow> queue_size q k; Some (sint (ucast n :: 32 word)) } else Some 0);
        k \<leftarrow> unlock_sem sem k;
        Some (count, k)
      })"

definition sem_get_value :: "addr \<Rightarrow> kernel \<Rightarrow> (int \<times> kernel) option" where
  "sem_get_value sem k =
     (if sem = NULL then Some (-1, k)
      else do {
        k \<leftarrow> lock_sem sem k;
        s \<leftarrow> sems k sem;
        c \<leftarrow> s_count s;
        k \<leftarrow> unlock_sem sem k;
        Some (sint c, k)
      })"

text \<open>The element looked for is the pid itself, cast to a pointer.\<close>

definition sem_remove_process :: "addr \<Rightarrow> 32 word \<Rightarrow> kernel \<Rightarrow> (int \<times> kernel) option" where
  "sem_remove_process sem pid k =
     (if sem = NULL then Some (-1, k)
      else do {
        s \<leftarrow> sems k sem;
        q \<leftarrow> s_waiting s;
        (removed, k) \<leftarrow> queue_remove q (unat (scast pid :: u64)) k;
        Some (of_bool removed, k)
      })"

text \<open>
  The posts of \<open>sem_set_value\<close>. Each may raise the scheduler interrupt; the flag says that
  one of them did.
\<close>

fun post_times :: "nat \<Rightarrow> addr \<Rightarrow> bool \<Rightarrow> kernel \<Rightarrow> (bool \<times> kernel) option" where
  "post_times 0 sem yielded k = Some (yielded, k)"
| "post_times (Suc n) sem yielded k = do {
     (_, yields, k) \<leftarrow> sem_post sem k;
     post_times n sem (yielded \<or> yields) k
   }"

definition sem_set_value :: "addr \<Rightarrow> u32 \<Rightarrow> kernel \<Rightarrow> (int \<times> bool \<times> kernel) option" where
  "sem_set_value sem new_value k =
     (if sem = NULL then Some (-1, False, k)
      else do {
        k \<leftarrow> lock_sem sem k;
        s \<leftarrow> sems k sem;
        current \<leftarrow> s_count s;
        k \<leftarrow> unlock_sem sem k;
        (yields, k) \<leftarrow>
          (if current < new_value then post_times (unat (new_value - current)) sem False k
           else if new_value < current then do {
             k \<leftarrow> lock_sem sem k;
             k \<leftarrow> upd_sem sem (\<lambda>s. s\<lparr>s_count := Some new_value\<rparr>) k;
             k \<leftarrow> unlock_sem sem k;
             Some (False, k)
           }
           else Some (False, k));
        Some (0, yields, k)
      })"

section \<open>Invariant\<close>

definition sem_queue :: "kernel \<Rightarrow> addr \<Rightarrow> addr" where
  "sem_queue k s = (case sems k s of Some r \<Rightarrow> (case s_waiting r of Some q \<Rightarrow> q | None \<Rightarrow> NULL) | None \<Rightarrow> NULL)"

definition sem_value :: "kernel \<Rightarrow> addr \<Rightarrow> u32" where
  "sem_value k s = (case sems k s of Some r \<Rightarrow> (case s_count r of Some c \<Rightarrow> c | None \<Rightarrow> 0) | None \<Rightarrow> 0)"

abbreviation waiters :: "kernel \<Rightarrow> addr \<Rightarrow> addr list" where
  "waiters k s \<equiv> qelems k (sem_queue k s)"

text \<open>
  An initialised semaphore is unlocked between operations and has a queue of its own, which
  is none of the ready queues; those who wait are blocked.
\<close>

definition sem_ready :: "kernel \<Rightarrow> addr \<Rightarrow> bool" where
  "sem_ready k s \<longleftrightarrow>
     (\<exists>r c q. sems k s = Some r \<and> s_count r = Some c \<and> s_lock r = Some 0 \<and> s_waiting r = Some q \<and>
        q \<in> dom (queues k) \<and> q \<notin> set (sch_ready_queues k) \<and>
        distinct (qelems k q) \<and> (\<forall>p\<in>set (qelems k q). blocked k p))"

text \<open>
  The semaphores of a set do not share a queue, and a process waits at one of them at most.
\<close>

definition sems_inv :: "addr set \<Rightarrow> kernel \<Rightarrow> bool" where
  "sems_inv S k \<longleftrightarrow> sched_inv k \<and> (\<forall>s\<in>S. sem_ready k s) \<and>
     (\<forall>s\<in>S. \<forall>s'\<in>S. s \<noteq> s' \<longrightarrow> sem_queue k s \<noteq> sem_queue k s' \<and>
        set (waiters k s) \<inter> set (waiters k s') = {})"

definition sem_abs :: "addr set \<Rightarrow> kernel \<Rightarrow> sem_state" where
  "sem_abs S k = (\<lambda>s. if s \<in> S then sem_value k s else 0, \<lambda>s. if s \<in> S then waiters k s else [])"

lemma sem_readyD:
  assumes "sem_ready k s"
  obtains r where "sems k s = Some r" "s_count r = Some (sem_value k s)" "s_lock r = Some 0"
    "s_waiting r = Some (sem_queue k s)" "sem_queue k s \<in> dom (queues k)"
    "sem_queue k s \<notin> set (sch_ready_queues k)" "distinct (waiters k s)" "\<forall>p\<in>set (waiters k s). blocked k p"
proof -
  obtain r c q where r: "sems k s = Some r" "s_count r = Some c" "s_lock r = Some 0" "s_waiting r = Some q"
    "q \<in> dom (queues k)" "q \<notin> set (sch_ready_queues k)" "distinct (qelems k q)" "\<forall>p\<in>set (qelems k q). blocked k p"
    using assms unfolding sem_ready_def by blast
  moreover have "sem_queue k s = q" "sem_value k s = c" using r by (simp_all add: sem_queue_def sem_value_def)
  ultimately show ?thesis using that by blast
qed

lemma sems_invD:
  assumes "sems_inv S k"
  shows "sched_inv k" and "ready_inv k" and "queue_inv k" and "s \<in> S \<Longrightarrow> sem_ready k s"
    and "s \<in> S \<Longrightarrow> s' \<in> S \<Longrightarrow> s \<noteq> s' \<Longrightarrow> sem_queue k s \<noteq> sem_queue k s'"
    and "s \<in> S \<Longrightarrow> s' \<in> S \<Longrightarrow> s \<noteq> s' \<Longrightarrow> set (waiters k s) \<inter> set (waiters k s') = {}"
proof -
  show "sched_inv k" "s \<in> S \<Longrightarrow> sem_ready k s"
    "s \<in> S \<Longrightarrow> s' \<in> S \<Longrightarrow> s \<noteq> s' \<Longrightarrow> sem_queue k s \<noteq> sem_queue k s'"
    "s \<in> S \<Longrightarrow> s' \<in> S \<Longrightarrow> s \<noteq> s' \<Longrightarrow> set (waiters k s) \<inter> set (waiters k s') = {}"
    using assms unfolding sems_inv_def by blast+
  then show "ready_inv k" by (simp add: sched_inv_def)
  then show "queue_inv k" by (rule ready_invD(1))
qed

lemma sem_not_null: "sems_inv S k \<Longrightarrow> s \<in> S \<Longrightarrow> s \<noteq> NULL"
proof -
  assume inv: "sems_inv S k" and s: "s \<in> S"
  obtain r where "sems k s = Some r" by (rule sem_readyD [OF sems_invD(4) [OF inv s]])
  then have "objects_at k s \<noteq> 0" by (auto simp: objects_at_def)
  then show ?thesis using heap_ok_null [OF queue_inv_heap [OF sems_invD(3) [OF inv]]] by metis
qed

text \<open>
  How the invariant is re-established: the same semaphores up to values, the same queues,
  and the lines given by \<open>w\<close>, whose members are blocked.
\<close>

lemma sems_inv_step:
  assumes inv: "sems_inv S k" and sched: "sched_inv k'"
    and s': "\<forall>s\<in>S. \<exists>r c. sems k' s = Some r \<and> s_count r = Some c \<and> s_lock r = Some 0 \<and>
      s_waiting r = Some (sem_queue k s)"
    and d: "dom (queues k) \<subseteq> dom (queues k')" and rq: "sch_ready_queues k' = sch_ready_queues k"
    and w: "\<forall>s\<in>S. qelems k' (sem_queue k s) = w s"
    and wd: "\<forall>s\<in>S. distinct (w s) \<and> (\<forall>p\<in>set (w s). blocked k' p)"
    and wi: "\<forall>s\<in>S. \<forall>s'\<in>S. s \<noteq> s' \<longrightarrow> set (w s) \<inter> set (w s') = {}"
  shows "sems_inv S k'" and "s \<in> S \<Longrightarrow> waiters k' s = w s"
proof -
  have q: "sem_queue k' s = sem_queue k s" if s: "s \<in> S" for s
  proof -
    obtain r where "sems k' s = Some r" "s_waiting r = Some (sem_queue k s)" using s' s by blast
    then show ?thesis by (simp add: sem_queue_def [of k'])
  qed
  show ws: "s \<in> S \<Longrightarrow> waiters k' s = w s" for s using q w by simp
  have "sem_ready k' s" if s: "s \<in> S" for s
  proof -
    obtain r c where r: "sems k' s = Some r" "s_count r = Some c" "s_lock r = Some 0"
      "s_waiting r = Some (sem_queue k s)" using s' s by blast
    obtain r0 where "sem_queue k s \<in> dom (queues k)" "sem_queue k s \<notin> set (sch_ready_queues k)"
      by (rule sem_readyD [OF sems_invD(4) [OF inv s]])
    then have "sem_queue k s \<in> dom (queues k')" "sem_queue k s \<notin> set (sch_ready_queues k')" using d rq by auto
    moreover have "distinct (qelems k' (sem_queue k s))" "\<forall>p\<in>set (qelems k' (sem_queue k s)). blocked k' p"
      using w wd s by simp_all
    ultimately show ?thesis unfolding sem_ready_def using r by blast
  qed
  then show "sems_inv S k'"
    unfolding sems_inv_def using sched q ws wi sems_invD(5) [OF inv] by (metis (no_types, lifting))
qed

text \<open>Queues that are not ready queues, under the invariant of the scheduler.\<close>

lemma wq_pop:
  assumes inv: "ready_inv k" and q: "q \<in> dom (queues k)" "q \<notin> set (sch_ready_queues k)" and e: "qelems k q = p # ps"
  obtains k' where "queue_pop q k = Some (p, k')" "ready_inv k'" "queue_frame k k'" "queue_room k'"
    "dom (queues k') = dom (queues k)" "qelems k' = (qelems k)(q := ps)" "\<forall>i<6. level k' i = level k i"
proof -
  obtain k' where k': "queue_pop q k = Some (p, k')" "queue_inv k'" "queue_frame k k'"
    "dom (queues k') = dom (queues k)" "qelems k' = (qelems k)(q := ps)" "queue_room k'"
    by (rule kq.pop_Cons [OF ready_invD(1) [OF inv] q(1) e])
  have lv: "level k' i = level k i" if "i < 6" for i
    using that q(2) k'(5) queue_frameD(2) [OF k'(3)] ready_invD(2) [OF inv] nth_mem by fastforce
  have "ready_inv k'"
    by (rule ready_inv_queue [OF inv k'(3,2,4)]) (use lv ready_invD(5,6) [OF inv] in auto)
  then show ?thesis using that [OF k'(1)] k' lv by blast
qed

lemma wq_push:
  assumes inv: "ready_inv k" and q: "q \<in> dom (queues k)" "q \<notin> set (sch_ready_queues k)"
  obtains k' where "queue_push q p k = Some (queue_room k, k')" "ready_inv k'" "queue_frame k k'"
    "dom (queues k') = dom (queues k)" "qelems k' = (if queue_room k then (qelems k)(q := qelems k q @ [p]) else qelems k)"
    "\<forall>i<6. level k' i = level k i"
proof -
  obtain k' where k': "queue_push q p k = Some (queue_room k, k')" "queue_inv k'"
    "queue_frame k k'" "dom (queues k') = dom (queues k)"
    "qelems k' = (if queue_room k then (qelems k)(q := qelems k q @ [p]) else qelems k)"
    using kq.push_law [OF ready_invD(1) [OF inv] q(1), of p] by (elim exE conjE)
  have lv: "level k' i = level k i" if "i < 6" for i
    using that q(2) k'(5) queue_frameD(2) [OF k'(3)] ready_invD(2) [OF inv] nth_mem by fastforce
  have "ready_inv k'"
    by (rule ready_inv_queue [OF inv k'(3,2,4)]) (use lv ready_invD(5,6) [OF inv] in auto)
  then show ?thesis using that [OF k'(1)] k' lv by blast
qed

text \<open>The scheduler does not look at the semaphores.\<close>

lemma sched_inv_sems [simp]:
  "sems k s \<noteq> None \<Longrightarrow> ready_inv k \<Longrightarrow> ready_inv (k\<lparr>sems := (sems k)(s \<mapsto> r)\<rparr>)"
  "running_inv (k\<lparr>sems := ss\<rparr>) = running_inv k"
  "blocked (k\<lparr>sems := ss\<rparr>) = blocked k"
  by (auto simp: ready_inv_def ready_at_def running_inv_def blocked_def fun_eq_iff)

lemma qelems_sched:
  assumes "sched_frame k k'" and "q \<notin> set (sch_ready_queues k)"
  shows "qelems k' q = qelems k q" and "dom (queues k') = dom (queues k)"
  using assms unfolding sched_frame_def by blast+

section \<open>Laws of the operations\<close>

lemma lock_sem_some:
  assumes "sems k s = Some r" and "s_lock r = Some 0"
  shows "lock_sem s k = Some (k\<lparr>sems := (sems k)(s \<mapsto> r\<lparr>s_lock := Some 1\<rparr>)\<rparr>)"
  using assms by (simp add: lock_sem_def upd_sem_def semLock_def)

lemma unlock_sem_some:
  "sems k s = Some r \<Longrightarrow> unlock_sem s k = Some (k\<lparr>sems := (sems k)(s \<mapsto> r\<lparr>s_lock := Some 0\<rparr>)\<rparr>)"
  by (simp add: unlock_sem_def upd_sem_def)

lemma upd_sem_some:
  "sems k s = Some r \<Longrightarrow> upd_sem s f k = Some (k\<lparr>sems := (sems k)(s \<mapsto> f r)\<rparr>)"
  by (simp add: upd_sem_def)

lemma process_yield_spec:
  assumes "sched_inv k"
  obtains y k' where "process_yield k = Some (y, k')" "sched_inv k'" "sched_frame k k'"
    "\<forall>p. blocked k p \<longrightarrow> blocked k' p" "\<forall>i. level k' i = level k i"
proof (cases "sch_current k = NULL")
  case True
  then show ?thesis using that [of False k] assms by (simp add: process_yield_def scheduler_current_def)
next
  case False
  have rd: "ready_inv k" using assms by (simp add: sched_inv_def)
  obtain pr where pr: "procs k (sch_current k) = Some pr" using rd False by (auto simp: ready_inv_def)
  let ?pr = "pr\<lparr>pr_remaining_quantum := 0\<rparr>"
  let ?k = "k\<lparr>procs := (procs k)(sch_current k \<mapsto> ?pr)\<rparr>"
  have "ready_inv ?k" by (rule ready_inv_upd_same [OF rd pr]) simp_all
  moreover have "running_inv ?k" using assms pr by (auto simp: sched_inv_def running_inv_def)
  moreover have "sched_frame k ?k" by (rule sched_frame_proc [OF pr]) (simp add: sched_fields_only_def)
  moreover have "process_yield k = Some (True, ?k)"
    using False pr by (simp add: process_yield_def scheduler_current_def)
  moreover have "\<forall>p. blocked k p \<longrightarrow> blocked ?k p" using pr by (auto simp: blocked_def)
  ultimately show ?thesis using that [of True ?k] by (simp add: sched_inv_def)
qed

text \<open>Waking the first of the line.\<close>

lemma wake_one_Nil:
  assumes "queue_inv k" and "sems k s = Some r" and "s_waiting r = Some q" and "q \<in> dom (queues k)" and "qelems k q = []"
  shows "wake_one s k = Some (False, k)"
proof -
  have "queue_is_empty q k = Some True" using queue_is_empty_spec [OF assms(1)] assms(4,5) by auto
  then show ?thesis using assms(2,3) by (subst wake_one.simps) simp
qed

lemma wake_one_Cons:
  assumes inv: "sched_inv k" and r: "sems k s = Some r" "s_waiting r = Some q"
    and q: "q \<in> dom (queues k)" "q \<notin> set (sch_ready_queues k)" "qelems k q = p # ps" and b: "blocked k p"
  obtains k' where "wake_one s k = Some (True, k')" "sched_inv k'" "sems k' = sems k" "sch_current k' = sch_current k"
    "sch_ready_queues k' = sch_ready_queues k" "sch_idle k' = sch_idle k"
    "dom (queues k') = dom (queues k)" "\<forall>q'. q' \<notin> set (sch_ready_queues k) \<longrightarrow> qelems k' q' = ((qelems k)(q := ps)) q'"
    "\<forall>p'. p' \<noteq> p \<longrightarrow> procs k' p' = procs k p'" "waiting k' p"
proof -
  have rd: "ready_inv k" using inv by (simp add: sched_inv_def)
  obtain pr where pr: "procs k p = Some pr" "pr_state pr = PROCESS_STATE_BLOCKED" "p \<noteq> sch_idle k"
    using b by (auto simp: blocked_def)
  have nn: "p \<noteq> NULL" using ready_not_null [OF rd pr(1)] .
  have qn: "q \<noteq> NULL" using q(1) object_live(1) [OF queue_inv_heap [OF ready_invD(1) [OF rd]]] by blast
  obtain k1 where k1: "queue_pop q k = Some (p, k1)" "ready_inv k1" "queue_frame k k1" "queue_room k1"
    "dom (queues k1) = dom (queues k)" "qelems k1 = (qelems k)(q := ps)" "\<forall>i<6. level k1 i = level k i"
    by (rule wq_pop [OF rd q])
  note f = queue_frameD [OF k1(3)]
  obtain k2 where k2: "process_unblock p k1 = Some (True, k2)" "ready_inv k2" "sched_frame k1 k2"
    "procs k2 = (procs k1)(p \<mapsto> readied k1 pr)" "sch_current k2 = sch_current k1"
    "\<forall>i<6. level k2 i = level k1 i @ (if i = unat (ready_priority pr) \<and> queue_room k1 then [p] else [])"
    by (rule process_unblock_spec [OF k1(2), of p pr]) (use pr f in simp_all)
  have "queue_is_empty q k = Some False" using queue_is_empty_spec [OF ready_invD(1) [OF rd]] q by auto
  then have "wake_one s k = Some (True, k2)" using r k1(1) k2(1) nn qn by (subst wake_one.simps) simp
  moreover have "sched_inv k2"
    using inv k2(2,4,5) f pr by (auto simp: sched_inv_def running_inv_def readied_def)
  moreover have "waiting k2 p"
    unfolding waiting_def using k2(6) k1(4) ready_priority_le [OF rd pr(1)]
    by (intro exI [of _ "unat (ready_priority pr)"]) simp
  moreover have "qelems k2 q' = ((qelems k)(q := ps)) q'" if "q' \<notin> set (sch_ready_queues k)" for q'
    using qelems_sched(1) [OF k2(3)] that k1(6) f(2) by simp
  ultimately show ?thesis
    using that [of k2] k2(4,5) f sched_frameD(1,2,3) [OF k2(3)] qelems_sched(2) [OF k2(3)] k1(5) q(2) by simp
qed

text \<open>Lines of a state in which one has changed.\<close>

lemma sem_abs_eq:
  assumes "\<forall>s\<in>S. sem_value k' s = v s" and "\<forall>s\<in>S. waiters k' s = w s"
  shows "sem_abs S k' = (\<lambda>s. if s \<in> S then v s else 0, \<lambda>s. if s \<in> S then w s else [])"
  using assms by (auto simp: sem_abs_def)

lemma sems_inv_lines:
  assumes "sems_inv S k" and "s \<in> S"
  shows "\<exists>r c. sems k s = Some r \<and> s_count r = Some c \<and> s_lock r = Some 0 \<and> s_waiting r = Some (sem_queue k s)"
    and "distinct (waiters k s) \<and> (\<forall>p\<in>set (waiters k s). blocked k p)"
    and "sem_queue k s \<notin> set (sch_ready_queues k)"
proof -
  obtain r where "sems k s = Some r" "s_count r = Some (sem_value k s)" "s_lock r = Some 0"
    "s_waiting r = Some (sem_queue k s)" "sem_queue k s \<notin> set (sch_ready_queues k)"
    "distinct (waiters k s)" "\<forall>p\<in>set (waiters k s). blocked k p"
    by (rule sem_readyD [OF sems_invD(4) [OF assms]])
  then show "\<exists>r c. sems k s = Some r \<and> s_count r = Some c \<and> s_lock r = Some 0 \<and> s_waiting r = Some (sem_queue k s)"
    and "distinct (waiters k s) \<and> (\<forall>p\<in>set (waiters k s). blocked k p)"
    and "sem_queue k s \<notin> set (sch_ready_queues k)" by blast+
qed

text \<open>A new value for one semaphore, and nothing else.\<close>

lemma sems_inv_value:
  assumes inv: "sems_inv S k" and s: "s \<in> S" "sems k s = Some r" and k': "k' = k\<lparr>sems := (sems k)(s \<mapsto> r\<lparr>s_count := Some c\<rparr>)\<rparr>"
  shows "sems_inv S k'" and "sem_abs S k' = ((fst (sem_abs S k))(s := c), snd (sem_abs S k))"
proof -
  have sc: "sched_inv k'" using sems_invD(1,2) [OF inv] s(2) k' by (simp add: sched_inv_def)
  have a: "\<forall>s'\<in>S. \<exists>r c. sems k' s' = Some r \<and> s_count r = Some c \<and> s_lock r = Some 0 \<and>
      s_waiting r = Some (sem_queue k s')"
    using sems_inv_lines(1) [OF inv] s(2) k' by fastforce
  have f: "dom (queues k) \<subseteq> dom (queues k')" "sch_ready_queues k' = sch_ready_queues k"
    "\<forall>s\<in>S. qelems k' (sem_queue k s) = waiters k s" using k' by simp_all
  have d: "\<forall>s\<in>S. distinct (waiters k s) \<and> (\<forall>p\<in>set (waiters k s). blocked k' p)"
    using sems_inv_lines(2) [OF inv] k' by simp
  have i: "\<forall>s\<in>S. \<forall>s'\<in>S. s \<noteq> s' \<longrightarrow> set (waiters k s) \<inter> set (waiters k s') = {}"
    using sems_invD(6) [OF inv] by blast
  show "sems_inv S k'" by (rule sems_inv_step(1) [OF inv sc a f d i])
  have "waiters k' s' = waiters k s'" if "s' \<in> S" for s' by (rule sems_inv_step(2) [OF inv sc a f d i that])
  then show "sem_abs S k' = ((fst (sem_abs S k))(s := c), snd (sem_abs S k))"
    using s(1) k' by (auto simp: sem_abs_def sem_value_def fun_eq_iff)
qed

text \<open>New lines for the same semaphores.\<close>

lemma sems_inv_relined:
  assumes inv: "sems_inv S k" and s: "s \<in> S" and sched: "sched_inv k'" and f: "sems k' = sems k"
    "sch_ready_queues k' = sch_ready_queues k" "dom (queues k') = dom (queues k)"
    and q: "\<forall>q. q \<notin> set (sch_ready_queues k) \<longrightarrow> qelems k' q = ((qelems k)(sem_queue k s := ps)) q"
    and ps: "distinct ps" "\<forall>p\<in>set ps. blocked k' p"
    and b: "\<forall>s'\<in>S. s' \<noteq> s \<longrightarrow> (\<forall>p\<in>set (waiters k s'). blocked k' p \<and> p \<notin> set ps)"
  shows "sems_inv S k'" and "sem_abs S k' = (fst (sem_abs S k), (snd (sem_abs S k))(s := ps))"
proof -
  let ?w = "(waiters k)(s := ps)"
  have a: "\<forall>s'\<in>S. \<exists>r c. sems k' s' = Some r \<and> s_count r = Some c \<and> s_lock r = Some 0 \<and>
      s_waiting r = Some (sem_queue k s')" using sems_inv_lines(1) [OF inv] f(1) by simp
  have w: "\<forall>s'\<in>S. qelems k' (sem_queue k s') = ?w s'"
  proof
    fix s' assume s': "s' \<in> S"
    show "qelems k' (sem_queue k s') = ?w s'"
      using q sems_inv_lines(3) [OF inv s'] sems_invD(5) [OF inv s' s] by auto
  qed
  have d: "\<forall>s'\<in>S. distinct (?w s') \<and> (\<forall>p\<in>set (?w s'). blocked k' p)"
    using sems_inv_lines(2) [OF inv] ps b by auto
  have i: "\<forall>s1\<in>S. \<forall>s2\<in>S. s1 \<noteq> s2 \<longrightarrow> set (?w s1) \<inter> set (?w s2) = {}"
    using sems_invD(6) [OF inv] b by auto
  show "sems_inv S k'" by (rule sems_inv_step(1) [OF inv sched a equalityD2 [OF f(3)] f(2) w d i])
  have "waiters k' s' = ?w s'" if "s' \<in> S" for s' by (rule sems_inv_step(2) [OF inv sched a equalityD2 [OF f(3)] f(2) w d i that])
  then show "sem_abs S k' = (fst (sem_abs S k), (snd (sem_abs S k))(s := ps))"
    using s f(1) by (auto simp: sem_abs_def sem_value_def fun_eq_iff)
qed

lemma yields_spec:
  assumes "sched_inv k"
  obtains y k' where "(if c then process_yield k else Some (False, k)) = Some (y, k')"
    "sched_inv k'" "sched_frame k k'" "\<forall>p. blocked k p \<longrightarrow> blocked k' p" "\<forall>i. level k' i = level k i"
proof (cases c)
  case True
  show ?thesis by (rule process_yield_spec [OF assms], rule that) (use True in simp_all)
qed (use that [of False k] assms in simp)

lemma sem_post_Cons:
  assumes inv: "sems_inv S k" and s: "s \<in> S" and w: "waiters k s = p # ps"
  shows "\<exists>y k'. sem_post s k = Some (0, y, k') \<and> sems_inv S k' \<and>
    sem_abs S k' = (fst (sem_abs S k), (snd (sem_abs S k))(s := ps)) \<and> waiting k' p"
proof -
  obtain r where r: "sems k s = Some r" "s_count r = Some (sem_value k s)" "s_lock r = Some 0"
    "s_waiting r = Some (sem_queue k s)" "sem_queue k s \<in> dom (queues k)"
    "sem_queue k s \<notin> set (sch_ready_queues k)" "distinct (waiters k s)" "\<forall>p\<in>set (waiters k s). blocked k p"
    by (rule sem_readyD [OF sems_invD(4) [OF inv s]])
  let ?q = "sem_queue k s" and ?r = "r\<lparr>s_lock := Some 1\<rparr>"
  let ?k1 = "k\<lparr>sems := (sems k)(s \<mapsto> ?r)\<rparr>"
  have i1: "sched_inv ?k1" using sems_invD(1,2) [OF inv] r(1) by (simp add: sched_inv_def)
  have bp: "blocked ?k1 p" using r(8) w by simp
  obtain k2 where k2: "wake_one s ?k1 = Some (True, k2)" "sched_inv k2" "sems k2 = sems ?k1"
    "sch_ready_queues k2 = sch_ready_queues ?k1" "sch_idle k2 = sch_idle ?k1" "dom (queues k2) = dom (queues ?k1)"
    "\<forall>q'. q' \<notin> set (sch_ready_queues ?k1) \<longrightarrow> qelems k2 q' = ((qelems ?k1)(?q := ps)) q'"
    "\<forall>p'. p' \<noteq> p \<longrightarrow> procs k2 p' = procs ?k1 p'" "waiting k2 p"
    by (rule wake_one_Cons [OF i1 _ _ _ _ _ bp, of s ?r ?q ps]) (use r w in simp_all)
  let ?k3 = "k2\<lparr>sems := (sems k2)(s \<mapsto> r)\<rparr>"
  have unl: "unlock_sem s k2 = Some ?k3" using unlock_sem_some [of k2 s ?r] k2(3) r(3) by (cases r) simp
  have i3: "sched_inv ?k3"
    using k2(2,3) sched_inv_sems(1) [of k2 s r] by (simp add: sched_inv_def del: fun_upd_apply) simp
  obtain y k4 where k4: "(if timer_tick_is_disabled ?k3 then process_yield ?k3 else Some (False, ?k3)) = Some (y, k4)"
    "sched_inv k4" "sched_frame ?k3 k4" "\<forall>p. blocked ?k3 p \<longrightarrow> blocked k4 p" "\<forall>i. level k4 i = level ?k3 i"
    by (rule yields_spec [OF i3, of "timer_tick_is_disabled ?k3"])
  have post: "sem_post s k = Some (0, y, k4)"
    using sem_not_null [OF inv s] lock_sem_some [OF r(1,3)] k2(1) unl k4(1) by (simp add: sem_post_def)
  have f: "sems k4 = sems k" "sch_ready_queues k4 = sch_ready_queues k" "dom (queues k4) = dom (queues k)"
    using sched_frameD(1,3) [OF k4(3)] k2(3,4,6) r(1) k4(3) by (auto simp: sched_frame_def)
  have q4: "\<forall>q. q \<notin> set (sch_ready_queues k) \<longrightarrow> qelems k4 q = ((qelems k)(?q := ps)) q"
    using qelems_sched(1) [OF k4(3)] k2(4,7) by simp
  have b4: "blocked k4 p'" if "blocked k p'" "p' \<noteq> p" for p'
    using that k2(5,8) k4(4) by (simp add: blocked_def)
  have ps: "distinct ps" "\<forall>p'\<in>set ps. blocked k4 p'" using r(7,8) w b4 by auto
  have b: "\<forall>s'\<in>S. s' \<noteq> s \<longrightarrow> (\<forall>p'\<in>set (waiters k s'). blocked k4 p' \<and> p' \<notin> set ps)"
  proof (intro ballI impI)
    fix s' p' assume s': "s' \<in> S" "s' \<noteq> s" "p' \<in> set (waiters k s')"
    then have "p' \<notin> set (p # ps)" using sems_invD(6) [OF inv s'(1) s s'(2)] w by auto
    then show "blocked k4 p' \<and> p' \<notin> set ps" using b4 sems_inv_lines(2) [OF inv s'(1)] s'(3) by simp
  qed
  have "waiting k4 p" using k2(9) k4(5) by (simp add: waiting_def)
  then show ?thesis
    using post sems_inv_relined [OF inv s k4(2) f q4 ps b] by blast
qed

lemma sem_post_Nil:
  assumes inv: "sems_inv S k" and s: "s \<in> S" and w: "waiters k s = []"
  shows "\<exists>k'. sem_post s k = Some (0, False, k') \<and> sems_inv S k' \<and>
    sem_abs S k' = ((fst (sem_abs S k))(s := sem_value k s + 1), snd (sem_abs S k))"
proof -
  obtain r where r: "sems k s = Some r" "s_count r = Some (sem_value k s)" "s_lock r = Some 0"
    "s_waiting r = Some (sem_queue k s)" "sem_queue k s \<in> dom (queues k)"
    by (rule sem_readyD [OF sems_invD(4) [OF inv s]])
  let ?r = "r\<lparr>s_lock := Some 1\<rparr>"
  let ?k1 = "k\<lparr>sems := (sems k)(s \<mapsto> ?r)\<rparr>" and ?k' = "k\<lparr>sems := (sems k)(s \<mapsto> r\<lparr>s_count := Some (sem_value k s + 1)\<rparr>)\<rparr>"
  have "queue_inv ?k1" using sems_invD(3) [OF inv] r(1) by simp
  then have wake: "wake_one s ?k1 = Some (False, ?k1)"
    by (rule wake_one_Nil [of _ _ ?r "sem_queue k s"]) (use r w in simp_all)
  have "?r\<lparr>s_count := Some (sem_value k s + 1), s_lock := Some 0\<rparr> = r\<lparr>s_count := Some (sem_value k s + 1)\<rparr>"
    using r(3) by (cases r) simp
  then have "sem_post s k = Some (0, False, ?k')"
    using sem_not_null [OF inv s] lock_sem_some [OF r(1,3)] wake r(2)
    by (simp add: sem_post_def upd_sem_some unlock_sem_some)
  then show ?thesis using sems_inv_value [OF inv s r(1) refl] by blast
qed

lemma sem_post_law:
  assumes inv: "sems_inv S k" and s: "s \<in> S"
  shows "\<exists>y k'. sem_post s k = Some (0, y, k') \<and> sems_inv S k' \<and> sem_abs S k' = sem_step (Post s) (sem_abs S k) \<and>
    (\<forall>p ps. snd (sem_abs S k) s = p # ps \<longrightarrow> waiting k' p)"
proof (cases "waiters k s")
  case Nil
  then have "sem_step (Post s) (sem_abs S k) = ((fst (sem_abs S k))(s := sem_value k s + 1), snd (sem_abs S k))"
    "snd (sem_abs S k) s = []" using s by (simp_all add: sem_abs_def)
  then show ?thesis using sem_post_Nil [OF inv s Nil] by auto
next
  case (Cons p ps)
  then have "sem_step (Post s) (sem_abs S k) = (fst (sem_abs S k), (snd (sem_abs S k))(s := ps))"
    "snd (sem_abs S k) s = p # ps" using s by (simp_all add: sem_abs_def)
  then show ?thesis using sem_post_Cons [OF inv s Cons] by auto
qed

text \<open>
  A wait of the running process: it takes one from the value, or joins the line and is
  blocked; for the queue node there must be memory.
\<close>

definition can_wait :: "kernel \<Rightarrow> bool" where
  "can_wait k \<longleftrightarrow> queue_room k \<and> sch_current k \<noteq> sch_idle k \<and>
     (\<exists>pr. procs k (sch_current k) = Some pr \<and> pr_state pr = PROCESS_STATE_RUNNING)"

lemma sem_wait_0:
  assumes inv: "sems_inv S k" and s: "s \<in> S" and v: "sem_value k s = 0" and c: "can_wait k"
  shows "\<exists>k'. sem_wait s k = Some (0, True, k') \<and> sems_inv S k' \<and>
    sem_abs S k' = (fst (sem_abs S k), (snd (sem_abs S k))(s := waiters k s @ [sch_current k]))"
proof -
  obtain r where r: "sems k s = Some r" "s_count r = Some (sem_value k s)" "s_lock r = Some 0"
    "s_waiting r = Some (sem_queue k s)" "sem_queue k s \<in> dom (queues k)"
    "sem_queue k s \<notin> set (sch_ready_queues k)" "distinct (waiters k s)" "\<forall>p\<in>set (waiters k s). blocked k p"
    by (rule sem_readyD [OF sems_invD(4) [OF inv s]])
  let ?q = "sem_queue k s" and ?r = "r\<lparr>s_lock := Some 1\<rparr>" and ?p = "sch_current k"
  let ?k1 = "k\<lparr>sems := (sems k)(s \<mapsto> ?r)\<rparr>"
  have i1: "ready_inv ?k1" using sems_invD(2) [OF inv] r(1) by simp
  obtain pr where pr: "procs k ?p = Some pr" "pr_state pr = PROCESS_STATE_RUNNING" "?p \<noteq> sch_idle k"
    using c by (auto simp: can_wait_def)
  have pn: "?p \<noteq> NULL" using ready_not_null [OF sems_invD(2) [OF inv] pr(1)] .
  have room: "queue_room ?k1" using c by (simp add: can_wait_def)
  obtain k2 where k2: "queue_push ?q ?p ?k1 = Some (queue_room ?k1, k2)" "ready_inv k2" "queue_frame ?k1 k2"
    "dom (queues k2) = dom (queues ?k1)"
    "qelems k2 = (if queue_room ?k1 then (qelems ?k1)(?q := qelems ?k1 ?q @ [?p]) else qelems ?k1)"
    by (rule wq_push [OF i1, of ?q ?p]) (use r in simp_all)
  note f2 = queue_frameD [OF k2(3)]
  obtain k3 where k3: "process_block ?p k2 = Some (True, k3)" "ready_inv k3" "sched_frame k2 k3"
    "procs k3 = (procs k2)(?p \<mapsto> pr\<lparr>pr_state := PROCESS_STATE_BLOCKED\<rparr>)" "sch_current k3 = sch_current k2"
    by (rule process_block_spec [OF k2(2), of ?p pr]) (use pr f2 in simp_all)
  have s3: "sems k3 = sems ?k1" using sched_frameD(3) [OF k3(3)] f2(7) by simp
  let ?k4 = "k3\<lparr>sems := (sems k3)(s \<mapsto> r)\<rparr>"
  have unl: "unlock_sem s k3 = Some ?k4" using unlock_sem_some [of k3 s ?r] s3 r(3) by (cases r) simp
  have wait: "sem_wait s k = Some (0, True, ?k4)"
    using sem_not_null [OF inv s] lock_sem_some [OF r(1,3)] r(2,4) v pn k2(1) k3(1) unl f2(4)
    by (simp add: sem_wait_def scheduler_current_def)
  have "ready_inv ?k4" using k3(2) s3 sched_inv_sems(1) [of k3 s r] by simp
  moreover have "running_inv ?k4"
    using sems_invD(1) [OF inv] k3(4,5) f2(1,4) by (auto simp: sched_inv_def running_inv_def)
  ultimately have i4: "sched_inv ?k4" by (simp add: sched_inv_def)
  have f: "sems ?k4 = sems k" "sch_ready_queues ?k4 = sch_ready_queues k" "dom (queues ?k4) = dom (queues k)"
    using sched_frameD(1) [OF k3(3)] s3 r(1) f2(2) k2(4) k3(3) by (auto simp: sched_frame_def)
  have q4: "\<forall>q. q \<notin> set (sch_ready_queues k) \<longrightarrow> qelems ?k4 q = ((qelems k)(?q := waiters k s @ [?p])) q"
    using qelems_sched(1) [OF k3(3)] f2(2) k2(5) room by simp
  have b4: "blocked ?k4 p'" if "blocked k p' \<or> p' = ?p" for p'
    using that k3(4) f2(1,3) sched_frameD(2) [OF k3(3)] pr(3) by (auto simp: blocked_def)
  have nb: "\<not> blocked k ?p" using pr by (simp add: blocked_def)
  have ps: "distinct (waiters k s @ [?p])" "\<forall>p'\<in>set (waiters k s @ [?p]). blocked ?k4 p'"
    using r(7,8) nb b4 by auto
  have b: "\<forall>s'\<in>S. s' \<noteq> s \<longrightarrow> (\<forall>p'\<in>set (waiters k s'). blocked ?k4 p' \<and> p' \<notin> set (waiters k s @ [?p]))"
    using sems_invD(6) [OF inv _ s] sems_inv_lines(2) [OF inv] nb b4 by fastforce
  show ?thesis using wait sems_inv_relined [OF inv s i4 f q4 ps b] by blast
qed

lemma sem_wait_law:
  assumes inv: "sems_inv S k" and s: "s \<in> S" and c: "can_wait k"
  shows "\<exists>k'. sem_wait s k = Some (0, \<not> 0 < fst (sem_abs S k) s, k') \<and> sems_inv S k' \<and>
    sem_abs S k' = sem_step (Wait s (sch_current k)) (sem_abs S k)"
proof (cases "sem_value k s = 0")
  case True
  then have "sem_step (Wait s (sch_current k)) (sem_abs S k) =
      (fst (sem_abs S k), (snd (sem_abs S k))(s := waiters k s @ [sch_current k]))" "fst (sem_abs S k) s = 0"
    using s by (simp_all add: sem_abs_def)
  then show ?thesis using sem_wait_0 [OF inv s True c] by auto
next
  case False
  obtain r where r: "sems k s = Some r" "s_count r = Some (sem_value k s)" "s_lock r = Some 0"
    by (rule sem_readyD [OF sems_invD(4) [OF inv s]])
  let ?k' = "k\<lparr>sems := (sems k)(s \<mapsto> r\<lparr>s_count := Some (sem_value k s - 1)\<rparr>)\<rparr>"
  have pos: "0 < sem_value k s" using False by (simp add: word_neq_0_conv)
  have "r\<lparr>s_lock := Some 1, s_count := Some (sem_value k s - 1), s_lock := Some 0\<rparr> =
      r\<lparr>s_count := Some (sem_value k s - 1)\<rparr>" using r(3) by (cases r) simp
  then have "sem_wait s k = Some (0, False, ?k')"
    using sem_not_null [OF inv s] lock_sem_some [OF r(1,3)] r(2) pos
    by (simp add: sem_wait_def upd_sem_some unlock_sem_some)
  moreover have "sem_step (Wait s (sch_current k)) (sem_abs S k) =
      ((fst (sem_abs S k))(s := sem_value k s - 1), snd (sem_abs S k))" "0 < fst (sem_abs S k) s"
    using s pos by (simp_all add: sem_abs_def)
  ultimately show ?thesis using sems_inv_value [OF inv s r(1) refl] by auto
qed

lemma sem_tick_law:
  assumes inv: "sems_inv S k"
  shows "\<exists>r k'. schedule_tick rsp k = Some (r, k') \<and> sems_inv S k' \<and> sem_abs S k' = sem_abs S k"
proof -
  obtain x k' where k': "schedule_tick rsp k = Some (x, k')" "sched_inv k'" "sched_frame k k'"
    "\<forall>p. blocked k p \<longrightarrow> blocked k' p" by (rule schedule_tick_total [OF sems_invD(1) [OF inv], of rsp])
  have f: "sems k' = sems k" "sch_ready_queues k' = sch_ready_queues k" "dom (queues k') = dom (queues k)"
    using sched_frameD(1,3) [OF k'(3)] k'(3) by (auto simp: sched_frame_def)
  have w: "\<forall>s\<in>S. qelems k' (sem_queue k s) = waiters k s"
    using qelems_sched(1) [OF k'(3)] sems_inv_lines(3) [OF inv] by blast
  have a: "\<forall>s'\<in>S. \<exists>r c. sems k' s' = Some r \<and> s_count r = Some c \<and> s_lock r = Some 0 \<and>
      s_waiting r = Some (sem_queue k s')" using sems_inv_lines(1) [OF inv] f(1) by simp
  have d: "\<forall>s'\<in>S. distinct (waiters k s') \<and> (\<forall>p\<in>set (waiters k s'). blocked k' p)"
    using sems_inv_lines(2) [OF inv] k'(4) by blast
  have i: "\<forall>s1\<in>S. \<forall>s2\<in>S. s1 \<noteq> s2 \<longrightarrow> set (waiters k s1) \<inter> set (waiters k s2) = {}"
    using sems_invD(6) [OF inv] by blast
  have "sems_inv S k'" by (rule sems_inv_step(1) [OF inv k'(2) a equalityD2 [OF f(3)] f(2) w d i])
  moreover have "waiters k' s = waiters k s" if "s \<in> S" for s
    by (rule sems_inv_step(2) [OF inv k'(2) a equalityD2 [OF f(3)] f(2) w d i that])
  then have "sem_abs S k' = sem_abs S k" using f(1) by (auto simp: sem_abs_def sem_value_def fun_eq_iff)
  ultimately show ?thesis using k'(1) by blast
qed

interpretation ks: semaphore_ops sems_inv sem_abs sem_post sem_wait schedule_tick sch_current can_wait waiting
  by unfold_locales (fact sem_post_law sem_wait_law sem_tick_law)+

end
