(* ===== verification/Sem_Props.thy ===== *)
theory Sem_Props
  imports Sem
begin

text \<open>
  Creation of semaphores and the registry of names, and the properties of the semaphores:
  refinement of the abstract steps under every interleaving with the scheduler, mutual
  exclusion, lookup by name.
\<close>

section \<open>New objects\<close>

lemma kalloc_new:
  assumes hp: "heap_ok k" and sp: "spare (Suc n) (kmem k)" and sz: "sz \<noteq> 0" "unat sz \<le> 16376"
  obtains p m where "kalloc sz k = Some (p, k\<lparr>kmem := m\<rparr>)" "p \<noteq> NULL" "objects_at k p = 0" "buddy_inv m"
    "bud.live m = insert p (bud.live (kmem k))" "spare n m"
proof -
  obtain p m where m: "kalloc sz k = Some (p, k\<lparr>kmem := m\<rparr>)" "p \<noteq> NULL" "spare n m"
    by (rule kalloc_spare [OF hp sp sz])
  from hp have "objects_at k p = 0 \<and> buddy_inv m \<and> bud.live m = insert p (bud.live (kmem k))"
  proof (cases rule: kalloc_cases [of k sz])
    case (block p' m')
    then have "p' = p" "m' = m" using m(1) by (simp_all, cases k, simp)
    then show ?thesis using block by simp
  qed (use m(1,2) in simp)
  then show ?thesis using that m by blast
qed

lemma heap_ok_new:
  assumes "heap_ok k" and "objects_at k p = 0" and "buddy_inv m" and "bud.live m = insert p (bud.live (kmem k))"
  shows "heap_ok (k\<lparr>kmem := m, sems := (sems k)(p \<mapsto> sm)\<rparr>)" and "heap_ok (k\<lparr>kmem := m, strs := (strs k)(p \<mapsto> bs)\<rparr>)"
    and "heap_ok (k\<lparr>kmem := m, pipeobjs := (pipeobjs k)(p \<mapsto> pp)\<rparr>)"
proof -
  have o1: "objects_at (k\<lparr>kmem := m, sems := (sems k)(p \<mapsto> sm)\<rparr>) x = objects_at (k\<lparr>sems := (sems k)(p \<mapsto> sm)\<rparr>) x" for x
    by (simp add: objects_at_def)
  have o2: "objects_at (k\<lparr>kmem := m, strs := (strs k)(p \<mapsto> bs)\<rparr>) x = objects_at (k\<lparr>strs := (strs k)(p \<mapsto> bs)\<rparr>) x" for x
    by (simp add: objects_at_def)
  have o3: "objects_at (k\<lparr>kmem := m, pipeobjs := (pipeobjs k)(p \<mapsto> pp)\<rparr>) x =
      objects_at (k\<lparr>pipeobjs := (pipeobjs k)(p \<mapsto> pp)\<rparr>) x" for x
    by (simp add: objects_at_def)
  show "heap_ok (k\<lparr>kmem := m, sems := (sems k)(p \<mapsto> sm)\<rparr>)"
    by (rule heap_ok_insert [OF assms(3,4,1,2)]) (simp, simp only: o1 objects_at_new [OF assms(2)])
  show "heap_ok (k\<lparr>kmem := m, strs := (strs k)(p \<mapsto> bs)\<rparr>)"
    by (rule heap_ok_insert [OF assms(3,4,1,2)]) (simp, simp only: o2 objects_at_new [OF assms(2)])
  show "heap_ok (k\<lparr>kmem := m, pipeobjs := (pipeobjs k)(p \<mapsto> pp)\<rparr>)"
    by (rule heap_ok_insert [OF assms(3,4,1,2)]) (simp, simp only: o3 objects_at_new [OF assms(2)])
qed

lemma ready_inv_cong:
  assumes "ready_inv k" and "queue_inv k'" and "procs k' = procs k" and "sch_ready_queues k' = sch_ready_queues k"
    and "sch_current k' = sch_current k" and "sch_idle k' = sch_idle k" and "dom (queues k) \<subseteq> dom (queues k')"
    and "\<forall>q\<in>set (sch_ready_queues k). qelems k' q = qelems k q"
  shows "ready_inv k'"
proof -
  have "level k' i = level k i" if "i < 6" for i using assms(4,8) that ready_invD(2) [OF assms(1)] by simp
  moreover have "ready_at k' = ready_at k" using assms(3,6) by (simp add: ready_at_def fun_eq_iff)
  moreover have "set (sch_ready_queues k) \<subseteq> dom (queues k')" using assms(1,7) unfolding ready_inv_def by blast
  ultimately show ?thesis using assms unfolding ready_inv_def by simp
qed

lemma running_inv_cong:
  "running_inv k \<Longrightarrow> procs k' = procs k \<Longrightarrow> sch_current k' = sch_current k \<Longrightarrow> running_inv k'"
  by (simp add: running_inv_def)

text \<open>Whatever leaves processes, semaphores and queues as they were keeps the invariant.\<close>

lemma sems_inv_cong:
  assumes inv: "sems_inv S k" and q: "queue_inv k'" and p: "procs k' = procs k" "sch_ready_queues k' = sch_ready_queues k"
    "sch_current k' = sch_current k" "sch_idle k' = sch_idle k" and d: "dom (queues k) \<subseteq> dom (queues k')"
    and e: "\<forall>x\<in>dom (queues k). x \<in> set (sch_ready_queues k) \<or> x \<in> sem_queue k ` S \<longrightarrow> qelems k' x = qelems k x"
    and ss: "\<forall>s\<in>S. sems k' s = sems k s"
  shows "sems_inv S k'" and "sem_abs S k' = sem_abs S k"
proof -
  note rd = sems_invD(2) [OF inv]
  have sub: "set (sch_ready_queues k) \<subseteq> dom (queues k)" using rd by (simp add: ready_inv_def)
  have sq: "sem_queue k s \<in> dom (queues k)" if "s \<in> S" for s
    using sem_readyD [OF sems_invD(4) [OF inv that]] by metis
  have "ready_inv k'" by (rule ready_inv_cong [OF rd q p d]) (use e sub in auto)
  moreover have "running_inv k'"
    by (rule running_inv_cong [of k]) (use sems_invD(1) [OF inv] p in \<open>simp_all add: sched_inv_def\<close>)
  ultimately have sc: "sched_inv k'" by (simp add: sched_inv_def)
  have b: "blocked k' = blocked k" using p by (simp add: blocked_def fun_eq_iff)
  have a: "\<forall>s\<in>S. \<exists>r c. sems k' s = Some r \<and> s_count r = Some c \<and> s_lock r = Some 0 \<and>
      s_waiting r = Some (sem_queue k s)" using sems_inv_lines(1) [OF inv] ss by simp
  have w: "\<forall>s\<in>S. qelems k' (sem_queue k s) = waiters k s" using e sq by blast
  have dd: "\<forall>s\<in>S. distinct (waiters k s) \<and> (\<forall>p\<in>set (waiters k s). blocked k' p)"
    using sems_inv_lines(2) [OF inv] b by simp
  have i: "\<forall>s1\<in>S. \<forall>s2\<in>S. s1 \<noteq> s2 \<longrightarrow> set (waiters k s1) \<inter> set (waiters k s2) = {}"
    using sems_invD(6) [OF inv] by blast
  show "sems_inv S k'" by (rule sems_inv_step(1) [OF inv sc a d p(2) w dd i])
  have "waiters k' s = waiters k s" if "s \<in> S" for s by (rule sems_inv_step(2) [OF inv sc a d p(2) w dd i that])
  then show "sem_abs S k' = sem_abs S k" using ss by (auto simp: sem_abs_def sem_value_def fun_eq_iff)
qed

section \<open>Names\<close>

definition sem_named :: "kernel \<Rightarrow> addr \<Rightarrow> u8 list \<Rightarrow> bool" where
  "sem_named k s n \<longleftrightarrow> s \<noteq> NULL \<and>
     (\<exists>r nm str. sems k s = Some r \<and> s_name r = Some nm \<and> nm \<noteq> NULL \<and> strs k nm = Some str \<and>
        0 \<in> set str \<and> cstr str = n)"

lemma sem_named_unique: "sem_named k s n \<Longrightarrow> sem_named k s n' \<Longrightarrow> n = n'"
  by (auto simp: sem_named_def)

definition registry :: "kernel \<Rightarrow> addr list" where
  "registry k = (if registered_semaphores k = NULL then [] else qelems k (registered_semaphores k))"

definition registry_inv :: "addr set \<Rightarrow> kernel \<Rightarrow> bool" where
  "registry_inv S k \<longleftrightarrow>
     (registered_semaphores k \<noteq> NULL \<longrightarrow> registered_semaphores k \<in> dom (queues k) \<and>
        registered_semaphores k \<notin> set (sch_ready_queues k) \<and> registered_semaphores k \<notin> sem_queue k ` S) \<and>
     (\<forall>s\<in>set (registry k). \<exists>n. sem_named k s n)"

definition names_inv :: "addr set \<Rightarrow> kernel \<Rightarrow> bool" where
  "names_inv S k \<longleftrightarrow> registry_lock k = 0 \<and> registry_inv S k"

text \<open>The abstract lookup: the first registered semaphore of that name.\<close>

definition lookup_name :: "kernel \<Rightarrow> u8 list \<Rightarrow> addr" where
  "lookup_name k n = (case find (\<lambda>s. sem_named k s n) (registry k) of Some s \<Rightarrow> s | None \<Rightarrow> NULL)"

lemma find_registered_loop_spec:
  assumes "chain (qnodes k) it xs" and "\<forall>s\<in>set (map snd xs). \<exists>n. sem_named k s n" and "0 \<in> set name"
  shows "find_registered_loop name it k =
    Some (case find (\<lambda>s. sem_named k s (cstr name)) (map snd xs) of Some s \<Rightarrow> s | None \<Rightarrow> NULL)"
  using assms
proof (induction xs arbitrary: it)
  case Nil
  then show ?case by (subst find_registered_loop.simps) (simp add: queue_iter_has_next_def)
next
  case (Cons x xs)
  obtain nd where nd: "it \<noteq> NULL" "qnodes k it = Some nd" "qn_data nd = snd x" "chain (qnodes k) (qn_next nd) xs"
    using Cons.prems(1) by auto
  obtain r nm str where r: "snd x \<noteq> NULL" "sems k (snd x) = Some r" "s_name r = Some nm" "nm \<noteq> NULL"
    "strs k nm = Some str" "0 \<in> set str" using Cons.prems(2) by (auto simp: sem_named_def)
  obtain d where d: "strcmp str name = Some d" "d = 0 \<longleftrightarrow> cstr str = cstr name"
    using strcmp_spec [OF r(6) Cons.prems(3)] by blast
  have named: "sem_named k (snd x) n \<longleftrightarrow> n = cstr str" for n using r by (auto simp: sem_named_def)
  have "find_registered_loop name it k =
      (if d = 0 then Some (snd x) else find_registered_loop name (qn_next nd) k)"
    using nd r d(1) by (subst find_registered_loop.simps) (simp add: queue_iter_has_next_def queue_iter_next_def)
  then show ?case using Cons.IH [OF nd(4)] Cons.prems(2,3) d(2) named by simp
qed

lemma find_registered_spec:
  assumes "queue_inv k" and "registry_inv S k" and "0 \<in> set name"
  shows "find_registered (Some name) k = Some (lookup_name k (cstr name))"
proof (cases "registered_semaphores k = NULL")
  case True
  then show ?thesis by (simp add: find_registered_def lookup_name_def registry_def)
next
  case False
  then obtain r where r: "queues k (registered_semaphores k) = Some r" using assms(2) by (auto simp: registry_inv_def)
  have "\<forall>s\<in>set (map snd (qcells k (registered_semaphores k))). \<exists>n. sem_named k s n"
    using assms(2) False by (simp add: registry_inv_def registry_def qelems_def)
  from find_registered_loop_spec [OF queue_inv_rep(1) [OF assms(1) r] this assms(3)] show ?thesis
    using False r by (simp add: find_registered_def queue_iter_def lookup_name_def registry_def qelems_def)
qed

lemma sem_find_spec:
  assumes "queue_inv k" and "names_inv S k" and "0 \<in> set name"
  shows "sem_find (Some name) k = Some (lookup_name k (cstr name), k)"
proof -
  have l: "registry_lock k = 0" using assms(2) by (simp add: names_inv_def)
  let ?k = "k\<lparr>registry_lock := 1\<rparr>"
  have named: "sem_named ?k = sem_named k" by (simp add: sem_named_def fun_eq_iff)
  have reg: "registry ?k = registry k" by (simp add: registry_def)
  have "registry_inv S ?k"
    using assms(2) unfolding names_inv_def registry_inv_def named reg by (simp add: sem_queue_def)
  then have "find_registered (Some name) ?k = Some (lookup_name k (cstr name))"
    using find_registered_spec [of ?k S name] assms(1,3) unfolding lookup_name_def named reg by simp
  then show ?thesis
    using l by (simp add: sem_find_def lock_registry_def unlock_registry_def semLock_def semUnlock_def)
qed

section \<open>Creation\<close>

lemma qelems_no_queue: "queues k q = None \<Longrightarrow> qelems k q = []"
  by (simp add: qelems_def qcells_def)

lemma fresh_queue: "objects_at k q = 0 \<Longrightarrow> q \<notin> dom (queues k)"
  by (auto simp: objects_at_def of_bool_def split: if_splits)

lemma sem_create_spare:
  assumes inv: "sems_inv S k" and sp: "spare (Suc n) (kmem k)"
  obtains s k' where "sem_create k = Some (s, k')" "s \<noteq> NULL" "objects_at k s = 0" "sems_inv S k'" "sem_abs S k' = sem_abs S k"
    "sems k' s \<noteq> None" "spare n (kmem k')" "k' = k\<lparr>kmem := kmem k', sems := sems k'\<rparr>" "\<forall>s'. s' \<noteq> s \<longrightarrow> sems k' s' = sems k s'"
proof -
  let ?u = "\<lparr>s_name = None, s_count = None, s_lock = None, s_waiting = None\<rparr>"
  obtain s m where m: "kalloc SEM_SIZE k = Some (s, k\<lparr>kmem := m\<rparr>)" "s \<noteq> NULL" "objects_at k s = 0" "buddy_inv m"
    "bud.live m = insert s (bud.live (kmem k))" "spare n m"
    by (rule kalloc_new [OF queue_inv_heap [OF sems_invD(3) [OF inv]] sp, of SEM_SIZE]) (simp_all add: SEM_SIZE_def)
  let ?k = "k\<lparr>kmem := m, sems := (sems k)(s \<mapsto> ?u)\<rparr>"
  have "heap_ok ?k" by (rule heap_ok_new(1) [OF queue_inv_heap [OF sems_invD(3) [OF inv]] m(3-5)])
  then have q: "queue_inv ?k" by (rule_tac queue_inv_cong(1) [OF sems_invD(3) [OF inv]]) simp_all
  have ns: "s \<notin> S"
  proof
    assume "s \<in> S"
    then obtain r where "sems k s = Some r" using sem_readyD [OF sems_invD(4) [OF inv]] by metis
    then show False using m(3) by (simp add: objects_at_def)
  qed
  have "sems_inv S ?k" "sem_abs S ?k = sem_abs S k" by (rule sems_inv_cong [OF inv q]; use ns in simp)+
  moreover have "sem_create k = Some (s, ?k)" using m(1,2) by (simp add: sem_create_def)
  ultimately show ?thesis using that [of s ?k] m(2,3,6) by simp
qed

lemma ensure_registry_spare:
  assumes q: "queue_inv k" and reg: "registry_inv S k" and sp: "spare (Suc n) (kmem k)"
  obtains k' g where "ensure_registry k = Some k'" "registered_semaphores k' = g" "g \<noteq> NULL" "queue_inv k'" "spare n (kmem k')"
    "k' = k\<lparr>kmem := kmem k', queues := queues k', qnodes := qnodes k', registered_semaphores := g\<rparr>"
    "qelems k' = qelems k" "dom (queues k') = insert g (dom (queues k))"
    "registered_semaphores k \<noteq> NULL \<longrightarrow> g = registered_semaphores k"
    "registered_semaphores k = NULL \<longrightarrow> g \<notin> dom (queues k)"
proof (cases "registered_semaphores k = NULL")
  case True
  obtain g k1 where k1: "queue_create k = Some (g, k1)" "g \<noteq> NULL" "queue_inv k1" "queue_frame k k1"
    "qelems k1 = qelems k" "objects_at k g = 0" "dom (queues k1) = insert g (dom (queues k))" "spare n (kmem k1)"
    by (rule queue_create_spare [OF q sp])
  show ?thesis
    by (rule that [of "k1\<lparr>registered_semaphores := g\<rparr>" g])
      (use True k1 fresh_queue in \<open>auto simp: ensure_registry_def queue_frame_def\<close>)
next
  case False
  have "spare n (kmem k)" using sp by (simp add: spare_def)
  then show ?thesis
    by (intro that [of k "registered_semaphores k"])
      (use False q reg in \<open>auto simp: ensure_registry_def registry_inv_def\<close>)
qed

text \<open>
  The first half of \<open>sem_init\<close>, up to the moment the semaphore is complete but not yet
  registered.
\<close>

lemma sem_init_fields:
  assumes q: "queue_inv k" and reg: "registry_inv S k" and r: "sems k s = Some r"
    and str: "0 \<in> set str" "length (cstr str) \<le> 1000" and sp: "spare (Suc (Suc (Suc n))) (kmem k)"
  obtains k' nm w where
    "sem_init s (Some str) c k = do {
       k \<leftarrow> lock_registry k';
       found \<leftarrow> find_registered (Some str) k;
       k \<leftarrow> (if found = NULL then do { (_, k) \<leftarrow> queue_push (registered_semaphores k) s k; Some k } else Some k);
       Some (unlock_registry k)
     }"
    "sems k' = (sems k)(s \<mapsto> \<lparr>s_name = Some nm, s_count = Some c, s_lock = Some 0, s_waiting = Some w\<rparr>)"
    "strs k nm = None" "nm \<noteq> NULL" "strs k' = (strs k)(nm \<mapsto> cstr str @ [0])"
    "queue_inv k'" "spare n (kmem k')" "qelems k' = qelems k" "registered_semaphores k' \<noteq> NULL"
    "dom (queues k') = insert w (insert (registered_semaphores k') (dom (queues k)))"
    "w \<notin> dom (queues k)" "w \<noteq> registered_semaphores k'"
    "registered_semaphores k \<noteq> NULL \<longrightarrow> registered_semaphores k' = registered_semaphores k"
    "registered_semaphores k = NULL \<longrightarrow> registered_semaphores k' \<notin> dom (queues k)"
    "k' = k\<lparr>kmem := kmem k', queues := queues k', qnodes := qnodes k', sems := sems k', strs := strs k',
            registered_semaphores := registered_semaphores k'\<rparr>"
proof -
  obtain k1 g where k1: "ensure_registry k = Some k1" "registered_semaphores k1 = g" "g \<noteq> NULL" "queue_inv k1"
    "spare (Suc (Suc n)) (kmem k1)"
    "k1 = k\<lparr>kmem := kmem k1, queues := queues k1, qnodes := qnodes k1, registered_semaphores := g\<rparr>"
    "qelems k1 = qelems k" "dom (queues k1) = insert g (dom (queues k))"
    "registered_semaphores k \<noteq> NULL \<longrightarrow> g = registered_semaphores k"
    "registered_semaphores k = NULL \<longrightarrow> g \<notin> dom (queues k)"
    by (rule ensure_registry_spare [OF q reg sp])
  have f1: "sems k1 = sems k" "strs k1 = strs k" by (subst k1(6), simp)+
  define sz where "sz = (of_nat (length (cstr str)) + 1 :: u64)"
  have sz: "unat sz = length (cstr str) + 1"
    using str(2) unfolding sz_def by (simp add: unat_word_ariths unat_of_nat)
  have len: "strlen (Some str) = Some (of_nat (length (cstr str)))" by (rule strlen_spec [OF str(1)])
  obtain nm m where m: "kalloc sz k1 = Some (nm, k1\<lparr>kmem := m\<rparr>)" "nm \<noteq> NULL" "objects_at k1 nm = 0" "buddy_inv m"
    "bud.live m = insert nm (bud.live (kmem k1))" "spare (Suc n) m"
  proof (rule kalloc_new [OF queue_inv_heap [OF k1(4)] k1(5), of sz])
    show "sz \<noteq> 0" "unat sz \<le> 16376" using sz str(2) by auto
  qed
  have nmf: "strs k nm = None" using m(3) f1(2) by (auto simp: objects_at_def of_bool_def split: if_splits)
  have copy: "strcpy_loop (replicate (unat sz) 0) str = Some (cstr str @ [0])"
    using strcpy_loop_spec [OF str(1), of "replicate (unat sz) 0"] sz by simp
  let ?r3 = "r\<lparr>s_name := Some nm, s_count := Some c\<rparr>"
  let ?k3 = "k1\<lparr>kmem := m, strs := (strs k)(nm \<mapsto> cstr str @ [0]), sems := (sems k)(s \<mapsto> ?r3)\<rparr>"
  have "heap_ok (k1\<lparr>kmem := m, strs := (strs k1)(nm \<mapsto> cstr str @ [0])\<rparr>)" (is "heap_ok ?ka")
    by (rule heap_ok_new(2) [OF queue_inv_heap [OF k1(4)] m(3-5)])
  then have "heap_ok (?ka\<lparr>sems := (sems ?ka)(s \<mapsto> ?r3)\<rparr>)" using r f1 by (subst heap_ok_write) simp_all
  then have "heap_ok ?k3" using f1 by simp
  then have q3: "queue_inv ?k3" by (rule_tac queue_inv_cong(1) [OF k1(4)]) simp_all
  have sp3: "spare (Suc n) (kmem ?k3)" using m(6) by simp
  obtain w k4 where k4: "queue_create ?k3 = Some (w, k4)" "w \<noteq> NULL" "queue_inv k4" "queue_frame ?k3 k4"
    "qelems k4 = qelems ?k3" "objects_at ?k3 w = 0" "dom (queues k4) = insert w (dom (queues ?k3))" "spare n (kmem k4)"
    by (rule queue_create_spare [OF q3 sp3])
  let ?r5 = "\<lparr>s_name = Some nm, s_count = Some c, s_lock = Some 0, s_waiting = Some w\<rparr>"
  let ?k5 = "k4\<lparr>sems := (sems k4)(s \<mapsto> ?r5)\<rparr>"
  have s4: "sems k4 = (sems k)(s \<mapsto> ?r3)" "strs k4 = (strs k)(nm \<mapsto> cstr str @ [0])"
    "registered_semaphores k4 = g"
    using queue_frameD(7,9,11) [OF k4(4)] k1(2) by simp_all
  have q5: "queue_inv ?k5" by (rule queue_inv_write(2) [OF _ k4(3)]) (simp add: s4(1))
  have w: "w \<notin> dom (queues k1)" using fresh_queue [OF k4(6)] by simp
  have init: "sem_init s (Some str) c k = do {
       k \<leftarrow> lock_registry ?k5;
       found \<leftarrow> find_registered (Some str) k;
       k \<leftarrow> (if found = NULL then do { (_, k) \<leftarrow> queue_push (registered_semaphores k) s k; Some k } else Some k);
       Some (unlock_registry k)
     }"
  proof -
    have "s \<noteq> NULL" using object_live(4) [OF queue_inv_heap [OF q] r] .
    then show ?thesis
      using k1(1) len m(1,2) copy r f1 k4(1) s4 unfolding sz_def
      by (cases r) (simp add: sem_init_def upd_sem_some)
  qed
  have fin: "?k5 = k\<lparr>kmem := kmem ?k5, queues := queues ?k5, qnodes := qnodes ?k5, sems := sems ?k5, strs := strs ?k5,
            registered_semaphores := registered_semaphores ?k5\<rparr>"
    using k4(4) k1(6) unfolding queue_frame_def by (cases k; cases k1; cases k4) simp
  show ?thesis
    by (rule that [OF init _ nmf m(2) _ q5 _ _ _ _ _ _ _ _ fin])
      (use s4 k1 k4 w in auto)
qed

lemma find_upd:
  assumes "\<forall>x\<in>set xs. P x = Q x"
  shows "find P xs = find Q xs"
  using assms by (induction xs) auto

lemma find_append: "find P (xs @ ys) = (case find P xs of Some x \<Rightarrow> Some x | None \<Rightarrow> find P ys)"
  by (induction xs) auto

lemma sem_named_kept:
  assumes "registry_inv S k" and "x \<in> set (registry k)" and "x \<noteq> s" and "sems k' = (sems k)(s \<mapsto> r)"
    and "strs k nm = None" and "strs k' = (strs k)(nm \<mapsto> bs)"
  shows "sem_named k' x m \<longleftrightarrow> sem_named k x m"
proof -
  obtain n where "sem_named k x n" using assms(1,2) by (auto simp: registry_inv_def)
  then obtain r0 nm0 str0 where x: "sems k x = Some r0" "s_name r0 = Some nm0" "strs k nm0 = Some str0"
    by (auto simp: sem_named_def)
  then have "nm0 \<noteq> nm" using assms(5) by auto
  then show ?thesis using assms(3,4,6) x by (simp add: sem_named_def)
qed

text \<open>The state \<open>sem_init\<close> leaves, when there is enough memory.\<close>

lemma sem_init_state:
  assumes inv: "sems_inv S k" and names: "names_inv S k" and r: "sems k s = Some r"
    and new: "s \<notin> S" "s \<notin> set (registry k)"
    and str: "0 \<in> set str" "length (cstr str) \<le> 1000" and sp: "spare (Suc (Suc (Suc (Suc n)))) (kmem k)"
  obtains k' nm w where "sem_init s (Some str) c k = Some k'" "queue_inv k'" "spare n (kmem k')"
    "sems k' = (sems k)(s \<mapsto> \<lparr>s_name = Some nm, s_count = Some c, s_lock = Some 0, s_waiting = Some w\<rparr>)"
    "strs k nm = None" "nm \<noteq> NULL" "strs k' = (strs k)(nm \<mapsto> cstr str @ [0])"
    "registered_semaphores k' \<noteq> NULL" "registered_semaphores k' \<notin> set (sch_ready_queues k)"
    "registered_semaphores k' \<notin> sem_queue k ` S"
    "dom (queues k') = insert w (insert (registered_semaphores k') (dom (queues k)))"
    "w \<notin> dom (queues k)" "w \<noteq> registered_semaphores k'"
    "qelems k' = (qelems k)(registered_semaphores k' := registry k @ (if lookup_name k (cstr str) = NULL then [s] else []))"
    "procs k' = procs k" "sch_ready_queues k' = sch_ready_queues k" "sch_current k' = sch_current k"
    "sch_idle k' = sch_idle k" "registry_lock k' = 0"
proof -
  have reg: "registry_inv S k" and lock: "registry_lock k = 0" using names by (simp_all add: names_inv_def)
  obtain k1 nm w where k1: "sem_init s (Some str) c k = do {
       k \<leftarrow> lock_registry k1;
       found \<leftarrow> find_registered (Some str) k;
       k \<leftarrow> (if found = NULL then do { (_, k) \<leftarrow> queue_push (registered_semaphores k) s k; Some k } else Some k);
       Some (unlock_registry k)
     }"
    "sems k1 = (sems k)(s \<mapsto> \<lparr>s_name = Some nm, s_count = Some c, s_lock = Some 0, s_waiting = Some w\<rparr>)"
    "strs k nm = None" "nm \<noteq> NULL" "strs k1 = (strs k)(nm \<mapsto> cstr str @ [0])"
    "queue_inv k1" "spare (Suc n) (kmem k1)" "qelems k1 = qelems k" "registered_semaphores k1 \<noteq> NULL"
    "dom (queues k1) = insert w (insert (registered_semaphores k1) (dom (queues k)))"
    "w \<notin> dom (queues k)" "w \<noteq> registered_semaphores k1"
    "registered_semaphores k \<noteq> NULL \<longrightarrow> registered_semaphores k1 = registered_semaphores k"
    "registered_semaphores k = NULL \<longrightarrow> registered_semaphores k1 \<notin> dom (queues k)"
    "k1 = k\<lparr>kmem := kmem k1, queues := queues k1, qnodes := qnodes k1, sems := sems k1, strs := strs k1,
            registered_semaphores := registered_semaphores k1\<rparr>"
    by (rule sem_init_fields [OF sems_invD(3) [OF inv] reg r str sp, of c])
  let ?g = "registered_semaphores k1" and ?k2 = "k1\<lparr>registry_lock := 1\<rparr>"
  have f1: "procs k1 = procs k" "sch_ready_queues k1 = sch_ready_queues k" "sch_current k1 = sch_current k"
    "sch_idle k1 = sch_idle k" "registry_lock k1 = 0" using lock by (subst k1(15), simp)+
  have reg1: "registry k1 = registry k" "qelems k ?g = registry k"
    using k1(8,9,13,14) qelems_no_queue [of k ?g] by (auto simp: registry_def domIff)
  have named: "sem_named k1 x m \<longleftrightarrow> sem_named k x m" if "x \<in> set (registry k)" for x m
    using sem_named_kept [OF reg that _ k1(2,3,5)] new(2) that by blast
  have sub: "set (sch_ready_queues k) \<subseteq> dom (queues k)" "sem_queue k ` S \<subseteq> dom (queues k)"
    using sems_invD(2) [OF inv] sem_readyD [OF sems_invD(4) [OF inv]] by (simp add: ready_inv_def, blast)
  then have g: "?g \<notin> set (sch_ready_queues k)" "?g \<notin> sem_queue k ` S"
    using reg k1(13,14) unfolding registry_inv_def by (metis subsetD)+
  have nm2: "sem_named ?k2 = sem_named k1" "registry ?k2 = registry k1" "sem_queue ?k2 ` S = sem_queue k ` S"
    using new(1) k1(2) by (auto simp: sem_named_def registry_def fun_eq_iff sem_queue_def image_iff)
  have "\<forall>x\<in>set (registry k). \<exists>n. sem_named k1 x n" using reg named unfolding registry_inv_def by blast
  then have ri2: "registry_inv S ?k2"
    using g k1(10) reg1 f1(2) unfolding registry_inv_def nm2 by simp
  have q2: "queue_inv ?k2" using k1(6) by simp
  have "find (\<lambda>x. sem_named k1 x (cstr str)) (registry k) = find (\<lambda>x. sem_named k x (cstr str)) (registry k)"
    by (rule find_upd) (use named in blast)
  then have found: "find_registered (Some str) ?k2 = Some (lookup_name k (cstr str))"
    using find_registered_spec [OF q2 ri2 str(1)] reg1 by (simp add: lookup_name_def nm2)
  have lk: "lock_registry k1 = Some ?k2" using f1(5) by (simp add: lock_registry_def semLock_def)
  show ?thesis
  proof (cases "lookup_name k (cstr str) = NULL")
    case True
    have gd: "?g \<in> dom (queues ?k2)" and sp2: "spare (Suc n) (kmem ?k2)" using k1(7,10) by simp_all
    obtain k3 where k3: "queue_push ?g s ?k2 = Some (True, k3)" "queue_inv k3" "queue_frame ?k2 k3"
      "dom (queues k3) = dom (queues ?k2)" "qelems k3 = (qelems ?k2)(?g := qelems ?k2 ?g @ [s])" "spare n (kmem k3)"
      by (rule queue_push_spare [OF q2 gd sp2])
    note f3 = queue_frameD [OF k3(3)]
    have "sem_init s (Some str) c k = Some (unlock_registry k3)" using k1(1) lk found True k3(1) by simp
    then show ?thesis
      by (rule that [OF _ _ _ _ k1(3,4)])
        (use k3 f3 f1 g k1 reg1 True in \<open>simp_all add: unlock_registry_def semUnlock_def\<close>)
  next
    case False
    have "sem_init s (Some str) c k = Some (unlock_registry ?k2)" using k1(1) lk found False by simp
    moreover have "(qelems k)(?g := registry k) = qelems k" using reg1(2) by (rule fun_upd_idem)
    moreover have "spare n (kmem k1)" using k1(7) by (simp add: spare_def)
    ultimately show ?thesis
      by (intro that [OF _ _ _ _ k1(3,4)])
        (use f1 g k1(2,5,6,8-12) reg1 False in \<open>simp_all add: unlock_registry_def semUnlock_def\<close>)
  qed
qed

lemma sems_inv_insert:
  assumes "sems_inv S k" and "sem_ready k s" and "waiters k s = []" and "\<forall>s'\<in>S. sem_queue k s' \<noteq> sem_queue k s"
  shows "sems_inv (insert s S) k"
  using assms unfolding sems_inv_def by (metis (no_types, lifting) empty_set inf_bot_left inf_bot_right insertE)

text \<open>
  A new semaphore with its value and an empty line, found under its name unless an older one
  has that name; the other semaphores are as before.
\<close>

lemma sem_init_spare:
  assumes inv: "sems_inv S k" and names: "names_inv S k" and r: "sems k s = Some r"
    and new: "s \<notin> S" "s \<notin> set (registry k)"
    and str: "0 \<in> set str" "length (cstr str) \<le> 1000" and sp: "spare (Suc (Suc (Suc (Suc n)))) (kmem k)"
  obtains k' where "sem_init s (Some str) c k = Some k'" "sems_inv (insert s S) k'" "names_inv (insert s S) k'"
    "sem_value k' s = c" "waiters k' s = []" "sem_abs S k' = sem_abs S k" "spare n (kmem k')" "procs k' = procs k"
    "lookup_name k' (cstr str) = (if lookup_name k (cstr str) = NULL then s else lookup_name k (cstr str))"
    "\<forall>s'. s' \<noteq> s \<longrightarrow> sems k' s' = sems k s'" "sch_current k' = sch_current k" "sch_idle k' = sch_idle k"
    "registry k' = registry k @ (if lookup_name k (cstr str) = NULL then [s] else [])"
proof -
  obtain k' nm w where k': "sem_init s (Some str) c k = Some k'" "queue_inv k'" "spare n (kmem k')"
    "sems k' = (sems k)(s \<mapsto> \<lparr>s_name = Some nm, s_count = Some c, s_lock = Some 0, s_waiting = Some w\<rparr>)"
    "strs k nm = None" "nm \<noteq> NULL" "strs k' = (strs k)(nm \<mapsto> cstr str @ [0])"
    "registered_semaphores k' \<noteq> NULL" "registered_semaphores k' \<notin> set (sch_ready_queues k)"
    "registered_semaphores k' \<notin> sem_queue k ` S"
    "dom (queues k') = insert w (insert (registered_semaphores k') (dom (queues k)))"
    "w \<notin> dom (queues k)" "w \<noteq> registered_semaphores k'"
    "qelems k' = (qelems k)(registered_semaphores k' := registry k @ (if lookup_name k (cstr str) = NULL then [s] else []))"
    "procs k' = procs k" "sch_ready_queues k' = sch_ready_queues k" "sch_current k' = sch_current k"
    "sch_idle k' = sch_idle k" "registry_lock k' = 0"
    by (rule sem_init_state [OF assms, of c])
  have sn: "s \<noteq> NULL" using object_live(4) [OF queue_inv_heap [OF sems_invD(3) [OF inv]] r] .
  have dsub: "dom (queues k) \<subseteq> dom (queues k')" using k'(11) by blast
  have same: "\<forall>x\<in>dom (queues k). x \<in> set (sch_ready_queues k) \<or> x \<in> sem_queue k ` S \<longrightarrow> qelems k' x = qelems k x"
    using k'(9,10,14) by auto
  have ss: "\<forall>s'\<in>S. sems k' s' = sems k s'" using k'(4) new(1) by auto
  note cong = sems_inv_cong [OF inv k'(2,15-18) dsub same ss]
  have sq: "sem_queue k' s = w" "sem_value k' s = c" using k'(4) by (simp_all add: sem_queue_def sem_value_def)
  have we: "qelems k' w = []" using k'(12-14) qelems_no_queue [of k w] by (auto simp: domIff)
  have sub: "set (sch_ready_queues k) \<subseteq> dom (queues k)" "sem_queue k ` S \<subseteq> dom (queues k)"
    using sems_invD(2) [OF inv] sem_readyD [OF sems_invD(4) [OF inv]] by (simp add: ready_inv_def, blast)
  have rdy: "sem_ready k' s"
    unfolding sem_ready_def using k'(4,11,12,16) we sub(1) by (auto simp: domIff)
  have sqS: "sem_queue k' s' = sem_queue k s'" if "s' \<in> S" for s' using ss that by (simp add: sem_queue_def)
  have ins: "sems_inv (insert s S) k'"
    by (rule sems_inv_insert [OF cong(1) rdy]) (use sq we sqS sub(2) k'(12) in auto)
  have reg': "registry k' = registry k @ (if lookup_name k (cstr str) = NULL then [s] else [])"
    using k'(8,14) by (simp add: registry_def)
  have named_s: "sem_named k' s (cstr str)" using sn k'(4,6,7) by (simp add: sem_named_def)
  have named: "sem_named k' x m \<longleftrightarrow> sem_named k x m" if "x \<in> set (registry k)" for x m
    using sem_named_kept [OF _ that _ k'(4,5,7)] new(2) that names unfolding names_inv_def by blast
  have "\<forall>x\<in>set (registry k). \<exists>n. sem_named k' x n" using names named unfolding names_inv_def registry_inv_def by blast
  then have "\<forall>x\<in>set (registry k'). \<exists>n. sem_named k' x n" using reg' named_s by auto
  moreover have "sem_queue k' ` insert s S = insert w (sem_queue k ` S)" using sq sqS by auto
  ultimately have names': "names_inv (insert s S) k'"
    using k'(8-11,13,16,19) unfolding names_inv_def registry_inv_def by auto
  have look: "lookup_name k' (cstr str) = (if lookup_name k (cstr str) = NULL then s else lookup_name k (cstr str))"
  proof -
    have "find (\<lambda>x. sem_named k' x (cstr str)) (registry k) = find (\<lambda>x. sem_named k x (cstr str)) (registry k)"
      by (rule find_upd) (use named in blast)
    moreover have "x \<noteq> NULL" if "find (\<lambda>x. sem_named k x (cstr str)) (registry k) = Some x" for x
      using that by (auto simp: find_Some_iff sem_named_def)
    ultimately show ?thesis using reg' named_s sn
      by (auto simp: lookup_name_def find_append split: option.splits)
  qed
  show ?thesis
    by (rule that [OF k'(1) ins names' sq(2) _ cong(2) k'(3,15) look _ k'(17,18) reg']) (use sq we k'(4) in auto)
qed

text \<open>
  A kernel with one semaphore allocated and not yet initialised, and a kernel with one of
  the given value, named by the letter a; no process is there yet.
\<close>

lemma boot_raw_sem:
  obtains k s r where "sems_inv {} k" "names_inv {} k" "sems k s = Some r" "registry k = []" "s \<noteq> NULL"
    "procs k = Map.empty" "spare 25 (kmem k)" "sch_current k = NULL" "sch_idle k = NULL"
proof -
  obtain k0 where k0: "init_ready_queues [0..<6] boot_kernel = Some k0" "sched_inv k0" "spare 26 (kmem k0)"
    "procs k0 = Map.empty" "sch_idle k0 = NULL" "sch_current k0 = NULL" by (rule boot_ready)
  have static: "registered_semaphores k0 = NULL" "registry_lock k0 = 0"
    using init_ready_queues_static [OF k0(1)] by (simp_all add: boot_kernel_def bss_kernel_def)
  have i0: "sems_inv {} k0" using k0(2) by (simp add: sems_inv_def)
  obtain s k1 where k1: "sem_create k0 = Some (s, k1)" "s \<noteq> NULL" "objects_at k0 s = 0" "sems_inv {} k1"
    "sems k1 s \<noteq> None" "spare 25 (kmem k1)" "k1 = k0\<lparr>kmem := kmem k1, sems := sems k1\<rparr>"
    by (rule sem_create_spare [OF i0, of 25]) (use k0(3) in simp_all)
  have f1: "registered_semaphores k1 = NULL" "registry_lock k1 = 0" "procs k1 = Map.empty" "sch_current k1 = NULL"
    "sch_idle k1 = NULL" using static k0 by (subst k1(7), simp)+
  then have n1: "names_inv {} k1" "registry k1 = []" by (simp_all add: names_inv_def registry_inv_def registry_def)
  obtain r where "sems k1 s = Some r" using k1(5) by blast
  then show ?thesis using that [OF k1(4) n1(1) _ n1(2) k1(2)] f1 k1(6) by blast
qed

lemma boot_sem:
  obtains k s where "sems_inv {s} k" "names_inv {s} k" "sem_value k s = c" "waiters k s = []"
    "lookup_name k [97] = s" "s \<noteq> NULL" "procs k = Map.empty" "spare 21 (kmem k)" "sch_current k = NULL" "sch_idle k = NULL"
proof -
  obtain k1 s r where k1: "sems_inv {} k1" "names_inv {} k1" "sems k1 s = Some r" "registry k1 = []" "s \<noteq> NULL"
    "procs k1 = Map.empty" "spare 25 (kmem k1)" "sch_current k1 = NULL" "sch_idle k1 = NULL" by (rule boot_raw_sem)
  have sp: "spare (Suc (Suc (Suc (Suc 21)))) (kmem k1)" using k1(7) by simp
  have st: "0 \<in> set [97, 0 :: u8]" "length (cstr [97, 0]) \<le> 1000" "s \<notin> {}" "s \<notin> set (registry k1)" using k1(4) by simp_all
  obtain k2 where k2: "sems_inv (insert s {}) k2" "names_inv (insert s {}) k2"
    "sem_value k2 s = c" "waiters k2 s = []" "spare 21 (kmem k2)" "procs k2 = procs k1"
    "lookup_name k2 (cstr [97, 0]) = (if lookup_name k1 (cstr [97, 0]) = NULL then s else lookup_name k1 (cstr [97, 0]))"
    "sch_current k2 = sch_current k1" "sch_idle k2 = sch_idle k1"
    by (rule sem_init_spare [OF k1(1-3) st(3,4,1,2) sp, of c])
  have "lookup_name k1 (cstr [97, 0]) = NULL" using k1(4) by (simp add: lookup_name_def)
  then show ?thesis using that [of s k2] k2 k1 by simp
qed

section \<open>Properties\<close>



text \<open>
  C17. Mutual exclusion: of a semaphore that starts with value 1 and nobody in line, the
  waits granted exceed the posts by one at most, in every interleaving.
\<close>

theorem semaphore_mutual_exclusion:
  assumes "sems_inv S k" and "s \<in> S" and "sem_value k s = 1" and "waiters k s = []"
    and "ks.sem_run S k cs k'" and "1 + posts s cs < 2 ^ 32"
  shows "waits s cs - length (waiters k' s) \<le> posts s cs + 1"
  using ks.mutual_exclusion [OF assms(5,1), of s] assms(2-4,6) by (simp add: sem_abs_def)

theorem semaphore_mutual_exclusion_witness:
  "\<exists>s k k'. sem_value k s = 1 \<and> ks.sem_run {s} k [Post s, Tick] k' \<and>
     waits s [Post s, Tick] - length (waiters k' s) \<le> posts s [Post s, Tick] + 1"
proof -
  obtain k s where k: "sems_inv {s} k" "sem_value k s = 1" "waiters k s = []" by (rule boot_sem [of 1])
  have "\<forall>c\<in>set [Post s, Tick]. c = Tick \<or> (\<exists>s'\<in>{s}. c = Post s')" by simp
  from ks.run_exists [OF k(1) this] obtain k' where k': "ks.sem_run {s} k [Post s, Tick] k'" by blast
  have "1 + posts s [Post s, Tick] < 2 ^ 32" by simp
  from semaphore_mutual_exclusion [OF k(1) _ k(2,3) k' this] k(2) k' show ?thesis by blast
qed

text \<open>
  Opening by name: after \<open>sem_create\<close> and \<open>sem_init\<close> with enough memory, \<open>sem_find\<close>
  returns the new semaphore under its name, unless an older one has the name, and that one
  is returned as before; the semaphores there were keep their values and lines.
\<close>

theorem sem_init_then_find:
  assumes "sems_inv S k" and "names_inv S k" and "sems k s = Some r" and "s \<notin> S" and "s \<notin> set (registry k)"
    and "0 \<in> set name" and "length (cstr name) \<le> 1000" and "spare (Suc (Suc (Suc (Suc n)))) (kmem k)"
  shows "\<exists>old k'. sem_find (Some name) k = Some (old, k) \<and> sem_init s (Some name) c k = Some k' \<and>
    sem_find (Some name) k' = Some (if old = NULL then s else old, k') \<and>
    sems_inv (insert s S) k' \<and> sem_value k' s = c \<and> waiters k' s = [] \<and> sem_abs S k' = sem_abs S k"
proof -
  obtain k' where k': "sem_init s (Some name) c k = Some k'" "sems_inv (insert s S) k'" "names_inv (insert s S) k'"
    "sem_value k' s = c" "waiters k' s = []" "sem_abs S k' = sem_abs S k"
    "lookup_name k' (cstr name) = (if lookup_name k (cstr name) = NULL then s else lookup_name k (cstr name))"
    by (rule sem_init_spare [OF assms, of c])
  have "sem_find (Some name) k = Some (lookup_name k (cstr name), k)"
    "sem_find (Some name) k' = Some (lookup_name k' (cstr name), k')"
    using sem_find_spec [OF _ assms(2,6)] sem_find_spec [OF _ k'(3) assms(6)] sems_invD(3) assms(1) k'(2) by blast+
  then show ?thesis using k' by auto
qed

theorem sem_init_then_find_witness:
  "\<exists>s k k'. sem_find (Some [97, 0]) k = Some (NULL, k) \<and> sem_init s (Some [97, 0]) 5 k = Some k' \<and>
     sem_find (Some [97, 0]) k' = Some (s, k') \<and> sem_value k' s = 5"
proof -
  obtain k s r where k: "sems_inv {} k" "names_inv {} k" "sems k s = Some r" "registry k = []"
    "spare 25 (kmem k)" by (rule boot_raw_sem)
  have pre: "s \<notin> {}" "s \<notin> set (registry k)" "0 \<in> set [97, 0 :: u8]" "length (cstr [97, 0]) \<le> 1000"
    "spare (Suc (Suc (Suc (Suc 21)))) (kmem k)" using k(4,5) by simp_all
  have "sem_find (Some [97, 0]) k = Some (NULL, k)"
    using sem_find_spec [OF sems_invD(3) [OF k(1)] k(2) pre(3)] k(4) by (simp add: lookup_name_def)
  then show ?thesis using sem_init_then_find [OF k(1-3) pre, of 5] by auto
qed

text \<open>
  C18. \<open>sem_remove_process\<close> never removes anybody: it looks for the pid among the process
  pointers of the queue, and no process lies at an address as small as a pid.
\<close>

theorem sem_remove_process_finds_nobody:
  assumes "sems_inv S k" and "s \<in> S" and "1 \<le> unat pid" and "unat pid \<le> 32" and "32 < heap (kmem k)"
  shows "sem_remove_process s pid k = Some (0, k)"
proof -
  obtain r where r: "sems k s = Some r" "s_waiting r = Some (sem_queue k s)" "sem_queue k s \<in> dom (queues k)"
    "\<forall>p\<in>set (waiters k s). blocked k p" by (rule sem_readyD [OF sems_invD(4) [OF assms(1,2)]])
  have q: "queue_inv k" by (rule sems_invD(3) [OF assms(1)])
  have "unat pid \<notin> set (waiters k s)"
  proof
    assume "unat pid \<in> set (waiters k s)"
    then obtain pr where "procs k (unat pid) = Some pr" using r(4) by (auto simp: blocked_def)
    then have "objects_at k (unat pid) \<noteq> 0" by (simp add: objects_at_def)
    then have "unat pid \<in> bud.live (kmem k)" using queue_inv_heap [OF q] by (auto simp: heap_ok_def)
    then have "heap (kmem k) \<le> unat pid" using live_within [of "kmem k"] by auto
    then show False using assms(4,5) by simp
  qed
  moreover have "unat (scast pid :: u64) = unat pid"
  proof -
    obtain n where n: "pid = of_nat n" "n \<le> 32" using that [of "unat pid"] assms(4) by simp
    then have "(scast pid :: u64) = of_nat n" by (simp add: signed_of_nat signed_take_bit_int_eq_self)
    then show ?thesis using n by (simp add: unat_of_nat)
  qed
  ultimately have "queue_remove (sem_queue k s) (unat (scast pid :: u64)) k = Some (False, k)"
    using kq.remove_law [OF q r(3), of "unat pid"] by auto
  then show ?thesis
    using sem_not_null [OF assms(1,2)] r(1,2) by (simp add: sem_remove_process_def)
qed

theorem sem_remove_process_finds_nobody_witness:
  "\<exists>s k. sems_inv {s} k \<and> sem_remove_process s 1 k = Some (0, k)"
proof -
  obtain k s where k: "sems_inv {s} k" "spare 21 (kmem k)" by (rule boot_sem [of 0])
  show ?thesis using sem_remove_process_finds_nobody [OF k(1) _ _ _ spare_heap [OF k(2)], of s 1] k(1) by auto
qed

end
