(* ===== verification/Pipes.thy ===== *)
theory Pipes
  imports Sem_Props
begin

text \<open>
  The pipes of \<open>pipes.c\<close>. A call that waits at a semaphore in its middle is a sequence of
  steps: every step runs the code up to and including one semaphore operation and says
  whether the calling process gives up the processor there. \<open>run\<close> performs steps until the
  call returns or the processor is given up; the frame it yields is what the stack of the
  suspended process holds, and the call goes on from it when the process runs again.
\<close>

section \<open>Structure\<close>

definition MAX_PIPES :: u8 where "MAX_PIPES = 100"
definition PIPE_BUFFER_SIZE :: u64 where "PIPE_BUFFER_SIZE = 1024"
definition PIPE_SIZE :: u64 where "PIPE_SIZE = 1096"
definition STDIN :: u8 where "STDIN = 0"
definition STDOUT :: u8 where "STDOUT = 1"
definition STDERR :: u8 where "STDERR = 2"

definition NEXT_BUFFER_IDX :: "u64 \<Rightarrow> u64" where
  "NEXT_BUFFER_IDX idx = (idx + 1) mod PIPE_BUFFER_SIZE"

lemmas pipe_consts = MAX_PIPES_def PIPE_BUFFER_SIZE_def PIPE_SIZE_def STDIN_def STDOUT_def STDERR_def

definition upd_pipe :: "addr \<Rightarrow> (pipe \<Rightarrow> pipe) \<Rightarrow> kernel \<Rightarrow> kernel option" where
  "upd_pipe p f k = do { pp \<leftarrow> pipeobjs k p; Some (k\<lparr>pipeobjs := (pipeobjs k)(p \<mapsto> f pp)\<rparr>) }"

definition pipe_at :: "u8 \<Rightarrow> kernel \<Rightarrow> addr" where
  "pipe_at ident k = pipes k ! unat ident"

section \<open>Opening\<close>

text \<open>\<open>"pipe_XXX"\<close> with its terminator fills the nine bytes of \<open>sem_name\<close>.\<close>

definition init_pipes :: "kernel \<Rightarrow> kernel" where
  "init_pipes k = k\<lparr>pipe_sem_name := [112, 105, 112, 101, 95, 88, 88, 88, 0]\<rparr>"

definition set_sem_name_number :: "kernel \<Rightarrow> kernel" where
  "set_sem_name_number k =
     k\<lparr>pipe_sem_name := (pipe_sem_name k)[5 := 48 + next_pipe_id k div 10, 6 := 48 + next_pipe_id k mod 10]\<rparr>"

definition set_sem_name_kind :: "u8 \<Rightarrow> kernel \<Rightarrow> kernel" where
  "set_sem_name_kind c k = k\<lparr>pipe_sem_name := (pipe_sem_name k)[7 := c]\<rparr>"

definition free_pipe :: "addr \<Rightarrow> kernel \<Rightarrow> kernel option" where
  "free_pipe p k = do { k \<leftarrow> kfree p k; Some (k\<lparr>pipeobjs := (pipeobjs k)(p := None)\<rparr>) }"

definition free_sem :: "addr \<Rightarrow> kernel \<Rightarrow> kernel option" where
  "free_sem p k = do { k \<leftarrow> kfree p k; Some (k\<lparr>sems := (sems k)(p := None)\<rparr>) }"

text \<open>
  The buffer is not cleared; no byte of it is read before it is written, so its first
  contents do not matter. The three semaphore pointers are set before they are used.
\<close>

definition create_pipe :: "kernel \<Rightarrow> (addr \<times> kernel) option" where
  "create_pipe k = do {
     (new_pipe, k) \<leftarrow> kalloc PIPE_SIZE k;
     if new_pipe = NULL then Some (NULL, k)
     else do {
       k \<leftarrow> Some (k\<lparr>pipeobjs := (pipeobjs k)(new_pipe \<mapsto>
              \<lparr>pi_id = next_pipe_id k, pi_buffer = replicate (unat PIPE_BUFFER_SIZE) 0, pi_read_idx = 0,
               pi_write_idx = 0, pi_data_count = 0, pi_can_read = NULL, pi_can_write = NULL, pi_mutex = NULL,
               pi_attached_count = 0, pi_waiting_readers = 0, pi_waiting_writers = 0\<rparr>)\<rparr>);
       k \<leftarrow> Some (set_sem_name_kind 82 (set_sem_name_number k));
       (can_read, k) \<leftarrow> sem_create k;
       k \<leftarrow> upd_pipe new_pipe (\<lambda>p. p\<lparr>pi_can_read := can_read\<rparr>) k;
       if can_read = NULL then do { k \<leftarrow> free_pipe new_pipe k; Some (NULL, k) }
       else do {
         k \<leftarrow> sem_init can_read (Some (pipe_sem_name k)) 0 k;
         k \<leftarrow> Some (set_sem_name_kind 87 k);
         (can_write, k) \<leftarrow> sem_create k;
         k \<leftarrow> upd_pipe new_pipe (\<lambda>p. p\<lparr>pi_can_write := can_write\<rparr>) k;
         if can_write = NULL then do {
           k \<leftarrow> sem_destroy can_read k;
           k \<leftarrow> free_pipe new_pipe k;
           Some (NULL, k)
         }
         else do {
           k \<leftarrow> sem_init can_write (Some (pipe_sem_name k)) 0 k;
           k \<leftarrow> Some (set_sem_name_kind 77 k);
           (mutex, k) \<leftarrow> sem_create k;
           k \<leftarrow> upd_pipe new_pipe (\<lambda>p. p\<lparr>pi_mutex := mutex\<rparr>) k;
           if mutex = NULL then do {
             k \<leftarrow> sem_destroy can_read k;
             k \<leftarrow> sem_destroy can_write k;
             k \<leftarrow> free_pipe new_pipe k;
             Some (NULL, k)
           }
           else do {
             k \<leftarrow> sem_init mutex (Some (pipe_sem_name k)) 1 k;
             Some (new_pipe, k)
           }
         }
       }
     }
   }"

definition open_pipe :: "kernel \<Rightarrow> (int \<times> kernel) option" where
  "open_pipe k =
     (if MAX_PIPES \<le> next_pipe_id k then Some (-1, k)
      else do {
        (new_pipe, k) \<leftarrow> create_pipe k;
        if new_pipe = NULL then Some (-1, k)
        else Some (int (unat (next_pipe_id k)),
               k\<lparr>pipes := (pipes k)[unat (next_pipe_id k) := new_pipe], next_pipe_id := next_pipe_id k + 1\<rparr>)
      })"

section \<open>Steps\<close>

partial_function (option) run ::
  "('f \<Rightarrow> kernel \<Rightarrow> ('f \<times> bool \<times> kernel) option) \<Rightarrow> ('f \<Rightarrow> bool) \<Rightarrow> 'f \<Rightarrow> kernel \<Rightarrow> ('f \<times> kernel) option"
where
  "run step returned f k =
     (if returned f then Some (f, k)
      else do {
        (f, gives_up, k) \<leftarrow> step f k;
        if gives_up then Some (f, k) else run step returned f k
      })"

text \<open>\<open>attach_to_pipe\<close>\<close>

datatype attach_frame = A_Start addr | A_Locked addr | A_Ret int

fun attach_step :: "attach_frame \<Rightarrow> kernel \<Rightarrow> (attach_frame \<times> bool \<times> kernel) option" where
  "attach_step (A_Start pipe) k = do {
     p \<leftarrow> pipeobjs k pipe;
     (_, blocked, k) \<leftarrow> sem_wait (pi_mutex p) k;
     Some (A_Locked pipe, blocked, k)
   }"
| "attach_step (A_Locked pipe) k = do {
     k \<leftarrow> upd_pipe pipe (\<lambda>p. p\<lparr>pi_attached_count := pi_attached_count p + 1\<rparr>) k;
     p \<leftarrow> pipeobjs k pipe;
     (_, yields, k) \<leftarrow> sem_post (pi_mutex p) k;
     Some (A_Ret 0, yields, k)
   }"
| "attach_step (A_Ret r) k = Some (A_Ret r, False, k)"

fun attach_returned :: "attach_frame \<Rightarrow> bool" where
  "attach_returned (A_Ret r) = True"
| "attach_returned _ = False"

definition attach_to_pipe :: "u8 \<Rightarrow> kernel \<Rightarrow> (attach_frame \<times> kernel) option" where
  "attach_to_pipe ident k =
     (if MAX_PIPES \<le> ident \<or> pipe_at ident k = NULL then Some (A_Ret (-1), k)
      else run attach_step attach_returned (A_Start (pipe_at ident k)) k)"

text \<open>
  \<open>read_pipe\<close>. The program counters are the semaphore operations of the loop: before the
  wait for the mutex (\<open>R_Top\<close>), behind it (\<open>R_Locked\<close>), before and behind the wait for data
  (\<open>R_No_Data\<close>, \<open>R_Woken\<close>), behind the second wait for the mutex (\<open>R_Relocked\<close>), and with a
  byte taken and the mutex released (\<open>R_Taken\<close>).
\<close>

datatype read_pc = R_Top | R_Locked | R_No_Data | R_Woken | R_Relocked | R_Taken | R_Ret int

record read_frame =
  rf_pipe :: addr
  rf_buffer :: "u8 list"
  rf_bytes :: u64
  rf_read_bytes :: u64
  rf_pc :: read_pc

definition read_step :: "read_frame \<Rightarrow> kernel \<Rightarrow> (read_frame \<times> bool \<times> kernel) option" where
  "read_step f k = do {
     p \<leftarrow> pipeobjs k (rf_pipe f);
     (case rf_pc f of
        R_Top \<Rightarrow>
          if rf_read_bytes f < rf_bytes f then do {
            (_, blocked, k) \<leftarrow> sem_wait (pi_mutex p) k;
            Some (f\<lparr>rf_pc := R_Locked\<rparr>, blocked, k)
          }
          else Some (f\<lparr>rf_pc := R_Ret (sint (ucast (rf_read_bytes f) :: 32 word))\<rparr>, False, k)
      | R_Locked \<Rightarrow>
          if pi_data_count p = 0 then
            if pi_attached_count p \<le> 1 then do {
              (_, yields, k) \<leftarrow> sem_post (pi_mutex p) k;
              Some (f\<lparr>rf_pc := R_Ret 0\<rparr>, yields, k)
            }
            else do {
              k \<leftarrow> upd_pipe (rf_pipe f) (\<lambda>p. p\<lparr>pi_waiting_readers := pi_waiting_readers p + 1\<rparr>) k;
              (_, yields, k) \<leftarrow> sem_post (pi_mutex p) k;
              Some (f\<lparr>rf_pc := R_No_Data\<rparr>, yields, k)
            }
          else if unat (rf_read_bytes f) < length (rf_buffer f) \<and> unat (pi_read_idx p) < length (pi_buffer p) then do {
            f \<leftarrow> Some (f\<lparr>rf_buffer := (rf_buffer f)[unat (rf_read_bytes f) := pi_buffer p ! unat (pi_read_idx p)]\<rparr>);
            k \<leftarrow> upd_pipe (rf_pipe f) (\<lambda>p. p\<lparr>pi_read_idx := NEXT_BUFFER_IDX (pi_read_idx p),
                                           pi_data_count := pi_data_count p - 1\<rparr>) k;
            (_, yields, k) \<leftarrow> sem_post (pi_mutex p) k;
            Some (f\<lparr>rf_pc := R_Taken\<rparr>, yields, k)
          }
          else None
      | R_Taken \<Rightarrow> do {
          (_, yields, k) \<leftarrow> sem_post (pi_can_write p) k;
          Some (f\<lparr>rf_read_bytes := rf_read_bytes f + 1, rf_pc := R_Top\<rparr>, yields, k)
        }
      | R_No_Data \<Rightarrow> do {
          (_, blocked, k) \<leftarrow> sem_wait (pi_can_read p) k;
          Some (f\<lparr>rf_pc := R_Woken\<rparr>, blocked, k)
        }
      | R_Woken \<Rightarrow> do {
          (_, blocked, k) \<leftarrow> sem_wait (pi_mutex p) k;
          Some (f\<lparr>rf_pc := R_Relocked\<rparr>, blocked, k)
        }
      | R_Relocked \<Rightarrow> do {
          k \<leftarrow> upd_pipe (rf_pipe f) (\<lambda>p. p\<lparr>pi_waiting_readers := pi_waiting_readers p - 1\<rparr>) k;
          (_, yields, k) \<leftarrow> sem_post (pi_mutex p) k;
          Some (f\<lparr>rf_pc := R_Top\<rparr>, yields, k)
        }
      | R_Ret r \<Rightarrow> Some (f, False, k))
   }"

definition read_returned :: "read_frame \<Rightarrow> bool" where
  "read_returned f \<longleftrightarrow> (case rf_pc f of R_Ret _ \<Rightarrow> True | _ \<Rightarrow> False)"

text \<open>An immediate return is \<open>Inl\<close>, otherwise \<open>Inr\<close> is the frame the loop has got to.\<close>

definition read_pipe :: "u8 \<Rightarrow> u8 list option \<Rightarrow> u64 \<Rightarrow> kernel \<Rightarrow> ((int + read_frame) \<times> kernel) option" where
  "read_pipe ident buffer bytes k =
     (case buffer of
        None \<Rightarrow> Some (Inl (-1), k)
      | Some buf \<Rightarrow>
          if bytes = 0 then Some (Inl 0, k)
          else if MAX_PIPES \<le> ident \<or> pipe_at ident k = NULL then Some (Inl (-1), k)
          else do {
            (f, k) \<leftarrow> run read_step read_returned
                       \<lparr>rf_pipe = pipe_at ident k, rf_buffer = buf, rf_bytes = bytes, rf_read_bytes = 0, rf_pc = R_Top\<rparr> k;
            Some (Inr f, k)
          })"

text \<open>\<open>write_pipe\<close>, in the same way.\<close>

datatype write_pc = W_Top | W_Locked | W_Full | W_Woken | W_Relocked | W_Put | W_Ret int

record write_frame =
  wf_pipe :: addr
  wf_buffer :: "u8 list"
  wf_bytes :: u64
  wf_written_bytes :: u64
  wf_pc :: write_pc

definition write_step :: "write_frame \<Rightarrow> kernel \<Rightarrow> (write_frame \<times> bool \<times> kernel) option" where
  "write_step f k = do {
     p \<leftarrow> pipeobjs k (wf_pipe f);
     (case wf_pc f of
        W_Top \<Rightarrow>
          if wf_written_bytes f < wf_bytes f then do {
            (_, blocked, k) \<leftarrow> sem_wait (pi_mutex p) k;
            Some (f\<lparr>wf_pc := W_Locked\<rparr>, blocked, k)
          }
          else Some (f\<lparr>wf_pc := W_Ret (sint (ucast (wf_written_bytes f) :: 32 word))\<rparr>, False, k)
      | W_Locked \<Rightarrow>
          if pi_data_count p = PIPE_BUFFER_SIZE then do {
            k \<leftarrow> upd_pipe (wf_pipe f) (\<lambda>p. p\<lparr>pi_waiting_writers := pi_waiting_writers p + 1\<rparr>) k;
            (_, yields, k) \<leftarrow> sem_post (pi_mutex p) k;
            Some (f\<lparr>wf_pc := W_Full\<rparr>, yields, k)
          }
          else if unat (wf_written_bytes f) < length (wf_buffer f) \<and> unat (pi_write_idx p) < length (pi_buffer p) then do {
            k \<leftarrow> upd_pipe (wf_pipe f) (\<lambda>p. p\<lparr>
                   pi_buffer := (pi_buffer p)[unat (pi_write_idx p) := wf_buffer f ! unat (wf_written_bytes f)],
                   pi_write_idx := NEXT_BUFFER_IDX (pi_write_idx p),
                   pi_data_count := pi_data_count p + 1\<rparr>) k;
            (_, yields, k) \<leftarrow> sem_post (pi_mutex p) k;
            Some (f\<lparr>wf_pc := W_Put\<rparr>, yields, k)
          }
          else None
      | W_Put \<Rightarrow> do {
          (_, yields, k) \<leftarrow> sem_post (pi_can_read p) k;
          Some (f\<lparr>wf_written_bytes := wf_written_bytes f + 1, wf_pc := W_Top\<rparr>, yields, k)
        }
      | W_Full \<Rightarrow> do {
          (_, blocked, k) \<leftarrow> sem_wait (pi_can_write p) k;
          Some (f\<lparr>wf_pc := W_Woken\<rparr>, blocked, k)
        }
      | W_Woken \<Rightarrow> do {
          (_, blocked, k) \<leftarrow> sem_wait (pi_mutex p) k;
          Some (f\<lparr>wf_pc := W_Relocked\<rparr>, blocked, k)
        }
      | W_Relocked \<Rightarrow> do {
          k \<leftarrow> upd_pipe (wf_pipe f) (\<lambda>p. p\<lparr>pi_waiting_writers := pi_waiting_writers p - 1\<rparr>) k;
          (_, yields, k) \<leftarrow> sem_post (pi_mutex p) k;
          Some (f\<lparr>wf_pc := W_Top\<rparr>, yields, k)
        }
      | W_Ret r \<Rightarrow> Some (f, False, k))
   }"

definition write_returned :: "write_frame \<Rightarrow> bool" where
  "write_returned f \<longleftrightarrow> (case wf_pc f of W_Ret _ \<Rightarrow> True | _ \<Rightarrow> False)"

definition write_pipe :: "u8 \<Rightarrow> u8 list option \<Rightarrow> u64 \<Rightarrow> kernel \<Rightarrow> ((int + write_frame) \<times> kernel) option" where
  "write_pipe ident buffer bytes k =
     (case buffer of
        None \<Rightarrow> Some (Inl (-1), k)
      | Some buf \<Rightarrow>
          if bytes = 0 then Some (Inl 0, k)
          else if MAX_PIPES \<le> ident \<or> pipe_at ident k = NULL then Some (Inl (-1), k)
          else do {
            (f, k) \<leftarrow> run write_step write_returned
                       \<lparr>wf_pipe = pipe_at ident k, wf_buffer = buf, wf_bytes = bytes, wf_written_bytes = 0, wf_pc = W_Top\<rparr> k;
            Some (Inr f, k)
          })"

section \<open>Closing\<close>

definition destroy_pipe :: "u8 \<Rightarrow> addr \<Rightarrow> kernel \<Rightarrow> kernel option" where
  "destroy_pipe ident pipe k =
     (if pipe = NULL then Some k
      else do {
        p \<leftarrow> pipeobjs k pipe;
        k \<leftarrow> sem_destroy (pi_can_read p) k;
        k \<leftarrow> sem_destroy (pi_can_write p) k;
        k \<leftarrow> sem_destroy (pi_mutex p) k;
        k \<leftarrow> free_sem (pi_can_read p) k;
        k \<leftarrow> free_sem (pi_can_write p) k;
        k \<leftarrow> free_sem (pi_mutex p) k;
        k \<leftarrow> free_pipe pipe k;
        Some (k\<lparr>pipes := (pipes k)[unat ident := NULL]\<rparr>)
      })"

datatype unattach_frame = U_Start addr | U_Locked addr | U_Ret

fun unattach_step :: "unattach_frame \<Rightarrow> kernel \<Rightarrow> (unattach_frame \<times> bool \<times> kernel) option" where
  "unattach_step (U_Start pipe) k = do {
     p \<leftarrow> pipeobjs k pipe;
     (_, blocked, k) \<leftarrow> sem_wait (pi_mutex p) k;
     Some (U_Locked pipe, blocked, k)
   }"
| "unattach_step (U_Locked pipe) k = do {
     k \<leftarrow> upd_pipe pipe (\<lambda>p. if 0 < pi_attached_count p
                               then p\<lparr>pi_attached_count := pi_attached_count p - 1\<rparr> else p) k;
     p \<leftarrow> pipeobjs k pipe;
     (_, yields, k) \<leftarrow> sem_post (pi_mutex p) k;
     Some (U_Ret, yields, k)
   }"
| "unattach_step U_Ret k = Some (U_Ret, False, k)"

definition unattach_from_pipe :: "u8 \<Rightarrow> 32 word \<Rightarrow> kernel \<Rightarrow> (unattach_frame \<times> kernel) option" where
  "unattach_from_pipe ident pid k =
     (if MAX_PIPES \<le> ident \<or> pipe_at ident k = NULL \<or> sint pid < int (unat PROCESS_FIRST_PID) \<or>
         int (unat PROCESS_FIRST_PID + unat PROCESS_MAX_PROCESSES) \<le> sint pid
      then Some (U_Ret, k)
      else do {
        p \<leftarrow> pipeobjs k (pipe_at ident k);
        (_, k) \<leftarrow> sem_remove_process (pi_can_read p) pid k;
        (_, k) \<leftarrow> sem_remove_process (pi_can_write p) pid k;
        run unattach_step (\<lambda>f. f = U_Ret) (U_Start (pipe_at ident k)) k
      })"

text \<open>
  \<open>close_pipe\<close>: the frame behind the mutex keeps how many readers and writers are still to
  be woken and the number of attached processes it has seen.
\<close>

datatype close_frame = C_Start u8 addr | C_Locked u8 addr | C_Wake u8 addr nat nat u8 | C_Ret int

fun close_step :: "close_frame \<Rightarrow> kernel \<Rightarrow> (close_frame \<times> bool \<times> kernel) option" where
  "close_step (C_Start ident pipe) k = do {
     p \<leftarrow> pipeobjs k pipe;
     (r, blocked, k) \<leftarrow> sem_wait (pi_mutex p) k;
     Some (if r = -1 then C_Ret (-1) else C_Locked ident pipe, blocked, k)
   }"
| "close_step (C_Locked ident pipe) k = do {
     p \<leftarrow> pipeobjs k pipe;
     attached \<leftarrow> Some (pi_attached_count p);
     is_std \<leftarrow> Some (ident = STDIN \<or> ident = STDOUT \<or> ident = STDERR);
     release_waiters \<leftarrow> Some (\<not> is_std \<and> attached \<le> 1);
     (readers_to_wake, k) \<leftarrow> (if release_waiters then sem_waiting_count (pi_can_read p) k else Some (0, k));
     (writers_to_wake, k) \<leftarrow> (if release_waiters then sem_waiting_count (pi_can_write p) k else Some (0, k));
     (_, yields, k) \<leftarrow> sem_post (pi_mutex p) k;
     Some (C_Wake ident pipe (nat readers_to_wake) (nat writers_to_wake) attached, yields, k)
   }"
| "close_step (C_Wake ident pipe readers writers attached) k = do {
     p \<leftarrow> pipeobjs k pipe;
     if 0 < readers then do {
       (_, yields, k) \<leftarrow> sem_post (pi_can_read p) k;
       Some (C_Wake ident pipe (readers - 1) writers attached, yields, k)
     }
     else if 0 < writers then do {
       (_, yields, k) \<leftarrow> sem_post (pi_can_write p) k;
       Some (C_Wake ident pipe readers (writers - 1) attached, yields, k)
     }
     else do {
       k \<leftarrow> (if \<not> (ident = STDIN \<or> ident = STDOUT \<or> ident = STDERR) \<and> attached = 0
             then destroy_pipe ident pipe k else Some k);
       Some (C_Ret 0, False, k)
     }
   }"
| "close_step (C_Ret r) k = Some (C_Ret r, False, k)"

fun close_returned :: "close_frame \<Rightarrow> bool" where
  "close_returned (C_Ret r) = True"
| "close_returned _ = False"

definition close_pipe :: "u8 \<Rightarrow> kernel \<Rightarrow> (close_frame \<times> kernel) option" where
  "close_pipe ident k =
     (if MAX_PIPES \<le> ident \<or> pipe_at ident k = NULL then Some (C_Ret (-1), k)
      else run close_step close_returned (C_Start ident (pipe_at ident k)) k)"

fun reset_loop :: "nat list \<Rightarrow> kernel \<Rightarrow> kernel option" where
  "reset_loop [] k = Some k"
| "reset_loop (i # is) k = do {
     k \<leftarrow> (if pipes k ! i \<noteq> NULL then destroy_pipe (of_nat i) (pipes k ! i) k else Some k);
     reset_loop is k
   }"

definition reset_pipes :: "kernel \<Rightarrow> kernel option" where
  "reset_pipes k = do {
     k \<leftarrow> reset_loop [0..<unat MAX_PIPES] k;
     Some (k\<lparr>next_pipe_id := 0\<rparr>)
   }"

definition set_next_id :: "u8 \<Rightarrow> kernel \<Rightarrow> kernel" where
  "set_next_id ident k = k\<lparr>next_pipe_id := ident\<rparr>"

datatype clear_frame = K_Start addr | K_Locked addr | K_Wake addr nat | K_Ret

fun clear_step :: "clear_frame \<Rightarrow> kernel \<Rightarrow> (clear_frame \<times> bool \<times> kernel) option" where
  "clear_step (K_Start pipe) k = do {
     p \<leftarrow> pipeobjs k pipe;
     (_, blocked, k) \<leftarrow> sem_wait (pi_mutex p) k;
     Some (K_Locked pipe, blocked, k)
   }"
| "clear_step (K_Locked pipe) k = do {
     k \<leftarrow> upd_pipe pipe (\<lambda>p. p\<lparr>pi_read_idx := 0, pi_write_idx := 0, pi_data_count := 0\<rparr>) k;
     p \<leftarrow> pipeobjs k pipe;
     (writers_to_wake, k) \<leftarrow> sem_waiting_count (pi_can_write p) k;
     (_, yields, k) \<leftarrow> sem_post (pi_mutex p) k;
     Some (K_Wake pipe (nat writers_to_wake), yields, k)
   }"
| "clear_step (K_Wake pipe writers) k =
     (if 0 < writers then do {
        p \<leftarrow> pipeobjs k pipe;
        (_, yields, k) \<leftarrow> sem_post (pi_can_write p) k;
        Some (K_Wake pipe (writers - 1), yields, k)
      } else Some (K_Ret, False, k))"
| "clear_step K_Ret k = Some (K_Ret, False, k)"

definition clear_pipe :: "u8 \<Rightarrow> kernel \<Rightarrow> (clear_frame \<times> kernel) option" where
  "clear_pipe ident k =
     (if MAX_PIPES \<le> ident \<or> pipe_at ident k = NULL then Some (K_Ret, k)
      else run clear_step (\<lambda>f. f = K_Ret) (K_Start (pipe_at ident k)) k)"

end
