(* ===== verification/Process.thy ===== *)
theory Process
  imports Pipes
begin

text \<open>
  The life of a process (\<open>process.c\<close>): creation, exit, reaping by the parent, adoption of
  orphans, and the first process. As in \<open>Pipes\<close>, a call that may be suspended in its middle
  is a sequence of steps over a frame: \<open>True\<close> in the result of a step means that the caller
  gives up the processor there.
\<close>

section \<open>Literals and output\<close>

definition ascii :: "string \<Rightarrow> u8 list" where
  "ascii s = map (\<lambda>c. of_nat (of_char c)) s"

text \<open>The calls of the video driver, in the order they are made.\<close>

datatype video_call = Print "u8 list" | PrintDec u64 | PrintHex u64 | NewLine

definition INIT_PROCESS_NAME :: cstring where "INIT_PROCESS_NAME = ascii ''init'' @ [0]"
definition SHELL_PROCESS_NAME :: cstring where "SHELL_PROCESS_NAME = ascii ''shell'' @ [0]"
definition SHELL_PROCESS_ENTRY :: addr where "SHELL_PROCESS_ENTRY = 0x400000"
definition PROCESS_STACK_SIZE :: u64 where "PROCESS_STACK_SIZE = 4096 * 2"
definition PROCESS_MAX_CHILDREN :: nat where "PROCESS_MAX_CHILDREN = 32"

text \<open>\<open>sizeof(process_t)\<close>\<close>

definition PROCESS_SIZE :: u64 where "PROCESS_SIZE = 104"

section \<open>Giving memory back\<close>

definition free_argv :: "addr \<Rightarrow> kernel \<Rightarrow> kernel option" where
  "free_argv p k = do { k \<leftarrow> kfree p k; Some (k\<lparr>argvs := (argvs k)(p := None)\<rparr>) }"

definition free_raw :: "addr \<Rightarrow> kernel \<Rightarrow> kernel option" where
  "free_raw p k = do { k \<leftarrow> kfree p k; Some (k\<lparr>raws := (raws k)(p := None)\<rparr>) }"

definition free_process :: "addr \<Rightarrow> kernel \<Rightarrow> kernel option" where
  "free_process p k = do { k \<leftarrow> kfree p k; Some (k\<lparr>procs := (procs k)(p := None)\<rparr>) }"

definition set_arg :: "addr \<Rightarrow> nat \<Rightarrow> addr \<Rightarrow> kernel \<Rightarrow> kernel option" where
  "set_arg argv i p k = do {
     as \<leftarrow> argvs k argv;
     if i < length as then Some (k\<lparr>argvs := (argvs k)(argv \<mapsto> as[i := p])\<rparr>) else None
   }"

fun free_args :: "nat list \<Rightarrow> addr \<Rightarrow> kernel \<Rightarrow> kernel option" where
  "free_args [] argv k = Some k"
| "free_args (i # is) argv k = do {
     as \<leftarrow> argvs k argv;
     if i < length as then do {
       k \<leftarrow> (if as ! i \<noteq> NULL then do { k \<leftarrow> free_str (as ! i) k; set_arg argv i NULL k } else Some k);
       free_args is argv k
     } else None
   }"

definition process_free_memory :: "addr \<Rightarrow> kernel \<Rightarrow> kernel option" where
  "process_free_memory process k =
     (if process = NULL then Some k
      else do {
        pr \<leftarrow> procs k process;
        k \<leftarrow> (if pr_argv pr \<noteq> NULL then do {
                k \<leftarrow> free_args [0..<nat (pr_argc pr)] (pr_argv pr) k;
                k \<leftarrow> free_argv (pr_argv pr) k;
                upd_proc process (\<lambda>pr. pr\<lparr>pr_argv := NULL\<rparr>) k
              } else Some k);
        k \<leftarrow> (if pr_stack_base pr \<noteq> NULL then do {
                k \<leftarrow> free_raw (pr_stack_base pr) k;
                upd_proc process (\<lambda>pr. pr\<lparr>pr_stack_base := NULL\<rparr>) k
              } else Some k);
        k \<leftarrow> (if pr_exit_sem pr \<noteq> NULL then do {
                k \<leftarrow> sem_destroy (pr_exit_sem pr) k;
                k \<leftarrow> free_sem (pr_exit_sem pr) k;
                upd_proc process (\<lambda>pr. pr\<lparr>pr_exit_sem := NULL\<rparr>) k
              } else Some k);
        k \<leftarrow> (if pr_children pr \<noteq> NULL then do {
                k \<leftarrow> queue_destroy (pr_children pr) None k;
                upd_proc process (\<lambda>pr. pr\<lparr>pr_children := NULL\<rparr>) k
              } else Some k);
        free_process process k
      })"

section \<open>Children\<close>

definition add_child :: "addr \<Rightarrow> addr \<Rightarrow> kernel \<Rightarrow> (bool \<times> kernel) option" where
  "add_child parent child k =
     (if parent = NULL \<or> child = NULL then Some (False, k)
      else do {
        pr \<leftarrow> procs k parent;
        k \<leftarrow> (if pr_children pr = NULL then do {
                (q, k) \<leftarrow> queue_create k;
                upd_proc parent (\<lambda>pr. pr\<lparr>pr_children := q\<rparr>) k
              } else Some k);
        pr \<leftarrow> procs k parent;
        if pr_children pr = NULL then Some (False, k)
        else queue_push (pr_children pr) child k
      })"

definition is_child :: "addr \<Rightarrow> addr \<Rightarrow> kernel \<Rightarrow> bool option" where
  "is_child parent process k =
     (if parent = NULL \<or> process = NULL then Some False
      else do {
        pa \<leftarrow> procs k parent;
        pr \<leftarrow> procs k process;
        Some (pr_ppid pr = pr_pid pa)
      })"

text \<open>
  The loop of \<open>adopt_orphan_children\<close>. The queue of the dying process is read through its
  descriptor each time, and it may have been allocated to \<open>init\<close> itself in the meantime.
\<close>

partial_function (option) adopt_loop :: "addr \<Rightarrow> addr \<Rightarrow> kernel \<Rightarrow> kernel option" where
  "adopt_loop process init_process k = do {
     pr \<leftarrow> procs k process;
     (child, k) \<leftarrow> queue_pop (pr_children pr) k;
     if child = NULL then Some k
     else do {
       i \<leftarrow> procs k init_process;
       k \<leftarrow> upd_proc child (\<lambda>pr. pr\<lparr>pr_ppid := pr_pid i\<rparr>) k;
       (_, k) \<leftarrow> add_child init_process child k;
       adopt_loop process init_process k
     }
   }"

definition adopt_orphan_children :: "addr \<Rightarrow> kernel \<Rightarrow> kernel option" where
  "adopt_orphan_children process k =
     (if process = NULL then Some k
      else do {
        pr \<leftarrow> procs k process;
        if pr_children pr = NULL then Some k
        else if (case pcb k of None \<Rightarrow> False | Some (_, t) \<Rightarrow> pr_pid pr = pc_init_pid t) then Some k
        else do {
          init_process \<leftarrow> Some (case pcb k of
                None \<Rightarrow> NULL
              | Some (_, t) \<Rightarrow> if 0 \<le> sint (pc_init_pid t) then process_lookup (pc_init_pid t) k else NULL);
          if init_process = NULL then Some k
          else do {
            k \<leftarrow> adopt_loop process init_process k;
            pr \<leftarrow> procs k process;
            k \<leftarrow> queue_destroy (pr_children pr) None k;
            upd_proc process (\<lambda>pr. pr\<lparr>pr_children := NULL\<rparr>) k
          }
        }
      })"

section \<open>Exit\<close>

text \<open>A call in the middle of another one: started the first time, resumed afterwards.\<close>

definition call :: "(kernel \<Rightarrow> ('f \<times> kernel) option) \<Rightarrow> ('f \<Rightarrow> kernel \<Rightarrow> ('f \<times> kernel) option) \<Rightarrow>
    'f option \<Rightarrow> kernel \<Rightarrow> ('f \<times> kernel) option" where
  "call start resume frame k = (case frame of None \<Rightarrow> start k | Some f \<Rightarrow> resume f k)"

definition call_attach :: "u8 \<Rightarrow> attach_frame option \<Rightarrow> kernel \<Rightarrow> (attach_frame \<times> kernel) option" where
  "call_attach ident = call (attach_to_pipe ident) (run attach_step attach_returned)"

definition call_unattach :: "u8 \<Rightarrow> 32 word \<Rightarrow> unattach_frame option \<Rightarrow> kernel \<Rightarrow> (unattach_frame \<times> kernel) option" where
  "call_unattach ident pid = call (unattach_from_pipe ident pid) (run unattach_step (\<lambda>f. f = U_Ret))"

definition call_close :: "u8 \<Rightarrow> close_frame option \<Rightarrow> kernel \<Rightarrow> (close_frame \<times> kernel) option" where
  "call_close ident = call (close_pipe ident) (run close_step close_returned)"

datatype exit_pc =
    E_Unattach nat "unattach_frame option"
  | E_Close nat "close_frame option"
  | E_Post
  | E_Switch
  | E_Ret bool

record exit_frame =
  ef_process :: addr
  ef_targets :: "u8 list"
  ef_should_force_switch :: bool
  ef_pc :: exit_pc

definition exit_returned :: "exit_frame \<Rightarrow> bool" where
  "exit_returned f \<longleftrightarrow> (case ef_pc f of E_Ret _ \<Rightarrow> True | _ \<Rightarrow> False)"

definition exit_step :: "exit_frame \<Rightarrow> kernel \<Rightarrow> (exit_frame \<times> bool \<times> kernel) option" where
  "exit_step f k =
     (case ef_pc f of
        E_Unattach i c \<Rightarrow> do {
          pr \<leftarrow> procs k (ef_process f);
          (u, k) \<leftarrow> call_unattach (ef_targets f ! i) (pr_pid pr) c k;
          if u = U_Ret then Some (f\<lparr>ef_pc := (if i < 2 then E_Unattach (i + 1) None else E_Close 0 None)\<rparr>, False, k)
          else Some (f\<lparr>ef_pc := E_Unattach i (Some u)\<rparr>, True, k)
        }
      | E_Close i c \<Rightarrow> do {
          (u, k) \<leftarrow> call_close (ef_targets f ! i) c k;
          if close_returned u then Some (f\<lparr>ef_pc := (if i < 2 then E_Close (i + 1) None else E_Post)\<rparr>, False, k)
          else Some (f\<lparr>ef_pc := E_Close i (Some u)\<rparr>, True, k)
        }
      | E_Post \<Rightarrow> do {
          pr \<leftarrow> procs k (ef_process f);
          (_, yields, k) \<leftarrow> sem_post (pr_exit_sem pr) k;
          Some (f\<lparr>ef_pc := E_Switch\<rparr>, yields, k)
        }
      | E_Switch \<Rightarrow> Some (f\<lparr>ef_pc := E_Ret True\<rparr>, ef_should_force_switch f, k)
      | E_Ret r \<Rightarrow> Some (f, False, k))"

text \<open>The part of \<open>process_exit\<close> that runs with interrupts disabled, as one function.\<close>

definition exit_terminate :: "addr \<Rightarrow> kernel \<Rightarrow> (exit_frame \<times> kernel) option" where
  "exit_terminate process k = do {
     pr \<leftarrow> procs k process;
     k \<leftarrow> (if pr_state pr = PROCESS_STATE_READY then do { (_, k) \<leftarrow> scheduler_remove_ready process k; Some k } else Some k);
     k \<leftarrow> upd_proc process (\<lambda>pr. pr\<lparr>pr_state := PROCESS_STATE_TERMINATED\<rparr>) k;
     k \<leftarrow> adopt_orphan_children process k;
     now \<leftarrow> procs k process;
     k \<leftarrow> Some (case pcb k of
            None \<Rightarrow> k
          | Some (a, t) \<Rightarrow>
              if pc_foreground_pid t = pr_pid now then k\<lparr>pcb := Some (a, t\<lparr>pc_foreground_pid := pr_ppid now\<rparr>)\<rparr> else k);
     should_force_switch \<leftarrow> Some (case pcb k of None \<Rightarrow> False | Some (_, t) \<Rightarrow> pc_running_pid t = pr_pid now);
     Some (\<lparr>ef_process = process, ef_targets = pr_fd_targets pr, ef_should_force_switch = should_force_switch,
            ef_pc = E_Unattach 0 None\<rparr>, k)
   }"

definition process_exit :: "addr \<Rightarrow> kernel \<Rightarrow> (exit_frame \<times> kernel) option" where
  "process_exit process k =
     (if process = NULL
      then Some (\<lparr>ef_process = NULL, ef_targets = [], ef_should_force_switch = False, ef_pc = E_Ret False\<rparr>, k)
      else do {
        (f, k) \<leftarrow> exit_terminate process k;
        run exit_step exit_returned f k
      })"

section \<open>Reaping\<close>

datatype reap_frame = RP_Start addr | RP_Waited addr | RP_Ret int

fun reap_returned :: "reap_frame \<Rightarrow> bool" where
  "reap_returned (RP_Ret r) = True"
| "reap_returned _ = False"

fun reap_step :: "reap_frame \<Rightarrow> kernel \<Rightarrow> (reap_frame \<times> bool \<times> kernel) option" where
  "reap_step (RP_Start process) k = do {
     pr \<leftarrow> procs k process;
     (_, blocked, k) \<leftarrow> sem_wait (pr_exit_sem pr) k;
     Some (RP_Waited process, blocked, k)
   }"
| "reap_step (RP_Waited process) k = do {
     pr \<leftarrow> procs k process;
     k \<leftarrow> process_free_memory process (process_unregister (pr_pid pr) k);
     Some (RP_Ret 0, False, k)
   }"
| "reap_step (RP_Ret r) k = Some (RP_Ret r, False, k)"

definition reap_child_process :: "addr \<Rightarrow> kernel \<Rightarrow> (reap_frame \<times> kernel) option" where
  "reap_child_process process k =
     (if process = NULL then Some (RP_Ret (-1), k) else run reap_step reap_returned (RP_Start process) k)"

definition process_wait_pid :: "u32 \<Rightarrow> kernel \<Rightarrow> (reap_frame \<times> kernel) option" where
  "process_wait_pid pid k =
     (let current = scheduler_current k; child = process_lookup pid k
      in if current = NULL then Some (RP_Ret (-1), k)
         else if child = NULL then Some (RP_Ret (-1), k)
         else do {
           own \<leftarrow> is_child current child k;
           if \<not> own then Some (RP_Ret (-1), k)
           else do {
             pr \<leftarrow> procs k current;
             (removed, k) \<leftarrow> (if pr_children pr \<noteq> NULL then queue_remove (pr_children pr) child k else Some (False, k));
             if \<not> removed then Some (RP_Ret (-1), k)
             else reap_child_process child k
           }
         })"

text \<open>The iteration over the children that collects the terminated ones.\<close>

partial_function (option) collect_terminated :: "addr \<Rightarrow> addr \<Rightarrow> addr list \<Rightarrow> kernel \<Rightarrow> addr list option" where
  "collect_terminated current it terminated k =
     (if \<not> queue_iter_has_next it then Some terminated
      else do {
        (child, it) \<leftarrow> queue_iter_next it k;
        own \<leftarrow> is_child current child k;
        if child = NULL \<or> \<not> own then collect_terminated current it terminated k
        else do {
          pr \<leftarrow> procs k child;
          if pr_state pr \<noteq> PROCESS_STATE_TERMINATED then collect_terminated current it terminated k
          else collect_terminated current it
                 (if length terminated < PROCESS_MAX_CHILDREN then terminated @ [child] else terminated) k
        }
      })"

datatype children_frame =
    WC_Next addr "addr list" int
  | WC_Reap addr reap_frame "addr list" int
  | WC_Ret int

fun children_returned :: "children_frame \<Rightarrow> bool" where
  "children_returned (WC_Ret r) = True"
| "children_returned _ = False"

fun children_step :: "children_frame \<Rightarrow> kernel \<Rightarrow> (children_frame \<times> bool \<times> kernel) option" where
  "children_step (WC_Next current [] reaped) k = Some (WC_Ret reaped, False, k)"
| "children_step (WC_Next current (child # terminated) reaped) k = do {
     pr \<leftarrow> procs k current;
     (removed, k) \<leftarrow> queue_remove (pr_children pr) child k;
     if \<not> removed then Some (WC_Next current terminated reaped, False, k)
     else do {
       (f, k) \<leftarrow> reap_child_process child k;
       Some (WC_Reap current f terminated reaped, \<not> reap_returned f, k)
     }
   }"
| "children_step (WC_Reap current f terminated reaped) k =
     (case f of
        RP_Ret r \<Rightarrow> Some (WC_Next current terminated (if r = 0 then reaped + 1 else reaped), False, k)
      | _ \<Rightarrow> do {
          (f, k) \<leftarrow> run reap_step reap_returned f k;
          Some (WC_Reap current f terminated reaped, \<not> reap_returned f, k)
        })"
| "children_step (WC_Ret r) k = Some (WC_Ret r, False, k)"

definition process_wait_children :: "kernel \<Rightarrow> (children_frame \<times> kernel) option" where
  "process_wait_children k =
     (let current = scheduler_current k
      in if current = NULL then Some (WC_Ret (-1), k)
         else do {
           pr \<leftarrow> procs k current;
           empty \<leftarrow> (if pr_children pr = NULL then Some True else queue_is_empty (pr_children pr) k);
           if empty then Some (WC_Ret 0, k)
           else do {
             it \<leftarrow> queue_iter (pr_children pr) k;
             terminated \<leftarrow> collect_terminated current it [] k;
             run children_step children_returned (WC_Next current terminated 0) k
           }
         })"

end
