(* ===== verification/Frames.thy ===== *)
theory Frames
  imports Sem
begin

text \<open>
  What queues, scheduler and semaphores never touch, whatever the state: the objects and
  static variables of the other components, and of a process everything that does not concern
  its scheduling (\<open>identity\<close>). The collection \<open>frame_facts\<close> holds one fact per
  operation; the facts need no invariant.
\<close>

definition identity where
  "identity pr = (pr_pid pr, pr_ppid pr, pr_name pr, pr_argc pr, pr_argv pr, pr_entry pr, pr_fd_targets pr,
     pr_is_shell pr, pr_stack_base pr, pr_exit_sem pr, pr_children pr)"

lemma identity_upd [simp]:
  "identity (pr\<lparr>pr_state := st\<rparr>) = identity pr" "identity (pr\<lparr>pr_priority := pp\<rparr>) = identity pr"
  "identity (pr\<lparr>pr_priority_requested := pp\<rparr>) = identity pr" "identity (pr\<lparr>pr_priority_fixed := b\<rparr>) = identity pr"
  "identity (pr\<lparr>pr_rsp := r\<rparr>) = identity pr" "identity (pr\<lparr>pr_remaining_quantum := q\<rparr>) = identity pr"
  "identity (pr\<lparr>pr_last_quantum_ticks := q\<rparr>) = identity pr" "identity (pr\<lparr>pr_ready_since_tick := t\<rparr>) = identity pr"
  by (simp_all add: identity_def)

definition identities :: "kernel \<Rightarrow> addr \<Rightarrow> _" where
  "identities k p = map_option identity (procs k p)"

definition outer where
  "outer k = (identities k, pipeobjs k, pipes k, next_pipe_id k, pipe_sem_name k, strs k, argvs k, raws k, sleepers k, ticks k,
     sleeping_queue k, shell_created k, pic_master_mask k, registered_semaphores k, registry_lock k, sch_idle k)"

lemma outerD:
  assumes "outer k' = outer k"
  shows "pipeobjs k' = pipeobjs k" "pipes k' = pipes k" "next_pipe_id k' = next_pipe_id k"
    "pipe_sem_name k' = pipe_sem_name k" "strs k' = strs k" "argvs k' = argvs k" "raws k' = raws k"
    "sleepers k' = sleepers k" "ticks k' = ticks k" "sleeping_queue k' = sleeping_queue k"
    "shell_created k' = shell_created k" "pic_master_mask k' = pic_master_mask k"
    "registered_semaphores k' = registered_semaphores k" "registry_lock k' = registry_lock k" "sch_idle k' = sch_idle k"
    "identities k' = identities k"
  using assms by (simp_all add: outer_def)

lemma identities_procs: "procs k' = procs k \<Longrightarrow> identities k' = identities k"
  by (simp add: identities_def fun_eq_iff)

lemma identity_kept:
  assumes "identities k' = identities k" and "procs k p = Some pr"
  obtains pr' where "procs k' p = Some pr'" "identity pr' = identity pr"
  using assms by (auto simp: identities_def fun_eq_iff dest!: spec [of _ p])

lemma outer_upd [simp]:
  "outer (k\<lparr>kmem := m\<rparr>) = outer k" "outer (k\<lparr>queues := qs\<rparr>) = outer k" "outer (k\<lparr>qnodes := ns\<rparr>) = outer k"
  "outer (k\<lparr>sems := ss\<rparr>) = outer k" "outer (k\<lparr>pcb := t\<rparr>) = outer k"
  "outer (k\<lparr>sch_current := c\<rparr>) = outer k" "outer (k\<lparr>sch_ready_queues := r\<rparr>) = outer k"
  "outer (k\<lparr>sch_total_ticks := n\<rparr>) = outer k" "outer (k\<lparr>sch_context_switches := n\<rparr>) = outer k"
  by (simp_all add: outer_def identities_def fun_eq_iff)

lemma outer_proc [simp]:
  "procs k p = Some pr \<Longrightarrow> identity pr' = identity pr \<Longrightarrow> outer (k\<lparr>procs := (procs k)(p \<mapsto> pr')\<rparr>) = outer k"
  by (simp add: outer_def identities_def fun_eq_iff)

lemma outer_kalloc [frame_facts]: "kalloc n k = Some (p, k') \<Longrightarrow> outer k' = outer k"
  by (auto simp: kalloc_def)

lemma outer_kfree [frame_facts]: "kfree p k = Some k' \<Longrightarrow> outer k' = outer k"
  by (auto simp: kfree_def)

lemma outer_queue_create [frame_facts]: "queue_create k = Some (q, k') \<Longrightarrow> outer k' = outer k"
  by (auto simp: queue_create_def dest!: frame_facts split: if_splits)

lemma outer_free_node [frame_facts]: "free_node p k = Some k' \<Longrightarrow> outer k' = outer k"
  by (auto simp: free_node_def dest!: frame_facts split: if_splits)

lemma outer_queue_push [frame_facts]: "queue_push q x k = Some (b, k') \<Longrightarrow> outer k' = outer k"
  by (auto simp: queue_push_def dest!: frame_facts split: if_splits)

lemma outer_queue_pop [frame_facts]: "queue_pop q k = Some (b, k') \<Longrightarrow> outer k' = outer k"
  by (auto simp: queue_pop_def dest!: frame_facts split: if_splits)

lemma outer_queue_remove_loop:
  assumes "queue_remove_loop q x prev cur k = Some y"
  shows "outer (snd y) = outer k"
proof (rule queue_remove_loop.raw_induct [where P = "\<lambda>q x prev cur k y. outer (snd y) = outer k", OF _ assms], goal_cases)
  case (1 loop q x prev cur k y)
  from 1(2) show ?case by (auto dest!: frame_facts 1(1) split: if_splits)
qed

lemma outer_queue_remove [frame_facts]: "queue_remove q x k = Some (b, k') \<Longrightarrow> outer k' = outer k"
  by (auto simp: queue_remove_def dest!: outer_queue_remove_loop split: if_splits)

lemma outer_upd_proc [frame_facts]:
  "upd_proc p f k = Some k' \<Longrightarrow> (\<And>pr. identity (f pr) = identity pr) \<Longrightarrow> outer k' = outer k"
  by (auto simp: upd_proc_def)

lemma outer_upd_sem [frame_facts]: "upd_sem p f k = Some k' \<Longrightarrow> outer k' = outer k"
  by (auto simp: upd_sem_def)

lemma outer_queue_for_priority [frame_facts]: "queue_for_priority p k = Some (q, k') \<Longrightarrow> outer k' = outer k"
  by (auto simp: queue_for_priority_def Let_def dest!: frame_facts split: if_splits)

lemma outer_remove_every:
  assumes "remove_every q p b k = Some y"
  shows "outer (snd y) = outer k"
proof (rule remove_every.raw_induct [where P = "\<lambda>q p b k y. outer (snd y) = outer k", OF _ assms], goal_cases)
  case (1 loop q p b k y)
  from 1(2) show ?case by (auto dest!: frame_facts 1(1) split: if_splits)
qed

lemma outer_remove_levels [frame_facts]: "remove_levels qs p b k = Some (b', k') \<Longrightarrow> outer k' = outer k"
  by (induction qs arbitrary: b k) (auto dest!: outer_remove_every split: if_splits)

lemma outer_scheduler_remove_ready [frame_facts]: "scheduler_remove_ready p k = Some (b, k') \<Longrightarrow> outer k' = outer k"
  by (auto simp: scheduler_remove_ready_def dest!: frame_facts split: if_splits)

lemma outer_scheduler_add_ready [frame_facts]: "scheduler_add_ready p k = Some k' \<Longrightarrow> outer k' = outer k"
  by (auto simp: scheduler_add_ready_def Let_def dest!: frame_facts split: if_splits)

lemma outer_process_unblock [frame_facts]: "process_unblock p k = Some (b, k') \<Longrightarrow> outer k' = outer k"
  by (auto simp: process_unblock_def dest!: frame_facts split: if_splits)

lemma outer_process_block [frame_facts]: "process_block p k = Some (b, k') \<Longrightarrow> outer k' = outer k"
  by (auto simp: process_block_def dest!: frame_facts split: if_splits)

lemma outer_process_yield [frame_facts]: "process_yield k = Some (b, k') \<Longrightarrow> outer k' = outer k"
  by (auto simp: process_yield_def Let_def dest!: frame_facts split: if_splits)

lemma outer_wake_one:
  assumes "wake_one s k = Some y"
  shows "outer (snd y) = outer k"
proof (rule wake_one.raw_induct [where P = "\<lambda>s k y. outer (snd y) = outer k", OF _ assms], goal_cases)
  case (1 loop s k y)
  from 1(2) show ?case by (auto dest!: frame_facts 1(1) split: if_splits)
qed

lemma outer_lock_sem [frame_facts]: "lock_sem s k = Some k' \<Longrightarrow> outer k' = outer k"
  by (auto simp: lock_sem_def dest!: frame_facts)

lemma outer_unlock_sem [frame_facts]: "unlock_sem s k = Some k' \<Longrightarrow> outer k' = outer k"
  by (auto simp: unlock_sem_def dest!: frame_facts)

lemma outer_sem_post [frame_facts]: "sem_post s k = Some (r, y, k') \<Longrightarrow> outer k' = outer k"
  by (auto simp: sem_post_def dest!: frame_facts outer_wake_one split: if_splits)

lemma outer_sem_wait [frame_facts]: "sem_wait s k = Some (r, b, k') \<Longrightarrow> outer k' = outer k"
  by (auto simp: sem_wait_def dest!: frame_facts split: if_splits)

lemma outer_sem_waiting_count [frame_facts]: "sem_waiting_count s k = Some (r, k') \<Longrightarrow> outer k' = outer k"
  by (auto simp: sem_waiting_count_def dest!: frame_facts split: if_splits)

lemma outer_sem_remove_process [frame_facts]: "sem_remove_process s p k = Some (r, k') \<Longrightarrow> outer k' = outer k"
  by (auto simp: sem_remove_process_def dest!: frame_facts split: if_splits)

text \<open>With the timer running, a post never raises the scheduler interrupt.\<close>

lemma sem_post_no_yield:
  assumes "sem_post s k = Some (r, y, k')" and "\<not> timer_tick_is_disabled k"
  shows "\<not> y"
proof -
  obtain k4 where k4: "outer k4 = outer k" "y \<longrightarrow> timer_tick_is_disabled k4"
    using assms(1) by (auto simp: sem_post_def dest!: frame_facts outer_wake_one split: if_splits)
  have "\<not> timer_tick_is_disabled k4"
    using assms(2) outerD(12) [OF k4(1)] by (simp add: timer_tick_is_disabled_def)
  then show ?thesis using k4(2) by auto
qed

text \<open>The tick of the scheduler.\<close>

lemma outer_process_set_running [frame_facts]: "process_set_running p k = Some k' \<Longrightarrow> outer k' = outer k"
  by (auto simp: process_set_running_def split: option.splits if_splits)

lemma outer_age_items [frame_facts]: "age_items n q k = Some k' \<Longrightarrow> outer k' = outer k"
  by (induction n arbitrary: k) (auto dest!: frame_facts split: if_splits)

lemma outer_age_levels: "age_levels ps k = Some k' \<Longrightarrow> outer k' = outer k"
  by (induction ps arbitrary: k) (auto dest!: frame_facts)

lemma outer_pick_next: "pick_next ps k = Some (p, k') \<Longrightarrow> outer k' = outer k"
  by (induction ps arbitrary: k) (auto dest!: frame_facts split: if_splits)

lemma outer_tick_running [frame_facts]: "tick_running rsp k = Some (b, k') \<Longrightarrow> outer k' = outer k"
  by (auto simp: tick_running_def Let_def dest!: frame_facts split: if_splits)

lemma outer_tick_switch [frame_facts]: "tick_switch rsp p k = Some (r, k') \<Longrightarrow> outer k' = outer k"
  by (auto simp: tick_switch_def dest!: frame_facts split: if_splits)

lemma outer_schedule_tick [frame_facts]: "schedule_tick rsp k = Some (r, k') \<Longrightarrow> outer k' = outer k"
  by (auto simp: schedule_tick_def scheduler_age_ready_def simp del: pick_next.simps age_levels.simps
      dest!: frame_facts outer_age_levels outer_pick_next split: if_splits)

end
