(* ===== verification/Pipe_Props.thy ===== *)
theory Pipe_Props
  imports Pipes Frames
begin

text \<open>
  The pipes as byte streams: the ring buffer holds a list of bytes, every step of a reader or
  writer takes its first byte, appends one or leaves it alone, whatever the interleaving,
  and calls that find enough bytes or room return without giving up the processor.
\<close>

section \<open>The ring buffer\<close>

definition pipe_ok :: "pipe \<Rightarrow> bool" where
  "pipe_ok p \<longleftrightarrow> length (pi_buffer p) = 1024 \<and> unat (pi_read_idx p) < 1024 \<and> unat (pi_data_count p) \<le> 1024 \<and>
     unat (pi_write_idx p) = (unat (pi_read_idx p) + unat (pi_data_count p)) mod 1024"

definition content :: "pipe \<Rightarrow> u8 list" where
  "content p = map (\<lambda>i. pi_buffer p ! ((unat (pi_read_idx p) + i) mod 1024)) [0..<unat (pi_data_count p)]"

lemma length_content [simp]: "length (content p) = unat (pi_data_count p)"
  by (simp add: content_def)

lemma NEXT_BUFFER_IDX_unat: "unat i < 1024 \<Longrightarrow> unat (NEXT_BUFFER_IDX i) = (unat i + 1) mod 1024"
  by (simp add: NEXT_BUFFER_IDX_def pipe_consts unat_mod unat_word_ariths)

lemma take_byte:
  assumes "pipe_ok p" and "pi_data_count p \<noteq> 0"
    and "p' = p\<lparr>pi_read_idx := NEXT_BUFFER_IDX (pi_read_idx p), pi_data_count := pi_data_count p - 1\<rparr>"
  shows "pipe_ok p'" and "content p = pi_buffer p ! unat (pi_read_idx p) # content p'"
proof -
  let ?r = "unat (pi_read_idx p)" and ?n = "unat (pi_data_count p)"
  have r: "?r < 1024" "unat (NEXT_BUFFER_IDX (pi_read_idx p)) = (?r + 1) mod 1024"
    using assms(1) NEXT_BUFFER_IDX_unat by (simp_all add: pipe_ok_def)
  have n: "unat (pi_data_count p - 1) = ?n - 1" "0 < ?n"
    using assms(2) by (simp_all add: unat_minus_one unat_gt_0)
  have w: "((?r + 1) mod 1024 + (?n - 1)) mod 1024 = (?r + ?n) mod 1024"
  proof -
    have "((?r + 1) mod 1024 + (?n - 1)) mod 1024 = (?r + 1 + (?n - 1)) mod 1024" by (rule mod_add_left_eq)
    then show ?thesis using n(2) by simp
  qed
  show "pipe_ok p'" using assms(1,3) r n w by (auto simp: pipe_ok_def)
  have "[0..<?n] = 0 # map Suc [0..<?n - 1]" using n(2) by (simp add: map_Suc_upt upt_conv_Cons)
  then show "content p = pi_buffer p ! ?r # content p'"
    using assms(3) r n by (simp add: content_def comp_def mod_add_left_eq)
qed

lemma put_byte:
  assumes "pipe_ok p" and "pi_data_count p \<noteq> PIPE_BUFFER_SIZE"
    and "p' = p\<lparr>pi_buffer := (pi_buffer p)[unat (pi_write_idx p) := b],
                pi_write_idx := NEXT_BUFFER_IDX (pi_write_idx p), pi_data_count := pi_data_count p + 1\<rparr>"
  shows "pipe_ok p'" and "content p' = content p @ [b]"
proof -
  let ?r = "unat (pi_read_idx p)" and ?n = "unat (pi_data_count p)" and ?w = "unat (pi_write_idx p)"
  have "?n \<noteq> 1024"
  proof
    assume "?n = 1024"
    then have "unat (pi_data_count p) = unat (1024 :: u64)" by simp
    then have "pi_data_count p = 1024" by (rule unsigned_word_eqI)
    then show False using assms(2) by (simp add: PIPE_BUFFER_SIZE_def)
  qed
  then have n: "?n < 1024" using assms(1) by (simp add: pipe_ok_def)
  then have n1: "unat (pi_data_count p + 1) = ?n + 1" by (simp add: unat_word_ariths)
  have r: "?r < 1024" and w: "?w = (?r + ?n) mod 1024" and len: "length (pi_buffer p) = 1024"
    using assms(1) by (simp_all add: pipe_ok_def)
  have w1: "unat (NEXT_BUFFER_IDX (pi_write_idx p)) = (?r + (?n + 1)) mod 1024"
    using NEXT_BUFFER_IDX_unat [of "pi_write_idx p"] w by (simp add: mod_Suc_eq)
  show "pipe_ok p'" using assms(3) r len n n1 w1 by (simp add: pipe_ok_def)
  have ne: "(?r + i) mod 1024 \<noteq> ?w" if "i < ?n" for i
  proof
    assume "(?r + i) mod 1024 = ?w"
    then have "(?r + i) mod 1024 = (?r + ?n) mod 1024" using w by simp
    then have "1024 dvd (?r + ?n) - (?r + i)" using that by (metis mod_eq_dvd_iff_nat nat_add_left_cancel_le less_imp_le)
    then show False using that n dvd_imp_le [of 1024 "?n - i"] by simp
  qed
  have "content p' = map (\<lambda>i. (pi_buffer p)[?w := b] ! ((?r + i) mod 1024)) ([0..<?n] @ [?n])"
    using assms(3) n1 by (simp add: content_def)
  also have "\<dots> = content p @ [b]"
  proof -
    have "(pi_buffer p)[?w := b] ! ((?r + i) mod 1024) = pi_buffer p ! ((?r + i) mod 1024)" if "i < ?n" for i
      using ne [OF that] by simp
    moreover have "(pi_buffer p)[?w := b] ! ((?r + ?n) mod 1024) = b" using w len by simp
    ultimately show ?thesis by (simp add: content_def)
  qed
  finally show "content p' = content p @ [b]" .
qed

section \<open>Steps of readers and writers\<close>

text \<open>The byte a step of a reader takes out, the byte a step of a writer puts in.\<close>

definition read_event :: "read_frame \<Rightarrow> read_frame \<Rightarrow> u8 list" where
  "read_event f f' =
     (if rf_pc f = R_Locked \<and> rf_pc f' = R_Taken then [rf_buffer f' ! unat (rf_read_bytes f)] else [])"

definition write_event :: "write_frame \<Rightarrow> write_frame \<Rightarrow> u8 list" where
  "write_event f f' =
     (if wf_pc f = W_Locked \<and> wf_pc f' = W_Put then [wf_buffer f ! unat (wf_written_bytes f)] else [])"

lemma outer_pipes: "outer k' = outer k \<Longrightarrow> pipeobjs k' = pipeobjs k"
  by (rule outerD)

lemma pipe_ok_waiting:
  "pipe_ok (p\<lparr>pi_waiting_readers := n\<rparr>) = pipe_ok p" "pipe_ok (p\<lparr>pi_waiting_writers := n\<rparr>) = pipe_ok p"
  "content (p\<lparr>pi_waiting_readers := n\<rparr>) = content p" "content (p\<lparr>pi_waiting_writers := n\<rparr>) = content p"
  by (simp_all add: pipe_ok_def content_def)

lemma pipe_unchanged: "pipeobjs k P = Some p \<Longrightarrow> (pipeobjs k)(P \<mapsto> p) = pipeobjs k"
  by auto

lemma read_step_fifo:
  assumes step: "read_step f k = Some (f', g, k')" and p: "pipeobjs k (rf_pipe f) = Some p" "pipe_ok p"
  shows "\<exists>p'. pipeobjs k' = (pipeobjs k)(rf_pipe f \<mapsto> p') \<and> pipe_ok p' \<and>
    content p = read_event f f' @ content p' \<and> rf_pipe f' = rf_pipe f"
proof (cases "rf_pc f")
  case R_Locked
  let ?p = "p\<lparr>pi_read_idx := NEXT_BUFFER_IDX (pi_read_idx p), pi_data_count := pi_data_count p - 1\<rparr>"
  have "pipeobjs k' = (pipeobjs k)(rf_pipe f \<mapsto> ?p) \<and> rf_pc f' = R_Taken \<and> rf_pipe f' = rf_pipe f \<and>
      rf_buffer f' ! unat (rf_read_bytes f) = pi_buffer p ! unat (pi_read_idx p)" if "pi_data_count p \<noteq> 0"
    using step p R_Locked that
    by (auto simp: read_step_def upd_pipe_def dest!: frame_facts outer_pipes split: if_splits)
  moreover have "\<exists>n. pipeobjs k' = (pipeobjs k)(rf_pipe f \<mapsto> p\<lparr>pi_waiting_readers := n\<rparr>) \<and> rf_pc f' \<noteq> R_Taken \<and>
      rf_pipe f' = rf_pipe f" if "pi_data_count p = 0"
  proof (cases "pi_attached_count p \<le> 1")
    case True
    have "p\<lparr>pi_waiting_readers := pi_waiting_readers p\<rparr> = p" by simp
    then have "pipeobjs k = (pipeobjs k)(rf_pipe f \<mapsto> p\<lparr>pi_waiting_readers := pi_waiting_readers p\<rparr>)" using p(1) by auto
    then show ?thesis using step p R_Locked that True
      by (intro exI [of _ "pi_waiting_readers p"]) (auto simp: read_step_def dest!: frame_facts outer_pipes)
  next
    case False
    then show ?thesis using step p R_Locked that
      by (auto simp: read_step_def upd_pipe_def dest!: frame_facts outer_pipes split: if_splits)
  qed
  ultimately show ?thesis
    using take_byte [OF p(2) _ refl] R_Locked p(2) by (cases "pi_data_count p = 0") (auto simp: read_event_def pipe_ok_waiting)
next
  case R_Relocked
  then have "\<exists>n. pipeobjs k' = (pipeobjs k)(rf_pipe f \<mapsto> p\<lparr>pi_waiting_readers := n\<rparr>) \<and> rf_pipe f' = rf_pipe f"
    using step p by (auto simp: read_step_def upd_pipe_def dest!: frame_facts outer_pipes)
  then show ?thesis using R_Relocked p(2) by (auto simp: read_event_def pipe_ok_waiting)
qed (rule exI [of _ p], use step p pipe_unchanged [OF p(1)] in \<open>auto simp: read_step_def read_event_def
    dest!: frame_facts outer_pipes split: if_splits\<close>)+

lemma write_step_fifo:
  assumes step: "write_step f k = Some (f', g, k')" and p: "pipeobjs k (wf_pipe f) = Some p" "pipe_ok p"
  shows "\<exists>p'. pipeobjs k' = (pipeobjs k)(wf_pipe f \<mapsto> p') \<and> pipe_ok p' \<and>
    content p' = content p @ write_event f f' \<and> wf_pipe f' = wf_pipe f"
proof (cases "wf_pc f")
  case W_Locked
  let ?b = "wf_buffer f ! unat (wf_written_bytes f)"
  let ?p = "p\<lparr>pi_buffer := (pi_buffer p)[unat (pi_write_idx p) := ?b],
              pi_write_idx := NEXT_BUFFER_IDX (pi_write_idx p), pi_data_count := pi_data_count p + 1\<rparr>"
  have "pipeobjs k' = (pipeobjs k)(wf_pipe f \<mapsto> ?p) \<and> wf_pc f' = W_Put \<and> wf_pipe f' = wf_pipe f"
    if "pi_data_count p \<noteq> PIPE_BUFFER_SIZE"
    using step p W_Locked that
    by (auto simp: write_step_def upd_pipe_def dest!: frame_facts outer_pipes split: if_splits)
  moreover have "\<exists>n. pipeobjs k' = (pipeobjs k)(wf_pipe f \<mapsto> p\<lparr>pi_waiting_writers := n\<rparr>) \<and> wf_pc f' \<noteq> W_Put \<and>
      wf_pipe f' = wf_pipe f" if "pi_data_count p = PIPE_BUFFER_SIZE"
    using step p W_Locked that
    by (auto simp: write_step_def upd_pipe_def dest!: frame_facts outer_pipes split: if_splits)
  ultimately show ?thesis
    using put_byte [OF p(2) _ refl, of ?b] W_Locked p(2)
    by (cases "pi_data_count p = PIPE_BUFFER_SIZE") (auto simp: write_event_def pipe_ok_waiting)
next
  case W_Relocked
  then have "\<exists>n. pipeobjs k' = (pipeobjs k)(wf_pipe f \<mapsto> p\<lparr>pi_waiting_writers := n\<rparr>) \<and> wf_pipe f' = wf_pipe f"
    using step p by (auto simp: write_step_def upd_pipe_def dest!: frame_facts outer_pipes)
  then show ?thesis using W_Relocked p(2) by (auto simp: write_event_def pipe_ok_waiting)
qed (rule exI [of _ p], use step p pipe_unchanged [OF p(1)] in \<open>auto simp: write_step_def write_event_def
    dest!: frame_facts outer_pipes split: if_splits\<close>)+

text \<open>
  Executions seen from one pipe: steps of any readers and writers, on this pipe or on
  others, and ticks, in any order, with the bytes written to it and read from it.
\<close>

inductive pipe_trace :: "addr \<Rightarrow> kernel \<Rightarrow> u8 list \<Rightarrow> u8 list \<Rightarrow> kernel \<Rightarrow> bool" for P where
  trace_nil: "pipe_trace P k [] [] k"
| trace_read: "read_step f k = Some (f', g, k1) \<Longrightarrow> pipe_trace P k1 w r k' \<Longrightarrow>
    pipe_trace P k w ((if rf_pipe f = P then read_event f f' else []) @ r) k'"
| trace_write: "write_step f k = Some (f', g, k1) \<Longrightarrow> pipe_trace P k1 w r k' \<Longrightarrow>
    pipe_trace P k ((if wf_pipe f = P then write_event f f' else []) @ w) r k'"
| trace_tick: "schedule_tick rsp k = Some (s, k1) \<Longrightarrow> pipe_trace P k1 w r k' \<Longrightarrow> pipe_trace P k w r k'"

definition all_pipes_ok :: "kernel \<Rightarrow> bool" where
  "all_pipes_ok k \<longleftrightarrow> (\<forall>P p. pipeobjs k P = Some p \<longrightarrow> pipe_ok p)"

lemma read_step_pipe: "read_step f k = Some r \<Longrightarrow> \<exists>p. pipeobjs k (rf_pipe f) = Some p"
  by (auto simp: read_step_def)

lemma write_step_pipe: "write_step f k = Some r \<Longrightarrow> \<exists>p. pipeobjs k (wf_pipe f) = Some p"
  by (auto simp: write_step_def)

lemma trace_fifo:
  "pipe_trace P k w r k' \<Longrightarrow> all_pipes_ok k \<Longrightarrow> pipeobjs k P = Some p \<Longrightarrow>
   \<exists>p'. pipeobjs k' P = Some p' \<and> all_pipes_ok k' \<and> content p @ w = r @ content p'"
proof (induction arbitrary: p rule: pipe_trace.induct)
  case (trace_read f k f' g k1 w r k')
  obtain q where q: "pipeobjs k (rf_pipe f) = Some q" using read_step_pipe [OF trace_read.hyps(1)] by blast
  then have "pipe_ok q" using trace_read.prems(1) by (auto simp: all_pipes_ok_def)
  from read_step_fifo [OF trace_read.hyps(1) q this] obtain q' where
    q': "pipeobjs k1 = (pipeobjs k)(rf_pipe f \<mapsto> q')" "pipe_ok q'" "content q = read_event f f' @ content q'" by blast
  have "all_pipes_ok k1" using trace_read.prems(1) q' by (auto simp: all_pipes_ok_def)
  then show ?case
    using trace_read.IH trace_read.prems(2) q q' by (cases "rf_pipe f = P") auto
next
  case (trace_write f k f' g k1 w r k')
  obtain q where q: "pipeobjs k (wf_pipe f) = Some q" using write_step_pipe [OF trace_write.hyps(1)] by blast
  then have "pipe_ok q" using trace_write.prems(1) by (auto simp: all_pipes_ok_def)
  from write_step_fifo [OF trace_write.hyps(1) q this] obtain q' where
    q': "pipeobjs k1 = (pipeobjs k)(wf_pipe f \<mapsto> q')" "pipe_ok q'" "content q' = content q @ write_event f f'" by blast
  have "all_pipes_ok k1" using trace_write.prems(1) q' by (auto simp: all_pipes_ok_def)
  then show ?case
    using trace_write.IH trace_write.prems(2) q q' by (cases "wf_pipe f = P") auto
next
  case (trace_tick rsp k s k1 w r k')
  have "pipeobjs k1 = pipeobjs k" by (rule outer_pipes [OF outer_schedule_tick [OF trace_tick.hyps(1)]])
  then show ?case using trace_tick.IH trace_tick.prems by (simp add: all_pipes_ok_def)
qed auto

section \<open>Calls that return at once\<close>

text \<open>A wait that finds a positive value never gives up the processor.\<close>

lemma sem_wait_pos:
  assumes inv: "sems_inv S k" and s: "s \<in> S" and v: "0 < sem_value k s"
  shows "\<exists>k'. sem_wait s k = Some (0, False, k') \<and> sems_inv S k' \<and>
    sem_abs S k' = ((fst (sem_abs S k))(s := sem_value k s - 1), snd (sem_abs S k))"
proof -
  obtain r where r: "sems k s = Some r" "s_count r = Some (sem_value k s)" "s_lock r = Some 0"
    by (rule sem_readyD [OF sems_invD(4) [OF inv s]])
  let ?k' = "k\<lparr>sems := (sems k)(s \<mapsto> r\<lparr>s_count := Some (sem_value k s - 1)\<rparr>)\<rparr>"
  have "r\<lparr>s_lock := Some 1, s_count := Some (sem_value k s - 1), s_lock := Some 0\<rparr> =
      r\<lparr>s_count := Some (sem_value k s - 1)\<rparr>" using r(3) by (cases r) simp
  then have "sem_wait s k = Some (0, False, ?k')"
    using sem_not_null [OF inv s] lock_sem_some [OF r(1,3)] r(2) v
    by (simp add: sem_wait_def upd_sem_some unlock_sem_some)
  then show ?thesis using sems_inv_value [OF inv s r(1) refl] by blast
qed

lemma sems_inv_pipe:
  assumes "sems_inv S k" and "pipeobjs k P \<noteq> None"
  shows "sems_inv S (k\<lparr>pipeobjs := (pipeobjs k)(P \<mapsto> p)\<rparr>)" (is "sems_inv S ?k")
    and "sem_abs S (k\<lparr>pipeobjs := (pipeobjs k)(P \<mapsto> p)\<rparr>) = sem_abs S k"
proof -
  have q: "queue_inv ?k" using sems_invD(3) [OF assms(1)] assms(2) by simp
  have same: "procs ?k = procs k" "sch_ready_queues ?k = sch_ready_queues k" "sch_current ?k = sch_current k"
    "sch_idle ?k = sch_idle k" "dom (queues k) \<subseteq> dom (queues ?k)"
    "\<forall>x\<in>dom (queues k). x \<in> set (sch_ready_queues k) \<or> x \<in> sem_queue k ` S \<longrightarrow> qelems ?k x = qelems k x"
    "\<forall>s\<in>S. sems ?k s = sems k s" by simp_all
  show "sems_inv S ?k" by (rule sems_inv_cong(1) [OF assms(1) q same])
  show "sem_abs S ?k = sem_abs S k" by (rule sems_inv_cong(2) [OF assms(1) q same])
qed

definition pipe_sems :: "pipe \<Rightarrow> addr set" where
  "pipe_sems p = {pi_can_read p, pi_can_write p, pi_mutex p}"

text \<open>
  A pipe at rest: well formed, its semaphores in order, the mutex free, the timer running.
\<close>

definition pipe_ready :: "addr \<Rightarrow> pipe \<Rightarrow> kernel \<Rightarrow> bool" where
  "pipe_ready P p k \<longleftrightarrow> pipeobjs k P = Some p \<and> pipe_ok p \<and> sems_inv (pipe_sems p) k \<and>
     distinct [pi_can_read p, pi_can_write p, pi_mutex p] \<and>
     sem_value k (pi_mutex p) = 1 \<and> waiters k (pi_mutex p) = [] \<and> \<not> timer_tick_is_disabled k"

lemma pipe_readyD:
  assumes "pipe_ready P p k"
  shows "pipeobjs k P = Some p" "pipe_ok p" "sems_inv (pipe_sems p) k"
    "distinct [pi_can_read p, pi_can_write p, pi_mutex p]"
    "sem_value k (pi_mutex p) = 1" "waiters k (pi_mutex p) = []" "\<not> timer_tick_is_disabled k"
  using assms by (simp_all add: pipe_ready_def)

lemma timer_outer: "outer k' = outer k \<Longrightarrow> timer_tick_is_disabled k' = timer_tick_is_disabled k"
  by (drule outerD(12)) (simp add: timer_tick_is_disabled_def)

text \<open>Taking the mutex of a pipe at rest, changing the pipe, and giving the mutex back.\<close>

lemma critical_section:
  assumes rdy: "pipe_ready P p k" and p': "pipe_sems p' = pipe_sems p" "pi_mutex p' = pi_mutex p" "pi_can_read p' = pi_can_read p"
    "pi_can_write p' = pi_can_write p" "pipe_ok p'"
  obtains k1 k2 where "sem_wait (pi_mutex p) k = Some (0, False, k1)" "pipeobjs k1 P = Some p"
    "sem_post (pi_mutex p) (k1\<lparr>pipeobjs := (pipeobjs k1)(P \<mapsto> p')\<rparr>) = Some (0, False, k2)"
    "pipe_ready P p' k2" "outer k1 = outer k" "pipes k2 = pipes k" "pic_master_mask k2 = pic_master_mask k"
    "identities k2 = identities k"
proof -
  note r = pipe_readyD [OF rdy]
  let ?S = "pipe_sems p" and ?m = "pi_mutex p"
  have m: "?m \<in> ?S" by (simp add: pipe_sems_def)
  have "0 < sem_value k ?m" using r(5) by simp
  from sem_wait_pos [OF r(3) m this] obtain k1 where k1: "sem_wait ?m k = Some (0, False, k1)" "sems_inv ?S k1"
    "sem_abs ?S k1 = ((fst (sem_abs ?S k))(?m := 0), snd (sem_abs ?S k))" using r(5) by auto
  have o1: "outer k1 = outer k" by (rule outer_sem_wait [OF k1(1)])
  have P1: "pipeobjs k1 P = Some p" using outerD(1) [OF o1] r(1) by simp
  let ?k = "k1\<lparr>pipeobjs := (pipeobjs k1)(P \<mapsto> p')\<rparr>"
  have i: "sems_inv ?S ?k" "sem_abs ?S ?k = sem_abs ?S k1" using sems_inv_pipe [OF k1(2)] P1 by simp_all
  from ks.post_law [OF i(1) m] obtain y k2 where k2: "sem_post ?m ?k = Some (0, y, k2)" "sems_inv ?S k2"
    "sem_abs ?S k2 = sem_step (Post ?m) (sem_abs ?S ?k)" by blast
  have t: "\<not> timer_tick_is_disabled ?k" using r(7) timer_outer [OF o1] by (simp add: timer_tick_is_disabled_def)
  have y: "y = False" using sem_post_no_yield [OF k2(1) t] by simp
  have o2: "outer k2 = outer ?k" by (rule outer_sem_post [OF k2(1)])
  have "snd (sem_abs ?S k) ?m = []" using r(6) m by (simp add: sem_abs_def)
  then have a2: "sem_abs ?S k2 = ((fst (sem_abs ?S k))(?m := 1), snd (sem_abs ?S k))" using k2(3) i(2) k1(3) by simp
  have "fst (sem_abs ?S k2) ?m = 1" "snd (sem_abs ?S k2) ?m = []" using a2 \<open>snd (sem_abs ?S k) ?m = []\<close> by simp_all
  then have "sem_value k2 ?m = 1" "waiters k2 ?m = []" using m by (simp_all add: sem_abs_def)
  then have "pipe_ready P p' k2"
    using k2(2) p' r(4) t timer_outer [OF o2] outerD(1) [OF o2] by (simp add: pipe_ready_def)
  moreover have "pipes k2 = pipes k" "pic_master_mask k2 = pic_master_mask k"
    using outerD(2,12) [OF o1] outerD(2,12) [OF o2] by simp_all
  moreover have "identities k2 = identities k"
    using outerD(16) [OF o1] outerD(16) [OF o2] by (simp add: identities_def fun_eq_iff)
  ultimately show ?thesis using that [OF k1(1) P1 _ _ o1] k2(1) y by simp
qed

text \<open>Posting one of the other two semaphores.\<close>

lemma post_other:
  assumes rdy: "pipe_ready P p k" and s: "s \<in> {pi_can_read p, pi_can_write p}"
  obtains k' where "sem_post s k = Some (0, False, k')" "pipe_ready P p k'" "outer k' = outer k"
proof -
  note r = pipe_readyD [OF rdy]
  let ?S = "pipe_sems p" and ?m = "pi_mutex p"
  have sS: "s \<in> ?S" "?m \<in> ?S" "s \<noteq> ?m" using s r(4) by (auto simp: pipe_sems_def)
  from ks.post_law [OF r(3) sS(1)] obtain y k' where k': "sem_post s k = Some (0, y, k')" "sems_inv ?S k'"
    "sem_abs ?S k' = sem_step (Post s) (sem_abs ?S k)" by blast
  have y: "y = False" using sem_post_no_yield [OF k'(1) r(7)] by simp
  have o: "outer k' = outer k" by (rule outer_sem_post [OF k'(1)])
  have "fst (sem_abs ?S k') ?m = fst (sem_abs ?S k) ?m" "snd (sem_abs ?S k') ?m = snd (sem_abs ?S k) ?m"
    using k'(3) sS(3) by (auto simp: sem_abs_def split: list.splits)
  then have "sem_value k' ?m = 1" "waiters k' ?m = []" using r(5,6) sS(2) by (simp_all add: sem_abs_def)
  then have "pipe_ready P p k'"
    using r k'(2) timer_outer [OF o] outerD(1) [OF o] by (simp add: pipe_ready_def)
  then show ?thesis using that k'(1) y o by simp
qed

lemma run_step:
  "\<not> returned f \<Longrightarrow> step f k = Some (f', False, k') \<Longrightarrow> run step returned f k = run step returned f' k'"
  by (subst run.simps) simp

lemmas run_read = run_step [where step = read_step and returned = read_returned]
lemmas run_write = run_step [where step = write_step and returned = write_returned]

lemma run_return: "returned f \<Longrightarrow> run step returned f k = Some (f, k)"
  by (subst run.simps) simp

lemma read_one:
  assumes rdy: "pipe_ready P p k" and f: "rf_pipe f = P" "rf_pc f = R_Top" "rf_read_bytes f < rf_bytes f"
    "unat (rf_read_bytes f) < length (rf_buffer f)" and c: "content p = b # cs"
  obtains p' k' where "run read_step read_returned f k =
      run read_step read_returned (f\<lparr>rf_buffer := (rf_buffer f)[unat (rf_read_bytes f) := b],
        rf_read_bytes := rf_read_bytes f + 1\<rparr>) k'"
    "pipe_ready P p' k'" "content p' = cs" "pi_attached_count p' = pi_attached_count p"
    "pipe_sems p' = pipe_sems p" "pipes k' = pipes k" "identities k' = identities k"
proof -
  note r = pipe_readyD [OF rdy]
  let ?p = "p\<lparr>pi_read_idx := NEXT_BUFFER_IDX (pi_read_idx p), pi_data_count := pi_data_count p - 1\<rparr>"
  have "length (content p) \<noteq> 0" using c by simp
  then have d: "pi_data_count p \<noteq> 0" by auto
  have tb: "pipe_ok ?p" "content p = pi_buffer p ! unat (pi_read_idx p) # content ?p"
    by (rule take_byte [OF r(2) d refl])+
  obtain k1 k2 where k: "sem_wait (pi_mutex p) k = Some (0, False, k1)" "pipeobjs k1 P = Some p"
    "sem_post (pi_mutex p) (k1\<lparr>pipeobjs := (pipeobjs k1)(P \<mapsto> ?p)\<rparr>) = Some (0, False, k2)"
    "pipe_ready P ?p k2" "outer k1 = outer k" "pipes k2 = pipes k" "identities k2 = identities k"
    by (rule critical_section [OF rdy, of ?p]) (use tb(1) in \<open>simp_all add: pipe_sems_def\<close>)
  obtain k3 where k3: "sem_post (pi_can_write ?p) k2 = Some (0, False, k3)" "pipe_ready P ?p k3" "outer k3 = outer k2"
    by (rule post_other [OF k(4), of "pi_can_write ?p"]) simp_all
  let ?f1 = "f\<lparr>rf_pc := R_Locked\<rparr>"
  let ?f2 = "f\<lparr>rf_buffer := (rf_buffer f)[unat (rf_read_bytes f) := b], rf_pc := R_Taken\<rparr>"
  let ?f3 = "f\<lparr>rf_buffer := (rf_buffer f)[unat (rf_read_bytes f) := b], rf_read_bytes := rf_read_bytes f + 1\<rparr>"
  have b: "pi_buffer p ! unat (pi_read_idx p) = b" "content ?p = cs" using tb(2) c by simp_all
  have idx: "unat (pi_read_idx p) < length (pi_buffer p)" using r(2) by (simp add: pipe_ok_def)
  have s1: "read_step f k = Some (?f1, False, k1)" using f(1-3) r(1) k(1) by (simp add: read_step_def)
  have s2: "read_step ?f1 k1 = Some (?f2, False, k2)"
    using f(1,4) k(2,3) d idx b by (simp add: read_step_def upd_pipe_def)
  have "pipeobjs k2 P = Some ?p" by (rule pipe_readyD(1) [OF k(4)])
  then have s3: "read_step ?f2 k2 = Some (?f3\<lparr>rf_pc := R_Top\<rparr>, False, k3)"
    using f(1) k3(1) by (simp add: read_step_def)
  have f3: "?f3\<lparr>rf_pc := R_Top\<rparr> = ?f3" using f(2) by (cases f) simp
  have "run read_step read_returned f k = run read_step read_returned ?f3 k3"
    using run_read [OF _ s1] run_read [OF _ s2] run_read [OF _ s3 [unfolded f3]] f(2)
    by (simp add: read_returned_def)
  then show ?thesis
    using that [of k3 ?p] k3(2,3) b(2) k(6,7) outerD(2,16) [OF k3(3)] by (simp add: pipe_sems_def)
qed

lemma write_one:
  assumes rdy: "pipe_ready P p k" and f: "wf_pipe f = P" "wf_pc f = W_Top" "wf_written_bytes f < wf_bytes f"
    "unat (wf_written_bytes f) < length (wf_buffer f)" and c: "length (content p) < 1024"
  obtains p' k' where "run write_step write_returned f k =
      run write_step write_returned (f\<lparr>wf_written_bytes := wf_written_bytes f + 1\<rparr>) k'"
    "pipe_ready P p' k'" "content p' = content p @ [wf_buffer f ! unat (wf_written_bytes f)]"
    "pi_attached_count p' = pi_attached_count p" "pipe_sems p' = pipe_sems p" "pipes k' = pipes k" "identities k' = identities k"
proof -
  note r = pipe_readyD [OF rdy]
  let ?b = "wf_buffer f ! unat (wf_written_bytes f)"
  let ?p = "p\<lparr>pi_buffer := (pi_buffer p)[unat (pi_write_idx p) := ?b],
              pi_write_idx := NEXT_BUFFER_IDX (pi_write_idx p), pi_data_count := pi_data_count p + 1\<rparr>"
  have d: "pi_data_count p \<noteq> PIPE_BUFFER_SIZE" using c by (auto simp: PIPE_BUFFER_SIZE_def)
  have pb: "pipe_ok ?p" "content ?p = content p @ [?b]" by (rule put_byte [OF r(2) d refl])+
  obtain k1 k2 where k: "sem_wait (pi_mutex p) k = Some (0, False, k1)" "pipeobjs k1 P = Some p"
    "sem_post (pi_mutex p) (k1\<lparr>pipeobjs := (pipeobjs k1)(P \<mapsto> ?p)\<rparr>) = Some (0, False, k2)"
    "pipe_ready P ?p k2" "outer k1 = outer k" "pipes k2 = pipes k" "identities k2 = identities k"
    by (rule critical_section [OF rdy, of ?p]) (use pb(1) in \<open>simp_all add: pipe_sems_def\<close>)
  obtain k3 where k3: "sem_post (pi_can_read ?p) k2 = Some (0, False, k3)" "pipe_ready P ?p k3" "outer k3 = outer k2"
    by (rule post_other [OF k(4), of "pi_can_read ?p"]) simp_all
  let ?f1 = "f\<lparr>wf_pc := W_Locked\<rparr>" and ?f2 = "f\<lparr>wf_pc := W_Put\<rparr>"
  let ?f3 = "f\<lparr>wf_written_bytes := wf_written_bytes f + 1\<rparr>"
  have idx: "unat (pi_write_idx p) < length (pi_buffer p)" using r(2) by (simp add: pipe_ok_def)
  have s1: "write_step f k = Some (?f1, False, k1)" using f(1-3) r(1) k(1) by (simp add: write_step_def)
  have s2: "write_step ?f1 k1 = Some (?f2, False, k2)"
    using f(1,4) k(2,3) d idx by (simp add: write_step_def upd_pipe_def)
  have "pipeobjs k2 P = Some ?p" by (rule pipe_readyD(1) [OF k(4)])
  then have s3: "write_step ?f2 k2 = Some (?f3\<lparr>wf_pc := W_Top\<rparr>, False, k3)"
    using f(1) k3(1) by (simp add: write_step_def)
  have f3: "?f3\<lparr>wf_pc := W_Top\<rparr> = ?f3" using f(2) by (cases f) simp
  have "run write_step write_returned f k = run write_step write_returned ?f3 k3"
    using run_write [OF _ s1] run_write [OF _ s2] run_write [OF _ s3 [unfolded f3]] f(2)
    by (simp add: write_returned_def)
  then show ?thesis
    using that [of k3 ?p] k3(2,3) pb(2) k(6,7) outerD(2,16) [OF k3(3)] by (simp add: pipe_sems_def)
qed

lemma read_return:
  assumes "rf_pc f = R_Top" and "\<not> rf_read_bytes f < rf_bytes f" and "pipeobjs k (rf_pipe f) \<noteq> None"
  shows "run read_step read_returned f k = Some (f\<lparr>rf_pc := R_Ret (sint (ucast (rf_read_bytes f) :: 32 word))\<rparr>, k)"
proof -
  have "read_step f k = Some (f\<lparr>rf_pc := R_Ret (sint (ucast (rf_read_bytes f) :: 32 word))\<rparr>, False, k)"
    using assms by (auto simp: read_step_def)
  from run_read [OF _ this] show ?thesis using assms(1) by (simp add: read_returned_def run_return)
qed

lemma write_return:
  assumes "wf_pc f = W_Top" and "\<not> wf_written_bytes f < wf_bytes f" and "pipeobjs k (wf_pipe f) \<noteq> None"
  shows "run write_step write_returned f k = Some (f\<lparr>wf_pc := W_Ret (sint (ucast (wf_written_bytes f) :: 32 word))\<rparr>, k)"
proof -
  have "write_step f k = Some (f\<lparr>wf_pc := W_Ret (sint (ucast (wf_written_bytes f) :: 32 word))\<rparr>, False, k)"
    using assms by (auto simp: write_step_def)
  from run_write [OF _ this] show ?thesis using assms(1) by (simp add: write_returned_def run_return)
qed

lemma unat_inc_less: "(i :: u64) < n \<Longrightarrow> unat (i + 1) = unat i + 1"
proof -
  assume "i < n"
  then have "unat i < unat n" by (simp add: word_less_nat_alt)
  moreover have "unat n < 2 ^ 64" using unsigned_less [of n] by simp
  ultimately show ?thesis by (simp add: unat_word_ariths)
qed

lemma sint_of_nat_small: "m < 2 ^ 31 \<Longrightarrow> sint (of_nat m :: 32 word) = int m"
  by (simp add: signed_of_nat signed_take_bit_int_eq_self)

lemma int_return: "unat (n :: u64) < 2 ^ 31 \<Longrightarrow> sint (ucast n :: 32 word) = int (unat n)"
proof -
  assume lt: "unat n < 2 ^ 31"
  have "(ucast n :: 32 word) = of_nat (unat n)" by simp
  from sint_of_nat_small [OF lt] show ?thesis by (subst \<open>ucast n = of_nat (unat n)\<close>)
qed

text \<open>Reading as many bytes as there are at least, writing as many as there is room for.\<close>

lemma read_some:
  assumes "pipe_ready P p k" and "rf_pipe f = P" and "rf_pc f = R_Top" and "unat (rf_read_bytes f) + n \<le> unat (rf_bytes f)"
    and "unat (rf_bytes f) \<le> length (rf_buffer f)" and "n \<le> length (content p)"
  shows "\<exists>p' k'. run read_step read_returned f k = run read_step read_returned
      (f\<lparr>rf_buffer := take (unat (rf_read_bytes f)) (rf_buffer f) @ take n (content p) @
                        drop (unat (rf_read_bytes f) + n) (rf_buffer f),
          rf_read_bytes := rf_read_bytes f + of_nat n\<rparr>) k' \<and>
    pipe_ready P p' k' \<and> content p' = drop n (content p) \<and> pi_attached_count p' = pi_attached_count p \<and> pipes k' = pipes k \<and>
    identities k' = identities k"
  using assms
proof (induction n arbitrary: f p k)
  case 0
  then show ?case by (cases f) auto
next
  case (Suc n)
  let ?i = "rf_read_bytes f"
  obtain b cs where c: "content p = b # cs" using Suc.prems(6) by (cases "content p") auto
  have lt: "?i < rf_bytes f" using Suc.prems(4) by (simp add: word_less_nat_alt)
  have il: "unat ?i < length (rf_buffer f)" using Suc.prems(4,5) by simp
  obtain p1 k1 where k1: "run read_step read_returned f k =
      run read_step read_returned (f\<lparr>rf_buffer := (rf_buffer f)[unat ?i := b], rf_read_bytes := ?i + 1\<rparr>) k1"
    "pipe_ready P p1 k1" "content p1 = cs" "pi_attached_count p1 = pi_attached_count p" "pipes k1 = pipes k" "identities k1 = identities k"
    by (rule read_one [OF Suc.prems(1-3) lt il c])
  let ?f = "f\<lparr>rf_buffer := (rf_buffer f)[unat ?i := b], rf_read_bytes := ?i + 1\<rparr>"
  have i1: "unat (?i + 1) = unat ?i + 1" by (rule unat_inc_less [OF lt])
  from Suc.IH [OF k1(2), of ?f] obtain p' k' where k': "run read_step read_returned ?f k1 = run read_step read_returned
      (?f\<lparr>rf_buffer := take (unat (rf_read_bytes ?f)) (rf_buffer ?f) @ take n (content p1) @
                         drop (unat (rf_read_bytes ?f) + n) (rf_buffer ?f),
          rf_read_bytes := rf_read_bytes ?f + of_nat n\<rparr>) k'"
    "pipe_ready P p' k'" "content p' = drop n (content p1)" "pi_attached_count p' = pi_attached_count p1" "pipes k' = pipes k1" "identities k' = identities k1"
    using Suc.prems i1 c k1(3) by auto
  have "take (unat ?i + 1) ((rf_buffer f)[unat ?i := b]) = take (unat ?i) (rf_buffer f) @ [b]"
    using il by (simp add: take_Suc_conv_app_nth)
  moreover have "drop (unat ?i + 1 + n) ((rf_buffer f)[unat ?i := b]) = drop (unat ?i + Suc n) (rf_buffer f)"
    by (simp add: drop_update_cancel)
  ultimately show ?case
    using k1 k' i1 c by (intro exI [of _ p'] exI [of _ k']) (simp add: add.assoc)
qed

lemma read_eof:
  assumes rdy: "pipe_ready P p k" and f: "rf_pipe f = P" "rf_pc f = R_Top" "rf_read_bytes f < rf_bytes f"
    and c: "content p = []" and a: "pi_attached_count p \<le> 1"
  shows "\<exists>k'. run read_step read_returned f k = Some (f\<lparr>rf_pc := R_Ret 0\<rparr>, k') \<and> pipe_ready P p k' \<and> pipes k' = pipes k"
proof -
  have "length (content p) = 0" using c by simp
  then have d: "pi_data_count p = 0" by (simp add: unat_eq_zero)
  obtain k1 k2 where k: "sem_wait (pi_mutex p) k = Some (0, False, k1)" "pipeobjs k1 P = Some p"
    "sem_post (pi_mutex p) (k1\<lparr>pipeobjs := (pipeobjs k1)(P \<mapsto> p)\<rparr>) = Some (0, False, k2)"
    "pipe_ready P p k2" "outer k1 = outer k" "pipes k2 = pipes k"
    by (rule critical_section [OF rdy, of p]) (use pipe_readyD(2) [OF rdy] in simp_all)
  have same: "k1\<lparr>pipeobjs := (pipeobjs k1)(P \<mapsto> p)\<rparr> = k1" using pipe_unchanged [OF k(2)] by simp
  have s1: "read_step f k = Some (f\<lparr>rf_pc := R_Locked\<rparr>, False, k1)"
    using f pipe_readyD(1) [OF rdy] k(1) by (simp add: read_step_def)
  have s2: "read_step (f\<lparr>rf_pc := R_Locked\<rparr>) k1 = Some (f\<lparr>rf_pc := R_Ret 0\<rparr>, False, k2)"
    using f(1) k(2,3) d a by (simp add: read_step_def same)
  show ?thesis
    using run_read [OF _ s1] run_read [OF _ s2] f(2) k(4,6) by (simp add: read_returned_def run_return)
qed

lemma write_all:
  assumes "pipe_ready P p k" and "wf_pipe f = P" and "wf_pc f = W_Top" and "unat (wf_written_bytes f) + n = unat (wf_bytes f)"
    and "unat (wf_bytes f) \<le> length (wf_buffer f)" and "length (content p) + n \<le> 1024"
  shows "\<exists>p' k'. run write_step write_returned f k =
      Some (f\<lparr>wf_written_bytes := wf_bytes f, wf_pc := W_Ret (sint (ucast (wf_bytes f) :: 32 word))\<rparr>, k') \<and>
    pipe_ready P p' k' \<and> content p' = content p @ take n (drop (unat (wf_written_bytes f)) (wf_buffer f)) \<and>
    pi_attached_count p' = pi_attached_count p \<and> pipes k' = pipes k \<and> identities k' = identities k"
  using assms
proof (induction n arbitrary: f p k)
  case 0
  then have eq: "wf_written_bytes f = wf_bytes f" by (intro unsigned_word_eqI) simp
  have "run write_step write_returned f k = Some (f\<lparr>wf_pc := W_Ret (sint (ucast (wf_bytes f) :: 32 word))\<rparr>, k)"
    using write_return [of f k] 0(2,3) eq pipe_readyD(1) [OF 0(1)] by simp
  then show ?case using 0(1) eq by (cases f) auto
next
  case (Suc n)
  let ?i = "wf_written_bytes f"
  have lt: "?i < wf_bytes f" using Suc.prems(4) by (simp add: word_less_nat_alt)
  have il: "unat ?i < length (wf_buffer f)" using Suc.prems(4,5) by simp
  have c: "length (content p) < 1024" using Suc.prems(6) by simp
  obtain p1 k1 where k1: "run write_step write_returned f k =
      run write_step write_returned (f\<lparr>wf_written_bytes := ?i + 1\<rparr>) k1"
    "pipe_ready P p1 k1" "content p1 = content p @ [wf_buffer f ! unat ?i]"
    "pi_attached_count p1 = pi_attached_count p" "pipes k1 = pipes k" "identities k1 = identities k"
    by (rule write_one [OF Suc.prems(1-3) lt il c])
  let ?f = "f\<lparr>wf_written_bytes := ?i + 1\<rparr>"
  have i1: "unat (?i + 1) = unat ?i + 1" by (rule unat_inc_less [OF lt])
  have c1: "length (content p1) + n \<le> 1024" unfolding k1(3) using Suc.prems(6) by simp
  from Suc.IH [OF k1(2), of ?f] obtain p' k' where k': "run write_step write_returned ?f k1 =
      Some (?f\<lparr>wf_written_bytes := wf_bytes ?f, wf_pc := W_Ret (sint (ucast (wf_bytes ?f) :: 32 word))\<rparr>, k')"
    "pipe_ready P p' k'" "content p' = content p1 @ take n (drop (unat (wf_written_bytes ?f)) (wf_buffer ?f))"
    "pi_attached_count p' = pi_attached_count p1" "pipes k' = pipes k1" "identities k' = identities k1"
    using Suc.prems i1 c1 by auto
  have "take (Suc n) (drop (unat ?i) (wf_buffer f)) = wf_buffer f ! unat ?i # take n (drop (unat ?i + 1) (wf_buffer f))"
    using il by (simp add: Cons_nth_drop_Suc [symmetric])
  then show ?case using k1 k' i1 by (intro exI [of _ p'] exI [of _ k']) simp
qed

section \<open>Opening a pipe\<close>

definition pipe_part where
  "pipe_part k = (pipeobjs k, pipes k, next_pipe_id k, pipe_sem_name k, pic_master_mask k)"

lemma pipe_part_outer: "outer k' = outer k \<Longrightarrow> pipe_part k' = pipe_part k"
  by (simp add: outer_def pipe_part_def)

lemma pipe_part_upd [simp]:
  "pipe_part (k\<lparr>kmem := m\<rparr>) = pipe_part k" "pipe_part (k\<lparr>sems := ss\<rparr>) = pipe_part k"
  "pipe_part (k\<lparr>strs := st\<rparr>) = pipe_part k" "pipe_part (k\<lparr>registered_semaphores := q\<rparr>) = pipe_part k"
  "pipe_part (k\<lparr>registry_lock := b\<rparr>) = pipe_part k"
  by (simp_all add: pipe_part_def)

lemma pipe_part_sem_init: "sem_init s name c k = Some k' \<Longrightarrow> pipe_part k' = pipe_part k"
  by (auto simp: sem_init_def ensure_registry_def lock_registry_def unlock_registry_def
      dest!: frame_facts pipe_part_outer split: option.splits if_splits)

lemma names_inv_cong:
  assumes names: "names_inv S k" and same: "registered_semaphores k' = registered_semaphores k"
    "registry_lock k' = registry_lock k" "sch_ready_queues k' = sch_ready_queues k" "dom (queues k) \<subseteq> dom (queues k')"
    "qelems k' = qelems k" "strs k' = strs k" and s: "\<forall>s\<in>S \<union> set (registry k). sems k' s = sems k s"
  shows "names_inv S k'" and "registry k' = registry k"
proof -
  show reg: "registry k' = registry k" using same by (simp add: registry_def)
  have "sem_named k' x = sem_named k x" if "x \<in> set (registry k)" for x
    using s same(6) that by (simp add: sem_named_def fun_eq_iff)
  moreover have "sem_queue k' ` S = sem_queue k ` S" using s by (auto simp: sem_queue_def image_iff)
  ultimately show "names_inv S k'"
    using names same reg unfolding names_inv_def registry_inv_def by auto
qed

text \<open>
  Creating one semaphore of a pipe, with its pointer stored in the pipe in between.
\<close>

lemma pipe_sem_spare:
  assumes inv: "sems_inv S k" and names: "names_inv S k" and P: "pipeobjs k P = Some p"
    and nm: "0 \<in> set (pipe_sem_name k)" "length (cstr (pipe_sem_name k)) \<le> 1000"
    and sp: "spare (Suc (Suc (Suc (Suc (Suc n))))) (kmem k)"
  obtains s k1 k2 where "sem_create k = Some (s, k1)" "s \<noteq> NULL" "s \<notin> S"
    "sem_init s (Some (pipe_sem_name k)) c (k1\<lparr>pipeobjs := (pipeobjs k)(P \<mapsto> g s p)\<rparr>) = Some k2"
    "pipeobjs k1 = pipeobjs k" "pipe_sem_name k1 = pipe_sem_name k"
    "sems_inv (insert s S) k2" "names_inv (insert s S) k2" "sem_value k2 s = c" "waiters k2 s = []"
    "sem_abs S k2 = sem_abs S k" "spare n (kmem k2)" "procs k2 = procs k"
    "pipe_part k2 = pipe_part (k\<lparr>pipeobjs := (pipeobjs k)(P \<mapsto> g s p)\<rparr>)"
proof -
  obtain s k1 where k1: "sem_create k = Some (s, k1)" "s \<noteq> NULL" "objects_at k s = 0" "sems_inv S k1"
    "sem_abs S k1 = sem_abs S k" "sems k1 s \<noteq> None" "spare (Suc (Suc (Suc (Suc n)))) (kmem k1)"
    "k1 = k\<lparr>kmem := kmem k1, sems := sems k1\<rparr>" "\<forall>s'. s' \<noteq> s \<longrightarrow> sems k1 s' = sems k s'"
    by (rule sem_create_spare [OF inv sp])
  have f1: "pipeobjs k1 = pipeobjs k" "pipe_sem_name k1 = pipe_sem_name k" "registered_semaphores k1 = registered_semaphores k"
    "registry_lock k1 = registry_lock k" "sch_ready_queues k1 = sch_ready_queues k" "dom (queues k1) = dom (queues k)"
    "qelems k1 = qelems k" "strs k1 = strs k" "procs k1 = procs k" "pipe_part k1 = pipe_part k"
    by (subst k1(8), simp)+
  have sn: "sems k s = None" using k1(3) by (auto simp: objects_at_def of_bool_def split: if_splits)
  have sS: "s \<notin> S" using sems_inv_lines(1) [OF inv, of s] sn by auto
  have sR: "s \<notin> set (registry k)"
  proof
    assume "s \<in> set (registry k)"
    then obtain m where "sem_named k s m" using names by (auto simp: names_inv_def registry_inv_def)
    then show False using sn by (simp add: sem_named_def)
  qed
  let ?k = "k1\<lparr>pipeobjs := (pipeobjs k)(P \<mapsto> g s p)\<rparr>"
  have inv1: "sems_inv S ?k" "sem_abs S ?k = sem_abs S k"
    using sems_inv_pipe [OF k1(4), of P "g s p"] P f1(1) k1(5) by simp_all
  have n1: "names_inv S ?k" "registry ?k = registry k"
    by (rule names_inv_cong [OF names]; use f1 k1(9) sS sR in auto)+
  obtain r where r: "sems ?k s = Some r" using k1(6) by auto
  have sR1: "s \<notin> set (registry ?k)" using sR n1(2) by simp
  have spk: "spare (Suc (Suc (Suc (Suc n)))) (kmem ?k)" using k1(7) by simp
  obtain k2 where k2: "sem_init s (Some (pipe_sem_name k)) c ?k = Some k2" "sems_inv (insert s S) k2" "names_inv (insert s S) k2"
    "sem_value k2 s = c" "waiters k2 s = []" "sem_abs S k2 = sem_abs S ?k" "spare n (kmem k2)" "procs k2 = procs ?k"
    by (rule sem_init_spare [OF inv1(1) n1(1) r sS sR1 nm spk, of c])
  have "pipe_part k2 = pipe_part ?k" by (rule pipe_part_sem_init [OF k2(1)])
  then have "pipe_part k2 = pipe_part (k\<lparr>pipeobjs := (pipeobjs k)(P \<mapsto> g s p)\<rparr>)"
    using f1(10) by (simp add: pipe_part_def)
  then show ?thesis using that [OF k1(1,2) sS k2(1)] f1(1,2,9) k2 inv1(2) by simp
qed

lemma sems_inv_subset: "sems_inv S k \<Longrightarrow> T \<subseteq> S \<Longrightarrow> sems_inv T k"
  unfolding sems_inv_def by (meson subsetD)

lemma sem_abs_at:
  assumes "sem_abs S k' = sem_abs S k" and "s \<in> S"
  shows "sem_value k' s = sem_value k s \<and> waiters k' s = waiters k s"
proof -
  have "fst (sem_abs S k') s = fst (sem_abs S k) s" "snd (sem_abs S k') s = snd (sem_abs S k) s" using assms(1) by simp_all
  then show ?thesis using assms(2) by (simp add: sem_abs_def)
qed

lemma sem_abs_subset:
  assumes "sem_abs S k' = sem_abs S k" and "T \<subseteq> S"
  shows "sem_abs T k' = sem_abs T k"
  using sem_abs_at [OF assms(1)] assms(2) by (auto simp: sem_abs_def fun_eq_iff)

lemma sem_name_static:
  assumes "sems_inv S k" and "names_inv S k"
  shows "sems_inv S (k\<lparr>pipe_sem_name := bs\<rparr>)" and "names_inv S (k\<lparr>pipe_sem_name := bs\<rparr>)"
    and "sem_abs S (k\<lparr>pipe_sem_name := bs\<rparr>) = sem_abs S k"
proof -
  have q: "queue_inv (k\<lparr>pipe_sem_name := bs\<rparr>)" using sems_invD(3) [OF assms(1)] by simp
  show "sems_inv S (k\<lparr>pipe_sem_name := bs\<rparr>)" and "sem_abs S (k\<lparr>pipe_sem_name := bs\<rparr>) = sem_abs S k"
    by (rule sems_inv_cong [OF assms(1) q]; simp)+
  show "names_inv S (k\<lparr>pipe_sem_name := bs\<rparr>)" by (rule names_inv_cong [OF assms(2)]) simp_all
qed

text \<open>What holds while the three semaphores are being created.\<close>

definition building :: "addr set \<Rightarrow> addr \<Rightarrow> pipe \<Rightarrow> nat \<Rightarrow> kernel \<Rightarrow> bool" where
  "building S P p n k \<longleftrightarrow> sems_inv S k \<and> names_inv S k \<and> pipeobjs k P = Some p \<and>
     length (pipe_sem_name k) = 9 \<and> pipe_sem_name k ! 8 = 0 \<and> spare n (kmem k)"

lemma building_sem:
  assumes b: "building S P p (Suc (Suc (Suc (Suc (Suc n))))) k"
  obtains s k1 k2 where "sem_create (set_sem_name_kind c k) = Some (s, k1)" "s \<noteq> NULL" "s \<notin> S"
    "upd_pipe P (g s) k1 = Some (k1\<lparr>pipeobjs := (pipeobjs k)(P \<mapsto> g s p)\<rparr>)"
    "sem_init s (Some (pipe_sem_name k1)) v (k1\<lparr>pipeobjs := (pipeobjs k)(P \<mapsto> g s p)\<rparr>) = Some k2"
    "building (insert s S) P (g s p) n k2" "sem_value k2 s = v" "waiters k2 s = []" "sem_abs S k2 = sem_abs S k"
    "procs k2 = procs k" "pipes k2 = pipes k" "next_pipe_id k2 = next_pipe_id k" "pic_master_mask k2 = pic_master_mask k"
    "pipeobjs k2 = (pipeobjs k)(P \<mapsto> g s p)"
proof -
  let ?k = "set_sem_name_kind c k"
  have k: "sems_inv S k" "names_inv S k" "pipeobjs k P = Some p" "length (pipe_sem_name k) = 9" "pipe_sem_name k ! 8 = 0"
    "spare (Suc (Suc (Suc (Suc (Suc n))))) (kmem k)" using b by (simp_all add: building_def)
  have k': "sems_inv S ?k" "names_inv S ?k" "sem_abs S ?k = sem_abs S k" "pipeobjs ?k P = Some p"
    using sem_name_static [OF k(1,2)] k(3) by (simp_all add: set_sem_name_kind_def)
  have nm: "length (pipe_sem_name ?k) = 9" "pipe_sem_name ?k ! 8 = 0" using k(4,5) by (simp_all add: set_sem_name_kind_def)
  then have z: "0 \<in> set (pipe_sem_name ?k)" using nth_mem [of 8 "pipe_sem_name ?k"] by simp
  have le: "length (cstr (pipe_sem_name ?k)) \<le> 1000"
    using length_takeWhile_le [of "\<lambda>c. c \<noteq> 0" "pipe_sem_name ?k"] nm(1) by (simp add: cstr_def)
  have sp: "spare (Suc (Suc (Suc (Suc (Suc n))))) (kmem ?k)" using k(6) by (simp add: set_sem_name_kind_def)
  obtain s k1 k2 where s: "sem_create ?k = Some (s, k1)" "s \<noteq> NULL" "s \<notin> S"
    "sem_init s (Some (pipe_sem_name ?k)) v (k1\<lparr>pipeobjs := (pipeobjs ?k)(P \<mapsto> g s p)\<rparr>) = Some k2"
    "pipeobjs k1 = pipeobjs ?k" "pipe_sem_name k1 = pipe_sem_name ?k"
    "sems_inv (insert s S) k2" "names_inv (insert s S) k2" "sem_value k2 s = v" "waiters k2 s = []"
    "sem_abs S k2 = sem_abs S ?k" "spare n (kmem k2)" "procs k2 = procs ?k"
    "pipe_part k2 = pipe_part (?k\<lparr>pipeobjs := (pipeobjs ?k)(P \<mapsto> g s p)\<rparr>)"
    by (rule pipe_sem_spare [OF k'(1,2,4) z le sp, of v g])
  have po: "pipeobjs ?k = pipeobjs k" "procs ?k = procs k" "pipes ?k = pipes k" "next_pipe_id ?k = next_pipe_id k"
    "pic_master_mask ?k = pic_master_mask k" by (simp_all add: set_sem_name_kind_def)
  have pp: "pipeobjs k2 P = Some (g s p)" "pipes k2 = pipes k" "next_pipe_id k2 = next_pipe_id k"
    "pic_master_mask k2 = pic_master_mask k" "pipe_sem_name k2 = pipe_sem_name ?k" "pipeobjs k2 = (pipeobjs k)(P \<mapsto> g s p)"
    using s(14) po by (simp_all add: pipe_part_def)
  have up: "upd_pipe P (g s) k1 = Some (k1\<lparr>pipeobjs := (pipeobjs k)(P \<mapsto> g s p)\<rparr>)"
    using s(5) po(1) k(3) by (simp add: upd_pipe_def)
  have "building (insert s S) P (g s p) n k2" using s(7,8,12) pp nm by (simp add: building_def)
  then show ?thesis using that [OF s(1-3) up] s po pp k'(3) by simp
qed

lemma new_pipe:
  assumes inv: "sems_inv S k" and names: "names_inv S k" and nm: "length (pipe_sem_name k) = 9" "pipe_sem_name k ! 8 = 0"
    and sp: "spare (Suc n) (kmem k)"
  obtains P m where "kalloc PIPE_SIZE k = Some (P, k\<lparr>kmem := m\<rparr>)" "P \<noteq> NULL"
    "building S P p n (set_sem_name_number (k\<lparr>kmem := m, pipeobjs := (pipeobjs k)(P \<mapsto> p)\<rparr>))"
    "sem_abs S (set_sem_name_number (k\<lparr>kmem := m, pipeobjs := (pipeobjs k)(P \<mapsto> p)\<rparr>)) = sem_abs S k"
proof -
  note q = sems_invD(3) [OF inv]
  obtain P m where m: "kalloc PIPE_SIZE k = Some (P, k\<lparr>kmem := m\<rparr>)" "P \<noteq> NULL" "objects_at k P = 0" "buddy_inv m"
    "bud.live m = insert P (bud.live (kmem k))" "spare n m"
    by (rule kalloc_new [OF queue_inv_heap [OF q] sp, of PIPE_SIZE]) (simp_all add: PIPE_SIZE_def)
  let ?k1 = "k\<lparr>kmem := m, pipeobjs := (pipeobjs k)(P \<mapsto> p)\<rparr>"
  have q': "queue_inv ?k1"
    by (rule queue_inv_cong(1) [OF q]) (use heap_ok_new(3) [OF queue_inv_heap [OF q] m(3-5), where pp = p] in simp_all)
  have i1: "sems_inv S ?k1" "sem_abs S ?k1 = sem_abs S k" by (rule sems_inv_cong [OF inv q']; simp)+
  have n1: "names_inv S ?k1" by (rule names_inv_cong [OF names]) simp_all
  have "building S P p n (set_sem_name_number ?k1)" "sem_abs S (set_sem_name_number ?k1) = sem_abs S k"
    using sem_name_static [OF i1(1) n1] i1(2) m(6) nm by (simp_all add: building_def set_sem_name_number_def)
  then show ?thesis by (rule that [OF m(1,2)])
qed

text \<open>
  \<open>create_pipe\<close> with enough memory: an empty pipe at rest, with three new semaphores.
\<close>

lemma create_pipe_spare:
  assumes inv: "sems_inv S k" and names: "names_inv S k" and nm: "length (pipe_sem_name k) = 9" "pipe_sem_name k ! 8 = 0"
    and timer: "\<not> timer_tick_is_disabled k"
    and sp: "spare (Suc (Suc (Suc (Suc (Suc (Suc (Suc (Suc (Suc (Suc (Suc (Suc (Suc (Suc (Suc (Suc n)))))))))))))))) (kmem k)"
  obtains P p k' where "create_pipe k = Some (P, k')" "P \<noteq> NULL" "pipe_ready P p k'" "content p = []"
    "pi_attached_count p = 0" "pi_id p = next_pipe_id k" "pipes k' = pipes k" "next_pipe_id k' = next_pipe_id k"
    "sem_abs S k' = sem_abs S k" "sems_inv (S \<union> pipe_sems p) k'" "procs k' = procs k"
    "pipeobjs k' = (pipeobjs k)(P \<mapsto> p)" "spare n (kmem k')"
proof -
  define p0 where "p0 = \<lparr>pi_id = next_pipe_id k, pi_buffer = replicate (unat PIPE_BUFFER_SIZE) 0, pi_read_idx = 0,
               pi_write_idx = 0, pi_data_count = 0, pi_can_read = NULL, pi_can_write = NULL, pi_mutex = NULL,
               pi_attached_count = 0, pi_waiting_readers = 0, pi_waiting_writers = 0\<rparr>"
  let ?n3 = "Suc (Suc (Suc (Suc (Suc n))))" let ?n2 = "Suc (Suc (Suc (Suc (Suc ?n3))))"
  let ?n1 = "Suc (Suc (Suc (Suc (Suc ?n2))))"
  obtain P m where m: "kalloc PIPE_SIZE k = Some (P, k\<lparr>kmem := m\<rparr>)" "P \<noteq> NULL"
    "building S P p0 ?n1 (set_sem_name_number (k\<lparr>kmem := m, pipeobjs := (pipeobjs k)(P \<mapsto> p0)\<rparr>))" (is "building _ _ _ _ ?k0")
    "sem_abs S (set_sem_name_number (k\<lparr>kmem := m, pipeobjs := (pipeobjs k)(P \<mapsto> p0)\<rparr>)) = sem_abs S k"
    by (rule new_pipe [OF inv names nm sp])
  obtain s1 k1 k2 where s1: "sem_create (set_sem_name_kind 82 ?k0) = Some (s1, k1)" "s1 \<noteq> NULL" "s1 \<notin> S"
    "upd_pipe P (\<lambda>p. p\<lparr>pi_can_read := s1\<rparr>) k1 = Some (k1\<lparr>pipeobjs := (pipeobjs ?k0)(P \<mapsto> p0\<lparr>pi_can_read := s1\<rparr>)\<rparr>)"
    "sem_init s1 (Some (pipe_sem_name k1)) 0 (k1\<lparr>pipeobjs := (pipeobjs ?k0)(P \<mapsto> p0\<lparr>pi_can_read := s1\<rparr>)\<rparr>) = Some k2"
    "building (insert s1 S) P (p0\<lparr>pi_can_read := s1\<rparr>) ?n2 k2" "sem_abs S k2 = sem_abs S ?k0"
    "procs k2 = procs ?k0" "pipes k2 = pipes ?k0" "next_pipe_id k2 = next_pipe_id ?k0" "pic_master_mask k2 = pic_master_mask ?k0"
    "pipeobjs k2 = (pipeobjs ?k0)(P \<mapsto> p0\<lparr>pi_can_read := s1\<rparr>)"
    by (rule building_sem [OF m(3), of 82 "\<lambda>s p. p\<lparr>pi_can_read := s\<rparr>" 0])
  let ?p1 = "p0\<lparr>pi_can_read := s1\<rparr>"
  obtain s2 k3 k4 where s2: "sem_create (set_sem_name_kind 87 k2) = Some (s2, k3)" "s2 \<noteq> NULL" "s2 \<notin> insert s1 S"
    "upd_pipe P (\<lambda>p. p\<lparr>pi_can_write := s2\<rparr>) k3 = Some (k3\<lparr>pipeobjs := (pipeobjs k2)(P \<mapsto> ?p1\<lparr>pi_can_write := s2\<rparr>)\<rparr>)"
    "sem_init s2 (Some (pipe_sem_name k3)) 0 (k3\<lparr>pipeobjs := (pipeobjs k2)(P \<mapsto> ?p1\<lparr>pi_can_write := s2\<rparr>)\<rparr>) = Some k4"
    "building (insert s2 (insert s1 S)) P (?p1\<lparr>pi_can_write := s2\<rparr>) ?n3 k4" "sem_abs (insert s1 S) k4 = sem_abs (insert s1 S) k2"
    "procs k4 = procs k2" "pipes k4 = pipes k2" "next_pipe_id k4 = next_pipe_id k2" "pic_master_mask k4 = pic_master_mask k2"
    "pipeobjs k4 = (pipeobjs k2)(P \<mapsto> ?p1\<lparr>pi_can_write := s2\<rparr>)"
    by (rule building_sem [OF s1(6), of 87 "\<lambda>s p. p\<lparr>pi_can_write := s\<rparr>" 0])
  let ?p2 = "?p1\<lparr>pi_can_write := s2\<rparr>"
  obtain s3 k5 k6 where s3: "sem_create (set_sem_name_kind 77 k4) = Some (s3, k5)" "s3 \<noteq> NULL" "s3 \<notin> insert s2 (insert s1 S)"
    "upd_pipe P (\<lambda>p. p\<lparr>pi_mutex := s3\<rparr>) k5 = Some (k5\<lparr>pipeobjs := (pipeobjs k4)(P \<mapsto> ?p2\<lparr>pi_mutex := s3\<rparr>)\<rparr>)"
    "sem_init s3 (Some (pipe_sem_name k5)) 1 (k5\<lparr>pipeobjs := (pipeobjs k4)(P \<mapsto> ?p2\<lparr>pi_mutex := s3\<rparr>)\<rparr>) = Some k6"
    "building (insert s3 (insert s2 (insert s1 S))) P (?p2\<lparr>pi_mutex := s3\<rparr>) n k6" "sem_value k6 s3 = 1" "waiters k6 s3 = []"
    "sem_abs (insert s2 (insert s1 S)) k6 = sem_abs (insert s2 (insert s1 S)) k4"
    "procs k6 = procs k4" "pipes k6 = pipes k4" "next_pipe_id k6 = next_pipe_id k4" "pic_master_mask k6 = pic_master_mask k4"
    "pipeobjs k6 = (pipeobjs k4)(P \<mapsto> ?p2\<lparr>pi_mutex := s3\<rparr>)"
    by (rule building_sem [OF s2(6), of 77 "\<lambda>s p. p\<lparr>pi_mutex := s\<rparr>" 1])
  let ?p = "?p2\<lparr>pi_mutex := s3\<rparr>"
  have cr: "create_pipe k = Some (P, k6)"
    using m(1,2) s1(1,2,4,5) s2(1,2,4,5) s3(1,2,4,5) unfolding create_pipe_def p0_def by simp
  have k0: "procs ?k0 = procs k" "pipes ?k0 = pipes k" "next_pipe_id ?k0 = next_pipe_id k" "pic_master_mask ?k0 = pic_master_mask k"
    by (simp_all add: set_sem_name_number_def)
  have ps: "pipe_sems ?p = {s1, s2, s3}" by (simp add: pipe_sems_def)
  have all: "sems_inv (S \<union> pipe_sems ?p) k6" using s3(6) unfolding ps by (simp add: building_def insert_commute)
  have abs: "sem_abs S k6 = sem_abs S k"
    using sem_abs_subset [OF s3(9)] sem_abs_subset [OF s2(7)] s1(7) m(4) by (metis subset_insertI2 subset_insertI)
  have tm: "\<not> timer_tick_is_disabled k6"
    using timer s1(11) s2(11) s3(13) k0(4) by (simp add: timer_tick_is_disabled_def)
  have "pipe_ok ?p" by (simp add: pipe_ok_def p0_def PIPE_BUFFER_SIZE_def)
  moreover have "sems_inv (pipe_sems ?p) k6" by (rule sems_inv_subset [OF all]) simp
  ultimately have "pipe_ready P ?p k6"
    using s3(3,6-8) s2(3) tm by (simp add: pipe_ready_def building_def)
  moreover have "content ?p = []" "pi_attached_count ?p = 0" "pi_id ?p = next_pipe_id k" by (simp_all add: content_def p0_def)
  moreover have "pipeobjs k6 = (pipeobjs k)(P \<mapsto> ?p)"
    using s1(12) s2(12) s3(14) by (simp add: set_sem_name_number_def)
  moreover have "spare n (kmem k6)" using s3(6) by (simp add: building_def)
  ultimately show ?thesis
    using that [OF cr m(2)] all abs s1(8-10) s2(8-10) s3(10-12) k0 by simp
qed

text \<open>The first pipe of a kernel that has just been started.\<close>

lemma boot_pipe:
  obtains k0 k P p where "init_ready_queues [0..<6] boot_kernel = Some k0" "open_pipe (init_pipes k0) = Some (0, k)"
    "pipe_ready P p k" "content p = []" "pi_attached_count p = 0" "pipe_at 0 k = P" "P \<noteq> NULL"
    "pipeobjs k = [P \<mapsto> p]" "spare 10 (kmem k)" "pipes k ! 0 = P" "length (pipes k) = 100" "procs k = Map.empty"
proof -
  obtain k0 where k0: "init_ready_queues [0..<6] boot_kernel = Some k0" "sched_inv k0" "spare 26 (kmem k0)"
    "procs k0 = Map.empty" by (rule boot_ready)
  have st: "registered_semaphores k0 = NULL" "registry_lock k0 = 0" "pipes k0 = replicate 100 NULL" "next_pipe_id k0 = 0"
    "pipeobjs k0 = Map.empty" "pic_master_mask k0 = 0xFC"
    using init_ready_queues_static [OF k0(1)] by (simp_all add: boot_kernel_def bss_kernel_def)
  have i0: "sems_inv {} k0" "names_inv {} k0"
    using k0(2) st by (simp_all add: sems_inv_def names_inv_def registry_inv_def registry_def)
  let ?k = "init_pipes k0"
  have i: "sems_inv {} ?k" "names_inv {} ?k" using sem_name_static [OF i0] by (simp_all add: init_pipes_def)
  have nm: "length (pipe_sem_name ?k) = 9" "pipe_sem_name ?k ! 8 = 0" by (simp_all add: init_pipes_def)
  have tm: "\<not> timer_tick_is_disabled ?k" using st(6) by (simp add: init_pipes_def timer_tick_is_disabled_def)
  have sp: "spare (Suc (Suc (Suc (Suc (Suc (Suc (Suc (Suc (Suc (Suc (Suc (Suc (Suc (Suc (Suc (Suc 10)))))))))))))))) (kmem ?k)"
    using k0(3) by (simp add: init_pipes_def)
  obtain P p k' where k': "create_pipe ?k = Some (P, k')" "P \<noteq> NULL" "pipe_ready P p k'" "content p = []"
    "pi_attached_count p = 0" "pipes k' = pipes ?k" "next_pipe_id k' = next_pipe_id ?k" "pipeobjs k' = (pipeobjs ?k)(P \<mapsto> p)"
    "spare 10 (kmem k')" "procs k' = procs ?k"
    by (rule create_pipe_spare [OF i nm tm sp])
  let ?k' = "k'\<lparr>pipes := (pipes k')[0 := P], next_pipe_id := 1\<rparr>"
  have op: "open_pipe ?k = Some (0, ?k')"
    using k'(1,2,7) st by (simp add: open_pipe_def MAX_PIPES_def init_pipes_def)
  have q: "queue_inv ?k'" using sems_invD(3) [of "pipe_sems p" k'] k'(3) by (simp add: pipe_ready_def)
  have same: "procs ?k' = procs k'" "sch_ready_queues ?k' = sch_ready_queues k'" "sch_current ?k' = sch_current k'"
    "sch_idle ?k' = sch_idle k'" "dom (queues k') \<subseteq> dom (queues ?k')"
    "\<forall>x\<in>dom (queues k'). x \<in> set (sch_ready_queues k') \<or> x \<in> sem_queue k' ` pipe_sems p \<longrightarrow> qelems ?k' x = qelems k' x"
    "\<forall>s\<in>pipe_sems p. sems ?k' s = sems k' s" by simp_all
  have "sems_inv (pipe_sems p) ?k'"
    by (rule sems_inv_cong(1) [OF pipe_readyD(3) [OF k'(3)] q same])
  then have "pipe_ready P p ?k'"
    using k'(3) by (simp add: pipe_ready_def timer_tick_is_disabled_def sem_value_def sem_queue_def)
  then show ?thesis
    using that [OF k0(1) op] k'(2,4-6,8-10) st k0(4) by (simp add: pipe_at_def init_pipes_def)
qed

text \<open>One byte written to a pipe at rest, and one read from it, as two steps of a trace each.\<close>

lemma put_trace:
  assumes rdy: "pipe_ready P p k" and c: "length (content p) < 1024"
  obtains p' k' where "pipe_ready P p' k'" "content p' = content p @ [b]"
    "\<forall>w r k''. pipe_trace P k' w r k'' \<longrightarrow> pipe_trace P k (b # w) r k''"
proof -
  note r = pipe_readyD [OF rdy]
  let ?p = "p\<lparr>pi_buffer := (pi_buffer p)[unat (pi_write_idx p) := b],
              pi_write_idx := NEXT_BUFFER_IDX (pi_write_idx p), pi_data_count := pi_data_count p + 1\<rparr>"
  have d: "pi_data_count p \<noteq> PIPE_BUFFER_SIZE" using c by (auto simp: PIPE_BUFFER_SIZE_def)
  have pb: "pipe_ok ?p" "content ?p = content p @ [b]" by (rule put_byte [OF r(2) d refl])+
  obtain k1 k2 where k: "sem_wait (pi_mutex p) k = Some (0, False, k1)" "pipeobjs k1 P = Some p"
    "sem_post (pi_mutex p) (k1\<lparr>pipeobjs := (pipeobjs k1)(P \<mapsto> ?p)\<rparr>) = Some (0, False, k2)"
    "pipe_ready P ?p k2"
    by (rule critical_section [OF rdy, of ?p]) (use pb(1) in \<open>simp_all add: pipe_sems_def\<close>)
  let ?f = "\<lparr>wf_pipe = P, wf_buffer = [b], wf_bytes = 1, wf_written_bytes = 0, wf_pc = W_Top\<rparr>"
  have idx: "unat (pi_write_idx p) < length (pi_buffer p)" using r(2) by (simp add: pipe_ok_def)
  have s1: "write_step ?f k = Some (?f\<lparr>wf_pc := W_Locked\<rparr>, False, k1)" using r(1) k(1) by (simp add: write_step_def)
  have s2: "write_step (?f\<lparr>wf_pc := W_Locked\<rparr>) k1 = Some (?f\<lparr>wf_pc := W_Put\<rparr>, False, k2)"
    using k(2,3) d idx by (simp add: write_step_def upd_pipe_def)
  have "pipe_trace P k (b # w) r k''" if "pipe_trace P k2 w r k''" for w r k''
    using trace_write [OF s1 trace_write [OF s2 that]] by (simp add: write_event_def)
  then show ?thesis using that [OF k(4) pb(2)] by blast
qed

lemma take_trace:
  assumes rdy: "pipe_ready P p k" and c: "content p = b # cs"
  obtains p' k' where "pipe_ready P p' k'" "content p' = cs"
    "\<forall>w r k''. pipe_trace P k' w r k'' \<longrightarrow> pipe_trace P k w (b # r) k''"
proof -
  note r = pipe_readyD [OF rdy]
  let ?p = "p\<lparr>pi_read_idx := NEXT_BUFFER_IDX (pi_read_idx p), pi_data_count := pi_data_count p - 1\<rparr>"
  have "length (content p) \<noteq> 0" using c by simp
  then have d: "pi_data_count p \<noteq> 0" by auto
  have tb: "pipe_ok ?p" "content p = pi_buffer p ! unat (pi_read_idx p) # content ?p"
    by (rule take_byte [OF r(2) d refl])+
  obtain k1 k2 where k: "sem_wait (pi_mutex p) k = Some (0, False, k1)" "pipeobjs k1 P = Some p"
    "sem_post (pi_mutex p) (k1\<lparr>pipeobjs := (pipeobjs k1)(P \<mapsto> ?p)\<rparr>) = Some (0, False, k2)"
    "pipe_ready P ?p k2"
    by (rule critical_section [OF rdy, of ?p]) (use tb(1) in \<open>simp_all add: pipe_sems_def\<close>)
  let ?f = "\<lparr>rf_pipe = P, rf_buffer = [0], rf_bytes = 1, rf_read_bytes = 0, rf_pc = R_Top\<rparr>"
  have b: "pi_buffer p ! unat (pi_read_idx p) = b" "content ?p = cs" using tb(2) c by simp_all
  have idx: "unat (pi_read_idx p) < length (pi_buffer p)" using r(2) by (simp add: pipe_ok_def)
  have s1: "read_step ?f k = Some (?f\<lparr>rf_pc := R_Locked\<rparr>, False, k1)" using r(1) k(1) by (simp add: read_step_def)
  have s2: "read_step (?f\<lparr>rf_pc := R_Locked\<rparr>) k1 = Some (?f\<lparr>rf_buffer := [b], rf_pc := R_Taken\<rparr>, False, k2)"
    using k(2,3) d idx b(1) by (simp add: read_step_def upd_pipe_def)
  have "pipe_trace P k w (b # r) k''" if "pipe_trace P k2 w r k''" for w r k''
    using trace_read [OF s1 trace_read [OF s2 that]] by (simp add: read_event_def)
  then show ?thesis using that [OF k(4) b(2)] by blast
qed

section \<open>Properties\<close>

text \<open>
  C19. The bytes of a pipe come out in the order they went in: in every interleaving of steps
  of readers and writers of all pipes with scheduler ticks, what was in the pipe followed by
  what was written to it is what was read from it followed by what is in it now. The ring
  buffer stays within its bounds.
\<close>

theorem pipe_is_fifo:
  assumes "pipe_trace P k w r k'" and "all_pipes_ok k" and "pipeobjs k P = Some p"
  shows "\<exists>p'. pipeobjs k' P = Some p' \<and> pipe_ok p' \<and> all_pipes_ok k' \<and> content p @ w = r @ content p'"
  using trace_fifo [OF assms] by (auto simp: all_pipes_ok_def)

theorem pipe_is_fifo_witness:
  "\<exists>P k p k' p'. pipe_trace P k [7, 8] [7] k' \<and> all_pipes_ok k \<and> pipeobjs k P = Some p \<and> content p = [] \<and>
     pipeobjs k' P = Some p' \<and> content p' = [8]"
proof -
  obtain k P p where k: "pipe_ready P p k" "content p = []" "pipeobjs k = [P \<mapsto> p]" by (rule boot_pipe)
  have ok: "all_pipes_ok k" using pipe_readyD(2) [OF k(1)] k(3) by (simp add: all_pipes_ok_def)
  obtain p1 k1 where k1: "pipe_ready P p1 k1" "content p1 = [7]"
    "\<forall>w r k''. pipe_trace P k1 w r k'' \<longrightarrow> pipe_trace P k (7 # w) r k''"
    by (rule put_trace [OF k(1), of 7]) (use k(2) in simp_all)
  obtain p2 k2 where k2: "pipe_ready P p2 k2" "content p2 = [7, 8]"
    "\<forall>w r k''. pipe_trace P k2 w r k'' \<longrightarrow> pipe_trace P k1 (8 # w) r k''"
    by (rule put_trace [OF k1(1), of 8]) (use k1(2) in simp_all)
  obtain p3 k3 where k3: "\<forall>w r k''. pipe_trace P k3 w r k'' \<longrightarrow> pipe_trace P k2 w (7 # r) k''"
    by (rule take_trace [OF k2(1,2)])
  have tr: "pipe_trace P k [7, 8] [7] k3" using k1(3) k2(3) k3 trace_nil [of P k3] by blast
  from pipe_is_fifo [OF tr ok pipe_readyD(1) [OF k(1)]] obtain p' where
    p': "pipeobjs k3 P = Some p'" "content p @ [7, 8] = [7] @ content p'" by blast
  have "content p' = [8]" using p'(2) k(2) by simp
  then show ?thesis using tr ok pipe_readyD(1) [OF k(1)] k(2) p'(1) by blast
qed

text \<open>
  C20. Writing and reading back: a write that finds room returns the number of bytes without
  giving up the processor, and a read of as many bytes from a pipe that was empty returns
  the same bytes and leaves it empty again.
\<close>

theorem pipe_write_then_read:
  assumes "pipe_ready P p k" and "content p = []" and "pipe_at ident k = P" and "P \<noteq> NULL" and "ident < 100"
    and "0 < length bs" and "length bs \<le> 1024" and "length buf = length bs" and "n = of_nat (length bs)"
  shows "\<exists>wf k1 rf k2 p'. write_pipe ident (Some bs) n k = Some (Inr wf, k1) \<and> wf_pc wf = W_Ret (int (length bs)) \<and>
    read_pipe ident (Some buf) n k1 = Some (Inr rf, k2) \<and> rf_pc rf = R_Ret (int (length bs)) \<and> rf_buffer rf = bs \<and>
    pipe_ready P p' k2 \<and> content p' = []"
proof -
  have n: "unat n = length bs" using assms(7,9) by (simp add: unat_of_nat)
  have n0: "n \<noteq> 0" using n assms(6) by auto
  have ret: "sint (ucast n :: 32 word) = int (length bs)" using int_return [of n] n assms(7) by simp
  let ?wf = "\<lparr>wf_pipe = P, wf_buffer = bs, wf_bytes = n, wf_written_bytes = 0, wf_pc = W_Top\<rparr>"
  from write_all [OF assms(1), of ?wf "length bs"] obtain p1 k1 where k1: "run write_step write_returned ?wf k =
      Some (?wf\<lparr>wf_written_bytes := n, wf_pc := W_Ret (int (length bs))\<rparr>, k1)" "pipe_ready P p1 k1"
    "content p1 = bs" "pipes k1 = pipes k" using n assms(2,7) ret by auto
  have w: "write_pipe ident (Some bs) n k = Some (Inr (?wf\<lparr>wf_written_bytes := n, wf_pc := W_Ret (int (length bs))\<rparr>), k1)"
    using k1(1) n0 assms(3-5) by (simp add: write_pipe_def MAX_PIPES_def not_le)
  let ?rf = "\<lparr>rf_pipe = P, rf_buffer = buf, rf_bytes = n, rf_read_bytes = 0, rf_pc = R_Top\<rparr>"
  from read_some [OF k1(2), of ?rf "length bs"] obtain p2 k2 where k2: "run read_step read_returned ?rf k1 =
      run read_step read_returned (?rf\<lparr>rf_buffer := bs, rf_read_bytes := n\<rparr>) k2"
    "pipe_ready P p2 k2" "content p2 = []" using n assms(8,9) k1(3) by auto
  have "run read_step read_returned (?rf\<lparr>rf_buffer := bs, rf_read_bytes := n\<rparr>) k2 =
      Some (?rf\<lparr>rf_buffer := bs, rf_read_bytes := n, rf_pc := R_Ret (int (length bs))\<rparr>, k2)"
    using read_return [of "?rf\<lparr>rf_buffer := bs, rf_read_bytes := n\<rparr>" k2] ret pipe_readyD(1) [OF k2(2)] by simp
  then have r: "read_pipe ident (Some buf) n k1 =
      Some (Inr (?rf\<lparr>rf_buffer := bs, rf_read_bytes := n, rf_pc := R_Ret (int (length bs))\<rparr>), k2)"
    using k2(1) n0 assms(3-5) k1(4) by (simp add: read_pipe_def MAX_PIPES_def pipe_at_def not_le)
  show ?thesis using w r k2(2,3) by (intro exI conjI) (assumption | simp)+
qed

theorem pipe_write_then_read_witness:
  "\<exists>k wf k1 rf k2. write_pipe 0 (Some [72, 105]) 2 k = Some (Inr wf, k1) \<and> wf_pc wf = W_Ret 2 \<and>
    read_pipe 0 (Some [0, 0]) 2 k1 = Some (Inr rf, k2) \<and> rf_pc rf = R_Ret 2 \<and> rf_buffer rf = [72, 105]"
proof -
  obtain k P p where k: "pipe_ready P p k" "content p = []" "pipe_at 0 k = P" "P \<noteq> NULL" by (rule boot_pipe)
  from pipe_write_then_read [OF k, of "[72, 105]" "[0, 0]" 2] obtain wf k1 rf k2 where
    "write_pipe 0 (Some [72, 105]) 2 k = Some (Inr wf, k1)" "wf_pc wf = W_Ret 2"
    "read_pipe 0 (Some [0, 0]) 2 k1 = Some (Inr rf, k2)" "rf_pc rf = R_Ret 2" "rf_buffer rf = [72, 105]" by auto
  then show ?thesis by blast
qed

text \<open>
  C21. A read of more bytes than are there, when nobody else is attached to the pipe, takes
  the bytes out, stores them in the caller's buffer and returns 0: the caller is told that
  nothing was read and the bytes are gone.
\<close>

theorem read_pipe_short_loses_bytes:
  assumes "pipe_ready P p k" and "pipe_at ident k = P" and "P \<noteq> NULL" and "ident < 100"
    and "pi_attached_count p \<le> 1" and "length (content p) < unat n" and "unat n \<le> length buf"
  shows "\<exists>rf k' p'. read_pipe ident (Some buf) n k = Some (Inr rf, k') \<and> rf_pc rf = R_Ret 0 \<and>
    take (length (content p)) (rf_buffer rf) = content p \<and> pipe_ready P p' k' \<and> content p' = []"
proof -
  have n0: "n \<noteq> 0" using assms(6) by auto
  let ?rf = "\<lparr>rf_pipe = P, rf_buffer = buf, rf_bytes = n, rf_read_bytes = 0, rf_pc = R_Top\<rparr>" and ?m = "length (content p)"
  let ?buf = "content p @ drop ?m buf"
  from read_some [OF assms(1), of ?rf ?m] obtain p1 k1 where k1: "run read_step read_returned ?rf k =
      run read_step read_returned (?rf\<lparr>rf_buffer := ?buf, rf_read_bytes := of_nat ?m\<rparr>) k1"
    "pipe_ready P p1 k1" "content p1 = []" "pi_attached_count p1 = pi_attached_count p" using assms(6,7) by auto
  have lt: "of_nat ?m < n" using assms(6) by (simp add: word_less_nat_alt)
  from read_eof [OF k1(2), of "?rf\<lparr>rf_buffer := ?buf, rf_read_bytes := of_nat ?m\<rparr>"] obtain k2 where
    k2: "run read_step read_returned (?rf\<lparr>rf_buffer := ?buf, rf_read_bytes := of_nat ?m\<rparr>) k1 =
      Some (?rf\<lparr>rf_buffer := ?buf, rf_read_bytes := of_nat ?m, rf_pc := R_Ret 0\<rparr>, k2)" "pipe_ready P p1 k2"
    using k1(3,4) assms(5) lt by auto
  have "read_pipe ident (Some buf) n k =
      Some (Inr (?rf\<lparr>rf_buffer := ?buf, rf_read_bytes := of_nat ?m, rf_pc := R_Ret 0\<rparr>), k2)"
    using k1(1) k2(1) n0 assms(2-4) by (simp add: read_pipe_def MAX_PIPES_def not_le)
  then show ?thesis using k2(2) k1(3) by (intro exI conjI) (assumption | simp)+
qed

theorem read_pipe_short_loses_bytes_witness:
  "\<exists>k rf k' P p p'. pipeobjs k P = Some p \<and> content p = [5] \<and> read_pipe 0 (Some [0, 0]) 2 k = Some (Inr rf, k') \<and>
     rf_pc rf = R_Ret 0 \<and> take 1 (rf_buffer rf) = [5] \<and> pipeobjs k' P = Some p' \<and> content p' = []"
proof -
  obtain k P p where k: "pipe_ready P p k" "content p = []" "pipe_at 0 k = P" "P \<noteq> NULL" "pi_attached_count p = 0"
    by (rule boot_pipe)
  let ?wf = "\<lparr>wf_pipe = P, wf_buffer = [5], wf_bytes = 1, wf_written_bytes = 0, wf_pc = W_Top\<rparr>"
  from write_all [OF k(1), of ?wf 1] obtain p1 k1 where k1: "pipe_ready P p1 k1" "content p1 = [5]"
    "pipes k1 = pipes k" "pi_attached_count p1 = 0" using k(2,5) by auto
  have at: "pipe_at 0 k1 = P" using k(3) k1(3) by (simp add: pipe_at_def)
  from read_pipe_short_loses_bytes [OF k1(1) at k(4), of 2 "[0, 0]"] k1(2,4) show ?thesis
    using pipe_readyD(1) [OF k1(1)] pipe_readyD(1) by fastforce
qed

end
