(* ===== verification/Fd.thy ===== *)
theory Fd
  imports Process Pipe_Props
begin

text \<open>
  File descriptors (\<open>fd.c\<close>): every process maps its three descriptors to pipes. \<open>read\<close> and
  \<open>write\<close> go to the pipes; what is written to the standard streams is taken out of the pipe
  again at once and printed. As before, calls that can be suspended are steps over frames.
\<close>

section \<open>Structure\<close>

definition READ_FD :: int where "READ_FD = 0"
definition WRITE_FD :: int where "WRITE_FD = 1"
definition ERROR_FD :: int where "ERROR_FD = 2"

lemmas fd_consts = READ_FD_def WRITE_FD_def ERROR_FD_def

definition is_valid_fd :: "int \<Rightarrow> bool" where
  "is_valid_fd fd \<longleftrightarrow> fd = READ_FD \<or> fd = WRITE_FD \<or> fd = ERROR_FD"

definition setReadTarget :: "u8 list option \<Rightarrow> u8 \<Rightarrow> int \<times> u8 list option" where
  "setReadTarget fd_targets target =
     (case fd_targets of None \<Rightarrow> (-1, None) | Some ts \<Rightarrow> (0, Some (ts[nat READ_FD := target])))"

definition setWriteTarget :: "u8 list option \<Rightarrow> u8 \<Rightarrow> int \<times> u8 list option" where
  "setWriteTarget fd_targets target =
     (case fd_targets of None \<Rightarrow> (-1, None) | Some ts \<Rightarrow> (0, Some (ts[nat WRITE_FD := target])))"

definition setErrorTarget :: "u8 list option \<Rightarrow> u8 \<Rightarrow> int \<times> u8 list option" where
  "setErrorTarget fd_targets target =
     (case fd_targets of None \<Rightarrow> (-1, None) | Some ts \<Rightarrow> (0, Some (ts[nat ERROR_FD := target])))"

text \<open>The setter for the descriptor with a given number, on the array of a process.\<close>

definition set_target :: "nat \<Rightarrow> u8 \<Rightarrow> u8 list \<Rightarrow> u8 list" where
  "set_target i target ts =
     (case snd ((if i = 0 then setReadTarget else if i = 1 then setWriteTarget else setErrorTarget) (Some ts) target) of
        Some ts' \<Rightarrow> ts' | None \<Rightarrow> ts)"

section \<open>Changing the targets\<close>

text \<open>
  \<open>set_fd_targets\<close> first attaches to the new pipes that differ from the old ones; if one
  cannot be attached, those attached so far are given back, the pipe for reading first. Then
  it stores each new target and leaves the old pipe.
\<close>

datatype targets_pc =
    T_Attach nat "attach_frame option"
  | T_Undo "u8 list" "unattach_frame option"
  | T_Switch nat
  | T_Leave nat "unattach_frame option"
  | T_Ret int

record targets_frame =
  tf_current :: addr
  tf_new :: "u8 list"
  tf_old :: "u8 list"
  tf_attached :: "u8 list"
  tf_pc :: targets_pc

definition targets_returned :: "targets_frame \<Rightarrow> bool" where
  "targets_returned f \<longleftrightarrow> (case tf_pc f of T_Ret _ \<Rightarrow> True | _ \<Rightarrow> False)"

definition targets_step :: "targets_frame \<Rightarrow> kernel \<Rightarrow> (targets_frame \<times> bool \<times> kernel) option" where
  "targets_step f k =
     (case tf_pc f of
        T_Attach i c \<Rightarrow>
          if 3 \<le> i then Some (f\<lparr>tf_pc := T_Switch 0\<rparr>, False, k)
          else if tf_new f ! i = tf_old f ! i then Some (f\<lparr>tf_pc := T_Attach (i + 1) None\<rparr>, False, k)
          else do {
            (a, k) \<leftarrow> call_attach (tf_new f ! i) c k;
            (case a of
               A_Ret r \<Rightarrow>
                 if r \<noteq> 0 then Some (f\<lparr>tf_pc := T_Undo (tf_attached f) None\<rparr>, False, k)
                 else Some (f\<lparr>tf_attached := tf_attached f @ [tf_new f ! i], tf_pc := T_Attach (i + 1) None\<rparr>, False, k)
             | _ \<Rightarrow> Some (f\<lparr>tf_pc := T_Attach i (Some a)\<rparr>, True, k))
          }
      | T_Undo [] c \<Rightarrow> Some (f\<lparr>tf_pc := T_Ret (-1)\<rparr>, False, k)
      | T_Undo (t # ts) c \<Rightarrow> do {
          pr \<leftarrow> procs k (tf_current f);
          (u, k) \<leftarrow> call_unattach t (pr_pid pr) c k;
          if u = U_Ret then Some (f\<lparr>tf_pc := T_Undo ts None\<rparr>, False, k)
          else Some (f\<lparr>tf_pc := T_Undo (t # ts) (Some u)\<rparr>, True, k)
        }
      | T_Switch i \<Rightarrow>
          if 3 \<le> i then Some (f\<lparr>tf_pc := T_Ret 0\<rparr>, False, k)
          else if tf_new f ! i = tf_old f ! i then Some (f\<lparr>tf_pc := T_Switch (i + 1)\<rparr>, False, k)
          else do {
            k \<leftarrow> upd_proc (tf_current f) (\<lambda>pr. pr\<lparr>pr_fd_targets := set_target i (tf_new f ! i) (pr_fd_targets pr)\<rparr>) k;
            Some (f\<lparr>tf_pc := T_Leave i None\<rparr>, False, k)
          }
      | T_Leave i c \<Rightarrow> do {
          pr \<leftarrow> procs k (tf_current f);
          (u, k) \<leftarrow> call_unattach (tf_old f ! i) (pr_pid pr) c k;
          if u = U_Ret then Some (f\<lparr>tf_pc := T_Switch (i + 1)\<rparr>, False, k)
          else Some (f\<lparr>tf_pc := T_Leave i (Some u)\<rparr>, True, k)
        }
      | T_Ret r \<Rightarrow> Some (f, False, k))"

definition set_fd_targets :: "u8 \<Rightarrow> u8 \<Rightarrow> u8 \<Rightarrow> kernel \<Rightarrow> (targets_frame \<times> kernel) option" where
  "set_fd_targets read_target write_target error_target k =
     (let current = scheduler_current k
      in if current = NULL
         then Some (\<lparr>tf_current = NULL, tf_new = [], tf_old = [], tf_attached = [], tf_pc = T_Ret (-1)\<rparr>, k)
         else do {
           pr \<leftarrow> procs k current;
           run targets_step targets_returned
             \<lparr>tf_current = current, tf_new = [read_target, write_target, error_target], tf_old = pr_fd_targets pr,
              tf_attached = [], tf_pc = T_Attach 0 None\<rparr> k
         })"

section \<open>Reading and writing\<close>

text \<open>
  The foreground pid is compared as an unsigned number with the pid of the process. A count
  is not negative when it is converted for the pipe.
\<close>

definition fd_read :: "int \<Rightarrow> u8 list option \<Rightarrow> 32 word \<Rightarrow> kernel \<Rightarrow> ((int + read_frame) \<times> kernel) option" where
  "fd_read fd user_buffer count k =
     (let current = scheduler_current k
      in if current = NULL then Some (Inl (-1), k)
         else if user_buffer = None \<or> sint count < 0 \<or> \<not> is_valid_fd fd then Some (Inl (-1), k)
         else do {
           pr \<leftarrow> procs k current;
           if pr_fd_targets pr ! nat READ_FD = STDIN \<and>
              (of_int (get_foreground_process_pid k) :: u32) \<noteq> pr_pid pr
           then Some (Inl (-1), k)
           else read_pipe (pr_fd_targets pr ! nat fd) user_buffer (scast count) k
         })"

text \<open>
  \<open>write\<close>: the bytes go into the pipe; for the standard streams they are read back one at a
  time and printed. \<open>dw_printed\<close> are the bytes handed to \<open>printToFd\<close>.
\<close>

datatype fdwrite_pc =
    D_Write write_frame
  | D_Print nat
  | D_Read nat read_frame
  | D_Ret int

record fdwrite_frame =
  dw_current :: addr
  dw_fd :: int
  dw_pipe_id :: u8
  dw_written :: int
  dw_printed :: "u8 list"
  dw_pc :: fdwrite_pc

definition fdwrite_returned :: "fdwrite_frame \<Rightarrow> bool" where
  "fdwrite_returned f \<longleftrightarrow> (case dw_pc f of D_Ret _ \<Rightarrow> True | _ \<Rightarrow> False)"

text \<open>What happens when the write to the pipe is over.\<close>

definition fdwrite_written :: "int \<Rightarrow> fdwrite_frame \<Rightarrow> kernel \<Rightarrow> fdwrite_frame option" where
  "fdwrite_written written f k =
     (if written < 0 then Some (f\<lparr>dw_pc := D_Ret written\<rparr>)
      else do {
        pr \<leftarrow> procs k (dw_current f);
        if dw_fd f = WRITE_FD \<and> pr_fd_targets pr ! nat WRITE_FD = STDOUT \<or>
           dw_fd f = ERROR_FD \<and> pr_fd_targets pr ! nat ERROR_FD = STDERR
        then Some (f\<lparr>dw_written := written, dw_pc := D_Print 0\<rparr>)
        else Some (f\<lparr>dw_written := written, dw_pc := D_Ret written\<rparr>)
      })"

text \<open>
  One byte read back: \<open>r\<close> is what \<open>read_pipe\<close> returned, \<open>c\<close> the byte of the caller, which
  keeps its old contents when nothing was read.
\<close>

definition fdwrite_read :: "nat \<Rightarrow> int \<Rightarrow> u8 \<Rightarrow> fdwrite_frame \<Rightarrow> fdwrite_frame" where
  "fdwrite_read i r c f =
     (if r = -1 then f\<lparr>dw_pc := D_Ret (-1)\<rparr>
      else f\<lparr>dw_printed := dw_printed f @ [c], dw_pc := D_Print (i + 1)\<rparr>)"

definition fdwrite_step :: "fdwrite_frame \<Rightarrow> kernel \<Rightarrow> (fdwrite_frame \<times> bool \<times> kernel) option" where
  "fdwrite_step f k =
     (case dw_pc f of
        D_Write w \<Rightarrow>
          (case wf_pc w of
             W_Ret r \<Rightarrow> do { f \<leftarrow> fdwrite_written r f k; Some (f, False, k) }
           | _ \<Rightarrow> do {
               (w, k) \<leftarrow> run write_step write_returned w k;
               Some (f\<lparr>dw_pc := D_Write w\<rparr>, \<not> write_returned w, k)
             })
      | D_Print i \<Rightarrow>
          if int i < dw_written f then do {
            (r, k) \<leftarrow> read_pipe (dw_pipe_id f) (Some [0]) 1 k;
            (case r of
               Inl r \<Rightarrow> Some (fdwrite_read i r 0 f, False, k)
             | Inr rf \<Rightarrow> Some (f\<lparr>dw_pc := D_Read i rf\<rparr>, \<not> read_returned rf, k))
          }
          else Some (f\<lparr>dw_pc := D_Ret (dw_written f)\<rparr>, False, k)
      | D_Read i rf \<Rightarrow>
          (case rf_pc rf of
             R_Ret r \<Rightarrow> Some (fdwrite_read i r (rf_buffer rf ! 0) f, False, k)
           | _ \<Rightarrow> do {
               (rf, k) \<leftarrow> run read_step read_returned rf k;
               Some (f\<lparr>dw_pc := D_Read i rf\<rparr>, \<not> read_returned rf, k)
             })
      | D_Ret r \<Rightarrow> Some (f, False, k))"

definition fd_write :: "int \<Rightarrow> u8 list option \<Rightarrow> 32 word \<Rightarrow> kernel \<Rightarrow> ((int + fdwrite_frame) \<times> kernel) option" where
  "fd_write fd user_buffer count k =
     (if user_buffer = None \<or> sint count < 0 \<or> \<not> is_valid_fd fd then Some (Inl (-1), k)
      else if fd = READ_FD then Some (Inl (-1), k)
      else if count = 0 then Some (Inl 0, k)
      else
        let current = scheduler_current k
        in if current = NULL then Some (Inl (-1), k)
           else do {
             pr \<leftarrow> procs k current;
             pipe_id \<leftarrow> Some (pr_fd_targets pr ! nat fd);
             (w, k) \<leftarrow> write_pipe pipe_id user_buffer (scast count) k;
             f \<leftarrow> Some \<lparr>dw_current = current, dw_fd = fd, dw_pipe_id = pipe_id, dw_written = 0, dw_printed = [],
                    dw_pc = D_Ret 0\<rparr>;
             (case w of
                Inl r \<Rightarrow> do {
                  f \<leftarrow> fdwrite_written r f k;
                  (f, k) \<leftarrow> run fdwrite_step fdwrite_returned f k;
                  Some (Inr f, k)
                }
              | Inr w \<Rightarrow>
                  if write_returned w then do {
                    (f, k) \<leftarrow> run fdwrite_step fdwrite_returned (f\<lparr>dw_pc := D_Write w\<rparr>) k;
                    Some (Inr f, k)
                  }
                  else Some (Inr (f\<lparr>dw_pc := D_Write w\<rparr>), k))
           })"

end
