(* ===== verification/Fd_Props.thy ===== *)
theory Fd_Props
  imports Fd
begin

text \<open>Writing to the standard output prints the bytes.\<close>

section \<open>Printing what was written\<close>

text \<open>
  One byte is read back from a pipe that is not empty; then the loop goes on.
\<close>

lemmas run_fdwrite = run_step [where step = fdwrite_step and returned = fdwrite_returned]

lemma read_back:
  assumes rdy: "pipe_ready P p k" and at: "pipe_at ident k = P" "P \<noteq> NULL" "ident < 100" and cp: "content p = b # cs"
  obtains rf p' k' where "read_pipe ident (Some [c]) 1 k = Some (Inr rf, k')" "rf_pc rf = R_Ret 1" "rf_buffer rf = [b]"
    "pipe_ready P p' k'" "content p' = cs" "pipes k' = pipes k" "identities k' = identities k"
proof -
  let ?rf = "\<lparr>rf_pipe = P, rf_buffer = [c], rf_bytes = 1, rf_read_bytes = 0, rf_pc = R_Top\<rparr>"
  let ?rf' = "?rf\<lparr>rf_buffer := [b], rf_read_bytes := 1\<rparr>"
  obtain p1 k1 where k1: "run read_step read_returned ?rf k = run read_step read_returned ?rf' k1" "pipe_ready P p1 k1"
    "content p1 = cs" "pipes k1 = pipes k" "identities k1 = identities k"
    by (rule read_one [OF rdy, of ?rf]) (use cp in simp_all)
  have "run read_step read_returned ?rf' k1 = Some (?rf'\<lparr>rf_pc := R_Ret 1\<rparr>, k1)"
    using read_return [of ?rf' k1] pipe_readyD(1) [OF k1(2)] by simp
  then have "read_pipe ident (Some [c]) 1 k = Some (Inr (?rf'\<lparr>rf_pc := R_Ret 1\<rparr>), k1)"
    using k1(1) at by (simp add: read_pipe_def MAX_PIPES_def not_le)
  then show ?thesis using that k1(2-5) by simp
qed

lemma print_loop:
  assumes "pipe_ready P p k" and "pipe_at (dw_pipe_id f) k = P" and "P \<noteq> NULL" and "dw_pipe_id f < 100"
    and "dw_pc f = D_Print i" and "dw_written f = int (i + length (content p))"
  shows "\<exists>p' k'. run fdwrite_step fdwrite_returned f k =
      Some (f\<lparr>dw_printed := dw_printed f @ content p, dw_pc := D_Ret (dw_written f)\<rparr>, k') \<and>
    pipe_ready P p' k' \<and> content p' = [] \<and> identities k' = identities k"
  using assms
proof (induction "content p" arbitrary: p k f i)
  case Nil
  have e: "content p = []" using Nil.hyps by simp
  have s: "fdwrite_step f k = Some (f\<lparr>dw_pc := D_Ret (dw_written f)\<rparr>, False, k)"
    using Nil.prems(5,6) e by (simp add: fdwrite_step_def)
  have "run fdwrite_step fdwrite_returned f k = Some (f\<lparr>dw_pc := D_Ret (dw_written f)\<rparr>, k)"
    using run_fdwrite [OF _ s] Nil.prems(5) by (simp add: fdwrite_returned_def run_return)
  then show ?case using Nil.prems(1) e by (intro exI [of _ p] exI [of _ k]) simp
next
  case (Cons b cs)
  note c = Cons.hyps(2) [symmetric]
  obtain rf p1 k1 where r: "read_pipe (dw_pipe_id f) (Some [0]) 1 k = Some (Inr rf, k1)" "rf_pc rf = R_Ret 1" "rf_buffer rf = [b]"
    "pipe_ready P p1 k1" "content p1 = cs" "pipes k1 = pipes k" "identities k1 = identities k"
    by (rule read_back [OF Cons.prems(1-4) c])
  let ?f1 = "f\<lparr>dw_pc := D_Read i rf\<rparr>" and ?f2 = "f\<lparr>dw_printed := dw_printed f @ [b], dw_pc := D_Print (i + 1)\<rparr>"
  have s1: "fdwrite_step f k = Some (?f1, False, k1)"
    using Cons.prems(5,6) c r(1,2) by (simp add: fdwrite_step_def read_returned_def)
  have s2: "fdwrite_step ?f1 k1 = Some (?f2, False, k1)"
    using r(2,3) by (simp add: fdwrite_step_def fdwrite_read_def)
  have run: "run fdwrite_step fdwrite_returned f k = run fdwrite_step fdwrite_returned ?f2 k1"
    using run_fdwrite [OF _ s1] run_fdwrite [OF _ s2] Cons.prems(5) by (simp add: fdwrite_returned_def)
  have at: "pipe_at (dw_pipe_id ?f2) k1 = P" using Cons.prems(2) r(6) by (simp add: pipe_at_def)
  have "\<exists>p' k'. run fdwrite_step fdwrite_returned ?f2 k1 =
      Some (?f2\<lparr>dw_printed := dw_printed ?f2 @ content p1, dw_pc := D_Ret (dw_written ?f2)\<rparr>, k') \<and>
    pipe_ready P p' k' \<and> content p' = [] \<and> identities k' = identities k1"
    by (rule Cons.hyps(1) [OF r(5) [symmetric] r(4) at Cons.prems(3), of "i + 1"]) (use Cons.prems(4,6) c r(5) in simp_all)
  then show ?case using run c r(5,7) by auto
qed



text \<open>A kernel with one pipe and one process, the current one, whose descriptors are the standard streams.\<close>

lemma sems_inv_new_process:
  assumes inv: "sems_inv S k" and sp: "spare (Suc n) (kmem k)" and pr: "\<not> pr_priority_fixed pr"
    "pr_state pr \<noteq> PROCESS_STATE_RUNNING"
  obtains p m where "p \<noteq> NULL" "procs k p = None" "sems_inv S (k\<lparr>kmem := m, procs := (procs k)(p \<mapsto> pr)\<rparr>)" "spare n m"
proof -
  obtain p m k' where k': "p \<noteq> NULL" "procs k p = None" "k' = k\<lparr>kmem := m, procs := (procs k)(p \<mapsto> pr)\<rparr>" "sched_inv k'"
    "spare n (kmem k')" by (rule new_process [OF sems_invD(1) [OF inv] sp pr])
  have b: "blocked k' x" if "blocked k x" for x using that k'(2,3) by (auto simp: blocked_def)
  have "sem_ready k' s" if "s \<in> S" for s
    using sems_invD(4) [OF inv that] k'(3) b by (auto simp: sem_ready_def)
  moreover have "sem_queue k' = sem_queue k" using k'(3) by (simp add: sem_queue_def fun_eq_iff)
  ultimately have "sems_inv S k'" using inv k'(3,4) by (simp add: sems_inv_def)
  then show ?thesis using that k'(1,2,5) k'(3) by simp
qed

lemma boot_current:
  obtains k P p pr where "pipe_ready P p k" "content p = []" "pipe_at STDOUT k = P" "P \<noteq> NULL"
    "sch_current k \<noteq> NULL" "procs k (sch_current k) = Some pr" "pr_fd_targets pr = [0, 1, 2]"
proof -
  obtain k0 k P p where k: "pipe_ready P p k" "content p = []" "P \<noteq> NULL" "spare (Suc 9) (kmem k)" "length (pipes k) = 100"
    "procs k = Map.empty" by (rule boot_pipe) simp
  let ?pr = "zero_process\<lparr>pr_pid := 1, pr_fd_targets := [0, 1, 2]\<rparr>"
  obtain c m where c: "c \<noteq> NULL" "procs k c = None" "sems_inv (pipe_sems p) (k\<lparr>kmem := m, procs := (procs k)(c \<mapsto> ?pr)\<rparr>)" "spare 9 m"
    by (rule sems_inv_new_process [OF pipe_readyD(3) [OF k(1)] k(4), of ?pr]) (simp_all add: zero_process_def)
  let ?k1 = "k\<lparr>kmem := m, procs := (procs k)(c \<mapsto> ?pr)\<rparr>"
  let ?k2 = "?k1\<lparr>sch_current := c, pipes := (pipes k)[1 := P]\<rparr>"
  have s1: "sched_inv ?k1" by (rule sems_invD(1) [OF c(3)])
  have r2: "ready_inv (?k1\<lparr>sch_current := c\<rparr>)" by (rule ready_inv_current) (use s1 in \<open>simp_all add: sched_inv_def\<close>)
  have q2: "queue_inv ?k2" using ready_invD(1) [OF r2] queue_inv_cong(1) [of "?k1\<lparr>sch_current := c\<rparr>" ?k2] by (simp add: queue_inv_def heap_ok_def objects_at_def)
  have "ready_inv ?k2" by (rule ready_inv_cong [OF r2 q2]) (simp_all add: qelems_def qcells_def)
  moreover have "running_inv ?k2" using k(6) by (simp add: running_inv_def zero_process_def)
  ultimately have s2: "sched_inv ?k2" by (simp add: sched_inv_def)
  have eq: "sem_queue ?k2 = sem_queue ?k1" "sem_ready ?k2 = sem_ready ?k1" "qelems ?k2 = qelems ?k1"
    by (simp_all add: sem_queue_def sem_ready_def blocked_def fun_eq_iff qelems_def qcells_def)
  have i2: "sems_inv (pipe_sems p) ?k2" using c(3) s2 unfolding sems_inv_def eq by simp
  have "pipe_ready P p ?k2"
    using k(1) i2 by (simp add: pipe_ready_def sem_value_def sem_queue_def timer_tick_is_disabled_def qelems_def qcells_def)
  then show ?thesis
    by (rule that [OF _ k(2), where pr = ?pr]) (use k(3,5) c(1) in \<open>simp_all add: pipe_at_def STDOUT_def\<close>)
qed


end
