(* ===== verification/MyMalloc.thy ===== *)
theory MyMalloc
  imports Alloc_Spec
begin

text \<open>
  The second physical memory manager, \<open>Kernel/mmu/myMalloc.c\<close>, which the build selects with
  \<open>MEMORY_MANAGER=mymalloc\<close>. The heap is one list of blocks, each with a header in front;
  an allocation takes the first free block that is large enough and cuts off what is left,
  freeing marks the block. Headers are the map \<open>mm_blocks\<close> from their addresses; the address
  of the static array \<open>heap\<close> is a field that no operation changes.

  The theory shows that the linked headers implement first fit over a plain list of block
  sizes, and interprets the allocator contract of \<open>Alloc_Spec\<close>.
\<close>

section \<open>Data\<close>

definition MY_HEAP_SIZE :: nat where "MY_HEAP_SIZE = 2 ^ 19"

record Block =
  bk_size :: u64
  bk_free :: int
  bk_next :: addr

text \<open>\<open>sizeof(Block)\<close>: a \<open>size_t\<close>, an \<open>int\<close> with its padding, and a pointer.\<close>

definition BLOCK_SIZE :: nat where "BLOCK_SIZE = 24"

record my_heap =
  mm_heap :: addr
  mm_blocks :: "addr \<rightharpoonup> Block"
  free_list :: addr

section \<open>Operations\<close>

definition my_mem_init :: "my_heap \<Rightarrow> my_heap" where
  "my_mem_init h =
     h\<lparr>free_list := mm_heap h,
       mm_blocks := [mm_heap h \<mapsto> \<lparr>bk_size = of_nat (MY_HEAP_SIZE - BLOCK_SIZE), bk_free = 1, bk_next = NULL\<rparr>]\<rparr>"

partial_function (option) alloc_loop :: "addr \<Rightarrow> u64 \<Rightarrow> my_heap \<Rightarrow> (addr \<times> my_heap) option" where
  "alloc_loop cur sz h =
     (if cur = NULL then Some (NULL, h)
      else do {
        b \<leftarrow> mm_blocks h cur;
        if bk_free b \<noteq> 0 \<and> sz \<le> bk_size b then
          let h = (if sz + of_nat BLOCK_SIZE < bk_size b then
                     let new_block = cur + BLOCK_SIZE + unat sz;
                         bs = (mm_blocks h)(new_block \<mapsto>
                           \<lparr>bk_size = bk_size b - sz - of_nat BLOCK_SIZE, bk_free = 1, bk_next = bk_next b\<rparr>)
                     in h\<lparr>mm_blocks := bs(cur \<mapsto> \<lparr>bk_size = sz, bk_free = 0, bk_next = new_block\<rparr>)\<rparr>
                   else h\<lparr>mm_blocks := (mm_blocks h)(cur \<mapsto> b\<lparr>bk_free := 0\<rparr>)\<rparr>)
          in Some (cur + BLOCK_SIZE, h)
        else alloc_loop (bk_next b) sz h
      })"

definition my_mem_alloc :: "u64 \<Rightarrow> my_heap \<Rightarrow> (addr \<times> my_heap) option" where
  "my_mem_alloc sz h = alloc_loop (free_list h) sz h"

text \<open>The code trusts its caller: a pointer that is not behind a header is undefined.\<close>

definition my_mem_free :: "addr \<Rightarrow> my_heap \<Rightarrow> my_heap option" where
  "my_mem_free ptr h =
     (if ptr = NULL then Some h
      else if ptr < BLOCK_SIZE then None
      else do {
        b \<leftarrow> mm_blocks h (ptr - BLOCK_SIZE);
        Some (h\<lparr>mm_blocks := (mm_blocks h)(ptr - BLOCK_SIZE \<mapsto> b\<lparr>bk_free := 1\<rparr>)\<rparr>)
      })"

partial_function (option) status_loop :: "addr \<Rightarrow> u64 \<Rightarrow> u64 \<Rightarrow> my_heap \<Rightarrow> (u64 \<times> u64) option" where
  "status_loop cur used available h =
     (if cur = NULL then Some (used, available)
      else do {
        b \<leftarrow> mm_blocks h cur;
        if bk_free b \<noteq> 0 then status_loop (bk_next b) used (available + bk_size b) h
        else status_loop (bk_next b) (used + bk_size b) available h
      })"

text \<open>Total, used and available bytes.\<close>

definition my_mem_status :: "my_heap \<Rightarrow> (u64 \<times> u64 \<times> u64) option" where
  "my_mem_status h = do {
     (used, available) \<leftarrow> status_loop (free_list h) 0 0 h;
     Some (of_nat MY_HEAP_SIZE, used, available)
   }"

section \<open>First fit over a list of blocks\<close>

text \<open>The abstract heap: the sizes of the blocks in address order, and whether each is free.\<close>

type_synonym cut = "nat \<times> bool"

text \<open>First fit: where the new block begins, its capacity, and the new list.\<close>

fun first_fit :: "nat \<Rightarrow> cut list \<Rightarrow> (nat \<times> nat \<times> cut list) option" where
  "first_fit n [] = None"
| "first_fit n ((m, f) # xs) =
     (if f \<and> n \<le> m
      then if n + BLOCK_SIZE < m then Some (0, n, (n, False) # (m - n - BLOCK_SIZE, True) # xs)
           else Some (0, m, (m, False) # xs)
      else map_option (\<lambda>(off, c, ys). (BLOCK_SIZE + m + off, c, (m, f) # ys)) (first_fit n xs))"

fun extent :: "cut list \<Rightarrow> nat" where
  "extent [] = 0"
| "extent ((m, f) # xs) = BLOCK_SIZE + m + extent xs"

text \<open>The headers of such a list laid out from an address.\<close>

fun lay :: "addr \<Rightarrow> cut list \<Rightarrow> (addr \<times> Block) list" where
  "lay p [] = []"
| "lay p ((m, f) # xs) =
     (p, \<lparr>bk_size = of_nat m, bk_free = (if f then 1 else 0), bk_next = (if xs = [] then NULL else p + BLOCK_SIZE + m)\<rparr>)
       # lay (p + BLOCK_SIZE + m) xs"

definition my_rep :: "my_heap \<Rightarrow> cut list \<Rightarrow> bool" where
  "my_rep h xs \<longleftrightarrow> mm_heap h \<noteq> NULL \<and> free_list h = mm_heap h \<and> xs \<noteq> [] \<and> extent xs = MY_HEAP_SIZE \<and>
     mm_blocks h = map_of (lay (mm_heap h) xs)"

lemmas my_consts = BLOCK_SIZE_def MY_HEAP_SIZE_def

lemma lay_above: "a \<in> fst ` set (lay p xs) \<Longrightarrow> p \<le> a \<and> a + BLOCK_SIZE \<le> p + extent xs"
  by (induction p xs rule: lay.induct) (fastforce simp: BLOCK_SIZE_def)+

lemma lay_below: "a < p \<Longrightarrow> map_of (lay p xs) a = None"
  using lay_above by (force simp: map_of_eq_None_iff)

lemma first_fit_total:
  "first_fit n xs = Some (off, c, ys) \<Longrightarrow> extent ys = extent xs \<and> ys \<noteq> [] \<and> n \<le> c \<and> off + BLOCK_SIZE + c \<le> extent xs"
  by (induction n xs arbitrary: off c ys rule: first_fit.induct) (auto split: if_splits)

lemma first_fit_None_iff: "first_fit n xs = None \<longleftrightarrow> (\<forall>(m, f)\<in>set xs. f \<longrightarrow> m < n)"
  by (induction n xs rule: first_fit.induct) (auto split: if_splits)

lemma first_fit_heads:
  "first_fit n xs = Some (off, c, ys) \<Longrightarrow> fst ` set (lay p xs) \<subseteq> fst ` set (lay p ys)"
proof (induction n xs arbitrary: off c ys p rule: first_fit.induct)
  case (2 n m f xs)
  show ?case
  proof (cases "f \<and> n \<le> m")
    case True
    then show ?thesis using 2(2) by (auto simp: add.assoc split: if_splits)
  next
    case False
    then obtain off' ys' where "first_fit n xs = Some (off', c, ys')" "ys = (m, f) # ys'" using 2(2) by auto
    with 2(1) [OF False this(1), of "p + BLOCK_SIZE + m"] show ?thesis by auto
  qed
qed simp

lemma first_fit_dom:
  "first_fit n xs = Some (off, c, ys) \<Longrightarrow> dom (map_of (lay p xs)) \<subseteq> dom (map_of (lay p ys))"
  using first_fit_heads by (simp add: dom_map_of_conv_image_fst)

lemma map_le_Some: "f \<subseteq>\<^sub>m g \<Longrightarrow> f a = Some b \<Longrightarrow> g a = Some b"
  by (metis domI map_le_def)

lemma map_add_dom: "dom f \<subseteq> dom g \<Longrightarrow> f ++ g = g"
  by (rule ext) (auto simp: map_add_def split: option.split)

lemma lay_tail:
  assumes "map_of (lay p ((m, f) # xs)) \<subseteq>\<^sub>m g"
  shows "map_of (lay (p + BLOCK_SIZE + m) xs) \<subseteq>\<^sub>m g"
  unfolding map_le_def
proof
  let ?q = "p + BLOCK_SIZE + m"
  fix a assume a: "a \<in> dom (map_of (lay ?q xs))"
  then have "a \<noteq> p" using lay_below [of p ?q xs] by (auto simp: BLOCK_SIZE_def)
  then have "map_of (lay p ((m, f) # xs)) a = map_of (lay ?q xs) a" by simp
  then show "map_of (lay ?q xs) a = g a" using a map_le_Some [OF assms, of a] by auto
qed

section \<open>The list implements it\<close>

lemma alloc_loop_spec:
  assumes "map_of (lay p xs) \<subseteq>\<^sub>m mm_blocks h" and "xs \<noteq> []" and "p \<noteq> NULL" and "extent xs < 2 ^ 63"
  shows "alloc_loop p sz h = Some (case first_fit (unat sz) xs of
     None \<Rightarrow> (NULL, h)
   | Some (off, c, ys) \<Rightarrow> (p + off + BLOCK_SIZE, h\<lparr>mm_blocks := mm_blocks h ++ map_of (lay p ys)\<rparr>))"
  using assms
proof (induction xs arbitrary: p)
  case (Cons x xs)
  obtain m f where x: "x = (m, f)" by (cases x)
  let ?q = "p + BLOCK_SIZE + m"
  let ?b = "\<lparr>bk_size = of_nat m, bk_free = (if f then 1 else 0), bk_next = (if xs = [] then NULL else ?q)\<rparr>"
  have small: "m + BLOCK_SIZE < 2 ^ 63" using Cons.prems(4) x by simp
  have um: "unat (of_nat m :: u64) = m" using small by (intro unat_of_nat_small) simp
  have b: "mm_blocks h p = Some ?b" by (rule map_le_Some [OF Cons.prems(1)]) (simp add: x)
  have q: "map_of (lay ?q xs) \<subseteq>\<^sub>m mm_blocks h" using lay_tail [OF Cons.prems(1) [unfolded x]] .
  show ?case
  proof (cases "f \<and> unat sz \<le> m")
    case True
    then have le: "sz \<le> of_nat m" using um by (simp add: word_le_nat_alt)
    have add: "unat (sz + of_nat BLOCK_SIZE) = unat sz + BLOCK_SIZE"
      using True small by (subst unat_word_ariths) (simp add: BLOCK_SIZE_def)
    then have cmp: "sz + of_nat BLOCK_SIZE < (of_nat m :: u64) \<longleftrightarrow> unat sz + BLOCK_SIZE < m"
      using um by (simp add: word_less_nat_alt)
    have sub: "(of_nat m :: u64) - sz - of_nat BLOCK_SIZE = of_nat (m - unat sz - BLOCK_SIZE)" if "unat sz + BLOCK_SIZE < m"
      using that by (simp add: of_nat_diff)
    have "mm_blocks h ++ map_of (lay ?q xs) = mm_blocks h" using map_add_subsumed1 [OF q] map_add_subsumed2 [OF q] by simp
    then show ?thesis
      using True le cmp sub b Cons.prems(3) x
      by (subst alloc_loop.simps) (cases "xs = []"; cases "unat sz + BLOCK_SIZE < m"; auto simp: Let_def diff_diff_eq add.assoc add.commute add.left_commute)
  next
    case False
    then have skip: "\<not> (bk_free ?b \<noteq> 0 \<and> sz \<le> bk_size ?b)" using um by (auto simp: word_le_nat_alt)
    have step: "alloc_loop p sz h = alloc_loop (bk_next ?b) sz h"
      using b Cons.prems(3) skip by (subst alloc_loop.simps) auto
    show ?thesis
    proof (cases "xs = []")
      case True
      have "alloc_loop NULL sz h = Some (NULL, h)" by (subst alloc_loop.simps) simp
      moreover have "first_fit (unat sz) (x # xs) = None" using True False x by auto
      ultimately show ?thesis using step True by simp
    next
      case ne: False
      have t: "extent xs < 2 ^ 63" using Cons.prems(4) x by simp
      have "mm_blocks h ++ map_of (lay p ((m, f) # ys)) = mm_blocks h ++ map_of (lay ?q ys)" if "ys \<noteq> []" for ys
      proof -
        have "(mm_blocks h ++ map_of (lay ?q ys)) p = Some ?b"
          using b lay_below [of p ?q ys] by (simp add: map_add_def BLOCK_SIZE_def)
        then show ?thesis using that ne by (auto simp: fun_upd_idem)
      qed
      moreover have "ys \<noteq> []" if "first_fit (unat sz) xs = Some (off, c, ys)" for off c ys using first_fit_total [OF that] by simp
      moreover have "alloc_loop p sz h = alloc_loop ?q sz h" "?q \<noteq> NULL" using step ne Cons.prems(3) by simp_all
      ultimately show ?thesis
        using False x Cons.IH [OF q ne _ t] by (cases "first_fit (unat sz) xs") (auto simp: add.assoc)
    qed
  qed
qed simp

lemma my_mem_alloc_rep:
  assumes "my_rep h xs"
  shows "case first_fit (unat sz) xs of
      None \<Rightarrow> my_mem_alloc sz h = Some (NULL, h)
    | Some (off, c, ys) \<Rightarrow> \<exists>h'. my_mem_alloc sz h = Some (mm_heap h + off + BLOCK_SIZE, h') \<and> my_rep h' ys \<and> mm_heap h' = mm_heap h"
proof -
  have le: "map_of (lay (mm_heap h) xs) \<subseteq>\<^sub>m mm_blocks h" using assms by (simp add: my_rep_def)
  have run: "my_mem_alloc sz h = Some (case first_fit (unat sz) xs of
     None \<Rightarrow> (NULL, h)
   | Some (off, c, ys) \<Rightarrow> (mm_heap h + off + BLOCK_SIZE, h\<lparr>mm_blocks := mm_blocks h ++ map_of (lay (mm_heap h) ys)\<rparr>))"
    using alloc_loop_spec [OF le] assms by (simp add: my_mem_alloc_def my_rep_def MY_HEAP_SIZE_def)
  show ?thesis
  proof (cases "first_fit (unat sz) xs")
    case None
    then show ?thesis using run by simp
  next
    case (Some r)
    obtain off c ys where r: "r = (off, c, ys)" by (cases r)
    have "mm_blocks h ++ map_of (lay (mm_heap h) ys) = map_of (lay (mm_heap h) ys)"
      using map_add_dom [OF first_fit_dom [OF Some [unfolded r]], of "mm_heap h"] assms by (simp add: my_rep_def)
    then have "my_rep (h\<lparr>mm_blocks := mm_blocks h ++ map_of (lay (mm_heap h) ys)\<rparr>) ys"
      using assms first_fit_total [OF Some [unfolded r]] by (simp add: my_rep_def)
    then show ?thesis using run Some r by auto
  qed
qed

text \<open>Freeing marks the block whose payload begins at a given distance.\<close>

fun mark_free :: "nat \<Rightarrow> cut list \<Rightarrow> cut list" where
  "mark_free off [] = []"
| "mark_free off ((m, f) # xs) =
     (if off = 0 then (m, True) # xs else (m, f) # mark_free (off - BLOCK_SIZE - m) xs)"

text \<open>The blocks in use: their distance from the start of the heap, and their capacity.\<close>

fun in_use :: "nat \<Rightarrow> cut list \<Rightarrow> (addr \<times> nat) list" where
  "in_use p [] = []"
| "in_use p ((m, f) # xs) = (if f then [] else [(p + BLOCK_SIZE, m)]) @ in_use (p + BLOCK_SIZE + m) xs"

lemma in_use_range: "x \<in> set (in_use p xs) \<Longrightarrow> p + BLOCK_SIZE \<le> fst x \<and> fst x + snd x \<le> p + extent xs"
  by (induction p xs rule: in_use.induct) (force split: if_splits)+

lemma in_use_apart:
  "x \<in> set (in_use p xs) \<Longrightarrow> y \<in> set (in_use p xs) \<Longrightarrow> x \<noteq> y \<Longrightarrow>
   fst x + snd x < fst y \<or> fst y + snd y < fst x"
proof (induction p xs rule: in_use.induct)
  case (2 p m f xs)
  have sep: "p + BLOCK_SIZE + m < fst z" if "z \<in> set (in_use (p + BLOCK_SIZE + m) xs)" for z
    using in_use_range [OF that] by (simp add: BLOCK_SIZE_def)
  show ?case using 2 sep [of x] sep [of y] by (auto split: if_splits)
qed simp

definition my_blocks :: "my_heap \<Rightarrow> (addr \<times> nat) set" where
  "my_blocks h = {(p + BLOCK_SIZE, unat (bk_size b)) |p b. mm_blocks h p = Some b \<and> bk_free b = 0}"

definition my_inv :: "my_heap \<Rightarrow> bool" where
  "my_inv h \<longleftrightarrow> (\<exists>xs. my_rep h xs)"

lemma lay_in_use:
  "extent xs < 2 ^ 63 \<Longrightarrow>
   {(a + BLOCK_SIZE, unat (bk_size b)) |a b. map_of (lay p xs) a = Some b \<and> bk_free b = 0} = set (in_use p xs)"
proof (induction p xs rule: in_use.induct)
  case (2 p m f xs)
  let ?q = "p + BLOCK_SIZE + m"
  have um: "unat (of_nat m :: u64) = m" using 2(2) by (intro unat_of_nat_small) simp
  have low: "map_of (lay ?q xs) p = None" by (rule lay_below) (simp add: BLOCK_SIZE_def)
  have "{(a + BLOCK_SIZE, unat (bk_size b)) |a b. map_of (lay p ((m, f) # xs)) a = Some b \<and> bk_free b = 0} =
      (if f then {} else {(p + BLOCK_SIZE, m)}) \<union>
      {(a + BLOCK_SIZE, unat (bk_size b)) |a b. map_of (lay ?q xs) a = Some b \<and> bk_free b = 0}"
    (is "?L = ?R")
  proof (intro equalityI subsetI)
    fix z assume "z \<in> ?R"
    then show "z \<in> ?L"
    proof
      assume "z \<in> {(a + BLOCK_SIZE, unat (bk_size b)) |a b. map_of (lay ?q xs) a = Some b \<and> bk_free b = 0}"
      then obtain a b where ab: "z = (a + BLOCK_SIZE, unat (bk_size b))" "map_of (lay ?q xs) a = Some b" "bk_free b = 0" by blast
      then have "map_of (lay p ((m, f) # xs)) a = Some b" using low by auto
      then show ?thesis using ab by blast
    qed (use um in \<open>auto split: if_splits\<close>)
  qed (use um in \<open>auto split: if_splits\<close>)
  then show ?case using 2 by simp
qed simp

lemma my_blocks_rep: "my_rep h xs \<Longrightarrow> my_blocks h = set (in_use (mm_heap h) xs)"
  using lay_in_use [of xs "mm_heap h"] by (simp add: my_blocks_def my_rep_def MY_HEAP_SIZE_def)

lemma first_fit_in_use:
  "first_fit n xs = Some (off, c, ys) \<Longrightarrow> set (in_use p ys) = insert (p + off + BLOCK_SIZE, c) (set (in_use p xs))"
proof (induction n xs arbitrary: off c ys p rule: first_fit.induct)
  case (2 n m f xs)
  show ?case
  proof (cases "f \<and> n \<le> m")
    case True
    then show ?thesis using 2(2) by (auto simp: ac_simps split: if_splits)
  next
    case False
    then obtain off' ys' where r: "first_fit n xs = Some (off', c, ys')" "ys = (m, f) # ys'" "off = BLOCK_SIZE + m + off'"
      using 2(2) by auto
    from 2(1) [OF False r(1), of "p + BLOCK_SIZE + m"] show ?thesis using r by (auto simp: ac_simps)
  qed
qed simp

lemma first_fit_fresh:
  assumes "first_fit n xs = Some (off, c, ys)" and "y \<in> set (in_use p xs)"
  shows "fst y + snd y < p + off + BLOCK_SIZE \<or> p + off + BLOCK_SIZE + c < fst y"
  using assms
proof (induction n xs arbitrary: off c ys p rule: first_fit.induct)
  case (2 n m f xs)
  have sep: "p + BLOCK_SIZE + m < fst z" if "z \<in> set (in_use (p + BLOCK_SIZE + m) xs)" for z
    using in_use_range [OF that] by (simp add: BLOCK_SIZE_def)
  show ?case
  proof (cases "f \<and> n \<le> m")
    case True
    then show ?thesis using 2(2,3) sep [of y] by (auto split: if_splits)
  next
    case False
    then obtain off' ys' where r: "first_fit n xs = Some (off', c, ys')" "off = BLOCK_SIZE + m + off'"
      using 2(2) by auto
    from 2(1) [OF False r(1), of "p + BLOCK_SIZE + m"] show ?thesis
      using r(2) 2(3) by (auto simp: BLOCK_SIZE_def split: if_splits)
  qed
qed simp

text \<open>Giving back a block in use.\<close>

lemma in_use_free:
  assumes "(a, c) \<in> set (in_use p xs)"
  shows "set (in_use p (mark_free (a - p - BLOCK_SIZE) xs)) = set (in_use p xs) - {(a, c)}"
    and "extent (mark_free (a - p - BLOCK_SIZE) xs) = extent xs" and "mark_free (a - p - BLOCK_SIZE) xs \<noteq> []"
    and "(c, True) \<in> set (mark_free (a - p - BLOCK_SIZE) xs)"
    and "\<exists>b. map_of (lay p xs) (a - BLOCK_SIZE) = Some b \<and>
      map_of (lay p (mark_free (a - p - BLOCK_SIZE) xs)) = (map_of (lay p xs))(a - BLOCK_SIZE \<mapsto> b\<lparr>bk_free := 1\<rparr>)"
proof (atomize (full), use assms in \<open>induction p xs rule: in_use.induct\<close>)
  case (2 p m f xs)
  let ?q = "p + BLOCK_SIZE + m"
  have later: "(p + BLOCK_SIZE, d) \<notin> set (in_use ?q xs)" for d
    using in_use_range [of "(p + BLOCK_SIZE, d)" ?q xs] by (auto simp: BLOCK_SIZE_def)
  show ?case
  proof (cases "a = p + BLOCK_SIZE")
    case True
    then have "\<not> f" "c = m" using 2(2) later by (auto split: if_splits)
    then show ?thesis using True later by (auto simp: fun_upd_def)
  next
    case False
    then have r: "(a, c) \<in> set (in_use ?q xs)" using 2(2) by (auto split: if_splits)
    have ge: "?q + BLOCK_SIZE \<le> a" using in_use_range [OF r] by simp
    have off: "a - p - BLOCK_SIZE \<noteq> 0" "a - p - BLOCK_SIZE - BLOCK_SIZE - m = a - ?q - BLOCK_SIZE" "a - BLOCK_SIZE \<noteq> p"
      using ge by (auto simp: BLOCK_SIZE_def)
    note ih = 2(1) [OF r]
    have ne: "xs \<noteq> []" using r by auto
    let ?ys = "mark_free (a - ?q - BLOCK_SIZE) xs"
    have mk: "mark_free (a - p - BLOCK_SIZE) ((m, f) # xs) = (m, f) # ?ys" using off by simp
    obtain b where b: "map_of (lay ?q xs) (a - BLOCK_SIZE) = Some b"
      "map_of (lay ?q ?ys) = (map_of (lay ?q xs))(a - BLOCK_SIZE \<mapsto> b\<lparr>bk_free := 1\<rparr>)" using ih by blast
    have "map_of (lay p ((m, f) # ?ys)) = (map_of (lay p ((m, f) # xs)))(a - BLOCK_SIZE \<mapsto> b\<lparr>bk_free := 1\<rparr>)"
    proof -
      have "map_of (lay p ((m, f) # zs)) = (map_of (lay ?q zs))(p \<mapsto>
          \<lparr>bk_size = of_nat m, bk_free = (if f then 1 else 0), bk_next = ?q\<rparr>)" if "zs \<noteq> []" for zs using that by simp
      note cons = this
      have "?ys \<noteq> []" using ih by blast
      show ?thesis unfolding cons [OF ne] cons [OF \<open>?ys \<noteq> []\<close>] b(2) by (rule fun_upd_twist [OF off(3)])
    qed
    moreover have "map_of (lay p ((m, f) # xs)) (a - BLOCK_SIZE) = Some b" using b(1) off(3) by simp
    moreover have "set (in_use p ((m, f) # ?ys)) = set (in_use p ((m, f) # xs)) - {(a, c)}" using ih False by auto
    moreover have "extent ((m, f) # ?ys) = extent ((m, f) # xs)" "(c, True) \<in> set ((m, f) # ?ys)" using ih by simp_all
    ultimately show ?thesis unfolding mk by blast
  qed
qed simp

lemma my_mem_free_rep:
  assumes "my_rep h xs" and "(a, c) \<in> my_blocks h"
  shows "\<exists>h'. my_mem_free a h = Some h' \<and> my_rep h' (mark_free (a - mm_heap h - BLOCK_SIZE) xs) \<and> mm_heap h' = mm_heap h \<and>
    my_blocks h' = my_blocks h - {(a, c)} \<and> (c, True) \<in> set (mark_free (a - mm_heap h - BLOCK_SIZE) xs)"
proof -
  have u: "(a, c) \<in> set (in_use (mm_heap h) xs)" using assms my_blocks_rep by blast
  note f = in_use_free [OF u]
  have ge: "mm_heap h + BLOCK_SIZE \<le> a" using in_use_range [OF u] by simp
  have bl: "mm_blocks h = map_of (lay (mm_heap h) xs)" using assms(1) by (simp add: my_rep_def)
  obtain b where b: "mm_blocks h (a - BLOCK_SIZE) = Some b"
    "map_of (lay (mm_heap h) (mark_free (a - mm_heap h - BLOCK_SIZE) xs)) = (mm_blocks h)(a - BLOCK_SIZE \<mapsto> b\<lparr>bk_free := 1\<rparr>)"
    using f(5) unfolding bl by blast
  let ?h = "h\<lparr>mm_blocks := (mm_blocks h)(a - BLOCK_SIZE \<mapsto> b\<lparr>bk_free := 1\<rparr>)\<rparr>"
  have rep: "my_rep ?h (mark_free (a - mm_heap h - BLOCK_SIZE) xs)" using assms(1) f(2,3) b(2) by (simp add: my_rep_def)
  moreover have "my_mem_free a h = Some ?h" using ge b(1) by (simp add: my_mem_free_def BLOCK_SIZE_def)
  moreover have "my_blocks ?h = my_blocks h - {(a, c)}"
    using my_blocks_rep [OF rep] my_blocks_rep [OF assms(1)] f(1) by simp
  ultimately show ?thesis using f(4) by auto
qed

interpretation mym: reusing_allocator my_mem_alloc my_mem_free my_blocks my_inv
proof unfold_locales
  fix m :: my_heap and n :: u64
  assume "my_inv m"
  then obtain xs where "my_rep m xs" by (auto simp: my_inv_def)
  from my_mem_alloc_rep [OF this, of n] this show "\<exists>p m'. my_mem_alloc n m = Some (p, m') \<and> my_inv m'"
    by (auto simp: my_inv_def split: option.splits prod.splits)
next
  fix m m' :: my_heap and n :: u64
  assume "my_inv m" and "my_mem_alloc n m = Some (NULL, m')"
  then obtain xs where "my_rep m xs" by (auto simp: my_inv_def)
  from my_mem_alloc_rep [OF this, of n] show "my_blocks m' = my_blocks m"
    using \<open>my_mem_alloc n m = Some (NULL, m')\<close> by (auto simp: BLOCK_SIZE_def split: option.splits prod.splits)
next
  fix m m' :: my_heap and n :: u64 and p :: addr
  assume "my_inv m" and run: "my_mem_alloc n m = Some (p, m')" and "p \<noteq> NULL"
  then obtain xs where xs: "my_rep m xs" by (auto simp: my_inv_def)
  from my_mem_alloc_rep [OF this, of n] obtain off c ys where
    ff: "first_fit (unat n) xs = Some (off, c, ys)" "p = mm_heap m + off + BLOCK_SIZE" "my_rep m' ys" "mm_heap m' = mm_heap m"
    using run \<open>p \<noteq> NULL\<close> by (auto split: option.splits prod.splits)
  have b: "my_blocks m' = insert (p, c) (my_blocks m)"
    using first_fit_in_use [OF ff(1), of "mm_heap m"] my_blocks_rep [OF xs] my_blocks_rep [OF ff(3)] ff(2,4) by simp
  have sep: "fst y + snd y < p \<or> p + c < fst y" if "y \<in> my_blocks m" for y
    using first_fit_fresh [OF ff(1)] that my_blocks_rep [OF xs] ff(2) by auto
  then have "p \<notin> fst ` my_blocks m" "\<forall>y\<in>my_blocks m. payload (p, c) \<inter> payload y = {}" by (force simp: payload_def)+
  then show "\<exists>c. unat n \<le> c \<and> my_blocks m' = insert (p, c) (my_blocks m) \<and> p \<notin> fst ` my_blocks m \<and>
      (\<forall>y\<in>my_blocks m. payload (p, c) \<inter> payload y = {})" using b first_fit_total [OF ff(1)] by blast
next
  fix m :: my_heap and p c d
  assume "my_inv m" and "(p, c) \<in> my_blocks m" and "(p, d) \<in> my_blocks m"
  then show "c = d" by (auto simp: my_blocks_def)
next
  fix m :: my_heap
  show "NULL \<notin> fst ` my_blocks m" by (auto simp: my_blocks_def BLOCK_SIZE_def)
next
  fix m :: my_heap and p c
  assume "my_inv m" and b: "(p, c) \<in> my_blocks m"
  then obtain xs where "my_rep m xs" by (auto simp: my_inv_def)
  from my_mem_free_rep [OF this b] show "\<exists>m'. my_mem_free p m = Some m' \<and> my_inv m' \<and> my_blocks m' = my_blocks m - {(p, c)}"
    by (auto simp: my_inv_def)
next
  fix m m' :: my_heap and p c and n :: u64
  assume "my_inv m" and b: "(p, c) \<in> my_blocks m" and "my_mem_free p m = Some m'" and n: "unat n \<le> c"
  then obtain xs where "my_rep m xs" by (auto simp: my_inv_def)
  from my_mem_free_rep [OF this b] obtain ys where ys: "my_rep m' ys" "(c, True) \<in> set ys"
    using \<open>my_mem_free p m = Some m'\<close> by auto
  have "first_fit (unat n) ys \<noteq> None"
    unfolding first_fit_None_iff using n by (intro notI) (drule bspec [OF _ ys(2)], simp)
  then show "\<exists>q m''. my_mem_alloc n m' = Some (q, m'') \<and> q \<noteq> NULL"
    using my_mem_alloc_rep [OF ys(1), of n] by (auto simp: BLOCK_SIZE_def split: option.splits)
qed

interpretation mym_area: placed_allocator my_mem_alloc my_mem_free my_blocks my_inv "\<lambda>h. {mm_heap h ..< mm_heap h + MY_HEAP_SIZE}"
proof unfold_locales
  fix m x
  assume "my_inv m" and "x \<in> my_blocks m"
  then obtain xs where xs: "my_rep m xs" "x \<in> set (in_use (mm_heap m) xs)" by (auto simp: my_inv_def my_blocks_rep)
  then show "payload x \<subseteq> {mm_heap m ..< mm_heap m + MY_HEAP_SIZE}"
    using in_use_range [OF xs(2)] by (auto simp: payload_def my_rep_def)
next
  fix m m' :: my_heap and n :: u64 and p
  assume "my_inv m" and run: "my_mem_alloc n m = Some (p, m')"
  then obtain xs where "my_rep m xs" by (auto simp: my_inv_def)
  from my_mem_alloc_rep [OF this, of n] run have "mm_heap m' = mm_heap m" by (auto split: option.splits)
  then show "{mm_heap m' ..< mm_heap m' + MY_HEAP_SIZE} = {mm_heap m ..< mm_heap m + MY_HEAP_SIZE}" by simp
next
  fix m m' :: my_heap and p c
  assume "my_inv m" and b: "(p, c) \<in> my_blocks m" and run: "my_mem_free p m = Some m'"
  then obtain xs where "my_rep m xs" by (auto simp: my_inv_def)
  from my_mem_free_rep [OF this b] run have "mm_heap m' = mm_heap m" by auto
  then show "{mm_heap m' ..< mm_heap m' + MY_HEAP_SIZE} = {mm_heap m ..< mm_heap m + MY_HEAP_SIZE}" by simp
qed

section \<open>Accounting\<close>

text \<open>The bytes of the blocks in use and of the free ones.\<close>

fun used_bytes :: "cut list \<Rightarrow> nat" where
  "used_bytes [] = 0"
| "used_bytes ((m, f) # xs) = (if f then 0 else m) + used_bytes xs"

fun free_bytes_in :: "cut list \<Rightarrow> nat" where
  "free_bytes_in [] = 0"
| "free_bytes_in ((m, f) # xs) = (if f then m else 0) + free_bytes_in xs"

lemma extent_sum: "used_bytes xs + free_bytes_in xs + BLOCK_SIZE * length xs = extent xs"
  by (induction xs rule: extent.induct) auto

lemma status_loop_spec:
  assumes "map_of (lay p xs) \<subseteq>\<^sub>m mm_blocks h" and "xs \<noteq> []" and "p \<noteq> NULL"
  shows "status_loop p u a h = Some (u + of_nat (used_bytes xs), a + of_nat (free_bytes_in xs))"
  using assms
proof (induction xs arbitrary: p u a)
  case (Cons x xs)
  obtain m f where x: "x = (m, f)" by (cases x)
  let ?q = "p + BLOCK_SIZE + m"
  let ?b = "\<lparr>bk_size = of_nat m, bk_free = (if f then 1 else 0), bk_next = (if xs = [] then NULL else ?q)\<rparr>"
  have b: "mm_blocks h p = Some ?b" by (rule map_le_Some [OF Cons.prems(1)]) (simp add: x)
  have q: "map_of (lay ?q xs) \<subseteq>\<^sub>m mm_blocks h" using lay_tail [OF Cons.prems(1) [unfolded x]] .
  have step: "status_loop p u a h = status_loop (bk_next ?b) (u + (if f then 0 else of_nat m)) (a + (if f then of_nat m else 0)) h"
    using b Cons.prems(3) by (subst status_loop.simps) auto
  show ?case
  proof (cases "xs = []")
    case True
    have "status_loop NULL v w h = Some (v, w)" for v w by (subst status_loop.simps) simp
    then show ?thesis using step True x by simp
  next
    case False
    then show ?thesis using step Cons.IH [OF q False] Cons.prems(3) x by (simp add: add.assoc)
  qed
qed simp

section \<open>Properties\<close>

text \<open>
  C28. The linked headers implement first fit over a list of block sizes: an allocation is
  defined, takes the first free block that is large enough and cuts off the rest when a
  header fits into it, or returns null with nothing changed when there is none; freeing a
  block in use marks exactly that block; and the status adds up to the heap less one header
  for each block.
\<close>

theorem my_heap_refines_first_fit:
  assumes "my_rep h xs"
  shows "(case first_fit (unat sz) xs of
      None \<Rightarrow> my_mem_alloc sz h = Some (NULL, h)
    | Some (off, c, ys) \<Rightarrow> \<exists>h'. my_mem_alloc sz h = Some (mm_heap h + off + BLOCK_SIZE, h') \<and> my_rep h' ys) \<and>
    (\<forall>(a, c)\<in>my_blocks h. \<exists>h'. my_mem_free a h = Some h' \<and> my_rep h' (mark_free (a - mm_heap h - BLOCK_SIZE) xs) \<and>
       my_blocks h' = my_blocks h - {(a, c)}) \<and>
    (\<exists>used available. my_mem_status h = Some (of_nat MY_HEAP_SIZE, used, available) \<and>
       unat used + unat available + BLOCK_SIZE * length xs = MY_HEAP_SIZE)"
proof (intro conjI)
  show "case first_fit (unat sz) xs of None \<Rightarrow> my_mem_alloc sz h = Some (NULL, h)
    | Some (off, c, ys) \<Rightarrow> \<exists>h'. my_mem_alloc sz h = Some (mm_heap h + off + BLOCK_SIZE, h') \<and> my_rep h' ys"
    using my_mem_alloc_rep [OF assms, of sz] by (auto split: option.splits)
  show "\<forall>(a, c)\<in>my_blocks h. \<exists>h'. my_mem_free a h = Some h' \<and>
      my_rep h' (mark_free (a - mm_heap h - BLOCK_SIZE) xs) \<and> my_blocks h' = my_blocks h - {(a, c)}"
    using my_mem_free_rep [OF assms] by blast
  have r: "map_of (lay (mm_heap h) xs) \<subseteq>\<^sub>m mm_blocks h" "xs \<noteq> []" "mm_heap h \<noteq> NULL" "free_list h = mm_heap h"
    "extent xs = MY_HEAP_SIZE" using assms by (simp_all add: my_rep_def)
  have "my_mem_status h = Some (of_nat MY_HEAP_SIZE, of_nat (used_bytes xs), of_nat (free_bytes_in xs))"
    using status_loop_spec [OF r(1-3)] r(4) by (simp add: my_mem_status_def)
  moreover have "unat (of_nat (used_bytes xs) :: u64) = used_bytes xs" "unat (of_nat (free_bytes_in xs) :: u64) = free_bytes_in xs"
    using extent_sum [of xs] r(5) by (auto intro!: unat_of_nat_small simp: MY_HEAP_SIZE_def)
  ultimately show "\<exists>used available. my_mem_status h = Some (of_nat MY_HEAP_SIZE, used, available) \<and>
       unat used + unat available + BLOCK_SIZE * length xs = MY_HEAP_SIZE"
    using extent_sum [of xs] r(5) by simp
qed

lemma my_mem_init_rep: "mm_heap h \<noteq> NULL \<Longrightarrow> my_rep (my_mem_init h) [(MY_HEAP_SIZE - BLOCK_SIZE, True)]"
  by (simp add: my_rep_def my_mem_init_def my_consts)

theorem my_heap_refines_first_fit_witness:
  "\<exists>h h'. mm_heap h = 4096 \<and> my_rep h [(MY_HEAP_SIZE - BLOCK_SIZE, True)] \<and> my_mem_alloc 100 h = Some (4096 + BLOCK_SIZE, h') \<and>
     my_rep h' [(100, False), (MY_HEAP_SIZE - 100 - 2 * BLOCK_SIZE, True)]"
proof -
  let ?h = "my_mem_init \<lparr>mm_heap = 4096, mm_blocks = Map.empty, free_list = NULL\<rparr>"
  have r: "my_rep ?h [(MY_HEAP_SIZE - BLOCK_SIZE, True)]" by (rule my_mem_init_rep) simp
  have "mm_heap ?h = 4096" by (simp add: my_mem_init_def)
  moreover from this obtain h' where "my_mem_alloc 100 ?h = Some (4096 + BLOCK_SIZE, h')"
    "my_rep h' [(100, False), (MY_HEAP_SIZE - 100 - 2 * BLOCK_SIZE, True)]"
    using my_heap_refines_first_fit [OF r, of 100] by (auto simp: my_consts)
  ultimately show ?thesis using r by blast
qed

text \<open>No operation makes a block that is larger than every block there was.\<close>

lemma first_fit_bound:
  "first_fit n xs = Some (off, c, ys) \<Longrightarrow> \<forall>(m, f)\<in>set xs. m < b \<Longrightarrow> \<forall>(m, f)\<in>set ys. m < b"
  by (induction n xs arbitrary: off c ys rule: first_fit.induct) (auto split: if_splits)

lemma mark_free_bound: "\<forall>(m, f)\<in>set xs. m < b \<Longrightarrow> \<forall>(m, f)\<in>set (mark_free off xs). m < b"
  by (induction off xs rule: mark_free.induct) (auto split: if_splits)

lemma client_run_bound:
  assumes "mym.client_run h cs h'" and "my_rep h xs" and "\<forall>(m, f)\<in>set xs. m < b"
  shows "\<exists>ys. my_rep h' ys \<and> (\<forall>(m, f)\<in>set ys. m < b)"
  using assms
proof (induction arbitrary: xs rule: mym.client_run.induct)
  case (run_alloc n m p m' cs m'')
  show ?case
  proof (cases "first_fit (unat n) xs")
    case None
    then show ?thesis using my_mem_alloc_rep [OF run_alloc.prems(1), of n] run_alloc by auto
  next
    case (Some r)
    obtain off c ys where r: "r = (off, c, ys)" by (cases r)
    have "my_rep m' ys" using my_mem_alloc_rep [OF run_alloc.prems(1), of n] Some r run_alloc.hyps(1) by auto
    then show ?thesis using run_alloc.IH first_fit_bound [OF Some [unfolded r] run_alloc.prems(2)] by blast
  qed
next
  case (run_free p m m' cs m'')
  obtain c where c: "(p, c) \<in> my_blocks m" using run_free.hyps(1) by (auto simp: mym.live_def)
  have "my_rep m' (mark_free (p - mm_heap m - BLOCK_SIZE) xs)"
    using my_mem_free_rep [OF run_free.prems(1) c] run_free.hyps(2) by auto
  then show ?case using run_free.IH mark_free_bound [OF run_free.prems(2)] by blast
qed auto

text \<open>
  C29. Blocks are never joined again: once every block of the heap is smaller than a
  request, that request fails after any further sequence of allocations and frees, even when
  all memory has been given back. The blocks handed out still never overlap.
\<close>

theorem my_heap_never_coalesces:
  assumes "my_rep h xs" and "\<forall>(m, f)\<in>set xs. m < unat n" and "payloads_disjoint (my_blocks h)" and "mym.client_run h cs h'"
  shows "my_mem_alloc n h' = Some (NULL, h') \<and> payloads_disjoint (my_blocks h')"
proof -
  obtain ys where ys: "my_rep h' ys" "\<forall>(m, f)\<in>set ys. m < unat n" using client_run_bound [OF assms(4,1,2)] by blast
  then have "first_fit (unat n) ys = None" by (auto simp: first_fit_None_iff)
  then show ?thesis
    using my_mem_alloc_rep [OF ys(1), of n] mym.client_run_safe [OF assms(4) _ assms(3)] assms(1) by (auto simp: my_inv_def)
qed

theorem my_heap_never_coalesces_witness:
  "\<exists>h h'. my_mem_alloc 524000 (my_mem_init h) \<noteq> Some (NULL, my_mem_init h) \<and>
     mym.client_run (my_mem_init h) [Alloc 1000, Free (4096 + BLOCK_SIZE)] h' \<and>
     my_blocks h' = {} \<and> my_mem_alloc 524000 h' = Some (NULL, h')"
proof -
  let ?h = "\<lparr>mm_heap = 4096, mm_blocks = Map.empty, free_list = NULL\<rparr>"
  let ?i = "my_mem_init ?h" and ?xs = "[(1000, False), (MY_HEAP_SIZE - 1000 - 2 * BLOCK_SIZE, True)]"
  have i: "my_rep ?i [(MY_HEAP_SIZE - BLOCK_SIZE, True)]" "mm_heap ?i = 4096"
    by (rule my_mem_init_rep, simp) (simp add: my_mem_init_def)
  have large: "my_mem_alloc 524000 ?i \<noteq> Some (NULL, ?i)"
    using my_mem_alloc_rep [OF i(1), of 524000] i(2) by (auto simp: my_consts)
  obtain h1 where h1: "my_mem_alloc 1000 ?i = Some (4096 + BLOCK_SIZE, h1)" "my_rep h1 ?xs" "mm_heap h1 = 4096"
    using my_mem_alloc_rep [OF i(1), of 1000] i(2) by (auto simp: my_consts)
  have b1: "my_blocks h1 = {(4096 + BLOCK_SIZE, 1000)}" using my_blocks_rep [OF h1(2)] h1(3) by simp
  obtain h2 where h2: "my_mem_free (4096 + BLOCK_SIZE) h1 = Some h2" "my_blocks h2 = {}"
    using my_mem_free_rep [OF h1(2), of "4096 + BLOCK_SIZE" 1000] b1 by auto
  have run: "mym.client_run h1 [Free (4096 + BLOCK_SIZE)] h2"
    by (rule mym.run_free [OF _ h2(1) mym.run_nil]) (simp add: mym.live_def b1)
  have "\<forall>(m, f)\<in>set ?xs. m < unat (524000 :: u64)" by (simp add: my_consts)
  from my_heap_never_coalesces [OF h1(2) this _ run] have "my_mem_alloc 524000 h2 = Some (NULL, h2)"
    using b1 by (simp add: payloads_disjoint_def)
  then show ?thesis using large mym.run_alloc [OF h1(1) run] h2(2) by blast
qed

end
