(* ===== verification/Create.thy ===== *)
theory Create
  imports Process
begin

text \<open>
  Creation of processes (\<open>createProcess\<close>), the first process and its endless loop, the idle
  process of \<open>scheduler_init\<close>, the wrapper every process starts in, and the process list.
\<close>

section \<open>createProcess\<close>

text \<open>
  \<open>stackInit\<close> (\<open>libasm.asm\<close>) pushes the five words of an interrupt frame and fifteen
  registers below the top of the new stack and returns where it has got to.
\<close>

definition stackInit :: "u64 \<Rightarrow> u64" where
  "stackInit stack_top = stack_top - 8 * (5 + 15)"

text \<open>The name of the exit semaphore, \<open>"process"\<close> and three digits, in an array of 16 bytes.\<close>

fun sem_name_digits :: "nat list \<Rightarrow> u32 \<Rightarrow> u8 list \<Rightarrow> u8 list" where
  "sem_name_digits [] pid_digits sem_name = sem_name"
| "sem_name_digits (idx # is) pid_digits sem_name =
     sem_name_digits is (pid_digits div 10) (sem_name[idx := 48 + ucast (pid_digits mod 10)])"

definition exit_sem_name :: "u32 \<Rightarrow> cstring" where
  "exit_sem_name pid = (sem_name_digits [9, 8, 7] pid (ascii ''process'' @ replicate 9 0))[10 := 0]"

text \<open>
  The arguments are copied one by one; \<open>False\<close> is an allocation that failed. The caller's
  array holds strings or null pointers; its end is where it ends.
\<close>

fun copy_args :: "nat list \<Rightarrow> cstring option list \<Rightarrow> addr \<Rightarrow> kernel \<Rightarrow> (bool \<times> kernel) option" where
  "copy_args [] argv to k = Some (True, k)"
| "copy_args (i # is) argv to k =
     (if i < length argv then do {
        arg_len \<leftarrow> strlen (argv ! i);
        (p, k) \<leftarrow> kalloc (arg_len + 1) k;
        k \<leftarrow> set_arg to i p k;
        if p = NULL then Some (False, k)
        else do {
          copy \<leftarrow> strcpy (Some (replicate (unat (arg_len + 1)) 0)) (argv ! i);
          copy \<leftarrow> copy;
          k \<leftarrow> Some (k\<lparr>strs := (strs k)(p \<mapsto> copy[unat arg_len := 0])\<rparr>);
          copy_args is argv to k
        }
      } else None)"

datatype create_pc =
    CP_Attach nat "attach_frame option"
  | CP_Undo "u8 list" "unattach_frame option"
  | CP_Register
  | CP_Ret addr

text \<open>\<open>cf_attached\<close> are the pipes attached so far, the last one first.\<close>

record create_frame =
  cf_process :: addr
  cf_ppid :: u32
  cf_parent :: addr
  cf_foreground :: u8
  cf_targets :: "u8 list"
  cf_attached :: "u8 list"
  cf_pc :: create_pc

definition create_failed :: create_frame where
  "create_failed = \<lparr>cf_process = NULL, cf_ppid = 0, cf_parent = NULL, cf_foreground = 0, cf_targets = [],
     cf_attached = [], cf_pc = CP_Ret NULL\<rparr>"

definition create_returned :: "create_frame \<Rightarrow> bool" where
  "create_returned f \<longleftrightarrow> (case cf_pc f of CP_Ret _ \<Rightarrow> True | _ \<Rightarrow> False)"

text \<open>
  The descriptor, its arguments, its stack and its exit semaphore: the part of
  \<open>createProcess\<close> before the first call that can be suspended. The value is the descriptor,
  or \<open>NULL\<close> with everything given back.
\<close>

definition give_up_process :: "addr \<Rightarrow> kernel \<Rightarrow> (addr \<times> kernel) option" where
  "give_up_process process k = do { k \<leftarrow> process_free_memory process k; Some (NULL, k) }"

definition build_exit_sem :: "addr \<Rightarrow> u32 \<Rightarrow> kernel \<Rightarrow> (addr \<times> kernel) option" where
  "build_exit_sem process pid k = do {
     (s, k) \<leftarrow> sem_create k;
     k \<leftarrow> upd_proc process (\<lambda>pr. pr\<lparr>pr_exit_sem := s\<rparr>) k;
     if s = NULL then give_up_process process k
     else do {
       k \<leftarrow> sem_init s (Some (exit_sem_name pid)) 0 k;
       r \<leftarrow> sems k s;
       nm \<leftarrow> s_name r;
       no_queue \<leftarrow> (if nm = NULL then Some True else do { q \<leftarrow> s_waiting r; Some (q = NULL) });
       if no_queue then give_up_process process k else Some (process, k)
     }
   }"

definition build_stack :: "addr \<Rightarrow> u32 \<Rightarrow> kernel \<Rightarrow> (addr \<times> kernel) option" where
  "build_stack process pid k = do {
     (stack_base, k) \<leftarrow> kalloc PROCESS_STACK_SIZE k;
     if stack_base = NULL then give_up_process process k
     else do {
       k \<leftarrow> Some (k\<lparr>raws := (raws k)(stack_base \<mapsto> PROCESS_STACK_SIZE)\<rparr>);
       k \<leftarrow> upd_proc process (\<lambda>pr. pr\<lparr>pr_stack_base := stack_base\<rparr>) k;
       k \<leftarrow> upd_proc process (\<lambda>pr. pr\<lparr>pr_rsp := stackInit (of_nat stack_base + PROCESS_STACK_SIZE - 8)\<rparr>) k;
       build_exit_sem process pid k
     }
   }"

definition build_args :: "int \<Rightarrow> cstring option list \<Rightarrow> addr \<Rightarrow> u32 \<Rightarrow> kernel \<Rightarrow> (addr \<times> kernel) option" where
  "build_args argc argv process pid k = do {
     argv_count \<leftarrow> Some (of_int argc + 1 :: u64);
     (args, k) \<leftarrow> kalloc (8 * argv_count) k;
     k \<leftarrow> upd_proc process (\<lambda>pr. pr\<lparr>pr_argv := args\<rparr>) k;
     if args = NULL then give_up_process process k
     else do {
       k \<leftarrow> Some (k\<lparr>argvs := (argvs k)(args \<mapsto> replicate (unat argv_count) NULL)\<rparr>);
       (copied, k) \<leftarrow> copy_args [0..<nat argc] argv args k;
       if \<not> copied then give_up_process process k
       else do {
         k \<leftarrow> set_arg args (nat argc) NULL k;
         as \<leftarrow> argvs k args;
         k \<leftarrow> (if 0 < argc then upd_proc process (\<lambda>pr. pr\<lparr>pr_name := as ! 0\<rparr>) k else Some k);
         build_stack process pid k
       }
     }
   }"

definition new_descriptor :: "int \<Rightarrow> u32 \<Rightarrow> u32 \<Rightarrow> u8 \<Rightarrow> addr \<Rightarrow> process" where
  "new_descriptor argc pid ppid priority entry_point =
     zero_process\<lparr>pr_pid := pid, pr_ppid := ppid, pr_argc := argc, pr_entry := entry_point,
       pr_state := PROCESS_STATE_READY, pr_priority := priority, pr_priority_requested := priority,
       pr_priority_fixed := False, pr_is_shell := False, pr_remaining_quantum := SCHEDULER_DEFAULT_QUANTUM,
       pr_last_quantum_ticks := 0, pr_children := NULL\<rparr>"

text \<open>What happens behind the calls that can be suspended.\<close>

definition create_step :: "create_frame \<Rightarrow> kernel \<Rightarrow> (create_frame \<times> bool \<times> kernel) option" where
  "create_step f k =
     (case cf_pc f of
        CP_Attach i c \<Rightarrow> do {
          (a, k) \<leftarrow> call_attach (cf_targets f ! i) c k;
          (case a of
             A_Ret r \<Rightarrow>
               let continue = (if i < 2 then CP_Attach (i + 1) None else CP_Register)
               in if r = 0 then Some (f\<lparr>cf_attached := cf_targets f ! i # cf_attached f, cf_pc := continue\<rparr>, False, k)
                  else if PROCESS_FIRST_PID \<le> cf_ppid f
                  then Some (f\<lparr>cf_pc := CP_Undo (cf_attached f) None\<rparr>, False, k)
                  else Some (f\<lparr>cf_pc := continue\<rparr>, False, k)
           | _ \<Rightarrow> Some (f\<lparr>cf_pc := CP_Attach i (Some a)\<rparr>, True, k))
        }
      | CP_Undo [] c \<Rightarrow> do {
          k \<leftarrow> process_free_memory (cf_process f) k;
          Some (f\<lparr>cf_pc := CP_Ret NULL\<rparr>, False, k)
        }
      | CP_Undo (t # ts) c \<Rightarrow> do {
          pr \<leftarrow> procs k (cf_process f);
          (u, k) \<leftarrow> call_unattach t (pr_pid pr) c k;
          if u = U_Ret then Some (f\<lparr>cf_pc := CP_Undo ts None\<rparr>, False, k)
          else Some (f\<lparr>cf_pc := CP_Undo (t # ts) (Some u)\<rparr>, True, k)
        }
      | CP_Register \<Rightarrow> do {
          (registered, k) \<leftarrow> process_register (cf_process f) k;
          if \<not> registered then Some (f\<lparr>cf_pc := CP_Undo (cf_attached f) None\<rparr>, False, k)
          else do {
            (added, k) \<leftarrow> (if cf_parent f \<noteq> NULL then add_child (cf_parent f) (cf_process f) k else Some (True, k));
            pr \<leftarrow> procs k (cf_process f);
            if \<not> added
            then Some (f\<lparr>cf_pc := CP_Undo (cf_attached f) None\<rparr>, False, process_unregister (pr_pid pr) k)
            else
              let k = (case pcb k of
                         Some (a, t) \<Rightarrow>
                           if cf_foreground f \<noteq> 0 then k\<lparr>pcb := Some (a, t\<lparr>pc_foreground_pid := pr_pid pr\<rparr>)\<rparr> else k
                       | None \<Rightarrow> k)
              in Some (f\<lparr>cf_pc := CP_Ret (cf_process f)\<rparr>, False, k)
          }
        }
      | CP_Ret p \<Rightarrow> Some (f, False, k))"

definition createProcess ::
  "int \<Rightarrow> cstring option list \<Rightarrow> u32 \<Rightarrow> u8 \<Rightarrow> u8 \<Rightarrow> addr \<Rightarrow> kernel \<Rightarrow> (create_frame \<times> kernel) option"
where
  "createProcess argc argv ppid priority foreground entry_point k =
     (if entry_point = NULL then Some (create_failed, k)
      else
        let pid = allocate_pid k
        in if pid = 0 then Some (create_failed, k)
        else do {
          (process, k) \<leftarrow> kalloc PROCESS_SIZE k;
          if process = NULL then Some (create_failed, k)
          else do {
            k \<leftarrow> Some (k\<lparr>procs := (procs k)(process \<mapsto> new_descriptor argc pid ppid priority entry_point)\<rparr>);
            parent \<leftarrow> Some (if PROCESS_FIRST_PID \<le> ppid then process_lookup ppid k else NULL);
            if PROCESS_FIRST_PID \<le> ppid \<and> parent = NULL
            then do { k \<leftarrow> process_free_memory process k; Some (create_failed, k) }
            else do {
              targets \<leftarrow> (if parent = NULL then Some [STDIN, STDOUT, STDERR]
                          else do { pa \<leftarrow> procs k parent; Some (pr_fd_targets pa) });
              k \<leftarrow> upd_proc process (\<lambda>pr. pr\<lparr>pr_fd_targets := targets\<rparr>) k;
              (built, k) \<leftarrow> build_args argc argv process pid k;
              if built = NULL then Some (create_failed, k)
              else run create_step create_returned
                     \<lparr>cf_process = process, cf_ppid = ppid, cf_parent = parent, cf_foreground = foreground,
                      cf_targets = targets, cf_attached = [], cf_pc = CP_Attach 0 None\<rparr> k
            }
          }
        })"

section \<open>The wrapper around the code of a process\<close>

text \<open>
  \<open>PW_User\<close> is the state in which the code of the process runs; it is left for \<open>PW_Done\<close>
  when that code returns. A process without code exits and then calls a null pointer, a
  missing descriptor is dereferenced: both are undefined.
\<close>

datatype wrapper_frame = PW_Start | PW_User addr addr | PW_Done addr | PW_Exit exit_frame | PW_Loop

fun wrapper_step :: "wrapper_frame \<Rightarrow> kernel \<Rightarrow> (wrapper_frame \<times> bool \<times> kernel) option" where
  "wrapper_step PW_Start k = do {
     current \<leftarrow> Some (scheduler_current k);
     pr \<leftarrow> procs k current;
     if pr_entry pr = NULL then None else Some (PW_User current (pr_entry pr), False, k)
   }"
| "wrapper_step (PW_User current user_func) k = Some (PW_User current user_func, False, k)"
| "wrapper_step (PW_Done current) k = do {
     (f, k) \<leftarrow> process_exit current k;
     Some (PW_Exit f, \<not> exit_returned f, k)
   }"
| "wrapper_step (PW_Exit f) k =
     (if exit_returned f then Some (PW_Loop, False, k)
      else do {
        (f, k) \<leftarrow> run exit_step exit_returned f k;
        Some (PW_Exit f, \<not> exit_returned f, k)
      })"
| "wrapper_step PW_Loop k = do {
     (yields, k) \<leftarrow> process_yield k;
     Some (PW_Loop, yields, k)
   }"

section \<open>The first process\<close>

text \<open>
  \<open>init_first_process_entry\<close> creates the shell, and then takes the terminated children off
  its queue for ever, starting a new shell when the main shell is among them. \<open>I_Create\<close> is
  suspended in \<open>createProcess\<close> (\<open>None\<close>: the first shell; \<open>Some n\<close>: a later one, with \<open>n\<close>
  children still to look at), \<open>I_Reap\<close> in \<open>reap_child_process\<close>.
\<close>

datatype init_frame =
    I_Start
  | I_Create create_frame addr "nat option"
  | I_Loop
  | I_Children nat addr
  | I_Reap reap_frame bool nat addr
  | I_Scan addr

definition shell_started :: "addr \<Rightarrow> nat option \<Rightarrow> kernel \<Rightarrow> kernel option" where
  "shell_started shell again k =
     (if shell = NULL then Some k
      else do {
        k \<leftarrow> upd_proc shell (\<lambda>pr. pr\<lparr>pr_is_shell := True\<rparr>) k;
        pr \<leftarrow> procs k shell;
        case again of
          None \<Rightarrow> do {
            k \<leftarrow> Some (k\<lparr>shell_created := True\<rparr>);
            k \<leftarrow> Some (case pcb k of
                   None \<Rightarrow> k
                 | Some (a, t) \<Rightarrow> k\<lparr>pcb := Some (a, t\<lparr>pc_main_shell_pid := pr_pid pr\<rparr>)\<rparr>);
            scheduler_add_ready shell k
          }
        | Some _ \<Rightarrow> do {
            k \<leftarrow> scheduler_add_ready shell k;
            (a, t) \<leftarrow> pcb k;
            pr \<leftarrow> procs k shell;
            Some (k\<lparr>pcb := Some (a, t\<lparr>pc_main_shell_pid := pr_pid pr\<rparr>)\<rparr>)
          }
      })"

definition create_shell :: "addr \<Rightarrow> kernel \<Rightarrow> (create_frame \<times> kernel) option" where
  "create_shell self k = do {
     pr \<leftarrow> procs k self;
     createProcess 1 [Some SHELL_PROCESS_NAME, None] (pr_pid pr) SCHEDULER_MAX_PRIORITY 1 SHELL_PROCESS_ENTRY k
   }"

text \<open>\<open>mark_ready_process\<close> on every ready process: is there one besides \<open>self\<close>?\<close>

definition mark_ready_process :: "addr \<Rightarrow> addr \<Rightarrow> bool \<Rightarrow> bool" where
  "mark_ready_process self process found = (if process \<noteq> NULL \<and> process \<noteq> self then True else found)"

fun scan_queues :: "addr list \<Rightarrow> addr \<Rightarrow> kernel \<Rightarrow> bool \<Rightarrow> bool option" where
  "scan_queues [] self k found = Some found"
| "scan_queues (q # qs) self k found = do {
     it \<leftarrow> queue_iter q k;
     n \<leftarrow> queue_size q k;
     xs \<leftarrow> iterate (unat n + 1) it k;
     scan_queues qs self k (fold (mark_ready_process self) xs found)
   }"

definition init_step :: "init_frame \<Rightarrow> kernel \<Rightarrow> (init_frame \<times> bool \<times> kernel) option" where
  "init_step f k =
     (case f of
        I_Start \<Rightarrow>
          if \<not> shell_created k \<and> scheduler_current k \<noteq> NULL then do {
            (c, k) \<leftarrow> create_shell (scheduler_current k) k;
            Some (I_Create c (scheduler_current k) None, \<not> create_returned c, k)
          }
          else Some (I_Loop, False, k)
      | I_Create c self again \<Rightarrow>
          (case cf_pc c of
             CP_Ret shell \<Rightarrow> do {
               k \<leftarrow> shell_started shell again k;
               Some (case again of None \<Rightarrow> I_Loop | Some n \<Rightarrow> I_Children n self, False, k)
             }
           | _ \<Rightarrow> do {
               (c, k) \<leftarrow> run create_step create_returned c k;
               Some (I_Create c self again, \<not> create_returned c, k)
             })
      | I_Loop \<Rightarrow> do {
          self \<leftarrow> Some (scheduler_current k);
          if self = NULL then Some (I_Scan self, False, k)
          else do {
            pr \<leftarrow> procs k self;
            empty \<leftarrow> (if pr_children pr = NULL then Some True else queue_is_empty (pr_children pr) k);
            if empty then Some (I_Scan self, False, k)
            else do {
              children \<leftarrow> queue_size (pr_children pr) k;
              Some (I_Children (unat children) self, False, k)
            }
          }
        }
      | I_Children 0 self \<Rightarrow> Some (I_Scan self, False, k)
      | I_Children (Suc n) self \<Rightarrow> do {
          pr \<leftarrow> procs k self;
          (child, k) \<leftarrow> queue_pop (pr_children pr) k;
          if child = NULL then Some (I_Children n self, False, k)
          else do {
            ch \<leftarrow> procs k child;
            if pr_state ch = PROCESS_STATE_TERMINATED then do {
              was_main_shell \<leftarrow> Some (case pcb k of None \<Rightarrow> False | Some (_, t) \<Rightarrow> pr_pid ch = pc_main_shell_pid t);
              (r, k) \<leftarrow> reap_child_process child k;
              Some (I_Reap r was_main_shell n self, \<not> reap_returned r, k)
            }
            else do {
              (_, k) \<leftarrow> queue_push (pr_children pr) child k;
              Some (I_Children n self, False, k)
            }
          }
        }
      | I_Reap r was_main_shell n self \<Rightarrow>
          if \<not> reap_returned r then do {
            (r, k) \<leftarrow> run reap_step reap_returned r k;
            Some (I_Reap r was_main_shell n self, \<not> reap_returned r, k)
          }
          else if was_main_shell then do {
            (c, k) \<leftarrow> create_shell self k;
            Some (I_Create c self (Some n), \<not> create_returned c, k)
          }
          else Some (I_Children n self, False, k)
      | I_Scan self \<Rightarrow> do {
          found \<leftarrow> scan_queues (sch_ready_queues k) self k False;
          (yields, k) \<leftarrow> (if found then process_yield k else Some (False, k));
          Some (I_Loop, yields, k)
        })"

text \<open>
  \<open>add_first_process\<close> runs before there is any process, so the calls it makes return at
  once; a call that is suspended here has no process to go on with, and the kernel hangs.
\<close>

definition attach_now :: "u8 \<Rightarrow> kernel \<Rightarrow> (int \<times> kernel) option" where
  "attach_now ident k = do {
     (f, k) \<leftarrow> attach_to_pipe ident k;
     case f of A_Ret r \<Rightarrow> Some (r, k) | _ \<Rightarrow> None
   }"

fun close_all :: "int list \<Rightarrow> kernel \<Rightarrow> kernel option" where
  "close_all [] k = Some k"
| "close_all (i # is) k = do {
     (f, k) \<leftarrow> close_pipe (of_int i) k;
     if close_returned f then close_all is k else None
   }"

text \<open>One standard stream: opened, with the number it must have, and attached.\<close>

definition open_std :: "u8 \<Rightarrow> int list \<Rightarrow> kernel \<Rightarrow> (int option \<times> kernel) option" where
  "open_std std opened k = do {
     (i, k) \<leftarrow> open_pipe k;
     if i < 0 then do { k \<leftarrow> close_all opened k; Some (None, k) }
     else if i \<noteq> int (unat std) then do { k \<leftarrow> close_all (i # opened) k; Some (None, k) }
     else do {
       (r, k) \<leftarrow> attach_now (of_int i) k;
       if r \<noteq> 0 then do { k \<leftarrow> close_all (i # opened) k; Some (None, k) }
       else Some (Some i, k)
     }
   }"

definition create_init :: "addr \<Rightarrow> int list \<Rightarrow> kernel \<Rightarrow> (int \<times> kernel) option" where
  "create_init init_entry opened k = do {
     (c, k) \<leftarrow> createProcess 1 [Some INIT_PROCESS_NAME, None] 0 SCHEDULER_MAX_PRIORITY 0 init_entry k;
     (case cf_pc c of
        CP_Ret init_process \<Rightarrow>
          if init_process = NULL then do { k \<leftarrow> close_all opened k; Some (-1, k) }
          else do {
            pr \<leftarrow> procs k init_process;
            k \<leftarrow> Some (case pcb k of
                   None \<Rightarrow> k
                 | Some (a, t) \<Rightarrow> k\<lparr>pcb := Some (a, t\<lparr>pc_init_pid := pr_pid pr\<rparr>)\<rparr>);
            k \<leftarrow> scheduler_add_ready init_process k;
            pr \<leftarrow> procs k init_process;
            Some (sint (pr_pid pr), k)
          }
      | _ \<Rightarrow> None)
   }"

definition add_first_process :: "addr \<Rightarrow> kernel \<Rightarrow> (int \<times> kernel) option" where
  "add_first_process init_entry k = do {
     (std_in, k) \<leftarrow> open_std STDIN [] k;
     case std_in of
       None \<Rightarrow> Some (-1, k)
     | Some i \<Rightarrow> do {
         (std_out, k) \<leftarrow> open_std STDOUT [i] k;
         case std_out of
           None \<Rightarrow> Some (-1, k)
         | Some j \<Rightarrow> do {
             (std_err, k) \<leftarrow> open_std STDERR [j, i] k;
             case std_err of
               None \<Rightarrow> Some (-1, k)
             | Some l \<Rightarrow> create_init init_entry [l, j, i] k
           }
       }
   }"

text \<open>
  \<open>scheduler_init\<close>: the ready queues and the idle process. The array \<open>argv_idle\<close> is not
  checked: without memory for it the write is undefined.
\<close>

definition scheduler_init :: "addr \<Rightarrow> kernel \<Rightarrow> kernel option" where
  "scheduler_init idle_entry k = do {
     k \<leftarrow> init_ready_queues [0..<SCHEDULER_PRIORITY_LEVELS] k;
     (argv_idle, k) \<leftarrow> kalloc 8 k;
     if argv_idle = NULL then None
     else do {
       k \<leftarrow> Some (k\<lparr>raws := (raws k)(argv_idle \<mapsto> 8)\<rparr>);
       (c, k) \<leftarrow> createProcess 1 [Some (ascii ''idle'' @ [0])] 0 SCHEDULER_MIN_PRIORITY 0 idle_entry k;
       (case cf_pc c of CP_Ret idle \<Rightarrow> Some (k\<lparr>sch_idle := idle\<rparr>) | _ \<Rightarrow> None)
     }
   }"

section \<open>The process list\<close>

fun process_state_to_string :: "process_state \<Rightarrow> u8 list" where
  "process_state_to_string PROCESS_STATE_READY = ascii ''ready''"
| "process_state_to_string PROCESS_STATE_RUNNING = ascii ''running''"
| "process_state_to_string PROCESS_STATE_BLOCKED = ascii ''blocked''"
| "process_state_to_string PROCESS_STATE_TERMINATED = ascii ''terminated''"

definition yes_no :: "bool \<Rightarrow> u8 list" where
  "yes_no b = (if b then ascii ''yes'' else ascii ''no'')"

definition print_process :: "pcb_t \<Rightarrow> addr \<Rightarrow> kernel \<Rightarrow> video_call list option" where
  "print_process t process k = do {
     pr \<leftarrow> procs k process;
     name \<leftarrow> (if pr_name pr \<noteq> NULL then do { s \<leftarrow> strs k (pr_name pr); Some (cstr s) } else Some (ascii ''<unnamed>''));
     Some [Print (ascii ''PID: ''), PrintDec (ucast (pr_pid pr)), Print (ascii '' | Name: ''), Print name,
           Print (ascii '' | PPID: ''), PrintDec (ucast (pr_ppid pr)), NewLine,
           Print (ascii ''    State: ''), Print (process_state_to_string (pr_state pr)),
           Print (ascii '' | Priority: ''), PrintDec (ucast (pr_priority pr)),
           Print (ascii '' | Foreground: ''), Print (yes_no (pc_foreground_pid t = pr_pid pr)),
           Print (ascii '' | Running: ''), Print (yes_no (pr_pid pr = pc_running_pid t)), NewLine,
           Print (ascii ''    Stack base: 0x''), PrintHex (of_nat (pr_stack_base pr)),
           Print (ascii '' | Stack ptr: 0x''), PrintHex (pr_rsp pr), NewLine,
           Print (ascii ''    Remaining quantum: ''), PrintDec (ucast (pr_remaining_quantum pr)),
           Print (ascii '' | Last quantum ticks: ''), PrintDec (ucast (pr_last_quantum_ticks pr)), NewLine, NewLine]
   }"

fun print_processes :: "pcb_t \<Rightarrow> addr list \<Rightarrow> kernel \<Rightarrow> nat \<Rightarrow> (nat \<times> video_call list) option" where
  "print_processes t [] k count = Some (count, [])"
| "print_processes t (p # ps) k count =
     (if p = NULL then print_processes t ps k count
      else do {
        out \<leftarrow> print_process t p k;
        (count, rest) \<leftarrow> print_processes t ps k (count + 1);
        Some (count, out @ rest)
      })"

definition print_process_list :: "kernel \<Rightarrow> (int \<times> video_call list) option" where
  "print_process_list k =
     (case pcb k of
        None \<Rightarrow> Some (0, [Print (ascii ''No processes found.'' @ [10])])
      | Some (_, t) \<Rightarrow> do {
          (count, out) \<leftarrow> print_processes t (pc_processes t) k 0;
          Some (int count,
            Print (ascii ''=== Process list ==='' @ [10]) # out @
            (if count = 0 then [Print (ascii ''No processes found.'' @ [10])]
             else [Print (ascii ''Total processes: ''), PrintDec (of_nat count), NewLine]))
        })"

end
