(* ===== verification/Args.thy ===== *)
theory Args
  imports Process_Props
begin

text \<open>
  The arguments of a new process: copied one by one into memory of their own, or, when memory
  runs out, given back without a trace.
\<close>

section \<open>Arguments held\<close>

text \<open>
  \<open>args_held k0 to n as c J k\<close>: compared with \<open>k0\<close>, the kernel \<open>k\<close> has the array \<open>as\<close> at
  \<open>to\<close>, and for each index of \<open>J\<close> the array points to a string \<open>c i\<close> of its own.
\<close>

definition args_held :: "kernel \<Rightarrow> addr \<Rightarrow> nat \<Rightarrow> addr list \<Rightarrow> (nat \<Rightarrow> cstring) \<Rightarrow> nat set \<Rightarrow> kernel \<Rightarrow> bool" where
  "args_held k0 to n as c J k \<longleftrightarrow> heap_ok k \<and> J \<subseteq> {..<n} \<and> n \<le> length as \<and> argvs k0 to \<noteq> None \<and>
     k = k0\<lparr>kmem := kmem k, strs := strs k, argvs := (argvs k0)(to \<mapsto> as)\<rparr> \<and>
     inj_on ((!) as) J \<and> (\<forall>i<n. i \<notin> J \<longrightarrow> as ! i = NULL) \<and>
     (\<forall>i\<in>J. as ! i \<noteq> NULL \<and> strs k0 (as ! i) = None \<and> strs k (as ! i) = Some (c i)) \<and>
     (\<forall>p. p \<notin> (!) as ` J \<longrightarrow> strs k p = strs k0 p)"

lemma args_heldD:
  assumes "args_held k0 to n as c J k"
  shows "heap_ok k" "J \<subseteq> {..<n}" "n \<le> length as" "argvs k0 to \<noteq> None"
    "k = k0\<lparr>kmem := kmem k, strs := strs k, argvs := (argvs k0)(to \<mapsto> as)\<rparr>" "inj_on ((!) as) J"
    "i < n \<Longrightarrow> i \<notin> J \<Longrightarrow> as ! i = NULL" "i \<in> J \<Longrightarrow> as ! i \<noteq> NULL" "i \<in> J \<Longrightarrow> strs k0 (as ! i) = None"
    "i \<in> J \<Longrightarrow> strs k (as ! i) = Some (c i)" "p \<notin> (!) as ` J \<Longrightarrow> strs k p = strs k0 p"
    "argvs k = (argvs k0)(to \<mapsto> as)"
proof -
  show e: "k = k0\<lparr>kmem := kmem k, strs := strs k, argvs := (argvs k0)(to \<mapsto> as)\<rparr>" using assms by (simp add: args_held_def)
  show "argvs k = (argvs k0)(to \<mapsto> as)" by (subst e) simp
qed (use assms in \<open>simp_all add: args_held_def\<close>)

lemma args_held_add:
  assumes h: "args_held k0 to n as c J k" and i: "i < n" "i \<notin> J"
    and m: "p \<noteq> NULL" "objects_at k p = 0" "buddy_inv m" "bud.live m = insert p (bud.live (kmem k))"
  shows "args_held k0 to n (as[i := p]) (c(i := s)) (insert i J)
    (k\<lparr>kmem := m, argvs := (argvs k)(to \<mapsto> as[i := p]), strs := (strs k)(p \<mapsto> s)\<rparr>)" (is "args_held _ _ _ ?as ?c ?J ?k")
proof -
  note d = args_heldD [OF h]
  have il: "i < length as" using i(1) d(3) by simp
  have sp: "strs k p = None" using m(2) by (auto simp: objects_at_def of_bool_def split: if_splits)
  have pn: "p \<notin> (!) as ` J" using d(10) sp by fastforce
  then have sp0: "strs k0 p = None" using d(11) sp by metis
  have nth: "?as ! j = (if j = i then p else as ! j)" if "j < n" for j using that d(3) il by (simp add: nth_list_update)
  have img: "(!) ?as ` ?J = insert p ((!) as ` J)" using nth d(2) i(2) il by (auto simp: image_iff) (metis lessThan_iff nth_list_update_neq subsetD)+
  have "heap_ok (k\<lparr>kmem := m, strs := (strs k)(p \<mapsto> s)\<rparr>)" by (rule heap_ok_new(2) [OF d(1) m(2-4)])
  then have "heap_ok ((k\<lparr>kmem := m, strs := (strs k)(p \<mapsto> s)\<rparr>)\<lparr>argvs := (argvs k)(to \<mapsto> ?as)\<rparr>)"
    using heap_ok_write(5) [of "k\<lparr>kmem := m, strs := (strs k)(p \<mapsto> s)\<rparr>" to ?as] d(12) by simp
  then have hp: "heap_ok ?k" by (cases k) simp
  have inj: "inj_on ((!) ?as) ?J"
    using d(2,6) i nth pn by (auto simp: inj_on_def) (metis image_eqI lessThan_iff subsetD)+
  have eq: "?k = k0\<lparr>kmem := kmem ?k, strs := strs ?k, argvs := (argvs k0)(to \<mapsto> ?as)\<rparr>"
    using d(5,12) by (cases k0, cases k) auto
  have "\<forall>j\<in>?J. ?as ! j \<noteq> NULL \<and> strs k0 (?as ! j) = None \<and> strs ?k (?as ! j) = Some (?c j)"
  proof
    fix j
    assume j: "j \<in> ?J"
    then have jn: "j < n" using d(2) i(1) by auto
    show "?as ! j \<noteq> NULL \<and> strs k0 (?as ! j) = None \<and> strs ?k (?as ! j) = Some (?c j)"
      using j nth [OF jn] m(1) sp0 d(8-10) pn by (cases "j = i") auto
  qed
  moreover have "\<forall>j<n. j \<notin> ?J \<longrightarrow> ?as ! j = NULL" using nth d(7) by auto
  moreover have "\<forall>x. x \<notin> (!) ?as ` ?J \<longrightarrow> strs ?k x = strs k0 x" unfolding img using d(11) by auto
  moreover have "?J \<subseteq> {..<n}" "n \<le> length ?as" using d(2,3) i(1) by auto
  ultimately show ?thesis using hp inj d(4) eq unfolding args_held_def by blast
qed

lemma args_held_drop:
  assumes h: "args_held k0 to n as c J k" and i: "i \<in> J"
  obtains k1 k2 where "free_str (as ! i) k = Some k1" "set_arg to i NULL k1 = Some k2"
    "args_held k0 to n (as[i := NULL]) c (J - {i}) k2"
proof -
  note d = args_heldD [OF h]
  let ?p = "as ! i" and ?as = "as[i := NULL]" and ?J = "J - {i}"
  have il: "i < length as" "i < n" using i d(2,3) by auto
  have st: "strs k ?p \<noteq> None" using d(10) [OF i] by simp
  then have o: "objects_at k ?p \<noteq> 0" by (simp add: objects_at_def)
  obtain m where m: "kfree ?p k = Some (k\<lparr>kmem := m\<rparr>)" "buddy_inv m" "bud.live m = bud.live (kmem k) - {?p}"
    by (rule kfree_object [OF d(1) o])
  let ?k1 = "k\<lparr>kmem := m, strs := (strs k)(?p := None)\<rparr>"
  have fr: "free_str ?p k = Some ?k1" using m(1) by (simp add: free_str_def)
  have obj: "objects_at ?k1 x = objects_at (k\<lparr>strs := (strs k)(?p := None)\<rparr>) x" for x by (simp add: objects_at_def)
  have h1: "heap_ok ?k1"
    by (rule heap_ok_remove [OF m(2,3) d(1) o]) (simp, simp only: obj objects_at_gone(7) [OF d(1) st])
  let ?k2 = "?k1\<lparr>argvs := (argvs k)(to \<mapsto> ?as)\<rparr>"
  have sa: "set_arg to i NULL ?k1 = Some ?k2" using d(12) il by (simp add: set_arg_def)
  have hp: "heap_ok ?k2" using h1 heap_ok_write(5) [of ?k1 to ?as] d(12) by simp
  have nth: "?as ! j = (if j = i then NULL else as ! j)" if "j < n" for j using that d(3) il by (simp add: nth_list_update)
  have img: "(!) ?as ` ?J = (!) as ` J - {?p}"
    using nth d(2,6) i il by (auto simp: inj_on_def image_iff)
  have inj: "inj_on ((!) ?as) ?J" using d(2,6) nth by (auto simp: inj_on_def)
  have eq: "?k2 = k0\<lparr>kmem := kmem ?k2, strs := strs ?k2, argvs := (argvs k0)(to \<mapsto> ?as)\<rparr>"
    using d(5,12) by (cases k0, cases k) auto
  have ne: "as ! j \<noteq> ?p" if "j \<in> ?J" for j using that d(6) i by (auto simp: inj_on_def)
  have "\<forall>j\<in>?J. ?as ! j \<noteq> NULL \<and> strs k0 (?as ! j) = None \<and> strs ?k2 (?as ! j) = Some (c j)"
  proof
    fix j
    assume j: "j \<in> ?J"
    then have jn: "j < n" "j \<in> J" using d(2) by auto
    show "?as ! j \<noteq> NULL \<and> strs k0 (?as ! j) = None \<and> strs ?k2 (?as ! j) = Some (c j)"
      using j nth [OF jn(1)] d(8-10) [OF jn(2)] ne [OF j] by auto
  qed
  moreover have "\<forall>j<n. j \<notin> ?J \<longrightarrow> ?as ! j = NULL" using nth d(7) by auto
  moreover have "\<forall>x. x \<notin> (!) ?as ` ?J \<longrightarrow> strs ?k2 x = strs k0 x" unfolding img using d(9,11) i by auto
  moreover have "?J \<subseteq> {..<n}" "n \<le> length ?as" using d(2,3) by auto
  ultimately have "args_held k0 to n ?as c ?J ?k2" using hp inj d(4) eq unfolding args_held_def by blast
  then show ?thesis by (rule that [OF fr sa])
qed


text \<open>Copying holds one more argument each time, or stops; freeing gives all of them back.\<close>

lemma copy_args_spec:
  assumes "args_held k0 to n as c {..<j} k" and "j \<le> n" and "n \<le> length argv"
    and "\<forall>i<n. \<exists>s. argv ! i = Some s \<and> 0 \<in> set s \<and> length (cstr s) < 2 ^ 64 - 1"
  shows "\<exists>b k' as' c' j'. copy_args [j..<n] argv to k = Some (b, k') \<and> args_held k0 to n as' c' {..<j'} k' \<and> j' \<le> n \<and>
    (b \<longrightarrow> j' = n) \<and> (\<forall>i<j. c' i = c i) \<and> (\<forall>i. j \<le> i \<and> i < j' \<longrightarrow> c' i = cstr (the (argv ! i)) @ [0])"
  using assms
proof (induction "n - j" arbitrary: j k as c)
  case 0
  then have "[j..<n] = []" by simp
  then show ?case using 0(2,3) 0(1) by (intro exI [of _ True] exI [of _ k] exI [of _ as] exI [of _ c] exI [of _ j]) auto
next
  case (Suc d)
  have jn: "j < n" using Suc.hyps(2) by simp
  then have upt: "[j..<n] = j # [Suc j..<n]" by (rule upt_conv_Cons)
  note h = args_heldD [OF Suc.prems(1)]
  obtain s where s: "argv ! j = Some s" "0 \<in> set s" "length (cstr s) < 2 ^ 64 - 1" using Suc.prems(4) jn by blast
  let ?l = "of_nat (length (cstr s)) :: u64"
  have sl: "strlen (argv ! j) = Some ?l" using s by (simp add: strlen_spec)
  have ul: "unat ?l = length (cstr s)" "unat (?l + 1) = Suc (length (cstr s))"
    using s(3) by (simp_all add: unat_of_nat unat_word_ariths)
  have jl: "j < length argv" "j < length as" using jn Suc.prems(3) h(3) by simp_all
  from h(1) show ?case
  proof (cases rule: kalloc_cases [of k "?l + 1"])
    case (null m)
    let ?k = "k\<lparr>kmem := m, argvs := (argvs k)(to \<mapsto> as[j := NULL])\<rparr>"
    have same: "as[j := NULL] = as" using h(7) [OF jn] jl(2) by (metis lessThan_iff less_irrefl list_update_id)
    have run: "copy_args [j..<n] argv to k = Some (False, ?k)"
      using upt jl sl null(1) h(12) by (simp add: set_arg_def)
    have "?k = k\<lparr>kmem := m\<rparr>" using h(12) same by (cases k) (auto simp: fun_upd_idem)
    moreover have "args_held k0 to n as c {..<j} (k\<lparr>kmem := m\<rparr>)"
      using Suc.prems(1) null(2) unfolding args_held_def by (cases k0, cases k) auto
    ultimately show ?thesis using run Suc.prems(2)
      by (intro exI [of _ False] exI [of _ ?k] exI [of _ as] exI [of _ c] exI [of _ j]) auto
  next
    case (block p m)
    let ?s = "cstr s @ [0]"
    let ?k = "k\<lparr>kmem := m, argvs := (argvs k)(to \<mapsto> as[j := p]), strs := (strs k)(p \<mapsto> ?s)\<rparr>"
    have cp: "strcpy_loop (replicate (unat (?l + 1)) 0) s = Some ?s"
      using strcpy_loop_spec [OF s(2), of "replicate (unat (?l + 1)) 0"] ul(2) by simp
    have upd: "?s[length (cstr s) := 0] = ?s" by (simp add: list_update_append)
    have run: "copy_args [j..<n] argv to k = copy_args [Suc j..<n] argv to ?k"
      unfolding upt using jl sl block(1,2) h(12) s(1) cp upd ul(1)
      by (simp add: set_arg_def strcpy_def del: upt_Suc)
    have held: "args_held k0 to n (as[j := p]) (c(j := ?s)) {..<Suc j} ?k"
      using args_held_add [OF Suc.prems(1) jn _ block(2-5), of ?s] by (simp add: lessThan_Suc)
    have "d = n - Suc j" "Suc j \<le> n" using Suc.hyps(2) jn by simp_all
    from Suc.hyps(1) [OF this(1) held this(2) Suc.prems(3,4)] obtain b k' as' c' j' where
      r: "copy_args [Suc j..<n] argv to ?k = Some (b, k')" "args_held k0 to n as' c' {..<j'} k'" "j' \<le> n" "b \<longrightarrow> j' = n"
      "\<forall>i<Suc j. c' i = (c(j := ?s)) i" "\<forall>i. Suc j \<le> i \<and> i < j' \<longrightarrow> c' i = cstr (the (argv ! i)) @ [0]" by blast
    have "c' i = cstr (the (argv ! i)) @ [0]" if "j \<le> i \<and> i < j'" for i
      using r(5,6) that s(1) by (cases "i = j") auto
    moreover have "\<forall>i<j. c' i = c i" using r(5) by simp
    ultimately show ?thesis using run r(1-4) by (intro exI conjI) (assumption | simp)+
  qed
qed

lemma free_args_spec:
  assumes "args_held k0 to n as c J k" and "set is \<subseteq> {..<n}"
  shows "\<exists>k' as'. free_args is to k = Some k' \<and> args_held k0 to n as' c (J - set is) k'"
  using assms
proof (induction "is" arbitrary: J k as)
  case Nil
  then show ?case by auto
next
  case (Cons i "is")
  note h = args_heldD [OF Cons.prems(1)]
  have i: "i < n" "i < length as" "set is \<subseteq> {..<n}" using Cons.prems(2) h(3) by auto
  show ?case
  proof (cases "i \<in> J")
    case True
    obtain k1 k2 where k2: "free_str (as ! i) k = Some k1" "set_arg to i NULL k1 = Some k2"
      "args_held k0 to n (as[i := NULL]) c (J - {i}) k2" by (rule args_held_drop [OF Cons.prems(1) True])
    have "J - set (i # is) = J - {i} - set is" by auto
    then show ?thesis using Cons.IH [OF k2(3) i(3)] k2(1,2) h(8) [OF True] h(12) i(2) by simp
  next
    case False
    have "J - set (i # is) = J - set is" using False by auto
    then show ?thesis using Cons.IH [OF Cons.prems(1) i(3)] h(7) [OF i(1) False] h(12) i(2) by simp
  qed
qed



end
