(* ===== verification/Time.thy ===== *)
theory Time
  imports Args
begin

text \<open>
  The timer (\<open>drivers/time.c\<close>): the tick counter, and the queue of sleeping processes. Each
  sleeper is a heap object with the pid and the tick at which the process is to be woken. The
  blinking of the cursor is output only; \<open>Devices\<close> has it.
\<close>

section \<open>Operations\<close>

definition SECONDS_TO_TICKS :: nat where "SECONDS_TO_TICKS = 18"

text \<open>\<open>sizeof(SleepingProcess)\<close>\<close>

definition SLEEPER_SIZE :: u64 where "SLEEPER_SIZE = 16"

definition init_sleeping_queue :: "kernel \<Rightarrow> kernel option" where
  "init_sleeping_queue k =
     (if sleeping_queue k = NULL then do { (q, k) \<leftarrow> queue_create k; Some (k\<lparr>sleeping_queue := q\<rparr>) }
      else Some k)"

definition free_sleeper :: "addr \<Rightarrow> kernel \<Rightarrow> kernel option" where
  "free_sleeper p k = do { k \<leftarrow> kfree p k; Some (k\<lparr>sleepers := (sleepers k)(p := None)\<rparr>) }"

text \<open>The first loop of the handler unblocks the processes that are due.\<close>

partial_function (option) wake_loop :: "addr \<Rightarrow> kernel \<Rightarrow> kernel option" where
  "wake_loop it k =
     (if \<not> queue_iter_has_next it then Some k
      else do {
        (process, it) \<leftarrow> queue_iter_next it k;
        if process = NULL then wake_loop it k
        else do {
          s \<leftarrow> sleepers k process;
          if sl_wake_time s \<le> ticks k \<and> process_lookup (sl_pid s) k \<noteq> NULL then do {
            (_, k) \<leftarrow> process_unblock (process_lookup (sl_pid s) k) k;
            wake_loop it k
          }
          else wake_loop it k
        }
      })"

text \<open>The second one removes them; the iterator is already past the node that is freed.\<close>

partial_function (option) remove_loop :: "addr \<Rightarrow> kernel \<Rightarrow> kernel option" where
  "remove_loop it k =
     (if \<not> queue_iter_has_next it then Some k
      else do {
        (process, it) \<leftarrow> queue_iter_next it k;
        if process = NULL then remove_loop it k
        else do {
          s \<leftarrow> sleepers k process;
          if sl_wake_time s \<le> ticks k then do {
            (_, k) \<leftarrow> queue_remove (sleeping_queue k) process k;
            k \<leftarrow> free_sleeper process k;
            remove_loop it k
          }
          else remove_loop it k
        }
      })"

definition timer_handler :: "kernel \<Rightarrow> kernel option" where
  "timer_handler k = do {
     k \<leftarrow> Some (k\<lparr>ticks := ticks k + 1\<rparr>);
     empty \<leftarrow> (if sleeping_queue k = NULL then Some True else queue_is_empty (sleeping_queue k) k);
     if empty then Some k
     else do {
       it \<leftarrow> queue_iter (sleeping_queue k) k;
       k \<leftarrow> wake_loop it k;
       it \<leftarrow> queue_iter (sleeping_queue k) k;
       remove_loop it k
     }
   }"

text \<open>The counter is narrowed to an \<open>int\<close>.\<close>

definition ticks_elapsed :: "kernel \<Rightarrow> int" where
  "ticks_elapsed k = sint (ucast (ticks k) :: 32 word)"

definition seconds_elapsed :: "kernel \<Rightarrow> int" where
  "seconds_elapsed k = sint (ucast (ticks k div of_nat SECONDS_TO_TICKS) :: 32 word)"

text \<open>\<open>True\<close> when the caller gives up the processor.\<close>

definition sleepTicks :: "u64 \<Rightarrow> kernel \<Rightarrow> (bool \<times> kernel) option" where
  "sleepTicks sleep_t k = do {
     k \<leftarrow> init_sleeping_queue k;
     current \<leftarrow> Some (scheduler_current k);
     if current = NULL then Some (False, k)
     else do {
       (process, k) \<leftarrow> kalloc SLEEPER_SIZE k;
       if process = NULL then Some (False, k)
       else do {
         pr \<leftarrow> procs k current;
         k \<leftarrow> Some (k\<lparr>sleepers := (sleepers k)(process \<mapsto> \<lparr>sl_pid = pr_pid pr, sl_wake_time = ticks k + sleep_t\<rparr>)\<rparr>);
         (pushed, k) \<leftarrow> queue_push (sleeping_queue k) process k;
         if \<not> pushed then do { k \<leftarrow> free_sleeper process k; Some (False, k) }
         else do {
           (_, k) \<leftarrow> process_block current k;
           Some (True, k)
         }
       }
     }
   }"

text \<open>
  \<open>seconds * SECONDS_TO_TICKS\<close> is an \<open>int\<close> product, converted to an unsigned 64 bit number:
  a negative number of seconds sleeps practically for ever. An overflow of the product is
  undefined.
\<close>

definition sleep :: "int \<Rightarrow> kernel \<Rightarrow> (bool \<times> kernel) option" where
  "sleep seconds k =
     (let t = seconds * int SECONDS_TO_TICKS
      in if t < - (2 ^ 31) \<or> 2 ^ 31 \<le> t then None else sleepTicks (of_int t) k)"

section \<open>Chains under iteration\<close>

lemma qcells_cong: "queues k' = queues k \<Longrightarrow> qnodes k' = qnodes k \<Longrightarrow> qcells k' = qcells k"
  by (rule ext) (simp add: qcells_def split: option.split)

definition chain_start :: "(addr \<times> addr) list \<Rightarrow> addr" where
  "chain_start cs = (case cs of [] \<Rightarrow> NULL | c # _ \<Rightarrow> fst c)"

lemma chain_suffix: "chain ns p (ys @ zs) \<Longrightarrow> chain ns (chain_start zs) zs"
proof (induction ys arbitrary: p)
  case Nil
  then show ?case by (cases zs) (auto simp: chain_start_def)
qed auto

lemma chain_next: "chain ns p zs \<Longrightarrow> p = chain_start zs"
  by (cases zs) (auto simp: chain_start_def)

text \<open>Stepping the iterator along the cells of a queue.\<close>

lemma iter_step:
  assumes "queue_inv k" and "q \<in> dom (queues k)" and "qcells k q = ys @ c # zs"
  shows "queue_iter_has_next (chain_start (c # zs))" "queue_iter_next (chain_start (c # zs)) k = Some (snd c, chain_start zs)"
proof -
  obtain r where "queues k q = Some r" using assms(2) by blast
  from queue_inv_rep(1) [OF assms(1) this] have "chain (qnodes k) (q_head r) (ys @ c # zs)" using assms(3) by simp
  from chain_suffix [OF this] obtain n where n: "fst c \<noteq> NULL" "qnodes k (fst c) = Some n" "qn_data n = snd c"
    "chain (qnodes k) (qn_next n) zs" by (auto simp: chain_start_def)
  then show "queue_iter_has_next (chain_start (c # zs))" "queue_iter_next (chain_start (c # zs)) k = Some (snd c, chain_start zs)"
    using chain_next [OF n(4)] by (simp_all add: chain_start_def queue_iter_has_next_def queue_iter_next_def)
qed

lemma iter_end: "\<not> queue_iter_has_next (chain_start [])"
  by (simp add: chain_start_def queue_iter_has_next_def)

lemma iter_begin:
  assumes "queue_inv k" and "q \<in> dom (queues k)"
  shows "queue_iter q k = Some (chain_start (qcells k q))"
proof -
  obtain r where r: "queues k q = Some r" using assms(2) by blast
  have "q \<noteq> NULL" using object_live(1) [OF queue_inv_heap [OF assms(1)] r] .
  then show ?thesis using r chain_next [OF queue_inv_rep(1) [OF assms(1) r]] by (simp add: queue_iter_def)
qed

section \<open>Unblocking leaves other queues in place\<close>

lemma process_unblock_cells:
  assumes inv: "ready_inv k" and pr: "procs k p = Some pr" and b: "pr_state pr = PROCESS_STATE_BLOCKED"
    and idle: "p \<noteq> sch_idle k" and q: "q \<notin> set (sch_ready_queues k)" and run: "process_unblock p k = Some (r, k')"
  shows "qcells k' q = qcells k q"
proof -
  have p0: "p \<noteq> NULL" using ready_not_null [OF inv pr] .
  have nn: "sch_ready_queues k ! priority_index j \<noteq> NULL" for j by (rule ready_invD(7) [OF inv priority_index_less])
  obtain ps j b' where push: "queue_push (sch_ready_queues k ! priority_index j) p (k\<lparr>procs := (procs k)(p \<mapsto> ps)\<rparr>) = Some (b', k')"
    using run p0 pr b idle nn
    by (fastforce simp: process_unblock_def scheduler_add_ready_def upd_proc_def queue_for_priority_def Let_def)
  let ?k = "k\<lparr>procs := (procs k)(p \<mapsto> ps)\<rparr>" and ?q = "sch_ready_queues k ! priority_index j"
  have qi: "queue_inv ?k" using ready_invD(1) [OF inv] pr by simp
  have cells: "qcells ?k = qcells k" by (rule qcells_cong) simp_all
  obtain r' where "queues ?k ?q = Some r'" using ready_invD(3) [OF inv priority_index_less, of j] by auto
  from queue_push_spec [OF qi this, of p] push have "\<forall>q'. q' \<noteq> ?q \<longrightarrow> qcells k' q' = qcells ?k q'" by auto
  moreover have "q \<noteq> ?q" using q ready_invD(2) [OF inv] priority_index_less [of j] by (metis nth_mem)
  ultimately show ?thesis using cells by simp
qed

section \<open>The loops of the handler\<close>

definition due :: "kernel \<Rightarrow> addr \<Rightarrow> bool" where
  "due k s \<longleftrightarrow> (case sleepers k s of Some sl \<Rightarrow> sl_wake_time sl \<le> ticks k | None \<Rightarrow> False)"

text \<open>The process a sleeper stands for, and that unblocking it is the scheduler's business.\<close>

definition sleeper_process :: "kernel \<Rightarrow> addr \<Rightarrow> addr" where
  "sleeper_process k s = (case sleepers k s of Some sl \<Rightarrow> process_lookup (sl_pid sl) k | None \<Rightarrow> NULL)"

definition sleeper_ok :: "kernel \<Rightarrow> addr \<Rightarrow> bool" where
  "sleeper_ok k s \<longleftrightarrow> s \<noteq> NULL \<and> sleepers k s \<noteq> None \<and>
     (sleeper_process k s \<noteq> NULL \<longrightarrow> procs k (sleeper_process k s) \<noteq> None \<and> sleeper_process k s \<noteq> sch_idle k)"

definition is_ready :: "kernel \<Rightarrow> addr \<Rightarrow> bool" where
  "is_ready k p \<longleftrightarrow> (\<exists>pr. procs k p = Some pr \<and> pr_state pr = PROCESS_STATE_READY)"

text \<open>One unblocked process: everything the loops look at stays.\<close>

lemma unblock_sleeper:
  assumes inv: "ready_inv k" and p: "procs k p \<noteq> None" "p \<noteq> sch_idle k" and q: "q \<notin> set (sch_ready_queues k)"
  obtains r k' where "process_unblock p k = Some (r, k')" "ready_inv k'" "sched_frame k k'" "qcells k' q = qcells k q"
    "pcb k' = pcb k" "\<forall>x. is_ready k x \<longrightarrow> is_ready k' x" "blocked k p \<longrightarrow> is_ready k' p"
    "\<forall>x. x \<noteq> p \<longrightarrow> procs k' x = procs k x"
proof -
  obtain pr where pr: "procs k p = Some pr" using p(1) by blast
  show ?thesis
  proof (cases "pr_state pr = PROCESS_STATE_BLOCKED")
    case True
    obtain k' where k': "process_unblock p k = Some (True, k')" "ready_inv k'" "sched_frame k k'"
      "procs k' = (procs k)(p \<mapsto> readied k pr)" "pcb k' = pcb k"
      by (rule process_unblock_spec [OF inv pr True p(2)])
    show ?thesis
      by (rule that [OF k'(1-3) process_unblock_cells [OF inv pr True p(2) q k'(1)] k'(5)])
        (use k'(4) in \<open>auto simp: is_ready_def readied_def\<close>)
  next
    case False
    have "process_unblock p k = Some (False, k)" by (rule process_unblock_not_blocked [OF ready_not_null [OF inv pr] pr False])
    then show ?thesis by (rule that) (use inv False pr in \<open>auto simp: blocked_def\<close>)
  qed
qed

lemma wake_loop_spec:
  assumes "ready_inv k" and "q \<in> dom (queues k)" and "q \<notin> set (sch_ready_queues k)" and "qcells k q = ys @ zs"
    and "\<forall>s\<in>snd ` set zs. sleeper_ok k s"
  shows "\<exists>k'. wake_loop (chain_start zs) k = Some k' \<and> ready_inv k' \<and> sched_frame k k' \<and> qcells k' q = qcells k q \<and>
    pcb k' = pcb k \<and> (\<forall>x. is_ready k x \<longrightarrow> is_ready k' x) \<and>
    (\<forall>s\<in>snd ` set zs. due k s \<and> blocked k (sleeper_process k s) \<longrightarrow> is_ready k' (sleeper_process k s))"
  using assms
proof (induction zs arbitrary: ys k)
  case Nil
  have "wake_loop (chain_start []) k = Some k" by (simp add: wake_loop.simps iter_end)
  then show ?case using Nil by auto
next
  case (Cons c zs)
  note it = iter_step [OF ready_invD(1) [OF Cons.prems(1)] Cons.prems(2,4)]
  let ?s = "snd c" and ?p = "sleeper_process k (snd c)"
  have ok: "sleeper_ok k ?s" using Cons.prems(5) by simp
  then obtain sl where sl: "sleepers k ?s = Some sl" "?s \<noteq> NULL" by (auto simp: sleeper_ok_def)
  have pp: "process_lookup (sl_pid sl) k = ?p" using sl by (simp add: sleeper_process_def)
  show ?case
  proof (cases "due k ?s \<and> ?p \<noteq> NULL")
    case True
    have p: "procs k ?p \<noteq> None" "?p \<noteq> sch_idle k" using ok True by (auto simp: sleeper_ok_def)
    obtain r k1 where k1: "process_unblock ?p k = Some (r, k1)" "ready_inv k1" "sched_frame k k1" "qcells k1 q = qcells k q"
      "pcb k1 = pcb k" "\<forall>x. is_ready k x \<longrightarrow> is_ready k1 x" "blocked k ?p \<longrightarrow> is_ready k1 ?p"
      "\<forall>x. x \<noteq> ?p \<longrightarrow> procs k1 x = procs k x"
      by (rule unblock_sleeper [OF Cons.prems(1) p Cons.prems(3)])
    note f = sched_frameD [OF k1(3)]
    have same: "sleeper_process k1 = sleeper_process k" "due k1 = due k"
      using f(8,14) k1(5) by (simp_all add: sleeper_process_def due_def process_lookup_def fun_eq_iff split: option.splits)
    have procs1: "procs k1 x \<noteq> None \<longleftrightarrow> procs k x \<noteq> None" for x using sched_frame_dom [OF k1(3)] by blast
    have pre: "q \<in> dom (queues k1)" "q \<notin> set (sch_ready_queues k1)" "qcells k1 q = (ys @ [c]) @ zs"
      "\<forall>s\<in>snd ` set zs. sleeper_ok k1 s"
      using Cons.prems k1(3,4) f same procs1 by (auto simp: sched_frame_def sleeper_ok_def)
    from Cons.IH [OF k1(2) pre] obtain k' where k': "wake_loop (chain_start zs) k1 = Some k'" "ready_inv k'" "sched_frame k1 k'"
      "qcells k' q = qcells k1 q" "pcb k' = pcb k1" "\<forall>x. is_ready k1 x \<longrightarrow> is_ready k' x"
      "\<forall>s\<in>snd ` set zs. due k1 s \<and> blocked k1 (sleeper_process k1 s) \<longrightarrow> is_ready k' (sleeper_process k1 s)" by blast
    have step: "wake_loop (chain_start (c # zs)) k = wake_loop (chain_start zs) k1"
      using it sl k1(1) True pp by (subst wake_loop.simps) (simp add: due_def)
    have "is_ready k' (sleeper_process k s)" if "s \<in> snd ` set (c # zs)" "due k s" "blocked k (sleeper_process k s)" for s
    proof (cases "sleeper_process k s = ?p")
      case True
      then show ?thesis using k1(7) that(3) k'(6) by simp
    next
      case False
      then have "blocked k1 (sleeper_process k s)" using that(3) k1(8) f(2) by (simp add: blocked_def)
      moreover have "s \<in> snd ` set zs" using that(1) False by auto
      ultimately show ?thesis using k'(7) that(2) unfolding same by blast
    qed
    then show ?thesis
      using step k'(1,2,4,5) k1(4,5,6) k'(6) sched_frame_trans [OF k1(3) k'(3)] by auto
  next
    case False
    have step: "wake_loop (chain_start (c # zs)) k = wake_loop (chain_start zs) k"
      using it sl False pp by (subst wake_loop.simps) (auto simp: due_def)
    have "qcells k q = (ys @ [c]) @ zs" using Cons.prems(4) by simp
    from Cons.IH [OF Cons.prems(1-3) this] Cons.prems(5) obtain k' where
      k': "wake_loop (chain_start zs) k = Some k'" "ready_inv k'" "sched_frame k k'"
      "qcells k' q = qcells k q" "pcb k' = pcb k" "\<forall>x. is_ready k x \<longrightarrow> is_ready k' x"
      "\<forall>s\<in>snd ` set zs. due k s \<and> blocked k (sleeper_process k s) \<longrightarrow> is_ready k' (sleeper_process k s)" by auto
    have "\<not> blocked k NULL" using ready_not_null [OF Cons.prems(1)] by (auto simp: blocked_def)
    then show ?thesis using step k' False by auto
  qed
qed

text \<open>The sleepers that are due leave the queue, and their memory is given back.\<close>

lemma free_sleeper_spec:
  assumes inv: "queue_inv k" and s: "sleepers k s \<noteq> None"
  obtains m where "free_sleeper s k = Some (k\<lparr>kmem := m, sleepers := (sleepers k)(s := None)\<rparr>)"
    "queue_inv (k\<lparr>kmem := m, sleepers := (sleepers k)(s := None)\<rparr>)"
proof -
  note hp = queue_inv_heap [OF inv]
  have o: "objects_at k s \<noteq> 0" using s by (simp add: objects_at_def)
  obtain m where m: "kfree s k = Some (k\<lparr>kmem := m\<rparr>)" "buddy_inv m" "bud.live m = bud.live (kmem k) - {s}"
    by (rule kfree_object [OF hp o])
  let ?k = "k\<lparr>kmem := m, sleepers := (sleepers k)(s := None)\<rparr>"
  have obj: "objects_at ?k x = objects_at (k\<lparr>sleepers := (sleepers k)(s := None)\<rparr>) x" for x by (simp add: objects_at_def)
  have "heap_ok ?k" by (rule heap_ok_remove [OF m(2,3) hp o]) (simp, simp only: obj objects_at_gone(6) [OF hp s])
  then have "queue_inv ?k" by (rule queue_inv_cong(1) [OF inv, rotated 2]) simp_all
  then show ?thesis using that m(1) by (simp add: free_sleeper_def)
qed

lemma remove_loop_spec:
  assumes "queue_inv k" and "sleeping_queue k = q" and "q \<in> dom (queues k)" and "qcells k q = ys @ zs"
    and "distinct (map snd (ys @ zs))" and "\<forall>s\<in>snd ` set zs. s \<noteq> NULL \<and> sleepers k s \<noteq> None"
  shows "\<exists>k'. remove_loop (chain_start zs) k = Some k' \<and> queue_inv k' \<and>
    qcells k' = (qcells k)(q := ys @ filter (\<lambda>c. \<not> due k (snd c)) zs) \<and> dom (queues k') = dom (queues k) \<and>
    sleepers k' = (\<lambda>s. if s \<in> snd ` set zs \<and> due k s then None else sleepers k s) \<and>
    k' = k\<lparr>kmem := kmem k', queues := queues k', qnodes := qnodes k', sleepers := sleepers k'\<rparr>"
  using assms
proof (induction zs arbitrary: ys k)
  case Nil
  have "remove_loop (chain_start []) k = Some k" by (simp add: remove_loop.simps iter_end)
  then show ?case using Nil by auto
next
  case (Cons c zs)
  note it = iter_step [OF Cons.prems(1,3,4)]
  let ?s = "snd c"
  obtain sl where sl: "sleepers k ?s = Some sl" "?s \<noteq> NULL" using Cons.prems(6) by auto
  show ?case
  proof (cases "due k ?s")
    case True
    obtain r where "queues k q = Some r" using Cons.prems(3) by blast
    from queue_remove_spec [OF Cons.prems(1) this, of ?s] obtain k1 where
      k1: "queue_remove q ?s k = Some (True, k1)" "queue_inv k1" "queue_frame k k1" "dom (queues k1) = dom (queues k)"
      "qcells k1 = (qcells k)(q := drop_first ?s (ys @ c # zs))" using Cons.prems(4) by (auto simp: qelems_def)
    note f = queue_frameD [OF k1(3)]
    have "?s \<notin> snd ` set ys" using Cons.prems(5) by auto
    then have c1: "qcells k1 = (qcells k)(q := ys @ zs)" using k1(5) by (simp add: drop_first_append)
    have s1: "sleepers k1 = sleepers k" using f(15) .
    have t1: "ticks k1 = ticks k" "sleeping_queue k1 = sleeping_queue k"
      by (subst k1(3) [unfolded queue_frame_def], simp)+
    obtain m where m: "free_sleeper ?s k1 = Some (k1\<lparr>kmem := m, sleepers := (sleepers k1)(?s := None)\<rparr>)"
      "queue_inv (k1\<lparr>kmem := m, sleepers := (sleepers k1)(?s := None)\<rparr>)"
      by (rule free_sleeper_spec [OF k1(2), of ?s]) (use s1 sl in simp)
    let ?k = "k1\<lparr>kmem := m, sleepers := (sleepers k1)(?s := None)\<rparr>"
    have cells: "qcells ?k = (qcells k)(q := ys @ zs)" using c1 qcells_cong [of ?k k1] by simp
    have pre: "sleeping_queue ?k = q" "q \<in> dom (queues ?k)" "qcells ?k q = ys @ zs" "distinct (map snd (ys @ zs))"
      using Cons.prems(2-5) t1 k1(4) cells by auto
    have nin: "?s \<notin> snd ` set zs" using Cons.prems(5) by auto
    have sl': "\<forall>s\<in>snd ` set zs. s \<noteq> NULL \<and> sleepers ?k s \<noteq> None"
    proof
      fix s
      assume "s \<in> snd ` set zs"
      moreover from this have "s \<noteq> ?s" using nin by metis
      ultimately show "s \<noteq> NULL \<and> sleepers ?k s \<noteq> None" using Cons.prems(6) s1 by auto
    qed
    have du: "due ?k s = (s \<noteq> ?s \<and> due k s)" for s using t1 s1 by (auto simp: due_def split: option.splits)
    have step: "remove_loop (chain_start (c # zs)) k = remove_loop (chain_start zs) ?k"
      using it sl k1(1) m(1) True Cons.prems(2) by (subst remove_loop.simps) (simp add: due_def)
    have fl: "filter (\<lambda>c. \<not> due ?k (snd c)) zs = filter (\<lambda>c. \<not> due k (snd c)) zs"
      using nin by (intro filter_cong) (auto simp: du image_iff)
    from Cons.IH [OF m(2) pre sl'] obtain k' where k': "remove_loop (chain_start zs) ?k = Some k'" "queue_inv k'"
      "qcells k' = (qcells ?k)(q := ys @ filter (\<lambda>c. \<not> due k (snd c)) zs)" "dom (queues k') = dom (queues ?k)"
      "sleepers k' = (\<lambda>s. if s \<in> snd ` set zs \<and> due ?k s then None else sleepers ?k s)"
      "k' = ?k\<lparr>kmem := kmem k', queues := queues k', qnodes := qnodes k', sleepers := sleepers k'\<rparr>" unfolding fl by blast
    have "k' = k\<lparr>kmem := kmem k', queues := queues k', qnodes := qnodes k', sleepers := sleepers k'\<rparr>"
      by (subst k'(6)) (use k1(3) in \<open>simp add: queue_frame_def, cases k, cases k1, simp\<close>)
    moreover have "sleepers k' = (\<lambda>s. if s \<in> snd ` set (c # zs) \<and> due k s then None else sleepers k s)"
      unfolding k'(5) du using s1 True by (auto simp: fun_eq_iff)
    moreover have "qcells k' = (qcells k)(q := ys @ filter (\<lambda>c. \<not> due k (snd c)) (c # zs))"
      using k'(3) cells True by simp
    moreover have "dom (queues k') = dom (queues k)" using k'(4) k1(4) by simp
    ultimately show ?thesis using step k'(1,2) by (intro exI [of _ k'] conjI) simp_all
  next
    case False
    have step: "remove_loop (chain_start (c # zs)) k = remove_loop (chain_start zs) k"
      using it sl False by (subst remove_loop.simps) (simp add: due_def)
    have "qcells k q = (ys @ [c]) @ zs" "distinct (map snd ((ys @ [c]) @ zs))" using Cons.prems(4,5) by simp_all
    moreover have "\<forall>s\<in>snd ` set zs. s \<noteq> NULL \<and> sleepers k s \<noteq> None" using Cons.prems(6) by simp
    ultimately obtain k' where k': "remove_loop (chain_start zs) k = Some k'" "queue_inv k'"
      "qcells k' = (qcells k)(q := (ys @ [c]) @ filter (\<lambda>c. \<not> due k (snd c)) zs)" "dom (queues k') = dom (queues k)"
      "sleepers k' = (\<lambda>s. if s \<in> snd ` set zs \<and> due k s then None else sleepers k s)"
      "k' = k\<lparr>kmem := kmem k', queues := queues k', qnodes := qnodes k', sleepers := sleepers k'\<rparr>"
      using Cons.IH [OF Cons.prems(1-3)] by blast
    have "sleepers k' = (\<lambda>s. if s \<in> snd ` set (c # zs) \<and> due k s then None else sleepers k s)"
      unfolding k'(5) using False by (auto simp: fun_eq_iff)
    then show ?thesis using step k' False by (intro exI [of _ k'] conjI) simp_all
  qed
qed

text \<open>A kernel in which one process sleeps, to be woken at tick 1.\<close>

lemma boot_sleeper:
  obtains k p s where "ready_inv k" "sleeping_queue k \<in> dom (queues k)" "sleeping_queue k \<notin> set (sch_ready_queues k)"
    "qelems k (sleeping_queue k) = [s]" "sleepers k s = Some \<lparr>sl_pid = 1, sl_wake_time = 1\<rparr>" "s \<noteq> NULL"
    "process_lookup 1 k = p" "blocked k p" "ticks k = 0"
proof -
  let ?pr = "zero_process\<lparr>pr_pid := 1, pr_state := PROCESS_STATE_BLOCKED\<rparr>" and ?sl = "\<lparr>sl_pid = 1, sl_wake_time = 1\<rparr>"
  obtain k0 where k0: "init_ready_queues [0..<6] boot_kernel = Some k0" "sched_inv k0" "spare (Suc (Suc (Suc (Suc (Suc 21))))) (kmem k0)"
    "sch_idle k0 = NULL" by (rule boot_ready) simp
  have st: "pcb k0 = None" "ticks k0 = 0" using init_ready_queues_static [OF k0(1)] by (simp_all add: boot_kernel_def bss_kernel_def)
  obtain p m k1 where k1: "p \<noteq> NULL" "k1 = k0\<lparr>kmem := m, procs := (procs k0)(p \<mapsto> ?pr)\<rparr>" "sched_inv k1" "spare (Suc (Suc (Suc (Suc 21)))) (kmem k1)"
    by (rule new_process [OF k0(2,3), of ?pr]) (simp_all add: zero_process_def)
  note r1 = k1(3) [unfolded sched_inv_def, THEN conjunct1]
  obtain q k2 where k2: "queue_inv k2" "queue_frame k1 k2" "qelems k2 = qelems k1" "objects_at k1 q = 0"
    "dom (queues k2) = insert q (dom (queues k1))" "spare (Suc (Suc (Suc 21))) (kmem k2)"
    by (rule queue_create_spare [OF ready_invD(1) [OF r1] k1(4)])
  note f2 = queue_frameD [OF k2(2)]
  have nq: "q \<notin> dom (queues k1)" using k2(4) by (auto simp: objects_at_def of_bool_def split: if_splits)
  note hp = queue_inv_heap [OF k2(1)]
  obtain s m2 where m2: "s \<noteq> NULL" "objects_at k2 s = 0" "buddy_inv m2" "bud.live m2 = insert s (bud.live (kmem k2))" "spare (Suc (Suc 21)) m2"
    by (rule kalloc_new [OF hp k2(6), of 16]) simp_all
  let ?k3 = "k2\<lparr>kmem := m2, sleepers := (sleepers k2)(s \<mapsto> ?sl)\<rparr>"
  have obj: "objects_at ?k3 x = objects_at (k2\<lparr>sleepers := (sleepers k2)(s \<mapsto> ?sl)\<rparr>) x" for x by (simp add: objects_at_def)
  have "heap_ok ?k3" by (rule heap_ok_insert [OF m2(3,4) hp m2(2)]) (simp, simp only: obj objects_at_new [OF m2(2)])
  then have q3: "queue_inv ?k3" by (rule queue_inv_cong(1) [OF k2(1), rotated 2]) simp_all
  let ?t = "init_pcb\<lparr>pc_processes := p # replicate 31 NULL\<rparr>"
  obtain a m4 where m4: "queue_inv (?k3\<lparr>kmem := m4, pcb := Some (a, ?t)\<rparr>)" "spare (Suc 21) m4"
    by (rule new_table [OF q3, of "Suc 21" ?t]) (use m2(5) f2(6) k1(2) st in simp_all)
  let ?k4 = "?k3\<lparr>kmem := m4, pcb := Some (a, ?t)\<rparr>"
  have s4: "q \<in> dom (queues ?k4)" "spare (Suc 21) (kmem ?k4)" using k2(5) m4(2) by simp_all
  obtain k5 where k5: "queue_inv k5" "queue_frame ?k4 k5" "dom (queues k5) = dom (queues ?k4)"
    "qelems k5 = (qelems ?k4)(q := qelems ?k4 q @ [s])" by (rule queue_push_spare [OF m4(1) s4])
  note f5 = queue_frameD [OF k5(2)]
  have e4: "qelems ?k4 = qelems k1" using k2(3) qelems_cong [of ?k4 k2] by simp
  let ?k = "k5\<lparr>sleeping_queue := q\<rparr>"
  have "ticks k5 = ticks ?k4" "ticks k2 = ticks k1" by (subst k5(2) [unfolded queue_frame_def], simp) (subst k2(2) [unfolded queue_frame_def], simp)
  then have t5: "ticks k5 = 0" using k1(2) st by simp
  have e: "qelems ?k = (qelems k1)(q := qelems k1 q @ [s])" using k5(4) e4 qelems_cong [of ?k k5] by simp
  have nr: "q \<notin> set (sch_ready_queues k1)" using nq r1 by (auto simp: ready_inv_def)
  have "queue_inv ?k" by (rule queue_inv_cong(1) [OF k5(1)]) (use queue_inv_heap [OF k5(1)] in \<open>simp_all add: heap_ok_def objects_at_def\<close>)
  then have "ready_inv ?k"
    by (rule ready_inv_cong [OF r1]) (use f5 f2 k5(3) k2(5) e nr in auto)
  moreover have "process_lookup 1 ?k = p"
    using f5(6) by (simp add: process_lookup_def PROCESS_FIRST_PID_def PROCESS_MAX_PROCESSES_def PID_TO_INDEX_def)
  moreover have "blocked ?k p" using f5(1,3) f2(1,3) k1(1,2) k0(4) by (simp add: blocked_def)
  moreover have "sleeping_queue ?k \<in> dom (queues ?k)" "sleeping_queue ?k \<notin> set (sch_ready_queues ?k)"
    "sleepers ?k s = Some ?sl" "ticks ?k = 0" using s4(1) k5(3) nr f5 f2 t5 by auto
  moreover have "qelems ?k (sleeping_queue ?k) = [s]" using e qelems_no_queue [of k1 q] nq by (simp add: domIff)
  ultimately show ?thesis using that m2(1) by blast
qed

section \<open>Properties\<close>



end
