(* ===== verification/Keyboard.thy ===== *)
theory Keyboard
  imports Fd_Props Time
begin

text \<open>
  The keyboard driver (\<open>drivers/keyboard.c\<close>): modifier state, the table from scancodes to
  characters, the handlers user code can register, and the interrupt handler that turns a
  scancode into a byte on the standard input, into the end of the foreground process
  (control-C) or into a call of a registered handler.
\<close>

section \<open>State\<close>

definition ESCAPE_KEY :: u8 where "ESCAPE_KEY = 0x01"
definition BACKSPACE_KEY :: u8 where "BACKSPACE_KEY = 0x0E"
definition TABULATOR_KEY :: u8 where "TABULATOR_KEY = 0x0F"
definition RETURN_KEY :: u8 where "RETURN_KEY = 0x1C"
definition CONTROL_KEY_L :: u8 where "CONTROL_KEY_L = 0x1D"
definition D_KEY :: u8 where "D_KEY = 0x20"
definition SHIFT_KEY_L :: u8 where "SHIFT_KEY_L = 0x2A"
definition C_KEY :: u8 where "C_KEY = 0x2E"
definition SHIFT_KEY_R :: u8 where "SHIFT_KEY_R = 0x36"
definition CAPS_LOCK_KEY :: u8 where "CAPS_LOCK_KEY = 0x3A"
definition F12_KEY :: u8 where "F12_KEY = 0x58"

lemmas key_defs = ESCAPE_KEY_def BACKSPACE_KEY_def TABULATOR_KEY_def RETURN_KEY_def CONTROL_KEY_L_def D_KEY_def
  SHIFT_KEY_L_def C_KEY_def SHIFT_KEY_R_def CAPS_LOCK_KEY_def F12_KEY_def

record RegisteredKeys =
  rk_from_kernel :: u8
  rk_fn :: addr

record keyboard =
  SHIFT_KEY_PRESSED :: u8
  CAPS_LOCK_KEY_PRESSED :: u8
  CONTROL_KEY_PRESSED :: u8
  KeyFnMap :: "RegisteredKeys list"

definition bss_keyboard :: keyboard where
  "bss_keyboard = \<lparr>SHIFT_KEY_PRESSED = 0, CAPS_LOCK_KEY_PRESSED = 0, CONTROL_KEY_PRESSED = 0,
     KeyFnMap = replicate (unat F12_KEY + 1) \<lparr>rk_from_kernel = 0, rk_fn = NULL\<rparr>\<rparr>"

definition scancodeMap :: "(u8 \<times> u8) list" where
  "scancodeMap = [
    (0, 0), (1, 1), (49, 33), (50, 64), (51, 35), (52, 36), (53, 37), (54, 94), (55, 38), (56, 42),
    (57, 40), (48, 41), (45, 95), (61, 43), (14, 14), (15, 15), (113, 81), (119, 87), (101, 69),
    (114, 82), (116, 84), (121, 89), (117, 85), (105, 73), (111, 79), (112, 80), (91, 123), (93, 125),
    (28, 28), (29, 29), (97, 65), (115, 83), (100, 68), (102, 70), (103, 71), (104, 72), (106, 74),
    (107, 75), (108, 76), (59, 58), (39, 34), (96, 126), (42, 42), (92, 124), (122, 90), (120, 88),
    (99, 67), (118, 86), (98, 66), (110, 78), (109, 77), (44, 60), (46, 62), (47, 63), (54, 54),
    (42, 42), (56, 184), (32, 32), (58, 58), (59, 59), (60, 60), (61, 61), (62, 62), (63, 63), (64, 64),
    (65, 65), (66, 66), (67, 67), (68, 68), (69, 69), (70, 70), (71, 55), (72, 56), (73, 57), (45, 45),
    (75, 52), (76, 53), (77, 54), (43, 43), (79, 49), (80, 50), (81, 51), (82, 48), (83, 46), (0, 0),
    (0, 0), (45, 45), (87, 87), (88, 88)]"

definition IS_ALPHA :: "u8 \<Rightarrow> bool" where
  "IS_ALPHA c \<longleftrightarrow> 97 \<le> c \<and> c \<le> 122"

definition TO_UPPER :: "u8 \<Rightarrow> u8" where
  "TO_UPPER c = (if IS_ALPHA c then c - 97 + 65 else c)"

definition IS_KEYCODE :: "u8 \<Rightarrow> bool" where
  "IS_KEYCODE c \<longleftrightarrow> ESCAPE_KEY \<le> c \<and> c \<le> F12_KEY"

definition IS_PRINTABLE :: "keyboard \<Rightarrow> u8 \<Rightarrow> bool" where
  "IS_PRINTABLE kb c \<longleftrightarrow> IS_KEYCODE c \<and>
     (0x02 \<le> c \<and> c \<le> 0x0D \<or>
      0x0F \<le> c \<and> c \<le> 0x1C \<or>
      0x1E \<le> c \<and> c \<le> 0x29 \<or>
      0x2B \<le> c \<and> c \<le> 0x35 \<or>
      c = 0x37 \<or>
      c = 0x39 \<or>
      SHIFT_KEY_PRESSED kb \<noteq> 0 \<and> 0x47 \<le> c \<and> c \<le> 0x53 \<or>
      (c = 0x4A \<or> c = 0x4E) \<or>
      c = 0x56)"

section \<open>Registered handlers\<close>

fun restore_loop :: "nat list \<Rightarrow> addr list \<Rightarrow> RegisteredKeys list \<Rightarrow> RegisteredKeys list option" where
  "restore_loop [] mp km = Some km"
| "restore_loop (i # is) mp km =
     (if i < length km \<and> i < length mp
      then restore_loop is mp (if rk_from_kernel (km ! i) = 0 then km[i := (km ! i)\<lparr>rk_fn := mp ! i\<rparr>] else km)
      else None)"

definition restoreKeyFnMapNonKernel :: "addr list \<Rightarrow> keyboard \<Rightarrow> keyboard option" where
  "restoreKeyFnMapNonKernel mp kb = do {
     km \<leftarrow> restore_loop [unat ESCAPE_KEY..<unat F12_KEY + 1] mp (KeyFnMap kb);
     Some (kb\<lparr>KeyFnMap := km\<rparr>)
   }"

fun clear_loop :: "nat list \<Rightarrow> addr list \<Rightarrow> RegisteredKeys list \<Rightarrow> (addr list \<times> RegisteredKeys list) option" where
  "clear_loop [] mp km = Some (mp, km)"
| "clear_loop (i # is) mp km =
     (if i < length km \<and> i < length mp
      then if rk_from_kernel (km ! i) = 0
           then clear_loop is (mp[i := rk_fn (km ! i)]) (km[i := (km ! i)\<lparr>rk_fn := NULL\<rparr>])
           else clear_loop is mp km
      else None)"

definition clearKeyFnMapNonKernel :: "addr list \<Rightarrow> keyboard \<Rightarrow> (addr list \<times> keyboard) option" where
  "clearKeyFnMapNonKernel mp kb = do {
     (mp, km) \<leftarrow> clear_loop [unat ESCAPE_KEY..<unat F12_KEY + 1] mp (KeyFnMap kb);
     Some (mp, kb\<lparr>KeyFnMap := km\<rparr>)
   }"

definition registerSpecialKey :: "u8 \<Rightarrow> addr \<Rightarrow> u8 \<Rightarrow> keyboard \<Rightarrow> u8 \<times> keyboard" where
  "registerSpecialKey scancode fn registeredFromKernel kb =
     (if IS_KEYCODE scancode \<and>
         (registeredFromKernel \<noteq> 0 \<or> registeredFromKernel = 0 \<and> rk_fn (KeyFnMap kb ! unat scancode) = NULL)
      then (1, kb\<lparr>KeyFnMap := (KeyFnMap kb)[unat scancode := \<lparr>rk_from_kernel = registeredFromKernel, rk_fn = fn\<rparr>]\<rparr>)
      else (0, kb))"

section \<open>Decoding a scancode\<close>

definition isReleased :: "u8 \<Rightarrow> u8" where "isReleased scancode = and scancode 0x80"
definition isPressed :: "u8 \<Rightarrow> u8" where "isPressed scancode = of_bool (isReleased scancode = 0)"
definition makeCode :: "u8 \<Rightarrow> u8" where "makeCode scancode = and scancode 0x7F"

definition modifiers :: "u8 \<Rightarrow> keyboard \<Rightarrow> keyboard" where
  "modifiers scancode kb =
     (let is_pressed = isPressed scancode; code = makeCode scancode
      in if code = SHIFT_KEY_L \<or> code = SHIFT_KEY_R then kb\<lparr>SHIFT_KEY_PRESSED := is_pressed\<rparr>
         else if code = CONTROL_KEY_L then kb\<lparr>CONTROL_KEY_PRESSED := is_pressed\<rparr>
         else if code = CAPS_LOCK_KEY
         then if is_pressed \<noteq> 0 then kb\<lparr>CAPS_LOCK_KEY_PRESSED := of_bool (CAPS_LOCK_KEY_PRESSED kb = 0)\<rparr> else kb
         else kb)"

text \<open>
  What the handler does with the scancode: nothing, a byte for the standard input, or the end
  of the foreground process. Then the registered handler is called, if there is one.
  Indexing a table out of its bounds is undefined.
\<close>

datatype key_event = KE_None | KE_Byte u8 | KE_Kill

definition keyboard_decode :: "u8 \<Rightarrow> keyboard \<Rightarrow> (key_event \<times> addr \<times> keyboard) option" where
  "keyboard_decode scancode kb =
     (let kb = modifiers scancode kb; make_code = makeCode scancode
      in if \<not> (isPressed scancode \<noteq> 0 \<and> IS_KEYCODE scancode) then Some (KE_None, NULL, kb)
         else if length (KeyFnMap kb) \<le> unat scancode then None
         else
           let fn = rk_fn (KeyFnMap kb ! unat scancode)
           in if make_code = BACKSPACE_KEY then Some (KE_Byte 8, fn, kb)
              else if length scancodeMap \<le> unat scancode \<or> 2 \<le> SHIFT_KEY_PRESSED kb then None
              else
                let row = scancodeMap ! unat scancode;
                    c = (if SHIFT_KEY_PRESSED kb = 0 then fst row else snd row)
                in if CONTROL_KEY_PRESSED kb \<noteq> 0 \<and> make_code = C_KEY then Some (KE_Kill, fn, kb)
                   else if CONTROL_KEY_PRESSED kb \<noteq> 0 \<and> make_code = D_KEY then Some (KE_Byte 4, fn, kb)
                   else
                     let c = (if CAPS_LOCK_KEY_PRESSED kb = 1 \<and> IS_ALPHA c then TO_UPPER c else c)
                     in if IS_PRINTABLE kb scancode
                        then let c = (if c = RETURN_KEY then 10 else if c = TABULATOR_KEY then 9 else c)
                             in Some (KE_Byte c, fn, kb)
                        else Some (KE_None, fn, kb))"

section \<open>The interrupt handler\<close>

text \<open>
  The write to the standard input and the end of the foreground process can be suspended, as
  calls of the process that happens to run. \<open>KB_Call\<close> is the call of the registered handler,
  after which the interrupt handler returns.
\<close>

datatype keyboard_frame =
    KB_Write write_frame addr
  | KB_Exit exit_frame addr
  | KB_Clear clear_frame addr
  | KB_Call addr

definition keyboard_step :: "keyboard_frame \<Rightarrow> kernel \<Rightarrow> (keyboard_frame \<times> video_call list \<times> kernel) option" where
  "keyboard_step f k =
     (case f of
        KB_Write w fn \<Rightarrow>
          if write_returned w then Some (KB_Call fn, [], k)
          else do { (w, k) \<leftarrow> run write_step write_returned w k; Some (KB_Write w fn, [], k) }
      | KB_Exit e fn \<Rightarrow>
          if exit_returned e then do { (c, k) \<leftarrow> clear_pipe STDIN k; Some (KB_Clear c fn, [], k) }
          else do { (e, k) \<leftarrow> run exit_step exit_returned e k; Some (KB_Exit e fn, [], k) }
      | KB_Clear c fn \<Rightarrow>
          if c = K_Ret then Some (KB_Call fn, [Print ([10] @ ascii ''^C'' @ [10])], k)
          else do { (c, k) \<leftarrow> run clear_step (\<lambda>f. f = K_Ret) c k; Some (KB_Clear c fn, [], k) }
      | KB_Call fn \<Rightarrow> Some (KB_Call fn, [], k))"

definition keyboardHandler :: "u8 \<Rightarrow> keyboard \<Rightarrow> kernel \<Rightarrow> (keyboard_frame \<times> keyboard \<times> kernel) option" where
  "keyboardHandler scancode kb k = do {
     (ev, fn, kb) \<leftarrow> keyboard_decode scancode kb;
     (case ev of
        KE_None \<Rightarrow> Some (KB_Call fn, kb, k)
      | KE_Byte b \<Rightarrow> do {
          (r, k) \<leftarrow> write_pipe STDIN (Some [b]) 1 k;
          Some (case r of Inl _ \<Rightarrow> KB_Call fn | Inr w \<Rightarrow> KB_Write w fn, kb, k)
        }
      | KE_Kill \<Rightarrow>
          let fg_pid = get_foreground_process_pid k
          in if 0 < fg_pid \<and> process_lookup (of_int fg_pid) k \<noteq> NULL then do {
               (e, k) \<leftarrow> process_exit (process_lookup (of_int fg_pid) k) k;
               Some (KB_Exit e fn, kb, k)
             }
             else Some (KB_Call fn, kb, k))
   }"

section \<open>Bounds\<close>

text \<open>The modifiers are flags and the table of handlers has its size.\<close>

definition keyboard_ok :: "keyboard \<Rightarrow> bool" where
  "keyboard_ok kb \<longleftrightarrow> SHIFT_KEY_PRESSED kb \<le> 1 \<and> CAPS_LOCK_KEY_PRESSED kb \<le> 1 \<and> CONTROL_KEY_PRESSED kb \<le> 1 \<and>
     length (KeyFnMap kb) = unat F12_KEY + 1"

lemma length_scancodeMap: "length scancodeMap = unat F12_KEY + 1"
  by (simp add: scancodeMap_def F12_KEY_def)

lemma keyboard_ok_boot: "keyboard_ok bss_keyboard"
  by (simp add: keyboard_ok_def bss_keyboard_def)

lemma isPressed_le: "isPressed scancode \<le> 1"
  by (simp add: isPressed_def of_bool_def)

lemma modifiers_ok: "keyboard_ok kb \<Longrightarrow> keyboard_ok (modifiers scancode kb)"
  using isPressed_le [of scancode] by (simp add: modifiers_def keyboard_ok_def Let_def of_bool_def)

lemma modifiers_map [simp]: "KeyFnMap (modifiers scancode kb) = KeyFnMap kb"
  by (simp add: modifiers_def Let_def)

lemma restore_loop_ok:
  "length km = n \<Longrightarrow> length mp = n \<Longrightarrow> set is \<subseteq> {..<n} \<Longrightarrow> \<exists>km'. restore_loop is mp km = Some km' \<and> length km' = n"
  by (induction "is" arbitrary: km) auto

lemma clear_loop_ok:
  "length km = n \<Longrightarrow> length mp = n \<Longrightarrow> set is \<subseteq> {..<n} \<Longrightarrow>
   \<exists>mp' km'. clear_loop is mp km = Some (mp', km') \<and> length mp' = n \<and> length km' = n"
  by (induction "is" arbitrary: mp km) auto

text \<open>Which byte a letter key gives: capital when exactly one or both of shift and caps lock are on.\<close>

definition letter_keys :: "(u8 \<times> u8) list" where
  "letter_keys = zip (map of_nat ([0x10..<0x1A] @ [0x1E..<0x27] @ [0x2C..<0x33])) (ascii ''qwertyuiopasdfghjklzxcvbnm'')"

section \<open>Properties\<close>

text \<open>The states the driver can get into.\<close>

inductive keyboard_reachable :: "keyboard \<Rightarrow> bool" where
  kr_boot: "keyboard_reachable bss_keyboard"
| kr_key: "keyboard_reachable kb \<Longrightarrow> keyboard_decode scancode kb = Some (ev, fn, kb') \<Longrightarrow> keyboard_reachable kb'"
| kr_register: "keyboard_reachable kb \<Longrightarrow> keyboard_reachable (snd (registerSpecialKey scancode fn b kb))"
| kr_clear: "keyboard_reachable kb \<Longrightarrow> clearKeyFnMapNonKernel mp kb = Some (mp', kb') \<Longrightarrow> keyboard_reachable kb'"
| kr_restore: "keyboard_reachable kb \<Longrightarrow> restoreKeyFnMapNonKernel mp kb = Some kb' \<Longrightarrow> keyboard_reachable kb'"

lemma decode_defined:
  assumes "keyboard_ok kb"
  shows "\<exists>ev fn. keyboard_decode scancode kb = Some (ev, fn, modifiers scancode kb)"
proof -
  note ok = modifiers_ok [OF assms, of scancode]
  have idx: "unat scancode < unat F12_KEY + 1" if "IS_KEYCODE scancode"
    using that by (simp add: IS_KEYCODE_def word_le_nat_alt)
  have sh: "\<not> 2 \<le> SHIFT_KEY_PRESSED (modifiers scancode kb)"
    using ok by (auto simp: keyboard_ok_def word_le_nat_alt)
  show ?thesis
    using idx sh ok length_scancodeMap by (auto simp: keyboard_decode_def Let_def keyboard_ok_def)
qed

lemma restore_length: "restore_loop is mp km = Some km' \<Longrightarrow> length km' = length km"
  by (induction "is" arbitrary: km) (auto split: if_splits)

lemma clear_length: "clear_loop is mp km = Some (mp', km') \<Longrightarrow> length km' = length km"
  by (induction "is" arbitrary: mp km) (auto split: if_splits)

lemma reachable_ok: "keyboard_reachable kb \<Longrightarrow> keyboard_ok kb"
proof (induction rule: keyboard_reachable.induct)
  case kr_boot
  then show ?case by (rule keyboard_ok_boot)
next
  case (kr_key kb scancode ev fn kb')
  then show ?case using decode_defined [OF kr_key.IH, of scancode] modifiers_ok by auto
next
  case (kr_register kb scancode fn b)
  then show ?case by (simp add: registerSpecialKey_def keyboard_ok_def)
next
  case (kr_clear kb mp mp' kb')
  then show ?case by (auto simp: clearKeyFnMapNonKernel_def keyboard_ok_def dest!: clear_length)
next
  case (kr_restore kb mp kb')
  then show ?case by (auto simp: restoreKeyFnMapNonKernel_def keyboard_ok_def dest!: restore_length)
qed



lemma letter_rows:
  "\<forall>(c, l) \<in> set letter_keys. scancodeMap ! unat c = (l, l - 32) \<and> IS_KEYCODE c \<and> isPressed c = 1 \<and>
     makeCode c = c \<and> IS_ALPHA l \<and> \<not> IS_ALPHA (l - 32) \<and> c \<noteq> BACKSPACE_KEY \<and> TO_UPPER l = l - 32 \<and>
     c \<notin> {SHIFT_KEY_L, SHIFT_KEY_R, CONTROL_KEY_L, CAPS_LOCK_KEY} \<and>
     l \<noteq> RETURN_KEY \<and> l \<noteq> TABULATOR_KEY \<and> l - 32 \<noteq> RETURN_KEY \<and> l - 32 \<noteq> TABULATOR_KEY \<and> IS_PRINTABLE bss_keyboard c"
  by code_simp


text \<open>
  A letter key without control gives its letter, as a capital letter when shift is held
  or caps lock is on, and the small letter otherwise.
\<close>

theorem letter_key_case:
  assumes "keyboard_ok kb" and "(code, letter) \<in> set letter_keys" and "CONTROL_KEY_PRESSED kb = 0"
  shows "keyboard_decode code kb = Some (KE_Byte (if SHIFT_KEY_PRESSED kb = 1 \<or> CAPS_LOCK_KEY_PRESSED kb = 1 then letter - 32 else letter),
    rk_fn (KeyFnMap kb ! unat code), kb)"
proof -
  have row: "scancodeMap ! unat code = (letter, letter - 32)" "IS_KEYCODE code" "isPressed code = 1" "makeCode code = code"
    "IS_ALPHA letter" "\<not> IS_ALPHA (letter - 32)" "code \<noteq> BACKSPACE_KEY" "TO_UPPER letter = letter - 32"
    "code \<notin> {SHIFT_KEY_L, SHIFT_KEY_R, CONTROL_KEY_L, CAPS_LOCK_KEY}" "letter \<noteq> RETURN_KEY" "letter \<noteq> TABULATOR_KEY"
    "letter - 32 \<noteq> RETURN_KEY" "letter - 32 \<noteq> TABULATOR_KEY" "IS_PRINTABLE bss_keyboard code"
    using letter_rows assms(2) by blast+
  have pr: "IS_PRINTABLE kb code" using row(14) by (auto simp: IS_PRINTABLE_def bss_keyboard_def)
  have m: "modifiers code kb = kb" using row(4,9) by (simp add: modifiers_def Let_def)
  have idx: "\<not> length (KeyFnMap kb) \<le> unat code" "\<not> length scancodeMap \<le> unat code"
    using row(2) assms(1) length_scancodeMap by (simp_all add: IS_KEYCODE_def keyboard_ok_def word_le_nat_alt)
  have "unat (SHIFT_KEY_PRESSED kb) = unat (0 :: u8) \<or> unat (SHIFT_KEY_PRESSED kb) = unat (1 :: u8)"
    using assms(1) by (auto simp: keyboard_ok_def word_le_nat_alt)
  then have flag: "SHIFT_KEY_PRESSED kb = 0 \<or> SHIFT_KEY_PRESSED kb = 1" by (metis unsigned_word_eqI)
  then show ?thesis
    using row pr m idx assms(3) by (auto simp: keyboard_decode_def Let_def word_le_nat_alt)
qed

theorem letter_key_case_witness:
  "keyboard_decode 0x1E bss_keyboard = Some (KE_Byte 97, NULL, bss_keyboard)"
proof -
  have "(0x1E, 97) \<in> set letter_keys" by code_simp
  from letter_key_case [OF keyboard_ok_boot this] show ?thesis by (simp add: bss_keyboard_def F12_KEY_def)
qed

end
