(* ===== verification/Syscall.thy ===== *)
theory Syscall
  imports Keyboard
begin

text \<open>
  The system call dispatcher (\<open>idt/syscallDispatcher.c\<close>). A request is decoded from the saved
  registers, with the casts of the dispatcher; a system call either returns a value, forwards
  to a device driver, or leaves the frame of the kernel call it has got to.
\<close>

section \<open>Requests\<close>

record Registers =
  rax :: u64
  rdi :: u64
  rsi :: u64
  rdx :: u64
  rcx :: u64
  r8 :: u64

text \<open>
  Memory of the caller: the bytes from a pointer to the end of the array it points into, and
  the strings of an argument vector.
\<close>

record user_memory =
  um_bytes :: "addr \<Rightarrow> cstring option"
  um_argv :: "addr \<Rightarrow> cstring option list"

datatype device_call =
    Dev_play_sound u32
  | Dev_speaker_off
  | Dev_text_color u32
  | Dev_background_color u32
  | Dev_decrease_font
  | Dev_increase_font
  | Dev_set_font u8
  | Dev_clear
  | Dev_clear_previous
  | Dev_hour addr
  | Dev_minute addr
  | Dev_second addr
  | Dev_circle u32 u64 u64 u64
  | Dev_rectangle u32 u64 u64 u64 u64
  | Dev_fill u32
  | Dev_mem_status
  | Dev_width
  | Dev_height

datatype request =
    Sys_read int addr "32 word"
  | Sys_write int addr "32 word"
  | Sys_device device_call
  | Sys_mem_alloc u64
  | Sys_mem_free addr
  | Sys_exec addr
  | Sys_register_key u8 addr
  | Sys_sleep_milis u32
  | Sys_get_register_snapshot addr
  | Sys_sem_open addr u32 u8
  | Sys_sem_close addr
  | Sys_sem_wait addr
  | Sys_sem_post addr
  | Sys_sem_set_value addr u32
  | Sys_open_pipe
  | Sys_set_fd_targets u64 u64 u64
  | Sys_clear_pipe u64
  | Sys_process_create addr int addr u8 u8
  | Sys_process_exit "32 word"
  | Sys_process_get_pid
  | Sys_process_list
  | Sys_process_kill u32
  | Sys_process_set_priority u32 u8
  | Sys_process_block u32
  | Sys_process_unblock u32
  | Sys_process_yield
  | Sys_process_wait_pid u32
  | Sys_process_wait_children
  | Sys_process_give_foreground u64
  | Sys_process_get_foreground
  | Sys_fail
  | Sys_unknown

definition to_int :: "u64 \<Rightarrow> int" where
  "to_int w = sint (ucast w :: 32 word)"

definition syscallDispatcher :: "Registers \<Rightarrow> request" where
  "syscallDispatcher registers =
     (let n = rax registers; a = rdi registers; b = rsi registers; c = rdx registers
      in if n = 3 then Sys_read (to_int a) (unat b) (ucast c)
         else if n = 4 then Sys_write (to_int a) (unat b) (ucast c)
         else if n = 0x80000000 then Sys_device (Dev_play_sound (ucast a))
         else if n = 0x80000001 then Sys_device Dev_speaker_off
         else if n = 0x80000002 then Sys_device (Dev_text_color (ucast a))
         else if n = 0x80000003 then Sys_device (Dev_background_color (ucast a))
         else if n \<in> {0x80000004, 0x80000005, 0x80000006} then Sys_fail
         else if n = 0x80000007 then Sys_device Dev_decrease_font
         else if n = 0x80000008 then Sys_device Dev_increase_font
         else if n = 0x80000009 then Sys_device (Dev_set_font (ucast a))
         else if n = 0x8000000A then Sys_device Dev_clear
         else if n = 0x8000000B then Sys_device Dev_clear_previous
         else if n = 0x80000010 then Sys_device (Dev_hour (unat a))
         else if n = 0x80000011 then Sys_device (Dev_minute (unat a))
         else if n = 0x80000012 then Sys_device (Dev_second (unat a))
         else if n = 0x80000019 then Sys_device (Dev_circle (ucast a) b c (rcx registers))
         else if n = 0x80000020 then Sys_device (Dev_rectangle (ucast a) b c (rcx registers) (r8 registers))
         else if n = 0x80000021 then Sys_device (Dev_fill (ucast a))
         else if n = 0x80000022 then Sys_mem_alloc a
         else if n = 0x80000023 then Sys_mem_free (unat a)
         else if n = 0x80000024 then Sys_device Dev_mem_status
         else if n = 0x800000A0 then Sys_exec (unat a)
         else if n = 0x800000B0 then Sys_register_key (ucast a) (unat b)
         else if n = 0x800000C0 then Sys_device Dev_width
         else if n = 0x800000C1 then Sys_device Dev_height
         else if n = 0x800000D0 then Sys_sleep_milis (ucast a)
         else if n = 0x800000E0 then Sys_get_register_snapshot (unat a)
         else if n = 0x80000120 then Sys_sem_open (unat a) (ucast b) (ucast c)
         else if n = 0x80000121 then Sys_sem_close (unat a)
         else if n = 0x80000122 then Sys_sem_wait (unat a)
         else if n = 0x80000123 then Sys_sem_post (unat a)
         else if n = 0x80000124 then Sys_sem_set_value (unat a) (ucast b)
         else if n = 0x80000130 then Sys_open_pipe
         else if n = 0x80000131 then Sys_set_fd_targets a b c
         else if n = 0x80000132 then Sys_clear_pipe a
         else if n = 0x80000100
         then Sys_process_create (unat a) (to_int b) (unat c) (ucast (rcx registers)) (ucast (r8 registers))
         else if n = 0x80000101 then Sys_process_exit (ucast a)
         else if n = 0x80000102 then Sys_process_get_pid
         else if n = 0x80000103 then Sys_process_list
         else if n = 0x80000104 then Sys_process_kill (ucast a)
         else if n = 0x80000105 then Sys_process_set_priority (ucast a) (ucast b)
         else if n = 0x80000106 then Sys_process_block (ucast a)
         else if n = 0x80000107 then Sys_process_unblock (ucast a)
         else if n = 0x80000108 then Sys_process_yield
         else if n = 0x80000109 then Sys_process_wait_pid (ucast a)
         else if n = 0x8000010A then Sys_process_wait_children
         else if n = 0x8000010B then Sys_process_give_foreground a
         else if n = 0x8000010C then Sys_process_get_foreground
         else Sys_unknown)"

section \<open>The calls\<close>

text \<open>
  \<open>SF_Yield r\<close>: the caller gives up the processor and returns \<open>r\<close> when it runs again. The
  other frames are those of the kernel calls; \<open>SF_Exit\<close> keeps the status to return.
\<close>

datatype sys_frame =
    SF_Ret int
  | SF_Yield int
  | SF_Device device_call
  | SF_Read read_frame
  | SF_Write fdwrite_frame
  | SF_Create create_frame
  | SF_Exit exit_frame int
  | SF_Reap reap_frame
  | SF_Children children_frame
  | SF_Targets targets_frame
  | SF_Clear clear_frame
  | SF_Exec addr "addr list"
  | SF_Snapshot int addr "u64 list"

definition sys_write :: "int \<Rightarrow> cstring option \<Rightarrow> 32 word \<Rightarrow> kernel \<Rightarrow> (sys_frame \<times> kernel) option" where
  "sys_write fd buf count k = do {
     (r, k) \<leftarrow> fd_write fd buf count k;
     Some (case r of Inl i \<Rightarrow> SF_Ret i | Inr f \<Rightarrow> SF_Write f, k)
   }"

definition sys_read :: "int \<Rightarrow> cstring option \<Rightarrow> 32 word \<Rightarrow> kernel \<Rightarrow> (sys_frame \<times> kernel) option" where
  "sys_read fd buf count k = do {
     (r, k) \<leftarrow> fd_read fd buf count k;
     Some (case r of Inl i \<Rightarrow> SF_Ret i | Inr f \<Rightarrow> SF_Read f, k)
   }"

definition sys_mem_alloc :: "u64 \<Rightarrow> kernel \<Rightarrow> (addr \<times> kernel) option" where
  "sys_mem_alloc sz k = do {
     (p, k) \<leftarrow> kalloc sz k;
     Some (p, if p = NULL then k else k\<lparr>raws := (raws k)(p \<mapsto> sz)\<rparr>)
   }"

text \<open>Any address can be passed: nothing stops a caller from freeing an object of the kernel.\<close>

definition sys_mem_free :: "addr \<Rightarrow> kernel \<Rightarrow> (int \<times> kernel) option" where
  "sys_mem_free ptr k = do { k \<leftarrow> kfree ptr k; Some (0, k\<lparr>raws := (raws k)(ptr := None)\<rparr>) }"

definition sys_sem_open :: "cstring option \<Rightarrow> u32 \<Rightarrow> u8 \<Rightarrow> kernel \<Rightarrow> (int \<times> kernel) option" where
  "sys_sem_open name initial_count create_if_missing k =
     (if name = None then Some (-1, k)
      else do {
        (sem, k) \<leftarrow> sem_find name k;
        if sem \<noteq> NULL then Some (int sem, k)
        else if create_if_missing = 0 then Some (-1, k)
        else do {
          (sem, k) \<leftarrow> sem_create k;
          if sem = NULL then Some (-1, k)
          else do {
            k \<leftarrow> sem_init sem name initial_count k;
            s \<leftarrow> sems k sem;
            nm \<leftarrow> s_name s;
            no_queue \<leftarrow> (if nm = NULL then Some True else do { q \<leftarrow> s_waiting s; Some (q = NULL) });
            if no_queue then do {
              k \<leftarrow> sem_destroy sem k;
              k \<leftarrow> free_sem sem k;
              Some (-1, k)
            }
            else Some (int sem, k)
          }
        }
      })"

definition sys_sem_close :: "addr \<Rightarrow> kernel \<Rightarrow> (int \<times> kernel) option" where
  "sys_sem_close sem k =
     (if sem = NULL then Some (-1, k)
      else do {
        k \<leftarrow> sem_destroy sem k;
        k \<leftarrow> free_sem sem k;
        Some (0, k)
      })"

text \<open>A wait that blocks and a post that raises the scheduler interrupt give up the processor.\<close>

definition sys_sem_wait :: "addr \<Rightarrow> kernel \<Rightarrow> (sys_frame \<times> kernel) option" where
  "sys_sem_wait sem k =
     (if sem = NULL then Some (SF_Ret (-1), k)
      else do { (r, blocked, k) \<leftarrow> sem_wait sem k; Some (if blocked then SF_Yield r else SF_Ret r, k) })"

definition sys_sem_post :: "addr \<Rightarrow> kernel \<Rightarrow> (sys_frame \<times> kernel) option" where
  "sys_sem_post sem k =
     (if sem = NULL then Some (SF_Ret (-1), k)
      else do { (r, yields, k) \<leftarrow> sem_post sem k; Some (if yields then SF_Yield r else SF_Ret r, k) })"

definition sys_sem_set_value :: "addr \<Rightarrow> u32 \<Rightarrow> kernel \<Rightarrow> (sys_frame \<times> kernel) option" where
  "sys_sem_set_value sem new_value k = do {
     (r, yields, k) \<leftarrow> sem_set_value sem new_value k;
     Some (if yields then SF_Yield r else SF_Ret r, k)
   }"

text \<open>
  \<open>sys_exec\<close> hides the handlers registered by user code while \<open>fnPtr\<close> runs. What that code
  does to the keyboard in between is the parameter \<open>run_code\<close>. The colours, the font size and
  the screen, which it also saves and restores, belong to the video driver.
\<close>

definition exec_begin :: "keyboard \<Rightarrow> (addr list \<times> keyboard) option" where
  "exec_begin kb = clearKeyFnMapNonKernel (replicate (unat F12_KEY + 1) NULL) kb"

definition exec_end :: "addr list \<Rightarrow> int \<Rightarrow> keyboard \<Rightarrow> (int \<times> keyboard) option" where
  "exec_end mp aux kb = do { kb \<leftarrow> restoreKeyFnMapNonKernel mp kb; Some (aux, kb) }"

definition sys_exec :: "(keyboard \<Rightarrow> int \<times> keyboard) \<Rightarrow> keyboard \<Rightarrow> (int \<times> keyboard) option" where
  "sys_exec run_code kb = do {
     (mp, kb) \<leftarrow> exec_begin kb;
     (aux, kb) \<leftarrow> Some (run_code kb);
     exec_end mp aux kb
   }"

definition sys_register_key :: "u8 \<Rightarrow> addr \<Rightarrow> keyboard \<Rightarrow> int \<times> keyboard" where
  "sys_register_key scancode fn kb = (0, snd (registerSpecialKey scancode fn 0 kb))"

text \<open>The product is computed in 32 bits.\<close>

definition sys_sleep_milis :: "u32 \<Rightarrow> kernel \<Rightarrow> (sys_frame \<times> kernel) option" where
  "sys_sleep_milis milis k = do {
     (yields, k) \<leftarrow> sleepTicks (ucast ((milis * of_nat SECONDS_TO_TICKS) div 1000)) k;
     Some (if yields then SF_Yield 0 else SF_Ret 0, k)
   }"

text \<open>The words written to the caller's array, none when no snapshot has been taken.\<close>

definition sys_get_register_snapshot :: "bool \<Rightarrow> u64 list \<Rightarrow> (int \<times> u64 list) option" where
  "sys_get_register_snapshot taken snapshot =
     (if \<not> taken then Some (0, [])
      else if length snapshot < 18 then None
      else Some (1, take 18 snapshot))"

definition sys_process_create ::
  "addr \<Rightarrow> int \<Rightarrow> cstring option list \<Rightarrow> u8 \<Rightarrow> u8 \<Rightarrow> kernel \<Rightarrow> (sys_frame \<times> kernel) option" where
  "sys_process_create entry_point argc argv priority foreground k =
     (let caller_pid = get_pid k;
          parent_pid = (if caller_pid < 0 then 0 else of_int caller_pid)
      in do {
        (f, k) \<leftarrow> createProcess argc argv parent_pid priority foreground entry_point k;
        Some (SF_Create f, k)
      })"

text \<open>What is left to do when \<open>createProcess\<close> has returned.\<close>

definition process_created :: "addr \<Rightarrow> kernel \<Rightarrow> (int \<times> kernel) option" where
  "process_created process k =
     (if process = NULL then Some (-1, k)
      else do {
        k \<leftarrow> scheduler_add_ready process k;
        pr \<leftarrow> procs k process;
        Some (sint (pr_pid pr), k)
      })"

definition sys_process_exit :: "32 word \<Rightarrow> kernel \<Rightarrow> (sys_frame \<times> kernel) option" where
  "sys_process_exit status k =
     (let process = scheduler_current k
      in if process = NULL then Some (SF_Ret (sint status), k)
         else do { (f, k) \<leftarrow> process_exit process k; Some (SF_Exit f (sint status), k) })"

definition sys_process_block :: "u32 \<Rightarrow> kernel \<Rightarrow> (sys_frame \<times> kernel) option" where
  "sys_process_block pid k =
     (let process = process_lookup pid k
      in if process = NULL then Some (SF_Ret (-1), k)
         else do {
           (b, k) \<leftarrow> process_block process k;
           Some (if b then SF_Yield 0 else SF_Ret (-1), k)
         })"

definition sys_process_unblock :: "u32 \<Rightarrow> kernel \<Rightarrow> (int \<times> kernel) option" where
  "sys_process_unblock pid k =
     (let process = process_lookup pid k
      in if process = NULL then Some (-1, k)
         else do { (b, k) \<leftarrow> process_unblock process k; Some (if b then 0 else -1, k) })"

definition sys_process_kill :: "u32 \<Rightarrow> kernel \<Rightarrow> (sys_frame \<times> kernel) option" where
  "sys_process_kill pid k =
     (let process = process_lookup pid k
      in if process = NULL then Some (SF_Ret (-1), k)
         else do { (f, k) \<leftarrow> process_exit process k; Some (SF_Exit f 0, k) })"

definition sys_process_yield :: "kernel \<Rightarrow> (sys_frame \<times> kernel) option" where
  "sys_process_yield k = do {
     (yields, k) \<leftarrow> process_yield k;
     Some (if yields then SF_Yield 0 else SF_Ret 0, k)
   }"

definition sys_process_give_foreground :: "u64 \<Rightarrow> kernel \<Rightarrow> int \<times> kernel" where
  "sys_process_give_foreground target_pid k =
     (if target_pid < ucast PROCESS_FIRST_PID \<or>
         ucast PROCESS_FIRST_PID + ucast PROCESS_MAX_PROCESSES \<le> target_pid
      then (-1, k)
      else give_foreground_to (ucast target_pid) k)"

definition sys_set_fd_targets :: "u64 \<Rightarrow> u64 \<Rightarrow> u64 \<Rightarrow> kernel \<Rightarrow> (sys_frame \<times> kernel) option" where
  "sys_set_fd_targets read_target write_target error_target k = do {
     (f, k) \<leftarrow> set_fd_targets (ucast read_target) (ucast write_target) (ucast error_target) k;
     Some (SF_Targets f, k)
   }"

definition sys_clear_pipe :: "u64 \<Rightarrow> kernel \<Rightarrow> (sys_frame \<times> kernel) option" where
  "sys_clear_pipe pipe_id k = do { (f, k) \<leftarrow> clear_pipe (ucast pipe_id) k; Some (SF_Clear f, k) }"

text \<open>Performing a request that concerns the kernel only.\<close>

definition perform_kernel :: "user_memory \<Rightarrow> request \<Rightarrow> kernel \<Rightarrow> (sys_frame \<times> kernel) option" where
  "perform_kernel um r k =
     (case r of
        Sys_read fd buf n \<Rightarrow> sys_read fd (um_bytes um buf) n k
      | Sys_write fd buf n \<Rightarrow> sys_write fd (um_bytes um buf) n k
      | Sys_device d \<Rightarrow> Some (SF_Device d, k)
      | Sys_mem_alloc sz \<Rightarrow> do { (p, k) \<leftarrow> sys_mem_alloc sz k; Some (SF_Ret (int p), k) }
      | Sys_mem_free p \<Rightarrow> do { (i, k) \<leftarrow> sys_mem_free p k; Some (SF_Ret i, k) }
      | Sys_sleep_milis ms \<Rightarrow> sys_sleep_milis ms k
      | Sys_sem_open name n c \<Rightarrow> do { (i, k) \<leftarrow> sys_sem_open (um_bytes um name) n c k; Some (SF_Ret i, k) }
      | Sys_sem_close s \<Rightarrow> do { (i, k) \<leftarrow> sys_sem_close s k; Some (SF_Ret i, k) }
      | Sys_sem_wait s \<Rightarrow> sys_sem_wait s k
      | Sys_sem_post s \<Rightarrow> sys_sem_post s k
      | Sys_sem_set_value s n \<Rightarrow> sys_sem_set_value s n k
      | Sys_open_pipe \<Rightarrow> do { (i, k) \<leftarrow> open_pipe k; Some (SF_Ret i, k) }
      | Sys_set_fd_targets a b c \<Rightarrow> sys_set_fd_targets a b c k
      | Sys_clear_pipe p \<Rightarrow> sys_clear_pipe p k
      | Sys_process_create e n av p f \<Rightarrow> sys_process_create e n (um_argv um av) p f k
      | Sys_process_exit st \<Rightarrow> sys_process_exit st k
      | Sys_process_get_pid \<Rightarrow> Some (SF_Ret (get_pid k), k)
      | Sys_process_list \<Rightarrow> do { (n, out) \<leftarrow> print_process_list k; Some (SF_Ret n, k) }
      | Sys_process_kill pid \<Rightarrow> sys_process_kill pid k
      | Sys_process_set_priority pid p \<Rightarrow> do { (i, k) \<leftarrow> scheduler_set_process_priority pid p k; Some (SF_Ret i, k) }
      | Sys_process_block pid \<Rightarrow> sys_process_block pid k
      | Sys_process_unblock pid \<Rightarrow> do { (i, k) \<leftarrow> sys_process_unblock pid k; Some (SF_Ret i, k) }
      | Sys_process_yield \<Rightarrow> sys_process_yield k
      | Sys_process_wait_pid pid \<Rightarrow> do { (f, k) \<leftarrow> process_wait_pid pid k; Some (SF_Reap f, k) }
      | Sys_process_wait_children \<Rightarrow> do { (f, k) \<leftarrow> process_wait_children k; Some (SF_Children f, k) }
      | Sys_process_give_foreground pid \<Rightarrow> (case sys_process_give_foreground pid k of (i, k) \<Rightarrow> Some (SF_Ret i, k))
      | Sys_process_get_foreground \<Rightarrow> Some (SF_Ret (get_foreground_process_pid k), k)
      | Sys_fail \<Rightarrow> Some (SF_Ret (-1), k)
      | _ \<Rightarrow> Some (SF_Ret 0, k))"

text \<open>The machine a request is performed on: the kernel, the keyboard driver and the register snapshot.\<close>

record machine =
  mc_kernel :: kernel
  mc_keyboard :: keyboard
  register_snapshot_taken :: bool
  register_snapshot :: "u64 list"

definition perform :: "user_memory \<Rightarrow> request \<Rightarrow> machine \<Rightarrow> (sys_frame \<times> machine) option" where
  "perform um r m =
     (case r of
        Sys_exec fnPtr \<Rightarrow> do {
          (mp, kb) \<leftarrow> exec_begin (mc_keyboard m);
          Some (SF_Exec fnPtr mp, m\<lparr>mc_keyboard := kb\<rparr>)
        }
      | Sys_register_key scancode fn \<Rightarrow>
          (case sys_register_key scancode fn (mc_keyboard m) of (i, kb) \<Rightarrow> Some (SF_Ret i, m\<lparr>mc_keyboard := kb\<rparr>))
      | Sys_get_register_snapshot p \<Rightarrow> do {
          (i, ws) \<leftarrow> sys_get_register_snapshot (register_snapshot_taken m) (register_snapshot m);
          Some (SF_Snapshot i p ws, m)
        }
      | _ \<Rightarrow> do {
          (f, k) \<leftarrow> perform_kernel um r (mc_kernel m);
          Some (f, m\<lparr>mc_kernel := k\<rparr>)
        })"

section \<open>Opening semaphores\<close>

lemma names_inv_created:
  assumes "names_inv S k" and "objects_at k s = 0" and "k' = k\<lparr>kmem := kmem k', sems := sems k'\<rparr>"
    and "\<forall>x. x \<noteq> s \<longrightarrow> sems k' x = sems k x" and "s \<notin> S"
  shows "names_inv S k'" "registry k' = registry k" "s \<notin> set (registry k)" "lookup_name k' n = lookup_name k n"
proof -
  have f: "registered_semaphores k' = registered_semaphores k" "registry_lock k' = registry_lock k" "strs k' = strs k"
    "queues k' = queues k" "qnodes k' = qnodes k" "sch_ready_queues k' = sch_ready_queues k" by (subst assms(3), simp)+
  have el: "qelems k' = qelems k" by (rule qelems_cong) (simp_all add: f)
  show reg: "registry k' = registry k" by (simp add: registry_def f el)
  have none: "sems k s = None" using assms(2) by (cases "sems k s") (simp_all add: objects_at_def)
  have "\<not> sem_named k s n" for n using none by (simp add: sem_named_def)
  then show fresh: "s \<notin> set (registry k)" using assms(1) by (auto simp: names_inv_def registry_inv_def)
  have named: "sem_named k' x n = sem_named k x n" if "x \<in> set (registry k)" for x n
    using assms(4) that fresh f(3) by (auto simp: sem_named_def)
  have sq: "sem_queue k' ` S = sem_queue k ` S"
    by (rule image_cong [OF refl]) (use assms(4,5) in \<open>auto simp: sem_queue_def\<close>)
  show "names_inv S k'" using assms(1) named by (simp add: names_inv_def registry_inv_def f sq reg)
  have "find (\<lambda>x. sem_named k' x n) (registry k) = find (\<lambda>x. sem_named k x n) (registry k)"
    by (rule find_upd) (use named in blast)
  then show "lookup_name k' n = lookup_name k n" by (simp add: lookup_name_def reg)
qed

lemma sys_sem_open_found:
  assumes "queue_inv k" and "names_inv S k" and "0 \<in> set name" and "lookup_name k (cstr name) \<noteq> NULL"
  shows "sys_sem_open (Some name) c f k = Some (int (lookup_name k (cstr name)), k)"
  using sem_find_spec [OF assms(1-3)] assms(4) by (simp add: sys_sem_open_def)

lemma lookup_name_ready:
  assumes "sems_inv S k" and "lookup_name k n \<in> S" and "lookup_name k n \<noteq> NULL"
  obtains r nm q where "sems k (lookup_name k n) = Some r" "s_name r = Some nm" "nm \<noteq> NULL" "s_waiting r = Some q" "q \<noteq> NULL"
proof -
  let ?s = "lookup_name k n"
  have "find (\<lambda>s. sem_named k s n) (registry k) = Some ?s" using assms(3) by (auto simp: lookup_name_def split: option.splits)
  then have "sem_named k ?s n" by (auto simp: find_Some_iff)
  then obtain r nm where r: "sems k ?s = Some r" "s_name r = Some nm" "nm \<noteq> NULL" by (auto simp: sem_named_def)
  have "sem_ready k ?s" using sems_invD(4) [OF assms(1)] assms(2) by blast
  then obtain q where q: "s_waiting r = Some q" "q \<in> dom (queues k)" using r(1) by (auto simp: sem_ready_def)
  then have "q \<noteq> NULL" using object_live(1) [OF queue_inv_heap [OF sems_invD(3) [OF assms(1)]]] by blast
  then show ?thesis using that r q(1) by blast
qed

lemma sys_sem_open_creates:
  assumes inv: "sems_inv S k" and names: "names_inv S k" and name: "0 \<in> set name" "length (cstr name) \<le> 1000"
    and new: "lookup_name k (cstr name) = NULL" and f: "f \<noteq> 0" and sp: "spare (Suc (Suc (Suc (Suc (Suc n))))) (kmem k)"
  obtains s k' where "sys_sem_open (Some name) c f k = Some (int s, k')" "s \<noteq> NULL" "s \<notin> S"
    "sems_inv (insert s S) k'" "names_inv (insert s S) k'" "lookup_name k' (cstr name) = s"
    "sem_value k' s = c" "waiters k' s = []" "sem_abs S k' = sem_abs S k" "spare n (kmem k')" "procs k' = procs k"
proof -
  obtain s k1 where k1: "sem_create k = Some (s, k1)" "s \<noteq> NULL" "objects_at k s = 0" "sems_inv S k1" "sem_abs S k1 = sem_abs S k"
    "sems k1 s \<noteq> None" "spare (Suc (Suc (Suc (Suc n)))) (kmem k1)" "k1 = k\<lparr>kmem := kmem k1, sems := sems k1\<rparr>"
    "\<forall>s'. s' \<noteq> s \<longrightarrow> sems k1 s' = sems k s'" by (rule sem_create_spare [OF inv sp])
  have ns: "s \<notin> S"
  proof
    assume "s \<in> S"
    then obtain r where "sems k s = Some r" using sem_readyD [OF sems_invD(4) [OF inv]] by metis
    then show False using k1(3) by (simp add: objects_at_def)
  qed
  note n1 = names_inv_created [OF names k1(3,8,9) ns]
  obtain r where r: "sems k1 s = Some r" using k1(6) by blast
  have "s \<notin> set (registry k1)" using n1(2,3) by simp
  from sem_init_spare [OF k1(4) n1(1) r ns this name k1(7), of c] obtain k' where
    k': "sem_init s (Some name) c k1 = Some k'" "sems_inv (insert s S) k'" "names_inv (insert s S) k'"
    "sem_value k' s = c" "waiters k' s = []" "sem_abs S k' = sem_abs S k1" "spare n (kmem k')" "procs k' = procs k1"
    "lookup_name k' (cstr name) = s" using n1(4) new by auto
  have sN: "lookup_name k' (cstr name) \<in> insert s S" "lookup_name k' (cstr name) \<noteq> NULL" using k'(9) k1(2) by simp_all
  obtain r' nm q where "sems k' s = Some r'" "s_name r' = Some nm" "nm \<noteq> NULL" "s_waiting r' = Some q" "q \<noteq> NULL"
    using lookup_name_ready [OF k'(2) sN] k'(9) by auto
  then have "sys_sem_open (Some name) c f k = Some (int s, k')"
    using sem_find_spec [OF sems_invD(3) [OF inv] names name(1)] new f k1(1,2) k'(1) by (simp add: sys_sem_open_def)
  moreover have "procs k1 = procs k" by (subst k1(8)) simp
  ultimately show ?thesis using that [OF _ k1(2) ns k'(2,3,9,4,5)] k'(6-8) k1(5) by simp
qed

section \<open>Properties\<close>

text \<open>
  C27. Two processes that open a semaphore by the same name share it. With enough memory the
  first open, with the create flag, returns a semaphore: a new one with the given value and
  nobody in line, or the one already there, untouched. Any later open of an equal string,
  whatever its count and flag, returns the same semaphore and changes nothing.
\<close>

theorem sem_open_shared:
  assumes "sems_inv S k" and "names_inv S k" and "spare (Suc (Suc (Suc (Suc (Suc n))))) (kmem k)"
    and "rax r1 = 0x80000120" and "um_bytes um1 (unat (rdi r1)) = Some name1" and "(ucast (rdx r1) :: u8) \<noteq> 0"
    and "rax r2 = 0x80000120" and "um_bytes um2 (unat (rdi r2)) = Some name2"
    and "0 \<in> set name1" and "0 \<in> set name2" and "cstr name2 = cstr name1" and "length (cstr name1) \<le> 1000"
    and "mc_kernel m = k"
  shows "\<exists>s m'. perform um1 (syscallDispatcher r1) m = Some (SF_Ret (int s), m') \<and> s \<noteq> NULL \<and>
    perform um2 (syscallDispatcher r2) m' = Some (SF_Ret (int s), m') \<and>
    sem_abs S (mc_kernel m') = sem_abs S k \<and>
    (if lookup_name k (cstr name1) = NULL
     then sems_inv (insert s S) (mc_kernel m') \<and> sem_value (mc_kernel m') s = ucast (rsi r1) \<and> waiters (mc_kernel m') s = []
     else m' = m)"
proof -
  have d: "syscallDispatcher r1 = Sys_sem_open (unat (rdi r1)) (ucast (rsi r1)) (ucast (rdx r1))"
    "syscallDispatcher r2 = Sys_sem_open (unat (rdi r2)) (ucast (rsi r2)) (ucast (rdx r2))"
    using assms(4,7) by (simp_all add: syscallDispatcher_def)
  have p: "perform um1 (syscallDispatcher r1) m =
      do { (i, k) \<leftarrow> sys_sem_open (Some name1) (ucast (rsi r1)) (ucast (rdx r1)) (mc_kernel m); Some (SF_Ret i, m\<lparr>mc_kernel := k\<rparr>) }"
    "perform um2 (syscallDispatcher r2) m' =
      do { (i, k) \<leftarrow> sys_sem_open (Some name2) (ucast (rsi r2)) (ucast (rdx r2)) (mc_kernel m'); Some (SF_Ret i, m'\<lparr>mc_kernel := k\<rparr>) }" for m'
    unfolding d using assms(5,8) by (simp_all add: perform_def perform_kernel_def case_prod_unfold)
  note q = sems_invD(3) [OF assms(1)]
  show ?thesis
  proof (cases "lookup_name k (cstr name1) = NULL")
    case True
    obtain s k' where k': "sys_sem_open (Some name1) (ucast (rsi r1)) (ucast (rdx r1)) k = Some (int s, k')" "s \<noteq> NULL"
      "sems_inv (insert s S) k'" "names_inv (insert s S) k'" "lookup_name k' (cstr name1) = s"
      "sem_value k' s = ucast (rsi r1)" "waiters k' s = []" "sem_abs S k' = sem_abs S k"
      by (rule sys_sem_open_creates [OF assms(1,2,9,12) True assms(6,3), of "ucast (rsi r1)"])
    have "sys_sem_open (Some name2) (ucast (rsi r2)) (ucast (rdx r2)) k' = Some (int s, k')"
      using sys_sem_open_found [OF sems_invD(3) [OF k'(3)] k'(4) assms(10)] k'(2,5) assms(11) by simp
    then show ?thesis using k' assms(13) True p by (intro exI [of _ s] exI [of _ "m\<lparr>mc_kernel := k'\<rparr>"]) simp
  next
    case False
    have "sys_sem_open (Some name1) c f k = Some (int (lookup_name k (cstr name1)), k)"
      "sys_sem_open (Some name2) c f k = Some (int (lookup_name k (cstr name1)), k)" for c f
      using sys_sem_open_found [OF q assms(2,9) False] sys_sem_open_found [OF q assms(2,10)] False assms(11) by simp_all
    then show ?thesis using assms(13) False p by (intro exI [of _ "lookup_name k (cstr name1)"] exI [of _ m]) simp
  qed
qed

theorem sem_open_shared_witness:
  "\<exists>m s m'. mc_keyboard m = bss_keyboard \<and>
     perform \<lparr>um_bytes = [64 \<mapsto> [97, 0]], um_argv = \<lambda>_. []\<rparr>
       (syscallDispatcher \<lparr>rax = 0x80000120, rdi = 64, rsi = 3, rdx = 1, rcx = 0, r8 = 0\<rparr>) m = Some (SF_Ret (int s), m') \<and>
     perform \<lparr>um_bytes = [80 \<mapsto> [97, 0, 98]], um_argv = \<lambda>_. []\<rparr>
       (syscallDispatcher \<lparr>rax = 0x80000120, rdi = 80, rsi = 7, rdx = 0, rcx = 0, r8 = 0\<rparr>) m' = Some (SF_Ret (int s), m') \<and>
     sem_value (mc_kernel m') s = 3"
proof -
  obtain k s r where k: "sems_inv {} k" "names_inv {} k" "registry k = []" "spare 25 (kmem k)" by (rule boot_raw_sem)
  let ?m = "\<lparr>mc_kernel = k, mc_keyboard = bss_keyboard, register_snapshot_taken = False, register_snapshot = []\<rparr>"
  have sp: "spare (Suc (Suc (Suc (Suc (Suc 20))))) (kmem k)" using k(4) by simp
  have "lookup_name k [97] = NULL" using k(3) by (simp add: lookup_name_def)
  then show ?thesis
    using sem_open_shared [OF k(1,2) sp, of "\<lparr>rax = 0x80000120, rdi = 64, rsi = 3, rdx = 1, rcx = 0, r8 = 0\<rparr>"
        "\<lparr>um_bytes = [64 \<mapsto> [97, 0]], um_argv = \<lambda>_. []\<rparr>" "[97, 0]"
        "\<lparr>rax = 0x80000120, rdi = 80, rsi = 7, rdx = 0, rcx = 0, r8 = 0\<rparr>"
        "\<lparr>um_bytes = [80 \<mapsto> [97, 0, 98]], um_argv = \<lambda>_. []\<rparr>" "[97, 0, 98]" ?m]
    by (intro exI [of _ ?m]) auto
qed

end
