(* ===== verification/ULibc.thy ===== *)
theory ULibc
  imports Syscall
begin

text \<open>
  The C library of user programs: \<open>Userland/libc/string.c\<close>, \<open>stdlib.c\<close> and \<open>ctype.h\<close>.
  Strings are the bytes from a pointer to the end of their array, as in \<open>KLib\<close>; the
  functions that move a pointer through an array take the array and an offset. The names
  carry the prefix \<open>u_\<close> where the kernel has a function of the same name. The counters of
  type \<open>int\<close> are not bounded: no object has \<open>2 ^ 31\<close> bytes.
\<close>

section \<open>Characters\<close>

definition u_tolower :: "u8 \<Rightarrow> u8" where
  "u_tolower a = (if 65 \<le> a \<and> a \<le> 90 then a + 32 else a)"

definition u_toupper :: "u8 \<Rightarrow> u8" where
  "u_toupper a = (if 97 \<le> a \<and> a \<le> 122 then a - 32 else a)"

definition u_isspace :: "u8 \<Rightarrow> bool" where
  "u_isspace a \<longleftrightarrow> a = 32 \<or> a = 9 \<or> a = 10 \<or> a = 13 \<or> a = 11 \<or> a = 12"

section \<open>Strings\<close>

fun u_strlen_loop :: "cstring \<Rightarrow> int \<Rightarrow> int option" where
  "u_strlen_loop [] i = None"
| "u_strlen_loop (c # str) i = (if c \<noteq> 0 then u_strlen_loop str (i + 1) else Some i)"

definition u_strlen :: "cstring \<Rightarrow> int option" where
  "u_strlen str = u_strlen_loop str 0"

fun u_strcmp :: "cstring \<Rightarrow> cstring \<Rightarrow> int option" where
  "u_strcmp (a # str1) (b # str2) =
     (if a \<noteq> 0 \<and> b \<noteq> 0 then if a \<noteq> b then Some (sint a - sint b) else u_strcmp str1 str2
      else Some (sint a - sint b))"
| "u_strcmp _ _ = None"

fun u_strcasecmp :: "cstring \<Rightarrow> cstring \<Rightarrow> int option" where
  "u_strcasecmp (a # str1) (b # str2) =
     (if a \<noteq> 0 \<and> b \<noteq> 0
      then if u_toupper a \<noteq> u_toupper b then Some (sint a - sint b) else u_strcasecmp str1 str2
      else Some (sint a - sint b))"
| "u_strcasecmp _ _ = None"

text \<open>The copies yield the new contents of the destination array.\<close>

fun u_strcpy :: "cstring \<Rightarrow> cstring \<Rightarrow> cstring option" where
  "u_strcpy (d # dest) (s # src) =
     (if s \<noteq> 0 then do { rest \<leftarrow> u_strcpy dest src; Some (s # rest) } else Some (0 # dest))"
| "u_strcpy _ _ = None"

fun u_strncpy :: "cstring \<Rightarrow> cstring \<Rightarrow> nat \<Rightarrow> cstring option" where
  "u_strncpy (d # dest) src 0 = Some (0 # dest)"
| "u_strncpy (d # dest) (s # src) (Suc n) =
     (if s \<noteq> 0 then do { rest \<leftarrow> u_strncpy dest src n; Some (s # rest) } else Some (0 # dest))"
| "u_strncpy _ _ _ = None"

fun is_delim :: "u8 \<Rightarrow> cstring \<Rightarrow> bool option" where
  "is_delim c [] = None"
| "is_delim c (d # s2) = (if d \<noteq> 0 then if c = d then Some True else is_delim c s2 else Some False)"

function strtok_loop :: "cstring \<Rightarrow> u8 list \<Rightarrow> nat \<Rightarrow> (u8 list \<times> nat) option" where
  "strtok_loop s2 buf lst =
     (if length buf \<le> lst then None
      else if buf ! lst \<noteq> 0 then do {
        d \<leftarrow> is_delim (buf ! lst) s2;
        if d then Some (buf[lst := 0], lst + 1) else strtok_loop s2 buf (lst + 1)
      }
      else Some (buf, lst))"
  by pat_completeness auto
termination by (relation "measure (\<lambda>(s2, buf, lst). length buf - lst)") auto

declare strtok_loop.simps [simp del]

text \<open>
  \<open>strtok\<close> keeps its place in a static variable. It yields the token, the array with the
  terminator written into it, and the new place.
\<close>

definition u_strtok :: "nat option \<Rightarrow> cstring \<Rightarrow> u8 list \<Rightarrow> nat option \<Rightarrow> (nat option \<times> u8 list \<times> nat option) option" where
  "u_strtok s1 s2 buf lst = do {
     l \<leftarrow> (case s1 of Some p \<Rightarrow> Some p | None \<Rightarrow> lst);
     if length buf \<le> l then None
     else if s1 = None \<and> buf ! l = 0 then Some (None, buf, lst)
     else do {
       (buf, l') \<leftarrow> strtok_loop s2 buf l;
       Some (Some l, buf, Some l')
     }
   }"

function strchr_loop :: "u8 list \<Rightarrow> nat \<Rightarrow> int \<Rightarrow> nat option option" where
  "strchr_loop buf s c =
     (if length buf \<le> s then None
      else if buf ! s \<noteq> 0 then if buf ! s = of_int c then Some (Some s) else strchr_loop buf (s + 1) c
      else Some (if c = 0 then Some s else None))"
  by pat_completeness auto
termination by (relation "measure (\<lambda>(buf, s, c). length buf - s)") auto

declare strchr_loop.simps [simp del]

definition u_strchr :: "u8 list \<Rightarrow> nat option \<Rightarrow> int \<Rightarrow> nat option option" where
  "u_strchr buf s c = (case s of None \<Rightarrow> Some None | Some p \<Rightarrow> strchr_loop buf p c)"

section \<open>Memory\<close>

text \<open>
  User programs allocate from the heap of the kernel; \<open>uh_bytes\<close> is what their blocks hold.
  The bytes of a new block are indeterminate; they are written before they are read.
\<close>

record uheap =
  uh_kernel :: kernel
  uh_bytes :: "addr \<rightharpoonup> u8 list"

definition malloc :: "u64 \<Rightarrow> uheap \<Rightarrow> (addr \<times> uheap) option" where
  "malloc sz u =
     (if sz = 0 then Some (NULL, u)
      else do {
        (p, k) \<leftarrow> sys_mem_alloc sz (uh_kernel u);
        Some (p, if p = NULL then u\<lparr>uh_kernel := k\<rparr>
                 else u\<lparr>uh_kernel := k, uh_bytes := (uh_bytes u)(p \<mapsto> replicate (unat sz) 0)\<rparr>)
      })"

definition free :: "addr \<Rightarrow> uheap \<Rightarrow> uheap option" where
  "free ptr u =
     (if ptr = NULL then Some u
      else do {
        (_, k) \<leftarrow> sys_mem_free ptr (uh_kernel u);
        Some (u\<lparr>uh_kernel := k, uh_bytes := (uh_bytes u)(ptr := None)\<rparr>)
      })"

text \<open>Writing a string into a block.\<close>

definition store_string :: "addr \<Rightarrow> cstring \<Rightarrow> uheap \<Rightarrow> uheap option" where
  "store_string p src u = do {
     dest \<leftarrow> uh_bytes u p;
     bs \<leftarrow> u_strcpy dest src;
     Some (u\<lparr>uh_bytes := (uh_bytes u)(p \<mapsto> bs)\<rparr>)
   }"

definition calloc :: "u64 \<Rightarrow> u64 \<Rightarrow> uheap \<Rightarrow> (addr \<times> uheap) option" where
  "calloc nmemb sz u =
     (if nmemb = 0 \<or> sz = 0 then Some (NULL, u)
      else if (- 1) div sz < nmemb then Some (NULL, u)
      else do {
        (ptr, u) \<leftarrow> malloc (nmemb * sz) u;
        if ptr = NULL then Some (NULL, u)
        else Some (ptr, u\<lparr>uh_bytes := (uh_bytes u)(ptr \<mapsto> replicate (unat (nmemb * sz)) 0)\<rparr>)
      })"

section \<open>Numbers\<close>

definition rand :: "u64 \<Rightarrow> int \<times> u64" where
  "rand nxt =
     (let nxt = nxt * 1103515245 + 12345
      in (uint ((ucast (nxt div 65536) :: u32) mod 32768), nxt))"

definition srand :: "u32 \<Rightarrow> u64" where
  "srand seed = ucast seed"

text \<open>An \<open>int\<close> that overflows is undefined.\<close>

definition INT_MAX :: int where "INT_MAX = 2 ^ 31 - 1"

fun atoi_digits :: "cstring \<Rightarrow> int \<Rightarrow> int option" where
  "atoi_digits [] result = None"
| "atoi_digits (c # str) result =
     (if 48 \<le> c \<and> c \<le> 57
      then let r = result * 10 + (uint c - 48) in if INT_MAX < r then None else atoi_digits str r
      else Some result)"

fun atoi_blanks :: "cstring \<Rightarrow> cstring" where
  "atoi_blanks [] = []"
| "atoi_blanks (c # str) = (if c = 32 \<or> c = 9 then atoi_blanks str else c # str)"

definition atoi :: "cstring \<Rightarrow> int option" where
  "atoi str =
     (case atoi_blanks str of
        [] \<Rightarrow> None
      | c # s \<Rightarrow>
          if c = 45 then do { r \<leftarrow> atoi_digits s 0; Some (- r) }
          else if c = 43 then atoi_digits s 0
          else atoi_digits (c # s) 0)"

section \<open>What the string functions compute\<close>

lemma u_strlen_spec: "0 \<in> set s \<Longrightarrow> u_strlen s = Some (int (length (cstr s)))"
proof -
  have "0 \<in> set s \<Longrightarrow> u_strlen_loop s i = Some (i + int (length (cstr s)))" for i
    by (induction s arbitrary: i) auto
  then show "0 \<in> set s \<Longrightarrow> ?thesis" by (simp add: u_strlen_def)
qed

lemma u_strcmp_is_strcmp: "u_strcmp a b = strcmp a b"
  by (induction a b rule: u_strcmp.induct) auto

lemma u_strcpy_spec:
  "0 \<in> set s \<Longrightarrow> length (cstr s) < length d \<Longrightarrow> u_strcpy d s = Some (cstr s @ 0 # drop (Suc (length (cstr s))) d)"
  by (induction d s rule: u_strcpy.induct) auto

lemma u_strncpy_spec:
  "0 \<in> set s \<Longrightarrow> length (cstr s) \<le> n \<Longrightarrow> n < length d \<Longrightarrow> u_strncpy d s n = Some (cstr s @ 0 # drop (Suc (length (cstr s))) d)"
  by (induction d s n rule: u_strncpy.induct) auto

text \<open>A token is cut off at the first space, or at the end of the string.\<close>

lemma strtok_loop_word:
  assumes "\<forall>c\<in>set w. c \<noteq> 0 \<and> c \<noteq> 32"
  shows "strtok_loop [32, 0] (pre @ w @ 32 # rest) (length pre) = Some (pre @ w @ 0 # rest, length pre + length w + 1)"
    and "strtok_loop [32, 0] (pre @ w @ 0 # rest) (length pre) = Some (pre @ w @ 0 # rest, length pre + length w)"
  using assms
proof (atomize (full), induction w arbitrary: pre)
  case Nil
  then show ?case by (simp add: strtok_loop.simps)
next
  case (Cons c w)
  have "strtok_loop [32, 0] (pre @ (c # w) @ x # rest) (length pre) =
      strtok_loop [32, 0] ((pre @ [c]) @ w @ x # rest) (length (pre @ [c]))" for x
    using Cons.prems by (subst strtok_loop.simps) (simp add: nth_append)
  then show ?case using Cons.IH [of "pre @ [c]"] Cons.prems by simp
qed

end
