(* ===== verification/UStdio.thy ===== *)
theory UStdio
  imports ULibc
begin

text \<open>
  Formatted input and output of user programs: \<open>Userland/libc/stdio.c\<close> and the colour
  sequences of \<open>Userland/libsys/ansiColors.c\<close>. What is written is the list of the system
  calls made, in order. A format string that is never left is the value \<open>None\<close>, like an
  access outside the format or a missing argument.
\<close>

section \<open>Numbers\<close>

text \<open>
  \<open>uintToBase\<close> divides at least once. The guard \<open>2 \<le> base\<close> is repeated in the loop so that the
  recursion ends for every argument; every caller passes 2, 8, 10 or 16.
\<close>

definition digit_symbol :: "u32 \<Rightarrow> u8" where
  "digit_symbol r = (if r < 10 then ucast r + 48 else ucast r + 65 - 10)"

function base_digits :: "u64 \<Rightarrow> u8 list \<Rightarrow> u32 \<Rightarrow> nat \<Rightarrow> (u8 list \<times> nat) option" where
  "base_digits value buffer base i =
     (if base < 2 then None
      else do {
        buffer \<leftarrow> put buffer i (digit_symbol (ucast (value mod ucast base)));
        if value div ucast base \<noteq> 0 then base_digits (value div ucast base) buffer base (i + 1)
        else Some (buffer, i + 1)
      })"
  by pat_completeness auto
termination by (relation "measure (\<lambda>(v, buf, b, i). unat v)") (auto intro!: div_base_less simp: not_less)

declare base_digits.simps [simp del]

text \<open>The digits are swapped in place, from both ends.\<close>

function swap_ends :: "u8 list \<Rightarrow> nat \<Rightarrow> nat \<Rightarrow> u8 list" where
  "swap_ends buffer p1 p2 =
     (if p1 < p2 then swap_ends (buffer[p1 := buffer ! p2, p2 := buffer ! p1]) (p1 + 1) (p2 - 1) else buffer)"
  by pat_completeness auto
termination by (relation "measure (\<lambda>(buffer, p1, p2). p2 - p1)") auto

declare swap_ends.simps [simp del]

definition uintToBase :: "u64 \<Rightarrow> u8 list \<Rightarrow> u32 \<Rightarrow> (nat \<times> u8 list) option" where
  "uintToBase value buffer base = do {
     (buffer, p) \<leftarrow> base_digits value buffer base 0;
     buffer \<leftarrow> put buffer p 0;
     Some (p, swap_ends buffer 0 (p - 1))
   }"

section \<open>Colours\<close>

datatype out_call =
    Out_write int "u8 list"
  | Out_text_color u32
  | Out_background_color u32

definition setANSIProp :: "u8 \<Rightarrow> out_call list" where
  "setANSIProp prop =
     (let background = (40 \<le> prop \<and> prop \<le> 47) \<or> (100 \<le> prop \<and> prop \<le> 107);
          prop = (if background then prop - 10 else prop);
          set_fn = (if background then Out_background_color else Out_text_color)
      in if prop = 0 then [Out_text_color 0xFFFFFF, Out_background_color 0]
         else if prop = 30 then [set_fn 0]
         else if prop = 31 then [set_fn 0xDE382B]
         else if prop = 32 then [set_fn 0x39B54A]
         else if prop = 33 then [set_fn 0xFFC706]
         else if prop = 34 then [set_fn 0x006FB8]
         else if prop = 35 then [set_fn 0x762671]
         else if prop = 36 then [set_fn 0x2CB5E9]
         else if prop = 37 then [set_fn 0xCCCCCC]
         else if prop = 90 then [set_fn 0x808080, set_fn 0xFF0000]
         else if prop = 91 then [set_fn 0xFF0000]
         else if prop = 92 then [set_fn 0x00FF00]
         else if prop = 93 then [set_fn 0xFFFF00]
         else if prop = 94 then [set_fn 0x0000FF]
         else if prop = 95 then [set_fn 0xFF00FF]
         else if prop = 96 then [set_fn 0x00FFFF]
         else if prop = 97 then [set_fn 0xFFFFFF]
         else [])"

definition char_at :: "cstring \<Rightarrow> nat \<Rightarrow> u8 option" where
  "char_at s i = (if i < length s then Some (s ! i) else None)"

text \<open>The parameters of a sequence, to the letter that ends it; a byte is a number of 8 bits.\<close>

function ansi_loop :: "cstring \<Rightarrow> nat \<Rightarrow> u8 \<Rightarrow> (out_call list \<times> nat) option" where
  "ansi_loop str i prop =
     (if length str \<le> i then None
      else
        let c = str ! i;
            out = (if c = 59 \<or> c = 109 then setANSIProp prop else []);
            prop = (if c = 59 \<or> c = 109 then 0 else prop * 10 + (c - 48))
        in if c \<noteq> 109 then do { (out', i) \<leftarrow> ansi_loop str (i + 1) prop; Some (out @ out', i) }
           else Some (out, i + 1))"
  by pat_completeness auto
termination by (relation "measure (\<lambda>(str, i, prop). length str - i)") auto

declare ansi_loop.simps [simp del]

definition parseANSI :: "cstring \<Rightarrow> nat \<Rightarrow> (out_call list \<times> nat) option" where
  "parseANSI str i = do {
     c1 \<leftarrow> char_at str (i + 1);
     if c1 \<noteq> 91 then Some ([], i)
     else do {
       c2 \<leftarrow> char_at str (i + 2);
       if c2 = 0 then Some ([], i) else ansi_loop str (i + 2) 0
     }
   }"

section \<open>Printing\<close>

datatype uarg = Arg_int int | Arg_str cstring

definition va_int :: "uarg list \<Rightarrow> (int \<times> uarg list) option" where
  "va_int args = (case args of Arg_int n # rest \<Rightarrow> Some (n, rest) | _ \<Rightarrow> None)"

definition va_str :: "uarg list \<Rightarrow> (cstring \<times> uarg list) option" where
  "va_str args = (case args of Arg_str s # rest \<Rightarrow> Some (s, rest) | _ \<Rightarrow> None)"

definition conversion_base :: "u8 \<Rightarrow> u32 option" where
  "conversion_base c =
     (if c = 120 then Some 16 else if c = 100 then Some 10 else if c = 111 then Some 8 else if c = 98 then Some 2 else None)"

text \<open>
  \<open>vfprintf\<close> from index \<open>i\<close> of the format, with the arguments left and the static \<open>buffer\<close>. The
  text of a number and the string of a \<open>%s\<close> are themselves printed as formats without
  arguments. An escape that parseANSI does not take leaves the index where it is.
\<close>

partial_function (option) vfprintf :: "int \<Rightarrow> cstring \<Rightarrow> nat \<Rightarrow> uarg list \<Rightarrow> u8 list \<Rightarrow> (out_call list \<times> u8 list) option" where
  "vfprintf fd fmt i args buffer = do {
     c \<leftarrow> char_at fmt i;
     if c = 0 then Some ([], buffer)
     else if c = 27 then do {
       (out, i) \<leftarrow> parseANSI fmt i;
       (out', buffer) \<leftarrow> vfprintf fd fmt i args buffer;
       Some (Out_write fd [] # out @ out', buffer)
     }
     else if c = 37 then do {
       d \<leftarrow> char_at fmt (i + 1);
       if conversion_base d \<noteq> None then do {
         base \<leftarrow> conversion_base d;
         (num, args) \<leftarrow> va_int args;
         (_, buffer) \<leftarrow> uintToBase (of_int num) buffer base;
         (out, buffer) \<leftarrow> vfprintf fd buffer 0 [] buffer;
         (out', buffer) \<leftarrow> vfprintf fd fmt (i + 2) args buffer;
         Some ((if num < 0 then [Out_write fd [45]] else []) @ out @ out', buffer)
       }
       else if d = 99 then do {
         (ch, args) \<leftarrow> va_int args;
         (out', buffer) \<leftarrow> vfprintf fd fmt (i + 2) args buffer;
         Some (Out_write fd [of_int ch] # out', buffer)
       }
       else if d = 115 then do {
         (str, args) \<leftarrow> va_str args;
         (out, buffer) \<leftarrow> vfprintf fd str 0 [] buffer;
         (out', buffer) \<leftarrow> vfprintf fd fmt (i + 2) args buffer;
         Some (out @ out', buffer)
       }
       else if d = 37 then do {
         (out', buffer) \<leftarrow> vfprintf fd fmt (i + 2) args buffer;
         Some (Out_write fd [37] # out', buffer)
       }
       else vfprintf fd fmt (i + 2) args buffer
     }
     else do {
       (out', buffer) \<leftarrow> vfprintf fd fmt (i + 1) args buffer;
       Some (Out_write fd [c] # out', buffer)
     }
   }"

definition printBase :: "int \<Rightarrow> int \<Rightarrow> u32 \<Rightarrow> u8 list \<Rightarrow> (out_call list \<times> u8 list) option" where
  "printBase fd num base buffer = do {
     (_, buffer) \<leftarrow> uintToBase (of_int num) buffer base;
     (out, buffer) \<leftarrow> vfprintf fd buffer 0 [] buffer;
     Some ((if num < 0 then [Out_write fd [45]] else []) @ out, buffer)
   }"

definition printf :: "cstring \<Rightarrow> uarg list \<Rightarrow> u8 list \<Rightarrow> (out_call list \<times> u8 list) option" where
  "printf fmt args buffer = vfprintf 1 fmt 0 args buffer"

definition puts :: "cstring \<Rightarrow> u8 list \<Rightarrow> (out_call list \<times> u8 list) option" where
  "puts str buffer = do {
     (out, buffer) \<leftarrow> printf str [] buffer;
     (out', buffer) \<leftarrow> printf [10, 0] [] buffer;
     Some (out @ out', buffer)
   }"

definition perror :: "cstring \<Rightarrow> u8 list \<Rightarrow> (out_call list \<times> u8 list) option" where
  "perror s1 buffer = vfprintf 2 s1 0 [] buffer"

section \<open>Scanning\<close>

text \<open>
  What \<open>vsscanf\<close> stores: a number, a character, or the bytes of a string, \<open>None\<close> where it
  leaves a byte of the destination as it was.
\<close>

datatype scanned = Scan_int int | Scan_char u8 | Scan_str "u8 option list"

text \<open>Numbers are \<open>int\<close>s; one that overflows is undefined. The result says whether there was a digit.\<close>

function scan_digits :: "cstring \<Rightarrow> nat \<Rightarrow> int \<Rightarrow> bool \<Rightarrow> (int \<times> bool \<times> nat) option" where
  "scan_digits buf i num read_num =
     (if length buf \<le> i then None
      else if 48 \<le> buf ! i \<and> buf ! i \<le> 57 then
        let n = num * 10 + uint (buf ! i) - 48
        in if INT_MAX < num * 10 + uint (buf ! i) then None else scan_digits buf (i + 1) n True
      else Some (num, read_num, i))"
  by pat_completeness auto
termination by (relation "measure (\<lambda>(buf, i, num, r). length buf - i)") auto

declare scan_digits.simps [simp del]

text \<open>Both \<open>*(str++)\<close> and the line after it advance the destination.\<close>

function scan_word :: "cstring \<Rightarrow> nat \<Rightarrow> (u8 option list \<times> nat) option" where
  "scan_word buf i =
     (if length buf \<le> i then None
      else if buf ! i \<noteq> 32 \<and> buf ! i \<noteq> 10 \<and> buf ! i \<noteq> 0
      then do { (rest, j) \<leftarrow> scan_word buf (i + 1); Some (Some (buf ! i) # None # rest, j) }
      else Some ([Some 0], i))"
  by pat_completeness auto
termination by (relation "measure (\<lambda>(buf, i). length buf - i)") auto

declare scan_word.simps [simp del]

definition scan_number :: "cstring \<Rightarrow> nat \<Rightarrow> (scanned list \<times> nat \<times> nat) option" where
  "scan_number buf i = do {
     c \<leftarrow> char_at buf i;
     if c \<noteq> 45 \<and> (c < 48 \<or> 57 < c) then Some ([], 0, i)
     else do {
       (num, read_num, j) \<leftarrow> scan_digits buf (if c = 45 then i + 1 else i) 0 False;
       Some ([Scan_int (if c = 45 then - num else num)], if read_num then 1 else 0, j)
     }
   }"

text \<open>The conversions of a format: what is stored, and how many count as read.\<close>

fun vsscanf :: "cstring \<Rightarrow> cstring \<Rightarrow> nat \<Rightarrow> (scanned list \<times> nat) option" where
  "vsscanf buf [] i = None"
| "vsscanf buf (f # fmt) i =
     (if f = 0 then Some ([], 0)
      else if f = 37 then
        (case fmt of
           [] \<Rightarrow> None
         | d # fmt' \<Rightarrow>
             if d = 100 then do {
               (vs, n, j) \<leftarrow> scan_number buf i;
               (ws, m) \<leftarrow> vsscanf buf fmt' j;
               Some (vs @ ws, n + m)
             }
             else if d = 99 then do {
               c \<leftarrow> char_at buf i;
               (ws, m) \<leftarrow> vsscanf buf fmt' (i + 1);
               Some (Scan_char c # ws, 1 + m)
             }
             else if d = 115 then do {
               (w, j) \<leftarrow> scan_word buf i;
               (ws, m) \<leftarrow> vsscanf buf fmt' j;
               Some (Scan_str w # ws, 1 + m)
             }
             else vsscanf buf fmt' i)
      else vsscanf buf fmt i)"

definition sscanf :: "cstring \<Rightarrow> cstring \<Rightarrow> (scanned list \<times> nat) option" where
  "sscanf str fmt = vsscanf str fmt 0"

section \<open>Printing numbers\<close>

lemma digit_symbol_is: "unat r < 16 \<Longrightarrow> digit_symbol r = symbols ! unat r"
proof -
  assume r: "unat r < 16"
  have "unat r \<in> set [0..<16]" using r by simp
  also have "[0..<16] = [0, 1, 2, 3, 4, 5, 6, 7, 8, 9, 10, 11, 12, 13, 14, 15]" by (simp add: upt_rec)
  finally have "\<exists>d\<in>set [0, 1, 2, 3, 4, 5, 6, 7, 8, 9, 10, 11, 12, 13, 14, 15]. r = of_nat d"
    by (intro bexI [of _ "unat r"]) simp_all
  then show ?thesis by (auto simp: digit_symbol_def symbols_def word_less_nat_alt)
qed

text \<open>Away from 0 the loops are those of the kernel's \<open>uint_to_base\<close>.\<close>

lemma base_digits_eq:
  fixes base :: u32
  assumes "2 \<le> base" and "base \<le> 16"
  shows "v \<noteq> 0 \<Longrightarrow> base_digits v buffer base i = uint_digits v buffer base i"
proof (induction "unat v" arbitrary: v buffer i rule: less_induct)
  case less
  have b: "unat (ucast base :: u64) = unat base" "unat base \<le> 16" "0 < unat base"
    using assms by (simp_all add: unsigned_ucast_eq take_bit_nat_eq_self_iff order.strict_trans2 [OF unsigned_less] word_le_nat_alt)
  have m: "unat (v mod ucast base) < unat base" using b by (simp add: unat_mod)
  then have "unat (ucast (v mod ucast base) :: u32) = unat (v mod ucast base)"
    using b(2) by (simp add: unsigned_ucast_eq take_bit_nat_eq_self_iff)
  then have d: "digit_symbol (ucast (v mod ucast base)) = symbols ! unat (v mod ucast base)"
    using digit_symbol_is [of "ucast (v mod ucast base)"] m b(2) by simp
  have lt: "unat (v div ucast base) < unat v" by (rule div_base_less [OF less.prems assms(1)])
  have stop: "uint_digits 0 buf base j = Some (buf, j)" for buf j by (simp add: uint_digits.simps)
  show ?case
    using less.hyps [OF lt] less.prems assms stop d
    by (subst base_digits.simps, subst uint_digits.simps)
      (cases "put buffer i (symbols ! unat (v mod ucast base))"; auto simp: not_less)
qed

lemma swap_ends_eq:
  assumes "i \<le> length buffer" and "j < i"
  shows "reverse_digits buffer j i = Some (swap_ends buffer j (i - j - 1))"
  using assms
proof (induction "i - j" arbitrary: j buffer rule: less_induct)
  case less
  show ?case
  proof (cases "j < i div 2")
    case True
    then have j: "j < i - j - 1" "j < length buffer" "i - j - 1 < length buffer" "Suc j < i" "i - Suc j < i - j" "i - Suc j - 1 = i - j - 1 - 1"
      using less.prems by linarith+
    have "reverse_digits buffer j i = reverse_digits (buffer[j := buffer ! (i - j - 1), i - j - 1 := buffer ! j]) (Suc j) i"
      using True j by (subst reverse_digits.simps) simp
    also have "\<dots> = Some (swap_ends (buffer[j := buffer ! (i - j - 1), i - j - 1 := buffer ! j]) (Suc j) (i - Suc j - 1))"
      by (rule less.hyps [OF j(5) _ j(4)]) (use less.prems in simp)
    also have "\<dots> = Some (swap_ends buffer j (i - j - 1))"
      using j by (subst (2) swap_ends.simps) simp
    finally show ?thesis .
  next
    case False
    then have "\<not> j < i - j - 1" by linarith
    then show ?thesis using False by (subst reverse_digits.simps, subst swap_ends.simps) simp
  qed
qed

lemma digits_pos: "0 < f \<Longrightarrow> v \<noteq> 0 \<Longrightarrow> 0 < length (digits b f v)"
  by (cases f) auto

text \<open>The text of a number: its digits, the most significant one first.\<close>

definition number_text :: "nat \<Rightarrow> nat \<Rightarrow> u8 list" where
  "number_text b v = (if v = 0 then [48] else rev (map (\<lambda>d. symbols ! d) (digits b 64 v)))"

lemma uintToBase_decimal:
  assumes "length buffer = 64"
  shows "uintToBase v buffer 10 = Some (length (number_text 10 (unat v)),
    number_text 10 (unat v) @ 0 # drop (Suc (length (number_text 10 (unat v)))) buffer)"
proof (cases "v = 0")
  case True
  obtain c rest1 where c: "buffer = c # rest1" "length rest1 = 63" using assms by (cases buffer) auto
  then obtain d rest where "buffer = c # d # rest" by (cases rest1) auto
  then show ?thesis
    using True by (simp add: uintToBase_def base_digits.simps put_def digit_symbol_def number_text_def swap_ends.simps)
next
  case False
  let ?ds = "digits 10 64 (unat v)" and ?sy = "\<lambda>d. symbols ! d"
  have lt: "unat v < 2 ^ 64" using unsigned_less [of v] by simp
  have "unat v < 10 ^ 20" using lt by simp
  then have len: "length ?ds \<le> 20" by (rule digits_length_pow)
  have pos: "0 < length ?ds" by (rule digits_pos) (use False in \<open>simp_all add: unat_eq_zero\<close>)
  let ?b1 = "map ?sy ?ds @ drop (length ?ds) buffer"
  let ?b2 = "map ?sy ?ds @ 0 # drop (Suc (length ?ds)) buffer"
  have "base_digits v buffer 10 0 = Some (?b1, length ?ds)"
    using base_digits_eq [of 10 v buffer 0] uint_digits_spec [OF lt, of 10 0 buffer] len assms False by simp
  moreover have "put ?b1 (length ?ds) 0 = Some ?b2"
    using len assms by (simp add: put_def list_update_append Cons_nth_drop_Suc [symmetric])
  moreover have "Some (swap_ends ?b2 0 (length ?ds - 1)) = Some (rev (map ?sy ?ds) @ 0 # drop (Suc (length ?ds)) buffer)"
    using swap_ends_eq [of "length ?ds" ?b2 0] reverse_digits_rev [of "length ?ds" ?b2] pos by simp
  ultimately show ?thesis using False by (simp add: uintToBase_def number_text_def unat_eq_zero)
qed

lemma number_text_value: "v < 2 ^ 64 \<Longrightarrow> parse_digits 10 (number_text 10 v) = v"
proof (cases "v = 0")
  case True
  then show ?thesis by (simp add: number_text_def parse_digits_def digit_of_def)
next
  case False
  assume v: "v < 2 ^ 64"
  have "\<forall>d\<in>set (digits 10 64 v). d < 16" using digits_less [of 10 _ 64 v] by fastforce
  then show ?thesis using digits_value [OF v, of 10] False by (simp add: number_text_def parse_rev)
qed

lemma number_text_digits: "c \<in> set (number_text 10 v) \<Longrightarrow> 48 \<le> c \<and> c \<le> 57"
proof -
  assume c: "c \<in> set (number_text 10 v)"
  have sy: "48 \<le> symbols ! d \<and> symbols ! d \<le> 57" if "d < 10" for d
  proof -
    have "d \<in> set [0..<10]" using that by simp
    also have "[0..<10] = [0, 1, 2, 3, 4, 5, 6, 7, 8, 9]" by (simp add: upt_rec)
    finally show ?thesis by (auto simp: symbols_def word_le_nat_alt)
  qed
  show ?thesis
  proof (cases "v = 0")
    case True
    then show ?thesis using c by (simp add: number_text_def word_le_nat_alt)
  next
    case False
    then obtain d where "d \<in> set (digits 10 64 v)" "c = symbols ! d" using c by (auto simp: number_text_def)
    then show ?thesis using digits_less [of 10 d 64 v] sy by simp
  qed
qed

text \<open>Plain text is written one byte at a time.\<close>

lemma vfprintf_plain:
  assumes "\<forall>c\<in>set w. c \<noteq> 0 \<and> c \<noteq> 27 \<and> c \<noteq> 37"
  shows "vfprintf fd (pre @ w @ 0 # rest) (length pre) args buffer = Some (map (\<lambda>c. Out_write fd [c]) w, buffer)"
  using assms
proof (induction w arbitrary: pre)
  case Nil
  then show ?case by (subst vfprintf.simps) (simp add: char_at_def)
next
  case (Cons c w)
  have "char_at (pre @ (c # w) @ 0 # rest) (length pre) = Some c" by (simp add: char_at_def)
  moreover have "vfprintf fd (pre @ (c # w) @ 0 # rest) (length pre + 1) args buffer = Some (map (\<lambda>c. Out_write fd [c]) w, buffer)"
    using Cons.IH [of "pre @ [c]"] Cons.prems by simp
  ultimately show ?case using Cons.prems by (subst vfprintf.simps) simp
qed

text \<open>The bytes of a sequence of output calls.\<close>

definition written :: "out_call list \<Rightarrow> u8 list" where
  "written out = concat (map (\<lambda>call. case call of Out_write _ bs \<Rightarrow> bs | _ \<Rightarrow> []) out)"

lemma written_simps [simp]:
  "written [] = []" "written (Out_write fd bs # out) = bs @ written out" "written (out @ out') = written out @ written out'"
  "written (map (\<lambda>c. Out_write fd [c]) w) = w"
  by (simp_all add: written_def comp_def)

lemma printBase_decimal:
  assumes "length buffer = 64"
  obtains buffer' where "printBase fd num 10 buffer = Some
      ((if num < 0 then [Out_write fd [45]] else []) @ map (\<lambda>c. Out_write fd [c]) (number_text 10 (unat (of_int num :: u64))), buffer')"
    "length buffer' = 64"
proof -
  let ?w = "number_text 10 (unat (of_int num :: u64))"
  let ?b = "?w @ 0 # drop (Suc (length ?w)) buffer"
  have u: "uintToBase (of_int num) buffer 10 = Some (length ?w, ?b)" by (rule uintToBase_decimal [OF assms])
  have "\<forall>c\<in>set ?w. c \<noteq> 0 \<and> c \<noteq> 27 \<and> c \<noteq> 37" using number_text_digits by (fastforce simp: word_le_nat_alt)
  from vfprintf_plain [OF this, of fd "[]" _ "[]"] have "vfprintf fd ?b 0 [] ?b = Some (map (\<lambda>c. Out_write fd [c]) ?w, ?b)" by simp
  moreover have "length ?b = 64"
  proof -
    have "length ?w \<le> 20"
    proof (cases "unat (of_int num :: u64) = 0")
      case False
      have "unat (of_int num :: u64) < 2 ^ 64" using unsigned_less [of "of_int num :: u64"] by simp
      then have "unat (of_int num :: u64) < 10 ^ 20" by simp
      then have "length (digits 10 64 (unat (of_int num :: u64))) \<le> 20" by (rule digits_length_pow)
      then show ?thesis using False by (simp add: number_text_def)
    qed (simp add: number_text_def)
    then show ?thesis using assms by simp
  qed
  ultimately show ?thesis using that u by (simp add: printBase_def)
qed

lemma printf_d:
  assumes "printBase 1 num 10 buffer = Some (out, buffer')"
  shows "printf [37, 100, 0] [Arg_int num] buffer = Some (out, buffer')"
proof -
  have stop: "vfprintf 1 [37, 100, 0] 2 [] b = Some ([], b)" for b by (subst vfprintf.simps) (simp add: char_at_def)
  have cb: "conversion_base 100 = Some 10" by (simp add: conversion_base_def)
  show ?thesis
    using assms unfolding printf_def
    by (subst vfprintf.simps) (auto simp: printBase_def char_at_def cb va_int_def stop numeral_2_eq_2 [symmetric])
qed

lemma foldl_digits_ge: "k \<le> foldl (\<lambda>acc c. acc * 10 + digit_of c) k w"
proof (induction w arbitrary: k)
  case (Cons c w)
  have "k \<le> k * 10 + digit_of c" by simp
  also have "\<dots> \<le> foldl (\<lambda>acc c. acc * 10 + digit_of c) (k * 10 + digit_of c) w" by (rule Cons.IH)
  finally show ?case by simp
qed simp

lemma atoi_digits_spec:
  assumes "\<forall>c\<in>set w. 48 \<le> c \<and> c \<le> 57" and "int (foldl (\<lambda>acc c. acc * 10 + digit_of c) n w) \<le> INT_MAX"
  shows "atoi_digits (w @ [0]) (int n) = Some (int (foldl (\<lambda>acc c. acc * 10 + digit_of c) n w))"
  using assms
proof (induction w arbitrary: n)
  case (Cons c w)
  have d: "int (n * 10 + digit_of c) = int n * 10 + (uint c - 48)"
    using Cons.prems(1) by (auto simp: digit_of_def word_le_nat_alt)
  have "int (n * 10 + digit_of c) \<le> INT_MAX" using foldl_digits_ge [of "n * 10 + digit_of c" w] Cons.prems(2) by simp
  then show ?case using Cons.IH [of "n * 10 + digit_of c"] Cons.prems d by (simp add: Let_def)
qed simp

section \<open>Properties\<close>

text \<open>
  C30. Numbers printed by \<open>printf("%d")\<close> are read back by \<open>atoi\<close>: for every \<open>int\<close> that is not
  negative the call returns, writes only inside its static buffer, and \<open>atoi\<close> of what was
  written is the number. For a negative one it writes a minus sign and then the digits of
  the number's 64 bit two's complement, not those of its absolute value.
\<close>

theorem printf_atoi:
  assumes "length buffer = 64" and "- (2 ^ 31) \<le> n" and "n \<le> INT_MAX"
  shows "\<exists>out buffer'. printf [37, 100, 0] [Arg_int n] buffer = Some (out, buffer') \<and> length buffer' = 64 \<and>
    (if 0 \<le> n then atoi (written out @ [0]) = Some n
     else \<exists>ds. written out = 45 # ds \<and> int (parse_digits 10 ds) = 2 ^ 64 + n)"
proof -
  let ?w = "number_text 10 (unat (of_int n :: u64))"
  obtain buffer' where p: "printBase 1 n 10 buffer = Some
      ((if n < 0 then [Out_write 1 [45]] else []) @ map (\<lambda>c. Out_write 1 [c]) ?w, buffer')" "length buffer' = 64"
    by (rule printBase_decimal [OF assms(1)])
  have v: "parse_digits 10 ?w = unat (of_int n :: u64)"
    by (rule number_text_value) (use unsigned_less [of "of_int n :: u64"] in simp)
  have num: "int (unat (of_int n :: u64)) = n mod 2 ^ 64" by (simp add: uint_word_of_int flip: uint_nat)
  show ?thesis
  proof (cases "0 \<le> n")
    case True
    then have n: "int (parse_digits 10 ?w) = n" using v num assms(3) by (simp add: INT_MAX_def)
    have ds: "\<forall>c\<in>set ?w. 48 \<le> c \<and> c \<le> 57" using number_text_digits by blast
    have "?w \<noteq> []" using digits_pos [of 64 "unat (of_int n :: u64)" 10] by (auto simp: number_text_def)
    then obtain c w where cw: "?w = c # w" by (cases ?w) auto
    have c: "c \<noteq> 32 \<and> c \<noteq> 9 \<and> c \<noteq> 45 \<and> c \<noteq> 43" using ds cw by (auto simp: word_le_nat_alt)
    have "atoi (?w @ [0]) = atoi_digits (?w @ [0]) (int 0)" using c cw by (simp add: atoi_def)
    also have "\<dots> = Some n"
      using atoi_digits_spec [OF ds, of 0] n assms(3) by (simp add: parse_digits_def)
    finally show ?thesis using printf_d [OF p(1)] p(2) True by auto
  next
    case False
    have "n mod 2 ^ 64 = (2 ^ 64 + n) mod 2 ^ 64" by simp
    also have "\<dots> = 2 ^ 64 + n" using False assms(2) by (intro mod_pos_pos_trivial) auto
    finally have "n mod 2 ^ 64 = 2 ^ 64 + n" .
    then show ?thesis using printf_d [OF p(1)] p(2) False v num by auto
  qed
qed

theorem printf_atoi_witness:
  "\<exists>out buffer'. printf [37, 100, 0] [Arg_int 2047] (replicate 64 0) = Some (out, buffer') \<and> atoi (written out @ [0]) = Some 2047"
  using printf_atoi [of "replicate 64 0" 2047] by (auto simp: INT_MAX_def)

end
