(* ===== verification/Shell.thy ===== *)
theory Shell
  imports UStdio
begin

text \<open>
  The shell (\<open>Userland/Shell/shell.c\<close>): its line editor, the history of commands, the parser
  and the execution of parsed commands. The static variables are the record \<open>shell\<close>. The
  answers of the system calls that create and wait for processes and set up pipes are a
  parameter: a function of the call and of the memory it finds. Text output is the list of
  the library calls made.
\<close>

section \<open>Constants and data\<close>

definition MAX_BUFFER_SIZE :: nat where "MAX_BUFFER_SIZE = 1024"
definition HISTORY_SIZE :: nat where "HISTORY_SIZE = 10"
definition MAX_ARGUMENT_COUNT :: nat where "MAX_ARGUMENT_COUNT = 64"
definition MAX_ARGUMENT_SIZE :: nat where "MAX_ARGUMENT_SIZE = 256"
definition CTRL_C :: u8 where "CTRL_C = 3"
definition CTRL_D :: u8 where "CTRL_D = 4"

definition SUB_MOD :: "int \<Rightarrow> int \<Rightarrow> int \<Rightarrow> int" where
  "SUB_MOD a b m = (if a - b < 0 then m - b + a else a - b)"

definition bytes_of :: "string \<Rightarrow> u8 list" where
  "bytes_of s = map (\<lambda>c. of_nat (of_char c)) s"

datatype cmd_fn =
    Cmd_block | Cmd_cat | Cmd_clear | Cmd_divzero | Cmd_exit | Cmd_filter | Cmd_font | Cmd_help | Cmd_history
  | Cmd_invop | Cmd_kill | Cmd_loop | Cmd_man | Cmd_mem | Cmd_mvar | Cmd_nice | Cmd_ps | Cmd_regs | Cmd_time
  | Cmd_testmm | Cmd_testprocesses | Cmd_testpriority | Cmd_testsync | Cmd_tnosync | Cmd_wc

text \<open>The command table, without the descriptions; its last entry, the null name, is the end of the list.\<close>

record Command =
  cmd_name :: string
  cmd_func :: cmd_fn
  cmd_isBuiltIn :: bool

definition commands :: "Command list" where
  "commands = map (\<lambda>(n, f, b). \<lparr>cmd_name = n, cmd_func = f, cmd_isBuiltIn = b\<rparr>)
     [(''block'', Cmd_block, False), (''cat'', Cmd_cat, False), (''clear'', Cmd_clear, False),
      (''divzero'', Cmd_divzero, False), (''exit'', Cmd_exit, True), (''filter'', Cmd_filter, False),
      (''font'', Cmd_font, False), (''help'', Cmd_help, False), (''history'', Cmd_history, True),
      (''invop'', Cmd_invop, False), (''kill'', Cmd_kill, False), (''loop'', Cmd_loop, False),
      (''man'', Cmd_man, False), (''mem'', Cmd_mem, False), (''mvar'', Cmd_mvar, False),
      (''nice'', Cmd_nice, False), (''ps'', Cmd_ps, False), (''regs'', Cmd_regs, False),
      (''time'', Cmd_time, False), (''tmm'', Cmd_testmm, False), (''tproc'', Cmd_testprocesses, False),
      (''tprio'', Cmd_testpriority, False), (''tsync'', Cmd_testsync, False), (''tnosync'', Cmd_tnosync, False),
      (''wc'', Cmd_wc, False)]"

record ParsedCommand =
  pc_name :: addr
  pc_function :: "cmd_fn option"
  pc_argc :: nat
  pc_argv :: "addr list"
  pc_isBuiltIn :: bool

definition zero_command :: ParsedCommand where
  "zero_command = \<lparr>pc_name = NULL, pc_function = None, pc_argc = 0, pc_argv = replicate MAX_ARGUMENT_COUNT NULL, pc_isBuiltIn = False\<rparr>"

text \<open>
  Calls that write to the terminal; the messages are the \<open>printf\<close> calls of the shell, named by
  what they say.
\<close>

datatype message =
    M_prompt
  | M_line cstring
  | M_history_line nat cstring
  | M_end_of_input
  | M_too_many_pipes
  | M_not_found cstring
  | M_no_process
  | M_background int
  | M_no_builtin_in_pipe
  | M_no_pipe
  | M_no_targets

datatype term_call = T_printf message | T_putchar u8 | T_clearScreen | T_clearScreenCharacter

record shell =
  buffer :: "u8 list"
  buffer_dim :: nat
  last_command_arrowed :: nat
  prompt_dirty :: bool
  shell_fd_targets :: "u8 list"
  command_history :: "u8 list list"
  command_history_buffer :: "u8 list"
  command_history_last :: nat
  last_command_output :: u64
  sh_token :: "nat option"
  sh_heap :: uheap
  sh_out :: "term_call list"

definition say :: "term_call list \<Rightarrow> shell \<Rightarrow> shell" where
  "say ts sh = sh\<lparr>sh_out := sh_out sh @ ts\<rparr>"

section \<open>Line editor\<close>

definition printPrompt :: "shell \<Rightarrow> shell" where
  "printPrompt sh = (say [T_printf M_prompt] sh)\<lparr>prompt_dirty := False\<rparr>"

definition deleteCharacter :: "shell \<Rightarrow> shell option" where
  "deleteCharacter sh =
     (if buffer_dim sh = 0 then Some sh
      else do {
        let i = buffer_dim sh - 1;
        b \<leftarrow> put (buffer sh) i 0;
        h \<leftarrow> put (command_history_buffer sh) i 0;
        Some (say [T_clearScreenCharacter] (sh\<lparr>buffer_dim := i, buffer := b, command_history_buffer := h\<rparr>))
      })"

lemma deleteCharacter_dim:
  "deleteCharacter sh = Some sh' \<Longrightarrow> 0 < buffer_dim sh \<Longrightarrow> buffer_dim sh' < buffer_dim sh"
  by (auto simp: deleteCharacter_def say_def Let_def split: if_splits)

function emptyScreenBuffer :: "shell \<Rightarrow> shell option" where
  "emptyScreenBuffer sh =
     (if 0 < buffer_dim sh then
        (case deleteCharacter sh of None \<Rightarrow> None | Some sh' \<Rightarrow> emptyScreenBuffer sh')
      else Some sh)"
  by pat_completeness auto
termination by (relation "measure buffer_dim") (auto dest: deleteCharacter_dim)

declare emptyScreenBuffer.simps [simp del]

text \<open>Both arrows show the line of the history they arrive at, if there is one.\<close>

definition show_line :: "shell \<Rightarrow> shell option" where
  "show_line sh =
     (if length (command_history sh) \<le> last_command_arrowed sh then None
      else do {
        let line = command_history sh ! last_command_arrowed sh;
        c \<leftarrow> char_at line 0;
        if c = 0 then Some sh
        else do {
          sh \<leftarrow> emptyScreenBuffer sh;
          b \<leftarrow> u_strcpy (buffer sh) line;
          h \<leftarrow> u_strcpy (command_history_buffer sh) line;
          n \<leftarrow> u_strlen line;
          Some (say [T_printf (M_line line)] (sh\<lparr>buffer := b, command_history_buffer := h, buffer_dim := nat n\<rparr>))
        }
      })"

definition printPreviousCommand :: "shell \<Rightarrow> shell option" where
  "printPreviousCommand sh =
     show_line (sh\<lparr>last_command_arrowed := nat (SUB_MOD (int (last_command_arrowed sh)) 1 (int HISTORY_SIZE))\<rparr>)"

definition printNextCommand :: "shell \<Rightarrow> shell option" where
  "printNextCommand sh = show_line (sh\<lparr>last_command_arrowed := (last_command_arrowed sh + 1) mod HISTORY_SIZE\<rparr>)"

definition appendCharacter :: "u8 \<Rightarrow> shell \<Rightarrow> shell option" where
  "appendCharacter c sh =
     (if c = 8 \<or> c = 127 then deleteCharacter sh
      else do {
        sh \<leftarrow> Some (if buffer_dim sh = 0 \<and> prompt_dirty sh then printPrompt (say [T_putchar 10] sh) else sh);
        if MAX_BUFFER_SIZE - 1 \<le> buffer_dim sh then Some sh
        else do {
          b \<leftarrow> put (buffer sh) (buffer_dim sh) c;
          h \<leftarrow> put (command_history_buffer sh) (buffer_dim sh) c;
          Some (say [T_putchar c] (sh\<lparr>buffer := b, command_history_buffer := h, buffer_dim := buffer_dim sh + 1\<rparr>))
        }
      })"

section \<open>Parsing\<close>

function skip_blanks :: "u8 list \<Rightarrow> nat \<Rightarrow> nat option" where
  "skip_blanks buf s =
     (if length buf \<le> s then None
      else if buf ! s \<noteq> 0 \<and> u_isspace (buf ! s) then skip_blanks buf (s + 1) else Some s)"
  by pat_completeness auto
termination by (relation "measure (\<lambda>(buf, s). length buf - s)") auto

declare skip_blanks.simps [simp del]

fun trim_end :: "u8 list \<Rightarrow> nat \<Rightarrow> nat \<Rightarrow> nat" where
  "trim_end buf s 0 = 0"
| "trim_end buf s (Suc e) = (if s < Suc e then if \<not> u_isspace (buf ! e) then Suc e else trim_end buf s e else Suc e)"

text \<open>Yields the new start and the array with the terminator behind the last character.\<close>

definition trimWhitespace :: "u8 list \<Rightarrow> nat \<Rightarrow> (nat \<times> u8 list) option" where
  "trimWhitespace buf str = do {
     s \<leftarrow> skip_blanks buf str;
     n \<leftarrow> u_strlen (drop s buf);
     b \<leftarrow> put buf (trim_end buf s (s + nat n)) 0;
     Some (s, b)
   }"

text \<open>A string in memory of the shell.\<close>

definition string_at :: "addr \<Rightarrow> uheap \<Rightarrow> cstring option" where
  "string_at p u = uh_bytes u p"

fun cleanup_args :: "nat list \<Rightarrow> ParsedCommand \<Rightarrow> uheap \<Rightarrow> (ParsedCommand \<times> uheap) option" where
  "cleanup_args [] c u = Some (c, u)"
| "cleanup_args (i # is) c u =
     (if length (pc_argv c) \<le> i then None
      else if pc_argv c ! i \<noteq> NULL then do {
        u \<leftarrow> free (pc_argv c ! i) u;
        cleanup_args is (c\<lparr>pc_argv := (pc_argv c)[i := NULL]\<rparr>) u
      }
      else cleanup_args is c u)"

definition cleanupParsedCommand :: "ParsedCommand \<Rightarrow> uheap \<Rightarrow> (ParsedCommand \<times> uheap) option" where
  "cleanupParsedCommand c u = do {
     (c, u) \<leftarrow> cleanup_args [0..<pc_argc c] c u;
     Some (c\<lparr>pc_argc := 0, pc_name := NULL, pc_function := None, pc_isBuiltIn := False\<rparr>, u)
   }"

fun freeParsedCommands :: "ParsedCommand list \<Rightarrow> uheap \<Rightarrow> (ParsedCommand list \<times> uheap) option" where
  "freeParsedCommands [] u = Some ([], u)"
| "freeParsedCommands (c # cs) u = do {
     (c, u) \<leftarrow> cleanupParsedCommand c u;
     (cs, u) \<leftarrow> freeParsedCommands cs u;
     Some (c # cs, u)
   }"

fun find_command :: "Command list \<Rightarrow> cstring \<Rightarrow> Command option option" where
  "find_command [] cmd = Some None"
| "find_command (c # cs) cmd = do {
     d \<leftarrow> u_strcmp (bytes_of (cmd_name c) @ [0]) cmd;
     if d = 0 then Some (Some c) else find_command cs cmd
   }"

text \<open>\<open>strtok(NULL, " ")\<close> on the line, and the token as a string.\<close>

definition next_token :: "u8 list \<times> nat option \<Rightarrow> (nat option \<times> u8 list \<times> nat option) option" where
  "next_token tk = u_strtok None [32, 0] (fst tk) (snd tk)"

definition is_bar :: "u8 list \<Rightarrow> nat \<Rightarrow> bool option" where
  "is_bar buf p = do { d \<leftarrow> u_strcmp (drop p buf) [124, 0]; Some (d = 0) }"

partial_function (option) skip_bars :: "nat option \<Rightarrow> u8 list \<times> nat option \<Rightarrow> (nat option \<times> u8 list \<times> nat option) option" where
  "skip_bars token tk =
     (case token of
        None \<Rightarrow> Some (None, tk)
      | Some p \<Rightarrow> do {
          bar \<leftarrow> is_bar (fst tk) p;
          if bar then do { (token, tk) \<leftarrow> next_token tk; skip_bars token tk } else Some (Some p, tk)
        })"

text \<open>A copy of the token at \<open>p\<close> in memory of its own; \<open>NULL\<close> when there is none.\<close>

definition copy_token :: "u8 list \<Rightarrow> nat \<Rightarrow> uheap \<Rightarrow> (addr \<times> uheap) option" where
  "copy_token buf p u = do {
     n \<leftarrow> u_strlen (drop p buf);
     (a, u) \<leftarrow> malloc (of_int (n + 1)) u;
     if a = NULL then Some (NULL, u)
     else do { u \<leftarrow> store_string a (drop p buf) u; Some (a, u) }
   }"

partial_function (option) parse_args ::
  "nat option \<Rightarrow> u8 list \<times> nat option \<Rightarrow> ParsedCommand \<Rightarrow> uheap \<Rightarrow> (int \<times> ParsedCommand \<times> (u8 list \<times> nat option) \<times> uheap) option"
where
  "parse_args arg tk c u =
     (case arg of
        None \<Rightarrow> Some (1, c, tk, u)
      | Some p \<Rightarrow> do {
          bar \<leftarrow> is_bar (fst tk) p;
          if bar \<or> MAX_ARGUMENT_COUNT - 1 \<le> pc_argc c then Some (1, c, tk, u)
          else do {
            (a, u) \<leftarrow> copy_token (fst tk) p u;
            c \<leftarrow> (if pc_argc c < length (pc_argv c) then Some (c\<lparr>pc_argv := (pc_argv c)[pc_argc c := a]\<rparr>) else None);
            if a = NULL then do {
              (c, u) \<leftarrow> cleanupParsedCommand c u;
              Some (-1, c, tk, u)
            }
            else do {
              (arg, tk) \<leftarrow> next_token tk;
              parse_args arg tk (c\<lparr>pc_argc := pc_argc c + 1\<rparr>) u
            }
          }
        })"

text \<open>
  \<open>parseCommand\<close> on the line at offset \<open>start\<close> of the buffer, with the array \<open>command\<close>: 1 when
  there is a command, 0 when the line has none, -1 when it is unknown or memory is short.
\<close>

definition parseCommand ::
  "nat \<Rightarrow> u8 list \<Rightarrow> u8 list \<times> nat option \<Rightarrow> uheap \<Rightarrow> (int \<times> u8 list \<times> ParsedCommand \<times> (u8 list \<times> nat option) \<times> uheap) option"
where
  "parseCommand start command tk u = do {
     (token, tk) \<leftarrow> u_strtok (Some start) [32, 0] (fst tk) (snd tk);
     (token, tk) \<leftarrow> skip_bars token tk;
     case token of
       None \<Rightarrow> Some (0, command, zero_command, tk, u)
     | Some p \<Rightarrow> do {
         command \<leftarrow> u_strncpy command (drop p (fst tk)) (MAX_ARGUMENT_SIZE - 1);
         command \<leftarrow> put command (MAX_ARGUMENT_SIZE - 1) 0;
         found \<leftarrow> find_command commands command;
         case found of
           None \<Rightarrow> Some (-1, command, zero_command, tk, u)
         | Some cmd \<Rightarrow> do {
             (a, u) \<leftarrow> copy_token command 0 u;
             if a = NULL then Some (-1, command, zero_command, tk, u)
             else do {
               let c = zero_command\<lparr>pc_name := a, pc_argv := (pc_argv zero_command)[0 := a], pc_argc := 1,
                         pc_function := Some (cmd_func cmd), pc_isBuiltIn := cmd_isBuiltIn cmd\<rparr>;
               (arg, tk) \<leftarrow> next_token tk;
               (r, c, tk, u) \<leftarrow> parse_args arg tk c u;
               c \<leftarrow> (if r \<noteq> 1 then Some c
                    else if pc_argc c < length (pc_argv c) then Some (c\<lparr>pc_argv := (pc_argv c)[pc_argc c := NULL]\<rparr>)
                    else None);
               Some (r, command, c, tk, u)
             }
           }
       }
   }"

section \<open>Built-in commands\<close>

function history_loop :: "nat \<Rightarrow> nat \<Rightarrow> shell \<Rightarrow> term_call list option" where
  "history_loop lst i sh =
     (if HISTORY_SIZE \<le> i then Some []
      else if length (command_history sh) \<le> lst then None
      else
        (case char_at (command_history sh ! lst) 0 of
           None \<Rightarrow> None
         | Some c \<Rightarrow>
             if c = 0 then Some []
             else
               (case history_loop (nat (SUB_MOD (int lst) 1 (int HISTORY_SIZE))) (i + 1) sh of
                  None \<Rightarrow> None
                | Some ts \<Rightarrow> Some (T_printf (M_history_line i (command_history sh ! lst)) # ts))))"
  by pat_completeness auto
termination by (relation "measure (\<lambda>(lst, i, sh). HISTORY_SIZE - i)") auto

declare history_loop.simps [simp del]

definition history :: "shell \<Rightarrow> (int \<times> shell) option" where
  "history sh = do {
     ts \<leftarrow> history_loop (nat (SUB_MOD (int (command_history_last sh)) 1 (int HISTORY_SIZE))) 0 sh;
     Some (0, say ts sh)
   }"

text \<open>\<open>exit\<close> computes a status; nothing in the shell acts on it.\<close>

definition exit :: "nat \<Rightarrow> addr list \<Rightarrow> shell \<Rightarrow> int option" where
  "exit argc argv sh =
     (if 2 \<le> argc then
        if length argv < 2 then None
        else do {
          arg \<leftarrow> string_at (argv ! 1) (sh_heap sh);
          (vs, _) \<leftarrow> sscanf arg [37, 100, 0];
          Some (case vs of Scan_int n # _ \<Rightarrow> n | _ \<Rightarrow> 0)
        }
      else Some 0)"

definition run_builtin :: "ParsedCommand \<Rightarrow> shell \<Rightarrow> (int \<times> shell) option" where
  "run_builtin c sh =
     (case pc_function c of
        Some Cmd_exit \<Rightarrow> do { n \<leftarrow> exit (pc_argc c) (pc_argv c) sh; Some (n, sh) }
      | Some Cmd_history \<Rightarrow> history sh
      | _ \<Rightarrow> None)"

section \<open>Execution\<close>

datatype ucall =
    Process_create "cmd_fn option" nat "addr list" u8 u8
  | Process_wait_pid int
  | Process_wait_children
  | Open_pipe
  | Set_fd_targets u8 u8 u8

type_synonym system = "ucall \<Rightarrow> uheap \<Rightarrow> int \<times> uheap"

definition call :: "system \<Rightarrow> ucall \<Rightarrow> shell \<Rightarrow> int \<times> shell" where
  "call sys c sh = (case sys c (sh_heap sh) of (r, u) \<Rightarrow> (r, sh\<lparr>sh_heap := u\<rparr>))"

definition updateShellFdTargets :: "system \<Rightarrow> u8 \<Rightarrow> u8 \<Rightarrow> u8 \<Rightarrow> shell \<Rightarrow> int \<times> shell" where
  "updateShellFdTargets sys r w e sh =
     (case call sys (Set_fd_targets r w e) sh of
        (x, sh) \<Rightarrow> if x = 0 then (0, sh\<lparr>shell_fd_targets := [r, w, e]\<rparr>) else (-1, sh))"

definition handleBackgroundChildren :: "system \<Rightarrow> shell \<Rightarrow> shell" where
  "handleBackgroundChildren sys sh =
     (case call sys Process_wait_children sh of (reaped, sh) \<Rightarrow> if 0 < reaped then sh\<lparr>prompt_dirty := True\<rparr> else sh)"

definition create :: "system \<Rightarrow> ParsedCommand \<Rightarrow> u8 \<Rightarrow> shell \<Rightarrow> int \<times> shell" where
  "create sys c fg sh = call sys (Process_create (pc_function c) (pc_argc c) (pc_argv c) 1 fg) sh"

text \<open>An \<open>&\<close> as the last argument is freed and taken off; the result says whether there was one.\<close>

definition take_ampersand :: "ParsedCommand \<Rightarrow> shell \<Rightarrow> (bool \<times> ParsedCommand \<times> shell) option" where
  "take_ampersand c sh =
     (if pc_argc c = 0 then Some (False, c, sh)
      else if length (pc_argv c) < pc_argc c then None
      else
        let i = pc_argc c - 1; last_arg = pc_argv c ! i
        in if last_arg = NULL then Some (False, c, sh)
           else do {
             str \<leftarrow> string_at last_arg (sh_heap sh);
             d \<leftarrow> u_strcmp str [38, 0];
             if d = 0 then do {
               u \<leftarrow> free last_arg (sh_heap sh);
               Some (True, c\<lparr>pc_argv := (pc_argv c)[i := NULL], pc_argc := i\<rparr>, sh\<lparr>sh_heap := u\<rparr>)
             }
             else Some (False, c, sh)
           })"

definition run_single :: "system \<Rightarrow> bool \<Rightarrow> ParsedCommand \<Rightarrow> shell \<Rightarrow> shell" where
  "run_single sys bg c sh =
     (case create sys c (if bg then 0 else 1) sh of (pid, sh) \<Rightarrow>
        if pid < 0 then say [T_printf M_no_process] sh
        else if bg then (say [T_printf (M_background pid)] sh)\<lparr>last_command_output := 0, prompt_dirty := True\<rparr>
        else (case call sys (Process_wait_pid pid) sh of (r, sh) \<Rightarrow> sh\<lparr>last_command_output := of_int r\<rparr>))"

text \<open>
  Two commands joined by a pipe: the targets of the shell are set for each process that is
  created, since it inherits them, and set back after it.
\<close>

definition run_pipe :: "system \<Rightarrow> bool \<Rightarrow> ParsedCommand \<Rightarrow> ParsedCommand \<Rightarrow> u8 \<Rightarrow> u8 \<Rightarrow> u8 \<Rightarrow> shell \<Rightarrow> shell" where
  "run_pipe sys bg left right original_in original_out original_err sh =
     (let restore = (\<lambda>sh. snd (updateShellFdTargets sys original_in original_out original_err sh))
      in case call sys Open_pipe sh of (pipe_fd, sh) \<Rightarrow>
         if pipe_fd < 0 then say [T_printf M_no_pipe] sh
         else case updateShellFdTargets sys original_in (of_int pipe_fd) original_err sh of (x, sh) \<Rightarrow>
         if x \<noteq> 0 then restore (say [T_printf M_no_targets] sh)
         else case create sys left (if bg then 0 else 1) sh of (left_pid, sh) \<Rightarrow>
         let sh = restore sh
         in if left_pid < 0 then say [T_printf M_no_process] sh
         else case updateShellFdTargets sys (of_int pipe_fd) original_out original_err sh of (x, sh) \<Rightarrow>
         if x \<noteq> 0 then restore (say [T_printf M_no_targets] sh)
         else case create sys right 0 sh of (right_pid, sh) \<Rightarrow>
         let sh = restore sh
         in if right_pid < 0 then say [T_printf M_no_process] sh
         else if bg then
           (say [T_printf (M_background left_pid), T_printf (M_background right_pid)] sh)
             \<lparr>last_command_output := 0, prompt_dirty := True\<rparr>
         else case call sys (Process_wait_pid left_pid) sh of (_, sh) \<Rightarrow>
         case call sys (Process_wait_pid right_pid) sh of (r, sh) \<Rightarrow> sh\<lparr>last_command_output := of_int r\<rparr>)"

definition executeParsedCommands :: "system \<Rightarrow> ParsedCommand list \<Rightarrow> shell \<Rightarrow> (ParsedCommand list \<times> shell) option" where
  "executeParsedCommands sys cs sh =
     (case cs of
        [] \<Rightarrow> Some ([], sh)
      | c # rest \<Rightarrow>
          if rest = [] \<and> pc_isBuiltIn c then do {
            (r, sh) \<leftarrow> run_builtin c sh;
            Some (cs, sh\<lparr>last_command_output := of_int r\<rparr>)
          }
          else do {
            (bg, c, sh) \<leftarrow> take_ampersand c sh;
            if length (shell_fd_targets sh) < 3 then None
            else
              (case rest of
                 [] \<Rightarrow> Some ([c], run_single sys bg c sh)
               | c2 # _ \<Rightarrow>
                   if \<exists>d\<in>set (c # rest). pc_isBuiltIn d then Some (c # rest, say [T_printf M_no_builtin_in_pipe] sh)
                   else Some (c # rest, run_pipe sys bg c c2 (shell_fd_targets sh ! 0) (shell_fd_targets sh ! 1)
                                          (shell_fd_targets sh ! 2) sh))
          })"

section \<open>The main loop\<close>

definition clear_line :: "shell \<Rightarrow> shell option" where
  "clear_line sh = do {
     b \<leftarrow> put (buffer sh) 0 0;
     h \<leftarrow> put (command_history_buffer sh) 0 0;
     Some (sh\<lparr>buffer := b, command_history_buffer := h, buffer_dim := 0\<rparr>)
   }"

text \<open>A line that was parsed enters the history.\<close>

definition remember :: "shell \<Rightarrow> shell option" where
  "remember sh =
     (if length (command_history sh) \<le> command_history_last sh then None
      else do {
        l \<leftarrow> u_strncpy (command_history sh ! command_history_last sh) (command_history_buffer sh) (MAX_BUFFER_SIZE - 1);
        l \<leftarrow> put l (buffer_dim sh) 0;
        let n = (command_history_last sh + 1) mod HISTORY_SIZE;
        Some (sh\<lparr>command_history := (command_history sh)[command_history_last sh := l],
                 command_history_last := n, last_command_arrowed := n\<rparr>)
      })"

text \<open>
  Cutting the line at the first bar: the start of the second command, if there is one, the
  array, and whether there is a bar too many.
\<close>

definition cut_pipe :: "u8 list \<Rightarrow> (nat option \<times> u8 list \<times> bool) option" where
  "cut_pipe buf = do {
     bar \<leftarrow> u_strchr buf (Some 0) 124;
     case bar of
       None \<Rightarrow> Some (None, buf, False)
     | Some p \<Rightarrow> do {
         buf \<leftarrow> put buf p 0;
         extra \<leftarrow> u_strchr buf (Some (p + 1)) 124;
         Some (Some (p + 1), buf, extra \<noteq> None)
       }
   }"

text \<open>The commands of a line, with the last token looked up and whether the line is in error.\<close>

definition parse_line ::
  "u8 list \<Rightarrow> nat option \<Rightarrow> uheap \<Rightarrow> (bool \<times> bool \<times> u8 list \<times> ParsedCommand list \<times> (u8 list \<times> nat option) \<times> uheap) option" where
  "parse_line buf tok u = do {
     let token = replicate MAX_ARGUMENT_SIZE 0;
     (second, buf, extra) \<leftarrow> cut_pipe buf;
     if extra then Some (True, True, token, [], (buf, tok), u)
     else do {
       (s1, buf) \<leftarrow> trimWhitespace buf 0;
       (s2, buf) \<leftarrow> (case second of None \<Rightarrow> Some (None, buf)
                     | Some p \<Rightarrow> do { (s, buf) \<leftarrow> trimWhitespace buf p; Some (Some s, buf) });
       c \<leftarrow> char_at buf s1;
       if c = 0 then Some (True, False, token, [], (buf, tok), u)
       else do {
         (r, token, c1, tk, u) \<leftarrow> parseCommand s1 token (buf, tok) u;
         if r \<le> 0 then Some (True, False, token, [], tk, u)
         else
           (case s2 of
              None \<Rightarrow> Some (False, False, token, [c1], tk, u)
            | Some p \<Rightarrow> do {
                c \<leftarrow> char_at (fst tk) p;
                if c = 0 then Some (True, False, token, [c1], tk, u)
                else do {
                  token \<leftarrow> put token 0 0;
                  (r, token, c2, tk, u) \<leftarrow> parseCommand p token tk u;
                  if r \<le> 0 then Some (True, False, token, [c1], tk, u)
                  else Some (False, False, token, [c1, c2], tk, u)
                }
              })
       }
     }
   }"

definition process_line :: "system \<Rightarrow> shell \<Rightarrow> shell option" where
  "process_line sys sh = do {
     let sh = say [T_putchar 10] sh;
     b \<leftarrow> put (buffer sh) (buffer_dim sh) 0;
     h \<leftarrow> put (command_history_buffer sh) (buffer_dim sh) 0;
     let sh = sh\<lparr>command_history_buffer := h\<rparr>;
     (parse_error, printed, token, cs, tk, u) \<leftarrow> parse_line b (sh_token sh) (sh_heap sh);
     let sh = sh\<lparr>buffer := fst tk, sh_token := snd tk, sh_heap := u\<rparr>;
     let sh = (if printed then say [T_printf M_too_many_pipes] sh else sh);
     if parse_error then do {
       c \<leftarrow> char_at token 0;
       let sh = (if \<not> printed \<and> 0 < buffer_dim sh \<and> c \<noteq> 0 then say [T_printf (M_not_found token)] sh else sh);
       (_, u) \<leftarrow> freeParsedCommands cs (sh_heap sh);
       clear_line (sh\<lparr>sh_heap := u\<rparr>)
     }
     else do {
       sh \<leftarrow> remember sh;
       (cs, sh) \<leftarrow> executeParsedCommands sys cs sh;
       (_, u) \<leftarrow> freeParsedCommands cs (sh_heap sh);
       clear_line (sh\<lparr>sh_heap := u\<rparr>)
     }
   }"

text \<open>
  One turn of the inner loop, with the character that \<open>getchar\<close> returned: \<open>Inl\<close> the status
  when the shell ends, \<open>Inr\<close> otherwise. The outer loop prints a prompt after each line.
\<close>

definition new_prompt :: "system \<Rightarrow> shell \<Rightarrow> shell" where
  "new_prompt sys sh = printPrompt (handleBackgroundChildren sys sh)"

definition main_step :: "system \<Rightarrow> u8 \<Rightarrow> shell \<Rightarrow> (int \<times> shell + shell) option" where
  "main_step sys c sh =
     (if c = 10 then do { sh \<leftarrow> process_line sys sh; Some (Inr (new_prompt sys sh)) }
      else do {
        let sh = handleBackgroundChildren sys sh;
        if c = CTRL_C then do {
          sh \<leftarrow> emptyScreenBuffer sh;
          sh \<leftarrow> clear_line sh;
          Some (Inr (new_prompt sys sh))
        }
        else if c = CTRL_D then
          Some (if buffer_dim sh = 0 then Inl (0, say [T_printf M_end_of_input] sh) else Inr sh)
        else do { sh \<leftarrow> appendCharacter c sh; Some (Inr sh) }
      })"

text \<open>The static variables at the start, with the memory of the shell.\<close>

definition bss_shell :: "uheap \<Rightarrow> shell" where
  "bss_shell u =
     \<lparr>buffer = replicate MAX_BUFFER_SIZE 0, buffer_dim = 0, last_command_arrowed = 0, prompt_dirty = False,
      shell_fd_targets = [0, 1, 2], command_history = replicate HISTORY_SIZE (replicate MAX_BUFFER_SIZE 0),
      command_history_buffer = replicate MAX_BUFFER_SIZE 0, command_history_last = 0, last_command_output = 0,
      sh_token = None, sh_heap = u, sh_out = []\<rparr>"

definition main_start :: "system \<Rightarrow> shell \<Rightarrow> shell option" where
  "main_start sys sh = do {
     sh \<leftarrow> clear_line (say [T_clearScreen] sh);
     Some (new_prompt sys sh)
   }"

end
