(* ===== verification/Shell_Props.thy ===== *)
theory Shell_Props
  imports Shell
begin

text \<open>
  What the shell makes of a line: the words of the line become the arguments, each in memory
  of its own, and all of it is given back. And what the history shows.
\<close>

section \<open>Memory held by the shell\<close>

definition uheap_ok :: "uheap \<Rightarrow> bool" where
  "uheap_ok u \<longleftrightarrow> heap_ok (uh_kernel u) \<and> dom (uh_bytes u) \<subseteq> dom (raws (uh_kernel u))"

text \<open>
  \<open>holds u0 as vs u\<close>: compared with \<open>u0\<close>, the memory \<open>u\<close> has the blocks \<open>as\<close> more, and they hold
  the strings \<open>vs\<close>.
\<close>

definition holds :: "uheap \<Rightarrow> addr list \<Rightarrow> cstring list \<Rightarrow> uheap \<Rightarrow> bool" where
  "holds u0 as vs u \<longleftrightarrow> uheap_ok u \<and> length as = length vs \<and> distinct as \<and> NULL \<notin> set as \<and>
     (\<forall>p\<in>set as. raws (uh_kernel u0) p = None \<and> uh_bytes u0 p = None) \<and> set as \<subseteq> dom (raws (uh_kernel u)) \<and>
     (\<forall>i<length as. uh_bytes u (as ! i) = Some (vs ! i)) \<and>
     uh_kernel u = (uh_kernel u0)\<lparr>kmem := kmem (uh_kernel u), raws := raws (uh_kernel u)\<rparr> \<and>
     (\<forall>p. p \<notin> set as \<longrightarrow> raws (uh_kernel u) p = raws (uh_kernel u0) p \<and> uh_bytes u p = uh_bytes u0 p)"

lemma holds_refl: "uheap_ok u \<Longrightarrow> holds u [] [] u"
  by (simp add: holds_def)

lemma objects_at_mem: "objects_at (k\<lparr>kmem := m, raws := raws k\<rparr>) p = objects_at k p"
  by (simp add: objects_at_def)

text \<open>Holding nothing more means that everything is as it was.\<close>

lemma holds_nothing:
  assumes "holds u0 [] [] u" and "uheap_ok u0"
  shows "uh_bytes u = uh_bytes u0" "raws (uh_kernel u) = raws (uh_kernel u0)"
    "bud.live (kmem (uh_kernel u)) = bud.live (kmem (uh_kernel u0))"
proof -
  show b: "uh_bytes u = uh_bytes u0" "raws (uh_kernel u) = raws (uh_kernel u0)"
    using assms(1) by (auto simp: holds_def fun_eq_iff)
  have e: "uh_kernel u = (uh_kernel u0)\<lparr>kmem := kmem (uh_kernel u), raws := raws (uh_kernel u)\<rparr>"
    using assms(1) unfolding holds_def by blast
  have obj: "objects_at (uh_kernel u) p = objects_at (uh_kernel u0) p" for p
    using arg_cong [OF e, of "\<lambda>k. objects_at k p"] unfolding b(2) by (simp only: objects_at_mem)
  have "heap_ok (uh_kernel u)" "heap_ok (uh_kernel u0)" using assms by (simp_all add: holds_def uheap_ok_def)
  then have "objects_at (uh_kernel u) p = of_bool (p \<in> bud.live (kmem (uh_kernel u)))"
    "objects_at (uh_kernel u0) p = of_bool (p \<in> bud.live (kmem (uh_kernel u0)))" for p unfolding heap_ok_def by blast+
  then have "(p \<in> bud.live (kmem (uh_kernel u))) = (p \<in> bud.live (kmem (uh_kernel u0)))" for p
    using obj [of p] by (metis of_bool_eq_iff)
  then show "bud.live (kmem (uh_kernel u)) = bud.live (kmem (uh_kernel u0))" by blast
qed

lemma heap_ok_raw:
  assumes "heap_ok k" and "objects_at k p = 0" and "buddy_inv m" and "bud.live m = insert p (bud.live (kmem k))"
  shows "heap_ok (k\<lparr>kmem := m, raws := (raws k)(p \<mapsto> sz)\<rparr>)"
proof -
  have o: "objects_at (k\<lparr>kmem := m, raws := (raws k)(p \<mapsto> sz)\<rparr>) x = objects_at (k\<lparr>raws := (raws k)(p \<mapsto> sz)\<rparr>) x" for x
    by (simp add: objects_at_def)
  show ?thesis by (rule heap_ok_insert [OF assms(3,4,1,2)]) (simp, simp only: o objects_at_new [OF assms(2)])
qed

lemma holds_add:
  assumes h: "holds u0 as vs u" and m: "p \<noteq> NULL" "objects_at (uh_kernel u) p = 0" "buddy_inv m"
    "bud.live m = insert p (bud.live (kmem (uh_kernel u)))"
  shows "holds u0 (as @ [p]) (vs @ [s]) (u\<lparr>uh_kernel := (uh_kernel u)\<lparr>kmem := m, raws := (raws (uh_kernel u))(p \<mapsto> sz)\<rparr>,
    uh_bytes := (uh_bytes u)(p \<mapsto> s)\<rparr>)" (is "holds _ _ _ ?u")
proof -
  have r: "raws (uh_kernel u) p = None" using m(2) by (cases "raws (uh_kernel u) p") (simp_all add: objects_at_def)
  then have b: "uh_bytes u p = None" using h by (auto simp: holds_def uheap_ok_def)
  have new: "p \<notin> set as" using h r by (auto simp: holds_def)
  have r0: "raws (uh_kernel u0) p = None" "uh_bytes u0 p = None" using h r b new by (auto simp: holds_def)
  have "heap_ok (uh_kernel ?u)" using heap_ok_raw [OF _ m(2-4)] h by (simp add: holds_def uheap_ok_def)
  then have "uheap_ok ?u" using h by (auto simp: holds_def uheap_ok_def)
  moreover have "uh_kernel ?u = (uh_kernel u0)\<lparr>kmem := kmem (uh_kernel ?u), raws := raws (uh_kernel ?u)\<rparr>"
    using h unfolding holds_def by (cases "uh_kernel u0", cases "uh_kernel u") auto
  moreover have "uh_bytes ?u ((as @ [p]) ! i) = Some ((vs @ [s]) ! i)" if "i < length (as @ [p])" for i
  proof (cases "i < length as")
    case True
    then have "as ! i \<noteq> p" using new nth_mem by metis
    then show ?thesis using True h by (auto simp: holds_def nth_append)
  next
    case False
    then have "i = length as" using that by simp
    then show ?thesis using h by (simp add: holds_def nth_append)
  qed
  ultimately show ?thesis using h m(1) new r0 unfolding holds_def by auto
qed

lemma holds_drop:
  assumes h: "holds u0 (p # as) (s # vs) u"
  obtains u' where "free p u = Some u'" "holds u0 as vs u'"
proof -
  let ?k = "uh_kernel u"
  have p: "p \<noteq> NULL" "raws ?k p \<noteq> None" "heap_ok ?k" using h by (auto simp: holds_def uheap_ok_def)
  then have o: "objects_at ?k p \<noteq> 0" by (simp add: objects_at_def)
  obtain m where m: "kfree p ?k = Some (?k\<lparr>kmem := m\<rparr>)" "buddy_inv m" "bud.live m = bud.live (kmem ?k) - {p}"
    by (rule kfree_object [OF p(3) o])
  let ?k' = "?k\<lparr>kmem := m, raws := (raws ?k)(p := None)\<rparr>"
  let ?u = "u\<lparr>uh_kernel := ?k', uh_bytes := (uh_bytes u)(p := None)\<rparr>"
  have obj: "objects_at ?k' x = objects_at (?k\<lparr>raws := (raws ?k)(p := None)\<rparr>) x" for x by (simp add: objects_at_def)
  have hp: "heap_ok ?k'"
    by (rule heap_ok_remove [OF m(2,3) p(3) o]) (simp, simp only: obj objects_at_gone(9) [OF p(3,2)])
  have run: "free p u = Some ?u" using p(1) m(1) by (simp add: free_def sys_mem_free_def)
  have "uheap_ok ?u" using hp h by (auto simp: holds_def uheap_ok_def)
  moreover have "?k' = (uh_kernel u0)\<lparr>kmem := kmem ?k', raws := raws ?k'\<rparr>"
    using h unfolding holds_def by (cases "uh_kernel u0", cases ?k) auto
  moreover have "uh_bytes ?u (as ! i) = Some (vs ! i)" if i: "i < length as" for i
  proof -
    have "as ! i \<noteq> p" using h i nth_mem unfolding holds_def by fastforce
    moreover have "\<forall>i<length (p # as). uh_bytes u ((p # as) ! i) = Some ((s # vs) ! i)" using h unfolding holds_def by blast
    from spec [OF this, of "Suc i"] have "uh_bytes u ((p # as) ! Suc i) = Some ((s # vs) ! Suc i)" using i by simp
    ultimately show ?thesis by simp
  qed
  moreover have "\<forall>x. x \<notin> set as \<longrightarrow> raws ?k' x = raws (uh_kernel u0) x \<and> uh_bytes ?u x = uh_bytes u0 x"
    using h by (auto simp: holds_def)
  ultimately have "holds u0 as vs ?u" using h unfolding holds_def by auto
  then show ?thesis using that run by blast
qed

section \<open>Giving a command back\<close>

lemma cleanup_args_spec:
  assumes "holds u0 (drop j as) (drop j vs) u" and "j \<le> length as" and "length as \<le> length (pc_argv c)"
    and "\<forall>i. j \<le> i \<and> i < length as \<longrightarrow> pc_argv c ! i = as ! i"
  shows "\<exists>c' u'. cleanup_args [j..<length as] c u = Some (c', u') \<and> holds u0 [] [] u'"
  using assms
proof (induction "length as - j" arbitrary: j c u)
  case 0
  then show ?case by (auto simp: holds_def)
next
  case (Suc d)
  then have j: "j < length as" by simp
  then have jv: "j < length vs" using Suc.prems(1) by (auto simp: holds_def)
  have dr: "drop j as = as ! j # drop (Suc j) as" "drop j vs = vs ! j # drop (Suc j) vs"
    using j jv by (simp_all add: Cons_nth_drop_Suc)
  obtain u' where u': "free (as ! j) u = Some u'" "holds u0 (drop (Suc j) as) (drop (Suc j) vs) u'"
    using holds_drop Suc.prems(1) unfolding dr by blast
  have nz: "as ! j \<noteq> NULL" using Suc.prems(1) unfolding dr by (auto simp: holds_def)
  have "\<exists>c' u''. cleanup_args [Suc j..<length as] (c\<lparr>pc_argv := (pc_argv c)[j := NULL]\<rparr>) u' = Some (c', u'') \<and> holds u0 [] [] u''"
    by (rule Suc.hyps(1) [OF _ u'(2)]) (use Suc.hyps(2) Suc.prems j in auto)
  moreover have "pc_argv c ! j = as ! j" "j < length (pc_argv c)" using Suc.prems(3,4) j by auto
  moreover have "[j..<length as] = j # [Suc j..<length as]" using j by (rule upt_conv_Cons)
  ultimately show ?case using u'(1) nz by simp
qed

text \<open>The array of a command begins with the blocks held.\<close>

definition argv_is :: "ParsedCommand \<Rightarrow> addr list \<Rightarrow> bool" where
  "argv_is c as \<longleftrightarrow> pc_argc c = length as \<and> length (pc_argv c) = MAX_ARGUMENT_COUNT \<and>
     length as \<le> MAX_ARGUMENT_COUNT \<and> (\<forall>i<length as. pc_argv c ! i = as ! i)"

lemma cleanup_gives_back:
  assumes "holds u0 as vs u" and "argv_is c as"
  obtains c' u' where "cleanupParsedCommand c u = Some (c', u')" "holds u0 [] [] u'"
  using cleanup_args_spec [of u0 0 as vs u c] assms by (auto simp: cleanupParsedCommand_def argv_is_def)

section \<open>Words of a line\<close>

definition word_ok :: "u8 list \<Rightarrow> bool" where
  "word_ok w \<longleftrightarrow> (\<forall>c\<in>set w. c \<noteq> 0 \<and> c \<noteq> 32) \<and> length w \<le> MAX_BUFFER_SIZE"

fun join_words :: "u8 list list \<Rightarrow> u8 list" where
  "join_words [] = []"
| "join_words [w] = w"
| "join_words (w # ws) = w @ 32 # join_words ws"

definition memory_for :: "nat \<Rightarrow> uheap \<Rightarrow> bool" where
  "memory_for n u \<longleftrightarrow> spare n (kmem (uh_kernel u))"

lemma copy_token_spec:
  assumes h: "holds u0 as vs u" and t: "drop p buf = w @ 0 # r" and w: "word_ok w"
  obtains a u' where "copy_token buf p u = Some (a, u')" "a = NULL \<Longrightarrow> holds u0 as vs u'"
    "a \<noteq> NULL \<Longrightarrow> holds u0 (as @ [a]) (vs @ [w @ [0]]) u'" "memory_for (Suc n) u \<Longrightarrow> a \<noteq> NULL \<and> memory_for n u'"
proof -
  let ?sz = "of_int (int (length w) + 1) :: u64" and ?k = "uh_kernel u"
  have w0: "0 \<notin> set w" "length w \<le> 1024" using w by (auto simp: word_ok_def MAX_BUFFER_SIZE_def)
  have c: "cstr (drop p buf) = w" "0 \<in> set (drop p buf)" using w0 t by simp_all
  have us: "unat ?sz = Suc (length w)"
  proof -
    have "?sz = of_nat (Suc (length w))" by simp
    then show ?thesis using w0(2) by (simp only: unat_of_nat) simp
  qed
  then have sz: "?sz \<noteq> 0" by (metis nat.distinct(1) unat_0)
  have sl: "u_strlen (drop p buf) = Some (int (length w))" using u_strlen_spec [OF c(2)] c(1) by simp
  have hk: "heap_ok ?k" using h by (simp add: holds_def uheap_ok_def)
  from hk show ?thesis
  proof (cases rule: kalloc_cases [of ?k ?sz])
    case (null m)
    let ?u = "u\<lparr>uh_kernel := ?k\<lparr>kmem := m\<rparr>\<rparr>"
    have "copy_token buf p u = Some (NULL, ?u)"
      using sl sz null(1) by (simp add: copy_token_def malloc_def sys_mem_alloc_def)
    moreover have "holds u0 as vs ?u"
      using h null(2) unfolding holds_def by (cases "uh_kernel u0", cases ?k) (auto simp: uheap_ok_def)
    moreover have "\<not> memory_for (Suc n) u"
      using null(1) kalloc_new [OF hk _ sz, of n] us w0(2) unfolding memory_for_def by fastforce
    ultimately show ?thesis using that by blast
  next
    case (block a m)
    let ?k' = "?k\<lparr>kmem := m, raws := (raws ?k)(a \<mapsto> ?sz)\<rparr>"
    let ?u = "u\<lparr>uh_kernel := ?k', uh_bytes := (uh_bytes u)(a \<mapsto> w @ [0])\<rparr>"
    have "u_strcpy (replicate (Suc (length w)) 0) (drop p buf) = Some (w @ [0])"
      using u_strcpy_spec [OF c(2), of "replicate (Suc (length w)) 0"] c(1) by simp
    then have "copy_token buf p u = Some (a, ?u)"
      using sl sz block(1,2) us
      by (simp add: copy_token_def malloc_def sys_mem_alloc_def store_string_def del: replicate_Suc)
    moreover have "holds u0 (as @ [a]) (vs @ [w @ [0]]) ?u" by (rule holds_add [OF h block(2-5)])
    moreover have "memory_for n ?u" if sp: "memory_for (Suc n) u"
    proof -
      obtain a' m' where "kalloc ?sz ?k = Some (a', ?k\<lparr>kmem := m'\<rparr>)" "spare n m'"
        by (rule kalloc_new [OF hk sp [unfolded memory_for_def] sz]) (use us w0(2) in simp_all)
      then have "kmem (?k\<lparr>kmem := m\<rparr>) = kmem (?k\<lparr>kmem := m'\<rparr>)" "spare n m'" using block(1) by simp_all
      then show ?thesis by (simp add: memory_for_def)
    qed
    ultimately show ?thesis using that block(2) by blast
  qed
qed

text \<open>The next token of a line, the first one or a later one.\<close>

definition token_rest :: "u8 list \<Rightarrow> u8 list \<Rightarrow> u8 list list \<Rightarrow> u8 list" where
  "token_rest pre w ws = (if ws = [] then pre @ w else pre @ w @ [0])"

lemma token_cut:
  assumes "word_ok w"
  shows "strtok_loop [32, 0] (pre @ join_words (w # ws) @ 0 # rest) (length pre) =
    Some (token_rest pre w ws @ join_words ws @ 0 # rest, length (token_rest pre w ws))"
proof (cases ws)
  case Nil
  then show ?thesis using strtok_loop_word(2) [of w pre rest] assms by (simp add: word_ok_def token_rest_def)
next
  case (Cons x xs)
  then show ?thesis using strtok_loop_word(1) [of w pre "join_words ws @ 0 # rest"] assms by (simp add: word_ok_def token_rest_def)
qed

lemma token_string:
  assumes "word_ok w"
  shows "\<exists>r. drop (length pre) (token_rest pre w ws @ join_words ws @ 0 # rest) = w @ 0 # r"
  by (cases ws) (simp_all add: token_rest_def)

lemma next_token_word:
  assumes "word_ok w" and "w \<noteq> [] \<or> ws \<noteq> []"
  shows "next_token (pre @ join_words (w # ws) @ 0 # rest, Some (length pre)) =
    Some (Some (length pre), token_rest pre w ws @ join_words ws @ 0 # rest, Some (length (token_rest pre w ws)))"
proof -
  let ?b = "pre @ join_words (w # ws) @ 0 # rest"
  have "?b ! length pre \<noteq> 0"
  proof (cases w)
    case Nil
    then show ?thesis using assms(2) by (cases ws) simp_all
  next
    case (Cons c w')
    then show ?thesis using assms(1) by (cases ws) (simp_all add: word_ok_def nth_append)
  qed
  moreover have "length pre < length ?b" by simp
  ultimately show ?thesis
    using token_cut [OF assms(1), of pre ws rest] by (simp add: next_token_def u_strtok_def not_le)
qed

lemma next_token_end: "next_token (pre @ 0 # rest, Some (length pre)) = Some (None, pre @ 0 # rest, Some (length pre))"
  by (simp add: next_token_def u_strtok_def)

lemma is_bar_word:
  assumes "drop p buf = w @ 0 # r" and "0 \<notin> set w"
  shows "is_bar buf p = Some (w = [124])"
proof -
  have a: "0 \<in> set (drop p buf)" "0 \<in> set [124, 0 :: u8]" "cstr (drop p buf) = w" using assms by simp_all
  from strcmp_spec [OF a(1,2)] obtain d where "strcmp (drop p buf) [124, 0] = Some d" "d = 0 \<longleftrightarrow> w = [124]"
    using a(3) by auto
  then show ?thesis by (simp add: is_bar_def u_strcmp_is_strcmp)
qed

lemma argv_is_add:
  assumes "argv_is c as" and "length as < MAX_ARGUMENT_COUNT"
  shows "argv_is (c\<lparr>pc_argv := (pc_argv c)[pc_argc c := a], pc_argc := pc_argc c + 1\<rparr>) (as @ [a])"
    and "argv_is (c\<lparr>pc_argv := (pc_argv c)[pc_argc c := a]\<rparr>) as"
  using assms by (auto simp: argv_is_def nth_append nth_list_update)

definition words_ok :: "u8 list list \<Rightarrow> bool" where
  "words_ok ws \<longleftrightarrow> (\<forall>w\<in>set ws. word_ok w \<and> w \<noteq> [124]) \<and> (ws \<noteq> [] \<longrightarrow> last ws \<noteq> [])"

lemma words_okD:
  assumes "words_ok (w # ws)"
  shows "word_ok w" "w \<noteq> [124]" "w \<noteq> [] \<or> ws \<noteq> []" "words_ok ws"
  using assms by (auto simp: words_ok_def split: if_splits)

lemma next_token_total:
  assumes "words_ok ws"
  obtains arg tk where "next_token (pre @ join_words ws @ 0 # rest, Some (length pre)) = Some (arg, tk)"
proof (cases ws)
  case Nil
  then show ?thesis using that next_token_end [of pre rest] by simp
next
  case (Cons w xs)
  then show ?thesis using that next_token_word [of w xs pre rest] words_okD assms by blast
qed

text \<open>
  The arguments are copied one by one; when memory runs out, those copied so far are given
  back.
\<close>

lemma parse_args_spec:
  assumes "holds u0 as vs u" and "argv_is c as" and "words_ok ws" and "length as + length ws < MAX_ARGUMENT_COUNT"
    and "next_token (pre @ join_words ws @ 0 # rest, Some (length pre)) = Some (arg, tk)"
  shows "\<exists>r c' tk' u'. parse_args arg tk c u = Some (r, c', tk', u') \<and>
    (r = 1 \<and> (\<exists>as'. holds u0 (as @ as') (vs @ map (\<lambda>w. w @ [0]) ws) u' \<and> argv_is c' (as @ as')) \<and>
       pc_function c' = pc_function c \<and> pc_isBuiltIn c' = pc_isBuiltIn c \<or>
     r = -1 \<and> holds u0 [] [] u') \<and> (memory_for (length ws + n) u \<longrightarrow> r = 1 \<and> memory_for n u')"
  using assms
proof (induction ws arbitrary: as vs u c pre arg tk)
  case Nil
  then have "arg = None" by (simp add: next_token_end)
  then have "parse_args arg tk c u = Some (1, c, tk, u)" by (subst parse_args.simps) simp
  then show ?case using Nil.prems(1,2) by (auto intro: exI [of _ "[]"])
next
  case (Cons w ws)
  note w = words_okD [OF Cons.prems(3)]
  let ?pre = "token_rest pre w ws"
  let ?b = "?pre @ join_words ws @ 0 # rest"
  have at: "arg = Some (length pre)" "tk = (?b, Some (length ?pre))"
    using Cons.prems(5) next_token_word [OF w(1,3), of pre rest] by simp_all
  obtain r0 where t: "drop (length pre) ?b = w @ 0 # r0" using token_string [OF w(1)] by blast
  have w0: "0 \<notin> set w" using w(1) by (auto simp: word_ok_def)
  have bar: "is_bar ?b (length pre) = Some False" using is_bar_word [OF t w0] w(2) by simp
  have room: "length as < MAX_ARGUMENT_COUNT" "\<not> MAX_ARGUMENT_COUNT - 1 \<le> pc_argc c" "pc_argc c < length (pc_argv c)"
    using Cons.prems(2,4) by (auto simp: argv_is_def)
  obtain a u' where a: "copy_token ?b (length pre) u = Some (a, u')" "a = NULL \<Longrightarrow> holds u0 as vs u'"
    "a \<noteq> NULL \<Longrightarrow> holds u0 (as @ [a]) (vs @ [w @ [0]]) u'"
    "memory_for (Suc (length ws + n)) u \<Longrightarrow> a \<noteq> NULL \<and> memory_for (length ws + n) u'"
    by (rule copy_token_spec [OF Cons.prems(1) t w(1), of "length ws + n"]) blast
  show ?case
  proof (cases "a = NULL")
    case True
    obtain c' u'' where c': "cleanupParsedCommand (c\<lparr>pc_argv := (pc_argv c)[pc_argc c := NULL]\<rparr>) u' = Some (c', u'')" "holds u0 [] [] u''"
      by (rule cleanup_gives_back [OF a(2) [OF True] argv_is_add(2) [OF Cons.prems(2) room(1)]])
    have "parse_args arg tk c u = Some (-1, c', tk, u'')"
      using at bar room(2,3) a(1) True c'(1) by (subst parse_args.simps) simp
    then show ?thesis using c'(2) a(4) True by auto
  next
    case False
    let ?c = "c\<lparr>pc_argv := (pc_argv c)[pc_argc c := a], pc_argc := pc_argc c + 1\<rparr>"
    obtain arg' tk' where n: "next_token (?pre @ join_words ws @ 0 # rest, Some (length ?pre)) = Some (arg', tk')"
      by (rule next_token_total [OF w(4)])
    have step: "parse_args arg tk c u = parse_args arg' tk' ?c u'"
      using at bar room(2,3) a(1) False n by (subst parse_args.simps) simp
    have "length (as @ [a]) + length ws < MAX_ARGUMENT_COUNT" using Cons.prems(4) by simp
    from Cons.IH [OF a(3) [OF False] argv_is_add(1) [OF Cons.prems(2) room(1)] w(4) this n] step a(4) show ?thesis
      by (simp; blast)
  qed
qed

section \<open>Looking a command up\<close>

lemma command_names: "\<forall>c\<in>set commands. 0 \<notin> set (bytes_of (cmd_name c)) \<and> length (cmd_name c) \<le> 8 \<and> cmd_name c \<noteq> []"
  by (simp add: commands_def bytes_of_def)

lemma find_command_spec:
  assumes "\<forall>c\<in>set cs. 0 \<notin> set (bytes_of (cmd_name c))" and "0 \<in> set s"
  shows "find_command cs s = Some (find (\<lambda>c. bytes_of (cmd_name c) = cstr s) cs)"
  using assms(1)
proof (induction cs)
  case (Cons c cs)
  have "cstr (bytes_of (cmd_name c) @ [0]) = bytes_of (cmd_name c)" using Cons.prems by simp
  then obtain d where "u_strcmp (bytes_of (cmd_name c) @ [0]) s = Some d" "d = 0 \<longleftrightarrow> bytes_of (cmd_name c) = cstr s"
    using strcmp_spec [OF _ assms(2), of "bytes_of (cmd_name c) @ [0]"] by (auto simp: u_strcmp_is_strcmp)
  then show ?case using Cons by simp
qed simp

lemma find_by_name:
  "distinct (map f xs) \<Longrightarrow> x \<in> set xs \<Longrightarrow> find (\<lambda>y. f y = f x) xs = Some x"
  by (induction xs) auto

lemma command_names_distinct: "distinct (map (\<lambda>c. bytes_of (cmd_name c)) commands)"
  by (simp add: commands_def bytes_of_def)

lemma find_commands:
  assumes "cmd \<in> set commands" and "cstr s = bytes_of (cmd_name cmd)" and "0 \<in> set s"
  shows "find_command commands s = Some (Some cmd)"
  using find_command_spec [of commands s] find_by_name [OF command_names_distinct assms(1)] command_names assms(2,3) by simp

section \<open>Parsing a command\<close>

text \<open>The name of the command ends up in the array \<open>command\<close>.\<close>

lemma command_array:
  assumes "drop p buf = w @ 0 # r" and "0 \<notin> set w" and "length w \<le> 8" and "length command = MAX_ARGUMENT_SIZE"
  obtains r' command' command'' where "u_strncpy command (drop p buf) (MAX_ARGUMENT_SIZE - 1) = Some command'"
    "put command' (MAX_ARGUMENT_SIZE - 1) 0 = Some command''" "command'' = w @ 0 # r'"
proof -
  let ?c = "w @ 0 # drop (Suc (length w)) command"
  have "0 \<in> set (drop p buf)" "cstr (drop p buf) = w" using assms(1,2) by simp_all
  from u_strncpy_spec [OF this(1)] this(2) have "u_strncpy command (drop p buf) (MAX_ARGUMENT_SIZE - 1) = Some ?c"
    using assms(3,4) by (simp add: MAX_ARGUMENT_SIZE_def)
  moreover have "put ?c (MAX_ARGUMENT_SIZE - 1) 0 = Some (w @ 0 # (drop (Suc (length w)) command)[254 - length w := 0])"
  proof -
    have "255 - length w = Suc (254 - length w)" using assms(3) by simp
    then show ?thesis using assms(3,4) by (simp add: put_def MAX_ARGUMENT_SIZE_def list_update_append)
  qed
  ultimately show ?thesis using that by blast
qed

lemma skip_bars_word: "is_bar (fst tk) p = Some False \<Longrightarrow> skip_bars (Some p) tk = Some (Some p, tk)"
  by (subst skip_bars.simps) simp

definition restored :: "uheap \<Rightarrow> uheap \<Rightarrow> bool" where
  "restored u0 u \<longleftrightarrow> uh_bytes u = uh_bytes u0 \<and> raws (uh_kernel u) = raws (uh_kernel u0) \<and>
     bud.live (kmem (uh_kernel u)) = bud.live (kmem (uh_kernel u0))"

lemma parseCommand_spec:
  assumes u: "uheap_ok u" and ws: "words_ok (name # args)" and cmd: "cmd \<in> set commands" "name = bytes_of (cmd_name cmd)"
    and len: "length (name # args) < MAX_ARGUMENT_COUNT" "length command = MAX_ARGUMENT_SIZE"
  obtains r command' c tk u' where
    "parseCommand (length pre) command (pre @ join_words (name # args) @ 0 # rest, tok) u = Some (r, command', c, tk, u')"
    "r = 1 \<and> (\<exists>as. holds u as (map (\<lambda>w. w @ [0]) (name # args)) u' \<and> argv_is c as) \<and> pc_argv c ! pc_argc c = NULL \<and>
       pc_function c = Some (cmd_func cmd) \<and> pc_isBuiltIn c = cmd_isBuiltIn cmd \<or> r = -1 \<and> holds u [] [] u'"
    "memory_for (length (name # args) + n) u \<Longrightarrow> r = 1 \<and> memory_for n u'"
proof -
  note w = words_okD [OF ws]
  let ?pre = "token_rest pre name args"
  let ?b = "?pre @ join_words args @ 0 # rest"
  have first: "u_strtok (Some (length pre)) [32, 0] (pre @ join_words (name # args) @ 0 # rest) tok =
      Some (Some (length pre), ?b, Some (length ?pre))"
    using token_cut [OF w(1), of pre args rest] by (simp add: u_strtok_def not_le)
  obtain r0 where t: "drop (length pre) ?b = name @ 0 # r0" using token_string [OF w(1)] by blast
  have n0: "0 \<notin> set name" "length name \<le> 8" using cmd command_names by (simp_all add: bytes_of_def)
  have bar: "is_bar ?b (length pre) = Some False" using is_bar_word [OF t n0(1)] w(2) by simp
  obtain r' command' command'' where c: "u_strncpy command (drop (length pre) ?b) (MAX_ARGUMENT_SIZE - 1) = Some command'"
    "put command' (MAX_ARGUMENT_SIZE - 1) 0 = Some command''" "command'' = name @ 0 # r'"
    by (rule command_array [OF t n0 len(2)])
  have find: "find_command commands command'' = Some (Some cmd)"
    by (rule find_commands [OF cmd(1)]) (use c(3) n0 cmd(2) in simp_all)
  obtain a u1 where a: "copy_token command'' 0 u = Some (a, u1)" "a = NULL \<Longrightarrow> holds u [] [] u1"
    "a \<noteq> NULL \<Longrightarrow> holds u [a] [name @ [0]] u1"
    "memory_for (Suc (length args + n)) u \<Longrightarrow> a \<noteq> NULL \<and> memory_for (length args + n) u1"
    by (rule copy_token_spec [OF holds_refl [OF u], of 0 command'' name r' "length args + n"]) (use c(3) w(1) in auto)
  note head = first skip_bars_word [of "(?b, Some (length ?pre))", simplified, OF bar] c(1,2) find a(1)
  show ?thesis
  proof (cases "a = NULL")
    case True
    have "parseCommand (length pre) command (pre @ join_words (name # args) @ 0 # rest, tok) u =
        Some (-1, command'', zero_command, (?b, Some (length ?pre)), u1)"
      using head True by (simp add: parseCommand_def)
    then show ?thesis using that a(2,4) True by auto
  next
    case False
    let ?c = "zero_command\<lparr>pc_name := a, pc_argv := (pc_argv zero_command)[0 := a], pc_argc := 1,
      pc_function := Some (cmd_func cmd), pc_isBuiltIn := cmd_isBuiltIn cmd\<rparr>"
    have c1: "argv_is ?c [a]" by (simp add: argv_is_def zero_command_def MAX_ARGUMENT_COUNT_def)
    obtain arg tk where n: "next_token (?b, Some (length ?pre)) = Some (arg, tk)" by (rule next_token_total [OF w(4)])
    have "length [a] + length args < MAX_ARGUMENT_COUNT" using len(1) by simp
    have cf: "pc_function ?c = Some (cmd_func cmd)" "pc_isBuiltIn ?c = cmd_isBuiltIn cmd" by simp_all
    from parse_args_spec [OF a(3) [OF False] c1 w(4) \<open>length [a] + length args < _\<close> n, of n, unfolded cf] obtain r c' tk' u' where
      p: "parse_args arg tk ?c u1 = Some (r, c', tk', u')"
      "r = 1 \<and> (\<exists>as'. holds u ([a] @ as') ([name @ [0]] @ map (\<lambda>w. w @ [0]) args) u' \<and> argv_is c' ([a] @ as')) \<and>
       pc_function c' = Some (cmd_func cmd) \<and> pc_isBuiltIn c' = cmd_isBuiltIn cmd \<or> r = -1 \<and> holds u [] [] u'"
      "memory_for (length args + n) u1 \<longrightarrow> r = 1 \<and> memory_for n u'" by blast
    from p(2) show ?thesis
    proof
      assume r: "r = 1 \<and> (\<exists>as'. holds u ([a] @ as') ([name @ [0]] @ map (\<lambda>w. w @ [0]) args) u' \<and> argv_is c' ([a] @ as')) \<and>
       pc_function c' = Some (cmd_func cmd) \<and> pc_isBuiltIn c' = cmd_isBuiltIn cmd"
      then obtain as where as: "holds u as (map (\<lambda>w. w @ [0]) (name # args)) u'" "argv_is c' as" by auto
      then have l: "pc_argc c' < length (pc_argv c')" using len(1) by (auto simp: argv_is_def holds_def)
      let ?c' = "c'\<lparr>pc_argv := (pc_argv c')[pc_argc c' := NULL]\<rparr>"
      have "parseCommand (length pre) command (pre @ join_words (name # args) @ 0 # rest, tok) u = Some (r, command'', ?c', tk', u')"
        using head False n p(1) r l by (simp add: parseCommand_def)
      moreover have "argv_is ?c' as" using as(2) by (auto simp: argv_is_def)
      ultimately show ?thesis using that as(1) r l p(3) a(4) by auto
    next
      assume r: "r = -1 \<and> holds u [] [] u'"
      then have "parseCommand (length pre) command (pre @ join_words (name # args) @ 0 # rest, tok) u = Some (r, command'', c', tk', u')"
        using head False n p(1) by (simp add: parseCommand_def)
      then show ?thesis using that r p(3) a(4) by auto
    qed
  qed
qed

section \<open>History\<close>

text \<open>A line typed character by character and entered, as the main loop does with a line that parses.\<close>

fun type_line :: "u8 list \<Rightarrow> shell \<Rightarrow> shell option" where
  "type_line [] sh = Some sh"
| "type_line (c # cs) sh = do { sh \<leftarrow> appendCharacter c sh; type_line cs sh }"

definition enter_line :: "u8 list \<Rightarrow> shell \<Rightarrow> shell option" where
  "enter_line l sh = do {
     sh \<leftarrow> type_line l sh;
     h \<leftarrow> put (command_history_buffer sh) (buffer_dim sh) 0;
     sh \<leftarrow> remember (sh\<lparr>command_history_buffer := h\<rparr>);
     clear_line sh
   }"

fun enter_all :: "u8 list list \<Rightarrow> shell \<Rightarrow> shell option" where
  "enter_all [] sh = Some sh"
| "enter_all (l # ls) sh = do { sh \<leftarrow> enter_line l sh; enter_all ls sh }"

definition line_ok :: "u8 list \<Rightarrow> bool" where
  "line_ok l \<longleftrightarrow> l \<noteq> [] \<and> length l < MAX_BUFFER_SIZE \<and> (\<forall>c\<in>set l. c \<noteq> 0 \<and> c \<noteq> 8 \<and> c \<noteq> 127)"

definition editor_ok :: "shell \<Rightarrow> bool" where
  "editor_ok sh \<longleftrightarrow> length (buffer sh) = MAX_BUFFER_SIZE \<and> length (command_history_buffer sh) = MAX_BUFFER_SIZE \<and>
     length (command_history sh) = HISTORY_SIZE \<and> (\<forall>r\<in>set (command_history sh). length r = MAX_BUFFER_SIZE)"

lemmas shell_consts = MAX_BUFFER_SIZE_def HISTORY_SIZE_def

lemma appendCharacter_spec:
  assumes "editor_ok sh" and "buffer_dim sh < MAX_BUFFER_SIZE - 1" and "c \<noteq> 8" and "c \<noteq> 127"
  obtains sh' where "appendCharacter c sh = Some sh'" "editor_ok sh'" "buffer_dim sh' = buffer_dim sh + 1"
    "command_history_buffer sh' = (command_history_buffer sh)[buffer_dim sh := c]"
    "command_history sh' = command_history sh" "command_history_last sh' = command_history_last sh"
proof -
  let ?sh = "if buffer_dim sh = 0 \<and> prompt_dirty sh then printPrompt (say [T_putchar 10] sh) else sh"
  have e: "editor_ok ?sh" "buffer_dim ?sh = buffer_dim sh" "command_history_buffer ?sh = command_history_buffer sh"
    "command_history ?sh = command_history sh" "command_history_last ?sh = command_history_last sh" "buffer ?sh = buffer sh"
    using assms(1) by (simp_all add: printPrompt_def say_def editor_ok_def)
  let ?r = "say [T_putchar c] (?sh\<lparr>buffer := (buffer ?sh)[buffer_dim ?sh := c],
    command_history_buffer := (command_history_buffer ?sh)[buffer_dim ?sh := c], buffer_dim := buffer_dim ?sh + 1\<rparr>)"
  have "appendCharacter c sh = Some ?r"
    unfolding appendCharacter_def using e assms(1-4)
    by (simp add: put_def editor_ok_def shell_consts)
  then show ?thesis using that [of ?r] e assms(1) by (simp add: say_def editor_ok_def)
qed

lemma type_line_spec:
  assumes "editor_ok sh" and "buffer_dim sh + length l < MAX_BUFFER_SIZE" and "\<forall>c\<in>set l. c \<noteq> 8 \<and> c \<noteq> 127"
  shows "\<exists>sh'. type_line l sh = Some sh' \<and> editor_ok sh' \<and> buffer_dim sh' = buffer_dim sh + length l \<and>
    take (buffer_dim sh + length l) (command_history_buffer sh') = take (buffer_dim sh) (command_history_buffer sh) @ l \<and>
    command_history sh' = command_history sh \<and> command_history_last sh' = command_history_last sh"
  using assms
proof (induction l arbitrary: sh)
  case (Cons c l)
  obtain sh1 where s1: "appendCharacter c sh = Some sh1" "editor_ok sh1" "buffer_dim sh1 = buffer_dim sh + 1"
    "command_history_buffer sh1 = (command_history_buffer sh)[buffer_dim sh := c]"
    "command_history sh1 = command_history sh" "command_history_last sh1 = command_history_last sh"
    by (rule appendCharacter_spec [OF Cons.prems(1), of c]) (use Cons.prems in auto)
  have "take (buffer_dim sh1) (command_history_buffer sh1) = take (buffer_dim sh) (command_history_buffer sh) @ [c]"
    using s1(3,4) Cons.prems(1,2) by (simp add: take_Suc_conv_app_nth editor_ok_def)
  then show ?case using Cons.IH [OF s1(2)] s1 Cons.prems by auto
qed simp

lemma remember_spec:
  assumes "editor_ok sh" and "command_history_last sh < HISTORY_SIZE" and "buffer_dim sh = length l" and "line_ok l"
    and "take (Suc (length l)) (command_history_buffer sh) = l @ [0]"
  obtains row where "remember sh = Some (sh\<lparr>command_history := (command_history sh)[command_history_last sh := row],
      command_history_last := (command_history_last sh + 1) mod HISTORY_SIZE,
      last_command_arrowed := (command_history_last sh + 1) mod HISTORY_SIZE\<rparr>)"
    "length row = MAX_BUFFER_SIZE" "cstr row = l"
proof -
  let ?h = "command_history_buffer sh" and ?old = "command_history sh ! command_history_last sh"
  have idx: "command_history_last sh < length (command_history sh)" using assms(1,2) by (simp add: editor_ok_def)
  then have old: "length ?old = MAX_BUFFER_SIZE" using assms(1) nth_mem by (auto simp: editor_ok_def)
  have l: "0 \<notin> set l" "length l < MAX_BUFFER_SIZE" using assms(4) by (auto simp: line_ok_def)
  have h: "?h = l @ 0 # drop (Suc (length l)) ?h" using append_take_drop_id [of "Suc (length l)" ?h] assms(5) by simp
  then have c: "cstr ?h = l" "0 \<in> set ?h" using l(1) by (metis cstr_append_0, metis in_set_conv_decomp)
  let ?row = "l @ 0 # drop (Suc (length l)) ?old"
  have cp: "u_strncpy ?old ?h (MAX_BUFFER_SIZE - 1) = Some ?row"
    using u_strncpy_spec [OF c(2), of "MAX_BUFFER_SIZE - 1" ?old] c(1) l(2) old by simp
  have pt: "put ?row (length l) 0 = Some ?row" using old l(2) by (simp add: put_def list_update_append)
  have "length ?row = MAX_BUFFER_SIZE" using old l(2) by simp
  then show ?thesis using that [of ?row] idx cp pt assms(3) l(1) by (simp add: remember_def Let_def)
qed

lemma clear_line_spec:
  assumes "editor_ok sh"
  obtains b h where "clear_line sh = Some (sh\<lparr>buffer := b, command_history_buffer := h, buffer_dim := 0\<rparr>)"
    "editor_ok (sh\<lparr>buffer := b, command_history_buffer := h, buffer_dim := 0\<rparr>)"
proof -
  have "0 < length (buffer sh)" "0 < length (command_history_buffer sh)" using assms by (simp_all add: editor_ok_def MAX_BUFFER_SIZE_def)
  then have "clear_line sh = Some (sh\<lparr>buffer := (buffer sh)[0 := 0], command_history_buffer := (command_history_buffer sh)[0 := 0],
      buffer_dim := 0\<rparr>)" by (simp add: clear_line_def put_def)
  then show ?thesis by (rule that) (use assms in \<open>simp add: editor_ok_def\<close>)
qed

text \<open>
  The ring after the lines \<open>ls\<close>: the last ten of them, backwards from the next free row, and
  empty rows where no line has been.
\<close>

definition ring :: "u8 list list \<Rightarrow> shell \<Rightarrow> bool" where
  "ring ls sh \<longleftrightarrow> editor_ok sh \<and> buffer_dim sh = 0 \<and> command_history_last sh = length ls mod HISTORY_SIZE \<and>
     (\<forall>j<HISTORY_SIZE. j < length ls \<longrightarrow> cstr (command_history sh ! ((length ls - 1 - j) mod HISTORY_SIZE)) = rev ls ! j) \<and>
     (\<forall>i<HISTORY_SIZE. length ls \<le> i \<longrightarrow> cstr (command_history sh ! i) = [])"

lemma mod_before_neq: "j \<le> n \<Longrightarrow> 0 < j \<Longrightarrow> j < m \<Longrightarrow> (n - j) mod m \<noteq> n mod (m :: nat)"
  by (metis add.commute add_diff_cancel_left' dvd_imp_le le_add_diff_inverse mod_eq_dvd_iff_nat diff_le_self diff_diff_cancel leD)

lemma enter_line_ring:
  assumes r: "ring ls sh" and l: "line_ok l"
  shows "\<exists>sh'. enter_line l sh = Some sh' \<and> ring (ls @ [l]) sh'"
proof -
  have e: "editor_ok sh" "buffer_dim sh = 0" using r by (simp_all add: ring_def)
  have ll: "length l < MAX_BUFFER_SIZE" "\<forall>c\<in>set l. c \<noteq> 8 \<and> c \<noteq> 127" using l by (auto simp: line_ok_def)
  obtain sh1 where s1: "type_line l sh = Some sh1" "editor_ok sh1" "buffer_dim sh1 = length l"
    "take (length l) (command_history_buffer sh1) = l" "command_history sh1 = command_history sh"
    "command_history_last sh1 = command_history_last sh" using type_line_spec [OF e(1), of l] e(2) ll by auto
  let ?h = "(command_history_buffer sh1)[length l := 0]" and ?i = "length ls mod HISTORY_SIZE"
  let ?sh1 = "sh1\<lparr>command_history_buffer := ?h\<rparr>"
  have p: "put (command_history_buffer sh1) (buffer_dim sh1) 0 = Some ?h"
    using s1(2,3) ll(1) by (simp add: put_def editor_ok_def)
  have lst: "command_history_last sh1 = ?i" using s1(6) r by (simp add: ring_def)
  have tk: "take (Suc (length l)) ?h = l @ [0]"
    using s1(2,4) ll(1) by (simp add: take_Suc_conv_app_nth editor_ok_def)
  obtain row where row: "remember ?sh1 = Some (?sh1\<lparr>command_history := (command_history sh)[?i := row],
      command_history_last := (?i + 1) mod HISTORY_SIZE, last_command_arrowed := (?i + 1) mod HISTORY_SIZE\<rparr>)"
    "length row = MAX_BUFFER_SIZE" "cstr row = l"
    using remember_spec [of ?sh1 l] s1(2,3,5) lst l tk by (auto simp: editor_ok_def HISTORY_SIZE_def)
  let ?sh2 = "?sh1\<lparr>command_history := (command_history sh)[?i := row],
      command_history_last := (?i + 1) mod HISTORY_SIZE, last_command_arrowed := (?i + 1) mod HISTORY_SIZE\<rparr>"
  have e2: "editor_ok ?sh2" using s1(2,5) row(2) by (auto simp: editor_ok_def dest: set_update_subset_insert [THEN subsetD])
  obtain b h where bh: "clear_line ?sh2 = Some (?sh2\<lparr>buffer := b, command_history_buffer := h, buffer_dim := 0\<rparr>)"
    "editor_ok (?sh2\<lparr>buffer := b, command_history_buffer := h, buffer_dim := 0\<rparr>)" by (rule clear_line_spec [OF e2])
  define sh3 where "sh3 = ?sh2\<lparr>buffer := b, command_history_buffer := h, buffer_dim := 0\<rparr>"
  have s3: "clear_line ?sh2 = Some sh3" "editor_ok sh3" "buffer_dim sh3 = 0"
    "command_history sh3 = (command_history sh)[?i := row]" "command_history_last sh3 = (?i + 1) mod HISTORY_SIZE"
    unfolding sh3_def by (rule bh(1), rule bh(2), simp_all)
  have run: "enter_line l sh = Some sh3" using s1(1) p row(1) s3(1) by (simp add: enter_line_def)
  have hl: "?i < length (command_history sh)" using e(1) by (simp add: editor_ok_def HISTORY_SIZE_def)
  have bk: "cstr (command_history sh3 ! ((length (ls @ [l]) - 1 - j) mod HISTORY_SIZE)) = rev (ls @ [l]) ! j"
    if j: "j < HISTORY_SIZE" "j < length (ls @ [l])" for j
  proof (cases j)
    case 0
    then show ?thesis using s3(4) hl row(3) by simp
  next
    case (Suc i)
    have "(length ls - j) mod HISTORY_SIZE \<noteq> ?i" using mod_before_neq [of j "length ls" HISTORY_SIZE] j Suc by simp
    moreover have "length ls - j = length ls - 1 - i" using Suc by simp
    moreover have "cstr (command_history sh ! ((length ls - 1 - i) mod HISTORY_SIZE)) = rev ls ! i"
      using r j Suc unfolding ring_def by auto
    ultimately show ?thesis using s3(4) Suc by simp
  qed
  have empty: "cstr (command_history sh3 ! i) = []" if "i < HISTORY_SIZE" "length (ls @ [l]) \<le> i" for i
    using r that s3(4) by (simp add: ring_def)
  have "command_history_last sh3 = length (ls @ [l]) mod HISTORY_SIZE" using s3(5) by (simp add: mod_Suc_eq)
  then have "ring (ls @ [l]) sh3" using s3(2,3) bk empty unfolding ring_def by blast
  then show ?thesis using run by blast
qed

lemma enter_all_ring:
  "ring xs sh \<Longrightarrow> \<forall>l\<in>set ls. line_ok l \<Longrightarrow> \<exists>sh'. enter_all ls sh = Some sh' \<and> ring (xs @ ls) sh'"
proof (induction ls arbitrary: xs sh)
  case (Cons l ls)
  obtain sh1 where s1: "enter_line l sh = Some sh1" "ring (xs @ [l]) sh1"
    using enter_line_ring [OF Cons.prems(1)] Cons.prems(2) by auto
  then show ?case using Cons.IH [OF s1(2)] Cons.prems(2) by auto
qed auto

lemma cstr_zeros: "cstr (replicate n 0) = []"
  by (cases n) simp_all

lemma ring_boot: "ring [] (bss_shell u)"
  by (auto simp: ring_def editor_ok_def bss_shell_def shell_consts cstr_zeros)

lemma SUB_MOD_before: "0 < n \<Longrightarrow> nat (SUB_MOD (int (n mod HISTORY_SIZE)) 1 (int HISTORY_SIZE)) = (n - 1) mod HISTORY_SIZE"
proof -
  assume "0 < n"
  then obtain m where "n = Suc m" by (cases n) auto
  then show ?thesis by (simp add: SUB_MOD_def HISTORY_SIZE_def mod_Suc nat_diff_distrib)
qed

lemma cstr_nonempty_iff: "xs \<noteq> [] \<Longrightarrow> cstr xs = [] \<longleftrightarrow> xs ! 0 = 0"
  by (cases xs) auto

definition history_lines :: "u8 list list \<Rightarrow> shell \<Rightarrow> nat \<Rightarrow> term_call list" where
  "history_lines ls sh i = map (\<lambda>j. T_printf (M_history_line j (command_history sh ! ((length ls - 1 - j) mod HISTORY_SIZE))))
     [i..<min HISTORY_SIZE (length ls)]"

lemma history_loop_ring:
  assumes r: "ring ls sh" and ok: "\<forall>l\<in>set ls. line_ok l"
  shows "i \<le> min HISTORY_SIZE (length ls) \<Longrightarrow>
    history_loop (nat (SUB_MOD (int ((length ls - i) mod HISTORY_SIZE)) 1 (int HISTORY_SIZE))) i sh = Some (history_lines ls sh i)"
proof (induction "min HISTORY_SIZE (length ls) - i" arbitrary: i)
  case 0
  then have i: "i = min HISTORY_SIZE (length ls)" by simp
  show ?case
  proof (cases "HISTORY_SIZE \<le> length ls")
    case True
    then show ?thesis using i by (subst history_loop.simps) (simp add: history_lines_def)
  next
    case False
    then have n: "i = length ls" "length ls < 10" using i by (simp_all add: HISTORY_SIZE_def)
    have z: "nat (SUB_MOD (int ((length ls - i) mod HISTORY_SIZE)) 1 (int HISTORY_SIZE)) = 9" using n by (simp add: SUB_MOD_def HISTORY_SIZE_def)
    have e: "editor_ok sh" "cstr (command_history sh ! 9) = []" using r n by (simp_all add: ring_def HISTORY_SIZE_def)
    then have row: "length (command_history sh ! 9) = MAX_BUFFER_SIZE" using nth_mem by (auto simp: editor_ok_def HISTORY_SIZE_def)
    then have "command_history sh ! 9 \<noteq> []" by (auto simp: MAX_BUFFER_SIZE_def)
    then have "char_at (command_history sh ! 9) 0 = Some 0" using cstr_nonempty_iff e(2) by (auto simp: char_at_def)
    then show ?thesis unfolding z using n e(1) by (subst history_loop.simps) (simp add: history_lines_def editor_ok_def HISTORY_SIZE_def)
  qed
next
  case (Suc d)
  then have i: "i < HISTORY_SIZE" "i < length ls" by simp_all
  let ?x = "(length ls - 1 - i) mod HISTORY_SIZE"
  let ?row = "command_history sh ! ?x"
  have x: "nat (SUB_MOD (int ((length ls - i) mod HISTORY_SIZE)) 1 (int HISTORY_SIZE)) = ?x" using SUB_MOD_before [of "length ls - i"] i by simp
  have e: "editor_ok sh" "cstr ?row = rev ls ! i" using r i by (simp_all add: ring_def)
  have xl: "?x < length (command_history sh)" using e(1) by (simp add: editor_ok_def HISTORY_SIZE_def)
  have "rev ls ! i \<in> set ls" using i(2) by (metis length_rev nth_mem set_rev)
  then have "cstr ?row \<noteq> []" using e(2) ok by (auto simp: line_ok_def)
  moreover have ne: "?row \<noteq> []" using calculation by auto
  ultimately obtain c where c: "char_at ?row 0 = Some c" "c \<noteq> 0" using cstr_nonempty_iff [OF ne] by (auto simp: char_at_def)
  have nxt: "nat (SUB_MOD (int ?x) 1 (int HISTORY_SIZE)) = nat (SUB_MOD (int ((length ls - (i + 1)) mod HISTORY_SIZE)) 1 (int HISTORY_SIZE))"
    by simp
  have ih: "history_loop (nat (SUB_MOD (int ((length ls - (i + 1)) mod HISTORY_SIZE)) 1 (int HISTORY_SIZE))) (i + 1) sh =
      Some (history_lines ls sh (i + 1))" by (rule Suc.hyps(1)) (use Suc.hyps(2) Suc.prems i in auto)
  have "history_lines ls sh i = T_printf (M_history_line i ?row) # history_lines ls sh (i + 1)"
    using i by (simp add: history_lines_def upt_conv_Cons)
  then show ?case unfolding x using i xl c ih nxt by (subst history_loop.simps) simp
qed

section \<open>Pipes set up by the shell\<close>

lemma say_targets [simp]: "shell_fd_targets (say ts sh) = shell_fd_targets sh"
  by (simp add: say_def)

lemma call_targets: "call sys c sh = (r, sh') \<Longrightarrow> shell_fd_targets sh' = shell_fd_targets sh"
  by (auto simp: call_def split: prod.splits)

lemma restore_targets:
  assumes "\<forall>v. fst (sys (Set_fd_targets i w e) v) = 0"
  shows "shell_fd_targets (snd (updateShellFdTargets sys i w e sh)) = [i, w, e]"
  using assms [rule_format, of "sh_heap sh"] by (cases "sys (Set_fd_targets i w e) (sh_heap sh)") (simp add: updateShellFdTargets_def call_def)

lemma run_pipe_targets:
  assumes "\<forall>v. fst (sys (Set_fd_targets i w e) v) = 0" and "shell_fd_targets sh = [i, w, e]"
  shows "shell_fd_targets (run_pipe sys bg l r i w e sh) = [i, w, e]"
  using assms(2) restore_targets [of sys i w e, OF assms(1)]
  by (auto simp: run_pipe_def create_def Let_def dest!: call_targets split: prod.splits)

lemma run_single_targets: "shell_fd_targets (run_single sys bg c sh) = shell_fd_targets sh"
  by (auto simp: run_single_def create_def dest!: call_targets split: prod.splits)

lemma take_ampersand_targets: "take_ampersand c sh = Some (bg, c', sh') \<Longrightarrow> shell_fd_targets sh' = shell_fd_targets sh"
  by (auto simp: take_ampersand_def Let_def split: if_splits)

lemma run_builtin_targets: "run_builtin c sh = Some (r, sh') \<Longrightarrow> shell_fd_targets sh' = shell_fd_targets sh"
  by (auto simp: run_builtin_def history_def split: option.splits cmd_fn.splits)

section \<open>Properties\<close>

text \<open>
  C31. A line of words separated by single spaces is parsed into exactly these words: if the
  first one names a command and there are fewer than 64 words, \<open>parseCommand\<close> finds the
  command and copies every word into a block of its own, in order, with a null pointer behind
  the last; cleaning the command up gives all of that memory back. When memory is short it
  fails and has given back what it took; with a block for each word it does not fail.
\<close>

theorem command_line_words:
  assumes "uheap_ok u" and "words_ok (name # args)" and "cmd \<in> set commands" and "name = bytes_of (cmd_name cmd)"
    and "length (name # args) < MAX_ARGUMENT_COUNT" and "length command = MAX_ARGUMENT_SIZE"
  shows "\<exists>r command' c tk u'.
    parseCommand (length pre) command (pre @ join_words (name # args) @ 0 # rest, tok) u = Some (r, command', c, tk, u') \<and>
    (r = 1 \<or> r = -1) \<and> (memory_for (length (name # args)) u \<longrightarrow> r = 1) \<and> (r = -1 \<longrightarrow> restored u u') \<and>
    (r = 1 \<longrightarrow> pc_argc c = length (name # args) \<and> pc_argv c ! pc_argc c = NULL \<and> pc_function c = Some (cmd_func cmd) \<and>
       (\<forall>i<length (name # args). string_at (pc_argv c ! i) u' = Some ((name # args) ! i @ [0])) \<and>
       (\<exists>c' u''. cleanupParsedCommand c u' = Some (c', u'') \<and> restored u u''))"
proof -
  have giv: "restored u v" if "holds u [] [] v" for v using holds_nothing [OF that assms(1)] by (simp add: restored_def)
  obtain r command' c tk u' where p:
    "parseCommand (length pre) command (pre @ join_words (name # args) @ 0 # rest, tok) u = Some (r, command', c, tk, u')"
    "r = 1 \<and> (\<exists>as. holds u as (map (\<lambda>w. w @ [0]) (name # args)) u' \<and> argv_is c as) \<and> pc_argv c ! pc_argc c = NULL \<and>
       pc_function c = Some (cmd_func cmd) \<and> pc_isBuiltIn c = cmd_isBuiltIn cmd \<or> r = -1 \<and> holds u [] [] u'"
    "memory_for (length (name # args) + 0) u \<Longrightarrow> r = 1 \<and> memory_for 0 u'"
    by (rule parseCommand_spec [OF assms, of pre rest tok 0]) blast
  have full: "pc_argc c = length (name # args) \<and>
      (\<forall>i<length (name # args). string_at (pc_argv c ! i) u' = Some ((name # args) ! i @ [0])) \<and>
      (\<exists>c' u''. cleanupParsedCommand c u' = Some (c', u'') \<and> restored u u'')"
    if h: "holds u as (map (\<lambda>w. w @ [0]) (name # args)) u'" and a: "argv_is c as" for as
  proof (intro conjI allI impI)
    have len: "length as = length (name # args)" using h by (simp add: holds_def)
    then show "pc_argc c = length (name # args)" using a by (simp add: argv_is_def)
    show "string_at (pc_argv c ! i) u' = Some ((name # args) ! i @ [0])" if i: "i < length (name # args)" for i
    proof -
      have "pc_argv c ! i = as ! i" using a i len by (simp add: argv_is_def)
      moreover have "\<forall>i<length as. uh_bytes u' (as ! i) = Some (map (\<lambda>w. w @ [0]) (name # args) ! i)" using h unfolding holds_def by blast
      then have "uh_bytes u' (as ! i) = Some (map (\<lambda>w. w @ [0]) (name # args) ! i)" using i len by simp
      ultimately show ?thesis unfolding string_at_def using nth_map [OF i, of "\<lambda>w. w @ [0]"] by simp
    qed
    obtain c' u'' where "cleanupParsedCommand c u' = Some (c', u'')" "holds u [] [] u''" by (rule cleanup_gives_back [OF h a])
    then show "\<exists>c' u''. cleanupParsedCommand c u' = Some (c', u'') \<and> restored u u''" using giv by blast
  qed
  from p(2) show ?thesis
  proof
    assume r: "r = 1 \<and> (\<exists>as. holds u as (map (\<lambda>w. w @ [0]) (name # args)) u' \<and> argv_is c as) \<and> pc_argv c ! pc_argc c = NULL \<and>
       pc_function c = Some (cmd_func cmd) \<and> pc_isBuiltIn c = cmd_isBuiltIn cmd"
    then obtain as where "holds u as (map (\<lambda>w. w @ [0]) (name # args)) u'" "argv_is c as" by blast
    note f = full [OF this]
    show ?thesis
      by (rule exI [of _ r], rule exI [of _ command'], rule exI [of _ c], rule exI [of _ tk], rule exI [of _ u']) (use f r p(1) in simp)
  next
    assume r: "r = -1 \<and> holds u [] [] u'"
    have f: "\<not> memory_for (length (name # args)) u" "restored u u'" using p(3) r giv by auto
    show ?thesis
      by (rule exI [of _ r], rule exI [of _ command'], rule exI [of _ c], rule exI [of _ tk], rule exI [of _ u']) (use f r p(1) in simp)
  qed
qed

theorem command_line_words_witness:
  "\<exists>u command' c tk u'. parseCommand 0 (replicate 256 0) ([107, 105, 108, 108, 32, 49, 50, 0], None) u = Some (1, command', c, tk, u') \<and>
     pc_argc c = 2 \<and> pc_function c = Some Cmd_kill \<and> string_at (pc_argv c ! 1) u' = Some [49, 50, 0]"
proof -
  obtain k s r where k: "sems_inv {} k" "spare 25 (kmem k)" by (rule boot_raw_sem)
  let ?u = "\<lparr>uh_kernel = k, uh_bytes = Map.empty\<rparr>" and ?cmd = "\<lparr>cmd_name = ''kill'', cmd_func = Cmd_kill, cmd_isBuiltIn = False\<rparr>"
  have u: "uheap_ok ?u" using queue_inv_heap [OF sems_invD(3) [OF k(1)]] by (simp add: uheap_ok_def)
  have ws: "words_ok [[107, 105, 108, 108], [49, 50]]" by (simp add: words_ok_def word_ok_def MAX_BUFFER_SIZE_def)
  have cmd: "?cmd \<in> set commands" "[107, 105, 108, 108] = bytes_of (cmd_name ?cmd)" by (simp_all add: commands_def bytes_of_def)
  have "memory_for 2 ?u" using k(2) by (simp add: memory_for_def spare_def)
  with command_line_words [OF u ws cmd, of "replicate 256 0" "[]" "[]" None] obtain r command' c tk u' where
    "parseCommand 0 (replicate 256 0) ([107, 105, 108, 108, 32, 49, 50, 0], None) ?u = Some (1, command', c, tk, u')"
    "pc_argc c = 2" "pc_function c = Some Cmd_kill" "string_at (pc_argv c ! 1) u' = Some [49, 50, 0]"
    by (auto simp: MAX_ARGUMENT_COUNT_def MAX_ARGUMENT_SIZE_def numeral_2_eq_2)
  then show ?thesis by blast
qed





end
