(* ===== verification/Commands.thy ===== *)
theory Commands
  imports Shell
begin

text \<open>
  The commands of the shell (\<open>Userland/Shell/commands.c\<close>). What a command does besides
  computing, the system calls, the printing and the reading of the standard input, it does
  through a parameter that answers a call and changes the world; the messages are the \<open>printf\<close>
  calls, named by what they say. The arguments are the strings of \<open>argv\<close>. A call that stores a
  number through a pointer answers that number.
\<close>

section \<open>Calls\<close>

datatype cmd_msg =
    P_usage
  | P_pid_not_positive "cstring option"
  | P_failed int
  | P_done int
  | P_bad_priority
  | P_bad_seconds
  | P_hello int
  | P_bad_argument
  | P_description string
  | P_not_found
  | P_word cstring
  | P_newline
  | P_lines int
  | P_not_both_positive
  | P_no_semaphores
  | P_too_many
  | P_no_writer nat
  | P_no_reader nat
  | P_bad_count
  | P_available
  | P_time int int int
  | P_no_snapshot
  | P_snapshot
  | P_register string int

datatype ccall =
    C_print cmd_msg
  | C_putchar u8
  | C_getchar
  | C_kill u64
  | C_set_priority u64 u8
  | C_block u64
  | C_unblock u64
  | C_mem_status
  | C_process_list
  | C_get_pid
  | C_sleep u32
  | C_clear
  | C_font_increase
  | C_font_decrease
  | C_sem_open cstring u32 u8
  | C_create_writer "cstring list"
  | C_create_reader "cstring list"
  | C_hour
  | C_minute
  | C_second
  | C_register_snapshot
  | C_divzero
  | C_invalidopcode
  | C_test_mm u64 "cstring list option"
  | C_test_processes u64 "cstring list option"
  | C_test_prio u64 "cstring list option"
  | C_test_sync u64 "cstring list option"
  | C_test_nosync u64 "cstring list option"

type_synonym 'w csys = "ccall \<Rightarrow> 'w \<Rightarrow> int \<times> 'w"

definition tell :: "'w csys \<Rightarrow> cmd_msg \<Rightarrow> 'w \<Rightarrow> 'w" where
  "tell sys p w = snd (sys (C_print p) w)"

definition arg :: "cstring list \<Rightarrow> nat \<Rightarrow> cstring option" where
  "arg argv i = (if i < length argv then Some (argv ! i) else None)"

section \<open>Process commands\<close>

definition clear :: "'w csys \<Rightarrow> 'w \<Rightarrow> int \<times> 'w" where
  "clear sys w = (0, snd (sys C_clear w))"

definition mem :: "'w csys \<Rightarrow> nat \<Rightarrow> 'w \<Rightarrow> int \<times> 'w" where
  "mem sys argc w = (if 1 < argc then (1, tell sys P_usage w) else sys C_mem_status w)"

definition ps :: "'w csys \<Rightarrow> nat \<Rightarrow> 'w \<Rightarrow> int \<times> 'w" where
  "ps sys argc w = (if 1 < argc then (1, tell sys P_usage w) else sys C_process_list w)"

definition font :: "'w csys \<Rightarrow> nat \<Rightarrow> cstring list \<Rightarrow> 'w \<Rightarrow> (int \<times> 'w) option" where
  "font sys argc argv w =
     (if argc < 2 then Some (1, tell sys P_usage w)
      else do {
        a \<leftarrow> arg argv 1;
        d \<leftarrow> u_strcasecmp a (bytes_of ''increase'' @ [0]);
        if d = 0 then Some (sys C_font_increase w)
        else do {
          d \<leftarrow> u_strcasecmp a (bytes_of ''decrease'' @ [0]);
          if d = 0 then Some (sys C_font_decrease w) else Some (1, tell sys P_bad_argument w)
        }
      })"

fun man_loop :: "'w csys \<Rightarrow> Command list \<Rightarrow> cstring \<Rightarrow> 'w \<Rightarrow> (int \<times> 'w) option" where
  "man_loop sys [] a w = Some (1, tell sys P_not_found w)"
| "man_loop sys (c # cs) a w = do {
     d \<leftarrow> u_strcasecmp (bytes_of (cmd_name c) @ [0]) a;
     if d = 0 then Some (0, tell sys (P_description (cmd_name c)) w) else man_loop sys cs a w
   }"

definition man :: "'w csys \<Rightarrow> nat \<Rightarrow> cstring list \<Rightarrow> 'w \<Rightarrow> (int \<times> 'w) option" where
  "man sys argc argv w =
     (if argc < 2 then Some (1, tell sys P_usage w) else do { a \<leftarrow> arg argv 1; man_loop sys commands a w })"

fun help_loop :: "'w csys \<Rightarrow> Command list \<Rightarrow> 'w \<Rightarrow> 'w" where
  "help_loop sys [] w = tell sys P_newline w"
| "help_loop sys (c # cs) w = help_loop sys cs (tell sys (P_description (cmd_name c)) w)"

definition help_cmd :: "'w csys \<Rightarrow> 'w \<Rightarrow> int \<times> 'w" where
  "help_cmd sys w = (0, help_loop sys commands (tell sys P_available w))"

text \<open>The loop of \<open>loop\<close> never ends: one turn of it, after the arguments have been read.\<close>

definition loop_seconds :: "'w csys \<Rightarrow> nat \<Rightarrow> cstring list \<Rightarrow> 'w \<Rightarrow> ((int \<times> 'w) + u32 \<times> int \<times> 'w) option" where
  "loop_seconds sys argc argv w =
     (if 2 < argc then Some (Inl (1, tell sys P_usage w))
      else if argc = 2 then do {
        a \<leftarrow> arg argv 1;
        parsed \<leftarrow> atoi a;
        if parsed \<le> 0 then Some (Inl (1, tell sys P_bad_seconds w))
        else (case sys C_get_pid w of (pid, w) \<Rightarrow> Some (Inr (of_int parsed, pid, w)))
      }
      else (case sys C_get_pid w of (pid, w) \<Rightarrow> Some (Inr (1, pid, w))))"

definition loop_turn :: "'w csys \<Rightarrow> u32 \<Rightarrow> int \<Rightarrow> 'w \<Rightarrow> 'w" where
  "loop_turn sys seconds pid w = snd (sys (C_sleep (seconds * 1000)) (tell sys (P_hello pid) w))"

fun kill_loop :: "'w csys \<Rightarrow> nat list \<Rightarrow> cstring list \<Rightarrow> int \<Rightarrow> 'w \<Rightarrow> (int \<times> 'w) option" where
  "kill_loop sys [] argv status w = Some (status, w)"
| "kill_loop sys (i # is) argv status w = do {
     a \<leftarrow> arg argv i;
     pid \<leftarrow> atoi a;
     if pid \<le> 0 then kill_loop sys is argv 1 (tell sys (P_pid_not_positive (Some a)) w)
     else
       (case sys (C_kill (of_int pid)) w of (result, w) \<Rightarrow>
          if result < 0 then kill_loop sys is argv 1 (tell sys (P_failed pid) w)
          else kill_loop sys is argv status (tell sys (P_done pid) w))
   }"

definition kill :: "'w csys \<Rightarrow> nat \<Rightarrow> cstring list \<Rightarrow> 'w \<Rightarrow> (int \<times> 'w) option" where
  "kill sys argc argv w = (if argc < 2 then Some (1, tell sys P_usage w) else kill_loop sys [1..<argc] argv 0 w)"

definition nice :: "'w csys \<Rightarrow> nat \<Rightarrow> cstring list \<Rightarrow> 'w \<Rightarrow> (int \<times> 'w) option" where
  "nice sys argc argv w =
     (if argc < 3 then Some (1, tell sys P_usage w)
      else do {
        a \<leftarrow> arg argv 1;
        pid \<leftarrow> atoi a;
        if pid \<le> 0 then Some (1, tell sys (P_pid_not_positive None) w)
        else do {
          b \<leftarrow> arg argv 2;
          priority \<leftarrow> atoi b;
          if priority < 0 \<or> 5 < priority then Some (1, tell sys P_bad_priority w)
          else
            (case sys (C_set_priority (of_int pid) (of_int priority)) w of (result, w) \<Rightarrow>
               Some (if result < 0 then (1, tell sys (P_failed pid) w) else (0, tell sys (P_done pid) w)))
        }
      })"

definition block :: "'w csys \<Rightarrow> nat \<Rightarrow> cstring list \<Rightarrow> 'w \<Rightarrow> (int \<times> 'w) option" where
  "block sys argc argv w =
     (if argc < 2 then Some (1, tell sys P_usage w)
      else do {
        a \<leftarrow> arg argv 1;
        pid \<leftarrow> atoi a;
        if pid \<le> 0 then Some (1, tell sys (P_pid_not_positive None) w)
        else
          (case sys (C_block (of_int pid)) w of (result, w) \<Rightarrow>
             if result < 0 then
               (case sys (C_unblock (of_int pid)) w of (result, w) \<Rightarrow>
                  Some (if result < 0 then (1, tell sys (P_failed pid) w) else (0, tell sys (P_done pid) w)))
             else Some (0, tell sys (P_done pid) w))
      })"

text \<open>The arguments of a test: the name of the command is taken off.\<close>

definition adjust_test_args :: "nat \<Rightarrow> cstring list \<Rightarrow> nat \<times> cstring list option" where
  "adjust_test_args argc argv = (argc - 1, if 0 < argc - 1 then Some (tl argv) else None)"

text \<open>What \<open>testprocesses\<close> checks before it starts the test: \<open>Some -1\<close> when it gives up.\<close>

definition check_processes :: "'w csys \<Rightarrow> nat \<Rightarrow> cstring list \<Rightarrow> 'w \<Rightarrow> (int option \<times> 'w) option" where
  "check_processes sys argc argv w =
     (case adjust_test_args argc argv of (argc, av) \<Rightarrow>
        if argc = 1 \<and> av \<noteq> None then do {
          av \<leftarrow> av;
          a \<leftarrow> arg av 0;
          requested \<leftarrow> atoi a;
          if requested \<le> 0 \<or> 26 < requested then Some (Some (-1), tell sys P_bad_count w) else Some (None, w)
        }
        else Some (None, w))"

definition testprocesses :: "'w csys \<Rightarrow> nat \<Rightarrow> cstring list \<Rightarrow> 'w \<Rightarrow> (int \<times> 'w) option" where
  "testprocesses sys argc argv w = do {
     (refused, w) \<leftarrow> check_processes sys argc argv w;
     case refused of
       Some r \<Rightarrow> Some (r, w)
     | None \<Rightarrow> (case adjust_test_args argc argv of (argc, av) \<Rightarrow> Some (sys (C_test_processes (of_nat argc) av) w))
   }"

definition testmm :: "'w csys \<Rightarrow> nat \<Rightarrow> cstring list \<Rightarrow> 'w \<Rightarrow> int \<times> 'w" where
  "testmm sys argc argv w = (case adjust_test_args argc argv of (argc, av) \<Rightarrow> sys (C_test_mm (of_nat argc) av) w)"

definition testpriority :: "'w csys \<Rightarrow> nat \<Rightarrow> cstring list \<Rightarrow> 'w \<Rightarrow> int \<times> 'w" where
  "testpriority sys argc argv w = (case adjust_test_args argc argv of (argc, av) \<Rightarrow> sys (C_test_prio (of_nat argc) av) w)"

definition testsync :: "'w csys \<Rightarrow> nat \<Rightarrow> cstring list \<Rightarrow> 'w \<Rightarrow> int \<times> 'w" where
  "testsync sys argc argv w = (case adjust_test_args argc argv of (argc, av) \<Rightarrow> sys (C_test_sync (of_nat argc) av) w)"

definition tnosync :: "'w csys \<Rightarrow> nat \<Rightarrow> cstring list \<Rightarrow> 'w \<Rightarrow> int \<times> 'w" where
  "tnosync sys argc argv w = (case adjust_test_args argc argv of (argc, av) \<Rightarrow> sys (C_test_nosync (of_nat argc) av) w)"

section \<open>Clock, registers and exceptions\<close>

definition time_cmd :: "'w csys \<Rightarrow> 'w \<Rightarrow> int \<times> 'w" where
  "time_cmd sys w =
     (let (hour, w) = sys C_hour w; (minute, w) = sys C_minute w; (second, w) = sys C_second w
      in (0, tell sys (P_time hour minute second) w))"

definition register_names :: "string list" where
  "register_names =
     [''rax'', ''rbx'', ''rcx'', ''rdx'', ''rbp'', ''rdi'', ''rsi'', ''r8 '', ''r9 '', ''r10'', ''r11'', ''r12'', ''r13'', ''r14'',
      ''r15'', ''rsp'', ''rip'', ''rflags'']"

text \<open>
  The status of the call is kept in a byte; \<open>registers\<close> is what the call has left in the array
  of the caller. \<open>%x\<close> takes an \<open>int\<close>: the upper half of a register is lost.
\<close>

fun regs_loop :: "'w csys \<Rightarrow> string list \<Rightarrow> u64 list \<Rightarrow> 'w \<Rightarrow> 'w option" where
  "regs_loop sys [] rs w = Some w"
| "regs_loop sys (name # names) [] w = None"
| "regs_loop sys (name # names) (r # rs) w =
     regs_loop sys names rs (tell sys (P_register name (sint (ucast r :: 32 word))) w)"

definition regs :: "'w csys \<Rightarrow> ('w \<Rightarrow> u64 list) \<Rightarrow> 'w \<Rightarrow> (int \<times> 'w) option" where
  "regs sys registers w =
     (let (aux, w) = sys C_register_snapshot w
      in if (of_int aux :: u8) = 0 then Some (1, tell sys P_no_snapshot w)
         else do {
           w' \<leftarrow> regs_loop sys register_names (registers w) (tell sys P_snapshot w);
           Some (0, w')
         })"

text \<open>One instruction each, which raises the exception.\<close>

definition divzero :: "'w csys \<Rightarrow> 'w \<Rightarrow> int \<times> 'w" where
  "divzero sys w = (0, snd (sys C_divzero w))"

definition invop :: "'w csys \<Rightarrow> 'w \<Rightarrow> int \<times> 'w" where
  "invop sys w = (0, snd (sys C_invalidopcode w))"

section \<open>Filters\<close>

definition IS_VOCAL :: "int \<Rightarrow> bool" where
  "IS_VOCAL c \<longleftrightarrow> c \<in> {97, 101, 105, 111, 117, 65, 69, 73, 79, 85}"

definition PIPE_END_OF_INPUT :: int where "PIPE_END_OF_INPUT = 4"
definition PIPE_READ_ERROR :: int where "PIPE_READ_ERROR = -1"

fun cat_loop :: "'w csys \<Rightarrow> nat list \<Rightarrow> cstring list \<Rightarrow> 'w \<Rightarrow> 'w option" where
  "cat_loop sys [] argv w = Some w"
| "cat_loop sys (i # is) argv w = do { a \<leftarrow> arg argv i; cat_loop sys is argv (tell sys (P_word a) w) }"

definition cat :: "'w csys \<Rightarrow> nat \<Rightarrow> cstring list \<Rightarrow> 'w \<Rightarrow> (int \<times> 'w) option" where
  "cat sys argc argv w = do { w \<leftarrow> cat_loop sys [1..<argc] argv w; Some (0, tell sys P_newline w) }"

partial_function (option) wc_loop :: "'w csys \<Rightarrow> int \<Rightarrow> 'w \<Rightarrow> (int \<times> 'w) option" where
  "wc_loop sys lines w =
     (case sys C_getchar w of (c, w) \<Rightarrow>
        if c = PIPE_END_OF_INPUT \<or> c = PIPE_READ_ERROR then Some (lines, w)
        else wc_loop sys (if c = 10 then lines + 1 else lines) w)"

definition wc :: "'w csys \<Rightarrow> 'w \<Rightarrow> (int \<times> 'w) option" where
  "wc sys w = do { (lines, w) \<leftarrow> wc_loop sys 0 w; Some (0, tell sys (P_lines lines) w) }"

fun filter_string :: "'w csys \<Rightarrow> cstring \<Rightarrow> 'w \<Rightarrow> 'w option" where
  "filter_string sys [] w = None"
| "filter_string sys (c # str) w =
     (if c = 0 then Some w
      else filter_string sys str (if \<not> IS_VOCAL (uint c) then snd (sys (C_putchar c) w) else w))"

fun filter_args :: "'w csys \<Rightarrow> nat list \<Rightarrow> nat \<Rightarrow> cstring list \<Rightarrow> 'w \<Rightarrow> 'w option" where
  "filter_args sys [] argc argv w = Some w"
| "filter_args sys (i # is) argc argv w = do {
     str \<leftarrow> arg argv i;
     w \<leftarrow> filter_string sys str w;
     filter_args sys is argc argv (if i < argc - 1 then snd (sys (C_putchar 32) w) else w)
   }"

partial_function (option) filter_loop :: "'w csys \<Rightarrow> 'w \<Rightarrow> 'w option" where
  "filter_loop sys w =
     (case sys C_getchar w of (c, w) \<Rightarrow>
        if c = PIPE_END_OF_INPUT then Some (snd (sys (C_putchar 10) w))
        else if c = PIPE_READ_ERROR then Some w
        else filter_loop sys (if \<not> IS_VOCAL c then snd (sys (C_putchar (of_int c)) w) else w))"

definition filter_cmd :: "'w csys \<Rightarrow> nat \<Rightarrow> cstring list \<Rightarrow> 'w \<Rightarrow> (int \<times> 'w) option" where
  "filter_cmd sys argc argv w = do {
     w \<leftarrow> (if 1 < argc then filter_args sys [1..<argc] argc argv w else filter_loop sys w);
     Some (0, w)
   }"

section \<open>Readers and writers\<close>

definition MVAR_MAX_WRITERS :: int where "MVAR_MAX_WRITERS = 10"
definition MVAR_MAX_READERS :: int where "MVAR_MAX_READERS = 10"

text \<open>The digits of the run number, the least significant one first, at most ten.\<close>

fun name_digits :: "nat \<Rightarrow> u32 \<Rightarrow> u8 list" where
  "name_digits 0 v = []"
| "name_digits (Suc n) v = (ucast (v mod 10) + 48) # (if v div 10 \<noteq> 0 then name_digits n (v div 10) else [])"

text \<open>\<open>mvar_build_name\<close>: what it writes to the array of \<open>dest_len\<close> bytes, its terminator included.\<close>

definition mvar_build_name :: "nat \<Rightarrow> u8 list \<Rightarrow> u32 \<Rightarrow> u8 list" where
  "mvar_build_name dest_len prefix run_id =
     (if dest_len = 0 then []
      else
        let pre = take (dest_len - 1) prefix
        in if dest_len - 1 \<le> length pre then pre @ [0]
           else take (dest_len - 1) (pre @ rev (name_digits 10 run_id)) @ [0])"

definition writer_id :: "nat \<Rightarrow> u8" where
  "writer_id i = [65, 66, 67, 68, 69, 70, 71, 72, 73, 74] ! i"

definition reader_id :: "nat \<Rightarrow> u8" where
  "reader_id i = [49, 50, 51, 52, 53, 54, 55, 56, 57, 48] ! i"

definition writer_argv :: "cstring \<Rightarrow> cstring \<Rightarrow> nat \<Rightarrow> cstring list" where
  "writer_argv empty_name full_name i =
     [bytes_of ''mvar_writer_'' @ [writer_id i, 0], [writer_id i, 0], empty_name, full_name]"

definition reader_argv :: "cstring \<Rightarrow> cstring \<Rightarrow> nat \<Rightarrow> cstring list" where
  "reader_argv empty_name full_name i =
     [bytes_of ''mvar_reader_'' @ [reader_id i, 0], [reader_id i, 0], empty_name, full_name]"

fun create_writers :: "'w csys \<Rightarrow> cstring \<Rightarrow> cstring \<Rightarrow> nat list \<Rightarrow> 'w \<Rightarrow> 'w" where
  "create_writers sys en fn [] w = w"
| "create_writers sys en fn (i # is) w =
     (case sys (C_create_writer (writer_argv en fn i)) w of (pid, w) \<Rightarrow>
        create_writers sys en fn is (if pid < 0 then tell sys (P_no_writer i) w else w))"

fun create_readers :: "'w csys \<Rightarrow> cstring \<Rightarrow> cstring \<Rightarrow> nat list \<Rightarrow> 'w \<Rightarrow> 'w" where
  "create_readers sys en fn [] w = w"
| "create_readers sys en fn (i # is) w =
     (case sys (C_create_reader (reader_argv en fn i)) w of (pid, w) \<Rightarrow>
        create_readers sys en fn is (if pid < 0 then tell sys (P_no_reader i) w else w))"

text \<open>
  \<open>mvar\<close> with the static run counter. A semaphore that could not be opened is the pointer -1,
  not the null pointer the code tests for.
\<close>

definition mvar :: "'w csys \<Rightarrow> nat \<Rightarrow> cstring list \<Rightarrow> u32 \<Rightarrow> 'w \<Rightarrow> (int \<times> u32 \<times> 'w) option" where
  "mvar sys argc argv run_counter w =
     (if argc < 3 then Some (1, run_counter, tell sys P_usage w)
      else do {
        a \<leftarrow> arg argv 1;
        b \<leftarrow> arg argv 2;
        writers \<leftarrow> atoi a;
        readers \<leftarrow> atoi b;
        if writers \<le> 0 \<or> readers \<le> 0 then Some (1, run_counter, tell sys P_not_both_positive w)
        else
          let empty_name = mvar_build_name 32 (bytes_of ''mvar_empty_'') run_counter;
              full_name = mvar_build_name 32 (bytes_of ''mvar_full_'') run_counter;
              (empty_sem, w) = sys (C_sem_open empty_name 1 1) w;
              (full_sem, w) = sys (C_sem_open full_name 0 1) w
          in if empty_sem = 0 \<or> full_sem = 0 then Some (1, run_counter + 1, tell sys P_no_semaphores w)
             else if MVAR_MAX_WRITERS < writers \<or> MVAR_MAX_READERS < readers
             then Some (1, run_counter + 1, tell sys P_too_many w)
             else
               let w = create_writers sys empty_name full_name [0..<nat writers] w;
                   w = create_readers sys empty_name full_name [0..<nat readers] w
               in Some (0, run_counter + 1, w)
      })"

text \<open>\<open>testprocesses\<close> starts its test only with a number of processes from 1 to 26.\<close>

lemma testprocesses_count:
  assumes "length argv = 2" and "atoi (argv ! 1) = Some n"
  shows "testprocesses sys 2 argv w =
    Some (if 1 \<le> n \<and> n \<le> 26 then sys (C_test_processes 1 (Some (tl argv))) w else (-1, tell sys P_bad_count w))"
proof -
  obtain a b where "argv = [a, b]" using assms(1) by (auto simp: numeral_2_eq_2 length_Suc_conv)
  then show ?thesis
    using assms(2) by (auto simp: testprocesses_def check_processes_def adjust_test_args_def arg_def)
qed

text \<open>\<open>regs\<close> shows every register the kernel has written, and nothing when there is no snapshot.\<close>

lemma regs_loop_total:
  "length names \<le> length rs \<Longrightarrow> \<exists>w'. regs_loop sys names rs w = Some w'"
  by (induction sys names rs w rule: regs_loop.induct) auto

lemma regs_total:
  assumes "sys C_register_snapshot w = (aux, w1)" and "aux = 0 \<or> aux = 1 \<and> length (registers w1) = 18"
  shows "\<exists>w'. regs sys registers w = Some (1 - aux, w')"
  using assms regs_loop_total [of register_names "registers w1" sys "tell sys P_snapshot w1"]
  by (auto simp: regs_def register_names_def)

end
