(* ===== verification/Mvar.thy ===== *)
theory Mvar
  imports Commands
begin

text \<open>
  The readers and writers that \<open>mvar\<close> starts (\<open>mvar_writer\<close> and \<open>mvar_reader\<close> of
  \<open>Userland/Shell/commands.c\<close>), as a state machine over the abstract semaphores of
  \<open>Sem_Spec\<close>, which the semaphores of the kernel refine. A turn of a process is what it does
  between two points at which another process may run; any order of turns may happen.
\<close>

section \<open>The machine\<close>

datatype role = Writer u8 | Reader u8

text \<open>
  Where a process is: asleep before its wait, in line at the semaphore, past the wait, with
  the value it has read, or about to post.
\<close>

datatype place = Asleep | InLine | Granted | Holding u8 | Finished

record mvar_state =
  mv_sems :: sem_state
  mvar_var :: u8
  mv_place :: "addr \<Rightarrow> place"
  mv_written :: "u8 list"
  mv_printed :: "(u8 \<times> u8) list"

definition wait_turn :: "addr \<Rightarrow> addr \<Rightarrow> mvar_state \<Rightarrow> mvar_state" where
  "wait_turn s p st =
     st\<lparr>mv_sems := sem_step (Wait s p) (mv_sems st),
        mv_place := (mv_place st)(p := if 0 < fst (mv_sems st) s then Granted else InLine)\<rparr>"

text \<open>A post lets the first process in line pass its wait.\<close>

definition post_turn :: "addr \<Rightarrow> addr \<Rightarrow> mvar_state \<Rightarrow> mvar_state" where
  "post_turn s p st =
     st\<lparr>mv_sems := sem_step (Post s) (mv_sems st),
        mv_place := (case snd (mv_sems st) s of
                       [] \<Rightarrow> (mv_place st)(p := Asleep)
                     | q # _ \<Rightarrow> (mv_place st)(p := Asleep, q := Granted))\<rparr>"

definition writer_turn :: "addr \<Rightarrow> addr \<Rightarrow> u8 \<Rightarrow> addr \<Rightarrow> mvar_state \<Rightarrow> mvar_state" where
  "writer_turn empty_sem full_sem ident p st =
     (case mv_place st p of
        Asleep \<Rightarrow> wait_turn empty_sem p st
      | Granted \<Rightarrow> st\<lparr>mvar_var := ident, mv_written := mv_written st @ [ident], mv_place := (mv_place st)(p := Finished)\<rparr>
      | Finished \<Rightarrow> post_turn full_sem p st
      | _ \<Rightarrow> st)"

definition reader_turn :: "addr \<Rightarrow> addr \<Rightarrow> u8 \<Rightarrow> addr \<Rightarrow> mvar_state \<Rightarrow> mvar_state" where
  "reader_turn empty_sem full_sem ident p st =
     (case mv_place st p of
        Asleep \<Rightarrow> wait_turn full_sem p st
      | Granted \<Rightarrow> st\<lparr>mv_place := (mv_place st)(p := Holding (mvar_var st))\<rparr>
      | Holding v \<Rightarrow> st\<lparr>mv_printed := mv_printed st @ [(ident, v)], mv_place := (mv_place st)(p := Finished)\<rparr>
      | Finished \<Rightarrow> post_turn empty_sem p st
      | InLine \<Rightarrow> st)"

definition mvar_turn :: "addr \<Rightarrow> addr \<Rightarrow> (addr \<rightharpoonup> role) \<Rightarrow> addr \<Rightarrow> mvar_state \<Rightarrow> mvar_state" where
  "mvar_turn empty_sem full_sem roles p st =
     (case roles p of
        None \<Rightarrow> st
      | Some (Writer c) \<Rightarrow> writer_turn empty_sem full_sem c p st
      | Some (Reader c) \<Rightarrow> reader_turn empty_sem full_sem c p st)"

text \<open>The state \<open>mvar\<close> starts them in: the first semaphore has the value 1, the second 0.\<close>

definition mvar_start :: "addr \<Rightarrow> addr \<Rightarrow> mvar_state" where
  "mvar_start empty_sem full_sem =
     \<lparr>mv_sems = ((\<lambda>_. 0)(empty_sem := 1, full_sem := 0), \<lambda>_. []), mvar_var = 0, mv_place = (\<lambda>_. Asleep),
      mv_written = [], mv_printed = []\<rparr>"

definition mvar_run :: "addr \<Rightarrow> addr \<Rightarrow> (addr \<rightharpoonup> role) \<Rightarrow> addr list \<Rightarrow> mvar_state \<Rightarrow> mvar_state" where
  "mvar_run empty_sem full_sem roles schedule st = fold (mvar_turn empty_sem full_sem roles) schedule st"

section \<open>Invariant\<close>

text \<open>
  There is one token: it is the value of one of the semaphores, or one process has it, and
  where it is decides whether the variable holds a value nobody has printed yet.
\<close>

datatype token = On_empty | On_full | At addr

definition is_writer :: "(addr \<rightharpoonup> role) \<Rightarrow> addr \<Rightarrow> bool" where
  "is_writer roles p \<longleftrightarrow> (\<exists>c. roles p = Some (Writer c))"

definition is_reader :: "(addr \<rightharpoonup> role) \<Rightarrow> addr \<Rightarrow> bool" where
  "is_reader roles p \<longleftrightarrow> (\<exists>c. roles p = Some (Reader c))"

definition resting :: "place \<Rightarrow> bool" where
  "resting x \<longleftrightarrow> x = Asleep \<or> x = InLine"

text \<open>The values written and not yet printed, as the place of the token tells.\<close>

definition unread :: "(addr \<rightharpoonup> role) \<Rightarrow> token \<Rightarrow> mvar_state \<Rightarrow> u8 list" where
  "unread roles t st =
     (case t of
        On_empty \<Rightarrow> []
      | On_full \<Rightarrow> [mvar_var st]
      | At p \<Rightarrow>
          if is_writer roles p then if mv_place st p = Finished then [mvar_var st] else []
          else (case mv_place st p of Granted \<Rightarrow> [mvar_var st] | Holding v \<Rightarrow> [v] | _ \<Rightarrow> []))"

definition line_of :: "(addr \<rightharpoonup> role) \<Rightarrow> mvar_state \<Rightarrow> addr \<Rightarrow> (addr \<Rightarrow> bool) \<Rightarrow> bool" where
  "line_of roles st s kind \<longleftrightarrow> distinct (snd (mv_sems st) s) \<and> (\<forall>q\<in>set (snd (mv_sems st) s). mv_place st q = InLine \<and> kind q)"

definition token_at :: "addr \<Rightarrow> addr \<Rightarrow> (addr \<rightharpoonup> role) \<Rightarrow> token \<Rightarrow> mvar_state \<Rightarrow> bool" where
  "token_at e f roles t st \<longleftrightarrow>
     fst (mv_sems st) e = (if t = On_empty then 1 else 0) \<and> fst (mv_sems st) f = (if t = On_full then 1 else 0) \<and>
     (\<forall>p. t = At p \<longrightarrow> \<not> resting (mv_place st p) \<and> roles p \<noteq> None) \<and>
     (\<forall>q. t \<noteq> At q \<longrightarrow> resting (mv_place st q)) \<and>
     (\<forall>p v. is_writer roles p \<longrightarrow> mv_place st p \<noteq> Holding v) \<and>
     line_of roles st e (is_writer roles) \<and> line_of roles st f (is_reader roles) \<and>
     (t = On_empty \<longrightarrow> snd (mv_sems st) e = []) \<and> (t = On_full \<longrightarrow> snd (mv_sems st) f = []) \<and>
     mv_written st = map snd (mv_printed st) @ unread roles t st"

lemma token_atD:
  assumes "token_at e f roles t st"
  shows "fst (mv_sems st) e = (if t = On_empty then 1 else 0)" "fst (mv_sems st) f = (if t = On_full then 1 else 0)"
    "t = At p \<Longrightarrow> \<not> resting (mv_place st p)" "t = At p \<Longrightarrow> roles p \<noteq> None" "t \<noteq> At q \<Longrightarrow> resting (mv_place st q)"
    "is_writer roles p \<Longrightarrow> mv_place st p \<noteq> Holding v" "line_of roles st e (is_writer roles)" "line_of roles st f (is_reader roles)"
    "t = On_empty \<Longrightarrow> snd (mv_sems st) e = []" "t = On_full \<Longrightarrow> snd (mv_sems st) f = []"
    "mv_written st = map snd (mv_printed st) @ unread roles t st"
  using assms unfolding token_at_def by blast+

lemma role_cases: "is_writer roles p \<Longrightarrow> \<not> is_reader roles p"
  by (auto simp: is_writer_def is_reader_def)

text \<open>A line that changes only by the processes that join or leave it.\<close>

lemma line_of_place:
  "line_of roles st s kind \<Longrightarrow> snd (mv_sems st') s = snd (mv_sems st) s \<Longrightarrow>
   \<forall>q\<in>set (snd (mv_sems st) s). mv_place st' q = mv_place st q \<Longrightarrow> line_of roles st' s kind"
  by (simp add: line_of_def)

lemma wait_granted:
  assumes t: "token_at e f roles t st" and ef: "e \<noteq> f" and p: "mv_place st p = Asleep" "roles p \<noteq> None"
    and s: "s = e \<and> t = On_empty \<and> is_writer roles p \<or> s = f \<and> t = On_full \<and> is_reader roles p"
  shows "token_at e f roles (At p) (wait_turn s p st)"
proof -
  note d = token_atD [OF t]
  have v: "fst (mv_sems st) s = 1" using s d(1,2) by auto
  obtain vs ws where sems: "mv_sems st = (vs, ws)" by (cases "mv_sems st")
  let ?st = "wait_turn s p st"
  have q: "mv_sems ?st = (vs(s := 0), ws)" "mv_place ?st = (mv_place st)(p := Granted)"
    using v sems by (simp_all add: wait_turn_def)
  have np: "\<forall>q\<in>set (ws e). q \<noteq> p" "\<forall>q\<in>set (ws f). q \<noteq> p" using d(7,8) p(1) sems by (auto simp: line_of_def)
  have "line_of roles ?st e (is_writer roles)" "line_of roles ?st f (is_reader roles)"
    by (rule line_of_place [OF d(7)], use q sems np in auto, rule line_of_place [OF d(8)], use q sems np in auto)
  moreover have "unread roles (At p) ?st = unread roles t st"
    using s q role_cases [of roles p] by (auto simp: unread_def wait_turn_def)
  moreover have "mv_written ?st = mv_written st" "mv_printed ?st = mv_printed st" by (simp_all add: wait_turn_def)
  moreover have "\<not> resting (mv_place ?st p)" "\<forall>q. At p \<noteq> At q \<longrightarrow> resting (mv_place ?st q)"
    using q d(5) s by (auto simp: resting_def)
  moreover have "fst (mv_sems ?st) e = 0" "fst (mv_sems ?st) f = 0" using s q d(1,2) sems by auto
  moreover have "\<forall>x v. is_writer roles x \<longrightarrow> mv_place ?st x \<noteq> Holding v" using q d(6) by auto
  ultimately show ?thesis using d(11) p(2) unfolding token_at_def by auto
qed

lemma wait_in_line:
  assumes t: "token_at e f roles t st" and ef: "e \<noteq> f" and p: "mv_place st p = Asleep" "roles p \<noteq> None"
    and s: "s = e \<and> t \<noteq> On_empty \<and> is_writer roles p \<or> s = f \<and> t \<noteq> On_full \<and> is_reader roles p"
  shows "token_at e f roles t (wait_turn s p st)"
proof -
  note d = token_atD [OF t]
  have v: "fst (mv_sems st) s = 0" using s d(1,2) by auto
  obtain vs ws where sems: "mv_sems st = (vs, ws)" by (cases "mv_sems st")
  let ?st = "wait_turn s p st"
  have q: "mv_sems ?st = (vs, ws(s := ws s @ [p]))" "mv_place ?st = (mv_place st)(p := InLine)"
    using v sems by (simp_all add: wait_turn_def)
  have np: "p \<notin> set (ws e)" "p \<notin> set (ws f)" using d(7,8) p(1) sems by (auto simp: line_of_def)
  have tp: "t \<noteq> At p" using d(3) p(1) by (auto simp: resting_def)
  have "line_of roles ?st e (is_writer roles)" "line_of roles ?st f (is_reader roles)"
    using d(7,8) s np q sems ef by (auto simp: line_of_def)
  moreover have "unread roles t ?st = unread roles t st"
    using tp q by (auto simp: unread_def wait_turn_def split: token.split place.split)
  moreover have "mv_written ?st = mv_written st" "mv_printed ?st = mv_printed st" by (simp_all add: wait_turn_def)
  moreover have "\<forall>x. t = At x \<longrightarrow> \<not> resting (mv_place ?st x) \<and> roles x \<noteq> None" using q tp d(3,4) by auto
  moreover have "\<forall>x. t \<noteq> At x \<longrightarrow> resting (mv_place ?st x)" using q d(5) by (auto simp: resting_def)
  moreover have "\<forall>x v. is_writer roles x \<longrightarrow> mv_place ?st x \<noteq> Holding v" using q d(6) by auto
  moreover have "t = On_empty \<longrightarrow> snd (mv_sems ?st) e = []" "t = On_full \<longrightarrow> snd (mv_sems ?st) f = []"
    using s q sems d(9,10) ef by auto
  moreover have "fst (mv_sems ?st) = fst (mv_sems st)" using q sems by simp
  ultimately show ?thesis using d(1,2,11) unfolding token_at_def by auto
qed

text \<open>The process that has the token passes it on with its post.\<close>

lemma post_passes_token:
  assumes t: "token_at e f roles (At p) st" and ef: "e \<noteq> f" and p: "mv_place st p = Finished"
    and s: "s = f \<and> is_writer roles p \<or> s = e \<and> is_reader roles p"
  shows "\<exists>t'. token_at e f roles t' (post_turn s p st)"
proof -
  note d = token_atD [OF t]
  obtain vs ws where sems: "mv_sems st = (vs, ws)" by (cases "mv_sems st")
  have v: "vs e = 0" "vs f = 0" using d(1,2) sems by simp_all
  have np: "p \<notin> set (ws e)" "p \<notin> set (ws f)" using d(7,8) p sems by (auto simp: line_of_def)
  have lines: "distinct (ws e)" "\<forall>q\<in>set (ws e). mv_place st q = InLine \<and> is_writer roles q"
    "distinct (ws f)" "\<forall>q\<in>set (ws f). mv_place st q = InLine \<and> is_reader roles q"
    using d(7,8) sems by (simp_all add: line_of_def)
  have rest: "\<forall>q. q \<noteq> p \<longrightarrow> resting (mv_place st q)" using d(5) by auto
  have un: "unread roles (At p) st = (if s = f then [mvar_var st] else [])"
    using p s role_cases [of roles p] ef by (auto simp: unread_def)
  let ?st = "post_turn s p st"
  have same: "mv_written ?st = mv_written st" "mv_printed ?st = mv_printed st" "mvar_var ?st = mvar_var st" by (simp_all add: post_turn_def)
  show ?thesis
  proof (cases "ws s")
    case Nil
    let ?t = "if s = f then On_full else On_empty"
    have q: "mv_sems ?st = (vs(s := vs s + 1), ws)" "mv_place ?st = (mv_place st)(p := Asleep)"
      using Nil sems by (simp_all add: post_turn_def)
    have "token_at e f roles ?t ?st"
      using s v q sems Nil lines np rest un same d(6,11) ef
      unfolding token_at_def line_of_def by (auto simp: unread_def resting_def)
    then show ?thesis ..
  next
    case (Cons x xs)
    have q: "mv_sems ?st = (vs, ws(s := xs))" "mv_place ?st = (mv_place st)(p := Asleep, x := Granted)"
      using Cons sems by (simp_all add: post_turn_def)
    have xs: "x \<notin> set xs" "mv_place st x = InLine" "x \<noteq> p" "s = f \<Longrightarrow> is_reader roles x" "s = e \<Longrightarrow> is_writer roles x"
      using s Cons lines np by auto
    then have other: "x \<notin> set ((ws(s := xs)) e)" "x \<notin> set ((ws(s := xs)) f)" 
      using s lines ef role_cases by auto
    have sub: "set ((ws(s := xs)) e) \<subseteq> set (ws e)" "set ((ws(s := xs)) f) \<subseteq> set (ws f)"
      "distinct ((ws(s := xs)) e)" "distinct ((ws(s := xs)) f)"
      using Cons lines(1,3) by auto
    have l: "line_of roles ?st e (is_writer roles)" "line_of roles ?st f (is_reader roles)"
      using q other sub lines np unfolding line_of_def by auto
    have r: "roles x \<noteq> None" using xs(4,5) s by (auto simp: is_reader_def is_writer_def)
    have u: "unread roles (At x) ?st = unread roles (At p) st"
      using un q xs(4,5) s role_cases [of roles x] ef same by (auto simp: unread_def)
    have "token_at e f roles (At x) ?st"
      using v q rest d(6) xs(3) r l u same d(11)
      unfolding token_at_def by (auto simp: resting_def)
    then show ?thesis ..
  qed
qed

lemma place_cases_token:
  assumes "token_at e f roles t st" and "\<not> resting (mv_place st p)"
  shows "t = At p"
  using token_atD(5) [OF assms(1)] assms(2) by blast

text \<open>A turn that only changes the place of the process with the token.\<close>

lemma move_token:
  assumes t: "token_at e f roles (At p) st" and st': "mv_sems st' = mv_sems st" "mv_place st' = (mv_place st)(p := x)"
    and x: "\<not> resting x" "is_writer roles p \<Longrightarrow> \<forall>v. x \<noteq> Holding v"
    and w: "mv_written st' = map snd (mv_printed st') @ unread roles (At p) st'"
  shows "token_at e f roles (At p) st'"
proof -
  note d = token_atD [OF t]
  have np: "p \<notin> set (snd (mv_sems st) e)" "p \<notin> set (snd (mv_sems st) f)"
    using d(3,7,8) by (auto simp: line_of_def resting_def)
  have "line_of roles st' e (is_writer roles)" "line_of roles st' f (is_reader roles)"
    by (rule line_of_place [OF d(7)], use st' np in auto, rule line_of_place [OF d(8)], use st' np in auto)
  then show ?thesis using d(1,2,4-6) st' x w unfolding token_at_def by auto
qed

lemma writer_turn_token:
  assumes t: "token_at e f roles t st" and ef: "e \<noteq> f" and r: "roles p = Some (Writer c)"
  shows "\<exists>t'. token_at e f roles t' (writer_turn e f c p st)"
proof -
  note d = token_atD [OF t]
  have w: "is_writer roles p" "roles p \<noteq> None" using r by (simp_all add: is_writer_def)
  show ?thesis
  proof (cases "mv_place st p")
    case Asleep
    then show ?thesis
      using wait_granted [OF t ef Asleep w(2), of e] wait_in_line [OF t ef Asleep w(2), of e] w(1)
      by (cases "t = On_empty") (auto simp: writer_turn_def)
  next
    case Granted
    then have at: "t = At p" using place_cases_token [OF t] by (simp add: resting_def)
    let ?st = "st\<lparr>mvar_var := c, mv_written := mv_written st @ [c], mv_place := (mv_place st)(p := Finished)\<rparr>"
    have "token_at e f roles (At p) ?st"
      by (rule move_token [OF t [unfolded at], of _ Finished])
        (use d(11) at Granted w(1) in \<open>simp_all add: resting_def unread_def\<close>)
    then show ?thesis using Granted by (auto simp: writer_turn_def)
  next
    case Finished
    then have at: "t = At p" using place_cases_token [OF t] by (simp add: resting_def)
    show ?thesis using post_passes_token [OF t [unfolded at] ef Finished, of f] w(1) Finished by (simp add: writer_turn_def)
  next
    case (Holding v)
    then show ?thesis using d(6) [OF w(1)] by blast
  next
    case InLine
    then show ?thesis using t by (auto simp: writer_turn_def)
  qed
qed

lemma reader_turn_token:
  assumes t: "token_at e f roles t st" and ef: "e \<noteq> f" and r: "roles p = Some (Reader c)"
  shows "\<exists>t'. token_at e f roles t' (reader_turn e f c p st)"
proof -
  note d = token_atD [OF t]
  have w: "is_reader roles p" "\<not> is_writer roles p" "roles p \<noteq> None" using r by (simp_all add: is_reader_def is_writer_def)
  show ?thesis
  proof (cases "mv_place st p")
    case Asleep
    then show ?thesis
      using wait_granted [OF t ef Asleep w(3), of f] wait_in_line [OF t ef Asleep w(3), of f] w(1)
      by (cases "t = On_full") (auto simp: reader_turn_def)
  next
    case Granted
    then have at: "t = At p" using place_cases_token [OF t] by (simp add: resting_def)
    let ?st = "st\<lparr>mv_place := (mv_place st)(p := Holding (mvar_var st))\<rparr>"
    have "token_at e f roles (At p) ?st"
      by (rule move_token [OF t [unfolded at], of _ "Holding (mvar_var st)"])
        (use d(11) at Granted w(2) in \<open>simp_all add: resting_def unread_def\<close>)
    then show ?thesis using Granted by (auto simp: reader_turn_def)
  next
    case (Holding v)
    then have at: "t = At p" using place_cases_token [OF t] by (simp add: resting_def)
    let ?st = "st\<lparr>mv_printed := mv_printed st @ [(c, v)], mv_place := (mv_place st)(p := Finished)\<rparr>"
    have "token_at e f roles (At p) ?st"
      by (rule move_token [OF t [unfolded at], of _ Finished])
        (use d(11) at Holding w(2) in \<open>simp_all add: resting_def unread_def\<close>)
    then show ?thesis using Holding by (auto simp: reader_turn_def)
  next
    case Finished
    then have at: "t = At p" using place_cases_token [OF t] by (simp add: resting_def)
    show ?thesis using post_passes_token [OF t [unfolded at] ef Finished, of e] w(1) Finished by (simp add: reader_turn_def)
  next
    case InLine
    then show ?thesis using t by (auto simp: reader_turn_def)
  qed
qed

lemma run_token:
  assumes "token_at e f roles t st" and "e \<noteq> f"
  shows "\<exists>t'. token_at e f roles t' (mvar_run e f roles schedule st)"
  using assms(1)
proof (induction schedule arbitrary: t st)
  case (Cons p ps)
  have "\<exists>t'. token_at e f roles t' (mvar_turn e f roles p st)"
    using writer_turn_token [OF Cons.prems assms(2), of p] reader_turn_token [OF Cons.prems assms(2), of p] Cons.prems
    by (auto simp: mvar_turn_def split: option.split role.split)
  then show ?case using Cons.IH by (auto simp: mvar_run_def)
qed (auto simp: mvar_run_def)

lemma token_start: "e \<noteq> f \<Longrightarrow> token_at e f roles On_empty (mvar_start e f)"
  by (simp add: token_at_def mvar_start_def line_of_def resting_def unread_def)

section \<open>Properties\<close>

text \<open>
  C34. What the readers print is what the writers write, each value once and in the order of
  the writes: for any number of readers and writers and any order of their turns, the values
  printed are the values written, or all but the last one, which is then the one in the
  variable or in the hands of a reader. No value is lost or overwritten before it is read.
\<close>

theorem mvar_reads_each_write_once:
  assumes "empty_sem \<noteq> full_sem"
  shows "\<exists>rest. mv_written (mvar_run empty_sem full_sem roles schedule (mvar_start empty_sem full_sem)) =
      map snd (mv_printed (mvar_run empty_sem full_sem roles schedule (mvar_start empty_sem full_sem))) @ rest \<and>
    length rest \<le> 1"
proof -
  let ?st = "mvar_run empty_sem full_sem roles schedule (mvar_start empty_sem full_sem)"
  obtain t where t: "token_at empty_sem full_sem roles t ?st"
    using run_token [OF token_start [OF assms] assms] by blast
  have "length (unread roles t ?st) \<le> 1" by (auto simp: unread_def split: token.split place.split)
  then show ?thesis using token_atD(11) [OF t] by blast
qed

theorem mvar_reads_each_write_once_witness:
  "mv_printed (mvar_run 1 2 [11 \<mapsto> Writer 65, 12 \<mapsto> Writer 66, 21 \<mapsto> Reader 49]
      [11, 12, 21, 11, 11, 12, 21, 21, 21, 12, 12] (mvar_start 1 2)) = [(49, 65)] \<and>
   (\<exists>rest. mv_written (mvar_run 1 2 [11 \<mapsto> Writer 65, 12 \<mapsto> Writer 66, 21 \<mapsto> Reader 49]
      [11, 12, 21, 11, 11, 12, 21, 21, 21, 12, 12] (mvar_start 1 2)) =
      map snd (mv_printed (mvar_run 1 2 [11 \<mapsto> Writer 65, 12 \<mapsto> Writer 66, 21 \<mapsto> Reader 49]
      [11, 12, 21, 11, 11, 12, 21, 21, 21, 12, 12] (mvar_start 1 2))) @ rest \<and> length rest \<le> 1)"
proof
  show "mv_printed (mvar_run 1 2 [11 \<mapsto> Writer 65, 12 \<mapsto> Writer 66, 21 \<mapsto> Reader 49]
      [11, 12, 21, 11, 11, 12, 21, 21, 21, 12, 12] (mvar_start 1 2)) = [(49, 65)]"
    by (simp add: mvar_run_def mvar_start_def mvar_turn_def writer_turn_def reader_turn_def wait_turn_def post_turn_def)
qed (rule mvar_reads_each_write_once, simp)

end
