(* ===== verification/Packer.thy ===== *)
theory Packer
  imports Prelude
begin

unbundle bit_operations_syntax

text \<open>
  The build tool that appends the user modules to the kernel
  (\<open>Toolchain/ModulePacker/main.c\<close>): its options, the check of the files, and the image. A
  file system maps the names of the readable files to their bytes. What the tool is called
  with is the sequence of keys the option parser of the C library hands to \<open>parse_opt\<close>;
  \<open>creatable\<close> says which files can be opened for writing. \<open>None\<close> is undefined behaviour: an
  array indexed out of bounds, a stream that was not opened, and also a target that is one of
  the sources.
\<close>

type_synonym file_system = "string \<rightharpoonup> u8 list"

section \<open>Options\<close>

definition MAX_FILES :: nat where "MAX_FILES = 128"
definition BUFFER_SIZE :: nat where "BUFFER_SIZE = 128"
definition OUTPUT_FILE :: string where "OUTPUT_FILE = ''packedKernel.bin''"

record arguments =
  arg_files :: "string option list"
  arg_output_file :: string
  arg_count :: nat

datatype argp_key = Key_o string | ARGP_KEY_ARG nat string | ARGP_KEY_END nat | Key_other

text \<open>\<open>argp_usage\<close> does not return.\<close>

datatype parse_result = Parsed arguments | ARGP_ERR_UNKNOWN | Usage_Exit

definition parse_opt :: "argp_key \<Rightarrow> arguments \<Rightarrow> parse_result option" where
  "parse_opt key a =
     (case key of
        Key_o f \<Rightarrow> Some (Parsed (a\<lparr>arg_output_file := f\<rparr>))
      | ARGP_KEY_ARG arg_num f \<Rightarrow>
          if arg_num < length (arg_files a)
          then Some (Parsed (a\<lparr>arg_files := (arg_files a)[arg_num := Some f]\<rparr>))
          else None
      | ARGP_KEY_END arg_num \<Rightarrow>
          if arg_num < 1 then Some Usage_Exit else Some (Parsed (a\<lparr>arg_count := arg_num\<rparr>))
      | Key_other \<Rightarrow> Some ARGP_ERR_UNKNOWN)"

text \<open>A key the parser does not know is skipped; \<open>Some None\<close> is the exit with the usage message.\<close>

fun argp_parse :: "argp_key list \<Rightarrow> arguments \<Rightarrow> arguments option option" where
  "argp_parse [] a = Some (Some a)"
| "argp_parse (key # keys) a = do {
     r \<leftarrow> parse_opt key a;
     (case r of
        Parsed a \<Rightarrow> argp_parse keys a
      | ARGP_ERR_UNKNOWN \<Rightarrow> argp_parse keys a
      | Usage_Exit \<Rightarrow> Some None)
   }"

section \<open>The image\<close>

text \<open>Integers are written as they are in memory, the least significant byte first.\<close>

definition bytes32 :: "u32 \<Rightarrow> u8 list" where
  "bytes32 w = [ucast w, ucast (drop_bit 8 w), ucast (drop_bit 16 w), ucast (drop_bit 24 w)]"

text \<open>
  A stream open for reading: the bytes not read yet, and the end-of-file indicator, which is set
  by a read that comes up short and not by reading the last byte.
\<close>

type_synonym stream = "u8 list \<times> bool"

definition fopen_read :: "file_system \<Rightarrow> string \<Rightarrow> stream option" where
  "fopen_read fs f = do { bs \<leftarrow> fs f; Some (bs, False) }"

definition fread :: "nat \<Rightarrow> stream \<Rightarrow> u8 list \<times> stream" where
  "fread n source = (case source of (bs, eof) \<Rightarrow> (take n bs, drop n bs, eof \<or> length bs < n))"

text \<open>What is written to the target is collected and becomes its contents.\<close>

function write_file :: "u8 list \<Rightarrow> stream \<Rightarrow> u8 list" where
  "write_file target source =
     (if snd source then target
      else let (buffer, source) = fread BUFFER_SIZE source in write_file (target @ buffer) source)"
  by pat_completeness auto
termination
  by (relation "measure (\<lambda>(t, bs, eof). length bs + (if eof then 0 else 1))")
    (auto simp: fread_def BUFFER_SIZE_def split: if_splits)

declare write_file.simps [simp del]

text \<open>The size is narrowed to 32 bits.\<close>

definition write_size :: "file_system \<Rightarrow> u8 list \<Rightarrow> string \<Rightarrow> u8 list option" where
  "write_size fs target filename = do { bs \<leftarrow> fs filename; Some (target @ bytes32 (of_nat (length bs))) }"

fun append_modules :: "file_system \<Rightarrow> string list \<Rightarrow> u8 list \<Rightarrow> u8 list option" where
  "append_modules fs [] target = Some target"
| "append_modules fs (f # files) target = do {
     source \<leftarrow> fopen_read fs f;
     target \<leftarrow> write_size fs target f;
     append_modules fs files (write_file target source)
   }"

definition buildImage ::
  "(string \<Rightarrow> bool) \<Rightarrow> string list \<Rightarrow> string \<Rightarrow> file_system \<Rightarrow> (bool \<times> string \<times> file_system) option" where
  "buildImage creatable files output_file fs =
     (if \<not> creatable output_file then Some (False, ''Can't create target file'', fs)
      else if output_file \<in> set files then None
      else
        case files of
          [] \<Rightarrow> None
        | f # modules \<Rightarrow> do {
            source \<leftarrow> fopen_read fs f;
            target \<leftarrow> Some (write_file [] source);
            let extraBinaries = (of_int (int (length files) - 1) :: u32) in do {
              target \<leftarrow> append_modules fs modules (target @ bytes32 extraBinaries);
              Some (True, '''', fs(output_file \<mapsto> target))
            }
          })"

fun checkFiles :: "file_system \<Rightarrow> string list \<Rightarrow> bool \<times> string" where
  "checkFiles fs [] = (True, '''')"
| "checkFiles fs (f # files) =
     (if fs f = None then (False, ''Can't open file: '' @ f) else checkFiles fs files)"

text \<open>
  The result is the exit status (\<open>None\<close>: the usage message), the message printed and the files
  afterwards. The file names are the first \<open>count\<close> entries of the array, all of which are set.
\<close>

definition packer_main ::
  "(string \<Rightarrow> bool) \<Rightarrow> argp_key list \<Rightarrow> file_system \<Rightarrow> (int option \<times> string \<times> file_system) option" where
  "packer_main creatable keys fs = do {
     r \<leftarrow> argp_parse keys \<lparr>arg_files = replicate MAX_FILES None, arg_output_file = OUTPUT_FILE, arg_count = 0\<rparr>;
     (case r of
        None \<Rightarrow> Some (None, '''', fs)
      | Some a \<Rightarrow>
          if length (arg_files a) < arg_count a then None
          else do {
            files \<leftarrow> those (take (arg_count a) (arg_files a));
            (case checkFiles fs files of
               (False, msg) \<Rightarrow> Some (Some 1, msg, fs)
             | (True, _) \<Rightarrow> do {
                 (ok, msg, fs) \<leftarrow> buildImage creatable files (arg_output_file a) fs;
                 Some (Some (if ok then 0 else 1), msg, fs)
               })
          })
   }"

section \<open>The image is the kernel, the number of modules, and each module behind its size\<close>

definition packed_module :: "u8 list \<Rightarrow> u8 list" where
  "packed_module bs = bytes32 (of_nat (length bs)) @ bs"

definition packed :: "u8 list \<Rightarrow> u8 list list \<Rightarrow> u8 list" where
  "packed kbytes modules =
     kbytes @ bytes32 (of_nat (length modules)) @ concat (map packed_module modules)"

lemma length_bytes32 [simp]: "length (bytes32 w) = 4"
  by (simp add: bytes32_def)

lemma write_file_copies: "write_file target (bs, False) = target @ bs"
proof (induction bs arbitrary: target rule: length_induct)
  case (1 bs)
  show ?case
  proof (cases "length bs < BUFFER_SIZE")
    case True
    then show ?thesis by (simp add: write_file.simps fread_def)
  next
    case False
    then have "length (drop BUFFER_SIZE bs) < length bs" by (simp add: BUFFER_SIZE_def)
    then have "write_file (target @ take BUFFER_SIZE bs) (drop BUFFER_SIZE bs, False) = target @ bs"
      using 1 by simp
    then show ?thesis using False by (subst write_file.simps) (simp add: fread_def)
  qed
qed

lemma append_modules_packed:
  assumes "list_all2 (\<lambda>f bs. fs f = Some bs) files modules"
  shows "append_modules fs files target = Some (target @ concat (map packed_module modules))"
  using assms
  by (induction arbitrary: target)
    (auto simp: fopen_read_def write_size_def write_file_copies packed_module_def)

lemma checkFiles_readable: "list_all2 (\<lambda>f bs. fs f = Some bs) files bss \<Longrightarrow> checkFiles fs files = (True, '''')"
  by (induction rule: list_all2_induct) auto

lemma buildImage_packed:
  assumes "creatable out" and "out \<notin> set (f # files)" and "fs f = Some kbytes"
    and "list_all2 (\<lambda>f bs. fs f = Some bs) files modules"
  shows "buildImage creatable (f # files) out fs = Some (True, '''', fs(out \<mapsto> packed kbytes modules))"
  using assms append_modules_packed [OF assms(4)] list_all2_lengthD [OF assms(4)]
  by (simp add: buildImage_def fopen_read_def write_file_copies packed_def)

text \<open>
  What the option parser of the C library documents: it rearranges the command line so that the
  options come first, then the arguments in order with their numbers, and the end with their count.
\<close>

definition argp_keys :: "string option \<Rightarrow> string list \<Rightarrow> argp_key list" where
  "argp_keys out files = (case out of None \<Rightarrow> [] | Some f \<Rightarrow> [Key_o f]) @
     map2 ARGP_KEY_ARG [0..<length files] files @ [ARGP_KEY_END (length files)]"

definition output_of :: "string option \<Rightarrow> string" where
  "output_of out = (case out of None \<Rightarrow> OUTPUT_FILE | Some f \<Rightarrow> f)"

lemma argp_parse_files:
  assumes "length pre + length files \<le> length (arg_files a)"
    and "take (length pre) (arg_files a) = map Some pre"
  shows "\<exists>rest. argp_parse (map2 ARGP_KEY_ARG [length pre..<length pre + length files] files @ keys) a =
      argp_parse keys (a\<lparr>arg_files := map Some (pre @ files) @ rest\<rparr>) \<and>
      length (map Some (pre @ files) @ rest) = length (arg_files a)"
  using assms
proof (induction files arbitrary: pre a)
  case Nil
  have "arg_files a = map Some pre @ drop (length pre) (arg_files a)"
    using Nil.prems(2) append_take_drop_id [of "length pre" "arg_files a"] by simp
  then show ?case using Nil.prems(1) by (intro exI [of _ "drop (length pre) (arg_files a)"]) simp
next
  case (Cons f files)
  let ?a = "a\<lparr>arg_files := (arg_files a)[length pre := Some f]\<rparr>"
  have l: "length pre < length (arg_files a)" using Cons.prems(1) by simp
  have "take (length (pre @ [f])) (arg_files ?a) = map Some (pre @ [f])"
    using l Cons.prems(2) by (simp add: take_Suc_conv_app_nth)
  from Cons.IH [OF _ this] Cons.prems(1) obtain rest where rest:
    "argp_parse (map2 ARGP_KEY_ARG [length (pre @ [f])..<length (pre @ [f]) + length files] files @ keys) ?a =
      argp_parse keys (?a\<lparr>arg_files := map Some ((pre @ [f]) @ files) @ rest\<rparr>)"
    "length (map Some ((pre @ [f]) @ files) @ rest) = length (arg_files ?a)"
    by auto
  have "argp_parse (map2 ARGP_KEY_ARG [length pre..<length pre + length (f # files)] (f # files) @ keys) a =
    argp_parse (map2 ARGP_KEY_ARG [length (pre @ [f])..<length (pre @ [f]) + length files] files @ keys) ?a"
    using l by (simp add: upt_conv_Cons parse_opt_def del: upt_Suc)
  then show ?case using rest by (intro exI [of _ rest]) simp
qed

lemma those_map_Some [simp]: "those (map Some xs) = Some xs"
  by (induction xs) auto

lemma packer_main_packed:
  assumes "length (f # files) \<le> MAX_FILES" and "creatable (output_of out)" and "output_of out \<notin> set (f # files)"
    and "fs f = Some kbytes" and "list_all2 (\<lambda>f bs. fs f = Some bs) files modules"
  shows "packer_main creatable (argp_keys out (f # files)) fs =
    Some (Some 0, '''', fs(output_of out \<mapsto> packed kbytes modules))"
proof -
  let ?a = "\<lparr>arg_files = replicate MAX_FILES None, arg_output_file = OUTPUT_FILE, arg_count = 0\<rparr>"
  let ?b = "?a\<lparr>arg_output_file := output_of out\<rparr>"
  have b: "argp_parse (argp_keys out (f # files)) ?a =
    argp_parse (map2 ARGP_KEY_ARG [0..<length (f # files)] (f # files) @ [ARGP_KEY_END (length (f # files))]) ?b"
    by (simp add: argp_keys_def parse_opt_def output_of_def del: upt_Suc split: option.split)
  obtain rest where rest: "argp_parse (argp_keys out (f # files)) ?a =
      argp_parse [ARGP_KEY_END (length (f # files))] (?b\<lparr>arg_files := map Some (f # files) @ rest\<rparr>)"
    using argp_parse_files [of "[]" "f # files" ?b "[ARGP_KEY_END (length (f # files))]"] assms(1)
    unfolding b by auto
  have "argp_parse (argp_keys out (f # files)) ?a =
    Some (Some \<lparr>arg_files = map Some (f # files) @ rest, arg_output_file = output_of out,
      arg_count = length (f # files)\<rparr>)"
    unfolding rest by (simp add: parse_opt_def)
  moreover have "checkFiles fs (f # files) = (True, '''')"
    using assms(4) checkFiles_readable [OF assms(5)] by simp
  moreover have "those (take (length (f # files)) (map Some (f # files) @ rest)) = Some (f # files)"
    using those_map_Some [of "f # files"] by (simp del: those_map_Some)
  ultimately show ?thesis
    using buildImage_packed [of creatable "output_of out" f files fs kbytes modules] assms(2-5)
    by (simp add: packer_main_def del: those.simps take_Suc_Cons)
qed

text \<open>An argument past the end of the array of file names is stored all the same.\<close>

lemma too_many_files_overflow:
  assumes "length files = MAX_FILES"
  shows "packer_main creatable (argp_keys None (files @ [f])) fs = None"
proof -
  let ?a = "\<lparr>arg_files = replicate MAX_FILES None, arg_output_file = OUTPUT_FILE, arg_count = 0\<rparr>"
  have k: "argp_keys None (files @ [f]) =
    map2 ARGP_KEY_ARG [0..<length files] files @ [ARGP_KEY_ARG MAX_FILES f, ARGP_KEY_END (Suc MAX_FILES)]"
    using assms by (simp add: argp_keys_def)
  show ?thesis
    using argp_parse_files [of "[]" files ?a "[ARGP_KEY_ARG MAX_FILES f, ARGP_KEY_END (Suc MAX_FILES)]"] assms
    unfolding packer_main_def k by (auto simp: parse_opt_def)
qed

end
