(* ===== verification/Video.thy ===== *)
theory Video
  imports KLib
begin

unbundle bit_operations_syntax

text \<open>
  The video driver (\<open>drivers/video.c\<close>): pixels, rectangles, circles, filling and scrolling, as
  stores into the frame buffer. The memory is the byte memory of \<open>KLib\<close>, so a store outside of
  what is mapped is undefined (\<open>None\<close>). Offsets are computed as in C: in 64 bits where an
  operand has 64 bits, in \<open>int\<close> (with undefined overflow) where both are narrower.
\<close>

section \<open>Loops\<close>

text \<open>\<open>for (i = lo; \<dots>; i++)\<close>, run \<open>n\<close> times.\<close>

fun for_upto :: "nat \<Rightarrow> nat \<Rightarrow> (nat \<Rightarrow> 's \<Rightarrow> 's option) \<Rightarrow> 's \<Rightarrow> 's option" where
  "for_upto i 0 body s = Some s"
| "for_upto i (Suc n) body s = do { s \<leftarrow> body i s; for_upto (Suc i) n body s }"

section \<open>The driver\<close>

text \<open>The fields of \<open>struct vbe_mode_info_structure\<close> that are read.\<close>

record vbe_mode_info =
  pitch :: u16
  width :: u16
  height :: u16
  bpp :: u8
  framebuffer :: u32

definition fb_addr :: "vbe_mode_info \<Rightarrow> u64 \<Rightarrow> addr" where
  "fb_addr v offset = unat (ucast (framebuffer v) + offset :: u64)"

definition store_rgb :: "vbe_mode_info \<Rightarrow> u32 \<Rightarrow> u64 \<Rightarrow> bytemem \<Rightarrow> bytemem option" where
  "store_rgb v hexColor offset m = do {
     m \<leftarrow> store8 m (fb_addr v offset) (ucast (hexColor AND 0xFF));
     m \<leftarrow> store8 m (fb_addr v (offset + 1)) (ucast (drop_bit 8 hexColor AND 0xFF));
     store8 m (fb_addr v (offset + 2)) (ucast (drop_bit 16 hexColor AND 0xFF))
   }"

definition putPixel :: "vbe_mode_info \<Rightarrow> u32 \<Rightarrow> u64 \<Rightarrow> u64 \<Rightarrow> bytemem \<Rightarrow> bytemem option" where
  "putPixel v hexColor x y m =
     store_rgb v hexColor (x * ucast (drop_bit 3 (bpp v)) + y * ucast (pitch v)) m"

definition drawRectangle :: "vbe_mode_info \<Rightarrow> u32 \<Rightarrow> u64 \<Rightarrow> u64 \<Rightarrow> u64 \<Rightarrow> u64 \<Rightarrow> bytemem \<Rightarrow> bytemem option" where
  "drawRectangle v hexColor w h initial_pos_x initial_pos_y =
     for_upto 0 (unat h) (\<lambda>j. for_upto 0 (unat w)
       (\<lambda>i. putPixel v hexColor (initial_pos_x + of_nat i) (initial_pos_y + of_nat j)))"

text \<open>The centre is converted to a signed integer; the two loops run from \<open>-radius\<close> to \<open>radius - 1\<close>.\<close>

definition drawCircle :: "vbe_mode_info \<Rightarrow> u32 \<Rightarrow> u64 \<Rightarrow> u64 \<Rightarrow> u64 \<Rightarrow> bytemem \<Rightarrow> bytemem option" where
  "drawCircle v hexColor topLeftX topLeftY diameter =
     (let radius = sint (diameter div 2);
          centerX = sint (topLeftX + of_int radius);
          centerY = sint (topLeftY + of_int radius)
      in for_upto 0 (nat (2 * radius)) (\<lambda>j. for_upto 0 (nat (2 * radius)) (\<lambda>i m.
           let y = int j - radius; x = int i - radius in do {
             d \<leftarrow> int_of 64 (x * x + y * y);
             r \<leftarrow> int_of 64 (radius * radius);
             if d \<le> r then do {
               px \<leftarrow> int_of 64 (centerX + x);
               py \<leftarrow> int_of 64 (centerY + y);
               putPixel v hexColor (of_int px) (of_int py) m
             }
             else Some m
           })))"

definition getWindowHeight :: "vbe_mode_info \<Rightarrow> u16" where
  "getWindowHeight v = height v"

definition getWindowWidth :: "vbe_mode_info \<Rightarrow> u16" where
  "getWindowWidth v = width v"

text \<open>The offsets of the loops over the whole screen: products of two narrow integers.\<close>

definition row_offset :: "vbe_mode_info \<Rightarrow> nat \<Rightarrow> u64 option" where
  "row_offset v y = do { p \<leftarrow> int_of 32 (int y * uint (pitch v)); Some (of_int p) }"

definition column_offset :: "vbe_mode_info \<Rightarrow> nat \<Rightarrow> u64 option" where
  "column_offset v x = do { p \<leftarrow> int_of 32 (int x * uint (drop_bit 3 (bpp v))); Some (of_int p) }"

definition fill_row :: "vbe_mode_info \<Rightarrow> u32 \<Rightarrow> nat \<Rightarrow> bytemem \<Rightarrow> bytemem option" where
  "fill_row v hexColor y m = do {
     yoffset \<leftarrow> row_offset v y;
     for_upto 0 (unat (getWindowWidth v)) (\<lambda>x m. do {
       xo \<leftarrow> column_offset v x;
       store_rgb v hexColor (xo + yoffset) m
     }) m
   }"

definition fillVideoMemory :: "vbe_mode_info \<Rightarrow> u32 \<Rightarrow> bytemem \<Rightarrow> bytemem option" where
  "fillVideoMemory v hexColor = for_upto 0 (unat (getWindowHeight v)) (fill_row v hexColor)"

definition copy_byte :: "vbe_mode_info \<Rightarrow> u64 \<Rightarrow> u64 \<Rightarrow> bytemem \<Rightarrow> bytemem option" where
  "copy_byte v offset new_offset m = do { b \<leftarrow> load8 m (fb_addr v new_offset); store8 m (fb_addr v offset) b }"

definition copy_row :: "vbe_mode_info \<Rightarrow> nat \<Rightarrow> nat \<Rightarrow> bytemem \<Rightarrow> bytemem option" where
  "copy_row v scroll y m = do {
     yoffset \<leftarrow> row_offset v y;
     ynoffset \<leftarrow> row_offset v (y + scroll);
     for_upto 0 (unat (getWindowWidth v)) (\<lambda>x m. do {
       xo \<leftarrow> column_offset v x;
       m \<leftarrow> copy_byte v (xo + yoffset) (xo + ynoffset) m;
       m \<leftarrow> copy_byte v (xo + yoffset + 1) (xo + ynoffset + 1) m;
       copy_byte v (xo + yoffset + 2) (xo + ynoffset + 2) m
     }) m
   }"

text \<open>
  The first loop compares with \<open>height - scroll\<close> as an \<open>int\<close>, which may be negative; the second
  starts at that number cut to 16 bits.
\<close>

definition scrollVideoMemoryUp :: "vbe_mode_info \<Rightarrow> u16 \<Rightarrow> u32 \<Rightarrow> bytemem \<Rightarrow> bytemem option" where
  "scrollVideoMemoryUp v scroll fillColor m = do {
     m \<leftarrow> for_upto 0 (nat (uint (getWindowHeight v) - uint scroll)) (copy_row v (unat scroll)) m;
     let y = unat (getWindowHeight v - scroll)
     in for_upto y (unat (getWindowHeight v) - y) (fill_row v fillColor) m
   }"

section \<open>The screen\<close>

text \<open>
  What the boot loader sets up: three or four bytes for each pixel, rows that hold the pixels, and
  a frame buffer of exactly \<open>height\<close> rows in memory, below 4 GB and small enough for the products
  of the driver.
\<close>

definition screen_mode :: "vbe_mode_info \<Rightarrow> bool" where
  "screen_mode v \<longleftrightarrow> bpp v \<in> {24, 32} \<and> unat (width v) * (unat (bpp v) div 8) \<le> unat (pitch v) \<and>
     unat (height v) * unat (pitch v) < 2 ^ 31"

definition frame_bytes :: "vbe_mode_info \<Rightarrow> addr set" where
  "frame_bytes v = {unat (framebuffer v) ..< unat (framebuffer v) + unat (height v) * unat (pitch v)}"

definition pixel_offset :: "vbe_mode_info \<Rightarrow> nat \<Rightarrow> nat \<Rightarrow> nat" where
  "pixel_offset v x y = x * (unat (bpp v) div 8) + y * unat (pitch v)"

lemma pixel_in_row:
  assumes "screen_mode v" and "x < unat (width v)"
  shows "x * (unat (bpp v) div 8) + 3 \<le> unat (pitch v)"
proof -
  let ?b = "unat (bpp v) div 8"
  have b: "3 \<le> ?b" using assms(1) by (auto simp: screen_mode_def)
  have "x * ?b + ?b = Suc x * ?b" by simp
  also have "\<dots> \<le> unat (width v) * ?b" using assms(2) by (intro mult_le_mono1) simp
  also have "\<dots> \<le> unat (pitch v)" using assms(1) by (simp add: screen_mode_def)
  finally show ?thesis using b by linarith
qed

lemma pixel_in_frame:
  assumes "screen_mode v" and "x < unat (width v)" and "y < unat (height v)"
  shows "pixel_offset v x y + 3 \<le> unat (height v) * unat (pitch v)"
proof -
  have "pixel_offset v x y + 3 \<le> unat (pitch v) + y * unat (pitch v)"
    using pixel_in_row [OF assms(1,2)] by (simp add: pixel_offset_def)
  also have "\<dots> = Suc y * unat (pitch v)" by simp
  also have "\<dots> \<le> unat (height v) * unat (pitch v)" using assms(3) by (intro mult_le_mono1) simp
  finally show ?thesis .
qed

lemma fb_addr_small:
  assumes "n < 2 ^ 32"
  shows "fb_addr v (of_nat n) = unat (framebuffer v) + n"
proof -
  have f: "unat (ucast (framebuffer v) :: u64) = unat (framebuffer v)" "unat (framebuffer v) < 2 ^ 32"
    using unsigned_less [where 'a = nat and w = "framebuffer v"]
    by (simp_all add: unsigned_ucast_eq take_bit_nat_eq_self)
  have "unat (of_nat n :: u64) = n" using assms by (intro unat_of_nat_small) simp
  then show ?thesis using f assms by (simp add: fb_addr_def unat_word_ariths)
qed

text \<open>The frame buffer is exactly what is mapped: a store is defined when and only when it hits it.\<close>

definition screen_mem :: "vbe_mode_info \<Rightarrow> bytemem \<Rightarrow> bool" where
  "screen_mem v m \<longleftrightarrow> dom m = frame_bytes v"

lemma screen_mode_size: "screen_mode v \<Longrightarrow> unat (height v) * unat (pitch v) < 2 ^ 31"
  by (simp add: screen_mode_def)

lemma fb_addr_in_frame:
  assumes "screen_mode v" and "n < unat (height v) * unat (pitch v)"
  shows "fb_addr v (of_nat n) \<in> frame_bytes v"
  using screen_mode_size [OF assms(1)] assms(2) by (simp add: fb_addr_small frame_bytes_def)

lemma store8_screen:
  assumes "screen_mem v m" and "a \<in> frame_bytes v"
  shows "\<exists>m'. store8 m a b = Some m' \<and> screen_mem v m'"
  using assms by (auto simp: screen_mem_def store8_def)

lemma store8_offscreen: "screen_mem v m \<Longrightarrow> a \<notin> frame_bytes v \<Longrightarrow> store8 m a b = None"
  by (auto simp: screen_mem_def store8_def)

lemma of_nat_offsets [simp]: "(of_nat n :: u64) + 1 = of_nat (n + 1)" "(of_nat n :: u64) + 2 = of_nat (n + 2)"
  by simp_all

lemma store_rgb_screen:
  assumes "screen_mode v" and "screen_mem v m" and "n + 3 \<le> unat (height v) * unat (pitch v)"
  shows "\<exists>m'. store_rgb v c (of_nat n) m = Some m' \<and> screen_mem v m'"
proof -
  have f: "fb_addr v (of_nat n) \<in> frame_bytes v" "fb_addr v (of_nat (n + 1)) \<in> frame_bytes v"
    "fb_addr v (of_nat (n + 2)) \<in> frame_bytes v"
    using assms(3) by (intro fb_addr_in_frame [OF assms(1)]; simp)+
  obtain m1 where m1: "store8 m (fb_addr v (of_nat n)) (ucast (c AND 0xFF)) = Some m1" "screen_mem v m1"
    using store8_screen [OF assms(2) f(1)] by blast
  obtain m2 where m2: "store8 m1 (fb_addr v (of_nat (n + 1))) (ucast (drop_bit 8 c AND 0xFF)) = Some m2" "screen_mem v m2"
    using store8_screen [OF m1(2) f(2)] by blast
  show ?thesis
    using store8_screen [OF m2(2) f(3), of "ucast (drop_bit 16 c AND 0xFF)"] m1(1) m2(1)
    unfolding store_rgb_def of_nat_offsets by (simp del: of_nat_add)
qed

lemma bytes_per_pixel: "unat (drop_bit 3 (b :: u8)) = unat b div 8"
  by (simp add: drop_bit_eq_div unat_div)

lemma int_of_32_nat: "n < 2 ^ 31 \<Longrightarrow> int_of 32 (int n) = Some (int n)"
  by (simp add: int_of_def)

lemma pixel_word_offset:
  assumes "screen_mode v"
  shows "(of_nat x :: u64) * ucast (drop_bit 3 (bpp v)) + of_nat y * ucast (pitch v) = of_nat (pixel_offset v x y)"
proof -
  have "(ucast (drop_bit 3 (bpp v)) :: u64) = of_nat (unat (drop_bit 3 (bpp v)))" by simp
  then have "(ucast (drop_bit 3 (bpp v)) :: u64) = of_nat (unat (bpp v) div 8)" unfolding bytes_per_pixel .
  moreover have "(ucast (pitch v) :: u64) = of_nat (unat (pitch v))" by simp
  ultimately show ?thesis by (simp add: pixel_offset_def)
qed

lemma putPixel_screen:
  assumes "screen_mode v" and "screen_mem v m" and "x < unat (width v)" and "y < unat (height v)"
  shows "\<exists>m'. putPixel v c (of_nat x) (of_nat y) m = Some m' \<and> screen_mem v m'"
  using store_rgb_screen [OF assms(1,2) pixel_in_frame [OF assms(1,3,4)]]
  by (simp add: putPixel_def pixel_word_offset [OF assms(1)])

lemma putPixel_below_screen:
  assumes "screen_mode v" and "screen_mem v m" and "unat (height v) \<le> y" and "pixel_offset v x y < 2 ^ 32"
  shows "putPixel v c (of_nat x) (of_nat y) m = None"
proof -
  have "unat (height v) * unat (pitch v) \<le> pixel_offset v x y"
    unfolding pixel_offset_def using assms(3) by (intro trans_le_add2 mult_le_mono1)
  then have "fb_addr v (of_nat (pixel_offset v x y)) \<notin> frame_bytes v"
    unfolding fb_addr_small [OF assms(4)] by (simp add: frame_bytes_def)
  then show ?thesis using store8_offscreen [OF assms(2)]
    by (simp add: putPixel_def store_rgb_def pixel_word_offset [OF assms(1)])
qed

section \<open>Loops stay on the screen\<close>

lemma for_upto_invariant:
  assumes "I lo s" and "\<And>i s. I i s \<Longrightarrow> lo \<le> i \<Longrightarrow> i < lo + n \<Longrightarrow> \<exists>s'. body i s = Some s' \<and> I (Suc i) s'"
  shows "\<exists>s'. for_upto lo n body s = Some s' \<and> I (lo + n) s'"
  using assms
proof (induction n arbitrary: lo s)
  case (Suc n)
  obtain s1 where s1: "body lo s = Some s1" "I (Suc lo) s1" using Suc.prems(2) [OF Suc.prems(1)] by auto
  have "\<exists>s'. for_upto (Suc lo) n body s1 = Some s' \<and> I (Suc lo + n) s'"
    by (rule Suc.IH [OF s1(2)]) (use Suc.prems(2) in auto)
  then show ?case using s1(1) by simp
qed simp

lemmas for_upto_screen = for_upto_invariant [where I = "\<lambda>_. screen_mem v" for v]

lemma row_offset_screen:
  assumes "screen_mode v" and "y < unat (height v)"
  shows "row_offset v y = Some (of_nat (y * unat (pitch v)))"
proof -
  have "y * unat (pitch v) \<le> unat (height v) * unat (pitch v)" using assms(2) by (intro mult_le_mono1) simp
  then have "y * unat (pitch v) < 2 ^ 31" using screen_mode_size [OF assms(1)] by linarith
  note * = int_of_32_nat [OF this]
  have "int y * uint (pitch v) = int (y * unat (pitch v))" by simp
  then show ?thesis unfolding row_offset_def by (simp only: *) simp
qed

lemma column_offset_screen:
  assumes "screen_mode v" and "x < unat (width v)"
  shows "column_offset v x = Some (of_nat (x * (unat (bpp v) div 8)))"
proof -
  have "x * (unat (bpp v) div 8) < 2 ^ 31"
    using pixel_in_row [OF assms] unsigned_less [where 'a = nat and w = "pitch v"] by simp
  then have "int_of 32 (int (x * (unat (bpp v) div 8))) = Some (int (x * (unat (bpp v) div 8)))"
    by (rule int_of_32_nat)
  note * = this
  have "uint (drop_bit 3 (bpp v)) = int (unat (bpp v) div 8)" by (metis bytes_per_pixel uint_nat)
  then have "int x * uint (drop_bit 3 (bpp v)) = int (x * (unat (bpp v) div 8))" by simp
  then show ?thesis unfolding column_offset_def by (simp only: *) simp
qed

lemma fill_row_screen:
  assumes "screen_mode v" and "screen_mem v m" and "y < unat (height v)"
  shows "\<exists>m'. fill_row v c y m = Some m' \<and> screen_mem v m'"
proof -
  have "\<exists>m'. for_upto 0 (unat (width v)) (\<lambda>x m. do { xo \<leftarrow> column_offset v x;
      store_rgb v c (xo + of_nat (y * unat (pitch v))) m }) m = Some m' \<and> screen_mem v m'"
  proof (rule for_upto_screen [OF assms(2)])
    fix x m
    assume m: "screen_mem v m" and x: "x < 0 + unat (width v)"
    then show "\<exists>m'. (do { xo \<leftarrow> column_offset v x; store_rgb v c (xo + of_nat (y * unat (pitch v))) m }) = Some m' \<and>
      screen_mem v m'"
      using store_rgb_screen [OF assms(1) m pixel_in_frame [OF assms(1) _ assms(3)], of x c]
      by (simp add: column_offset_screen [OF assms(1)] pixel_offset_def)
  qed
  then show ?thesis by (simp add: fill_row_def row_offset_screen [OF assms(1,3)] getWindowWidth_def)
qed

lemma fillVideoMemory_screen:
  assumes "screen_mode v" and "screen_mem v m"
  shows "\<exists>m'. fillVideoMemory v c m = Some m' \<and> screen_mem v m'"
  unfolding fillVideoMemory_def getWindowHeight_def
  by (rule for_upto_screen [OF assms(2)]) (use fill_row_screen [OF assms(1)] in simp)

lemma copy_byte_screen:
  assumes "screen_mem v m" and "fb_addr v n \<in> frame_bytes v" and "fb_addr v o' \<in> frame_bytes v"
  shows "\<exists>m'. copy_byte v o' n m = Some m' \<and> screen_mem v m'"
proof -
  obtain b where "m (fb_addr v n) = Some b" using assms(1,2) by (auto simp: screen_mem_def)
  then show ?thesis using store8_screen [OF assms(1,3), of b] by (simp add: copy_byte_def load8_def)
qed

lemma copy_pixel_screen:
  assumes "screen_mode v" and "screen_mem v m"
    and "n + 3 \<le> unat (height v) * unat (pitch v)" and "k + 3 \<le> unat (height v) * unat (pitch v)"
  shows "\<exists>m'. (do { m \<leftarrow> copy_byte v (of_nat k) (of_nat n) m; m \<leftarrow> copy_byte v (of_nat k + 1) (of_nat n + 1) m;
    copy_byte v (of_nat k + 2) (of_nat n + 2) m }) = Some m' \<and> screen_mem v m'"
proof -
  have f: "fb_addr v (of_nat (n + i)) \<in> frame_bytes v" "fb_addr v (of_nat (k + i)) \<in> frame_bytes v" if "i < 3" for i
    using assms(3,4) that by (intro fb_addr_in_frame [OF assms(1)]; linarith)+
  have l: "(0::nat) < 3" "(1::nat) < 3" "(2::nat) < 3" by simp_all
  obtain m1 where m1: "copy_byte v (of_nat k) (of_nat n) m = Some m1" "screen_mem v m1"
    using copy_byte_screen [OF assms(2) f(1) [OF l(1)] f(2) [OF l(1)]] by auto
  obtain m2 where m2: "copy_byte v (of_nat (k + 1)) (of_nat (n + 1)) m1 = Some m2" "screen_mem v m2"
    using copy_byte_screen [OF m1(2) f(1) [OF l(2)] f(2) [OF l(2)]] by blast
  obtain m3 where "copy_byte v (of_nat (k + 2)) (of_nat (n + 2)) m2 = Some m3" "screen_mem v m3"
    using copy_byte_screen [OF m2(2) f(1) [OF l(3)] f(2) [OF l(3)]] by blast
  then show ?thesis using m1(1) m2(1) unfolding of_nat_offsets by (simp del: of_nat_add)
qed

lemma copy_row_screen:
  assumes "screen_mode v" and "screen_mem v m" and "y + scroll < unat (height v)"
  shows "\<exists>m'. copy_row v scroll y m = Some m' \<and> screen_mem v m'"
proof -
  let ?p = "unat (pitch v)"
  let ?body = "\<lambda>x m. do { xo \<leftarrow> column_offset v x;
      m \<leftarrow> copy_byte v (xo + of_nat (y * ?p)) (xo + of_nat ((y + scroll) * ?p)) m;
      m \<leftarrow> copy_byte v (xo + of_nat (y * ?p) + 1) (xo + of_nat ((y + scroll) * ?p) + 1) m;
      copy_byte v (xo + of_nat (y * ?p) + 2) (xo + of_nat ((y + scroll) * ?p) + 2) m }"
  have "\<exists>m'. for_upto 0 (unat (width v)) ?body m = Some m' \<and> screen_mem v m'"
  proof (rule for_upto_screen [OF assms(2)])
    fix x m
    assume m: "screen_mem v m" and "x < 0 + unat (width v)"
    then have x: "x < unat (width v)" by simp
    have c: "column_offset v x = Some (of_nat (x * (unat (bpp v) div 8)))" by (rule column_offset_screen [OF assms(1) x])
    have w: "(of_nat (x * (unat (bpp v) div 8)) :: u64) + of_nat (z * ?p) = of_nat (pixel_offset v x z)" for z
      by (simp add: pixel_offset_def)
    have "\<exists>m'. (do { m \<leftarrow> copy_byte v (of_nat (pixel_offset v x y)) (of_nat (pixel_offset v x (y + scroll))) m;
        m \<leftarrow> copy_byte v (of_nat (pixel_offset v x y) + 1) (of_nat (pixel_offset v x (y + scroll)) + 1) m;
        copy_byte v (of_nat (pixel_offset v x y) + 2) (of_nat (pixel_offset v x (y + scroll)) + 2) m }) = Some m' \<and> screen_mem v m'"
      by (rule copy_pixel_screen [OF assms(1) m]) (use pixel_in_frame [OF assms(1) x] assms(3) in auto)
    then show "\<exists>m'. ?body x m = Some m' \<and> screen_mem v m'" unfolding c bind.bind_lunit w .
  qed
  moreover have "row_offset v y = Some (of_nat (y * ?p))" "row_offset v (y + scroll) = Some (of_nat ((y + scroll) * ?p))"
    using assms(3) by (intro row_offset_screen [OF assms(1)]; simp)+
  ultimately show ?thesis unfolding copy_row_def getWindowWidth_def by (simp only: bind.bind_lunit)
qed

lemma scrollVideoMemoryUp_screen:
  assumes "screen_mode v" and "screen_mem v m"
  shows "\<exists>m'. scrollVideoMemoryUp v scroll c m = Some m' \<and> screen_mem v m'"
proof -
  let ?n = "nat (uint (height v) - uint scroll)" and ?y = "unat (height v - scroll)"
  have "\<exists>m'. for_upto 0 ?n (copy_row v (unat scroll)) m = Some m' \<and> screen_mem v m'"
  proof (rule for_upto_screen [OF assms(2)])
    fix y m
    assume m: "screen_mem v m" and "y < 0 + ?n"
    then have "int y + uint scroll < uint (height v)" by linarith
    then have "int (y + unat scroll) < int (unat (height v))" by simp
    then have "y + unat scroll < unat (height v)" unfolding of_nat_less_iff .
    then show "\<exists>m'. copy_row v (unat scroll) y m = Some m' \<and> screen_mem v m'" by (rule copy_row_screen [OF assms(1) m])
  qed
  then obtain m1 where m1: "for_upto 0 ?n (copy_row v (unat scroll)) m = Some m1" "screen_mem v m1" by blast
  have "\<exists>m'. for_upto ?y (unat (height v) - ?y) (fill_row v c) m1 = Some m' \<and> screen_mem v m'"
    by (rule for_upto_screen [OF m1(2)]) (intro fill_row_screen [OF assms(1)]; simp)
  then show ?thesis using m1(1) by (simp add: scrollVideoMemoryUp_def getWindowHeight_def Let_def)
qed

end
