(* ===== verification/Fonts.thy ===== *)
theory Fonts
  imports Video Font_Table
begin

unbundle bit_operations_syntax

text \<open>
  Text on the screen (\<open>fonts.c\<close>): the static variables of the file with the video mode and the
  frame buffer as one record, and every operation on it. A character below space other than
  newline, return and tabulator is drawn like any other; \<open>char\<close> is signed.
\<close>

section \<open>State\<close>

definition DEFAULT_TEXT_COLOR :: u32 where "DEFAULT_TEXT_COLOR = 0x00FFFFFF"
definition DEFAULT_ERROR_COLOR :: u32 where "DEFAULT_ERROR_COLOR = 0x00DE382B"
definition DEFAULT_BACKGROUND_COLOR :: u32 where "DEFAULT_BACKGROUND_COLOR = 0x00000000"
definition DEFAULT_GLYPH_SIZE_X :: u16 where "DEFAULT_GLYPH_SIZE_X = 8"
definition DEFAULT_GLYPH_SIZE_Y :: u16 where "DEFAULT_GLYPH_SIZE_Y = 8"
definition TAB_SIZE :: int where "TAB_SIZE = 4"
definition FD_STDOUT :: int where "FD_STDOUT = 1"
definition FD_STDERR :: int where "FD_STDERR = 2"

record screen =
  mode :: vbe_mode_info
  fbmem :: bytemem
  glyphSizeX :: u16
  glyphSizeY :: u16
  fontSize :: u16
  xBufferPosition :: int
  yBufferPosition :: int
  maxGlyphSizeYOnLine :: u16
  dirty_line :: u8
  text_color :: u32
  background_color :: u32
  file_descriptor :: int
  num_buffer :: "u8 list"

text \<open>The variables as they are initialised.\<close>

definition boot_screen :: "vbe_mode_info \<Rightarrow> bytemem \<Rightarrow> screen" where
  "boot_screen v m = \<lparr>mode = v, fbmem = m, glyphSizeX = DEFAULT_GLYPH_SIZE_X, glyphSizeY = DEFAULT_GLYPH_SIZE_Y,
     fontSize = 1, xBufferPosition = 0, yBufferPosition = 0, maxGlyphSizeYOnLine = DEFAULT_GLYPH_SIZE_Y,
     dirty_line = 0, text_color = DEFAULT_TEXT_COLOR, background_color = DEFAULT_BACKGROUND_COLOR,
     file_descriptor = FD_STDOUT, num_buffer = 48 # replicate 63 0\<rparr>"

definition setTextColor :: "u32 \<Rightarrow> screen \<Rightarrow> screen" where
  "setTextColor color s = s\<lparr>text_color := color\<rparr>"

definition setBackgroundColor :: "u32 \<Rightarrow> screen \<Rightarrow> screen" where
  "setBackgroundColor color s = s\<lparr>background_color := color\<rparr>"

text \<open>The products \<open>glyphSizeX * fontSize\<close> and \<open>glyphSizeY * fontSize\<close>, as \<open>int\<close>.\<close>

definition glyph_w :: "screen \<Rightarrow> int" where
  "glyph_w s = uint (glyphSizeX s) * uint (fontSize s)"

definition glyph_h :: "screen \<Rightarrow> int" where
  "glyph_h s = uint (glyphSizeY s) * uint (fontSize s)"

section \<open>Drawing\<close>

text \<open>\<open>*(bitmap + i)\<close>; the table has 1024 bytes.\<close>

definition bitmap_byte :: "int \<Rightarrow> u8 option" where
  "bitmap_byte i = (if 0 \<le> i \<and> i < 1024 then Some (font8x8_basic ! nat (i div 8) ! nat (i mod 8)) else None)"

definition renderFromBitmap :: "screen \<Rightarrow> int \<Rightarrow> u64 \<Rightarrow> u64 \<Rightarrow> bytemem \<Rightarrow> bytemem option" where
  "renderFromBitmap s bitmap xBase yBase =
     (let fs = unat (fontSize s) in
      for_upto 0 (nat (glyph_w s)) (\<lambda>x.
        let xs = sint (ucast (xBase + of_nat x) :: u32); xo = x div fs in
        for_upto 0 (nat (glyph_h s)) (\<lambda>y m. do {
          row \<leftarrow> bitmap_byte (bitmap + int (y div fs));
          putPixel (mode s) (if bit (scast row :: u32) xo then text_color s else background_color s)
            (of_int xs) (yBase + of_nat y) m
        })))"

definition renderAscii :: "u8 \<Rightarrow> u64 \<Rightarrow> u64 \<Rightarrow> screen \<Rightarrow> screen option" where
  "renderAscii c x y s =
     (if sint c < 128 then do {
        m \<leftarrow> renderFromBitmap s (sint c * uint (glyphSizeY s)) x y (fbmem s);
        Some (s\<lparr>fbmem := m\<rparr>)
      }
      else Some s)"

definition scrollBufferPositionIfNeeded :: "screen \<Rightarrow> screen option" where
  "scrollBufferPositionIfNeeded s =
     (if uint (getWindowHeight (mode s)) < yBufferPosition s + glyph_h s then do {
        m \<leftarrow> scrollVideoMemoryUp (mode s) (of_int (glyph_h s)) DEFAULT_BACKGROUND_COLOR (fbmem s);
        y \<leftarrow> int_of 32 (yBufferPosition s - glyph_h s);
        Some (s\<lparr>fbmem := m, yBufferPosition := y\<rparr>)
      }
      else Some s)"

definition newLine :: "screen \<Rightarrow> screen option" where
  "newLine s = do {
     y \<leftarrow> int_of 32 (yBufferPosition s + uint (maxGlyphSizeYOnLine s));
     scrollBufferPositionIfNeeded
       (s\<lparr>dirty_line := 0, yBufferPosition := y, xBufferPosition := 0, maxGlyphSizeYOnLine := of_int (glyph_h s)\<rparr>)
   }"

definition retractPosition :: "screen \<Rightarrow> screen option" where
  "retractPosition s =
     (let window_width = uint (getWindowWidth (mode s)) in
      if xBufferPosition s = 0 then do {
        y \<leftarrow> int_of 32 (yBufferPosition s - glyph_h s);
        if y < 0 then Some (s\<lparr>yBufferPosition := 0\<rparr>)
        else if glyph_w s = 0 then None
        else do {
          x \<leftarrow> int_of 32 (window_width - window_width mod glyph_w s - glyph_w s);
          Some (s\<lparr>yBufferPosition := y, xBufferPosition := x\<rparr>)
        }
      }
      else do {
        x \<leftarrow> int_of 32 (xBufferPosition s - glyph_w s);
        Some (s\<lparr>xBufferPosition := x\<rparr>)
      })"

text \<open>
  The default case of \<open>putChar\<close>. The cursor and the tabulator call \<open>putChar\<close> with characters of
  this case only.
\<close>

definition put_glyph :: "u8 \<Rightarrow> screen \<Rightarrow> screen option" where
  "put_glyph c s = do {
     s \<leftarrow> Some (s\<lparr>dirty_line := 1\<rparr>);
     s \<leftarrow> (if uint (getWindowWidth (mode s)) < xBufferPosition s + glyph_w s then newLine s else Some s);
     s \<leftarrow> renderAscii c (of_int (xBufferPosition s)) (of_int (yBufferPosition s)) s;
     x \<leftarrow> int_of 32 (xBufferPosition s + glyph_w s);
     Some (s\<lparr>xBufferPosition := x\<rparr>)
   }"

definition showCursor :: "screen \<Rightarrow> screen option" where
  "showCursor s = do { s \<leftarrow> put_glyph 124 s; retractPosition s }"

definition hideCursor :: "screen \<Rightarrow> screen option" where
  "hideCursor s = do { s \<leftarrow> put_glyph 32 s; retractPosition s }"

partial_function (option) return_loop :: "screen \<Rightarrow> screen option" where
  "return_loop s =
     (if 0 < xBufferPosition s then do { s \<leftarrow> retractPosition s; return_loop s } else Some s)"

partial_function (option) tab_loop :: "screen \<Rightarrow> screen option" where
  "tab_loop s = do {
     s \<leftarrow> put_glyph 32 s;
     if TAB_SIZE * glyph_w s = 0 then None
     else if xBufferPosition s mod (TAB_SIZE * glyph_w s) \<noteq> 0 then tab_loop s
     else Some s
   }"

definition putChar :: "u8 \<Rightarrow> screen \<Rightarrow> screen option" where
  "putChar c s = do {
     s \<leftarrow> Some (s\<lparr>dirty_line := 1\<rparr>);
     if c = 10 then do { s \<leftarrow> hideCursor s; newLine s }
     else if c = 13 then do { s \<leftarrow> hideCursor s; return_loop s }
     else if c = 9 then tab_loop s
     else put_glyph c s
   }"

definition clear_screen :: "screen \<Rightarrow> screen option" where
  "clear_screen s = do {
     m \<leftarrow> fillVideoMemory (mode s) DEFAULT_BACKGROUND_COLOR (fbmem s);
     Some (s\<lparr>fbmem := m, xBufferPosition := 0, yBufferPosition := 0\<rparr>)
   }"

definition clearPreviousCharacter :: "screen \<Rightarrow> screen option" where
  "clearPreviousCharacter s = do { s \<leftarrow> hideCursor s; s \<leftarrow> retractPosition s; showCursor s }"

section \<open>Printing\<close>

fun put_chars :: "u8 list \<Rightarrow> nat \<Rightarrow> screen \<Rightarrow> screen option" where
  "put_chars string 0 s = Some s"
| "put_chars [] (Suc n) s = None"
| "put_chars (c # string) (Suc n) s = do { s \<leftarrow> putChar c s; put_chars string n s }"

definition printToFd :: "int \<Rightarrow> u8 list \<Rightarrow> int \<Rightarrow> screen \<Rightarrow> (int \<times> screen) option" where
  "printToFd fd string count s =
     (if fd \<noteq> file_descriptor s \<and> fd \<noteq> FD_STDOUT \<and> fd \<noteq> FD_STDERR then Some (-1, s)
      else
        let s = (if fd = file_descriptor s then s
                 else if fd = FD_STDOUT
                 then s\<lparr>text_color := DEFAULT_TEXT_COLOR, background_color := DEFAULT_BACKGROUND_COLOR, file_descriptor := fd\<rparr>
                 else s\<lparr>text_color := (if text_color s = DEFAULT_TEXT_COLOR then DEFAULT_ERROR_COLOR else text_color s),
                        background_color := DEFAULT_BACKGROUND_COLOR, file_descriptor := fd\<rparr>)
        in do { s \<leftarrow> put_chars string (nat count) s; Some (if count < 0 then 0 else count, s) })"

text \<open>The length is an \<open>int64_t\<close> handed on as an \<open>int32_t\<close>.\<close>

definition print :: "u8 list \<Rightarrow> screen \<Rightarrow> screen option" where
  "print string s = do {
     n \<leftarrow> strlen_loop string 0;
     (_, s) \<leftarrow> printToFd FD_STDOUT string (sint (ucast n :: u32)) s;
     Some s
   }"

definition printBase :: "u64 \<Rightarrow> u32 \<Rightarrow> screen \<Rightarrow> screen option" where
  "printBase value base s = do {
     (length, buffer) \<leftarrow> uint_to_base value (Some (num_buffer s)) base;
     buffer \<leftarrow> buffer;
     buffer \<leftarrow> put buffer length 0;
     print buffer (s\<lparr>num_buffer := buffer\<rparr>)
   }"

definition printDec :: "u64 \<Rightarrow> screen \<Rightarrow> screen option" where "printDec value = printBase value 10"
definition printHex :: "u64 \<Rightarrow> screen \<Rightarrow> screen option" where "printHex value = printBase value 16"
definition printBin :: "u64 \<Rightarrow> screen \<Rightarrow> screen option" where "printBin value = printBase value 2"

section \<open>The size of the font\<close>

definition update_line_height :: "screen \<Rightarrow> screen" where
  "update_line_height s = s\<lparr>maxGlyphSizeYOnLine :=
     of_int (if dirty_line s = 1 then max (uint (maxGlyphSizeYOnLine s)) (glyph_h s) else glyph_h s)\<rparr>"

definition increaseFontSize :: "screen \<Rightarrow> (u8 \<times> screen) option" where
  "increaseFontSize s = do {
     s \<leftarrow> scrollBufferPositionIfNeeded
           (update_line_height (s\<lparr>fontSize := (if 9 < fontSize s then fontSize s else fontSize s + 1)\<rparr>));
     Some (ucast (fontSize s), s)
   }"

definition decreaseFontSize :: "screen \<Rightarrow> u8 \<times> screen" where
  "decreaseFontSize s =
     (let s = update_line_height (s\<lparr>fontSize := (if fontSize s \<le> 1 then fontSize s else fontSize s - 1)\<rparr>)
      in (ucast (fontSize s), s))"

text \<open>The new size is an \<open>int8_t\<close>.\<close>

definition setFontSize :: "8 word \<Rightarrow> screen \<Rightarrow> u8 \<times> screen" where
  "setFontSize sz s =
     (let n = sint sz;
          s = update_line_height (s\<lparr>fontSize := of_int (if n < 1 then 1 else if 10 < n then 10 else n)\<rparr>)
      in (ucast (fontSize s), s))"

end
