(* ===== verification/Devices.thy ===== *)
theory Devices
  imports Fonts Syscall
begin

text \<open>
  The devices behind the system calls: the cursor (\<open>cursor.c\<close>), the speaker
  (\<open>drivers/sound.c\<close>), the messages of the kernel on the screen (\<open>print_mem_status_common\<close> of
  \<open>lib.c\<close>), and the system calls of \<open>idt/syscallDispatcher.c\<close> that only reach a device. The
  readings of the clock are an argument; ports that are written are recorded in order; the
  integers the clock calls write go to the memory of the caller.
\<close>

datatype port_call = setPITMode u8 | setPITFrequency u16 | setSpeaker u8

record clock =
  getHour :: u8
  getMinute :: u8
  getSecond :: u8

record devices =
  scr :: screen
  is_showing :: bool
  port_log :: "port_call list"
  umem :: bytemem

section \<open>Speaker\<close>

definition SPEAKER_ON :: u8 where "SPEAKER_ON = 0xFF"
definition SPEAKER_OFF :: u8 where "SPEAKER_OFF = 0x00"

text \<open>The division is not guarded; the divisor is cut to 16 bits when it is passed on.\<close>

definition play_sound :: "u32 \<Rightarrow> devices \<Rightarrow> devices option" where
  "play_sound nFrequence d =
     (if nFrequence = 0 then None
      else Some (d\<lparr>port_log := port_log d @
        [setPITMode 0xb6, setPITFrequency (ucast (1193180 div nFrequence)), setSpeaker SPEAKER_ON]\<rparr>))"

section \<open>Cursor\<close>

definition TOGGLE_TICKS :: int where "TOGGLE_TICKS = 9"

text \<open>Division and remainder of C round towards zero; \<open>ticks_elapsed\<close> may be negative.\<close>

definition quot_c :: "int \<Rightarrow> int \<Rightarrow> int" where
  "quot_c a b = sgn a * sgn b * (\<bar>a\<bar> div \<bar>b\<bar>)"

definition toggleSpeed :: "kernel \<Rightarrow> int" where
  "toggleSpeed k = quot_c (ticks_elapsed k) TOGGLE_TICKS"

definition toggleCursor :: "kernel \<Rightarrow> devices \<Rightarrow> devices option" where
  "toggleCursor k d =
     (let toggle = toggleSpeed k - 2 * quot_c (toggleSpeed k) 2 in
      if toggle = 1 \<and> \<not> is_showing d then do { s \<leftarrow> showCursor (scr d); Some (d\<lparr>scr := s, is_showing := True\<rparr>) }
      else if toggle = 0 \<and> is_showing d then do { s \<leftarrow> hideCursor (scr d); Some (d\<lparr>scr := s, is_showing := False\<rparr>) }
      else Some d)"

section \<open>Messages\<close>

text \<open>What the other parts of the kernel print, as it is drawn.\<close>

fun draw_calls :: "video_call list \<Rightarrow> screen \<Rightarrow> screen option" where
  "draw_calls [] s = Some s"
| "draw_calls (Print bs # cs) s = do { s \<leftarrow> print (bs @ [0]) s; draw_calls cs s }"
| "draw_calls (PrintDec n # cs) s = do { s \<leftarrow> printDec n s; draw_calls cs s }"
| "draw_calls (PrintHex n # cs) s = do { s \<leftarrow> printHex n s; draw_calls cs s }"
| "draw_calls (NewLine # cs) s = do { s \<leftarrow> newLine s; draw_calls cs s }"

definition print_mem_status_common :: "u64 \<Rightarrow> u64 \<Rightarrow> u64 \<Rightarrow> video_call list" where
  "print_mem_status_common total_bytes used available =
     [Print (ascii ''=== Memory Status ==='' @ [10]),
      Print (ascii ''Total: ''), PrintDec total_bytes, NewLine,
      Print (ascii ''Used:  ''), PrintDec used, NewLine,
      Print (ascii ''Free:  ''), PrintDec available, NewLine]"

definition print_mem_status :: "kernel \<Rightarrow> screen \<Rightarrow> (int \<times> kernel \<times> screen) option" where
  "print_mem_status k s = do {
     ((total_bytes, used, available), m) \<leftarrow> mem_status (kmem k);
     s \<leftarrow> draw_calls (print_mem_status_common (of_nat total_bytes) (of_nat used) (of_nat available)) s;
     Some (0, k\<lparr>kmem := m\<rparr>, s)
   }"

section \<open>The system calls\<close>

definition on_screen :: "(screen \<Rightarrow> screen option) \<Rightarrow> kernel \<Rightarrow> devices \<Rightarrow> (int \<times> kernel \<times> devices) option" where
  "on_screen f k d = do { s \<leftarrow> f (scr d); Some (0, k, d\<lparr>scr := s\<rparr>) }"

definition on_frame :: "(vbe_mode_info \<Rightarrow> bytemem \<Rightarrow> bytemem option) \<Rightarrow> screen \<Rightarrow> screen option" where
  "on_frame f s = do { m \<leftarrow> f (mode s) (fbmem s); Some (s\<lparr>fbmem := m\<rparr>) }"

definition write_user_int :: "addr \<Rightarrow> u8 \<Rightarrow> kernel \<Rightarrow> devices \<Rightarrow> (int \<times> kernel \<times> devices) option" where
  "write_user_int p value k d = do { m \<leftarrow> store32 (umem d) p (ucast value); Some (0, k, d\<lparr>umem := m\<rparr>) }"

definition perform_device :: "clock \<Rightarrow> device_call \<Rightarrow> kernel \<Rightarrow> devices \<Rightarrow> (int \<times> kernel \<times> devices) option" where
  "perform_device clk c k d =
     (case c of
        Dev_play_sound f \<Rightarrow> do { d \<leftarrow> play_sound f d; Some (0, k, d) }
      | Dev_speaker_off \<Rightarrow> Some (0, k, d\<lparr>port_log := port_log d @ [setSpeaker SPEAKER_OFF]\<rparr>)
      | Dev_text_color col \<Rightarrow> on_screen (\<lambda>s. Some (setTextColor col s)) k d
      | Dev_background_color col \<Rightarrow> on_screen (\<lambda>s. Some (setBackgroundColor col s)) k d
      | Dev_decrease_font \<Rightarrow> (case decreaseFontSize (scr d) of (r, s) \<Rightarrow> Some (uint r, k, d\<lparr>scr := s\<rparr>))
      | Dev_increase_font \<Rightarrow> do { (r, s) \<leftarrow> increaseFontSize (scr d); Some (uint r, k, d\<lparr>scr := s\<rparr>) }
      | Dev_set_font n \<Rightarrow> (case setFontSize n (scr d) of (r, s) \<Rightarrow> Some (uint r, k, d\<lparr>scr := s\<rparr>))
      | Dev_clear \<Rightarrow> on_screen clear_screen k d
      | Dev_clear_previous \<Rightarrow> on_screen clearPreviousCharacter k d
      | Dev_hour p \<Rightarrow> write_user_int p (getHour clk) k d
      | Dev_minute p \<Rightarrow> write_user_int p (getMinute clk) k d
      | Dev_second p \<Rightarrow> write_user_int p (getSecond clk) k d
      | Dev_circle col x y diameter \<Rightarrow> on_screen (on_frame (\<lambda>v. drawCircle v col x y diameter)) k d
      | Dev_rectangle col w h x y \<Rightarrow> on_screen (on_frame (\<lambda>v. drawRectangle v col w h x y)) k d
      | Dev_fill col \<Rightarrow> on_screen (on_frame (\<lambda>v. fillVideoMemory v col)) k d
      | Dev_mem_status \<Rightarrow> do { (r, k, s) \<leftarrow> print_mem_status k (scr d); Some (r, k, d\<lparr>scr := s\<rparr>) }
      | Dev_width \<Rightarrow> Some (uint (getWindowWidth (mode (scr d))), k, d)
      | Dev_height \<Rightarrow> Some (uint (getWindowHeight (mode (scr d))), k, d))"

section \<open>Device calls leave the kernel alone\<close>

lemma perform_device_kernel:
  assumes "perform_device clk c k d = Some (r, k', d')" and "c \<noteq> Dev_mem_status"
  shows "k' = k"
  using assms by (cases c) (auto simp: perform_device_def on_screen_def write_user_int_def split: prod.splits)

lemma beep_without_frequency: "perform_device clk (Dev_play_sound 0) k d = None"
  by (simp add: perform_device_def play_sound_def)

end
