(* ===== verification/Boot.thy ===== *)
theory Boot
  imports Packer Create Devices
begin

unbundle bit_operations_syntax

text \<open>
  How the kernel starts: \<open>moduleLoader.c\<close> and \<open>kernel.c\<close> copy the packed modules to their
  places and clear the static variables, on the byte memory of \<open>KLib\<close>; \<open>idt/idtLoader.c\<close> fills the
  interrupt descriptor table, \<open>idt/irqDispatcher.c\<close> selects the handler, and \<open>main\<close> initialises
  the parts of the kernel in order. The addresses the linker and the assembler choose (the end of
  the kernel, the static variables, the interrupt entries) are arguments.
\<close>

section \<open>Loading the modules\<close>

definition readUint32 :: "addr \<Rightarrow> bytemem \<Rightarrow> (u32 \<times> addr) option" where
  "readUint32 address m = do { result \<leftarrow> load32 m address; Some (result, address + 4) }"

definition loadModule :: "addr \<Rightarrow> addr \<Rightarrow> bytemem \<Rightarrow> (addr \<times> bytemem) option" where
  "loadModule module targetModuleAddress m = do {
     (moduleSize, module) \<leftarrow> readUint32 module m;
     m \<leftarrow> memcpy targetModuleAddress module (ucast moduleSize) m;
     Some (module + unat moduleSize, m)
   }"

text \<open>Reading past the end of the array of target addresses is undefined.\<close>

function load_loop :: "nat \<Rightarrow> nat \<Rightarrow> addr list \<Rightarrow> addr \<Rightarrow> bytemem \<Rightarrow> bytemem option" where
  "load_loop i moduleCount targets currentModule m =
     (if i < moduleCount then
        if i < length targets then do {
          (currentModule, m) \<leftarrow> loadModule currentModule (targets ! i) m;
          load_loop (i + 1) moduleCount targets currentModule m
        }
        else None
      else Some m)"
  by pat_completeness auto
termination by (relation "measure (\<lambda>(i, n, ts, c, m). n - i)") auto

declare load_loop.simps [simp del]

definition loadModules :: "addr \<Rightarrow> addr list \<Rightarrow> bytemem \<Rightarrow> bytemem option" where
  "loadModules payloadStart targets m = do {
     (moduleCount, currentModule) \<leftarrow> readUint32 payloadStart m;
     load_loop 0 (unat moduleCount) targets currentModule m
   }"

section \<open>The entry of the kernel\<close>

definition PageSize :: nat where "PageSize = 0x1000"
definition shellModuleAddress :: addr where "shellModuleAddress = 0x400000"

definition clearBSS :: "addr \<Rightarrow> u64 \<Rightarrow> bytemem \<Rightarrow> bytemem option" where
  "clearBSS bssAddress bssSize m = memset bssAddress 0 bssSize m"

text \<open>The entry of a user module (\<open>Shell/_loader.c\<close>): its own static variables, and then its \<open>main\<close>.\<close>

definition start_program :: "addr \<Rightarrow> addr \<Rightarrow> (bytemem \<Rightarrow> 'r option) \<Rightarrow> bytemem \<Rightarrow> 'r option" where
  "start_program bss endOfBinary main m = do {
     m \<leftarrow> memset bss 0 (of_nat endOfBinary - of_nat bss) m;
     main m
   }"

definition getStackBase :: "addr \<Rightarrow> addr" where
  "getStackBase endOfKernel = endOfKernel + PageSize * 8 - 8"

definition initializeKernelBinary :: "addr \<Rightarrow> addr \<Rightarrow> addr \<Rightarrow> bytemem \<Rightarrow> (addr \<times> bytemem) option" where
  "initializeKernelBinary endOfKernelBinary bss endOfKernel m = do {
     m \<leftarrow> loadModules endOfKernelBinary [shellModuleAddress] m;
     m \<leftarrow> clearBSS bss (of_nat (endOfKernel - bss)) m;
     Some (getStackBase endOfKernel, m)
   }"

section \<open>Interrupts\<close>

record DESCR_INT =
  offset_l :: u16
  selector :: u16
  zero_field :: u8
  access_field :: u8
  offset_m :: u16
  offset_h :: u32
  other_zero :: u32

definition ACS_INT :: u8 where "ACS_INT = 0x80 OR 0x0E"
definition KEYBOARD_PIC_MASTER :: u8 where "KEYBOARD_PIC_MASTER = 0xFD"
definition TIMER_PIC_MASTER :: u8 where "TIMER_PIC_MASTER = 0xFE"
definition NO_INTERRUPTS :: u8 where "NO_INTERRUPTS = 0xFF"

definition setup_IDT_entry :: "nat \<Rightarrow> u64 \<Rightarrow> (nat \<rightharpoonup> DESCR_INT) \<Rightarrow> nat \<rightharpoonup> DESCR_INT" where
  "setup_IDT_entry index offset idt = idt(index \<mapsto> \<lparr>
     offset_l = ucast (offset AND 0xFFFF), selector = 0x08, zero_field = 0, access_field = ACS_INT,
     offset_m = ucast (drop_bit 16 offset AND 0xFFFF),
     offset_h = ucast (drop_bit 32 offset AND 0xFFFFFFFF), other_zero = 0\<rparr>)"

text \<open>
  The five entries of the table, from the addresses of the assembly routines, and the masks
  written to the two interrupt controllers.
\<close>

record irq_entries =
  exceptionHandler00 :: u64
  exceptionHandler06 :: u64
  irq00Handler :: u64
  irq01Handler :: u64
  irq80Handler :: u64

definition load_idt :: "irq_entries \<Rightarrow> (nat \<rightharpoonup> DESCR_INT) \<Rightarrow> (nat \<rightharpoonup> DESCR_INT) \<times> u8 \<times> u8" where
  "load_idt e idt =
     (let idt = setup_IDT_entry 0x00 (exceptionHandler00 e) idt;
          idt = setup_IDT_entry 0x06 (exceptionHandler06 e) idt;
          idt = setup_IDT_entry 0x20 (irq00Handler e) idt;
          idt = setup_IDT_entry 0x21 (irq01Handler e) idt;
          idt = setup_IDT_entry 0x80 (irq80Handler e) idt
      in (idt, KEYBOARD_PIC_MASTER AND TIMER_PIC_MASTER, NO_INTERRUPTS))"

text \<open>
  The handler of the keyboard may go on writing to the standard input; the handler of the timer
  counts the tick, blinks the cursor, wakes the sleepers and returns. The cursor only reads the
  counter, which \<open>timer_handler\<close> increments first and then leaves alone.
\<close>

datatype irq_frame = IRQ_Ret | IRQ_Keyboard keyboard_frame

definition irqDispatcher ::
  "u64 \<Rightarrow> u8 \<Rightarrow> keyboard \<Rightarrow> kernel \<Rightarrow> devices \<Rightarrow> (irq_frame \<times> keyboard \<times> kernel \<times> devices) option" where
  "irqDispatcher irq scancode kb k d =
     (if irq = 0 then do { k \<leftarrow> timer_handler k; d \<leftarrow> toggleCursor k d; Some (IRQ_Ret, kb, k, d) }
      else if irq = 1 then do { (f, kb, k) \<leftarrow> keyboardHandler scancode kb k; Some (IRQ_Keyboard f, kb, k, d) }
      else Some (IRQ_Ret, kb, k, d))"

section \<open>Initialisation\<close>

text \<open>
  \<open>main\<close> up to the loop that waits for interrupts; the flag says whether the first process was
  created, without which the processor halts with interrupts disabled.
\<close>

definition kernel_main ::
  "irq_entries \<Rightarrow> addr \<Rightarrow> addr \<Rightarrow> (nat \<rightharpoonup> DESCR_INT) \<Rightarrow> kernel \<Rightarrow> screen \<Rightarrow>
     (bool \<times> (nat \<rightharpoonup> DESCR_INT) \<times> kernel \<times> screen) option" where
  "kernel_main entries idle_entry init_entry idt k s =
     (case load_idt entries idt of
        (idt, master, slave) \<Rightarrow> do {
          k \<leftarrow> Some (k\<lparr>pic_master_mask := master\<rparr>);
          k \<leftarrow> Some (k\<lparr>kmem := mem_init (kmem k)\<rparr>);
          k \<leftarrow> process_table_init k;
          k \<leftarrow> scheduler_init idle_entry k;
          k \<leftarrow> Some (init_pipes k);
          s \<leftarrow> Some (snd (setFontSize 2 s));
          s \<leftarrow> clear_screen s;
          s \<leftarrow> print (ascii ''Launching init process...'' @ [10, 0]) s;
          (r, k) \<leftarrow> add_first_process init_entry k;
          if r < 0 then do { s \<leftarrow> print (ascii ''Failed to create init process'' @ [10, 0]) s; Some (False, idt, k, s) }
          else Some (True, idt, k, s)
        })"

section \<open>The descriptor table leads to the handlers\<close>

text \<open>The address the processor puts together from a descriptor.\<close>

definition gate_offset :: "DESCR_INT \<Rightarrow> u64" where
  "gate_offset d = ucast (offset_l d) OR push_bit 16 (ucast (offset_m d)) OR push_bit 32 (ucast (offset_h d))"

lemma split_offset:
  fixes offset :: u64
  shows "(ucast (ucast (offset AND 0xFFFF) :: u16) :: u64) OR
    push_bit 16 (ucast (ucast (drop_bit 16 offset AND 0xFFFF) :: u16)) OR
    push_bit 32 (ucast (ucast (drop_bit 32 offset AND 0xFFFFFFFF) :: u32)) = offset"
proof -
  have m: "(0xFFFF :: u64) = mask 16" "(0xFFFFFFFF :: u64) = mask 32" by (simp_all add: mask_eq_exp_minus_1)
  show ?thesis unfolding m
  proof (rule bit_word_eqI)
    fix n
    assume n: "n < LENGTH(64)"
    consider "n < 16" | "16 \<le> n" "n < 32" | "32 \<le> n" by linarith
    then show "bit ((ucast (ucast (offset AND mask 16) :: u16) :: u64) OR
        push_bit 16 (ucast (ucast (drop_bit 16 offset AND mask 16) :: u16)) OR
        push_bit 32 (ucast (ucast (drop_bit 32 offset AND mask 32) :: u32))) n = bit offset n"
      using n by cases (auto simp: bit_simps)
  qed
qed

lemma setup_IDT_entry_offset:
  "\<exists>d. setup_IDT_entry i offset idt i = Some d \<and> gate_offset d = offset \<and> access_field d = ACS_INT"
  using split_offset [of offset] by (simp add: setup_IDT_entry_def gate_offset_def)

lemma setup_IDT_entry_other: "j \<noteq> i \<Longrightarrow> setup_IDT_entry i offset idt j = idt j"
  by (simp add: setup_IDT_entry_def)

lemma load_idt_offsets:
  assumes "load_idt e idt = (idt', master, slave)"
  shows "map_option gate_offset (idt' 0x00) = Some (exceptionHandler00 e)"
    and "map_option gate_offset (idt' 0x06) = Some (exceptionHandler06 e)"
    and "map_option gate_offset (idt' 0x20) = Some (irq00Handler e)"
    and "map_option gate_offset (idt' 0x21) = Some (irq01Handler e)"
    and "map_option gate_offset (idt' 0x80) = Some (irq80Handler e)"
    and "i \<notin> {0x00, 0x06, 0x20, 0x21, 0x80} \<Longrightarrow> idt' i = idt i"
  using assms by (auto simp: load_idt_def Let_def setup_IDT_entry_def gate_offset_def split_offset)

text \<open>Exactly the timer and the keyboard are let through.\<close>

lemma load_idt_masks:
  assumes "load_idt e idt = (idt', master, slave)" and "n < 8"
  shows "bit master n \<longleftrightarrow> n \<notin> {0, 1}" and "bit slave n"
proof -
  have "n \<in> {0, 1, 2, 3, 4, 5, 6, 7}" using assms(2) by auto
  then show "bit master n \<longleftrightarrow> n \<notin> {0, 1}" and "bit slave n" using assms(1)
    by (auto simp: load_idt_def Let_def KEYBOARD_PIC_MASTER_def TIMER_PIC_MASTER_def NO_INTERRUPTS_def)
qed

section \<open>Bytes in memory\<close>

text \<open>The bytes \<open>bs\<close> are in the memory from \<open>a\<close> on; storing them there.\<close>

definition holds :: "bytemem \<Rightarrow> addr \<Rightarrow> u8 list \<Rightarrow> bool" where
  "holds m a bs \<longleftrightarrow> (\<forall>i < length bs. m (a + i) = Some (bs ! i))"

definition put_bytes :: "addr \<Rightarrow> u8 list \<Rightarrow> bytemem \<Rightarrow> bytemem" where
  "put_bytes d bs m = (\<lambda>a. if d \<le> a \<and> a < d + length bs then Some (bs ! (a - d)) else m a)"

fun put_all :: "(addr \<times> u8 list) list \<Rightarrow> bytemem \<Rightarrow> bytemem" where
  "put_all [] m = m"
| "put_all ((d, bs) # rest) m = put_all rest (put_bytes d bs m)"

lemma holds_nth:
  assumes "holds m a bs" and "a \<le> x" and "x < a + length bs"
  shows "m x = Some (bs ! (x - a))"
proof -
  have "x - a < length bs" using assms(2,3) by linarith
  then have "m (a + (x - a)) = Some (bs ! (x - a))" using assms(1) unfolding holds_def by blast
  then show ?thesis using assms(2) by simp
qed

lemma holds_append [simp]: "holds m a (xs @ ys) \<longleftrightarrow> holds m a xs \<and> holds m (a + length xs) ys"
proof
  assume h: "holds m a (xs @ ys)"
  have "m (a + length xs + i) = Some (ys ! i)" if "i < length ys" for i
    using h that unfolding holds_def by (auto dest!: spec [of _ "length xs + i"] simp: add.assoc)
  moreover have "m (a + i) = Some (xs ! i)" if "i < length xs" for i
    using h that unfolding holds_def by (auto dest!: spec [of _ i] simp: nth_append)
  ultimately show "holds m a xs \<and> holds m (a + length xs) ys" by (simp add: holds_def)
next
  assume h: "holds m a xs \<and> holds m (a + length xs) ys"
  have "m (a + i) = Some ((xs @ ys) ! i)" if "i < length (xs @ ys)" for i
  proof (cases "i < length xs")
    case False
    then show ?thesis
      using holds_nth [of m "a + length xs" ys "a + i"] h that by (simp add: nth_append)
  qed (use h in \<open>simp add: holds_def nth_append\<close>)
  then show "holds m a (xs @ ys)" by (simp add: holds_def)
qed

lemma holds_put_bytes_same: "holds (put_bytes d bs m) d bs"
  by (simp add: holds_def put_bytes_def)

lemma holds_put_bytes_other:
  assumes "holds m a bs" and "{a ..< a + length bs} \<inter> {d ..< d + length cs} = {}"
  shows "holds (put_bytes d cs m) a bs"
proof -
  have "a + i \<notin> {d ..< d + length cs}" if "i < length bs" for i
  proof -
    have "a + i \<in> {a ..< a + length bs}" using that by simp
    then show ?thesis using assms(2) by blast
  qed
  then show ?thesis using assms(1) by (auto simp: holds_def put_bytes_def)
qed

lemma dom_put_bytes: "dom m \<subseteq> dom (put_bytes d bs m)"
  by (auto simp: put_bytes_def dom_def)

lemma holds_dom: "holds m a bs \<Longrightarrow> {a ..< a + length bs} \<subseteq> dom m"
  using holds_nth by fastforce

lemma blit_put_bytes:
  assumes "holds m s bs"
  shows "blit d s (length bs) m = put_bytes d bs m"
proof
  fix x
  show "blit d s (length bs) m x = put_bytes d bs m x"
    using holds_nth [OF assms, of "s + (x - d)"] by (auto simp: blit_def put_bytes_def)
qed

lemma word_of_bytes32:
  fixes w :: u32
  shows "(ucast (ucast w :: u8) :: u32) OR push_bit 8 (ucast (ucast (drop_bit 8 w) :: u8)) OR
    push_bit 16 (ucast (ucast (drop_bit 16 w) :: u8)) OR push_bit 24 (ucast (ucast (drop_bit 24 w) :: u8)) = w"
proof (rule bit_word_eqI)
  fix n
  assume n: "n < LENGTH(32)"
  consider "n < 8" | "8 \<le> n" "n < 16" | "16 \<le> n" "n < 24" | "24 \<le> n" by linarith
  then show "bit ((ucast (ucast w :: u8) :: u32) OR push_bit 8 (ucast (ucast (drop_bit 8 w) :: u8)) OR
    push_bit 16 (ucast (ucast (drop_bit 16 w) :: u8)) OR push_bit 24 (ucast (ucast (drop_bit 24 w) :: u8))) n = bit w n"
    using n by cases (auto simp: bit_simps)
qed

lemma readUint32_bytes32:
  assumes "holds m a (bytes32 w)"
  shows "readUint32 a m = Some (w, a + 4)"
proof -
  have "m (a + i) = Some (bytes32 w ! i)" if "i < 4" for i using assms that by (simp add: holds_def)
  from this [of 0] this [of 1] this [of 2] this [of 3] show ?thesis
    using word_of_bytes32 [of w] by (simp add: readUint32_def load32_def load8_def bytes32_def)
qed

lemma memset_loop_put:
  assumes "{d ..< d + n} \<subseteq> dom m"
  shows "memset_loop d c n m = Some (put_bytes d (replicate n c) m)"
  using assms
proof (induction n arbitrary: m)
  case 0
  then show ?case by (auto simp: put_bytes_def fun_eq_iff)
next
  case (Suc n)
  have "d + n \<in> {d ..< d + Suc n}" by simp
  then have "m (d + n) \<noteq> None" using Suc.prems by blast
  moreover have "memset_loop d c n (m(d + n \<mapsto> c)) = Some (put_bytes d (replicate n c) (m(d + n \<mapsto> c)))"
    using Suc.prems by (intro Suc.IH) fastforce
  moreover have "put_bytes d (replicate n c) (m(d + n \<mapsto> c)) = put_bytes d (replicate (Suc n) c) m"
    by (auto simp: put_bytes_def fun_eq_iff nth_append simp del: replicate_Suc simp: replicate_append_same [symmetric])
  ultimately show ?case by (auto simp: store8_def)
qed

text \<open>A program starts with its static variables cleared, and nothing else changed.\<close>

lemma start_program_clears:
  assumes "bss \<le> eob" and "eob < 2 ^ 64" and "{bss..<eob} \<subseteq> dom m"
  shows "start_program bss eob main m = main (put_bytes bss (replicate (eob - bss) 0) m)"
proof -
  have "unat (of_nat eob - of_nat bss :: u64) = eob - bss"
    using assms(1,2) by (simp add: unat_of_nat take_bit_nat_eq_self flip: of_nat_diff)
  then show ?thesis using memset_loop_put [of bss "eob - bss" m 0] assms(1,3) by (simp add: start_program_def memset_def)
qed

section \<open>The loader takes apart what the packer put together\<close>

text \<open>There is memory for the module at its target, apart from the bytes of the image.\<close>

definition loadable :: "bytemem \<Rightarrow> addr set \<Rightarrow> addr \<Rightarrow> u8 list \<Rightarrow> bool" where
  "loadable m area t bs \<longleftrightarrow> length bs < 2 ^ 32 \<and> {t ..< t + length bs} \<subseteq> dom m \<and> {t ..< t + length bs} \<inter> area = {}"

lemma length_packed_module [simp]: "length (packed_module bs) = 4 + length bs"
  by (simp add: packed_module_def)

lemma loadModule_packed:
  assumes "holds m a (packed_module bs)" and "loadable m {a ..< a + 4 + length bs} t bs"
  shows "loadModule a t m = Some (a + 4 + length bs, put_bytes t bs m)"
proof -
  have h: "holds m a (bytes32 (of_nat (length bs)))" "holds m (a + 4) bs"
    using assms(1) by (simp_all add: packed_module_def)
  have l: "unat (of_nat (length bs) :: u32) = length bs" "unat (ucast (of_nat (length bs) :: u32) :: u64) = length bs"
    using assms(2) by (simp_all add: loadable_def unat_of_nat_small unsigned_ucast_eq take_bit_nat_eq_self)
  have "{a + 4 ..< a + 4 + length bs} \<subseteq> {a ..< a + 4 + length bs}" by auto
  then have "copyable t (a + 4) (unat (ucast (of_nat (length bs) :: u32) :: u64)) m"
    using assms(2) holds_dom [OF h(2)] unfolding l copyable_def loadable_def by blast
  from memcpy_blit [OF this] show ?thesis
    using readUint32_bytes32 [OF h(1)] blit_put_bytes [OF h(2)] l by (simp add: loadModule_def)
qed

lemma loadable_put: "loadable m A t bs \<Longrightarrow> loadable (put_bytes d cs m) A t bs"
  using dom_put_bytes [of m d cs] unfolding loadable_def by blast

lemma loadable_subset: "loadable m A t bs \<Longrightarrow> B \<subseteq> A \<Longrightarrow> loadable m B t bs"
  unfolding loadable_def by blast

lemma load_loop_packed:
  assumes "holds m a (concat (map packed_module modules))" and "length ts = length modules"
    and "list_all2 (loadable m {a ..< a + length (concat (map packed_module modules))}) ts modules"
  shows "load_loop (length pre) (length pre + length modules) (pre @ ts) a m = Some (put_all (zip ts modules) m)"
  using assms
proof (induction modules arbitrary: pre ts a m)
  case Nil
  then show ?case by (simp add: load_loop.simps)
next
  case (Cons bs modules)
  obtain t ts' where ts: "ts = t # ts'" using Cons.prems(2) by (cases ts) auto
  let ?A = "{a ..< a + length (concat (map packed_module (bs # modules)))}" and ?m = "put_bytes t bs m"
  let ?b = "a + 4 + length bs"
  let ?B = "{?b ..< ?b + length (concat (map packed_module modules))}"
  have AB: "?B \<subseteq> ?A" "{a ..< ?b} \<subseteq> ?A" by auto
  have h: "holds m a (packed_module bs)" "holds m ?b (concat (map packed_module modules))"
    using Cons.prems(1) by (simp_all add: add.assoc)
  have t: "loadable m ?A t bs" and r: "list_all2 (loadable m ?A) ts' modules" using Cons.prems(3) ts by auto
  have one: "loadModule a t m = Some (?b, ?m)"
    by (rule loadModule_packed [OF h(1)]) (rule loadable_subset [OF t AB(2)])
  have "?B \<inter> {t ..< t + length bs} = {}" using t AB(1) unfolding loadable_def by blast
  then have "holds ?m ?b (concat (map packed_module modules))" by (rule holds_put_bytes_other [OF h(2)])
  moreover have "list_all2 (loadable ?m ?B) ts' modules"
    using r by (rule list_all2_mono) (rule loadable_put, erule loadable_subset [OF _ AB(1)])
  ultimately have "load_loop (length (pre @ [t])) (length (pre @ [t]) + length modules) ((pre @ [t]) @ ts') ?b ?m =
    Some (put_all (zip ts' modules) ?m)"
    using Cons.prems(2) ts by (intro Cons.IH) auto
  then show ?case
    using one ts by (subst load_loop.simps) (simp add: nth_append)
qed

lemma loadModules_packed:
  assumes "holds m a (bytes32 (of_nat (length modules)) @ concat (map packed_module modules))"
    and "length modules < 2 ^ 32" and "length ts = length modules"
    and "list_all2 (loadable m {a + 4 ..< a + 4 + length (concat (map packed_module modules))}) ts modules"
  shows "loadModules a ts m = Some (put_all (zip ts modules) m)"
proof -
  have h: "holds m a (bytes32 (of_nat (length modules)))" "holds m (a + 4) (concat (map packed_module modules))"
    using assms(1) by simp_all
  have n: "unat (of_nat (length modules) :: u32) = length modules" using assms(2) by (simp add: unat_of_nat_small)
  show ?thesis
    using load_loop_packed [OF h(2) assms(3,4), of "[]"] readUint32_bytes32 [OF h(1)] n
    by (simp add: loadModules_def)
qed

lemma clearBSS_put:
  assumes "{bss ..< eok} \<subseteq> dom m" and "bss \<le> eok" and "eok \<le> shellModuleAddress"
  shows "clearBSS bss (of_nat (eok - bss)) m = Some (put_bytes bss (replicate (eok - bss) 0) m)"
proof -
  have "eok - bss < 2 ^ LENGTH(64)" using assms(3) by (simp add: shellModuleAddress_def)
  then have "unat (of_nat (eok - bss) :: u64) = eok - bss" by (rule unat_of_nat_small)
  then show ?thesis using memset_loop_put [of bss "eok - bss" m] assms(1,2) by (simp add: clearBSS_def memset_def)
qed

lemma put_bytes_outside: "a \<notin> {d ..< d + length bs} \<Longrightarrow> put_bytes d bs m a = m a"
  by (auto simp: put_bytes_def)

text \<open>
  The static variables start where the payload lies: they are cleared only after the modules
  were copied.
\<close>

lemma initializeKernelBinary_packed:
  assumes "holds m base (packed kbytes [shell])"
    and "base + length kbytes \<le> bss" and "bss \<le> eok" and "eok \<le> shellModuleAddress"
    and "base + length (packed kbytes [shell]) \<le> shellModuleAddress" and "length shell < 2 ^ 32"
    and "{bss ..< eok} \<subseteq> dom m" and "{shellModuleAddress ..< shellModuleAddress + length shell} \<subseteq> dom m"
  shows "initializeKernelBinary (base + length kbytes) bss eok m =
    Some (getStackBase eok, put_bytes bss (replicate (eok - bss) 0) (put_bytes shellModuleAddress shell m))"
proof -
  let ?a = "base + length kbytes" and ?t = shellModuleAddress
  have h: "holds m ?a (bytes32 (of_nat (length [shell])) @ concat (map packed_module [shell]))"
    using assms(1) by (simp add: packed_def)
  have "{?t ..< ?t + length shell} \<inter> {?a + 4 ..< ?a + 4 + length (concat (map packed_module [shell]))} = {}"
    using assms(5) by (auto simp: packed_def)
  then have "list_all2 (loadable m {?a + 4 ..< ?a + 4 + length (concat (map packed_module [shell]))}) [?t] [shell]"
    using assms(6,8) by (simp add: loadable_def)
  from loadModules_packed [OF h _ _ this] have "loadModules ?a [?t] m = Some (put_bytes ?t shell m)" by simp
  moreover have "{bss ..< eok} \<subseteq> dom (put_bytes ?t shell m)"
    using assms(7) dom_put_bytes [of m ?t shell] by blast
  ultimately show ?thesis using clearBSS_put [OF _ assms(3,4)] by (simp add: initializeKernelBinary_def)
qed

text \<open>
  C35. The image the packer builds is what the kernel takes apart when it starts: with the image
  in memory from the address the kernel is linked to, the shell ends up, byte for byte, at the
  entry point its process is created with, the kernel is unchanged, its static variables are zero
  and nothing else is written. The payload may overlap the static variables.
\<close>

theorem boot_loads_shell:
  assumes "fs kf = Some kbytes" and "fs sf = Some shell" and "creatable out" and "out \<notin> {kf, sf}"
    and "0x100000 + length kbytes \<le> bss" and "bss \<le> eok" and "eok \<le> shellModuleAddress"
    and "0x100000 + (length kbytes + 8 + length shell) \<le> shellModuleAddress"
    and "{bss ..< eok} \<union> {shellModuleAddress ..< shellModuleAddress + length shell} \<subseteq> dom m"
  shows "\<exists>img. packer_main creatable (argp_keys (Some out) [kf, sf]) fs = Some (Some 0, '''', fs(out \<mapsto> img)) \<and>
    (holds m 0x100000 img \<longrightarrow>
      (\<exists>m'. initializeKernelBinary (0x100000 + length kbytes) bss eok m = Some (eok + 0x7FF8, m') \<and>
        holds m' SHELL_PROCESS_ENTRY shell \<and> holds m' 0x100000 kbytes \<and> holds m' bss (replicate (eok - bss) 0) \<and>
        (\<forall>a. a \<notin> {bss ..< eok} \<longrightarrow> a \<notin> {SHELL_PROCESS_ENTRY ..< SHELL_PROCESS_ENTRY + length shell} \<longrightarrow> m' a = m a)))"
proof (intro exI conjI impI)
  let ?t = shellModuleAddress
  let ?m' = "put_bytes bss (replicate (eok - bss) 0) (put_bytes ?t shell m)"
  show "packer_main creatable (argp_keys (Some out) [kf, sf]) fs = Some (Some 0, '''', fs(out \<mapsto> packed kbytes [shell]))"
    using packer_main_packed [of kf "[sf]" creatable "Some out" fs kbytes "[shell]"] assms(1-4)
    by (simp add: output_of_def MAX_FILES_def)
  have t: "SHELL_PROCESS_ENTRY = ?t" by (simp add: SHELL_PROCESS_ENTRY_def shellModuleAddress_def)
  have l: "length shell < 2 ^ 32" using assms(8) by (simp add: shellModuleAddress_def)
  assume img: "holds m 0x100000 (packed kbytes [shell])"
  then show "initializeKernelBinary (0x100000 + length kbytes) bss eok m = Some (eok + 0x7FF8, ?m')"
    using initializeKernelBinary_packed [OF img assms(5-7) _ l] assms(8,9)
    by (simp add: packed_def getStackBase_def PageSize_def)
  show "holds ?m' SHELL_PROCESS_ENTRY shell"
    unfolding t using assms(6,7) by (intro holds_put_bytes_other holds_put_bytes_same) auto
  show "holds ?m' 0x100000 kbytes"
    using img assms(5,8) by (intro holds_put_bytes_other) (auto simp: packed_def)
  show "holds ?m' bss (replicate (eok - bss) 0)" using holds_put_bytes_same [of bss "replicate (eok - bss) 0"] by simp
  show "\<forall>a. a \<notin> {bss ..< eok} \<longrightarrow> a \<notin> {SHELL_PROCESS_ENTRY ..< SHELL_PROCESS_ENTRY + length shell} \<longrightarrow> ?m' a = m a"
    unfolding t using assms(6) by (simp add: put_bytes_outside)
qed

theorem boot_loads_shell_witness:
  "\<exists>m'. initializeKernelBinary (0x100000 + 2) 0x100002 0x200000
      (put_bytes 0x100000 (packed [7, 8] [[1, 2, 3]]) (\<lambda>_. Some 9)) = Some (0x200000 + 0x7FF8, m') \<and>
    holds m' 0x400000 [1, 2, 3]"
proof -
  let ?m = "put_bytes 0x100000 (packed [7, 8] [[1, 2, 3]]) (\<lambda>_. Some 9)" and ?fs = "[''k'' \<mapsto> [7, 8], ''s'' \<mapsto> [1, 2, 3]]"
  have dm: "dom ?m = UNIV" by (auto simp: put_bytes_def dom_def)
  have p: "packer_main (\<lambda>_. True) (argp_keys (Some ''o'') [''k'', ''s'']) ?fs =
    Some (Some 0, '''', ?fs(''o'' \<mapsto> packed [7, 8] [[1, 2, 3]]))"
    using packer_main_packed [of "''k''" "[''s'']" "\<lambda>_. True" "Some ''o''" ?fs "[7, 8]" "[[1, 2, 3]]"]
    by (simp add: output_of_def MAX_FILES_def)
  obtain img where img: "packer_main (\<lambda>_. True) (argp_keys (Some ''o'') [''k'', ''s'']) ?fs = Some (Some 0, '''', ?fs(''o'' \<mapsto> img))"
    "holds ?m 0x100000 img \<longrightarrow> (\<exists>m'. initializeKernelBinary (0x100000 + length [7, 8 :: u8]) 0x100002 0x200000 ?m =
      Some (0x200000 + 0x7FF8, m') \<and> holds m' SHELL_PROCESS_ENTRY [1, 2, 3])"
    using boot_loads_shell [of ?fs "''k''" "[7, 8]" "''s''" "[1, 2, 3]" "\<lambda>_. True" "''o''" "0x100002" "0x200000" ?m]
    by (auto simp: dm shellModuleAddress_def)
  from img(1) p have "?fs(''o'' \<mapsto> packed [7, 8] [[1, 2, 3]]) = ?fs(''o'' \<mapsto> img)" by simp
  from fun_cong [OF this, of "''o''"] have "img = packed [7, 8] [[1, 2, 3]]" by simp
  then have "holds ?m 0x100000 img" using holds_put_bytes_same by simp
  then show ?thesis using img(2) by (simp add: SHELL_PROCESS_ENTRY_def)
qed

end
