(* ===== verification/Fonts_Props.thy ===== *)
theory Fonts_Props
  imports Fonts
begin

text \<open>
  Text stays on the screen: an invariant of the text position under which every operation of
  \<open>Fonts\<close> is defined, that is, stores only into the frame buffer, and which it keeps; and the
  call that breaks it.
\<close>

section \<open>The invariant\<close>

text \<open>
  The column is a multiple of the width of a character, and both the current size of the font
  and the tallest character of the line fit between the line and the bottom of the screen. The
  screen has room for four characters of the largest size beside each other and two on top.
\<close>

definition screen_ok :: "screen \<Rightarrow> bool" where
  "screen_ok s \<longleftrightarrow> screen_mode (mode s) \<and> screen_mem (mode s) (fbmem s) \<and>
     320 \<le> uint (width (mode s)) \<and> 160 \<le> uint (height (mode s)) \<and>
     glyphSizeX s = 8 \<and> glyphSizeY s = 8 \<and> fontSize s \<in> {1..10} \<and>
     0 \<le> xBufferPosition s \<and> xBufferPosition s \<le> uint (width (mode s)) \<and> glyph_w s dvd xBufferPosition s \<and>
     0 \<le> yBufferPosition s \<and> yBufferPosition s + glyph_h s \<le> uint (height (mode s)) \<and>
     yBufferPosition s + uint (maxGlyphSizeYOnLine s) \<le> uint (height (mode s))"

lemma glyph_size:
  assumes "glyphSizeX s = 8" and "glyphSizeY s = 8" and "fontSize s \<in> {1..10}"
  shows "glyph_w s = 8 * uint (fontSize s)" and "glyph_h s = glyph_w s" and "8 \<le> glyph_w s" and "glyph_w s \<le> 80"
proof -
  have "1 \<le> uint (fontSize s)" "uint (fontSize s) \<le> 10" using assms(3) by (simp_all add: word_le_def)
  then show "glyph_w s = 8 * uint (fontSize s)" "glyph_h s = glyph_w s" "8 \<le> glyph_w s" "glyph_w s \<le> 80"
    using assms(1,2) by (simp_all add: glyph_w_def glyph_h_def)
qed

lemma screen_okD:
  assumes "screen_ok s"
  shows "screen_mode (mode s)" "screen_mem (mode s) (fbmem s)" "320 \<le> uint (width (mode s))"
    "160 \<le> uint (height (mode s))" "glyphSizeX s = 8" "glyphSizeY s = 8" "fontSize s \<in> {1..10}"
    "0 \<le> xBufferPosition s" "xBufferPosition s \<le> uint (width (mode s))" "glyph_w s dvd xBufferPosition s"
    "0 \<le> yBufferPosition s" "yBufferPosition s + glyph_h s \<le> uint (height (mode s))"
    "yBufferPosition s + uint (maxGlyphSizeYOnLine s) \<le> uint (height (mode s))"
    "glyph_h s = glyph_w s" "8 \<le> glyph_w s" "glyph_w s \<le> 80"
  using assms glyph_size [of s] unfolding screen_ok_def by blast+

lemma window_small: "uint (width v) < 65536" "uint (height v) < 65536"
  using unsigned_less [where 'a = int and w = "width v"] unsigned_less [where 'a = int and w = "height v"] by simp_all

lemma glyph_upd [simp]:
  "glyph_w (s\<lparr>fbmem := m\<rparr>) = glyph_w s" "glyph_h (s\<lparr>fbmem := m\<rparr>) = glyph_h s"
  "glyph_w (s\<lparr>xBufferPosition := x\<rparr>) = glyph_w s" "glyph_h (s\<lparr>xBufferPosition := x\<rparr>) = glyph_h s"
  "glyph_w (s\<lparr>yBufferPosition := x\<rparr>) = glyph_w s" "glyph_h (s\<lparr>yBufferPosition := x\<rparr>) = glyph_h s"
  "glyph_w (s\<lparr>dirty_line := d\<rparr>) = glyph_w s" "glyph_h (s\<lparr>dirty_line := d\<rparr>) = glyph_h s"
  "glyph_w (s\<lparr>maxGlyphSizeYOnLine := n\<rparr>) = glyph_w s" "glyph_h (s\<lparr>maxGlyphSizeYOnLine := n\<rparr>) = glyph_h s"
  "glyph_w (s\<lparr>text_color := c\<rparr>) = glyph_w s" "glyph_h (s\<lparr>text_color := c\<rparr>) = glyph_h s"
  "glyph_w (s\<lparr>background_color := c\<rparr>) = glyph_w s" "glyph_h (s\<lparr>background_color := c\<rparr>) = glyph_h s"
  "glyph_w (s\<lparr>file_descriptor := f\<rparr>) = glyph_w s" "glyph_h (s\<lparr>file_descriptor := f\<rparr>) = glyph_h s"
  "glyph_w (s\<lparr>num_buffer := b\<rparr>) = glyph_w s" "glyph_h (s\<lparr>num_buffer := b\<rparr>) = glyph_h s"
  by (simp_all add: glyph_w_def glyph_h_def)

lemma screen_ok_upd [simp]:
  "screen_ok (s\<lparr>dirty_line := d\<rparr>) = screen_ok s" "screen_ok (s\<lparr>text_color := c\<rparr>) = screen_ok s"
  "screen_ok (s\<lparr>background_color := c\<rparr>) = screen_ok s" "screen_ok (s\<lparr>file_descriptor := f\<rparr>) = screen_ok s"
  "screen_ok (s\<lparr>num_buffer := b\<rparr>) = screen_ok s"
  by (simp_all add: screen_ok_def)

section \<open>Drawing a character\<close>

text \<open>A character of the table fits below and to the right of the position.\<close>

lemma bitmap_byte_ascii:
  assumes "c < 128" and "j < 8"
  shows "\<exists>row. bitmap_byte (sint (c :: u8) * 8 + int j) = Some row"
proof -
  have "uint c < 128" using assms(1) by (simp add: word_less_def)
  moreover have "- 128 \<le> uint c" by (rule order_trans [OF _ unsigned_greater_eq]) simp
  ultimately have "sint c = uint c" by (subst sint_uint, subst signed_take_bit_int_eq_self) simp_all
  then show ?thesis using \<open>uint c < 128\<close> assms(2) by (simp add: bitmap_byte_def)
qed

lemma sint_small_nat: "n < 2147483648 \<Longrightarrow> sint (of_nat n :: u32) = int n"
  by (simp add: signed_of_nat signed_take_bit_int_eq_self)

lemma position_word:
  assumes "0 \<le> p" and "p + int x < 2 ^ 31"
  shows "of_int (sint (ucast (of_int p + of_nat x :: u64) :: u32)) = (of_nat (nat p + x) :: u64)"
    and "of_int p + of_nat x = (of_nat (nat p + x) :: u64)"
proof -
  show eq: "of_int p + of_nat x = (of_nat (nat p + x) :: u64)" using assms(1) by simp
  have "p + int x < 2147483648" using assms(2) by simp
  then have n: "nat p + x < 2147483648" using assms(1) by linarith
  have "(ucast (of_nat (nat p + x) :: u64) :: u32) = of_nat (nat p + x)"
    using n by (simp only: unsigned_of_nat) (simp add: take_bit_nat_eq_self)
  moreover have "sint (of_nat (nat p + x) :: u32) = int (nat p + x)"
    by (rule sint_small_nat [OF n])
  ultimately show "of_int (sint (ucast (of_int p + of_nat x :: u64) :: u32)) = (of_nat (nat p + x) :: u64)"
    unfolding eq by simp
qed

lemma nat_less_uint: "0 \<le> p \<Longrightarrow> p + int x < uint (w :: u16) \<Longrightarrow> nat p + x < unat w"
proof -
  assume p: "0 \<le> p" and "p + int x < uint w"
  then have "int (nat p + x) < int (unat w)" by simp
  then show ?thesis unfolding of_nat_less_iff .
qed

lemma renderFromBitmap_screen:
  assumes ok: "screen_mode (mode s)" "screen_mem (mode s) m" "glyphSizeX s = 8" "glyphSizeY s = 8" "fontSize s \<in> {1..10}"
    and c: "(c :: u8) < 128" and x: "0 \<le> px" "px + glyph_w s \<le> uint (width (mode s))"
    and y: "0 \<le> py" "py + glyph_h s \<le> uint (height (mode s))"
  shows "\<exists>m'. renderFromBitmap s (sint c * 8) (of_int px) (of_int py) m = Some m' \<and> screen_mem (mode s) m'"
proof -
  note g = glyph_size [OF ok(3-5)]
  have fs: "glyph_h s = 8 * int (unat (fontSize s))" using g by auto
  show ?thesis unfolding renderFromBitmap_def Let_def
  proof (rule for_upto_screen [OF ok(2)], rule for_upto_screen)
    fix i j m
    assume i: "i < 0 + nat (glyph_w s)" and m: "screen_mem (mode s) m" and j: "j < 0 + nat (glyph_h s)"
    have "px + int i < uint (width (mode s))" "py + int j < uint (height (mode s))" using i j x y by linarith+
    note lt = this nat_less_uint [OF x(1) this(1)] nat_less_uint [OF y(1) this(2)]
    have small: "px + int i < 2 ^ 31" "py + int j < 2 ^ 31" using lt(1,2) window_small [of "mode s"] by simp_all
    have "j < 8 * unat (fontSize s)" using j fs by linarith
    then have "j div unat (fontSize s) < 8" by (simp add: less_mult_imp_div_less)
    then obtain row where row: "bitmap_byte (sint c * 8 + int (j div unat (fontSize s))) = Some row"
      using bitmap_byte_ascii [OF c] by blast
    have "\<exists>m'. putPixel (mode s) col (of_nat (nat px + i)) (of_nat (nat py + j)) m = Some m' \<and> screen_mem (mode s) m'" for col
      by (rule putPixel_screen [OF ok(1) m lt(3,4)])
    then show "\<exists>m'. (do { row \<leftarrow> bitmap_byte (sint c * 8 + int (j div unat (fontSize s)));
        putPixel (mode s) (if bit (scast row :: u32) (i div unat (fontSize s)) then text_color s else background_color s)
          (of_int (sint (ucast (of_int px + of_nat i :: u64) :: u32))) (of_int py + of_nat j) m }) = Some m' \<and>
      screen_mem (mode s) m'"
      unfolding row bind.bind_lunit position_word(1) [OF x(1) small(1)] position_word(2) [OF y(1) small(2)] .
  qed
qed

section \<open>Moving on the screen\<close>

lemma int_of_32: "- 65536 \<le> i \<Longrightarrow> i < 1000000 \<Longrightarrow> int_of 32 i = Some i"
  by (simp add: int_of_def)

lemma scroll_ok:
  assumes "screen_mode (mode s)" "screen_mem (mode s) (fbmem s)" "320 \<le> uint (width (mode s))"
    and "160 \<le> uint (height (mode s))" "glyphSizeX s = 8" "glyphSizeY s = 8" "fontSize s \<in> {1..10}"
    and "xBufferPosition s = 0" and "0 \<le> yBufferPosition s" and "yBufferPosition s \<le> uint (height (mode s))"
    and "uint (maxGlyphSizeYOnLine s) = glyph_h s \<or> yBufferPosition s + uint (maxGlyphSizeYOnLine s) \<le> uint (height (mode s))"
  shows "\<exists>s'. scrollBufferPositionIfNeeded s = Some s' \<and> screen_ok s' \<and> xBufferPosition s' = 0 \<and>
    mode s' = mode s \<and> fontSize s' = fontSize s \<and> glyph_w s' = glyph_w s"
proof (cases "uint (height (mode s)) < yBufferPosition s + glyph_h s")
  case True
  note g = glyph_size [OF assms(5-7)]
  obtain m where m: "scrollVideoMemoryUp (mode s) (of_int (glyph_h s)) DEFAULT_BACKGROUND_COLOR (fbmem s) = Some m"
    "screen_mem (mode s) m"
    using scrollVideoMemoryUp_screen [OF assms(1,2)] by blast
  have y: "0 \<le> yBufferPosition s - glyph_h s" "yBufferPosition s - glyph_h s < 65536"
    using True assms(4,10) g window_small(2) [of "mode s"] by linarith+
  have "int_of 32 (yBufferPosition s - glyph_h s) = Some (yBufferPosition s - glyph_h s)"
    using y by (intro int_of_32) linarith+
  moreover have "screen_ok (s\<lparr>fbmem := m, yBufferPosition := yBufferPosition s - glyph_h s\<rparr>)"
    using assms m(2) y(1) g unfolding screen_ok_def by auto
  ultimately show ?thesis
    using True m(1) assms(8) by (simp add: scrollBufferPositionIfNeeded_def getWindowHeight_def)
next
  case False
  then have "screen_ok s" using assms unfolding screen_ok_def by auto
  then show ?thesis using False assms(8) by (simp add: scrollBufferPositionIfNeeded_def getWindowHeight_def)
qed

lemma newLine_ok:
  assumes "screen_ok s"
  shows "\<exists>s'. newLine s = Some s' \<and> screen_ok s' \<and> xBufferPosition s' = 0 \<and> mode s' = mode s \<and>
    fontSize s' = fontSize s \<and> glyph_w s' = glyph_w s"
proof -
  note k = screen_okD [OF assms]
  let ?y = "yBufferPosition s + uint (maxGlyphSizeYOnLine s)"
  have "0 \<le> ?y" using k(11) by (simp add: add_nonneg_nonneg)
  then have y: "int_of 32 ?y = Some ?y" using k(13) window_small(2) [of "mode s"] by (intro int_of_32) linarith+
  have h: "uint (of_int (glyph_h s) :: u16) = glyph_h s"
    using k(14-16) by (simp add: take_bit_int_eq_self uint_word_of_int_eq)
  show ?thesis unfolding newLine_def y bind.bind_lunit
    using scroll_ok [of "s\<lparr>dirty_line := 0, yBufferPosition := ?y, xBufferPosition := 0, maxGlyphSizeYOnLine := of_int (glyph_h s)\<rparr>"]
      k \<open>0 \<le> ?y\<close> h by simp
qed

lemma retractPosition_ok:
  assumes "screen_ok s"
  shows "\<exists>s'. retractPosition s = Some s' \<and> screen_ok s' \<and> mode s' = mode s \<and> glyph_w s' = glyph_w s \<and>
    (0 < xBufferPosition s \<longrightarrow> xBufferPosition s' = xBufferPosition s - glyph_w s)"
proof (cases "xBufferPosition s = 0")
  case True
  note k = screen_okD [OF assms]
  let ?w = "uint (width (mode s))" and ?y = "yBufferPosition s - glyph_h s"
  let ?x = "?w - ?w mod glyph_w s - glyph_w s"
  have y: "int_of 32 ?y = Some ?y" using k window_small(2) [of "mode s"] by (intro int_of_32) linarith+
  have "?w - ?w mod glyph_w s = glyph_w s * (?w div glyph_w s)" by (metis minus_mod_eq_mult_div)
  then have d: "glyph_w s dvd ?x" by simp
  have "0 \<le> ?w mod glyph_w s" "?w mod glyph_w s < glyph_w s" using k(15) by simp_all
  then have b: "0 \<le> ?x" "?x \<le> ?w" using k(3,15,16) by linarith+
  have x: "int_of 32 ?x = Some ?x" using b window_small(1) [of "mode s"] by (intro int_of_32) linarith+
  show ?thesis using True y x k b d unfolding retractPosition_def getWindowWidth_def Let_def
    by (auto simp: screen_ok_def)
next
  case False
  note k = screen_okD [OF assms]
  let ?x = "xBufferPosition s - glyph_w s"
  have "glyph_w s \<le> xBufferPosition s" using False k(8,10) by (intro zdvd_imp_le) auto
  then have b: "0 \<le> ?x" "?x \<le> uint (width (mode s))" using k(9,15) by linarith+
  have x: "int_of 32 ?x = Some ?x" using b window_small(1) [of "mode s"] by (intro int_of_32) linarith+
  have "glyph_w s dvd ?x" using k(10) by simp
  then have "screen_ok (s\<lparr>xBufferPosition := ?x\<rparr>)" using assms b unfolding screen_ok_def by simp
  then show ?thesis using False x by (simp add: retractPosition_def Let_def)
qed

section \<open>Characters\<close>

text \<open>Where a character goes: to the right, or to the start of the next line.\<close>

definition next_column :: "screen \<Rightarrow> int" where
  "next_column s = (if uint (width (mode s)) < xBufferPosition s + glyph_w s then glyph_w s else xBufferPosition s + glyph_w s)"

lemma put_glyph_fits:
  assumes "screen_ok s" and "c < 128" and "xBufferPosition s + glyph_w s \<le> uint (width (mode s))"
  shows "\<exists>m'. renderAscii c (of_int (xBufferPosition s)) (of_int (yBufferPosition s)) s = Some (s\<lparr>fbmem := m'\<rparr>) \<and>
    screen_ok (s\<lparr>fbmem := m', xBufferPosition := xBufferPosition s + glyph_w s\<rparr>)"
proof -
  note k = screen_okD [OF assms(1)]
  obtain m' where m': "renderFromBitmap s (sint c * 8) (of_int (xBufferPosition s)) (of_int (yBufferPosition s)) (fbmem s) = Some m'"
    "screen_mem (mode s) m'"
    using renderFromBitmap_screen [OF k(1,2,5-7) assms(2) k(8) assms(3) k(11,12)] by blast
  have "sint c < 128" using sint_lt [of c] by simp
  then show ?thesis using m' k assms(3) unfolding renderAscii_def screen_ok_def by (intro exI [of _ m']) simp
qed

lemma put_glyph_ok:
  assumes "screen_ok s" and "c < 128"
  shows "\<exists>s'. put_glyph c s = Some s' \<and> screen_ok s' \<and> mode s' = mode s \<and> glyph_w s' = glyph_w s \<and>
    xBufferPosition s' = next_column s"
proof -
  let ?s = "s\<lparr>dirty_line := 1\<rparr>"
  have ok: "screen_ok ?s" using assms(1) by simp
  have "\<exists>t. (if uint (getWindowWidth (mode ?s)) < xBufferPosition ?s + glyph_w ?s then newLine ?s else Some ?s) = Some t \<and>
    screen_ok t \<and> mode t = mode s \<and> glyph_w t = glyph_w s \<and> xBufferPosition t + glyph_w t = next_column s"
    using newLine_ok [OF ok] ok by (auto simp: next_column_def getWindowWidth_def)
  then obtain t where t: "(if uint (getWindowWidth (mode ?s)) < xBufferPosition ?s + glyph_w ?s then newLine ?s else Some ?s) = Some t"
    "screen_ok t" "mode t = mode s" "glyph_w t = glyph_w s" "xBufferPosition t + glyph_w t = next_column s" by blast
  have fit: "xBufferPosition t + glyph_w t \<le> uint (width (mode t))"
    using screen_okD(3,15,16) [OF assms(1)] t(3,5) by (auto simp: next_column_def)
  obtain m' where m': "renderAscii c (of_int (xBufferPosition t)) (of_int (yBufferPosition t)) t = Some (t\<lparr>fbmem := m'\<rparr>)"
    "screen_ok (t\<lparr>fbmem := m', xBufferPosition := xBufferPosition t + glyph_w t\<rparr>)"
    using put_glyph_fits [OF t(2) assms(2) fit] by blast
  have "int_of 32 (xBufferPosition t + glyph_w t) = Some (xBufferPosition t + glyph_w t)"
    using fit screen_okD(8,15) [OF t(2)] window_small(1) [of "mode t"] by (intro int_of_32) linarith+
  then show ?thesis unfolding put_glyph_def bind.bind_lunit t(1)
    using m' t(3-5) by simp
qed

lemma next_column_pos: "screen_ok s \<Longrightarrow> 0 < next_column s"
  using screen_okD(8,15) [of s] by (auto simp: next_column_def)

lemma cursor_ok:
  assumes "screen_ok s" and "c < 128"
  shows "\<exists>s'. (do { s \<leftarrow> put_glyph c s; retractPosition s }) = Some s' \<and> screen_ok s'"
  using put_glyph_ok [OF assms] retractPosition_ok by fastforce

lemma hideCursor_ok: "screen_ok s \<Longrightarrow> \<exists>s'. hideCursor s = Some s' \<and> screen_ok s'"
  unfolding hideCursor_def by (rule cursor_ok) simp_all

lemma showCursor_ok: "screen_ok s \<Longrightarrow> \<exists>s'. showCursor s = Some s' \<and> screen_ok s'"
  unfolding showCursor_def by (rule cursor_ok) simp_all

lemma return_loop_ok:
  assumes "screen_ok s"
  shows "\<exists>s'. return_loop s = Some s' \<and> screen_ok s' \<and> xBufferPosition s' = 0"
  using assms
proof (induction "nat (xBufferPosition s)" arbitrary: s rule: less_induct)
  case less
  show ?case
  proof (cases "0 < xBufferPosition s")
    case True
    from retractPosition_ok [OF less.prems] True obtain t where
      t: "retractPosition s = Some t" "screen_ok t" "xBufferPosition t = xBufferPosition s - glyph_w s" by auto
    have "nat (xBufferPosition t) < nat (xBufferPosition s)" using t(3) True screen_okD(15) [OF less.prems] by linarith
    from less.hyps [OF this t(2)] show ?thesis using True t(1) by (subst return_loop.simps) simp
  next
    case False
    then show ?thesis using less.prems screen_okD(8) [OF less.prems] by (subst return_loop.simps) simp
  qed
qed

text \<open>
  Columns are counted in characters. From column \<open>k\<close> of a line of \<open>n \<ge> 4\<close> a tab stop is reached
  on the line, or the line ends and the first tab stop of the next line is reached.
\<close>

definition tab_measure :: "nat \<Rightarrow> nat \<Rightarrow> nat" where
  "tab_measure n k = (if 4 * (k div 4) + 4 \<le> n then 4 * (k div 4) + 4 - k else n - k + 5)"

lemma tab_measure_less:
  assumes "4 \<le> n" and "k \<le> n" and "k' = (if n < k + 1 then 1 else k + 1)" and "k' mod 4 \<noteq> 0"
  shows "tab_measure n k' < tab_measure n k"
  using assms unfolding tab_measure_def by (auto split: if_splits) presburger+

definition column :: "screen \<Rightarrow> nat" where
  "column s = nat (xBufferPosition s div glyph_w s)"

lemma column_mult: "screen_ok s \<Longrightarrow> xBufferPosition s = glyph_w s * int (column s)"
  using screen_okD(8,10,15) [of s] by (simp add: column_def pos_imp_zdiv_nonneg_iff)

lemma next_column_column:
  assumes "screen_ok s" and "n = nat (uint (width (mode s)) div glyph_w s)"
  shows "4 \<le> n" and "column s \<le> n"
    and "next_column s = glyph_w s * int (if n < column s + 1 then 1 else column s + 1)"
proof -
  let ?g = "glyph_w s" and ?w = "uint (width (mode s))"
  note k = screen_okD [OF assms(1)]
  have n: "i \<le> n \<longleftrightarrow> ?g * int i \<le> ?w" for i
  proof -
    have "i \<le> n \<longleftrightarrow> int i \<le> ?w div ?g" using assms(2) k(3,15) by (simp add: nat_le_iff le_nat_iff pos_imp_zdiv_nonneg_iff)
    also have "\<dots> \<longleftrightarrow> ?g * int i \<le> ?w"
    proof
      assume "int i \<le> ?w div ?g"
      then have "?g * int i \<le> ?g * (?w div ?g)" using k(15) by (intro mult_left_mono) simp_all
      also have "\<dots> \<le> ?w" using k(15) mult_div_mod_eq [of ?g ?w] pos_mod_sign [of ?g ?w] by linarith
      finally show "?g * int i \<le> ?w" .
    next
      assume "?g * int i \<le> ?w"
      then have "(?g * int i) div ?g \<le> ?w div ?g" using k(15) by (intro zdiv_mono1) simp_all
      then show "int i \<le> ?w div ?g" using k(15) by simp
    qed
    finally show ?thesis .
  qed
  show "4 \<le> n" using n [of 4] k(3,16) by simp
  show "column s \<le> n" using n [of "column s"] column_mult [OF assms(1)] k(9) by simp
  have "?w < xBufferPosition s + ?g \<longleftrightarrow> n < column s + 1"
    using n [of "column s + 1"] column_mult [OF assms(1)] by (simp add: distrib_left not_le [symmetric] add.commute)
  then show "next_column s = ?g * int (if n < column s + 1 then 1 else column s + 1)"
    using column_mult [OF assms(1)] by (simp add: next_column_def distrib_left)
qed

lemma tab_loop_ok:
  assumes "screen_ok s"
  shows "\<exists>s'. tab_loop s = Some s' \<and> screen_ok s'"
  using assms
proof (induction "tab_measure (nat (uint (width (mode s)) div glyph_w s)) (column s)" arbitrary: s rule: less_induct)
  case less
  let ?n = "nat (uint (width (mode s)) div glyph_w s)"
  obtain t where t: "put_glyph 32 s = Some t" "screen_ok t" "mode t = mode s" "glyph_w t = glyph_w s"
    "xBufferPosition t = next_column s"
    using put_glyph_ok [OF less.prems, of 32] by auto
  note n = next_column_column [OF less.prems refl]
  have c: "column t = (if ?n < column s + 1 then 1 else column s + 1)"
    using n(3) t(4,5) screen_okD(15) [OF less.prems] by (simp add: column_def)
  have g: "TAB_SIZE * glyph_w t \<noteq> 0" using screen_okD(15) [OF t(2)] by (simp add: TAB_SIZE_def)
  have "xBufferPosition t mod (TAB_SIZE * glyph_w t) = (glyph_w t * int (column t)) mod (glyph_w t * 4)"
    unfolding TAB_SIZE_def column_mult [OF t(2), symmetric] by (simp only: mult.commute)
  also have "\<dots> = glyph_w t * (int (column t) mod 4)" by (rule mult_mod_right [symmetric])
  finally have m: "xBufferPosition t mod (TAB_SIZE * glyph_w t) = glyph_w t * int (column t mod 4)" by (simp add: zmod_int)
  show ?case
  proof (cases "column t mod 4 = 0")
    case True
    then show ?thesis using t(1,2) g m by (subst tab_loop.simps) simp
  next
    case False
    then have "tab_measure ?n (column t) < tab_measure ?n (column s)" using tab_measure_less [OF n(1,2) c] by simp
    then have "\<exists>s'. tab_loop t = Some s' \<and> screen_ok s'" using t(2-4) by (intro less.hyps) simp_all
    moreover have "xBufferPosition t mod (TAB_SIZE * glyph_w t) \<noteq> 0" using False m g by auto
    ultimately show ?thesis using t(1) g by (subst tab_loop.simps) simp
  qed
qed

lemma putChar_ok:
  assumes "screen_ok s" and "c < 128"
  shows "\<exists>s'. putChar c s = Some s' \<and> screen_ok s'"
proof -
  have ok: "screen_ok (s\<lparr>dirty_line := 1\<rparr>)" using assms(1) by simp
  show ?thesis
    using hideCursor_ok [OF ok] newLine_ok return_loop_ok tab_loop_ok [OF ok] put_glyph_ok [OF ok assms(2)]
    unfolding putChar_def by fastforce
qed

lemma put_chars_ok:
  assumes "screen_ok s" and "\<forall>c \<in> set bs. c < 128" and "n \<le> length bs"
  shows "\<exists>s'. put_chars bs n s = Some s' \<and> screen_ok s'"
  using assms
proof (induction bs n s rule: put_chars.induct)
  case (3 c bs n s)
  then show ?case using putChar_ok [of s c] by fastforce
qed simp_all

lemma clear_screen_ok:
  assumes "screen_ok s"
  shows "\<exists>s'. clear_screen s = Some s' \<and> screen_ok s'"
proof -
  note k = screen_okD [OF assms]
  obtain m' where "fillVideoMemory (mode s) DEFAULT_BACKGROUND_COLOR (fbmem s) = Some m'" "screen_mem (mode s) m'"
    using fillVideoMemory_screen [OF k(1,2)] by blast
  moreover have "uint (maxGlyphSizeYOnLine s) \<le> uint (height (mode s))" using k(11,13) by linarith
  ultimately show ?thesis using k by (simp add: clear_screen_def screen_ok_def)
qed

lemma clearPreviousCharacter_ok:
  assumes "screen_ok s"
  shows "\<exists>s'. clearPreviousCharacter s = Some s' \<and> screen_ok s'"
  using hideCursor_ok [OF assms] retractPosition_ok showCursor_ok unfolding clearPreviousCharacter_def by fastforce

section \<open>The size of the font\<close>

lemma font_size_ok:
  assumes "screen_ok s" and "xBufferPosition s = 0" and "f \<in> {1..10}"
    and "yBufferPosition s + 8 * uint f \<le> uint (height (mode s))"
  shows "screen_ok (update_line_height (s\<lparr>fontSize := f\<rparr>))"
proof -
  note k = screen_okD [OF assms(1)]
  let ?s = "s\<lparr>fontSize := f\<rparr>"
  have g: "glyph_h ?s = 8 * uint f" "glyph_w ?s = 8 * uint f" "8 * uint f \<le> 80"
    using k(5,6) assms(3) by (simp_all add: glyph_h_def glyph_w_def word_le_def)
  have "uint (of_int i :: u16) = i" if "0 \<le> i" "i < 65536" for i
    using that by (simp add: take_bit_int_eq_self uint_word_of_int_eq)
  note u = this [of "8 * uint f"] this [of "max (uint (maxGlyphSizeYOnLine s)) (8 * uint f)"]
  have "uint (maxGlyphSizeYOnLine s) < 65536" using unsigned_less [where 'a = int and w = "maxGlyphSizeYOnLine s"] by simp
  then show ?thesis
    using k assms g u unfolding screen_ok_def update_line_height_def by (auto simp: max_def)
qed

lemma fontSize_range: "f \<in> {1..10} \<longleftrightarrow> 1 \<le> uint f \<and> uint f \<le> 10" for f :: u16
  by (simp add: word_le_def)

lemma fontSize_step:
  assumes "f \<in> {1..10}"
  shows "(if 9 < f then f else f + 1) \<in> {1..10}" and "(if f \<le> 1 then f else f - 1) \<in> {1..10}"
    and "uint (if f \<le> 1 then f else f - 1) \<le> uint (f :: u16)"
proof -
  have r: "1 \<le> uint f" "uint f \<le> 10" using assms unfolding fontSize_range by simp_all
  have "uint (f + 1) = uint f + 1" if "uint f \<le> 9"
    using that by (simp add: uint_plus_simple_iff uint_word_ariths mod_pos_pos_trivial)
  then show "(if 9 < f then f else f + 1) \<in> {1..10}" using r unfolding fontSize_range by (auto simp: word_less_def)
  have d: "uint (f - 1) = uint f - 1" if "1 < uint f"
    using that r by (simp add: uint_word_ariths mod_pos_pos_trivial)
  then show "(if f \<le> 1 then f else f - 1) \<in> {1..10}" using r unfolding fontSize_range by (auto simp: word_le_def)
  show "uint (if f \<le> 1 then f else f - 1) \<le> uint f" using d r by (auto simp: word_le_def)
qed

lemma increaseFontSize_ok:
  assumes "screen_ok s" and "xBufferPosition s = 0"
  shows "\<exists>r s'. increaseFontSize s = Some (r, s') \<and> screen_ok s'"
proof -
  note k = screen_okD [OF assms(1)]
  let ?f = "if 9 < fontSize s then fontSize s else fontSize s + 1"
  let ?s = "s\<lparr>fontSize := ?f\<rparr>"
  have f: "?f \<in> {1..10}" by (rule fontSize_step(1) [OF k(7)])
  have "1 \<le> uint ?f \<and> uint ?f \<le> 10" using f unfolding fontSize_range .
  then have g: "glyph_h ?s = 8 * uint ?f" "8 * uint ?f \<le> 80" "0 \<le> 8 * uint ?f"
    using k(6) by (simp_all add: glyph_h_def del: if_split)
  have "uint (of_int i :: u16) = i" if "0 \<le> i" "i < 65536" for i
    using that by (simp add: take_bit_int_eq_self uint_word_of_int_eq)
  note u = this [of "8 * uint ?f"] this [of "max (uint (maxGlyphSizeYOnLine s)) (8 * uint ?f)"]
  have m: "uint (maxGlyphSizeYOnLine s) < 65536" using unsigned_less [where 'a = int and w = "maxGlyphSizeYOnLine s"] by simp
  let ?t = "update_line_height ?s"
  have t: "mode ?t = mode s" "fbmem ?t = fbmem s" "glyphSizeX ?t = 8" "glyphSizeY ?t = 8" "fontSize ?t = ?f"
    "xBufferPosition ?t = 0" "yBufferPosition ?t = yBufferPosition s"
    using k assms(2) by (simp_all add: update_line_height_def)
  have "glyph_h ?t = 8 * uint ?f" using t by (simp add: glyph_h_def)
  then have "uint (maxGlyphSizeYOnLine ?t) = glyph_h ?t \<or>
      yBufferPosition ?t + uint (maxGlyphSizeYOnLine ?t) \<le> uint (height (mode ?t))"
    using g u m k(13) by (auto simp: update_line_height_def max_def)
  moreover have "yBufferPosition s \<le> uint (height (mode s))" using k by linarith
  ultimately have "\<exists>s'. scrollBufferPositionIfNeeded ?t = Some s' \<and> screen_ok s'"
    using scroll_ok [of ?t] k f t by auto
  then show ?thesis by (auto simp: increaseFontSize_def)
qed

lemma decreaseFontSize_ok:
  assumes "screen_ok s" and "xBufferPosition s = 0"
  shows "screen_ok (snd (decreaseFontSize s))"
proof -
  note k = screen_okD [OF assms(1)]
  note f = fontSize_step(2,3) [OF k(7)]
  have "glyph_h s = 8 * uint (fontSize s)" using k(6) by (simp add: glyph_h_def)
  then have "yBufferPosition s + 8 * uint (if fontSize s \<le> 1 then fontSize s else fontSize s - 1) \<le> uint (height (mode s))"
    using k(12) f(2) by linarith
  then show ?thesis using font_size_ok [OF assms f(1)] by (simp add: decreaseFontSize_def Let_def)
qed

text \<open>The size \<open>setFontSize\<close> sets.\<close>

definition clamp_size :: "8 word \<Rightarrow> int" where
  "clamp_size sz = (if sint sz < 1 then 1 else if 10 < sint sz then 10 else sint sz)"

lemma clamp_size: "(of_int (clamp_size sz) :: u16) \<in> {1..10}" "uint (of_int (clamp_size sz) :: u16) = clamp_size sz"
proof -
  have "1 \<le> clamp_size sz" "clamp_size sz \<le> 10" by (simp_all add: clamp_size_def)
  moreover from this show "uint (of_int (clamp_size sz) :: u16) = clamp_size sz"
    by (simp add: take_bit_int_eq_self uint_word_of_int_eq)
  ultimately show "(of_int (clamp_size sz) :: u16) \<in> {1..10}" by (simp only: fontSize_range)
qed

lemma setFontSize_eq: "snd (setFontSize sz s) = update_line_height (s\<lparr>fontSize := of_int (clamp_size sz)\<rparr>)"
  by (simp add: setFontSize_def clamp_size_def Let_def)

section \<open>Runs\<close>

datatype text_op =
    Op_print int "u8 list"
  | Op_clear
  | Op_backspace
  | Op_text_color u32
  | Op_background_color u32
  | Op_increase_font
  | Op_decrease_font
  | Op_set_font "8 word"

definition text_step :: "text_op \<Rightarrow> screen \<Rightarrow> screen option" where
  "text_step op s =
     (case op of
        Op_print fd bs \<Rightarrow> map_option snd (printToFd fd bs (int (length bs)) s)
      | Op_clear \<Rightarrow> clear_screen s
      | Op_backspace \<Rightarrow> clearPreviousCharacter s
      | Op_text_color c \<Rightarrow> Some (setTextColor c s)
      | Op_background_color c \<Rightarrow> Some (setBackgroundColor c s)
      | Op_increase_font \<Rightarrow> map_option snd (increaseFontSize s)
      | Op_decrease_font \<Rightarrow> Some (snd (decreaseFontSize s))
      | Op_set_font n \<Rightarrow> Some (snd (setFontSize n s)))"

text \<open>
  What a caller has to respect: characters of the table, the size of the font changed at the
  start of a line only, and set directly only where the new size fits on the screen.
\<close>

definition fits :: "text_op \<Rightarrow> screen \<Rightarrow> bool" where
  "fits op s =
     (case op of
        Op_print fd bs \<Rightarrow> list_all (\<lambda>c. c < 128) bs
      | Op_increase_font \<Rightarrow> xBufferPosition s = 0
      | Op_decrease_font \<Rightarrow> xBufferPosition s = 0
      | Op_set_font n \<Rightarrow> xBufferPosition s = 0 \<and> yBufferPosition s + 8 * clamp_size n \<le> uint (height (mode s))
      | _ \<Rightarrow> True)"

fun text_run :: "text_op list \<Rightarrow> screen \<Rightarrow> screen option" where
  "text_run [] s = Some s"
| "text_run (op # ops) s = do { s \<leftarrow> text_step op s; text_run ops s }"

fun all_fit :: "text_op list \<Rightarrow> screen \<Rightarrow> bool" where
  "all_fit [] s = True"
| "all_fit (op # ops) s =
     (fits op s \<and> (case text_step op s of None \<Rightarrow> True | Some s' \<Rightarrow> all_fit ops s'))"

lemma printToFd_ok:
  assumes "screen_ok s" and "list_all (\<lambda>c. c < 128) bs"
  shows "\<exists>r s'. printToFd fd bs (int (length bs)) s = Some (r, s') \<and> screen_ok s'"
proof -
  have bs: "\<forall>c \<in> set bs. c < 128" using assms(2) by (simp add: list_all_iff)
  have step: "\<exists>r s'. (do { s \<leftarrow> put_chars bs (length bs) t; Some (n :: int, s) }) = Some (r, s') \<and> screen_ok s'"
    if "screen_ok t" for t n
    using put_chars_ok [OF that bs, of "length bs"] by auto
  show ?thesis
  proof (cases "fd \<noteq> file_descriptor s \<and> fd \<noteq> FD_STDOUT \<and> fd \<noteq> FD_STDERR")
    case True
    then show ?thesis using assms(1) by (simp add: printToFd_def)
  next
    case False
    then show ?thesis unfolding printToFd_def Let_def if_not_P [OF False] nat_int
      by (intro step) (simp add: assms(1))
  qed
qed

lemma text_step_ok:
  assumes "screen_ok s" and "fits op s"
  shows "\<exists>s'. text_step op s = Some s' \<and> screen_ok s'"
proof (cases op)
  case (Op_print fd bs)
  then show ?thesis using printToFd_ok [OF assms(1), of bs fd] assms(2) by (auto simp: text_step_def fits_def)
next
  case Op_increase_font
  then show ?thesis using increaseFontSize_ok [OF assms(1)] assms(2) by (auto simp: text_step_def fits_def)
next
  case (Op_set_font n)
  then show ?thesis using font_size_ok [OF assms(1) _ clamp_size(1) [of n]] assms(2)
    by (simp add: text_step_def fits_def setFontSize_eq clamp_size(2))
qed (use assms clear_screen_ok clearPreviousCharacter_ok decreaseFontSize_ok in
    \<open>simp_all add: text_step_def fits_def setTextColor_def setBackgroundColor_def\<close>)

text \<open>The video mode never changes, and drawing leaves the size of the font alone.\<close>

lemma mode_draw:
  "scrollBufferPositionIfNeeded s = Some s' \<Longrightarrow> mode s' = mode s \<and> fontSize s' = fontSize s"
  "renderAscii c x y s = Some s' \<Longrightarrow> mode s' = mode s \<and> fontSize s' = fontSize s"
  "retractPosition s = Some s' \<Longrightarrow> mode s' = mode s \<and> fontSize s' = fontSize s"
  by (auto simp: scrollBufferPositionIfNeeded_def renderAscii_def retractPosition_def Let_def split: if_splits)

lemma mode_newLine: "newLine s = Some s' \<Longrightarrow> mode s' = mode s \<and> fontSize s' = fontSize s"
  by (auto simp: newLine_def dest: mode_draw)

lemma mode_put_glyph: "put_glyph c s = Some s' \<Longrightarrow> mode s' = mode s \<and> fontSize s' = fontSize s"
  by (auto simp: put_glyph_def dest!: mode_draw mode_newLine split: if_splits)

lemma mode_cursor: "hideCursor s = Some s' \<Longrightarrow> mode s' = mode s \<and> fontSize s' = fontSize s" "showCursor s = Some s' \<Longrightarrow> mode s' = mode s \<and> fontSize s' = fontSize s"
  by (auto simp: hideCursor_def showCursor_def dest!: mode_draw mode_put_glyph)

lemma mode_return_loop: "return_loop s = Some s' \<Longrightarrow> mode s' = mode s \<and> fontSize s' = fontSize s"
  by (erule return_loop.raw_induct [where P = "\<lambda>s s'. mode s' = mode s \<and> fontSize s' = fontSize s", rotated]) (auto dest!: mode_draw split: if_splits)

lemma mode_tab_loop: "tab_loop s = Some s' \<Longrightarrow> mode s' = mode s \<and> fontSize s' = fontSize s"
  by (erule tab_loop.raw_induct [where P = "\<lambda>s s'. mode s' = mode s \<and> fontSize s' = fontSize s", rotated]) (auto dest!: mode_put_glyph split: if_splits)

lemma mode_putChar: "putChar c s = Some s' \<Longrightarrow> mode s' = mode s \<and> fontSize s' = fontSize s"
  by (auto simp: putChar_def dest!: mode_cursor mode_newLine mode_return_loop mode_tab_loop mode_put_glyph split: if_splits)

lemma mode_put_chars: "put_chars bs n s = Some s' \<Longrightarrow> mode s' = mode s \<and> fontSize s' = fontSize s"
  by (induction bs n s rule: put_chars.induct) (auto, (metis mode_putChar)+)

lemma mode_line_height [simp]: "mode (update_line_height s) = mode s"
  by (simp add: update_line_height_def)

lemma mode_text_step: "text_step op s = Some s' \<Longrightarrow> mode s' = mode s"
  by (cases op) (auto simp: text_step_def printToFd_def clear_screen_def clearPreviousCharacter_def setTextColor_def
      setBackgroundColor_def increaseFontSize_def decreaseFontSize_def setFontSize_def Let_def
      dest!: mode_put_chars mode_cursor mode_draw split: if_splits)

lemma boot_screen_ok:
  assumes "screen_mode v" and "screen_mem v m" and "320 \<le> uint (width v)" and "160 \<le> uint (height v)"
  shows "screen_ok (boot_screen v m)"
  using assms by (simp add: screen_ok_def boot_screen_def glyph_w_def glyph_h_def DEFAULT_GLYPH_SIZE_X_def DEFAULT_GLYPH_SIZE_Y_def)

section \<open>Where the rules are broken\<close>

text \<open>
  \<open>setFontSize\<close> does not scroll, unlike \<open>increaseFontSize\<close>: after it, the next character drawn at
  the bottom of the screen is drawn past the end of the frame buffer.
\<close>

lemma for_upto_fails:
  assumes "I s" and "\<And>i s s'. I s \<Longrightarrow> body i s = Some s' \<Longrightarrow> I s'" and "\<And>s. I s \<Longrightarrow> body (lo + k) s = None" and "k < n"
  shows "for_upto lo n body s = None"
  using assms(1,3,4)
proof (induction n arbitrary: lo k s)
  case (Suc n)
  show ?case
  proof (cases k)
    case 0
    then show ?thesis using Suc.prems(1,2) by simp
  next
    case (Suc k')
    have "for_upto (Suc lo) n body t = None" if "body lo s = Some t" for t
      using Suc.prems Suc assms(2) [OF Suc.prems(1) that] by (intro Suc.IH [of t _ k']) auto
    then show ?thesis by (cases "body lo s") auto
  qed
qed simp

lemma dom_store8: "store8 m a b = Some m' \<Longrightarrow> dom m' = dom m"
  by (auto simp: store8_def split: if_splits)

lemma store_rgb_keeps: "screen_mem v m \<Longrightarrow> store_rgb v c off m = Some m' \<Longrightarrow> screen_mem v m'"
  unfolding store_rgb_def screen_mem_def by (elim bind_SomeE) (simp add: dom_store8)

lemma render_off_screen:
  assumes ok: "screen_mode (mode s)" "screen_mem (mode s) m" "glyphSizeX s = 8" "glyphSizeY s = 8" "fontSize s \<in> {1..10}"
    and x: "0 \<le> px" "px < uint (width (mode s))"
    and y: "0 \<le> py" "py \<le> uint (height (mode s))" "uint (height (mode s)) < py + glyph_h s"
  shows "renderFromBitmap s bm (of_int px) (of_int py) m = None"
proof -
  let ?v = "mode s" and ?fs = "unat (fontSize s)"
  let ?k = "nat (uint (height (mode s)) - py)"
  note g = glyph_size [OF ok(3-5)]
  obtain w where w: "nat (glyph_w s) = Suc w" using g(3) by (cases "nat (glyph_w s)") auto
  have k: "?k < nat (glyph_h s)" "py + int ?k = uint (height ?v)" using y by linarith+
  have "int (nat py + ?k) = int (unat (height ?v))" using y(1,2) by simp
  then have n: "nat py + ?k = unat (height ?v)" unfolding of_nat_eq_iff .
  have "py + int ?k < 2 ^ 31" using k(2) window_small(2) [of ?v] by simp
  from position_word(2) [OF y(1) this] have row: "of_int py + of_nat ?k = (of_nat (unat (height ?v)) :: u64)" unfolding n .
  have lt: "nat px < unat (width ?v)" using nat_less_uint [OF x(1), of 0] x(2) by simp
  have "pixel_offset ?v (nat px) (unat (height ?v)) < 2 ^ 32"
    using pixel_in_row [OF ok(1) lt] screen_mode_size [OF ok(1)] unsigned_less [where 'a = nat and w = "pitch ?v"]
    by (simp add: pixel_offset_def)
  then have off: "putPixel ?v col (of_nat (nat px)) (of_nat (unat (height ?v))) m = None" if "screen_mem ?v m" for col m
    using that by (intro putPixel_below_screen [OF ok(1)] order_refl)
  have col: "of_int (sint (ucast (of_int px + of_nat 0 :: u64) :: u32)) = (of_nat (nat px) :: u64)"
    using position_word(1) [OF x(1), of 0] x(2) window_small(1) [of ?v] by simp
  have "for_upto 0 (nat (glyph_h s)) (\<lambda>y m. do { row \<leftarrow> bitmap_byte (bm + int (y div ?fs));
      putPixel ?v (if bit (scast row :: u32) (0 div ?fs) then text_color s else background_color s)
        (of_nat (nat px)) (of_int py + of_nat y) m }) m = None"
  proof (rule for_upto_fails [where I = "screen_mem ?v" and k = ?k, OF ok(2)])
    fix m
    assume "screen_mem ?v m"
    then show "(do { row \<leftarrow> bitmap_byte (bm + int ((0 + ?k) div ?fs));
      putPixel ?v (if bit (scast row :: u32) (0 div ?fs) then text_color s else background_color s)
        (of_nat (nat px)) (of_int py + of_nat (0 + ?k)) m }) = None"
      unfolding add_0 row by (cases "bitmap_byte (bm + int (?k div ?fs))") (simp_all only: bind.bind_lunit bind.bind_lzero off)
  qed (use k(1) in \<open>auto simp: putPixel_def dest: store_rgb_keeps\<close>)
  then show ?thesis unfolding renderFromBitmap_def Let_def w for_upto.simps col by (simp only: bind.bind_lzero)
qed

lemma setFontSize_draws_off_screen:
  assumes "screen_ok s" and "xBufferPosition s + 8 * clamp_size n \<le> uint (width (mode s))"
    and "uint (height (mode s)) < yBufferPosition s + 8 * clamp_size n" and "c \<notin> {9, 10, 13}"
  shows "putChar c (snd (setFontSize n s)) = None"
proof -
  note k = screen_okD [OF assms(1)]
  let ?s = "(update_line_height (s\<lparr>fontSize := of_int (clamp_size n)\<rparr>))\<lparr>dirty_line := 1\<rparr>"
  have s: "mode ?s = mode s" "fbmem ?s = fbmem s" "glyphSizeX ?s = 8" "glyphSizeY ?s = 8"
    "fontSize ?s = of_int (clamp_size n)" "xBufferPosition ?s = xBufferPosition s" "yBufferPosition ?s = yBufferPosition s"
    using k(5,6) by (simp_all add: update_line_height_def)
  have g: "glyph_w ?s = 8 * clamp_size n" "glyph_h ?s = 8 * clamp_size n" "8 \<le> 8 * clamp_size n"
    unfolding glyph_w_def glyph_h_def s clamp_size(2) by (simp_all add: clamp_size_def)
  have "renderFromBitmap ?s bm (of_int (xBufferPosition s)) (of_int (yBufferPosition s)) (fbmem s) = None" for bm
  proof (rule render_off_screen)
    show "fontSize ?s \<in> {1..10}" unfolding s by (rule clamp_size(1))
  qed (use k s g assms in auto)
  moreover have "sint c < 128" using sint_lt [of c] by simp
  ultimately have r: "renderAscii c (of_int (xBufferPosition ?s)) (of_int (yBufferPosition ?s)) ?s = None"
    unfolding renderAscii_def s by simp
  have "putChar c (snd (setFontSize n s)) = put_glyph c ?s"
    using assms(4) by (simp add: putChar_def setFontSize_eq)
  also have "\<dots> = None"
    unfolding put_glyph_def bind.bind_lunit using r s g assms(2) by (simp add: getWindowWidth_def)
  finally show ?thesis .
qed

text \<open>
  C37. Text stays on the screen: from the initial state, any sequence of printing, clearing,
  erasing, colours and changes of the font that keeps to the rules above runs to its end with
  every store inside the frame buffer (the only memory there is), tabulators and returns end,
  and the text position stays inside the screen.
\<close>

theorem text_stays_on_screen:
  assumes "screen_mode v" and "screen_mem v m" and "320 \<le> uint (width v)" and "160 \<le> uint (height v)"
    and "all_fit ops (boot_screen v m)"
  shows "\<exists>s. text_run ops (boot_screen v m) = Some s \<and> screen_mem v (fbmem s) \<and>
    0 \<le> xBufferPosition s \<and> xBufferPosition s \<le> uint (width v) \<and>
    0 \<le> yBufferPosition s \<and> yBufferPosition s + glyph_h s \<le> uint (height v)"
proof -
  have "\<exists>s'. text_run ops s = Some s' \<and> screen_ok s' \<and> mode s' = mode s" if "screen_ok s" "all_fit ops s" for s
    using that
  proof (induction ops arbitrary: s)
    case (Cons op ops)
    then obtain t where t: "text_step op s = Some t" "screen_ok t" using text_step_ok [of s op] by auto
    then show ?case using Cons.IH [OF t(2)] Cons.prems(2) mode_text_step [OF t(1)] by simp
  qed simp
  from this [OF boot_screen_ok [OF assms(1-4)] assms(5)] show ?thesis
    using screen_okD by (fastforce simp: boot_screen_def)
qed

definition small_mode :: vbe_mode_info where
  "small_mode = \<lparr>pitch = 3072, width = 1024, height = 768, bpp = 24, framebuffer = 0xFD000000\<rparr>"

definition black :: "vbe_mode_info \<Rightarrow> bytemem" where
  "black v = (\<lambda>a. if a \<in> frame_bytes v then Some 0 else None)"

theorem text_stays_on_screen_witness:
  "\<exists>s. text_run [Op_set_font 2, Op_clear, Op_print 1 [72, 105, 9, 33, 10], Op_backspace] (boot_screen small_mode (black small_mode)) = Some s \<and>
    screen_mem small_mode (fbmem s)"
proof -
  have m: "screen_mode small_mode" "screen_mem small_mode (black small_mode)" "320 \<le> uint (width small_mode)" "160 \<le> uint (height small_mode)"
    by (auto simp: small_mode_def screen_mode_def screen_mem_def black_def dom_def)
  have "all_fit [Op_set_font 2, Op_clear, Op_print 1 [72, 105, 9, 33, 10], Op_backspace] (boot_screen small_mode (black small_mode))"
    by (simp add: fits_def boot_screen_def small_mode_def clamp_size_def split: option.splits)
  from text_stays_on_screen [OF m this] show ?thesis by blast
qed

end
