(* ===== verification/Test_MM.thy ===== *)
theory Test_MM
  imports KLib MyMalloc Buddy
begin

unbundle bit_operations_syntax

text \<open>
  The utilities of the user tests (\<open>Userland/tests/test_util.c\<close>) and the memory test
  (\<open>Userland/tests/test_mm.c\<close>) over any memory manager that meets the contract of
  \<open>Alloc_Spec\<close>. The floating point scaling of the random numbers is an argument: no bound on
  it is needed. What the manager hands out is memory of the caller, whose bytes are modelled.
\<close>

section \<open>Utilities\<close>

record rng =
  m_z :: u32
  m_w :: u32

definition boot_rng :: rng where
  "boot_rng = \<lparr>m_z = 362436069, m_w = 521288629\<rparr>"

definition GetUint :: "rng \<Rightarrow> u32 \<times> rng" where
  "GetUint g =
     (let z = 36969 * (m_z g AND 65535) + drop_bit 16 (m_z g);
          w = 18000 * (m_w g AND 65535) + drop_bit 16 (m_w g)
      in (push_bit 16 z + w, \<lparr>m_z = z, m_w = w\<rparr>))"

text \<open>\<open>scale u max\<close> stands for \<open>(uint32_t)((u + 1.0) * 2.328306435454494e-10 * max)\<close>.\<close>

definition GetUniform :: "(u32 \<Rightarrow> u32 \<Rightarrow> u32) \<Rightarrow> u32 \<Rightarrow> rng \<Rightarrow> u32 \<times> rng" where
  "GetUniform scale maximum g =
     (if maximum = 0 then (0, g)
      else case GetUint g of (u, g) \<Rightarrow> (scale u maximum, g))"

fun memcheck_loop :: "addr \<Rightarrow> u8 \<Rightarrow> nat \<Rightarrow> bytemem \<Rightarrow> bool option" where
  "memcheck_loop p v 0 m = Some True"
| "memcheck_loop p v (Suc n) m = do {
     b \<leftarrow> load8 m p;
     if b \<noteq> v then Some False else memcheck_loop (p + 1) v n m
   }"

definition memcheck :: "addr \<Rightarrow> u8 \<Rightarrow> u32 \<Rightarrow> bytemem \<Rightarrow> bool option" where
  "memcheck start v sz m = memcheck_loop start v (unat sz) m"

fun satoi_loop :: "cstring \<Rightarrow> int \<Rightarrow> int \<Rightarrow> int option" where
  "satoi_loop [] res sgn_factor = None"
| "satoi_loop (c # str) res sgn_factor =
     (if c = 0 then int_of 64 (res * sgn_factor)
      else if sint c < 48 \<or> 57 < sint c then Some 0
      else do { res \<leftarrow> int_of 64 (res * 10 + (sint c - 48)); satoi_loop str res sgn_factor })"

definition satoi :: "cstring option \<Rightarrow> int option" where
  "satoi str =
     (case str of
        None \<Rightarrow> Some 0
      | Some [] \<Rightarrow> None
      | Some (c # it) \<Rightarrow> if c = 45 then satoi_loop it 0 (-1) else satoi_loop (c # it) 0 1)"

section \<open>The memory test\<close>

definition MM_TEST_MAX_BLOCKS :: nat where "MM_TEST_MAX_BLOCKS = 128"
definition MM_TEST_MIN_BLOCK_SIZE :: u32 where "MM_TEST_MIN_BLOCK_SIZE = 1"

record mm_request =
  rq_address :: addr
  rq_size :: u32

text \<open>The state of the test: the requests granted so far, their total, the generator and the manager.\<close>

record 'm mm_state =
  mm_requests :: "mm_request list"
  mm_total :: u32
  mm_rng :: rng
  mm_heap_state :: 'm

definition user_malloc :: "(u64 \<Rightarrow> 'm \<Rightarrow> (addr \<times> 'm) option) \<Rightarrow> u64 \<Rightarrow> 'm \<Rightarrow> (addr \<times> 'm) option" where
  "user_malloc alloc sz h = (if sz = 0 then Some (NULL, h) else alloc sz h)"

definition user_free :: "(addr \<Rightarrow> 'm \<Rightarrow> 'm option) \<Rightarrow> addr \<Rightarrow> 'm \<Rightarrow> 'm option" where
  "user_free free p h = (if p = NULL then Some h else free p h)"

definition requesting :: "u32 \<Rightarrow> 'm mm_state \<Rightarrow> bool" where
  "requesting max_memory st \<longleftrightarrow> length (mm_requests st) < MM_TEST_MAX_BLOCKS \<and> mm_total st < max_memory \<and>
     MM_TEST_MIN_BLOCK_SIZE \<le> max_memory - mm_total st"

text \<open>A request that is refused is forgotten, and the loop goes on with another size.\<close>

definition request_step ::
  "(u64 \<Rightarrow> 'm \<Rightarrow> (addr \<times> 'm) option) \<Rightarrow> (u32 \<Rightarrow> u32 \<Rightarrow> u32) \<Rightarrow> u32 \<Rightarrow> 'm mm_state \<Rightarrow> 'm mm_state option" where
  "request_step alloc scale max_memory st =
     (let remaining = max_memory - mm_total st;
          request_span = (if MM_TEST_MIN_BLOCK_SIZE < remaining then remaining - MM_TEST_MIN_BLOCK_SIZE else 0)
      in case GetUniform scale request_span (mm_rng st) of
           (u, g) \<Rightarrow> do {
             let sz = u + MM_TEST_MIN_BLOCK_SIZE in do {
               (p, h) \<leftarrow> user_malloc alloc (ucast sz) (mm_heap_state st);
               let st = st\<lparr>mm_rng := g, mm_heap_state := h\<rparr>
               in Some (if p \<noteq> NULL
                        then st\<lparr>mm_requests := mm_requests st @ [\<lparr>rq_address = p, rq_size = sz\<rparr>],
                                mm_total := mm_total st + sz\<rparr>
                        else st)
             }
           })"

text \<open>The loop, for at most \<open>n\<close> requests.\<close>

fun request_loop ::
  "(u64 \<Rightarrow> 'm \<Rightarrow> (addr \<times> 'm) option) \<Rightarrow> (u32 \<Rightarrow> u32 \<Rightarrow> u32) \<Rightarrow> u32 \<Rightarrow> nat \<Rightarrow> 'm mm_state \<Rightarrow> 'm mm_state option" where
  "request_loop alloc scale max_memory 0 st = Some st"
| "request_loop alloc scale max_memory (Suc n) st =
     (if requesting max_memory st then do {
        st \<leftarrow> request_step alloc scale max_memory st;
        request_loop alloc scale max_memory n st
      }
      else Some st)"

text \<open>Every address in the list is one that was granted, so the tests for null always succeed.\<close>

fun set_loop :: "nat \<Rightarrow> mm_request list \<Rightarrow> bytemem \<Rightarrow> bytemem option" where
  "set_loop i [] mem = Some mem"
| "set_loop i (r # rs) mem = do {
     mem \<leftarrow> (if rq_address r \<noteq> NULL then memset (rq_address r) (of_nat i) (ucast (rq_size r)) mem else Some mem);
     set_loop (i + 1) rs mem
   }"

fun check_loop :: "nat \<Rightarrow> mm_request list \<Rightarrow> bytemem \<Rightarrow> bool option" where
  "check_loop i [] mem = Some True"
| "check_loop i (r # rs) mem = do {
     ok \<leftarrow> (if rq_address r \<noteq> NULL then memcheck (rq_address r) (of_nat i) (rq_size r) mem else Some True);
     if ok then check_loop (i + 1) rs mem else Some False
   }"

fun free_loop :: "(addr \<Rightarrow> 'm \<Rightarrow> 'm option) \<Rightarrow> mm_request list \<Rightarrow> 'm \<Rightarrow> 'm option" where
  "free_loop free [] h = Some h"
| "free_loop free (r # rs) h = do { h \<leftarrow> user_free free (rq_address r) h; free_loop free rs h }"

datatype 'm mm_outcome = Still_requesting 'm bytemem | Round_done rng 'm bytemem | Test_error

definition mm_round ::
  "(u64 \<Rightarrow> 'm \<Rightarrow> (addr \<times> 'm) option) \<Rightarrow> (addr \<Rightarrow> 'm \<Rightarrow> 'm option) \<Rightarrow> (u32 \<Rightarrow> u32 \<Rightarrow> u32) \<Rightarrow> u32 \<Rightarrow> nat \<Rightarrow>
     rng \<Rightarrow> 'm \<Rightarrow> bytemem \<Rightarrow> 'm mm_outcome option" where
  "mm_round alloc free scale max_memory n g h mem = do {
     st \<leftarrow> request_loop alloc scale max_memory n \<lparr>mm_requests = [], mm_total = 0, mm_rng = g, mm_heap_state = h\<rparr>;
     if requesting max_memory st then Some (Still_requesting (mm_heap_state st) mem)
     else do {
       mem \<leftarrow> set_loop 0 (mm_requests st) mem;
       ok \<leftarrow> check_loop 0 (mm_requests st) mem;
       if \<not> ok then Some Test_error
       else do {
         h \<leftarrow> free_loop free (mm_requests st) (mm_heap_state st);
         Some (Round_done (mm_rng st) h mem)
       }
     }
   }"

text \<open>The rounds of the endless loop: the list says how many requests each is given at most.\<close>

fun mm_rounds ::
  "(u64 \<Rightarrow> 'm \<Rightarrow> (addr \<times> 'm) option) \<Rightarrow> (addr \<Rightarrow> 'm \<Rightarrow> 'm option) \<Rightarrow> (u32 \<Rightarrow> u32 \<Rightarrow> u32) \<Rightarrow> u32 \<Rightarrow> nat list \<Rightarrow>
     rng \<Rightarrow> 'm \<Rightarrow> bytemem \<Rightarrow> 'm mm_outcome option" where
  "mm_rounds alloc free scale max_memory [] g h mem = Some (Round_done g h mem)"
| "mm_rounds alloc free scale max_memory (n # ns) g h mem = do {
     r \<leftarrow> mm_round alloc free scale max_memory n g h mem;
     (case r of
        Round_done g h mem \<Rightarrow> mm_rounds alloc free scale max_memory ns g h mem
      | _ \<Rightarrow> Some r)
   }"

text \<open>The arguments: \<open>Inl\<close> is the message printed before returning -1.\<close>

definition test_mm_args :: "u64 \<Rightarrow> cstring option list option \<Rightarrow> (string + u32) option" where
  "test_mm_args argc argv =
     (if argc \<noteq> 1 \<or> argv = None then Some (Inl ''Usage: tmm <max_memory_bytes>'')
      else case the argv of
        [] \<Rightarrow> None
      | a # _ \<Rightarrow>
          if a = None then Some (Inl ''Usage: tmm <max_memory_bytes>'')
          else do {
            parsed \<leftarrow> satoi a;
            Some (if parsed \<le> 0 \<or> 2 ^ 32 - 1 < parsed
                  then Inl ''tmm: max_memory_bytes must be between 1 and 4294967295''
                  else Inr (of_int parsed))
          })"

section \<open>No byte is ever overwritten\<close>

text \<open>Requests and the blocks they were granted.\<close>

definition granted :: "mm_request \<Rightarrow> addr \<times> nat \<Rightarrow> bool" where
  "granted r b \<longleftrightarrow> rq_address r = fst b \<and> fst b \<noteq> NULL \<and> unat (rq_size r) \<le> snd b"

definition span :: "mm_request \<Rightarrow> addr set" where
  "span r = {rq_address r ..< rq_address r + unat (rq_size r)}"

lemma span_payload: "granted r b \<Longrightarrow> span r \<subseteq> payload b"
  by (auto simp: granted_def span_def payload_def)

lemma memset_block:
  assumes "span r \<subseteq> dom m"
  shows "\<exists>m'. memset (rq_address r) c (ucast (rq_size r)) m = Some m' \<and> dom m' = dom m \<and>
    (\<forall>a \<in> span r. m' a = Some (ucast c)) \<and> (\<forall>a. a \<notin> span r \<longrightarrow> m' a = m a)"
proof -
  have loop: "\<exists>m'. memset_loop d b n m = Some m' \<and> dom m' = dom m \<and>
    (\<forall>a \<in> {d ..< d + n}. m' a = Some b) \<and> (\<forall>a. a \<notin> {d ..< d + n} \<longrightarrow> m' a = m a)"
    if "{d ..< d + n} \<subseteq> dom m" for d b n m
    using that
  proof (induction n arbitrary: m)
    case (Suc n)
    have "d + n \<in> {d ..< d + Suc n}" by simp
    then have dm: "m (d + n) \<noteq> None" using Suc.prems by blast
    have "{d ..< d + n} \<subseteq> dom (m(d + n \<mapsto> b))" using Suc.prems by fastforce
    from Suc.IH [OF this] obtain m' where m': "memset_loop d b n (m(d + n \<mapsto> b)) = Some m'" "dom m' = dom (m(d + n \<mapsto> b))"
      "\<forall>a \<in> {d ..< d + n}. m' a = Some b" "\<forall>a. a \<notin> {d ..< d + n} \<longrightarrow> m' a = (m(d + n \<mapsto> b)) a" by blast
    have "dom (m(d + n \<mapsto> b)) = dom m" using dm by auto
    moreover have "\<forall>a \<in> {d ..< d + Suc n}. m' a = Some b" using m'(3,4) by (auto simp: less_Suc_eq)
    moreover have "\<forall>a. a \<notin> {d ..< d + Suc n} \<longrightarrow> m' a = m a" using m'(4) by auto
    ultimately show ?case using m'(1,2) dm by (simp add: store8_def)
  qed simp
  have "unat (ucast (rq_size r) :: u64) = unat (rq_size r)"
    using unsigned_less [where 'a = nat and w = "rq_size r"] by (simp add: unsigned_ucast_eq take_bit_nat_eq_self)
  then show ?thesis using loop [of "rq_address r" "unat (rq_size r)" m "ucast c"] assms
    by (simp add: memset_def span_def)
qed

lemma memcheck_true:
  assumes "\<forall>a \<in> span r. m a = Some v"
  shows "memcheck (rq_address r) v (rq_size r) m = Some True"
proof -
  have "memcheck_loop p v n m = Some True" if "\<forall>a \<in> {p ..< p + n}. m a = Some v" for p n
    using that by (induction n arbitrary: p) (auto simp: load8_def)
  then show ?thesis using assms by (simp add: memcheck_def span_def)
qed

lemma byte_of_index: "ucast (of_nat i :: u32) = (of_nat i :: u8)"
  by (rule bit_word_eqI) (auto simp: bit_simps)

lemma set_loop_fills:
  assumes "list_all2 granted rs bs" and "distinct bs" and "payloads_disjoint (set bs)" and "\<Union> (payload ` set bs) \<subseteq> dom mem"
  shows "\<exists>mem'. set_loop i rs mem = Some mem' \<and> dom mem' = dom mem \<and>
    (\<forall>a. a \<notin> \<Union> (payload ` set bs) \<longrightarrow> mem' a = mem a) \<and>
    (\<forall>j < length rs. \<forall>a \<in> span (rs ! j). mem' a = Some (of_nat (i + j)))"
  using assms
proof (induction rs bs arbitrary: i mem rule: list_all2_induct)
  case (Cons r rs b bs)
  have sp: "span r \<subseteq> payload b" by (rule span_payload [OF Cons.hyps(1)])
  then have "span r \<subseteq> dom mem" using Cons.prems(3) by auto
  from memset_block [OF this, of "of_nat i"] obtain m1 where m1: "memset (rq_address r) (of_nat i) (ucast (rq_size r)) mem = Some m1"
    "dom m1 = dom mem" "\<forall>a \<in> span r. m1 a = Some (of_nat i)" "\<forall>a. a \<notin> span r \<longrightarrow> m1 a = mem a"
    unfolding byte_of_index by blast
  have "payloads_disjoint (set bs)" using Cons.prems(2) by (rule payloads_disjoint_subset) auto
  then obtain m2 where m2: "set_loop (i + 1) rs m1 = Some m2" "dom m2 = dom m1"
    "\<forall>a. a \<notin> \<Union> (payload ` set bs) \<longrightarrow> m2 a = m1 a"
    "\<forall>j < length rs. \<forall>a \<in> span (rs ! j). m2 a = Some (of_nat (i + 1 + j))"
    using Cons.IH [of m1 "i + 1"] Cons.prems m1(2) by auto
  have apart: "span r \<inter> \<Union> (payload ` set bs) = {}"
    using sp Cons.prems(1,2) by (fastforce simp: payloads_disjoint_def)
  have "\<forall>j < length (r # rs). \<forall>a \<in> span ((r # rs) ! j). m2 a = Some (of_nat (i + j))"
  proof (intro allI impI ballI)
    fix j a
    assume j: "j < length (r # rs)" and a: "a \<in> span ((r # rs) ! j)"
    show "m2 a = Some (of_nat (i + j))"
    proof (cases j)
      case 0
      then have "a \<in> span r" using a by simp
      moreover from this have "m2 a = m1 a" using apart m2(3) by blast
      ultimately show ?thesis using m1(3) 0 by simp
    next
      case (Suc k)
      then show ?thesis using m2(4) j a by (auto simp: add.assoc)
    qed
  qed
  moreover have "\<forall>a. a \<notin> \<Union> (payload ` set (b # bs)) \<longrightarrow> m2 a = mem a"
    using m2(3) m1(4) sp by auto
  moreover have "set_loop i (r # rs) mem = Some m2" using m1(1) m2(1) Cons.hyps(1) by (simp add: granted_def)
  ultimately show ?case using m1(2) m2(2) by auto
qed simp

lemma check_loop_true:
  assumes "\<forall>j < length rs. \<forall>a \<in> span (rs ! j). mem a = Some (of_nat (i + j))"
  shows "check_loop i rs mem = Some True"
  using assms
proof (induction rs arbitrary: i)
  case (Cons r rs)
  have "\<forall>a \<in> span r. mem a = Some (of_nat i)" using Cons.prems by force
  moreover have "\<forall>j < length rs. \<forall>a \<in> span (rs ! j). mem a = Some (of_nat (i + 1 + j))" using Cons.prems by fastforce
  ultimately show ?case using Cons.IH [of "i + 1"] memcheck_true [of r mem "of_nat i"] by simp
qed simp

section \<open>The test over the contract\<close>

context placed_allocator
begin

text \<open>The manager holds what it held at first, and the blocks granted since.\<close>

definition held :: "'m \<Rightarrow> (addr \<times> nat) list \<Rightarrow> 'm \<Rightarrow> bool" where
  "held h0 bs h \<longleftrightarrow> inv h \<and> area h = area h0 \<and> blocks h = blocks h0 \<union> set bs \<and> distinct bs \<and>
     set bs \<inter> blocks h0 = {} \<and> payloads_disjoint (set bs)"

lemma held_alloc:
  assumes "held h0 bs h" and "user_malloc alloc n h = Some (p, h')"
  shows "if p = NULL then held h0 bs h' else \<exists>c. unat n \<le> c \<and> held h0 (bs @ [(p, c)]) h'"
proof (cases "n = 0")
  case True
  then show ?thesis using assms by (auto simp: user_malloc_def)
next
  case False
  then have run: "alloc n h = Some (p, h')" using assms(2) by (simp add: user_malloc_def)
  have inv: "inv h" using assms(1) by (simp add: held_def)
  note keep = alloc_inv [OF inv run] alloc_area [OF inv run]
  show ?thesis
  proof (cases "p = NULL")
    case True
    then show ?thesis using assms(1) keep alloc_null [OF inv] run by (simp add: held_def)
  next
    case p: False
    obtain c where c: "unat n \<le> c" "blocks h' = insert (p, c) (blocks h)" "p \<notin> fst ` blocks h"
      "\<forall>y \<in> blocks h. payload (p, c) \<inter> payload y = {}"
      using alloc_new [OF inv run p] by blast
    have "payloads_disjoint (insert (p, c) (set bs))"
      using assms(1) c(4) by (intro payloads_disjoint_insert) (auto simp: held_def)
    moreover have "(p, c) \<notin> blocks h" using c(3) by force
    ultimately have "held h0 (bs @ [(p, c)]) h'"
      using assms(1) c(2) keep by (auto simp: held_def)
    then show ?thesis using p c(1) by auto
  qed
qed

lemma request_loop_held:
  assumes "held h0 bs (mm_heap_state st)" and "list_all2 granted (mm_requests st) bs"
  shows "\<exists>st' bs'. request_loop alloc scale max_memory n st = Some st' \<and> held h0 bs' (mm_heap_state st') \<and>
    list_all2 granted (mm_requests st') bs'"
  using assms
proof (induction n arbitrary: st bs)
  case (Suc n)
  show ?case
  proof (cases "requesting max_memory st")
    case True
    obtain u g where u: "GetUniform scale (if MM_TEST_MIN_BLOCK_SIZE < max_memory - mm_total st
        then max_memory - mm_total st - MM_TEST_MIN_BLOCK_SIZE else 0) (mm_rng st) = (u, g)" by fastforce
    let ?sz = "u + MM_TEST_MIN_BLOCK_SIZE"
    have inv: "inv (mm_heap_state st)" using Suc.prems(1) by (simp add: held_def)
    have "\<exists>p h. user_malloc alloc (ucast ?sz) (mm_heap_state st) = Some (p, h)"
      using alloc_total [OF inv, of "ucast ?sz"] by (auto simp: user_malloc_def)
    then obtain p h where p: "user_malloc alloc (ucast ?sz) (mm_heap_state st) = Some (p, h)" by blast
    note q = held_alloc [OF Suc.prems(1) p]
    have "unat (ucast ?sz :: u64) = unat ?sz"
      using unsigned_less [where 'a = nat and w = ?sz] by (simp add: unsigned_ucast_eq take_bit_nat_eq_self)
    note sz = this
    let ?st0 = "st\<lparr>mm_rng := g, mm_heap_state := h\<rparr>"
    have step: "request_step alloc scale max_memory st = Some (if p \<noteq> NULL
        then ?st0\<lparr>mm_requests := mm_requests st @ [\<lparr>rq_address = p, rq_size = ?sz\<rparr>], mm_total := mm_total st + ?sz\<rparr>
        else ?st0)"
      unfolding request_step_def Let_def u by (simp add: p)
    have "\<exists>st1 bs1. request_step alloc scale max_memory st = Some st1 \<and> held h0 bs1 (mm_heap_state st1) \<and>
      list_all2 granted (mm_requests st1) bs1"
    proof (cases "p = NULL")
      case True
      then show ?thesis using q Suc.prems(2) by (intro exI [of _ ?st0] exI [of _ bs]) (simp add: step)
    next
      case False
      then obtain c where c: "unat ?sz \<le> c" "held h0 (bs @ [(p, c)]) h" using q sz by auto
      then have "granted \<lparr>rq_address = p, rq_size = ?sz\<rparr> (p, c)" using False by (simp add: granted_def)
      then show ?thesis using c(2) Suc.prems(2) False unfolding step
        by (intro exI conjI, simp, simp, simp add: list_all2_appendI)
    qed
    then obtain st1 bs1 where st1: "request_step alloc scale max_memory st = Some st1" "held h0 bs1 (mm_heap_state st1)"
      "list_all2 granted (mm_requests st1) bs1" by blast
    then show ?thesis using Suc.IH [OF st1(2,3)] True by simp
  qed (use Suc.prems in auto)
qed auto

lemma free_loop_held:
  assumes "held h0 bs h" and "list_all2 granted rs bs"
  shows "\<exists>h'. free_loop free rs h = Some h' \<and> held h0 [] h'"
  using assms
proof (induction rs arbitrary: bs h)
  case (Cons r rs)
  obtain b bs' where bs: "bs = b # bs'" "granted r b" "list_all2 granted rs bs'"
    using Cons.prems(2) by (auto simp: list_all2_Cons1)
  have inv: "inv h" and b: "(rq_address r, snd b) \<in> blocks h" and p: "rq_address r \<noteq> NULL"
    using Cons.prems(1) bs(1,2) by (auto simp: held_def granted_def)
  obtain h1 where h1: "free (rq_address r) h = Some h1" "inv h1" "blocks h1 = blocks h - {(rq_address r, snd b)}"
    using free_block [OF inv b] by blast
  have eq: "(rq_address r, snd b) = b" using bs(2) by (simp add: granted_def)
  have "payloads_disjoint (set bs')"
    using Cons.prems(1) bs(1) unfolding held_def by (elim conjE) (erule payloads_disjoint_subset, auto)
  then have "held h0 bs' h1"
    using Cons.prems(1) bs(1) h1(2,3) free_area [OF inv b h1(1)] eq unfolding held_def by auto
  then show ?case using Cons.IH [OF _ bs(3)] h1(1) p by (simp add: user_free_def)
qed simp

lemma mm_round_ok:
  assumes "inv h" and "area h \<subseteq> dom mem"
  shows "\<exists>h' mem'. inv h' \<and> area h' = area h \<and> dom mem' = dom mem \<and>
    (mm_round alloc free scale max_memory n g h mem = Some (Still_requesting h' mem') \<or>
     blocks h' = blocks h \<and> (\<exists>g'. mm_round alloc free scale max_memory n g h mem = Some (Round_done g' h' mem')))"
proof -
  let ?st = "\<lparr>mm_requests = [], mm_total = 0, mm_rng = g, mm_heap_state = h\<rparr>"
  have "held h [] (mm_heap_state ?st)" using assms(1) by (simp add: held_def payloads_disjoint_def)
  then obtain st bs where st: "request_loop alloc scale max_memory n ?st = Some st" "held h bs (mm_heap_state st)"
    "list_all2 granted (mm_requests st) bs"
    using request_loop_held [of h "[]" ?st scale max_memory n] by auto
  show ?thesis
  proof (cases "requesting max_memory st")
    case True
    then show ?thesis using st(1,2) by (intro exI [of _ "mm_heap_state st"] exI [of _ mem]) (simp add: mm_round_def held_def)
  next
    case False
    have "\<Union> (payload ` set bs) \<subseteq> area (mm_heap_state st)"
      using st(2) blocks_in_area [of "mm_heap_state st"] by (auto simp: held_def)
    then have "\<Union> (payload ` set bs) \<subseteq> dom mem" using st(2) assms(2) by (simp add: held_def)
    then obtain mem' where m: "set_loop 0 (mm_requests st) mem = Some mem'" "dom mem' = dom mem"
      "\<forall>j < length (mm_requests st). \<forall>a \<in> span (mm_requests st ! j). mem' a = Some (of_nat (0 + j))"
      using set_loop_fills [OF st(3), of mem 0] st(2) by (auto simp: held_def)
    obtain h' where h': "free_loop free (mm_requests st) (mm_heap_state st) = Some h'" "held h [] h'"
      using free_loop_held [OF st(2,3)] by blast
    have "mm_round alloc free scale max_memory n g h mem = Some (Round_done (mm_rng st) h' mem')"
      using st(1) False m(1) check_loop_true [OF m(3)] h'(1) by (simp add: mm_round_def)
    then show ?thesis using h'(2) m(2) by (intro exI [of _ h'] exI [of _ mem']) (simp add: held_def)
  qed
qed

lemma mm_rounds_ok:
  assumes "inv h" and "area h \<subseteq> dom mem"
  shows "\<exists>r. mm_rounds alloc free scale max_memory ns g h mem = Some r \<and> r \<noteq> Test_error \<and>
    (\<forall>g' h' mem'. r = Round_done g' h' mem' \<longrightarrow> inv h' \<and> blocks h' = blocks h)"
  using assms
proof (induction ns arbitrary: g h mem)
  case (Cons n ns)
  from mm_round_ok [OF Cons.prems, of scale max_memory n g] obtain h' mem' where r: "inv h'" "area h' = area h" "dom mem' = dom mem"
    "mm_round alloc free scale max_memory n g h mem = Some (Still_requesting h' mem') \<or>
     blocks h' = blocks h \<and> (\<exists>g'. mm_round alloc free scale max_memory n g h mem = Some (Round_done g' h' mem'))" by blast
  then show ?case using Cons.IH [of h' mem'] Cons.prems(2) by fastforce
qed simp

end

text \<open>
  C38. The memory test never fails: whatever sizes the generator draws and however many rounds
  are run, over the buddy manager as over the first-fit manager, no call is undefined, no block
  is found overwritten, and after each round the manager holds exactly the blocks it held
  before. The area of the manager is memory the test can write.
\<close>

theorem test_mm_never_fails:
  assumes "buddy_inv m" and "{heap m ..< heap m + HEAP_SIZE} \<subseteq> dom mem"
    and "my_inv h" and "{mm_heap h ..< mm_heap h + MY_HEAP_SIZE} \<subseteq> dom mem'"
  shows "(\<exists>r. mm_rounds mem_alloc mem_free scale max_memory rounds g m mem = Some r \<and> r \<noteq> Test_error \<and>
      (\<forall>g1 m1 mem1. r = Round_done g1 m1 mem1 \<longrightarrow> buddy_inv m1 \<and> buddy_blocks m1 = buddy_blocks m)) \<and>
    (\<exists>r. mm_rounds my_mem_alloc my_mem_free scale max_memory rounds g h mem' = Some r \<and> r \<noteq> Test_error \<and>
      (\<forall>g1 h1 mem1. r = Round_done g1 h1 mem1 \<longrightarrow> my_inv h1 \<and> my_blocks h1 = my_blocks h))"
  using bud_area.mm_rounds_ok [OF assms(1,2)] mym_area.mm_rounds_ok [OF assms(3,4)] by blast

theorem test_mm_never_fails_witness:
  "\<exists>r. mm_rounds mem_alloc mem_free (\<lambda>u maximum. u mod maximum) 1000 [200, 300] boot_rng boot_buddy (\<lambda>_. Some 0) = Some r \<and>
    r \<noteq> Test_error"
proof -
  have b: "buddy_inv boot_buddy" by (simp add: boot_buddy_facts)
  have h: "my_inv (my_mem_init \<lparr>mm_heap = 0x100000, mm_blocks = Map.empty, free_list = NULL\<rparr>)"
    unfolding my_inv_def by (rule exI, rule my_mem_init_rep) simp
  show ?thesis
    using test_mm_never_fails [OF b _ h, of "\<lambda>_. Some 0" "\<lambda>_. Some 0" "\<lambda>u maximum. u mod maximum" 1000 "[200, 300]" boot_rng]
    by auto
qed

text \<open>A manager with nothing left to give keeps the test requesting for ever.\<close>

lemma request_loop_spins:
  assumes "\<And>n h. alloc n h = Some (NULL, h)" and "requesting max_memory st"
  shows "\<exists>st'. request_loop alloc scale max_memory n st = Some st' \<and> requesting max_memory st'"
  using assms(2)
proof (induction n arbitrary: st)
  case (Suc n)
  have "\<exists>st'. request_step alloc scale max_memory st = Some st' \<and> mm_requests st' = mm_requests st \<and> mm_total st' = mm_total st"
    using assms(1) by (auto simp: request_step_def user_malloc_def Let_def split: prod.split)
  then show ?case using Suc by (fastforce simp: requesting_def)
qed auto

end
