(* ===== verification/Test_Sync.thy ===== *)
theory Test_Sync
  imports Test_MM Sem_Spec ULibc
begin

text \<open>
  The synchronisation test (\<open>Userland/tests/test_sync.c\<close>): processes that add 1 and -1 to a
  shared variable with a yield between the load and the store, with and without a semaphore,
  as a state machine over the abstract semaphores of \<open>Sem_Spec\<close>, which the semaphores of the
  kernel refine. A turn of a process is what it does between two points at which another
  process may run; any order of turns may happen.
\<close>

section \<open>The arguments of the processes\<close>

text \<open>The number of iterations as a string: digits from the last one, then in reverse.\<close>

fun digits_loop :: "u64 \<Rightarrow> nat \<Rightarrow> u8 list \<Rightarrow> u8 list" where
  "digits_loop n 0 tmp = tmp"
| "digits_loop n (Suc k) tmp = (if 0 < n then digits_loop (n div 10) k (tmp @ [48 + ucast (n mod 10)]) else tmp)"

definition iterations_str :: "u64 \<Rightarrow> cstring" where
  "iterations_str n = (if n = 0 then [48, 0] else rev (digits_loop n 24 []) @ [0])"

text \<open>What \<open>process_inc\<close> does with them: \<open>None\<close> is the exit with status -1.\<close>

definition inc_args :: "int \<Rightarrow> cstring option list option \<Rightarrow> bool \<Rightarrow> (int \<times> int \<times> bool) option option" where
  "inc_args argc argv have_sem =
     (if argc < 3 \<or> argv = None then Some None
      else case the argv of
        a # b # c # _ \<Rightarrow> do {
          iterations \<leftarrow> satoi a;
          delta \<leftarrow> satoi b;
          use_sem \<leftarrow> satoi c;
          Some (if iterations \<le> 0 \<or> delta = 0 \<or> use_sem < 0 then None
                else if use_sem \<noteq> 0 \<and> \<not> have_sem then None
                else Some (iterations, delta, use_sem \<noteq> 0))
        }
      | _ \<Rightarrow> None)"

text \<open>The processes read back the number they are passed.\<close>

definition digit_value :: "int \<Rightarrow> u8 \<Rightarrow> int" where
  "digit_value r c = r * 10 + (sint c - 48)"

definition is_digit :: "u8 \<Rightarrow> bool" where
  "is_digit c \<longleftrightarrow> 48 \<le> sint c \<and> sint c \<le> 57"

lemma digits_ge: "list_all is_digit ds \<Longrightarrow> 0 \<le> r \<Longrightarrow> r \<le> foldl digit_value r ds"
proof (induction ds arbitrary: r)
  case (Cons c ds)
  then have "r \<le> digit_value r c" "0 \<le> digit_value r c" by (auto simp: digit_value_def is_digit_def)
  then show ?case using Cons by fastforce
qed simp

lemma satoi_loop_digits:
  assumes "list_all is_digit ds" and "0 \<le> r" and "foldl digit_value r ds < 2 ^ 63"
  shows "satoi_loop (ds @ [0]) r 1 = Some (foldl digit_value r ds)"
  using assms
proof (induction ds arbitrary: r)
  case (Cons c ds)
  have c: "is_digit c" "0 \<le> digit_value r c" using Cons.prems(1,2) by (auto simp: digit_value_def is_digit_def)
  have "digit_value r c \<le> foldl digit_value (digit_value r c) ds" using Cons.prems(1) c(2) by (intro digits_ge) simp_all
  then have "int_of 64 (digit_value r c) = Some (digit_value r c)" using Cons.prems(3) c(2) by (simp add: int_of_def)
  moreover have "c \<noteq> 0" using c(1) by (auto simp: is_digit_def)
  ultimately show ?case using Cons c by (auto simp: is_digit_def digit_value_def)
qed (simp add: int_of_def)

lemma digits_loop_tmp: "digits_loop n k tmp = tmp @ digits_loop n k []"
proof (induction k arbitrary: n tmp)
  case (Suc k)
  have "digits_loop (n div 10) k (tmp @ [c]) = tmp @ digits_loop (n div 10) k [c]" for c
    using Suc.IH [of "n div 10" "tmp @ [c]"] Suc.IH [of "n div 10" "[c]"] by simp
  then show ?case by simp
qed simp

lemma last_digit: "sint (48 + ucast (n mod 10) :: u8) = 48 + int (unat (n :: u64) mod 10)"
proof -
  have m: "unat (n mod 10) = unat n mod 10" by (simp add: unat_mod)
  have "(ucast (n mod 10) :: u8) = of_nat (unat (n mod 10))" by simp
  then have "(48 + ucast (n mod 10) :: u8) = of_nat (48 + unat n mod 10)" unfolding m by simp
  moreover have "sint (of_nat (48 + unat n mod 10) :: u8) = int (48 + unat n mod 10)"
  proof -
    have "signed_take_bit (LENGTH(8) - Suc 0) (int j) = int j" if "j < 128" for j
      by (rule signed_take_bit_int_eq_self) (use that in auto)
    moreover have "48 + unat n mod 10 < 128" using mod_less_divisor [of 10 "unat n"] by linarith
    ultimately have "signed_take_bit (LENGTH(8) - Suc 0) (int (48 + unat n mod 10)) = int (48 + unat n mod 10)" by blast
    then show ?thesis unfolding signed_of_nat by simp
  qed
  ultimately show ?thesis by simp
qed

lemma digits_loop_value:
  assumes "unat n < 10 ^ k"
  shows "foldl digit_value 0 (rev (digits_loop n k [])) = int (unat n) \<and> list_all is_digit (digits_loop n k [])"
  using assms
proof (induction k arbitrary: n)
  case 0
  then show ?case by simp
next
  case (Suc k)
  have d: "unat (n div 10) = unat n div 10" by (simp add: unat_div)
  then have "unat (n div 10) < 10 ^ k" using Suc.prems by (simp add: less_mult_imp_div_less)
  note IH = Suc.IH [OF this]
  show ?case
  proof (cases "n = 0")
    case False
    let ?c = "48 + ucast (n mod 10) :: u8"
    have "digits_loop n (Suc k) [] = ?c # digits_loop (n div 10) k []"
      using False digits_loop_tmp [of "n div 10" k "[?c]"] by (simp add: word_neq_0_conv)
    moreover have "digit_value (int (unat (n div 10))) ?c = int (unat n)"
      unfolding digit_value_def last_digit d by (simp add: zdiv_int zmod_int)
    moreover have "is_digit ?c" unfolding is_digit_def last_digit by simp
    ultimately show ?thesis using IH by simp
  qed simp
qed

lemma satoi_iterations:
  assumes "unat n < 2 ^ 63"
  shows "satoi (Some (iterations_str n)) = Some (int (unat n))"
proof (cases "n = 0")
  case True
  then show ?thesis by (simp add: satoi_def iterations_str_def int_of_def)
next
  case False
  let ?ds = "rev (digits_loop n 24 [])"
  have "unat n < 10 ^ 24" using unsigned_less [where 'a = nat and w = n] by simp
  note v = digits_loop_value [OF this]
  have val: "satoi_loop (?ds @ [0]) 0 1 = Some (int (unat n))"
  proof -
    have "int (unat n) < int (2 ^ 63)" using assms unfolding of_nat_less_iff .
    then have "foldl digit_value 0 ?ds < 2 ^ 63" using v by simp
    then show ?thesis using satoi_loop_digits [of ?ds 0] v by (simp only: list_all_rev)
  qed
  have "0 < unat n" using False by (simp add: unat_gt_0)
  then obtain c ds where c: "?ds = c # ds" using v False by (cases ?ds) (auto simp: unsigned_eq_0_iff)
  have "c \<in> set (digits_loop n 24 [])" using arg_cong [OF c, of set] by simp
  then have "is_digit c" using v by (simp add: list_all_iff)
  then have "c \<noteq> 45" by (auto simp: is_digit_def)
  then show ?thesis using val False unfolding satoi_def iterations_str_def c by simp
qed

section \<open>The machine\<close>

text \<open>
  Where a process is, with the iterations it has completed: at the head of its loop, in line at
  the semaphore, past the wait, with the value it has loaded, after the store, or finished.
\<close>

datatype inc_place = Head nat | In_line nat | Entered nat | Loaded nat int | Stored nat | Exited

record sync_state =
  sy_sems :: sem_state
  shared_value :: int
  sy_place :: "addr \<Rightarrow> inc_place"

text \<open>A process: its delta. All of them have the same number of iterations.\<close>

type_synonym incs = "addr \<rightharpoonup> int"

definition at :: "addr \<Rightarrow> inc_place \<Rightarrow> sync_state \<Rightarrow> sync_state" where
  "at p x st = st\<lparr>sy_place := (sy_place st)(p := x)\<rparr>"

definition sync_wait :: "addr \<Rightarrow> addr \<Rightarrow> nat \<Rightarrow> sync_state \<Rightarrow> sync_state" where
  "sync_wait sem p i st =
     at p (if 0 < fst (sy_sems st) sem then Entered i else In_line i) (st\<lparr>sy_sems := sem_step (Wait sem p) (sy_sems st)\<rparr>)"

text \<open>A post lets the first process in line pass its wait.\<close>

definition pass_wait :: "addr \<Rightarrow> sync_state \<Rightarrow> sync_state" where
  "pass_wait q st = (case sy_place st q of In_line i \<Rightarrow> at q (Entered i) st | _ \<Rightarrow> st)"

definition sync_post :: "addr \<Rightarrow> addr \<Rightarrow> nat \<Rightarrow> sync_state \<Rightarrow> sync_state" where
  "sync_post sem p i st =
     (let st' = at p (Head (i + 1)) (st\<lparr>sy_sems := sem_step (Post sem) (sy_sems st)\<rparr>)
      in case snd (sy_sems st) sem of [] \<Rightarrow> st' | q # _ \<Rightarrow> pass_wait q st')"

definition inc_turn :: "addr \<Rightarrow> bool \<Rightarrow> nat \<Rightarrow> incs \<Rightarrow> addr \<Rightarrow> sync_state \<Rightarrow> sync_state" where
  "inc_turn sem use_sem iterations incs p st =
     (case incs p of
        None \<Rightarrow> st
      | Some delta \<Rightarrow>
          (case sy_place st p of
             Head i \<Rightarrow>
               if iterations \<le> i then at p Exited st
               else if use_sem then sync_wait sem p i st
               else at p (Entered i) st
           | In_line i \<Rightarrow> st
           | Entered i \<Rightarrow> at p (Loaded i (shared_value st)) st
           | Loaded i tmp \<Rightarrow> at p (Stored i) (st\<lparr>shared_value := tmp + delta\<rparr>)
           | Stored i \<Rightarrow> if use_sem then sync_post sem p i st else at p (Head (i + 1)) st
           | Exited \<Rightarrow> st))"

definition sync_start :: "addr \<Rightarrow> sync_state" where
  "sync_start sem = \<lparr>sy_sems = ((\<lambda>_. 0)(sem := 1), \<lambda>_. []), shared_value = 0, sy_place = (\<lambda>_. Head 0)\<rparr>"

definition sync_run :: "addr \<Rightarrow> bool \<Rightarrow> nat \<Rightarrow> incs \<Rightarrow> addr list \<Rightarrow> sync_state" where
  "sync_run sem use_sem iterations incs schedule =
     fold (inc_turn sem use_sem iterations incs) schedule (sync_start sem)"

text \<open>The processes \<open>run_sync_test\<close> creates: two that subtract and two that add.\<close>

definition sync_procs :: "addr list \<Rightarrow> incs" where
  "sync_procs pids = map_of (zip pids [-1, 1, -1, 1])"

section \<open>Invariant\<close>

fun completed :: "nat \<Rightarrow> inc_place \<Rightarrow> nat" where
  "completed iterations (Head i) = i"
| "completed iterations (In_line i) = i"
| "completed iterations (Entered i) = i"
| "completed iterations (Loaded i tmp) = i"
| "completed iterations (Stored i) = i + 1"
| "completed iterations Exited = iterations"

fun critical :: "inc_place \<Rightarrow> bool" where
  "critical (Entered i) = True"
| "critical (Loaded i tmp) = True"
| "critical (Stored i) = True"
| "critical _ = False"

fun place_ok :: "nat \<Rightarrow> int \<Rightarrow> inc_place \<Rightarrow> bool" where
  "place_ok iterations v (Head i) = (i \<le> iterations)"
| "place_ok iterations v (In_line i) = (i < iterations)"
| "place_ok iterations v (Entered i) = (i < iterations)"
| "place_ok iterations v (Loaded i tmp) = (i < iterations \<and> tmp = v)"
| "place_ok iterations v (Stored i) = (i < iterations)"
| "place_ok iterations v Exited = True"

definition total_of :: "nat \<Rightarrow> incs \<Rightarrow> (addr \<Rightarrow> inc_place) \<Rightarrow> int" where
  "total_of iterations incs pl = (\<Sum>p \<in> dom incs. the (incs p) * int (completed iterations (pl p)))"

text \<open>The holder, if there is one, is the only process past its wait; those in line are in line.\<close>

definition holder_is :: "addr \<Rightarrow> nat \<Rightarrow> incs \<Rightarrow> addr option \<Rightarrow> sync_state \<Rightarrow> bool" where
  "holder_is sem iterations incs t st \<longleftrightarrow>
     fst (sy_sems st) sem = (if t = None then 1 else 0) \<and> (t = None \<longrightarrow> snd (sy_sems st) sem = []) \<and>
     (\<forall>p. critical (sy_place st p) \<longleftrightarrow> t = Some p) \<and> (\<forall>p. t = Some p \<longrightarrow> p \<in> dom incs) \<and>
     distinct (snd (sy_sems st) sem) \<and> (\<forall>q. q \<in> set (snd (sy_sems st) sem) \<longleftrightarrow> (\<exists>i. sy_place st q = In_line i)) \<and>
     set (snd (sy_sems st) sem) \<subseteq> dom incs \<and>
     (\<forall>p. place_ok iterations (shared_value st) (sy_place st p)) \<and>
     shared_value st = total_of iterations incs (sy_place st)"

lemma total_upd:
  assumes "finite (dom incs)" and "incs p = Some d"
  shows "total_of n incs (pl(p := x)) = total_of n incs pl + d * (int (completed n x) - int (completed n (pl p)))"
proof -
  have p: "p \<in> dom incs" using assms(2) by auto
  have "(\<Sum>q \<in> dom incs - {p}. the (incs q) * int (completed n ((pl(p := x)) q))) =
    (\<Sum>q \<in> dom incs - {p}. the (incs q) * int (completed n (pl q)))" by (rule sum.cong) auto
  then show ?thesis
    using assms(2) unfolding total_of_def sum.remove [OF assms(1) p] by (simp add: algebra_simps)
qed

lemma holder_start: "holder_is sem n incs None (sync_start sem)"
  by (simp add: holder_is_def sync_start_def total_of_def)

lemma holder_is_place:
  assumes "holder_is sem n incs t st"
  shows "critical (sy_place st p) \<longleftrightarrow> t = Some p" "place_ok n (shared_value st) (sy_place st p)"
    "shared_value st = total_of n incs (sy_place st)"
  using assms by (auto simp: holder_is_def)

text \<open>Moving a process without changing the semaphore, nor who is past the wait or in line.\<close>

lemma holder_move:
  assumes h: "holder_is sem n incs t st" and f: "finite (dom incs)" "incs p = Some d"
    and pl: "critical x \<longleftrightarrow> critical (sy_place st p)" "\<nexists>i. sy_place st p = In_line i" "\<nexists>i. x = In_line i"
    and v: "v = shared_value st + d * (int (completed n x) - int (completed n (sy_place st p)))"
    and ok: "place_ok n v x" "v \<noteq> shared_value st \<Longrightarrow> critical x"
  shows "holder_is sem n incs t (at p x (st\<lparr>shared_value := v\<rparr>))"
proof -
  have "place_ok n v (sy_place st q)" if "q \<noteq> p" for q
  proof (cases "v = shared_value st")
    case False
    then have "t = Some p" using ok(2) pl(1) h by (simp add: holder_is_def)
    then have "\<not> critical (sy_place st q)" using that h by (simp add: holder_is_def)
    then show ?thesis using holder_is_place(2) [OF h, of q] by (cases "sy_place st q") auto
  qed (use holder_is_place(2) [OF h, of q] in simp)
  then show ?thesis
    using h pl ok(1) v unfolding holder_is_def at_def by (simp add: total_upd [OF f])
qed

lemma holder_wait:
  assumes h: "holder_is sem n incs t st" and f: "finite (dom incs)" "incs p = Some d"
    and pl: "sy_place st p = Head i" "i < n"
  shows "holder_is sem n incs (if t = None then Some p else t) (sync_wait sem p i st)"
proof (cases t)
  case None
  have "0 < fst (sy_sems st) sem" using h None by (simp add: holder_is_def)
  then show ?thesis using h None pl f(2)
    unfolding holder_is_def sync_wait_def at_def
    by (cases "sy_sems st") (auto simp: total_upd [OF f])
next
  case (Some q)
  have v: "fst (sy_sems st) sem = 0" using h Some by (simp add: holder_is_def)
  have "p \<notin> set (snd (sy_sems st) sem)" "\<not> critical (sy_place st p)" using h pl by (auto simp: holder_is_def)
  then have "q \<noteq> p" using h Some by (auto simp: holder_is_def)
  then show ?thesis using h Some pl f(2) v \<open>p \<notin> set (snd (sy_sems st) sem)\<close>
    unfolding holder_is_def sync_wait_def at_def
    by (cases "sy_sems st") (auto simp: total_upd [OF f])
qed

lemma holder_post:
  assumes h: "holder_is sem n incs t st" and f: "finite (dom incs)" "incs p = Some d"
    and pl: "sy_place st p = Stored i"
  shows "holder_is sem n incs (case snd (sy_sems st) sem of [] \<Rightarrow> None | q # _ \<Rightarrow> Some q) (sync_post sem p i st)"
proof -
  have t: "t = Some p" using holder_is_place(1) [OF h, of p] pl by simp
  have i: "i < n" using holder_is_place(2) [OF h, of p] pl by simp
  have tot: "total_of n incs ((sy_place st)(p := Head (Suc i))) = total_of n incs (sy_place st)"
    using pl by (simp add: total_upd [OF f])
  have crit: "\<not> critical (sy_place st q)" if "q \<noteq> p" for q using h t that by (simp add: holder_is_def)
  show ?thesis
  proof (cases "snd (sy_sems st) sem")
    case Nil
    then show ?thesis using h t i pl tot crit
      unfolding holder_is_def sync_post_def at_def Let_def
      by (cases "sy_sems st") auto
  next
    case (Cons q qs)
    have "\<exists>j. sy_place st q = In_line j" using h Cons by (auto simp: holder_is_def)
    then obtain j where j: "sy_place st q = In_line j" by blast
    have q: "q \<noteq> p" "q \<in> dom incs" "j < n" using j pl h Cons holder_is_place(2) [OF h, of q] by (auto simp: holder_is_def)
    obtain dq where dq: "incs q = Some dq" using q(2) by auto
    have tot2: "total_of n incs ((sy_place st)(p := Head (Suc i), q := Entered j)) = total_of n incs (sy_place st)"
      using j q(1) tot by (simp add: total_upd [OF f(1) dq])
    have d: "distinct (q # qs)" using h Cons by (simp add: holder_is_def)
    have post: "sync_post sem p i st = st\<lparr>sy_sems := sem_step (Post sem) (sy_sems st),
        sy_place := (sy_place st)(p := Head (Suc i), q := Entered j)\<rparr>"
      using Cons j q(1) by (simp add: sync_post_def pass_wait_def at_def Let_def)
    show ?thesis unfolding post using h t i pl tot2 crit Cons q j d
      unfolding holder_is_def by (cases "sy_sems st") auto
  qed
qed

lemma inc_turn_holder:
  assumes h: "holder_is sem n incs t st" and f: "finite (dom incs)"
  shows "\<exists>t'. holder_is sem n incs t' (inc_turn sem True n incs p st)"
proof (cases "incs p")
  case None
  then show ?thesis using h by (auto simp: inc_turn_def)
next
  case (Some d)
  note move = holder_move [OF h f Some] and v = holder_is_place(3) [OF h]
  note ok = holder_is_place(2) [OF h, of p]
  show ?thesis
  proof (cases "sy_place st p")
    case (Head i)
    show ?thesis
    proof (cases "n \<le> i")
      case True
      then have "holder_is sem n incs t (at p Exited (st\<lparr>shared_value := shared_value st\<rparr>))"
        using Head ok by (intro move) auto
      then show ?thesis using Head True Some by (auto simp: inc_turn_def)
    next
      case False
      then show ?thesis using holder_wait [OF h f Some Head] Head Some by (auto simp: inc_turn_def)
    qed
  next
    case (In_line i)
    then show ?thesis using h Some by (auto simp: inc_turn_def)
  next
    case (Entered i)
    then have "holder_is sem n incs t (at p (Loaded i (shared_value st)) (st\<lparr>shared_value := shared_value st\<rparr>))"
      using ok by (intro move) auto
    then show ?thesis using Entered Some by (auto simp: inc_turn_def)
  next
    case (Loaded i tmp)
    then have "holder_is sem n incs t (at p (Stored i) (st\<lparr>shared_value := tmp + d\<rparr>))"
      using ok by (intro move) auto
    then show ?thesis using Loaded Some by (auto simp: inc_turn_def)
  next
    case (Stored i)
    then show ?thesis using holder_post [OF h f Some Stored] Some by (auto simp: inc_turn_def)
  next
    case Exited
    then show ?thesis using h Some by (auto simp: inc_turn_def)
  qed
qed

lemma sync_run_holder:
  assumes "finite (dom incs)"
  shows "\<exists>t. holder_is sem n incs t (sync_run sem True n incs schedule)"
proof -
  have "\<exists>t'. holder_is sem n incs t' (fold (inc_turn sem True n incs) schedule st)" if "holder_is sem n incs t st" for st t
    using that
  proof (induction schedule arbitrary: st t)
    case (Cons p schedule)
    then show ?case using inc_turn_holder [OF Cons.prems assms, of p] by auto
  qed auto
  from this [OF holder_start] show ?thesis unfolding sync_run_def .
qed

text \<open>As long as a process has not exited, some process can go on.\<close>

lemma holder_moves:
  assumes h: "holder_is sem n incs t st" and p: "p \<in> dom incs" "sy_place st p \<noteq> Exited"
  shows "\<exists>q \<in> dom incs. inc_turn sem True n incs q st \<noteq> st"
proof -
  have moves: "inc_turn sem True n incs q st \<noteq> st" if "sy_place (inc_turn sem True n incs q st) q \<noteq> sy_place st q" for q
    using that by auto
  show ?thesis
  proof (cases t)
    case None
    have "\<not> critical (sy_place st p)" "\<nexists>i. sy_place st p = In_line i" using h None by (auto simp: holder_is_def)
    then obtain i where "sy_place st p = Head i" using p(2) by (cases "sy_place st p") auto
    then have "sy_place (inc_turn sem True n incs p st) p \<noteq> sy_place st p"
      using p(1) by (auto simp: inc_turn_def at_def sync_wait_def split: if_splits)
    then show ?thesis using moves p(1) by blast
  next
    case (Some q)
    then have q: "q \<in> dom incs" and c: "critical (sy_place st q)" using h by (auto simp: holder_is_def)
    have line: "\<exists>j. sy_place st r = In_line j" if "snd (sy_sems st) sem = r # rs" for r rs
      using h that by (auto simp: holder_is_def)
    have "sy_place (inc_turn sem True n incs q st) q \<noteq> sy_place st q"
    proof (cases "sy_place st q")
      case (Stored i)
      then have "sy_place (sync_post sem q i st) q = Head (i + 1)"
        using line by (cases "snd (sy_sems st) sem") (fastforce simp: sync_post_def pass_wait_def at_def Let_def split: inc_place.splits)+
      then show ?thesis using Stored q by (auto simp: inc_turn_def)
    qed (use c q in \<open>auto simp: inc_turn_def at_def\<close>)
    then show ?thesis using moves q by blast
  qed
qed

lemma sync_procs_four:
  assumes "distinct pids" and "length pids = 4"
  obtains a b c d where "pids = [a, b, c, d]" and "dom (sync_procs pids) = {a, b, c, d}"
    and "\<And>n pl. total_of n (sync_procs pids) pl = int (completed n (pl b)) + int (completed n (pl d)) -
      int (completed n (pl a)) - int (completed n (pl c))"
proof -
  obtain a b c d where pids: "pids = [a, b, c, d]"
    using assms(2) by (auto simp: numeral_eq_Suc length_Suc_conv)
  have dm: "dom (sync_procs pids) = {a, b, c, d}" by (auto simp: sync_procs_def pids)
  show thesis
  proof (rule that [OF pids dm])
    fix n pl
    show "total_of n (sync_procs pids) pl = int (completed n (pl b)) + int (completed n (pl d)) -
      int (completed n (pl a)) - int (completed n (pl c))"
      unfolding total_of_def dm using assms(1) by (simp add: sync_procs_def pids)
  qed
qed

lemma completed_le: "place_ok n v x \<Longrightarrow> completed n x \<le> n"
  by (cases x) auto

text \<open>
  C39. The synchronisation test succeeds: for any number of iterations and any order of the turns
  of its four processes, at most one of them is between its wait and its post, the shared
  variable stays within twice the number of iterations (so that its 64 bits do not overflow),
  as long as a process has not exited some process can go on, and when all have exited the
  final value is 0.
\<close>

theorem test_sync_final_zero:
  fixes sem :: addr and iterations :: nat and schedule :: "addr list"
  assumes "distinct pids" and "length pids = 4"
  defines "st \<equiv> sync_run sem True iterations (sync_procs pids) schedule"
  shows "\<bar>shared_value st\<bar> \<le> 2 * int iterations \<and>
    (\<forall>p q. critical (sy_place st p) \<longrightarrow> critical (sy_place st q) \<longrightarrow> p = q) \<and>
    ((\<exists>p \<in> set pids. sy_place st p \<noteq> Exited) \<longrightarrow>
       (\<exists>p \<in> set pids. inc_turn sem True iterations (sync_procs pids) p st \<noteq> st)) \<and>
    ((\<forall>p \<in> set pids. sy_place st p = Exited) \<longrightarrow> shared_value st = 0)"
proof -
  obtain a b c d where pids: "pids = [a, b, c, d]" and dm: "dom (sync_procs pids) = {a, b, c, d}"
    and tot: "\<And>n pl. total_of n (sync_procs pids) pl = int (completed n (pl b)) + int (completed n (pl d)) -
      int (completed n (pl a)) - int (completed n (pl c))"
    using sync_procs_four [OF assms(1,2)] by blast
  obtain t where h: "holder_is sem iterations (sync_procs pids) t st"
    using sync_run_holder [of "sync_procs pids"] dm unfolding st_def by fastforce
  note v = holder_is_place(3) [OF h, unfolded tot]
  have dp: "set pids = dom (sync_procs pids)" unfolding dm by (simp add: pids)
  have le: "completed iterations (sy_place st p) \<le> iterations" for p
    using completed_le [OF holder_is_place(2) [OF h, of p]] .
  have "\<bar>shared_value st\<bar> \<le> 2 * int iterations" using v le [of a] le [of b] le [of c] le [of d] by linarith
  moreover have "\<forall>p q. critical (sy_place st p) \<longrightarrow> critical (sy_place st q) \<longrightarrow> p = q"
    using holder_is_place(1) [OF h] by simp
  moreover have "(\<exists>p \<in> set pids. sy_place st p \<noteq> Exited) \<longrightarrow>
      (\<exists>p \<in> set pids. inc_turn sem True iterations (sync_procs pids) p st \<noteq> st)"
    unfolding dp using holder_moves [OF h] by blast
  moreover have "(\<forall>p \<in> set pids. sy_place st p = Exited) \<longrightarrow> shared_value st = 0" using v pids by simp
  ultimately show ?thesis by blast
qed

theorem test_sync_final_zero_witness:
  "\<bar>shared_value (sync_run 9 True 5 (sync_procs [1, 2, 3, 4]) [1, 1, 2, 1, 3, 1, 2])\<bar> \<le> 10"
  using test_sync_final_zero [of "[1, 2, 3, 4]" 9 5 "[1, 1, 2, 1, 3, 1, 2]"] by simp

text \<open>Without the semaphore an update can be lost: all four exit, and the final value is 1.\<close>

lemma test_nosync_loses_updates:
  "let st = sync_run 9 False 1 (sync_procs [1, 2, 3, 4])
     [1, 1, 2, 2, 1, 2, 1, 2, 1, 2, 3, 3, 3, 3, 3, 4, 4, 4, 4, 4]
   in (\<forall>p \<in> {1, 2, 3, 4}. sy_place st p = Exited) \<and> shared_value st = 1"
  by (simp add: sync_run_def sync_start_def sync_procs_def inc_turn_def at_def)

end
