(* ===== verification/Libsys.thy ===== *)
theory Libsys
  imports Syscall
begin

text \<open>
  The library of system calls of user programs (\<open>Userland/libsys/libsys.c\<close>). A wrapper hands its
  arguments to the assembly stub of a system call, which puts the number of the call into
  \<open>rax\<close> and leaves the arguments in the registers of the calling convention; the other registers
  hold whatever they held. Narrow arguments are extended to 64 bits. A wrapper is the function
  from the registers before to the registers the kernel sees.
\<close>

definition sys_int80 :: "u64 \<Rightarrow> u64 list \<Rightarrow> Registers \<Rightarrow> Registers" where
  "sys_int80 n args r =
     (let arg = (\<lambda>i old. if i < length args then args ! i else old) in
      \<lparr>rax = n, rdi = arg 0 (rdi r), rsi = arg 1 (rsi r), rdx = arg 2 (rdx r), rcx = arg 3 (rcx r), r8 = arg 4 (r8 r)\<rparr>)"

definition startBeep :: "u32 \<Rightarrow> Registers \<Rightarrow> Registers" where
  "startBeep nFrequence = sys_int80 0x80000000 [ucast nFrequence]"

definition stopBeep :: "Registers \<Rightarrow> Registers" where
  "stopBeep = sys_int80 0x80000001 []"

definition setTextColor :: "u32 \<Rightarrow> Registers \<Rightarrow> Registers" where
  "setTextColor color = sys_int80 0x80000002 [ucast color]"

definition setBackgroundColor :: "u32 \<Rightarrow> Registers \<Rightarrow> Registers" where
  "setBackgroundColor color = sys_int80 0x80000003 [ucast color]"

definition increaseFontSize :: "Registers \<Rightarrow> Registers" where
  "increaseFontSize = sys_int80 0x80000008 []"

definition decreaseFontSize :: "Registers \<Rightarrow> Registers" where
  "decreaseFontSize = sys_int80 0x80000007 []"

definition setFontSize :: "u8 \<Rightarrow> Registers \<Rightarrow> Registers" where
  "setFontSize sz = sys_int80 0x80000009 [ucast sz]"

text \<open>Three calls, one after the other.\<close>

definition getDate :: "u64 \<Rightarrow> u64 \<Rightarrow> u64 \<Rightarrow> Registers \<Rightarrow> Registers list" where
  "getDate hour minute second r =
     [sys_int80 0x80000010 [hour] r, sys_int80 0x80000011 [minute] r, sys_int80 0x80000012 [second] r]"

definition clearScreen :: "Registers \<Rightarrow> Registers" where
  "clearScreen = sys_int80 0x8000000A []"

definition clearScreenCharacter :: "Registers \<Rightarrow> Registers" where
  "clearScreenCharacter = sys_int80 0x8000000B []"

definition drawCircle :: "u32 \<Rightarrow> u64 \<Rightarrow> u64 \<Rightarrow> u64 \<Rightarrow> Registers \<Rightarrow> Registers" where
  "drawCircle color topleftX topLefyY diameter = sys_int80 0x80000019 [ucast color, topleftX, topLefyY, diameter]"

definition drawRectangle :: "u32 \<Rightarrow> u64 \<Rightarrow> u64 \<Rightarrow> u64 \<Rightarrow> u64 \<Rightarrow> Registers \<Rightarrow> Registers" where
  "drawRectangle color width_pixels height_pixels initial_pos_x initial_pos_y = sys_int80 0x80000020 [ucast color, width_pixels, height_pixels, initial_pos_x, initial_pos_y]"

definition fillVideoMemory :: "u32 \<Rightarrow> Registers \<Rightarrow> Registers" where
  "fillVideoMemory hexColor = sys_int80 0x80000021 [ucast hexColor]"

definition exec :: "u64 \<Rightarrow> Registers \<Rightarrow> Registers" where
  "exec fnPtr = sys_int80 0x800000A0 [fnPtr]"

definition registerKey :: "u8 \<Rightarrow> u64 \<Rightarrow> Registers \<Rightarrow> Registers" where
  "registerKey scancode fn = sys_int80 0x800000B0 [ucast scancode, fn]"

definition getWindowWidth :: "Registers \<Rightarrow> Registers" where
  "getWindowWidth = sys_int80 0x800000C0 []"

definition getWindowHeight :: "Registers \<Rightarrow> Registers" where
  "getWindowHeight = sys_int80 0x800000C1 []"

definition sleep :: "u32 \<Rightarrow> Registers \<Rightarrow> Registers" where
  "sleep miliseconds = sys_int80 0x800000D0 [ucast miliseconds]"

definition getRegisterSnapshot :: "u64 \<Rightarrow> Registers \<Rightarrow> Registers" where
  "getRegisterSnapshot registers = sys_int80 0x800000E0 [registers]"

definition processCreate :: "u64 \<Rightarrow> 32 word \<Rightarrow> u64 \<Rightarrow> u8 \<Rightarrow> u8 \<Rightarrow> Registers \<Rightarrow> Registers" where
  "processCreate entry_point argc argv priority foreground = sys_int80 0x80000100 [entry_point, scast argc, argv, ucast priority, ucast foreground]"

definition processExit :: "32 word \<Rightarrow> Registers \<Rightarrow> Registers" where
  "processExit status = sys_int80 0x80000101 [scast status]"

definition processGetPid :: "Registers \<Rightarrow> Registers" where
  "processGetPid = sys_int80 0x80000102 []"

definition processList :: "Registers \<Rightarrow> Registers" where
  "processList = sys_int80 0x80000103 []"

definition processKill :: "u64 \<Rightarrow> Registers \<Rightarrow> Registers" where
  "processKill pid = sys_int80 0x80000104 [pid]"

definition processSetPriority :: "u64 \<Rightarrow> u8 \<Rightarrow> Registers \<Rightarrow> Registers" where
  "processSetPriority pid priority = sys_int80 0x80000105 [pid, ucast priority]"

definition processBlock :: "u64 \<Rightarrow> Registers \<Rightarrow> Registers" where
  "processBlock pid = sys_int80 0x80000106 [pid]"

definition processUnblock :: "u64 \<Rightarrow> Registers \<Rightarrow> Registers" where
  "processUnblock pid = sys_int80 0x80000107 [pid]"

definition processYield :: "Registers \<Rightarrow> Registers" where
  "processYield = sys_int80 0x80000108 []"

definition processWaitPid :: "u64 \<Rightarrow> Registers \<Rightarrow> Registers" where
  "processWaitPid pid = sys_int80 0x80000109 [pid]"

definition processWaitChildren :: "Registers \<Rightarrow> Registers" where
  "processWaitChildren = sys_int80 0x8000010A []"

definition processGiveForeground :: "u64 \<Rightarrow> Registers \<Rightarrow> Registers" where
  "processGiveForeground pid = sys_int80 0x8000010B [pid]"

definition processGetForeground :: "Registers \<Rightarrow> Registers" where
  "processGetForeground = sys_int80 0x8000010C []"

definition openPipe :: "Registers \<Rightarrow> Registers" where
  "openPipe = sys_int80 0x80000130 []"

definition setFdTargets :: "u64 \<Rightarrow> u64 \<Rightarrow> u64 \<Rightarrow> Registers \<Rightarrow> Registers" where
  "setFdTargets read_target write_target error_target = sys_int80 0x80000131 [read_target, write_target, error_target]"

definition semOpen :: "u64 \<Rightarrow> u32 \<Rightarrow> u8 \<Rightarrow> Registers \<Rightarrow> Registers" where
  "semOpen name initial_count create_if_missing = sys_int80 0x80000120 [name, ucast initial_count, ucast create_if_missing]"

definition semClose :: "u64 \<Rightarrow> Registers \<Rightarrow> Registers" where
  "semClose sem = sys_int80 0x80000121 [sem]"

definition semWait :: "u64 \<Rightarrow> Registers \<Rightarrow> Registers" where
  "semWait sem = sys_int80 0x80000122 [sem]"

definition semPost :: "u64 \<Rightarrow> Registers \<Rightarrow> Registers" where
  "semPost sem = sys_int80 0x80000123 [sem]"

definition printMemStatus :: "Registers \<Rightarrow> Registers" where
  "printMemStatus = sys_int80 0x80000024 []"

definition clearPipe :: "u8 \<Rightarrow> Registers \<Rightarrow> Registers" where
  "clearPipe pipe_id = sys_int80 0x80000132 [ucast pipe_id]"

section \<open>Every wrapper reaches its system call\<close>

lemma to_int_scast: "to_int (scast (i :: 32 word)) = sint i"
proof -
  have "(ucast (scast i :: u64) :: 32 word) = i" by (rule bit_word_eqI) (auto simp: bit_simps)
  then show ?thesis by (simp add: to_int_def)
qed

lemma narrow_scast: "(ucast (scast (i :: 32 word) :: u64) :: 32 word) = i"
  by (rule bit_word_eqI) (auto simp: bit_simps)

lemma narrow_u32: "(ucast (ucast (i :: u32) :: u64) :: u32) = i"
  by (rule bit_word_eqI) (auto simp: bit_simps)

lemma narrow_u8: "(ucast (ucast (i :: u8) :: u64) :: u8) = i"
  by (rule bit_word_eqI) (auto simp: bit_simps)

lemmas decode_simps = sys_int80_def syscallDispatcher_def Let_def to_int_scast narrow_scast narrow_u32 narrow_u8

lemma library_calls_1:
  shows "syscallDispatcher (startBeep nFrequence r) = Sys_device (Dev_play_sound nFrequence)"
    and "syscallDispatcher (stopBeep r) = Sys_device Dev_speaker_off"
    and "syscallDispatcher (setTextColor color r) = Sys_device (Dev_text_color color)"
    and "syscallDispatcher (setBackgroundColor color r) = Sys_device (Dev_background_color color)"
    and "syscallDispatcher (increaseFontSize r) = Sys_device Dev_increase_font"
    and "syscallDispatcher (decreaseFontSize r) = Sys_device Dev_decrease_font"
    and "syscallDispatcher (setFontSize sz r) = Sys_device (Dev_set_font sz)"
    and "map syscallDispatcher (getDate hour minute second r) =
      [Sys_device (Dev_hour (unat hour)), Sys_device (Dev_minute (unat minute)), Sys_device (Dev_second (unat second))]"
  by (simp_all add: decode_simps startBeep_def stopBeep_def setTextColor_def setBackgroundColor_def increaseFontSize_def decreaseFontSize_def setFontSize_def getDate_def)

lemma library_calls_2:
  shows "syscallDispatcher (clearScreen r) = Sys_device Dev_clear"
    and "syscallDispatcher (clearScreenCharacter r) = Sys_device Dev_clear_previous"
    and "syscallDispatcher (drawCircle color topleftX topLefyY diameter r) = Sys_device (Dev_circle color topleftX topLefyY diameter)"
    and "syscallDispatcher (drawRectangle color width_pixels height_pixels initial_pos_x initial_pos_y r) = Sys_device (Dev_rectangle color width_pixels height_pixels initial_pos_x initial_pos_y)"
    and "syscallDispatcher (fillVideoMemory hexColor r) = Sys_device (Dev_fill hexColor)"
    and "syscallDispatcher (exec fnPtr r) = Sys_exec (unat fnPtr)"
    and "syscallDispatcher (registerKey scancode fn r) = Sys_register_key scancode (unat fn)"
    and "syscallDispatcher (getWindowWidth r) = Sys_device Dev_width"
  by (simp_all add: decode_simps clearScreen_def clearScreenCharacter_def drawCircle_def drawRectangle_def fillVideoMemory_def exec_def registerKey_def getWindowWidth_def)

lemma library_calls_3:
  shows "syscallDispatcher (getWindowHeight r) = Sys_device Dev_height"
    and "syscallDispatcher (sleep miliseconds r) = Sys_sleep_milis miliseconds"
    and "syscallDispatcher (getRegisterSnapshot registers r) = Sys_get_register_snapshot (unat registers)"
    and "syscallDispatcher (processCreate entry_point argc argv priority foreground r) = Sys_process_create (unat entry_point) (sint argc) (unat argv) priority foreground"
    and "syscallDispatcher (processExit status r) = Sys_process_exit status"
    and "syscallDispatcher (processGetPid r) = Sys_process_get_pid"
    and "syscallDispatcher (processList r) = Sys_process_list"
    and "syscallDispatcher (processKill pid r) = Sys_process_kill (ucast pid)"
  by (simp_all add: decode_simps getWindowHeight_def sleep_def getRegisterSnapshot_def processCreate_def processExit_def processGetPid_def processList_def processKill_def)

lemma library_calls_4:
  shows "syscallDispatcher (processSetPriority pid priority r) = Sys_process_set_priority (ucast pid) priority"
    and "syscallDispatcher (processBlock pid r) = Sys_process_block (ucast pid)"
    and "syscallDispatcher (processUnblock pid r) = Sys_process_unblock (ucast pid)"
    and "syscallDispatcher (processYield r) = Sys_process_yield"
    and "syscallDispatcher (processWaitPid pid r) = Sys_process_wait_pid (ucast pid)"
    and "syscallDispatcher (processWaitChildren r) = Sys_process_wait_children"
    and "syscallDispatcher (processGiveForeground pid r) = Sys_process_give_foreground pid"
    and "syscallDispatcher (processGetForeground r) = Sys_process_get_foreground"
  by (simp_all add: decode_simps processSetPriority_def processBlock_def processUnblock_def processYield_def processWaitPid_def processWaitChildren_def processGiveForeground_def processGetForeground_def)

lemma library_calls_5:
  shows "syscallDispatcher (openPipe r) = Sys_open_pipe"
    and "syscallDispatcher (setFdTargets read_target write_target error_target r) = Sys_set_fd_targets read_target write_target error_target"
    and "syscallDispatcher (semOpen name initial_count create_if_missing r) = Sys_sem_open (unat name) initial_count create_if_missing"
    and "syscallDispatcher (semClose sem r) = Sys_sem_close (unat sem)"
    and "syscallDispatcher (semWait sem r) = Sys_sem_wait (unat sem)"
    and "syscallDispatcher (semPost sem r) = Sys_sem_post (unat sem)"
    and "syscallDispatcher (printMemStatus r) = Sys_device Dev_mem_status"
    and "syscallDispatcher (clearPipe pipe_id r) = Sys_clear_pipe (ucast pipe_id)"
  by (simp_all add: decode_simps openPipe_def setFdTargets_def semOpen_def semClose_def semWait_def semPost_def printMemStatus_def clearPipe_def)

end
