(* ===== verification/UScan.thy ===== *)
theory UScan
  imports UStdio "HOL-Library.Stream"
begin

text \<open>
  The standard input of user programs (\<open>getchar\<close>, \<open>putchar\<close>, \<open>vscanf\<close> and \<open>scanf\<close> of
  \<open>Userland/libc/stdio.c\<close>). The input is the infinite stream of the answers that the calls
  \<open>sys_read(FD_STDIN, c, 1)\<close> will give: the number of bytes read, and the byte stored. A
  function gives back the answers it has not used; \<open>None\<close> is a loop that never ends, or an
  overflow of a signed integer.
\<close>

type_synonym input = "(int \<times> u8) stream"

section \<open>Characters\<close>

text \<open>The call is made again as long as it fails; the character is signed.\<close>

partial_function (option) getchar :: "input \<Rightarrow> (int \<times> input) option" where
  "getchar s =
     (let (read_bytes, c) = shd s
      in if read_bytes = -1 then getchar (stl s)
         else if read_bytes = 0 then Some (-1, stl s)
         else Some (sint c, stl s))"

definition putchar :: "u8 \<Rightarrow> out_call list" where
  "putchar c = [Out_write 1 [c]]"

section \<open>Conversions\<close>

definition INT64_MAX :: int where "INT64_MAX = 2 ^ 63 - 1"

text \<open>The rest of a line that does not begin like a number.\<close>

partial_function (option) skip_line :: "input \<Rightarrow> input option" where
  "skip_line s = do { (c, s) \<leftarrow> getchar s; if c \<noteq> 10 then skip_line s else Some s }"

text \<open>The loop of \<open>%d\<close>, entered with its first character, and a sign where the number is 0 so far.\<close>

partial_function (option) stdin_digits :: "int \<Rightarrow> int \<Rightarrow> bool \<Rightarrow> input \<Rightarrow> (int \<times> bool \<times> input) option" where
  "stdin_digits c num negative s =
     (if c \<noteq> 45 \<and> INT64_MAX < num * 10 + c then None
      else do {
        (num, negative) \<leftarrow> Some (if c = 45 then (num, True) else (num * 10 + c - 48, negative));
        (c, s) \<leftarrow> getchar s;
        if (48 \<le> c \<and> c \<le> 57) \<or> (num = 0 \<and> c = 45) then stdin_digits c num negative s
        else Some (num, negative, s)
      })"

partial_function (option) stdin_word :: "input \<Rightarrow> (u8 list \<times> input) option" where
  "stdin_word s = do {
     (c, s) \<leftarrow> getchar s;
     if c \<noteq> 32 \<and> c \<noteq> 10 then do { (rest, s) \<leftarrow> stdin_word s; Some (of_int c # rest, s) }
     else Some ([], s)
   }"

text \<open>A number is stored as an \<open>int\<close>, its low 32 bits.\<close>

definition stdin_number :: "input \<Rightarrow> (scanned list \<times> nat \<times> input) option" where
  "stdin_number s = do {
     (c, s) \<leftarrow> getchar s;
     if c \<noteq> 45 \<and> (c < 48 \<or> 57 < c) then do { s \<leftarrow> skip_line s; Some ([], 0, s) }
     else do {
       (num, negative, s) \<leftarrow> stdin_digits c 0 False s;
       Some ([Scan_int (sint (of_int (num * (if negative then -1 else 1)) :: 32 word))], 1, s)
     }
   }"

fun vscanf :: "cstring \<Rightarrow> input \<Rightarrow> (scanned list \<times> nat \<times> input) option" where
  "vscanf [] s = None"
| "vscanf (f # fmt) s =
     (if f = 0 then Some ([], 0, s)
      else if f = 37 then
        (case fmt of
           [] \<Rightarrow> None
         | d # fmt' \<Rightarrow>
             if d = 100 then do {
               (vs, n, s) \<leftarrow> stdin_number s;
               (ws, m, s) \<leftarrow> vscanf fmt' s;
               Some (vs @ ws, n + m, s)
             }
             else if d = 99 then do {
               (c, s) \<leftarrow> getchar s;
               (ws, m, s) \<leftarrow> vscanf fmt' s;
               Some (Scan_char (of_int c) # ws, 1 + m, s)
             }
             else if d = 115 then do {
               (w, s) \<leftarrow> stdin_word s;
               (ws, m, s) \<leftarrow> vscanf fmt' s;
               Some (Scan_str (map Some w @ [Some 0]) # ws, 1 + m, s)
             }
             else vscanf fmt' s)
      else vscanf fmt s)"

definition scanf :: "cstring \<Rightarrow> input \<Rightarrow> (scanned list \<times> nat \<times> input) option" where
  "scanf fmt s = vscanf fmt s"

section \<open>What is read\<close>

text \<open>The answers to the calls that read the bytes of a list one by one.\<close>

definition typed :: "u8 list \<Rightarrow> (int \<times> u8) list" where
  "typed w = map (Pair 1) w"

lemma typed_simps [simp]: "typed [] = []" "typed (c # w) = (1, c) # typed w" "typed (w @ v) = typed w @ typed v"
  by (simp_all add: typed_def)

lemma getchar_typed [simp]: "getchar ((1, c) ## s) = Some (sint c, s)"
  by (subst getchar.simps) simp

lemma getchar_end [simp]: "getchar ((0, c) ## s) = Some (-1, s)"
  by (subst getchar.simps) simp

lemma getchar_retries [simp]: "getchar (replicate n (-1, c) @- s) = getchar s"
proof (induction n)
  case (Suc n)
  then show ?case by (subst getchar.simps) simp
qed simp

text \<open>When every call fails, \<open>getchar\<close> never returns.\<close>

lemma getchar_refused:
  assumes "shd s = (-1, c)" and "stl s = s"
  shows "getchar s = None"
proof (rule ccontr)
  assume "getchar s \<noteq> None"
  then obtain y where "getchar s = Some y" by blast
  then have "\<not> (shd s = (-1, c) \<and> stl s = s)"
    by (rule getchar.raw_induct [rotated, of s y]) (auto split: if_splits)
  then show False using assms by blast
qed

lemma sint_small:
  assumes "unat (c :: u8) < 128"
  shows "sint c = uint c"
proof -
  have "int (unat c) < 128" using assms by linarith
  then have "uint c < 128" by (simp only: uint_nat)
  then show ?thesis unfolding sint_uint by (intro signed_take_bit_int_eq_self) (simp_all add: order.trans [OF _ unsigned_greater_eq])
qed

lemma digit_sint:
  fixes c :: u8
  assumes "48 \<le> c" "c \<le> 57"
  shows "sint c = int (digit_of c) + 48" and "digit_of c < 10"
proof -
  have c: "48 \<le> unat c" "unat c \<le> 57" using assms by (simp_all add: word_le_nat_alt)
  have "sint c = int (unat c)" using sint_small [of c] c(2) by (simp only: uint_nat)
  then show "sint c = int (digit_of c) + 48" using c by (simp only: digit_of_def if_True)
  show "digit_of c < 10" using c by (simp only: digit_of_def if_True)
qed

lemma stdin_digits_spec:
  assumes "\<forall>c\<in>set w. 48 \<le> c \<and> c \<le> 57" and "48 \<le> c" and "c \<le> 57"
    and "int (foldl (\<lambda>acc c. acc * 10 + digit_of c) n (c # w)) + 48 \<le> INT64_MAX"
    and "\<not> (48 \<le> sint e \<and> sint e \<le> 57)" and "sint e \<noteq> 45"
  shows "stdin_digits (sint c) (int n) neg (typed w @- (1, e) ## s) =
    Some (int (foldl (\<lambda>acc c. acc * 10 + digit_of c) n (c # w)), neg, s)"
  using assms(1-4)
proof (induction w arbitrary: c n)
  case Nil
  note d = digit_sint [OF Nil(2,3)]
  have "\<not> INT64_MAX < int n * 10 + sint c" using Nil(4) d by simp
  then show ?case using d assms(5,6) by (subst stdin_digits.simps) (auto simp: sint_small)
next
  case (Cons c' w)
  note d = digit_sint [OF Cons.prems(2,3)]
  have c': "48 \<le> c'" "c' \<le> 57" using Cons.prems(1) by auto
  note d' = digit_sint [OF c']
  have "n * 10 + digit_of c \<le> foldl (\<lambda>acc c. acc * 10 + digit_of c) n (c # c' # w)"
    using foldl_digits_ge [of "n * 10 + digit_of c" "c' # w"] by simp
  then have "\<not> INT64_MAX < int n * 10 + sint c" using Cons.prems(4) d by simp
  moreover have "stdin_digits (sint c') (int (n * 10 + digit_of c)) neg (typed w @- (1, e) ## s) =
      Some (int (foldl (\<lambda>acc c. acc * 10 + digit_of c) (n * 10 + digit_of c) (c' # w)), neg, s)"
    by (rule Cons.IH) (use Cons.prems c' in auto)
  ultimately show ?case using d d' by (subst stdin_digits.simps) auto
qed

lemma stdin_digits_minus:
  "48 \<le> sint c \<and> sint c \<le> 57 \<Longrightarrow> stdin_digits 45 0 neg ((1, c) ## s) = stdin_digits (sint c) 0 True s"
  by (subst stdin_digits.simps) simp

text \<open>
  A number that \<open>printf\<close> writes and a line end are read back by \<open>scanf("%d")\<close>, and the next call
  finds what was typed after the line. The line end is taken, like any character after a number.
\<close>

lemma scanf_number:
  assumes "\<forall>c\<in>set w. 48 \<le> c \<and> c \<le> 57" and "w \<noteq> []" and "int (parse_digits 10 w) \<le> INT_MAX"
  shows "scanf [37, 100, 0] (typed (w @ [10]) @- s) = Some ([Scan_int (int (parse_digits 10 w))], 1, s)"
    and "scanf [37, 100, 0] (typed (45 # w @ [10]) @- s) = Some ([Scan_int (- int (parse_digits 10 w))], 1, s)"
proof -
  obtain c v where w: "w = c # v" using assms(2) by (cases w) auto
  have c: "48 \<le> c" "c \<le> 57" using assms(1) w by auto
  have cs: "48 \<le> sint c \<and> sint c \<le> 57" using digit_sint [OF c] by simp
  have v: "\<forall>c\<in>set v. 48 \<le> c \<and> c \<le> 57" using assms(1) w by simp
  let ?n = "parse_digits 10 w"
  have n: "int (foldl (\<lambda>acc c. acc * 10 + digit_of c) 0 (c # v)) = int ?n" by (simp add: parse_digits_def w)
  have d: "stdin_digits (sint c) 0 neg (typed v @- (1, 10) ## s) = Some (int ?n, neg, s)" for neg
    using stdin_digits_spec [OF v c, of 0 10 neg s] assms(3) n by (simp add: INT64_MAX_def INT_MAX_def sint_small)
  have small: "sint (of_int i :: 32 word) = i" if "- INT_MAX \<le> i" "i \<le> INT_MAX" for i
    using that by (simp add: signed_of_int signed_take_bit_int_eq_self INT_MAX_def)
  show "scanf [37, 100, 0] (typed (w @ [10]) @- s) = Some ([Scan_int (int ?n)], 1, s)"
    using d cs small [of "int ?n"] assms(3) by (auto simp: scanf_def stdin_number_def w INT_MAX_def)
  have "sint (45 :: u8) = 45" by (simp add: sint_small)
  then show "scanf [37, 100, 0] (typed (45 # w @ [10]) @- s) = Some ([Scan_int (- int ?n)], 1, s)"
    using d [of True] stdin_digits_minus [OF cs, of False] small [of "- int ?n"] assms(3)
    by (auto simp: scanf_def stdin_number_def w INT_MAX_def)
qed

theorem scanf_reads_printed:
  assumes "length buffer = 64" and "0 \<le> n" and "n \<le> INT_MAX"
  shows "\<exists>out buffer'. printf [37, 100, 0] [Arg_int n] buffer = Some (out, buffer') \<and>
    scanf [37, 100, 0] (typed (written out @ [10]) @- s) = Some ([Scan_int n], 1, s)"
proof -
  let ?w = "number_text 10 (unat (of_int n :: u64))"
  obtain buffer' where p: "printBase 1 n 10 buffer = Some
      ((if n < 0 then [Out_write 1 [45]] else []) @ map (\<lambda>c. Out_write 1 [c]) ?w, buffer')"
    by (rule printBase_decimal [OF assms(1)])
  have "parse_digits 10 ?w = unat (of_int n :: u64)"
    by (rule number_text_value) (use unsigned_less [of "of_int n :: u64"] in simp)
  moreover have "int (unat (of_int n :: u64)) = n mod 2 ^ 64" by (simp add: uint_word_of_int flip: uint_nat)
  ultimately have n: "int (parse_digits 10 ?w) = n" using assms(2,3) by (simp add: INT_MAX_def)
  have ds: "\<forall>c\<in>set ?w. 48 \<le> c \<and> c \<le> 57" using number_text_digits by blast
  have "?w \<noteq> []" using digits_pos [of 64 "unat (of_int n :: u64)" 10] by (auto simp: number_text_def)
  then show ?thesis using printf_d [OF p] scanf_number(1) [OF ds] n assms(2,3) by auto
qed

text \<open>
  On an input that has ended \<open>scanf("%d")\<close> never returns: \<open>getchar\<close> gives -1 for ever, and the
  loop that looks for the end of the line does not stop at it.
\<close>

lemma skip_line_ended:
  assumes "getchar s = Some (c, s)" and "c \<noteq> 10"
  shows "skip_line s = None"
proof (rule ccontr)
  assume "skip_line s \<noteq> None"
  then obtain y where "skip_line s = Some y" by blast
  then have "\<not> (getchar s = Some (c, s) \<and> c \<noteq> 10)"
    by (rule skip_line.raw_induct [rotated, of s y]) (auto split: if_splits)
  then show False using assms by blast
qed

theorem scanf_ended_input:
  assumes "shd s = (0, c)" and "stl s = s"
  shows "scanf [37, 100, 0] s = None"
proof -
  have step: "getchar s = Some (-1, s)" using assms by (subst getchar.simps) simp
  show ?thesis using skip_line_ended [OF step] by (simp add: scanf_def stdin_number_def step)
qed

theorem scanf_ended_input_witness: "scanf [37, 100, 0] (sconst (0, 7)) = None"
  by (rule scanf_ended_input [of _ 7]) simp_all

end
