(* ===== verification/Exceptions.thy ===== *)
theory Exceptions
  imports Fonts_Props Boot Fd_Props
begin

text \<open>
  The screen of an exception (\<open>idt/exceptionDispatcher.c\<close>): the messages, the registers, the
  wait for a key, and the end of the process that raised it. The calls of the font driver are
  a list of operations; a buffer on the stack begins as zeros, all of it that is read has been
  written before. The wait is a step function on a frame, like \<open>read_pipe\<close> and \<open>process_exit\<close>
  that it calls: \<open>True\<close> means that the caller gives up the processor there.
\<close>

section \<open>Messages\<close>

definition exception_register_names :: "u8 list list" where
  "exception_register_names = map ascii
     [''rax'', ''rbx'', ''rcx'', ''rdx'', ''rbp'', ''rdi'', ''rsi'', ''r8 '', ''r9 '', ''r10'', ''r11'', ''r12'', ''r13'',
      ''r14'', ''r15'', ''rsp'', ''rip'', ''rflags'']"

definition ZERO_EXCEPTION_ID :: int where "ZERO_EXCEPTION_ID = 0"
definition INVALID_OPCODE_ID :: int where "INVALID_OPCODE_ID = 6"

definition print_err :: "u8 list \<Rightarrow> text_op" where
  "print_err string = Op_print (uint STDERR) string"

text \<open>The text of a number in the local buffer of 32 bytes, up to its terminator.\<close>

definition number_message :: "u64 \<Rightarrow> u32 \<Rightarrow> text_op option" where
  "number_message value base = do {
     (length, buffer) \<leftarrow> uint_to_base value (Some (replicate 32 0)) base;
     buffer \<leftarrow> buffer;
     buffer \<leftarrow> put buffer length 0;
     Some (print_err (cstr buffer))
   }"

definition print_err_dec :: "u64 \<Rightarrow> text_op option" where "print_err_dec value = number_message value 10"
definition print_err_hex :: "u64 \<Rightarrow> text_op option" where "print_err_hex value = number_message value 16"

fun register_messages :: "u8 list list \<Rightarrow> u64 list \<Rightarrow> text_op list option" where
  "register_messages [] rs = Some []"
| "register_messages (name # names) [] = None"
| "register_messages (name # names) (r # rs) = do {
     h \<leftarrow> print_err_hex r;
     rest \<leftarrow> register_messages names rs;
     Some ([print_err name, print_err (ascii '': ''), h, print_err [10]] @ rest)
   }"

definition exception_data_messages :: "u64 list \<Rightarrow> int \<Rightarrow> text_op list option" where
  "exception_data_messages registers errorCode = do {
     d \<leftarrow> print_err_dec (of_int errorCode);
     rs \<leftarrow> register_messages exception_register_names registers;
     Some ([print_err (ascii ''Exception (# ''), d, print_err (ascii '') triggered'' @ [10]),
            print_err (ascii ''Current registers values are'' @ [10])] @ rs @
           [Op_text_color 0x00FFFFFF, print_err (ascii ''Press r to go back to Shell'')])
   }"

definition zero_division_messages :: "text_op list" where
  "zero_division_messages =
     [Op_text_color 0x00FF0000, Op_set_font 3, print_err (ascii ''Division exception'' @ [10]), Op_set_font 2,
      print_err (ascii ''Arqui Screen of Death'' @ [10])]"

definition invalid_opcode_messages :: "text_op list" where
  "invalid_opcode_messages =
     [Op_text_color 0x00FF6600, Op_set_font 3, print_err (ascii ''Invalid Opcode Exception'' @ [10]), Op_set_font 2,
      print_err (ascii ''Arqui screen of death'' @ [10])]"

section \<open>Waiting and leaving\<close>

datatype exception_pc =
    X_Read u8 "read_frame option"
  | X_Leave
  | X_Exit exit_frame
  | X_Force
  | X_Yield

record exception_frame =
  xf_current :: addr
  xf_stdin :: u8
  xf_pc :: exception_pc

text \<open>What \<open>read_pipe\<close> has returned, with the byte \<open>a\<close> of the caller, or \<open>None\<close> while it waits.\<close>

definition pipe_result :: "int + read_frame \<Rightarrow> u8 \<Rightarrow> (int \<times> u8) option" where
  "pipe_result r a =
     (case r of
        Inl i \<Rightarrow> Some (i, a)
      | Inr rf \<Rightarrow> (case rf_pc rf of R_Ret i \<Rightarrow> Some (i, hd (rf_buffer rf)) | _ \<Rightarrow> None))"

definition exception_read :: "u8 \<Rightarrow> u8 \<Rightarrow> read_frame option \<Rightarrow> kernel \<Rightarrow> ((int + read_frame) \<times> kernel) option" where
  "exception_read stdin a c k =
     (case c of
        None \<Rightarrow> read_pipe stdin (Some [a]) 1 k
      | Some rf \<Rightarrow> do { (rf, k) \<leftarrow> run read_step read_returned rf k; Some (Inr rf, k) })"

definition exception_step ::
    "exception_frame \<Rightarrow> kernel \<times> screen \<Rightarrow> (exception_frame \<times> bool \<times> kernel \<times> screen) option" where
  "exception_step f ks =
     (case ks of (k, s) \<Rightarrow>
      case xf_pc f of
        X_Read a c \<Rightarrow> do {
          (r, k) \<leftarrow> exception_read (xf_stdin f) a c k;
          case pipe_result r a of
            None \<Rightarrow> Some (f\<lparr>xf_pc := X_Read a (case r of Inl _ \<Rightarrow> None | Inr rf \<Rightarrow> Some rf)\<rparr>, True, k, s)
          | Some (i, a) \<Rightarrow>
              if i \<noteq> 1 then do {
                s \<leftarrow> text_step (print_err (10 # ascii ''Error reading from keyboard input'' @ [10])) s;
                Some (f\<lparr>xf_pc := X_Leave\<rparr>, False, k, s)
              }
              else if a \<noteq> 114 then Some (f\<lparr>xf_pc := X_Read a None\<rparr>, False, k, s)
              else Some (f\<lparr>xf_pc := X_Leave\<rparr>, False, k, s)
        }
      | X_Leave \<Rightarrow> do {
          s \<leftarrow> clear_screen s;
          k \<leftarrow> Some (k\<lparr>pic_master_mask := KEYBOARD_PIC_MASTER AND TIMER_PIC_MASTER\<rparr>);
          if xf_current f \<noteq> NULL then do {
            (e, k) \<leftarrow> process_exit (xf_current f) k;
            Some (f\<lparr>xf_pc := X_Exit e\<rparr>, \<not> exit_returned e, k, s)
          }
          else Some (f\<lparr>xf_pc := X_Force\<rparr>, False, k, s)
        }
      | X_Exit e \<Rightarrow>
          if exit_returned e then Some (f\<lparr>xf_pc := X_Force\<rparr>, False, k, s)
          else do {
            (e, k) \<leftarrow> run exit_step exit_returned e k;
            Some (f\<lparr>xf_pc := X_Exit e\<rparr>, \<not> exit_returned e, k, s)
          }
      | X_Force \<Rightarrow> Some (f\<lparr>xf_pc := X_Yield\<rparr>, True, k, s)
      | X_Yield \<Rightarrow> do { (yields, k) \<leftarrow> process_yield k; Some (f, yields, k, s) })"

text \<open>\<open>printExceptionData\<close> up to the wait; the mask of the second controller is never lifted.\<close>

definition printExceptionData :: "u64 list \<Rightarrow> int \<Rightarrow> kernel \<Rightarrow> screen \<Rightarrow> (exception_frame \<times> kernel \<times> screen) option" where
  "printExceptionData registers errorCode k s = do {
     ops \<leftarrow> exception_data_messages registers errorCode;
     s \<leftarrow> text_run ops s;
     k \<leftarrow> Some (k\<lparr>pic_master_mask := KEYBOARD_PIC_MASTER\<rparr>);
     let current = process_lookup (of_int (get_pid k)) k
     in if current = NULL then Some (\<lparr>xf_current = NULL, xf_stdin = 0, xf_pc = X_Leave\<rparr>, k, s)
        else do {
          pr \<leftarrow> procs k current;
          Some (\<lparr>xf_current = current, xf_stdin = pr_fd_targets pr ! 0, xf_pc = X_Read 0 None\<rparr>, k, s)
        }
   }"

text \<open>Other exceptions only clear the screen.\<close>

definition exceptionDispatcher ::
    "int \<Rightarrow> u64 list \<Rightarrow> kernel \<Rightarrow> screen \<Rightarrow> (exception_frame option \<times> kernel \<times> screen) option" where
  "exceptionDispatcher exception registers k s = do {
     s \<leftarrow> clear_screen s;
     if exception = ZERO_EXCEPTION_ID \<or> exception = INVALID_OPCODE_ID then do {
       s \<leftarrow> text_run (if exception = ZERO_EXCEPTION_ID then zero_division_messages else invalid_opcode_messages) s;
       (f, k, s) \<leftarrow> printExceptionData registers exception k s;
       Some (Some f, k, s)
     }
     else Some (None, k, s)
   }"

section \<open>The messages fit on the screen\<close>

lemma ascii_below: "\<forall>c\<in>set w. of_char c < (128 :: nat) \<Longrightarrow> list_all (\<lambda>c. c < 128) (ascii w)"
  by (auto simp: ascii_def list_all_iff word_less_nat_alt unat_of_nat)

lemma symbols_below: "d < 16 \<Longrightarrow> symbols ! d < 128"
proof -
  assume "d < 16"
  then have "d \<in> set [0..<16]" by simp
  also have "[0..<16] = [0, 1, 2, 3, 4, 5, 6, 7, 8, 9, 10, 11, 12, 13, 14, 15]" by (simp add: upt_rec)
  finally show ?thesis by (auto simp: symbols_def word_less_nat_alt)
qed

lemma number_message_below:
  assumes "10 \<le> base" and "base \<le> 16"
  obtains bs where "number_message v base = Some (print_err bs)" "list_all (\<lambda>c. c < 128) bs"
proof (cases "v = 0")
  case True
  have "number_message v base = Some (print_err [48])"
  proof -
    have r: "replicate 32 (0 :: u8) = 0 # 0 # replicate 30 0" by (simp add: numeral_eq_Suc)
    have "\<not> base < 2" "\<not> 16 < base" using assms by (simp_all add: word_le_nat_alt word_less_nat_alt)
    then show ?thesis by (simp add: True number_message_def uint_to_base_def put_def r)
  qed
  then show ?thesis using that by (simp add: word_less_nat_alt)
next
  case False
  let ?ds = "digits (unat base) 64 (unat v)" and ?n = "length (digits (unat base) 64 (unat v))"
  have b: "10 \<le> unat base" "unat base \<le> 16" using assms by (simp_all add: word_le_nat_alt)
  have lt: "unat v < 2 ^ 64" using unsigned_less [of v] by simp
  then have "unat v < 10 ^ 20" by simp
  also have "\<dots> \<le> unat base ^ 20" using b(1) by (rule power_mono) simp
  finally have n: "?n \<le> 20" by (rule digits_length_pow)
  have b2: "2 \<le> base" using assms(1) by (simp add: word_le_nat_alt)
  let ?buf = "map (\<lambda>d. symbols ! d) ?ds @ drop ?n (replicate 32 0)"
  let ?sy = "rev (map (\<lambda>d. symbols ! d) ?ds)"
  have "uint_digits v (replicate 32 0) base 0 = Some (?buf, ?n)"
    using uint_digits_spec [OF lt b2, of 0 "replicate 32 0"] n by simp
  moreover have "reverse_digits ?buf 0 ?n = Some (?sy @ drop ?n (replicate 32 0))"
    by (subst reverse_digits_rev) simp_all
  ultimately have u: "uint_to_base v (Some (replicate 32 0)) base = Some (?n, Some (?sy @ drop ?n (replicate 32 0)))"
    using False b2 assms(2) by (auto simp: uint_to_base_def not_less not_le)
  have p: "put (?sy @ drop ?n (replicate 32 0)) ?n 0 = Some (?sy @ (drop ?n (replicate 32 0))[0 := 0])"
    using n by (simp add: put_def list_update_append)
  have "number_message v base = Some (print_err (cstr (?sy @ (drop ?n (replicate 32 0))[0 := 0])))"
    by (simp only: number_message_def u p Option.bind.bind_lunit prod.case)
  moreover have "list_all (\<lambda>c. c < 128) (cstr (?sy @ (drop ?n (replicate 32 0))[0 := 0]))"
  proof -
    have "\<forall>d\<in>set ?ds. d < 16" using digits_less [of "unat base"] b by fastforce
    then have "\<forall>c\<in>set ?sy. c < 128" using symbols_below by auto
    moreover have "(drop ?n (replicate 32 0))[0 := 0] = replicate (32 - ?n) (0 :: u8)"
      using n by (cases "32 - ?n") simp_all
    ultimately show ?thesis by (auto simp: list_all_iff cstr_def dest!: set_takeWhileD)
  qed
  ultimately show ?thesis using that by blast
qed

text \<open>Messages and colours can be printed anywhere, and leave the size of the font as it is.\<close>

fun plain :: "text_op \<Rightarrow> bool" where
  "plain (Op_print fd bs) = list_all (\<lambda>c. c < 128) bs"
| "plain (Op_text_color c) = True"
| "plain _ = False"

lemma plain_print_err [simp]: "plain (print_err bs) = list_all (\<lambda>c. c < 128) bs"
  by (simp add: print_err_def)

lemma plain_step:
  assumes "screen_ok s" and "plain op"
  obtains s' where "text_step op s = Some s'" "screen_ok s'" "mode s' = mode s" "fontSize s' = fontSize s"
proof -
  have f: "fits op s" using assms(2) by (cases op) (simp_all add: fits_def)
  obtain s' where s': "text_step op s = Some s'" "screen_ok s'" using text_step_ok [OF assms(1) f] by blast
  have "fontSize s' = fontSize s"
    using s'(1) assms(2)
    by (cases op) (auto simp: text_step_def printToFd_def setTextColor_def Let_def dest!: mode_put_chars split: if_splits)
  then show ?thesis using that s' mode_text_step [OF s'(1)] by blast
qed

lemma plain_run:
  assumes "screen_ok s" and "list_all plain ops"
  shows "\<exists>s'. text_run ops s = Some s' \<and> screen_ok s' \<and> mode s' = mode s"
  using assms
proof (induction ops arbitrary: s)
  case (Cons op ops)
  obtain t where t: "text_step op s = Some t" "screen_ok t" "mode t = mode s" by (rule plain_step [OF Cons.prems(1)]) (use Cons.prems in auto)
  then show ?case using Cons.IH [OF t(2)] Cons.prems(2) by auto
qed simp

lemma text_run_append: "text_run (ops @ ops') s = do { s \<leftarrow> text_run ops s; text_run ops' s }"
  by (induction ops arbitrary: s) (auto split: bind_splits)

text \<open>A line end leaves the position at the left.\<close>

lemma put_chars_append:
  "put_chars (bs @ cs) (length bs + n) s = do { s \<leftarrow> put_chars bs (length bs) s; put_chars cs n s }"
  by (induction bs arbitrary: s) (auto split: bind_splits)

lemma newLine_left: "newLine s = Some s' \<Longrightarrow> xBufferPosition s' = 0"
  by (auto simp: newLine_def scrollBufferPositionIfNeeded_def split: if_splits)

lemma put_line_left:
  assumes "put_chars (bs @ [10]) (Suc (length bs)) s = Some s'"
  shows "xBufferPosition s' = 0"
  using assms put_chars_append [of bs "[10]" 1] by (auto simp: putChar_def dest!: newLine_left)

lemma print_line_left:
  assumes "text_step (print_err (bs @ [10])) s = Some s'"
  shows "xBufferPosition s' = 0"
proof -
  have n: "nat (1 + int (length bs)) = Suc (length bs)" by linarith
  show ?thesis using assms put_line_left
    by (auto simp: text_step_def print_err_def printToFd_def Let_def n FD_STDERR_def STDERR_def split: if_splits)
qed

lemma register_messages_plain:
  assumes "length names \<le> length rs" and "\<forall>n\<in>set names. list_all (\<lambda>c. c < 128) n"
  shows "\<exists>ops. register_messages names rs = Some ops \<and> list_all plain ops"
  using assms
proof (induction names rs rule: register_messages.induct)
  case (3 name names r rs)
  obtain bs where "print_err_hex r = Some (print_err bs)" "list_all (\<lambda>c. c < 128) bs"
    unfolding print_err_hex_def by (rule number_message_below [of 16 r]) simp_all
  then show ?case using 3 by (auto simp: ascii_def word_less_nat_alt)
qed auto

lemma exception_data_plain:
  assumes "18 \<le> length rs"
  shows "\<exists>ops. exception_data_messages rs e = Some ops \<and> list_all plain ops"
proof -
  obtain bs where d: "print_err_dec (of_int e) = Some (print_err bs)" "list_all (\<lambda>c. c < 128) bs"
    unfolding print_err_dec_def by (rule number_message_below [of 10 "of_int e"]) simp_all
  have "\<forall>n\<in>set exception_register_names. list_all (\<lambda>c. c < 128) n"
    by (auto simp: exception_register_names_def ascii_def word_less_nat_alt)
  moreover have "length exception_register_names \<le> length rs" using assms by (simp add: exception_register_names_def)
  ultimately obtain ops where "register_messages exception_register_names rs = Some ops" "list_all plain ops"
    using register_messages_plain by blast
  then show ?thesis using d by (auto simp: exception_data_messages_def ascii_def word_less_nat_alt)
qed

text \<open>A title in size 3 on a cleared screen, and then size 2: there is room for both.\<close>

lemma title_run:
  assumes ok: "screen_ok s" and pos: "xBufferPosition s = 0" "yBufferPosition s = 0"
    and plain: "list_all (\<lambda>c. c < 128) title" "list_all (\<lambda>c. c < 128) rest"
  shows "\<exists>s'. text_run [Op_text_color c, Op_set_font 3, print_err (title @ [10]), Op_set_font 2, print_err rest] s = Some s' \<and> screen_ok s'"
proof -
  have c3: "clamp_size 3 = 3" and c2: "clamp_size 2 = 2" by (simp_all add: clamp_size_def)
  let ?s1 = "setTextColor c s"
  have s1: "screen_ok ?s1" "text_step (Op_text_color c) s = Some ?s1" using ok by (simp_all add: text_step_def setTextColor_def)
  have h: "160 \<le> uint (height (mode s))" using ok by (simp add: screen_ok_def)
  have "fits (Op_set_font 3) ?s1" using pos h c3 by (simp add: fits_def setTextColor_def)
  with s1(1) obtain s2 where s2: "text_step (Op_set_font 3) ?s1 = Some s2" "screen_ok s2" using text_step_ok by blast
  have f2: "fontSize s2 = 3" using s2(1) c3 by (auto simp: text_step_def setFontSize_eq update_line_height_def)
  have "plain (print_err (title @ [10]))" using plain(1) by (simp add: word_less_nat_alt)
  from plain_step [OF s2(2) this] obtain s3 where
    s3: "text_step (print_err (title @ [10])) s2 = Some s3" "screen_ok s3" "fontSize s3 = fontSize s2" by blast
  have "glyph_h s3 = 24" using s3(2,3) f2 by (simp add: screen_ok_def glyph_h_def)
  then have "fits (Op_set_font 2) s3" using s3(2) print_line_left [OF s3(1)] c2 by (simp add: fits_def screen_ok_def)
  with s3(2) obtain s4 where s4: "text_step (Op_set_font 2) s3 = Some s4" "screen_ok s4" using text_step_ok by blast
  obtain s5 where "text_step (print_err rest) s4 = Some s5" "screen_ok s5"
    by (rule plain_step [OF s4(2), of "print_err rest"]) (use plain(2) in simp_all)
  then show ?thesis using s1 s2 s3 s4 by simp
qed

lemma exception_title_run:
  assumes "screen_ok s" and "xBufferPosition s = 0" and "yBufferPosition s = 0"
  shows "\<exists>s'. text_run (if e then zero_division_messages else invalid_opcode_messages) s = Some s' \<and> screen_ok s'"
proof -
  have p: "list_all (\<lambda>c. c < 128) (ascii ''Division exception'')" "list_all (\<lambda>c. c < 128) (ascii ''Arqui Screen of Death'' @ [10])"
    "list_all (\<lambda>c. c < 128) (ascii ''Invalid Opcode Exception'')" "list_all (\<lambda>c. c < 128) (ascii ''Arqui screen of death'' @ [10])"
    by (simp_all add: ascii_def word_less_nat_alt)
  show ?thesis
    using title_run [OF assms p(1,2), of "0x00FF0000"] title_run [OF assms p(3,4), of "0x00FF6600"]
    unfolding zero_division_messages_def invalid_opcode_messages_def by (cases e) simp_all
qed

text \<open>The handler draws its screen and goes on to wait for a key with the timer masked.\<close>

lemma exception_screen_drawn:
  assumes "screen_ok s" and "18 \<le> length registers" and "exception \<in> {0, 6}"
    and "process_lookup (of_int (get_pid k)) k = P" and "P \<noteq> NULL" and "procs k P = Some pr"
  shows "\<exists>s'. exceptionDispatcher exception registers k s =
      Some (Some \<lparr>xf_current = P, xf_stdin = pr_fd_targets pr ! 0, xf_pc = X_Read 0 None\<rparr>,
            k\<lparr>pic_master_mask := KEYBOARD_PIC_MASTER\<rparr>, s') \<and> screen_ok s'"
proof -
  obtain s1 where s1: "clear_screen s = Some s1" "screen_ok s1" using clear_screen_ok [OF assms(1)] by blast
  have pos: "xBufferPosition s1 = 0" "yBufferPosition s1 = 0" using s1(1) by (auto simp: clear_screen_def)
  obtain s2 where s2: "text_run (if exception = ZERO_EXCEPTION_ID then zero_division_messages else invalid_opcode_messages) s1 = Some s2"
    "screen_ok s2" using exception_title_run [OF s1(2) pos] by blast
  obtain ops where ops: "exception_data_messages registers exception = Some ops" "list_all plain ops"
    using exception_data_plain [OF assms(2)] by blast
  obtain s3 where s3: "text_run ops s2 = Some s3" "screen_ok s3" using plain_run [OF s2(2) ops(2)] by blast
  have l: "process_lookup (of_int (get_pid (k\<lparr>pic_master_mask := x\<rparr>))) (k\<lparr>pic_master_mask := x\<rparr>) = P" for x
    using assms(4) by (simp add: process_lookup_def get_pid_def)
  have "printExceptionData registers exception k s2 =
      Some (\<lparr>xf_current = P, xf_stdin = pr_fd_targets pr ! 0, xf_pc = X_Read 0 None\<rparr>, k\<lparr>pic_master_mask := KEYBOARD_PIC_MASTER\<rparr>, s3)"
    using assms(5,6) l by (simp add: printExceptionData_def ops(1) s3(1))
  then show ?thesis
    using s1(1) s2(1) s3(2) assms(3) by (auto simp: exceptionDispatcher_def ZERO_EXCEPTION_ID_def INVALID_OPCODE_ID_def)
qed

section \<open>The wait\<close>

fun exception_steps :: "nat \<Rightarrow> exception_frame \<Rightarrow> kernel \<times> screen \<Rightarrow> (exception_frame \<times> kernel \<times> screen) option" where
  "exception_steps 0 f ks = Some (f, ks)"
| "exception_steps (Suc n) f ks = do { (f, _, ks) \<leftarrow> exception_step f ks; exception_steps n f ks }"

text \<open>
  Every key that is in the pipe is taken and dropped until an \<open>r\<close>; the keys behind it stay there.
\<close>

lemma exception_waits_for_r:
  assumes "pipe_ready P p k" and "pipe_at (xf_stdin f) k = P" and "P \<noteq> NULL" and "xf_stdin f < 100"
    and "content p = bs @ 114 # cs" and "114 \<notin> set bs" and "xf_pc f = X_Read a None"
  shows "\<exists>k' p'. exception_steps (Suc (length bs)) f (k, s) = Some (f\<lparr>xf_pc := X_Leave\<rparr>, k', s) \<and>
    pipe_ready P p' k' \<and> content p' = cs"
  using assms
proof (induction bs arbitrary: k p f a)
  case Nil
  obtain rf p' k' where r: "read_pipe (xf_stdin f) (Some [a]) 1 k = Some (Inr rf, k')" "rf_pc rf = R_Ret 1" "rf_buffer rf = [114]"
    "pipe_ready P p' k'" "content p' = cs"
    by (rule read_back [OF Nil.prems(1-4), of 114 cs a]) (use Nil.prems(5) in simp_all)
  then show ?case using Nil.prems(7) by (auto simp: exception_step_def exception_read_def pipe_result_def)
next
  case (Cons b bs)
  obtain rf p' k' where r: "read_pipe (xf_stdin f) (Some [a]) 1 k = Some (Inr rf, k')" "rf_pc rf = R_Ret 1" "rf_buffer rf = [b]"
    "pipe_ready P p' k'" "content p' = bs @ 114 # cs" "pipes k' = pipes k"
    by (rule read_back [OF Cons.prems(1-4), of b "bs @ 114 # cs" a]) (use Cons.prems(5) in simp_all)
  have "exception_step f (k, s) = Some (f\<lparr>xf_pc := X_Read b None\<rparr>, False, k', s)"
    using r Cons.prems(6,7) by (auto simp: exception_step_def exception_read_def pipe_result_def)
  moreover have "\<exists>k'' p''. exception_steps (Suc (length bs)) (f\<lparr>xf_pc := X_Read b None\<rparr>) (k', s) = Some (f\<lparr>xf_pc := X_Leave\<rparr>, k'', s) \<and>
      pipe_ready P p'' k'' \<and> content p'' = cs"
    using Cons.IH [OF r(4), of "f\<lparr>xf_pc := X_Read b None\<rparr>" b] Cons.prems r(5,6) by (simp add: pipe_at_def)
  ultimately show ?case by simp
qed

section \<open>Property\<close>



end
