(* ===== verification/Test_Procs.thy ===== *)
theory Test_Procs
  imports Test_MM
begin

unbundle bit_operations_syntax

text \<open>
  The tests of processes (\<open>Userland/tests/test_processes.c\<close>) and of priorities
  (\<open>Userland/tests/test_priority.c\<close>). The system calls a test makes go through a parameter that
  answers a call and changes the world, like those of the commands of the shell; the messages
  are named by what they say. The theorems run the tests on a table of processes with the
  contract of the calls: which processes there are, and which of them are blocked or have ended.
\<close>

section \<open>Calls\<close>

datatype test_msg =
    TM_usage
  | TM_invalid
  | TM_no_memory
  | TM_create
  | TM_kill
  | TM_wait
  | TM_block
  | TM_unblock
  | TM_iteration u64
  | TM_same
  | TM_change
  | TM_change_blocked
  | TM_new_priority int u8
  | TM_done int

datatype test_call =
    T_print test_msg
  | T_malloc u64
  | T_free addr
  | T_create_endless
  | T_create_counter
  | T_kill u64
  | T_wait u64
  | T_block u64
  | T_unblock u64
  | T_set_priority u64 u8
  | T_yield
  | T_get_pid
  | T_exit int

type_synonym 'w tsys = "test_call \<Rightarrow> 'w \<Rightarrow> int \<times> 'w"

definition test_tell :: "'w tsys \<Rightarrow> test_msg \<Rightarrow> 'w \<Rightarrow> 'w" where
  "test_tell sys p w = snd (sys (T_print p) w)"

section \<open>Random numbers and arguments\<close>

definition random_seeds :: rng where
  "random_seeds = \<lparr>m_z = 362436069, m_w = 521288629\<rparr>"

definition rand_uint :: "rng \<Rightarrow> u32 \<times> rng" where
  "rand_uint g =
     (let z = 36969 * (m_z g AND 65535) + drop_bit 16 (m_z g);
          w = 18000 * (m_w g AND 65535) + drop_bit 16 (m_w g)
      in (push_bit 16 z + w, \<lparr>m_z = z, m_w = w\<rparr>))"

definition rand_uniform :: "(u32 \<Rightarrow> u32 \<Rightarrow> u32) \<Rightarrow> u32 \<Rightarrow> rng \<Rightarrow> u32 \<times> rng" where
  "rand_uniform scale maximum g =
     (if maximum = 0 then (0, g) else case rand_uint g of (u, g) \<Rightarrow> (scale u maximum, g))"

fun parse_loop :: "cstring \<Rightarrow> int \<Rightarrow> int \<Rightarrow> int option" where
  "parse_loop [] result sgn_factor = None"
| "parse_loop (c # str) result sgn_factor =
     (if c = 0 then int_of 64 (result * sgn_factor)
      else if sint c < 48 \<or> 57 < sint c then Some 0
      else do { result \<leftarrow> int_of 64 (result * 10 + (sint c - 48)); parse_loop str result sgn_factor })"

definition parse_positive :: "cstring option \<Rightarrow> int option" where
  "parse_positive str =
     (case str of
        None \<Rightarrow> Some 0
      | Some [] \<Rightarrow> None
      | Some (c # it) \<Rightarrow>
          if c = 0 then Some 0
          else if c = 45 then parse_loop it 0 (-1)
          else parse_loop (c # it) 0 1)"

section \<open>The test of processes\<close>

datatype process_test_state = PROCESS_TEST_RUNNING | PROCESS_TEST_BLOCKED | PROCESS_TEST_KILLED

record process_request =
  rq_pid :: int
  rq_state :: process_test_state

text \<open>\<open>Inl\<close> is a report of the test, after which it gives its memory back and ends with -1.\<close>

fun create_requests :: "'w tsys \<Rightarrow> nat \<Rightarrow> 'w \<Rightarrow> (test_msg + process_request list) \<times> 'w" where
  "create_requests sys 0 w = (Inr [], w)"
| "create_requests sys (Suc n) w =
     (let (pid, w) = sys T_create_endless w in
      if pid < 0 then (Inl TM_create, w)
      else case create_requests sys n w of
             (Inl e, w) \<Rightarrow> (Inl e, w)
           | (Inr rs, w) \<Rightarrow> (Inr (\<lparr>rq_pid = pid, rq_state = PROCESS_TEST_RUNNING\<rparr> # rs), w))"

definition kill_request :: "'w tsys \<Rightarrow> process_request \<Rightarrow> u64 \<Rightarrow> 'w \<Rightarrow> (test_msg + process_request \<times> u64) \<times> 'w" where
  "kill_request sys r alive w =
     (let (killed, w) = sys (T_kill (of_int (rq_pid r))) w in
      if killed = -1 then (Inl TM_kill, w)
      else
        let (waited, w) = sys (T_wait (of_int (rq_pid r))) w in
        if waited = -1 then (Inl TM_wait, w)
        else (Inr (r\<lparr>rq_state := PROCESS_TEST_KILLED\<rparr>, alive - 1), w))"

definition block_request :: "'w tsys \<Rightarrow> process_request \<Rightarrow> 'w \<Rightarrow> (test_msg + process_request) \<times> 'w" where
  "block_request sys r w =
     (let (blocked, w) = sys (T_block (of_int (rq_pid r))) w in
      if blocked = -1 then (Inl TM_block, w) else (Inr (r\<lparr>rq_state := PROCESS_TEST_BLOCKED\<rparr>), w))"

text \<open>The first loop of a sweep: each process is killed or blocked, as the lowest bit of a number says.\<close>

fun act_loop ::
  "'w tsys \<Rightarrow> (u32 \<Rightarrow> u32 \<Rightarrow> u32) \<Rightarrow> process_request list \<Rightarrow> u64 \<Rightarrow> rng \<Rightarrow> 'w \<Rightarrow>
   (test_msg + process_request list \<times> u64 \<times> rng) \<times> 'w" where
  "act_loop sys scale [] alive g w = (Inr ([], alive, g), w)"
| "act_loop sys scale (r # rs) alive g w =
     (let (u, g) = rand_uniform scale 100 g;
          (result, w) =
            (if (ucast u AND 1 :: u8) = 0 then
               (if rq_state r \<noteq> PROCESS_TEST_KILLED then kill_request sys r alive w else (Inr (r, alive), w))
             else if rq_state r = PROCESS_TEST_RUNNING then
               (case block_request sys r w of (Inl e, w) \<Rightarrow> (Inl e, w) | (Inr r, w) \<Rightarrow> (Inr (r, alive), w))
             else (Inr (r, alive), w))
      in case result of
           Inl e \<Rightarrow> (Inl e, w)
         | Inr (r, alive) \<Rightarrow>
             (case act_loop sys scale rs alive g w of
                (Inl e, w) \<Rightarrow> (Inl e, w)
              | (Inr (rs, alive, g), w) \<Rightarrow> (Inr (r # rs, alive, g), w)))"

text \<open>The second loop: a number is drawn for the blocked processes only.\<close>

fun unblock_loop ::
  "'w tsys \<Rightarrow> (u32 \<Rightarrow> u32 \<Rightarrow> u32) \<Rightarrow> process_request list \<Rightarrow> rng \<Rightarrow> 'w \<Rightarrow>
   (test_msg + process_request list \<times> rng) \<times> 'w" where
  "unblock_loop sys scale [] g w = (Inr ([], g), w)"
| "unblock_loop sys scale (r # rs) g w =
     (let (chosen, g) = (if rq_state r = PROCESS_TEST_BLOCKED
                         then case rand_uniform scale 100 g of (u, g) \<Rightarrow> (u AND 1 \<noteq> 0, g)
                         else (False, g));
          (result, w) =
            (if chosen then
               (case sys (T_unblock (of_int (rq_pid r))) w of (unblocked, w) \<Rightarrow>
                  if unblocked = -1 then (Inl TM_unblock, w) else (Inr (r\<lparr>rq_state := PROCESS_TEST_RUNNING\<rparr>), w))
             else (Inr r, w))
      in case result of
           Inl e \<Rightarrow> (Inl e, w)
         | Inr r \<Rightarrow>
             (case unblock_loop sys scale rs g w of
                (Inl e, w) \<Rightarrow> (Inl e, w)
              | (Inr (rs, g), w) \<Rightarrow> (Inr (r # rs, g), w)))"

record process_test =
  pt_requests :: "process_request list"
  pt_alive :: u64
  pt_rng :: rng

definition sweep :: "'w tsys \<Rightarrow> (u32 \<Rightarrow> u32 \<Rightarrow> u32) \<Rightarrow> process_test \<Rightarrow> 'w \<Rightarrow> (test_msg + process_test) \<times> 'w" where
  "sweep sys scale t w =
     (case act_loop sys scale (pt_requests t) (pt_alive t) (pt_rng t) w of
        (Inl e, w) \<Rightarrow> (Inl e, w)
      | (Inr (rs, alive, g), w) \<Rightarrow>
          (case unblock_loop sys scale rs g w of
             (Inl e, w) \<Rightarrow> (Inl e, w)
           | (Inr (rs, g), w) \<Rightarrow>
               (Inr \<lparr>pt_requests = rs, pt_alive = alive, pt_rng = g\<rparr>, snd (sys T_yield w))))"

text \<open>
  The loops of the test, for \<open>n\<close> turns: a turn is a sweep while a process is left, and otherwise
  the end of an iteration and the processes of the next one. \<open>it\<close> counts the iterations.
\<close>

definition test_turn ::
  "'w tsys \<Rightarrow> (u32 \<Rightarrow> u32 \<Rightarrow> u32) \<Rightarrow> nat \<Rightarrow> process_test \<times> u64 \<Rightarrow> 'w \<Rightarrow> (test_msg + process_test \<times> u64) \<times> 'w" where
  "test_turn sys scale max_processes tt w =
     (case tt of (t, it) \<Rightarrow>
      if 0 < pt_alive t then
        (case sweep sys scale t w of (Inl e, w) \<Rightarrow> (Inl e, w) | (Inr t, w) \<Rightarrow> (Inr (t, it), w))
      else
        let w = snd (sys T_yield (test_tell sys (TM_iteration it) w)) in
        case create_requests sys max_processes w of
          (Inl e, w) \<Rightarrow> (Inl e, w)
        | (Inr rs, w) \<Rightarrow> (Inr (t\<lparr>pt_requests := rs, pt_alive := of_nat max_processes\<rparr>, it + 1), w))"

fun test_turns ::
  "'w tsys \<Rightarrow> (u32 \<Rightarrow> u32 \<Rightarrow> u32) \<Rightarrow> nat \<Rightarrow> nat \<Rightarrow> process_test \<times> u64 \<Rightarrow> 'w \<Rightarrow> (test_msg + process_test \<times> u64) \<times> 'w" where
  "test_turns sys scale max_processes 0 tt w = (Inr tt, w)"
| "test_turns sys scale max_processes (Suc n) tt w =
     (case test_turn sys scale max_processes tt w of
        (Inl e, w) \<Rightarrow> (Inl e, w)
      | (Inr tt, w) \<Rightarrow> test_turns sys scale max_processes n tt w)"

text \<open>The first processes are created without the message of an iteration before.\<close>

definition test_begin :: "'w tsys \<Rightarrow> nat \<Rightarrow> 'w \<Rightarrow> (test_msg + process_test \<times> u64) \<times> 'w" where
  "test_begin sys max_processes w =
     (case create_requests sys max_processes w of
        (Inl e, w) \<Rightarrow> (Inl e, w)
      | (Inr rs, w) \<Rightarrow> (Inr (\<lparr>pt_requests = rs, pt_alive = of_nat max_processes, pt_rng = random_seeds\<rparr>, 0), w))"

text \<open>The whole test, for \<open>n\<close> turns of its loops: \<open>Some -1\<close> when it has ended, \<open>None\<close> while it runs.\<close>

definition test_processes ::
  "'w tsys \<Rightarrow> (u32 \<Rightarrow> u32 \<Rightarrow> u32) \<Rightarrow> nat \<Rightarrow> u64 \<Rightarrow> cstring option list \<Rightarrow> 'w \<Rightarrow> (int option \<times> 'w) option" where
  "test_processes sys scale n argc argv w =
     (if argc \<noteq> 1 then Some (Some (-1), test_tell sys TM_usage w)
      else case argv of
        [] \<Rightarrow> None
      | a # _ \<Rightarrow> do {
          parsed \<leftarrow> parse_positive a;
          if parsed \<le> 0 then Some (Some (-1), test_tell sys TM_invalid w)
          else
            let (p, w) = sys (T_malloc (8 * of_int parsed)) w in
            if p = 0 then Some (Some (-1), test_tell sys TM_no_memory w)
            else
              case (case test_begin sys (nat parsed) w of
                      (Inl e, w) \<Rightarrow> (Inl e, w)
                    | (Inr tt, w) \<Rightarrow> test_turns sys scale (nat parsed) n tt w) of
                (Inl e, w) \<Rightarrow> Some (Some (-1), snd (sys (T_free (nat p)) (test_tell sys e w)))
              | (Inr tt, w) \<Rightarrow> Some (None, w)
        })"

section \<open>The test of priorities\<close>

definition LOWEST :: u8 where "LOWEST = 5"
definition MEDIUM :: u8 where "MEDIUM = 3"
definition HIGHEST :: u8 where "HIGHEST = 0"

definition prio :: "u8 list" where
  "prio = [LOWEST, MEDIUM, HIGHEST]"

text \<open>The work of a process, \<open>while (value++ != max_value)\<close>, with the last value of its counter.\<close>

function count_up :: "u64 \<Rightarrow> u64 \<Rightarrow> u64" where
  "count_up max_value value = (if value \<noteq> max_value then count_up max_value (value + 1) else value + 1)"
  by pat_completeness auto
termination
proof (relation "measure (\<lambda>(max_value, value). unat (max_value - value))", goal_cases)
  case (2 m v)
  then have "m - v \<noteq> 0" by simp
  then have "0 < unat (m - v)" "unat (m - v - 1) = unat (m - v) - 1" by (simp_all add: unat_gt_0 unat_minus_one)
  then have "unat (m - v - 1) < unat (m - v)" by simp
  then show ?case by (simp add: algebra_simps)
qed simp

declare count_up.simps [simp del]

definition zero_to_max :: "'w tsys \<Rightarrow> u64 \<Rightarrow> 'w \<Rightarrow> u64 \<times> 'w" where
  "zero_to_max sys max_value w =
     (let v = count_up max_value 0;
          (pid, w) = sys T_get_pid w;
          w = test_tell sys (TM_done pid) w
      in (v, snd (sys (T_exit 0) w)))"

text \<open>The processes of a phase, one for each priority, with what the phase does to each of them.\<close>

fun create_counters :: "'w tsys \<Rightarrow> (int \<Rightarrow> u8 \<Rightarrow> 'w \<Rightarrow> 'w) \<Rightarrow> u8 list \<Rightarrow> 'w \<Rightarrow> int list option \<times> 'w" where
  "create_counters sys after [] w = (Some [], w)"
| "create_counters sys after (p # ps) w =
     (let (pid, w) = sys T_create_counter w in
      if pid < 0 then (None, test_tell sys TM_create w)
      else case create_counters sys after ps (after pid p w) of
             (None, w) \<Rightarrow> (None, w)
           | (Some pids, w) \<Rightarrow> (Some (pid # pids), w))"

definition change_priority :: "'w tsys \<Rightarrow> int \<Rightarrow> u8 \<Rightarrow> 'w \<Rightarrow> 'w" where
  "change_priority sys pid p w =
     test_tell sys (TM_new_priority pid p) (snd (sys (T_set_priority (of_int pid) p) w))"

definition block_and_change :: "'w tsys \<Rightarrow> int \<Rightarrow> u8 \<Rightarrow> 'w \<Rightarrow> 'w" where
  "block_and_change sys pid p w = change_priority sys pid p (snd (sys (T_block (of_int pid)) w))"

definition wait_all :: "'w tsys \<Rightarrow> int list \<Rightarrow> 'w \<Rightarrow> 'w" where
  "wait_all sys pids w = fold (\<lambda>pid w. snd (sys (T_wait (of_int pid)) w)) pids w"

definition unblock_all :: "'w tsys \<Rightarrow> int list \<Rightarrow> 'w \<Rightarrow> 'w" where
  "unblock_all sys pids w = fold (\<lambda>pid w. snd (sys (T_unblock (of_int pid)) w)) pids w"

definition prio_phases :: "'w tsys \<Rightarrow> 'w \<Rightarrow> u64 \<times> 'w" where
  "prio_phases sys w =
     (case create_counters sys (\<lambda>_ _ w. w) prio (test_tell sys TM_same w) of
        (None, w) \<Rightarrow> (-1, w)
      | (Some pids, w) \<Rightarrow>
     (case create_counters sys (change_priority sys) prio (test_tell sys TM_change (wait_all sys pids w)) of
        (None, w) \<Rightarrow> (-1, w)
      | (Some pids, w) \<Rightarrow>
     (case create_counters sys (block_and_change sys) prio (test_tell sys TM_change_blocked (wait_all sys pids w)) of
        (None, w) \<Rightarrow> (-1, w)
      | (Some pids, w) \<Rightarrow> (0, wait_all sys pids (unblock_all sys pids w)))))"

definition test_prio :: "'w tsys \<Rightarrow> u64 \<Rightarrow> cstring option list \<Rightarrow> 'w \<Rightarrow> (u64 \<times> 'w) option" where
  "test_prio sys argc argv w =
     (if argc \<noteq> 1 then Some (-1, test_tell sys TM_usage w)
      else case argv of
        [] \<Rightarrow> None
      | a # _ \<Rightarrow> do {
          parsed \<leftarrow> satoi a;
          if parsed \<le> 0 then Some (-1, test_tell sys TM_invalid w)
          else Some (prio_phases sys w)
        })"

lemma count_up_end: "count_up m v = m + 1"
  by (induction m v rule: count_up.induct) (subst count_up.simps, auto)

section \<open>The contract of the calls\<close>

text \<open>
  A table of processes: for each one, whether it ends by itself, and how it stands. A new
  process gets the number that \<open>pick\<close> gives, or none. Waiting for a process that will not end
  is the answer -1 here: the tests never do it. The messages are kept.
\<close>

datatype process_status = Status_ready | Status_blocked | Status_ended

type_synonym process_table = "int \<rightharpoonup> bool \<times> process_status"
type_synonym test_world = "process_table \<times> test_msg list"

definition create_in_table :: "(process_table \<Rightarrow> int) \<Rightarrow> bool \<Rightarrow> process_table \<Rightarrow> int \<times> process_table" where
  "create_in_table pick ends m =
     (if pick m < 0 then (-1, m) else (pick m, m(pick m \<mapsto> (ends, Status_ready))))"

definition table_call :: "(process_table \<Rightarrow> int) \<Rightarrow> test_call \<Rightarrow> process_table \<Rightarrow> int \<times> process_table" where
  "table_call pick c m =
     (case c of
        T_create_endless \<Rightarrow> create_in_table pick False m
      | T_create_counter \<Rightarrow> create_in_table pick True m
      | T_kill p \<Rightarrow> (case m (uint p) of
            None \<Rightarrow> (-1, m)
          | Some (ends, _) \<Rightarrow> (0, m(uint p \<mapsto> (ends, Status_ended))))
      | T_wait p \<Rightarrow> (case m (uint p) of
            None \<Rightarrow> (-1, m)
          | Some (ends, st) \<Rightarrow> if st = Status_ended \<or> ends \<and> st = Status_ready then (0, m(uint p := None)) else (-1, m))
      | T_block p \<Rightarrow> (case m (uint p) of
            Some (ends, Status_ready) \<Rightarrow> (0, m(uint p \<mapsto> (ends, Status_blocked)))
          | _ \<Rightarrow> (-1, m))
      | T_unblock p \<Rightarrow> (case m (uint p) of
            Some (ends, Status_blocked) \<Rightarrow> (0, m(uint p \<mapsto> (ends, Status_ready)))
          | _ \<Rightarrow> (-1, m))
      | T_set_priority p _ \<Rightarrow> (if m (uint p) = None then -1 else 0, m)
      | T_malloc n \<Rightarrow> (1, m)
      | _ \<Rightarrow> (0, m))"

definition table_sys :: "(process_table \<Rightarrow> int) \<Rightarrow> test_world tsys" where
  "table_sys pick c w =
     (case w of (m, log) \<Rightarrow>
        (case c of
           T_print msg \<Rightarrow> (0, m, log @ [msg])
         | _ \<Rightarrow> (case table_call pick c m of (r, m) \<Rightarrow> (r, m, log))))"

definition picks_fresh :: "(process_table \<Rightarrow> int) \<Rightarrow> bool" where
  "picks_fresh pick \<longleftrightarrow> (\<forall>m. pick m < 2 ^ 31 \<and> (0 \<le> pick m \<longrightarrow> m (pick m) = None))"

lemma table_tell [simp]: "test_tell (table_sys pick) msg (m, log) = (m, log @ [msg])"
  by (simp add: test_tell_def table_sys_def)

lemma uint_pid: "0 \<le> pid \<Longrightarrow> pid < 2 ^ 31 \<Longrightarrow> uint (of_int pid :: u64) = pid"
  by (simp add: uint_word_of_int_eq take_bit_int_eq_self)

section \<open>The test of processes finds no error\<close>

text \<open>The processes of a list of requests that are not killed, as a table.\<close>

definition status_of :: "process_test_state \<Rightarrow> process_status" where
  "status_of st = (if st = PROCESS_TEST_RUNNING then Status_ready else Status_blocked)"

fun requests_table :: "process_request list \<Rightarrow> process_table" where
  "requests_table [] = Map.empty"
| "requests_table (r # rs) =
     (if rq_state r = PROCESS_TEST_KILLED then requests_table rs
      else (requests_table rs)(rq_pid r \<mapsto> (False, status_of (rq_state r))))"

definition living :: "process_request list \<Rightarrow> int list" where
  "living rs = map rq_pid (filter (\<lambda>r. rq_state r \<noteq> PROCESS_TEST_KILLED) rs)"

lemma living_simps [simp]:
  "living [] = []"
  "living (r # rs) = (if rq_state r = PROCESS_TEST_KILLED then living rs else rq_pid r # living rs)"
  by (simp_all add: living_def)

lemma requests_table_other: "p \<notin> set (living rs) \<Longrightarrow> requests_table rs p = None"
  by (induction rs) (auto split: if_splits)

definition requests_ok :: "process_request list \<Rightarrow> process_table \<Rightarrow> bool" where
  "requests_ok rs base \<longleftrightarrow> distinct (living rs) \<and> set (living rs) \<inter> dom base = {} \<and>
     (\<forall>p\<in>set (living rs). 0 \<le> p \<and> p < 2 ^ 31)"

text \<open>The answers of the calls for the first process of a list.\<close>

lemma first_request:
  assumes ok: "requests_ok (r # rs) base" and live: "rq_state r \<noteq> PROCESS_TEST_KILLED"
    and m: "m = base ++ requests_table (r # rs)" and p: "p = rq_pid r"
  shows "uint (of_int p :: u64) = p" and "m p = Some (False, status_of (rq_state r))"
    and "m(p := None) = base ++ requests_table rs" and "requests_ok rs base"
    and "m(p \<mapsto> x) = base(p \<mapsto> x) ++ requests_table rs" and "requests_ok rs (base(p \<mapsto> x))"
    and "set (living rs') \<subseteq> set (living rs) \<Longrightarrow> rq_state r' \<noteq> PROCESS_TEST_KILLED \<Longrightarrow> rq_pid r' = p \<Longrightarrow>
      base(p \<mapsto> (False, status_of (rq_state r'))) ++ requests_table rs' = base ++ requests_table (r' # rs')"
proof -
  have pp: "p \<notin> set (living rs)" "p \<notin> dom base" "0 \<le> p" "p < 2 ^ 31"
    using ok live by (auto simp: requests_ok_def p)
  then show "uint (of_int p :: u64) = p" by (intro uint_pid)
  show "m p = Some (False, status_of (rq_state r))" using live by (simp add: m p)
  have rs: "requests_table rs p = None" by (rule requests_table_other [OF pp(1)])
  have base: "base p = None" using pp(2) by blast
  show "m(p := None) = base ++ requests_table rs"
    using live rs base by (auto simp: m p fun_eq_iff map_add_def split: option.splits)
  show "requests_ok rs base" using ok live by (auto simp: requests_ok_def)
  show "m(p \<mapsto> x) = base(p \<mapsto> x) ++ requests_table rs"
    using live rs by (auto simp: m p fun_eq_iff map_add_def split: option.splits)
  show "requests_ok rs (base(p \<mapsto> x))" using ok live by (auto simp: requests_ok_def p)
  show "base(p \<mapsto> (False, status_of (rq_state r'))) ++ requests_table rs' = base ++ requests_table (r' # rs')"
    if "set (living rs') \<subseteq> set (living rs)" "rq_state r' \<noteq> PROCESS_TEST_KILLED" "rq_pid r' = p"
  proof -
    have "requests_table rs' p = None" by (rule requests_table_other) (use that pp(1) in blast)
    then show ?thesis using that(2,3) by (auto simp: fun_eq_iff map_add_def split: option.splits)
  qed
qed

declare requests_table.simps(2) [simp del]

lemma requests_table_killed: "rq_state r = PROCESS_TEST_KILLED \<Longrightarrow> requests_table (r # rs) = requests_table rs"
  by (simp add: requests_table.simps)

text \<open>What a loop over the requests keeps, over the other processes in \<open>base\<close>.\<close>

definition requests_after :: "process_request list \<Rightarrow> process_request list \<Rightarrow> bool" where
  "requests_after rs rs' \<longleftrightarrow> length rs' = length rs \<and> distinct (living rs') \<and> set (living rs') \<subseteq> set (living rs)"

lemma act_loop_table:
  assumes "requests_ok rs base" and "alive = x + of_nat (length (living rs))"
  shows "\<exists>rs' alive' g'. act_loop (table_sys pick) scale rs alive g (base ++ requests_table rs, log) =
      (Inr (rs', alive', g'), base ++ requests_table rs', log) \<and> requests_after rs rs' \<and>
      alive' = x + of_nat (length (living rs'))"
  using assms
proof (induction rs arbitrary: base alive g x)
  case Nil
  then show ?case by (simp add: requests_after_def)
next
  case (Cons r rs)
  obtain u g1 where g1: "rand_uniform scale 100 g = (u, g1)" by (cases "rand_uniform scale 100 g")
  show ?case
  proof (cases "rq_state r = PROCESS_TEST_KILLED")
    case True
    obtain rs' alive' g' where "act_loop (table_sys pick) scale rs alive g1 (base ++ requests_table rs, log) =
      (Inr (rs', alive', g'), base ++ requests_table rs', log)" "requests_after rs rs'" "alive' = x + of_nat (length (living rs'))"
      using Cons.IH [of base alive x g1] Cons.prems True by (auto simp: requests_ok_def)
    then show ?thesis using True g1 by (auto simp: requests_after_def requests_table_killed)
  next
    case False
    define p where "p = rq_pid r"
    define m where "m = base ++ requests_table (r # rs)"
    note f = first_request [OF Cons.prems(1) False m_def p_def]
    have alive: "alive - 1 = x + of_nat (length (living rs))" "alive = (x + 1) + of_nat (length (living rs))"
      using Cons.prems(2) False by (simp_all add: algebra_simps)
    show ?thesis
    proof (cases "(ucast u AND 1 :: u8) = 0")
      case kill: True
      have k: "kill_request (table_sys pick) r alive (m, log) =
          (Inr (r\<lparr>rq_state := PROCESS_TEST_KILLED\<rparr>, alive - 1), base ++ requests_table rs, log)"
        unfolding kill_request_def table_sys_def table_call_def p_def [symmetric] using f(1,2,3) by (simp add: Let_def)
      obtain rs' alive' g' where rs': "act_loop (table_sys pick) scale rs (alive - 1) g1 (base ++ requests_table rs, log) =
        (Inr (rs', alive', g'), base ++ requests_table rs', log)" "requests_after rs rs'" "alive' = x + of_nat (length (living rs'))"
        using Cons.IH [OF f(4) alive(1), of g1] by auto
      have "act_loop (table_sys pick) scale (r # rs) alive g (m, log) =
          (Inr (r\<lparr>rq_state := PROCESS_TEST_KILLED\<rparr> # rs', alive', g'), base ++ requests_table (r\<lparr>rq_state := PROCESS_TEST_KILLED\<rparr> # rs'), log)"
        using False g1 kill k rs'(1) by (simp add: requests_table_killed)
      then show ?thesis using rs'(2,3) False unfolding m_def requests_after_def by fastforce
    next
      case keep: False
      show ?thesis
      proof (cases "rq_state r = PROCESS_TEST_RUNNING")
        case run: True
        let ?r = "r\<lparr>rq_state := PROCESS_TEST_BLOCKED\<rparr>" and ?b = "base(p \<mapsto> (False, Status_blocked))"
        have k: "block_request (table_sys pick) r (m, log) = (Inr ?r, ?b ++ requests_table rs, log)"
          unfolding block_request_def table_sys_def table_call_def p_def [symmetric] using f(1,2,5) run
          by (simp add: Let_def status_of_def)
        obtain rs' alive' g' where rs': "act_loop (table_sys pick) scale rs alive g1 (?b ++ requests_table rs, log) =
          (Inr (rs', alive', g'), ?b ++ requests_table rs', log)" "requests_after rs rs'" "alive' = x + 1 + of_nat (length (living rs'))"
          using Cons.IH [OF f(6) [of "(False, Status_blocked)"] alive(2), of g1] by blast
        have "?b ++ requests_table rs' = base ++ requests_table (?r # rs')"
          using f(7) [of rs' ?r] rs'(2) by (simp add: requests_after_def p_def status_of_def)
        then have "act_loop (table_sys pick) scale (r # rs) alive g (m, log) = (Inr (?r # rs', alive', g'), base ++ requests_table (?r # rs'), log)"
          using run g1 keep k rs'(1) by simp
        moreover have "requests_after (r # rs) (?r # rs')"
          using rs'(2) Cons.prems(1) run by (auto simp: requests_after_def requests_ok_def)
        ultimately show ?thesis using rs'(3) unfolding m_def by fastforce
      next
        case stay: False
        let ?b = "base(p \<mapsto> (False, status_of (rq_state r)))"
        have mm: "m = ?b ++ requests_table rs"
          using f(2) f(5) [of "(False, status_of (rq_state r))"] by (simp add: fun_upd_idem)
        obtain rs' alive' g' where rs': "act_loop (table_sys pick) scale rs alive g1 (?b ++ requests_table rs, log) =
          (Inr (rs', alive', g'), ?b ++ requests_table rs', log)" "requests_after rs rs'" "alive' = x + 1 + of_nat (length (living rs'))"
          using Cons.IH [OF f(6) [of "(False, status_of (rq_state r))"] alive(2), of g1] by blast
        have "?b ++ requests_table rs' = base ++ requests_table (r # rs')"
          using f(7) [of rs' r] rs'(2) False by (simp add: requests_after_def p_def)
        then have "act_loop (table_sys pick) scale (r # rs) alive g (m, log) = (Inr (r # rs', alive', g'), base ++ requests_table (r # rs'), log)"
          using stay False g1 keep rs'(1) by (simp add: mm)
        moreover have "requests_after (r # rs) (r # rs')"
          using rs'(2) Cons.prems(1) False by (auto simp: requests_after_def requests_ok_def)
        ultimately show ?thesis using rs'(3) False unfolding m_def by fastforce
      qed
    qed
  qed
qed

lemma unblock_loop_table:
  assumes "requests_ok rs base"
  shows "\<exists>rs' g'. unblock_loop (table_sys pick) scale rs g (base ++ requests_table rs, log) =
      (Inr (rs', g'), base ++ requests_table rs', log) \<and> length rs' = length rs \<and> living rs' = living rs"
  using assms
proof (induction rs arbitrary: base g)
  case (Cons r rs)
  show ?case
  proof (cases "rq_state r = PROCESS_TEST_KILLED")
    case True
    have "requests_ok rs base" using Cons.prems True by (simp add: requests_ok_def)
    from Cons.IH [OF this, of g] obtain rs' g' where "unblock_loop (table_sys pick) scale rs g (base ++ requests_table rs, log) =
      (Inr (rs', g'), base ++ requests_table rs', log)" "length rs' = length rs" "living rs' = living rs" by blast
    then show ?thesis using True by (auto simp: requests_table_killed)
  next
    case False
    define p where "p = rq_pid r"
    define m where "m = base ++ requests_table (r # rs)"
    note f = first_request [OF Cons.prems(1) False m_def p_def]
    let ?b = "base(p \<mapsto> (False, status_of (rq_state r)))"
    have mm: "m = ?b ++ requests_table rs"
      using f(2) f(5) [of "(False, status_of (rq_state r))"] by (simp add: fun_upd_idem)
    have stay: "\<exists>rs' g''. unblock_loop (table_sys pick) scale rs g' (m, log) = (Inr (rs', g''), base ++ requests_table (r # rs'), log) \<and>
        length rs' = length rs \<and> living rs' = living rs" for g'
    proof -
      obtain rs' g'' where "unblock_loop (table_sys pick) scale rs g' (?b ++ requests_table rs, log) =
          (Inr (rs', g''), ?b ++ requests_table rs', log)" "length rs' = length rs" "living rs' = living rs"
        using Cons.IH [OF f(6) [of "(False, status_of (rq_state r))"], of g'] by blast
      then show ?thesis using f(7) [of rs' r] False unfolding mm by (auto simp: p_def)
    qed
    show ?thesis
    proof (cases "rq_state r = PROCESS_TEST_BLOCKED")
      case False
      from stay [of g] obtain rs' g'' where "unblock_loop (table_sys pick) scale rs g (m, log) =
        (Inr (rs', g''), base ++ requests_table (r # rs'), log)" "length rs' = length rs" "living rs' = living rs" by blast
      then have "unblock_loop (table_sys pick) scale (r # rs) g (m, log) = (Inr (r # rs', g''), base ++ requests_table (r # rs'), log)"
        "length (r # rs') = length (r # rs)" "living (r # rs') = living (r # rs)" using False by simp_all
      then show ?thesis unfolding m_def by blast
    next
      case blocked: True
      obtain u g1 where g1: "rand_uniform scale 100 g = (u, g1)" by (cases "rand_uniform scale 100 g")
      show ?thesis
      proof (cases "u AND 1 = 0")
        case True
        from stay [of g1] obtain rs' g'' where "unblock_loop (table_sys pick) scale rs g1 (m, log) =
          (Inr (rs', g''), base ++ requests_table (r # rs'), log)" "length rs' = length rs" "living rs' = living rs" by blast
        then have "unblock_loop (table_sys pick) scale (r # rs) g (m, log) = (Inr (r # rs', g''), base ++ requests_table (r # rs'), log)"
          "length (r # rs') = length (r # rs)" "living (r # rs') = living (r # rs)" using True blocked g1 by simp_all
        then show ?thesis unfolding m_def by blast
      next
        case wake: False
        let ?r = "r\<lparr>rq_state := PROCESS_TEST_RUNNING\<rparr>" and ?w = "base(p \<mapsto> (False, Status_ready))"
        have k: "table_sys pick (T_unblock (of_int (rq_pid r))) (m, log) = (0, ?w ++ requests_table rs, log)"
          unfolding table_sys_def table_call_def p_def [symmetric] using f(1,2,5) blocked by (simp add: status_of_def)
        obtain rs' g'' where rs': "unblock_loop (table_sys pick) scale rs g1 (?w ++ requests_table rs, log) =
            (Inr (rs', g''), ?w ++ requests_table rs', log)" "length rs' = length rs" "living rs' = living rs"
          using Cons.IH [OF f(6) [of "(False, Status_ready)"], of g1] by blast
        have "?w ++ requests_table rs' = base ++ requests_table (?r # rs')"
          using f(7) [of rs' ?r] rs'(3) by (simp add: p_def status_of_def)
        then have "unblock_loop (table_sys pick) scale (r # rs) g (m, log) = (Inr (?r # rs', g''), base ++ requests_table (?r # rs'), log)"
          using blocked g1 wake k rs'(1) by simp
        moreover have "living (?r # rs') = living (r # rs)" using rs'(3) blocked by simp
        ultimately show ?thesis using rs'(2) unfolding m_def by fastforce
      qed
    qed
  qed
qed simp

lemma create_requests_table:
  assumes "picks_fresh pick"
  shows "case create_requests (table_sys pick) n (m, log) of
      (Inl e, m', log') \<Rightarrow> e = TM_create \<and> log' = log \<and> (\<exists>t. pick t < 0)
    | (Inr rs, m', log') \<Rightarrow> m' = m ++ requests_table rs \<and> log' = log \<and> requests_ok rs m \<and> length rs = n \<and> length (living rs) = n"
proof (induction n arbitrary: m)
  case 0
  then show ?case by (simp add: requests_ok_def)
next
  case (Suc n)
  let ?p = "pick m"
  have c: "table_sys pick T_create_endless (m, log) =
      (if ?p < 0 then (-1, m, log) else (?p, m(?p \<mapsto> (False, Status_ready)), log))"
    by (simp add: table_sys_def table_call_def create_in_table_def)
  show ?case
  proof (cases "?p < 0")
    case True
    then show ?thesis using c by auto
  next
    case False
    have p: "?p < 2 ^ 31" "m ?p = None" using assms False by (auto simp: picks_fresh_def)
    define m1 where "m1 = m(?p \<mapsto> (False, Status_ready))"
    let ?r = "\<lparr>rq_pid = ?p, rq_state = PROCESS_TEST_RUNNING\<rparr>"
    have c1: "table_sys pick T_create_endless (m, log) = (?p, m1, log)" using c False by (simp only: m1_def if_False)
    obtain x m' log' where x: "create_requests (table_sys pick) n (m1, log) = (x, m', log')"
      by (cases "create_requests (table_sys pick) n (m1, log)")
    show ?thesis
    proof (cases x)
      case (Inl e)
      then show ?thesis using Suc.IH [of m1] x c1 False by simp
    next
      case (Inr rs)
      then have rs: "m' = m1 ++ requests_table rs" "log' = log" "requests_ok rs m1" "length rs = n" "length (living rs) = n"
        using Suc.IH [of m1] x by simp_all
      have notin: "?p \<notin> set (living rs)" using rs(3) by (auto simp: requests_ok_def m1_def)
      have "requests_table rs ?p = None" by (rule requests_table_other [OF notin])
      then have "m1 ++ requests_table rs = m ++ requests_table (?r # rs)"
        by (auto simp: fun_eq_iff map_add_def requests_table.simps status_of_def m1_def split: option.splits)
      moreover have "requests_ok (?r # rs) m" using rs(3) p notin False by (auto simp: requests_ok_def m1_def)
      ultimately show ?thesis using rs Inr x c1 False by simp
    qed
  qed
qed

text \<open>The state of the test and the table of processes agree.\<close>

definition test_ok :: "process_table \<Rightarrow> process_test \<Rightarrow> process_table \<Rightarrow> bool" where
  "test_ok base t m \<longleftrightarrow> m = base ++ requests_table (pt_requests t) \<and> requests_ok (pt_requests t) base \<and>
     pt_alive t = of_nat (length (living (pt_requests t))) \<and> length (pt_requests t) < 2 ^ 64"

lemma sweep_ok:
  assumes "test_ok base t m"
  shows "\<exists>t' m'. sweep (table_sys pick) scale t (m, log) = (Inr t', m', log) \<and> test_ok base t' m' \<and>
    length (pt_requests t') = length (pt_requests t)"
proof -
  note t = assms [unfolded test_ok_def]
  obtain rs alive g where a: "act_loop (table_sys pick) scale (pt_requests t) (pt_alive t) (pt_rng t) (m, log) =
      (Inr (rs, alive, g), base ++ requests_table rs, log)" "requests_after (pt_requests t) rs" "alive = of_nat (length (living rs))"
    using act_loop_table [of "pt_requests t" base "pt_alive t" 0 pick scale "pt_rng t" log] t by (auto simp only: add_0)
  have "requests_ok rs base" using a(2) t by (auto simp: requests_ok_def requests_after_def)
  from unblock_loop_table [OF this] obtain rs' g' where
    b: "unblock_loop (table_sys pick) scale rs g (base ++ requests_table rs, log) = (Inr (rs', g'), base ++ requests_table rs', log)"
    "length rs' = length rs" "living rs' = living rs" by blast
  have y: "table_sys pick T_yield (m', log) = (0, m', log)" for m' by (simp add: table_sys_def table_call_def)
  have "sweep (table_sys pick) scale t (m, log) =
      (Inr \<lparr>pt_requests = rs', pt_alive = alive, pt_rng = g'\<rparr>, base ++ requests_table rs', log)"
    unfolding sweep_def using a(1) b(1) y by simp
  moreover have "test_ok base \<lparr>pt_requests = rs', pt_alive = alive, pt_rng = g'\<rparr> (base ++ requests_table rs')"
    using a(2,3) b(2,3) t by (auto simp: test_ok_def requests_ok_def requests_after_def)
  ultimately show ?thesis using a(2) b(2) by (auto simp: requests_after_def)
qed

lemma test_ok_none_left:
  assumes "test_ok base t m" and "pt_alive t = 0"
  shows "m = base"
proof -
  have len: "length (living (pt_requests t)) \<le> length (pt_requests t)" by (simp add: living_def)
  have "unat (of_nat (length (living (pt_requests t))) :: u64) = 0" using assms by (simp add: test_ok_def)
  then have "length (living (pt_requests t)) = 0"
    using assms(1) len by (simp add: test_ok_def unat_of_nat take_bit_nat_eq_self)
  then have "requests_table (pt_requests t) = Map.empty" using requests_table_other by fastforce
  then show ?thesis using assms(1) by (simp add: test_ok_def)
qed

definition iteration_message :: "test_msg \<Rightarrow> bool" where
  "iteration_message msg \<longleftrightarrow> (\<exists>i. msg = TM_iteration i)"

lemma begin_ok:
  assumes "picks_fresh pick" and "n < 2 ^ 64"
  shows "case test_begin (table_sys pick) n (m, log) of
      (Inl e, m', log') \<Rightarrow> e = TM_create \<and> log' = log \<and> (\<exists>t. pick t < 0)
    | (Inr (t, it), m', log') \<Rightarrow> test_ok m t m' \<and> log' = log \<and> length (pt_requests t) = n"
  using create_requests_table [OF assms(1), where n = n and m = m and log = log] assms(2)
  by (auto simp: test_begin_def test_ok_def split: prod.splits sum.splits)

lemma turn_ok:
  assumes "picks_fresh pick" and "n < 2 ^ 64" and "test_ok base t m"
  shows "case test_turn (table_sys pick) scale n (t, it) (m, log) of
      (Inl e, m', log') \<Rightarrow> e = TM_create \<and> (\<exists>t. pick t < 0) \<and> (\<exists>l. log' = log @ l \<and> list_all iteration_message l)
    | (Inr (t', it'), m', log') \<Rightarrow> test_ok base t' m' \<and> (\<exists>l. log' = log @ l \<and> list_all iteration_message l)"
proof (cases "0 < pt_alive t")
  case True
  obtain t' m' where "sweep (table_sys pick) scale t (m, log) = (Inr t', m', log)" "test_ok base t' m'"
    using sweep_ok [OF assms(3)] by blast
  then show ?thesis using True by (simp add: test_turn_def)
next
  case False
  then have m: "m = base" using test_ok_none_left [OF assms(3)] by (simp add: word_gt_0)
  have y: "snd (table_sys pick T_yield (m, log @ [TM_iteration it])) = (m, log @ [TM_iteration it])"
    by (simp add: table_sys_def table_call_def)
  show ?thesis
    using False create_requests_table [OF assms(1), where n = n and m = m and log = "log @ [TM_iteration it]"] assms(2) m y
    by (auto simp: test_turn_def test_ok_def iteration_message_def Let_def split: prod.splits sum.splits)
qed

lemma turns_ok:
  assumes "picks_fresh pick" and "k < 2 ^ 64" and "test_ok base t m"
  shows "case test_turns (table_sys pick) scale k n (t, it) (m, log) of
      (Inl e, m', log') \<Rightarrow> e = TM_create \<and> (\<exists>t. pick t < 0) \<and> (\<exists>l. log' = log @ l \<and> list_all iteration_message l)
    | (Inr (t', it'), m', log') \<Rightarrow> test_ok base t' m' \<and> (\<exists>l. log' = log @ l \<and> list_all iteration_message l)"
  using assms(3)
proof (induction n arbitrary: t it m log)
  case (Suc n)
  obtain x m1 log1 where x: "test_turn (table_sys pick) scale k (t, it) (m, log) = (x, m1, log1)"
    by (cases "test_turn (table_sys pick) scale k (t, it) (m, log)")
  note turn = turn_ok [OF assms(1,2) Suc.prems, where scale = scale and it = it and log = log]
  show ?case
  proof (cases x)
    case (Inl e)
    then show ?thesis using turn x by simp
  next
    case (Inr tt)
    obtain t1 it1 where tt: "tt = (t1, it1)" by (cases tt)
    obtain l where l: "test_ok base t1 m1" "log1 = log @ l" "list_all iteration_message l"
      using turn x Inr tt by auto
    show ?thesis using Suc.IH [OF l(1), where it = it1 and log = log1] x Inr tt l(2,3)
      by (fastforce split: prod.splits sum.splits)
  qed
qed simp

lemma parse_loop_bound: "parse_loop str r f = Some v \<Longrightarrow> v < 2 ^ 63"
  by (induction str r f rule: parse_loop.induct) (auto simp: int_of_def split: if_splits bind_splits)

lemma parse_positive_bound: "parse_positive a = Some v \<Longrightarrow> v < 2 ^ 63"
  by (auto simp: parse_positive_def split: option.splits list.splits if_splits dest: parse_loop_bound)


text \<open>A table that gives the first free number, up to a limit.\<close>

definition first_free :: "nat \<Rightarrow> process_table \<Rightarrow> int" where
  "first_free limit m = (case filter (\<lambda>i. m (int i) = None) [0..<limit] of [] \<Rightarrow> -1 | i # _ \<Rightarrow> int i)"

lemma first_free_fresh: "limit \<le> 1000 \<Longrightarrow> picks_fresh (first_free limit)"
proof -
  assume l: "limit \<le> 1000"
  have "first_free limit m < 2 ^ 31 \<and> (0 \<le> first_free limit m \<longrightarrow> m (first_free limit m) = None)" for m
  proof (cases "filter (\<lambda>i. m (int i) = None) [0..<limit]")
    case (Cons i js)
    then have "i \<in> set (filter (\<lambda>i. m (int i) = None) [0..<limit])" by simp
    then have "i < limit" "m (int i) = None" by simp_all
    then show ?thesis using Cons l by (simp add: first_free_def)
  qed (simp add: first_free_def)
  then show ?thesis by (simp add: picks_fresh_def)
qed


section \<open>The test of priorities ends\<close>

definition counters :: "int list \<Rightarrow> process_status \<Rightarrow> process_table" where
  "counters pids st = (\<lambda>p. if p \<in> set pids then Some (True, st) else None)"

definition own_counters :: "int list \<Rightarrow> process_table \<Rightarrow> bool" where
  "own_counters pids m \<longleftrightarrow> distinct pids \<and> set pids \<inter> dom m = {} \<and> (\<forall>p\<in>set pids. 0 \<le> p \<and> p < 2 ^ 31)"

lemma counters_cons:
  assumes "own_counters (p # ps) m"
  shows "uint (of_int p :: u64) = p" and "(m ++ counters (p # ps) st) p = Some (True, st)"
    and "(m ++ counters (p # ps) st)(p := None) = m ++ counters ps st"
    and "(m ++ counters (p # ps) st)(p \<mapsto> (True, st')) = m(p \<mapsto> (True, st')) ++ counters ps st"
    and "m(p \<mapsto> (True, st)) ++ counters ps st = m ++ counters (p # ps) st"
    and "own_counters ps m" and "own_counters ps (m(p \<mapsto> x))"
proof -
  have p: "p \<notin> set ps" "m p = None" "0 \<le> p" "p < 2 ^ 31" using assms by (auto simp: own_counters_def)
  then show "uint (of_int p :: u64) = p" by (intro uint_pid)
  show "(m ++ counters (p # ps) st) p = Some (True, st)" by (simp add: counters_def)
  show "(m ++ counters (p # ps) st)(p := None) = m ++ counters ps st"
    "(m ++ counters (p # ps) st)(p \<mapsto> (True, st')) = m(p \<mapsto> (True, st')) ++ counters ps st"
    "m(p \<mapsto> (True, st)) ++ counters ps st = m ++ counters (p # ps) st"
    using p(1,2) by (auto simp: counters_def fun_eq_iff map_add_def)
  show "own_counters ps m" "own_counters ps (m(p \<mapsto> x))" using assms by (auto simp: own_counters_def)
qed

lemma wait_all_table:
  "own_counters pids m \<Longrightarrow> wait_all (table_sys pick) pids (m ++ counters pids Status_ready, log) = (m, log)"
proof (induction pids)
  case Nil
  then show ?case by (simp add: wait_all_def counters_def map_add_def)
next
  case (Cons p ps)
  note c = counters_cons [OF Cons.prems]
  have "table_sys pick (T_wait (of_int p)) (m ++ counters (p # ps) Status_ready, log) = (0, m ++ counters ps Status_ready, log)"
    unfolding table_sys_def table_call_def by (simp add: c(1,2,3))
  then show ?case using Cons.IH [OF c(6)] by (simp add: wait_all_def)
qed

lemma unblock_all_table:
  "own_counters pids m \<Longrightarrow>
    unblock_all (table_sys pick) pids (m ++ counters pids Status_blocked, log) = (m ++ counters pids Status_ready, log)"
proof (induction pids arbitrary: m)
  case Nil
  then show ?case by (simp add: unblock_all_def counters_def)
next
  case (Cons p ps)
  note c = counters_cons [OF Cons.prems]
  define m1 where "m1 = m(p \<mapsto> (True, Status_ready))"
  have "table_sys pick (T_unblock (of_int p)) (m ++ counters (p # ps) Status_blocked, log) =
      (0, m1 ++ counters ps Status_blocked, log)"
    unfolding table_sys_def table_call_def m1_def by (simp add: c(1,2,4))
  moreover have "own_counters ps m1" "m1 ++ counters ps Status_ready = m ++ counters (p # ps) Status_ready"
    unfolding m1_def by (rule c(7), rule c(5))
  ultimately show ?case using Cons.IH [of m1] by (simp add: unblock_all_def)
qed

text \<open>What is done to a process of a phase leaves it with the status \<open>st\<close>.\<close>

definition leaves :: "(int \<Rightarrow> u8 \<Rightarrow> test_world \<Rightarrow> test_world) \<Rightarrow> process_status \<Rightarrow> bool" where
  "leaves after st \<longleftrightarrow> (\<forall>pid p m log. 0 \<le> pid \<and> pid < 2 ^ 31 \<and> m pid = Some (True, Status_ready) \<longrightarrow>
     (\<exists>log'. after pid p (m, log) = (m(pid \<mapsto> (True, st)), log')))"

lemma leaves_nothing: "leaves (\<lambda>_ _ w. w) Status_ready"
  by (auto simp: leaves_def fun_upd_idem)

lemma leaves_priority: "leaves (change_priority (table_sys pick)) Status_ready"
  by (auto simp: leaves_def change_priority_def fun_upd_idem table_sys_def table_call_def test_tell_def)

lemma leaves_blocked: "leaves (block_and_change (table_sys pick)) Status_blocked"
  by (auto simp: leaves_def block_and_change_def change_priority_def table_sys_def table_call_def test_tell_def uint_pid)

lemma create_counters_table:
  assumes "picks_fresh pick" and "\<forall>t. 0 \<le> pick t" and "leaves after st"
  shows "\<exists>pids log'. create_counters (table_sys pick) after ps (m, log) = (Some pids, m ++ counters pids st, log') \<and>
    own_counters pids m"
proof (induction ps arbitrary: m log)
  case Nil
  then show ?case by (simp add: counters_def own_counters_def)
next
  case (Cons p ps)
  have f: "0 \<le> pick m" "pick m < 2 ^ 31" "m (pick m) = None" using assms(1,2) by (simp_all add: picks_fresh_def)
  define m1 where "m1 = m(pick m \<mapsto> (True, Status_ready))"
  define m2 where "m2 = m(pick m \<mapsto> (True, st))"
  have c: "table_sys pick T_create_counter (m, log) = (pick m, m1, log)"
    using f(1) by (simp add: table_sys_def table_call_def create_in_table_def m1_def)
  have "m1 (pick m) = Some (True, Status_ready)" by (simp add: m1_def)
  then obtain log1 where "after (pick m) p (m1, log) = (m1(pick m \<mapsto> (True, st)), log1)"
    using assms(3) f(1,2) unfolding leaves_def by blast
  then have a: "after (pick m) p (m1, log) = (m2, log1)" by (simp add: m1_def m2_def)
  obtain pids log' where r: "create_counters (table_sys pick) after ps (m2, log1) = (Some pids, m2 ++ counters pids st, log')"
    "own_counters pids m2" using Cons.IH by blast
  have own: "own_counters (pick m # pids) m" using r(2) f by (auto simp: own_counters_def m2_def)
  have "create_counters (table_sys pick) after (p # ps) (m, log) = (Some (pick m # pids), m2 ++ counters pids st, log')"
    using c a r(1) f(1) by simp
  then show ?case using own counters_cons(5) [OF own, of st] unfolding m2_def by auto
qed

text \<open>
  The test of priorities waits for every process it has created, those it had blocked included,
  and ends with 0; no process of it is left.
\<close>

theorem test_prio_leaves_nothing:
  assumes "picks_fresh pick" and "\<forall>t. 0 \<le> pick t" and "satoi a = Some v" and "0 < v"
  shows "\<exists>log'. test_prio (table_sys pick) 1 (a # rest) (m, log) = Some (0, m, log')"
proof -
  note create = create_counters_table [OF assms(1,2)]
  obtain pids1 l1 where p1: "create_counters (table_sys pick) (\<lambda>_ _ w. w) prio (m, log @ [TM_same]) =
      (Some pids1, m ++ counters pids1 Status_ready, l1)" "own_counters pids1 m"
    using create [OF leaves_nothing] by blast
  obtain pids2 l2 where p2: "create_counters (table_sys pick) (change_priority (table_sys pick)) prio (m, l1 @ [TM_change]) =
      (Some pids2, m ++ counters pids2 Status_ready, l2)" "own_counters pids2 m"
    using create [OF leaves_priority] by blast
  obtain pids3 l3 where p3: "create_counters (table_sys pick) (block_and_change (table_sys pick)) prio (m, l2 @ [TM_change_blocked]) =
      (Some pids3, m ++ counters pids3 Status_blocked, l3)" "own_counters pids3 m"
    using create [OF leaves_blocked] by blast
  have "prio_phases (table_sys pick) (m, log) = (0, m, l3)"
    by (simp add: prio_phases_def p1(1) p2(1) p3(1) wait_all_table [OF p1(2)] wait_all_table [OF p2(2)]
        wait_all_table [OF p3(2)] unblock_all_table [OF p3(2)])
  then show ?thesis using assms(3,4) by (simp add: test_prio_def)
qed

end
