(* ===== verification/Spec2Isabelle.thy ===== *)
theory Spec2Isabelle
  imports Fd_Props MyMalloc Shell_Props Mvar Boot Fonts_Props Test_Sync Libsys UScan Exceptions Test_Procs
begin

text \<open>
  Verification of a teaching operating system: a 64 bit kernel with two memory managers, a
  preemptive scheduler with priorities and aging, processes, semaphores, pipes, a timer, a
  keyboard and a system call interface (\<open>src/Kernel\<close>), the C library and the shell that
  run on it (\<open>src/Userland\<close>), and the tool that packs both into one image
  (\<open>src/Toolchain\<close>).

  \<^bold>\<open>How the program is put together.\<close> Every kernel object is a block of the heap of the memory
  manager. Queues are linked lists of such blocks; the scheduler keeps one queue of ready
  processes for each priority, a semaphore keeps one of the processes in line, the timer one
  of the sleepers, a process one of its children. Pipes are rings of bytes with two
  semaphores, file descriptors are numbers of pipes, and a system call is decoded from the
  saved registers and calls one of these. The shell reads lines, parses them into memory it
  allocates through a system call, and creates processes.

  \<^bold>\<open>How it is modelled.\<close> The kernel is one record (\<open>KTypes\<close>): the memory manager, one finite map
  from addresses to objects for each type of heap object, and the static variables. The
  invariant \<open>heap_ok\<close> ties the maps to the allocator: at every block in use there is exactly
  one object, elsewhere none. Operations are functions on the record; \<open>None\<close> is undefined
  behaviour (a dangling or null pointer, an index out of bounds, reading an uninitialised
  field, overflow of a signed integer) or a loop that never ends; error codes of the C
  functions are values. Unsigned integers keep their width. Loops that may not end are
  \<open>partial_function\<close>s, so no fuel is chosen anywhere: a theorem that a call returns shows
  that it yields \<open>Some\<close>. A function that gives up the processor in the middle is a step function on
  frames: each step runs from one such point to the next, and any other code of the kernel
  may run in between.

  \<^bold>\<open>Theories.\<close>
  \<^item> \<open>Prelude\<close>: words, addresses, theorem collections.
  \<^item> \<open>Alloc_Spec\<close>: the contract of \<open>memoryManager.h\<close> as the locales \<open>allocator\<close> and
    \<open>reusing_allocator\<close>, with the runs of a client.
  \<^item> \<open>Buddy_Tree\<close>, \<open>Buddy\<close> (\<open>mmu/buddy.c\<close>): the array of nodes refines a tree of blocks; blocks
    are aligned, disjoint and of the smallest order; split and coalesce are inverse; failure
    exactly when there is no room. Interprets the contract.
  \<^item> \<open>MyMalloc\<close> (\<open>mmu/myMalloc.c\<close>): the block list refines first fit over a list of sizes;
    free blocks are never joined. Interprets the same contract.
  \<^item> \<open>KTypes\<close>: objects of the kernel, the heap invariant, the state at boot.
  \<^item> \<open>Queue_Spec\<close>, \<open>Queue\<close> (\<open>collections/queueADT.c\<close>): linked queues refine lists.
  \<^item> \<open>ProcTable\<close> (\<open>process/process.c\<close>, the table of processes and the foreground process).
  \<^item> \<open>Scheduler\<close>, \<open>Sched_Tick\<close>, \<open>Sched_Props\<close> (\<open>process/scheduler.c\<close>): every operation on the ready
    queues and the tick; the tick keeps the invariant, runs a process of the highest
    priority, loses none, and aging moves exactly the processes that have waited.
  \<^item> \<open>KLib\<close> (\<open>lib.c\<close>, \<open>strings.c\<close>): memcpy on words and bytes, strings, numbers.
  \<^item> \<open>Sem_Spec\<close>, \<open>Sem\<close>, \<open>Sem_Props\<close> (\<open>sem.c\<close>): semaphores with their registry of names refine
    abstract first-in-first-out counting semaphores under every interleaving with the scheduler.
  \<^item> \<open>Frames\<close>: which parts of the state the operations of the scheduler and of semaphores leave alone.
  \<^item> \<open>Pipes\<close>, \<open>Pipe_Props\<close> (\<open>pipes.c\<close>): what is read is what was written, in order.
  \<^item> \<open>Process\<close>, \<open>Create\<close>, \<open>Process_Props\<close>, \<open>Args\<close> (\<open>process/process.c\<close>): creation with its error
    paths, exit, reaping, adoption of orphans, the first process.
  \<^item> \<open>Fd\<close>, \<open>Fd_Props\<close> (\<open>fd.c\<close>): descriptors and their targets, reading and writing.
  \<^item> \<open>Time\<close> (\<open>drivers/time.c\<close>): sleeping and waking. \<open>Keyboard\<close> (\<open>drivers/keyboard.c\<close>): scancodes,
    modifiers and registered keys, no table ever indexed out of bounds.
  \<^item> \<open>Syscall\<close> (\<open>idt/syscallDispatcher.c\<close>): decoding of the registers and the calls.
  \<^item> \<open>ULibc\<close> (\<open>Userland/libc/string.c\<close>, \<open>stdlib.c\<close>), \<open>UStdio\<close> (\<open>stdio.c\<close>, \<open>libsys/ansiColors.c\<close>): the
    library of user programs; printed numbers are read back. \<open>UScan\<close> (\<open>stdio.c\<close>): the standard input
    as the stream of the answers to its reads; what \<open>printf\<close> writes \<open>scanf\<close> reads.
  \<^item> \<open>Shell\<close>, \<open>Shell_Props\<close> (\<open>Userland/Shell/shell.c\<close>): a line of words is parsed into these words
    and all memory comes back; the history shows the last ten lines; descriptors are restored.
  \<^item> \<open>Commands\<close>, \<open>Mvar\<close> (\<open>Userland/Shell/commands.c\<close>): the commands, and the readers and writers of
    \<open>mvar\<close> as a state machine over the abstract semaphores: each value is read once, in order.

  \<^item> \<open>Packer\<close> (\<open>Toolchain/ModulePacker\<close>), \<open>Boot\<close> (\<open>moduleLoader.c\<close>, \<open>kernel.c\<close>, \<open>idt/idtLoader.c\<close>,
    \<open>idt/irqDispatcher.c\<close>): what the packer appends to the kernel is what the loader puts at the
    addresses of the modules, and the cleared section does not destroy it; the gates of the
    interrupt table decode to the addresses of their handlers.
  \<^item> \<open>Video\<close> (\<open>drivers/video.c\<close>), \<open>Font_Table\<close> (\<open>include/font_basic_8x8.h\<close>), \<open>Fonts\<close>,
    \<open>Fonts_Props\<close> (\<open>fonts.c\<close>): text is drawn inside the screen, whatever is printed.
    \<open>Devices\<close> (\<open>cursor.c\<close>, \<open>drivers/sound.c\<close>, and the system calls of the devices).
  \<^item> \<open>Exceptions\<close> (\<open>idt/exceptionDispatcher.c\<close>): the screen of an exception fits, and its handler waits
    for the key it asks for.
  \<^item> \<open>Libsys\<close> (\<open>Userland/libsys/libsys.c\<close>): each wrapper is decoded by the dispatcher into the
    operation of its name, with its arguments.
  \<^item> \<open>Test_MM\<close>, \<open>Test_Sync\<close>, \<open>Test_Procs\<close> (\<open>Userland/tests\<close>): the memory test passes on both memory
    managers, the synchronised counter ends at zero under every interleaving, and the tests of
    processes and priorities use only processes they may, on a table with the contract of the calls.

  \<^bold>\<open>Interfaces.\<close> Five locales state what one part relies on: \<open>allocator\<close> with
  \<open>reusing_allocator\<close> and \<open>placed_allocator\<close> (blocks lie in memory without overlap), interpreted by
  both memory managers, \<open>queue_ops\<close> (interpreted by
  \<open>Queue\<close>, used by everything that keeps a queue) and \<open>semaphore_ops\<close> (interpreted by \<open>Sem\<close>).

  \<^bold>\<open>Parameters.\<close> The address of the static heap is a field that no operation changes. What
  user code does while \<open>sys_exec\<close> runs it, and the answers of the system calls the shell and
  its commands make, are arguments of the definitions that use them. So are the keys the
  option parser of the packer reports and the files it can create, the addresses the
  linker gives to the sections of the kernel, the readings of the clock, and the scaled
  random numbers of the memory test.

  \<^bold>\<open>Not modelled.\<close> The assembly (entry points of interrupts, the switch of the stack, port
  access, the clock chip), which the definitions take as arguments or leave to the scheduler
  step, the copy of the memory test for the developer's machine (\<open>test\<close>), and the vendored boot
  loader and disk tools.
\<close>

end
